(* ===== verification/Rolis_Prelude.thy ===== *)
theory Rolis_Prelude
  imports Main "HOL-Library.Word"
begin

text \<open>
  Shared vocabulary of the development: the machine integers of the C++ sources, the values a
  piece of C++ code may produce instead of a result (a failed assertion, a read or write
  outside a buffer, a thrown abort, a call of \<^verbatim>\<open>exit\<close>), the little-endian image of an integer in
  memory, and \<^verbatim>\<open>memcpy\<close> into and out of a byte buffer.  The general lemmas about them are put
  into the collections \<open>le_simps\<close> and \<open>mem_simps\<close>, which the component theories pass to the
  simplifier.
\<close>

unbundle bit_operations_syntax

section \<open>Machine integers and errors\<close>

type_synonym u8 = "8 word"
type_synonym u16 = "16 word"
type_synonym u32 = "32 word"
type_synonym u64 = "64 word"
type_synonym bytes = "u8 list"

datatype cpp_error =
    Assert_Fail     \<comment> \<open>\<^verbatim>\<open>assert\<close>, \<^verbatim>\<open>always_assert\<close>, \<^verbatim>\<open>ALWAYS_ASSERT\<close> or \<^verbatim>\<open>verify\<close> of a false condition\<close>
  | Out_Of_Bounds   \<comment> \<open>an access outside the buffer: undefined behaviour in C++\<close>
  | Txn_Abort       \<comment> \<open>the exception \<^verbatim>\<open>Transaction::Abort\<close>\<close>
  | Txn_Unusable    \<comment> \<open>the exception \<^verbatim>\<open>transaction_unusable_exception\<close>\<close>
  | Exit_Process    \<comment> \<open>\<^verbatim>\<open>exit(1)\<close>\<close>
  | Spins           \<comment> \<open>the thread waits in a loop for a value another thread has to store\<close>

type_synonym 'a result = "cpp_error + 'a"

named_theorems le_simps "little-endian images of integers"
named_theorems mem_simps "memcpy into and out of byte buffers"
named_theorems result_simps "sequencing of results"

definition rbind :: "'a result \<Rightarrow> ('a \<Rightarrow> 'b result) \<Rightarrow> 'b result" where
  "rbind m f = (case m of Inl e \<Rightarrow> Inl e | Inr x \<Rightarrow> f x)"

definition rassert :: "bool \<Rightarrow> unit result" where
  "rassert b = (if b then Inr () else Inl Assert_Fail)"

lemma rbind_simps [simp, result_simps]:
  "rbind (Inl e) f = Inl e"
  "rbind (Inr x) f = f x"
  by (simp_all add: rbind_def)

lemma rbind_eq_Inr_iff [result_simps]:
  "rbind m f = Inr y \<longleftrightarrow> (\<exists>x. m = Inr x \<and> f x = Inr y)"
  by (cases m) auto

lemma rassert_eq_Inr_iff [simp, result_simps]: "rassert b = Inr u \<longleftrightarrow> b"
  by (simp add: rassert_def)

lemma rassert_True [simp]: "rassert True = Inr ()"
  by (simp add: rassert_def)

lemma rassert_False [simp]: "rassert False = Inl Assert_Fail"
  by (simp add: rassert_def)

text \<open>
  \<open>step_ok P r\<close>: a step of a thread ends in a state with \<open>P\<close>, or waits; no assertion fails and no access is out of bounds.
\<close>

definition step_ok :: "('a \<Rightarrow> bool) \<Rightarrow> 'a result \<Rightarrow> bool" where
  "step_ok P r \<longleftrightarrow> (case r of Inl e \<Rightarrow> e = Spins | Inr s \<Rightarrow> P s)"

lemma step_ok_simps [simp]: "step_ok P (Inl e) \<longleftrightarrow> e = Spins" "step_ok P (Inr s) \<longleftrightarrow> P s"
  by (simp_all add: step_ok_def)

lemma rbind_eq_Inl_iff: "rbind m f = Inl e \<longleftrightarrow> m = Inl e \<or> (\<exists>x. m = Inr x \<and> f x = Inl e)"
  by (cases m) simp_all

lemma rassert_eq_Inl_iff: "rassert b = Inl e \<longleftrightarrow> \<not> b \<and> e = Assert_Fail"
  by (auto simp: rassert_def)

lemma step_ok_runs: "step_ok P r \<Longrightarrow> r \<noteq> Inl Spins \<Longrightarrow> \<exists>s'. r = Inr s'"
  by (cases r) simp_all

lemma ex_bool [simp]: "\<exists>b. b" "\<exists>b. \<not> b"
  by auto

section \<open>Vectors and loops\<close>

text \<open>
  \<open>vec_at v i\<close> is the element \<^verbatim>\<open>v[i]\<close> of a vector, an error outside it; \<open>for_each\<close> is a loop over a
  list of indices or elements whose body may stop with an error.
\<close>

definition vec_at :: "'a list \<Rightarrow> nat \<Rightarrow> 'a result" where
  "vec_at v i = (if i < length v then Inr (v ! i) else Inl Out_Of_Bounds)"

primrec for_each :: "('i \<Rightarrow> 's \<Rightarrow> 's result) \<Rightarrow> 'i list \<Rightarrow> 's \<Rightarrow> 's result" where
  "for_each f [] s = Inr s"
| "for_each f (i # is') s = rbind (f i s) (for_each f is')"

lemma vec_at_eq_Inr_iff [simp, result_simps]: "vec_at v i = Inr x \<longleftrightarrow> i < length v \<and> v ! i = x"
  by (auto simp: vec_at_def)

lemma vec_at_defined [simp]: "i < length v \<Longrightarrow> vec_at v i = Inr (v ! i)"
  by (simp add: vec_at_def)

lemma for_each_append: "for_each f (xs @ ys) s = rbind (for_each f xs s) (for_each f ys)"
  by (induction xs arbitrary: s) (auto simp: rbind_def split: sum.splits)

lemma for_each_invariant:
  assumes "for_each f xs s = Inr s'" and "P s"
    and "\<And>i s s'. i \<in> set xs \<Longrightarrow> P s \<Longrightarrow> f i s = Inr s' \<Longrightarrow> P s'"
  shows "P s'"
  using assms
proof (induction xs arbitrary: s)
  case Nil
  then show ?case by simp
next
  case (Cons x xs)
  from Cons.prems(1) obtain s1 where s1: "f x s = Inr s1" "for_each f xs s1 = Inr s'"
    by (auto simp: rbind_eq_Inr_iff)
  from Cons.prems(3) [OF _ Cons.prems(2) s1(1)] have "P s1" by simp
  then show ?case
    by (rule Cons.IH [OF s1(2)]) (rule Cons.prems(3), simp_all)
qed

text \<open>A loop over \<open>0, \<dots>, n - 1\<close> that makes progress in every round ends in the state after \<open>n\<close> rounds.\<close>

lemma for_each_upt_progress:
  assumes "P 0 s" and "\<And>i s. i < n \<Longrightarrow> P i s \<Longrightarrow> \<exists>s'. f i s = Inr s' \<and> P (Suc i) s'"
  shows "\<exists>s'. for_each f [0..<n] s = Inr s' \<and> P n s'"
  using assms(2)
proof (induction n)
  case 0
  then show ?case using assms(1) by simp
next
  case (Suc n)
  then obtain s1 where s1: "for_each f [0..<n] s = Inr s1" "P n s1" by (meson less_SucI)
  with Suc.prems [of n s1] show ?case by (auto simp: for_each_append)
qed

section \<open>Little-endian images\<close>

text \<open>
  \<open>le_bytes n w\<close> are the first \<open>n\<close> bytes of the memory image of \<open>w\<close> on a little-endian
  machine; \<open>le_word\<close> reads an image back (what \<^verbatim>\<open>memcpy((char *) &x, p, n)\<close> leaves in a zeroed
  \<open>x\<close>).
\<close>

primrec le_bytes :: "nat \<Rightarrow> 'a::len word \<Rightarrow> bytes" where
  "le_bytes 0 w = []"
| "le_bytes (Suc n) w = ucast w # le_bytes n (drop_bit 8 w)"

primrec le_word :: "bytes \<Rightarrow> 'a::len word" where
  "le_word [] = 0"
| "le_word (b # bs) = ucast b OR push_bit 8 (le_word bs)"

lemma length_le_bytes [simp, le_simps]: "length (le_bytes n w) = n"
  by (induction n arbitrary: w) simp_all

lemma le_bytes_eq_Nil_iff [simp]: "le_bytes n w = [] \<longleftrightarrow> n = 0"
  by (cases n) simp_all

lemma le_step:
  fixes w :: "'a::len word"
  shows "ucast (ucast w :: u8) OR push_bit 8 (take_bit n (drop_bit 8 w)) = take_bit (n + 8) w"
  by (rule bit_word_eqI)
    (auto simp: bit_or_iff bit_push_bit_iff bit_take_bit_iff bit_drop_bit_eq bit_ucast_iff
      dest: bit_imp_le_length)

lemma le_word_le_bytes_take_bit: "le_word (le_bytes n w) = take_bit (8 * n) (w :: 'a::len word)"
proof (induction n arbitrary: w)
  case 0
  then show ?case by simp
next
  case (Suc n)
  have "8 * Suc n = 8 * n + 8" by simp
  with Suc.IH [of "drop_bit 8 w"] le_step [of w "8 * n"] show ?case
    by (simp add: add.commute)
qed

lemma le_word_le_bytes [le_simps]:
  "LENGTH('a) \<le> 8 * n \<Longrightarrow> le_word (le_bytes n w) = (w :: 'a::len word)"
  by (simp add: le_word_le_bytes_take_bit take_bit_word_eq_self)

lemma le_word_le_bytes_16 [simp, le_simps]: "le_word (le_bytes 2 w) = (w :: u16)"
  by (rule le_word_le_bytes) simp

lemma le_word_le_bytes_32 [simp, le_simps]: "le_word (le_bytes 4 w) = (w :: u32)"
  by (rule le_word_le_bytes) simp

lemma le_word_le_bytes_64 [simp, le_simps]: "le_word (le_bytes 8 w) = (w :: u64)"
  by (rule le_word_le_bytes) simp

section \<open>Byte buffers\<close>

text \<open>
  \<open>mem_read buf off n\<close> are the \<open>n\<close> bytes at \<^verbatim>\<open>buf + off\<close>, and \<open>mem_write buf off bs\<close> is the
  buffer after \<^verbatim>\<open>memcpy(buf + off, bs, ...)\<close>; both are errors when the range leaves the buffer.
\<close>

definition mem_read :: "bytes \<Rightarrow> nat \<Rightarrow> nat \<Rightarrow> bytes result" where
  "mem_read buf off n =
     (if off + n \<le> length buf then Inr (take n (drop off buf)) else Inl Out_Of_Bounds)"

definition mem_write :: "bytes \<Rightarrow> nat \<Rightarrow> bytes \<Rightarrow> bytes result" where
  "mem_write buf off bs =
     (if off + length bs \<le> length buf
      then Inr (take off buf @ bs @ drop (off + length bs) buf) else Inl Out_Of_Bounds)"

lemma mem_read_length: "mem_read buf off n = Inr bs \<Longrightarrow> length bs = n"
  by (auto simp: mem_read_def split: if_splits)

lemma mem_write_length [mem_simps]: "mem_write buf off bs = Inr buf' \<Longrightarrow> length buf' = length buf"
  by (auto simp: mem_write_def split: if_splits)

lemma mem_write_defined [mem_simps]:
  "off + length bs \<le> length buf \<Longrightarrow>
   mem_write buf off bs = Inr (take off buf @ bs @ drop (off + length bs) buf)"
  by (simp add: mem_write_def)

lemma mem_read_append:
  "off = length pre \<Longrightarrow> n = length bs \<Longrightarrow> mem_read (pre @ bs @ post) off n = Inr bs"
  by (simp add: mem_read_def)

lemma mem_read_write_same:
  "mem_write buf off bs = Inr buf' \<Longrightarrow> mem_read buf' off (length bs) = Inr bs"
  by (auto simp: mem_write_def mem_read_def split: if_splits)

text \<open>The prefix of a buffer grows by what is copied right behind it.\<close>

lemma take_mem_write_append:
  assumes "mem_write buf off bs = Inr buf'"
  shows "take (off + length bs) buf' = take off buf @ bs"
  using assms by (auto simp: mem_write_def split: if_splits)

lemma take_mem_write_below:
  assumes "mem_write buf off bs = Inr buf'" and "n \<le> off"
  shows "take n buf' = take n buf"
  using assms by (auto simp: mem_write_def min_def split: if_splits)

end
