(* ===== verification/Transaction_Tid.thy ===== *)
theory Transaction_Tid
  imports Rolis_Prelude
begin

text \<open>
  The version words of the transactional objects (\<^verbatim>\<open>benchmarks/sto/Interface.hh\<close>): one 64-bit
  word holds a version number, flag bits, a lock bit and the id of the thread that holds the
  lock.  The operations of \<^verbatim>\<open>TransactionTid\<close> are functions on the word; an assertion of the
  source is an \<open>Assert_Fail\<close>.  A compare-and-swap whose expected value was read earlier takes
  that value as an argument of its own, so the interleaving of several threads is expressible:
  the step relation \<open>lock_step\<close> lets any number of threads run \<^verbatim>\<open>try_lock\<close>, \<^verbatim>\<open>set_version\<close> and
  \<^verbatim>\<open>unlock\<close> on one word.  The classes \<^verbatim>\<open>TVersion\<close> and \<^verbatim>\<open>TNonopaqueVersion\<close> forward to these
  functions; \<^verbatim>\<open>TCommutativeVersion\<close> uses the thread bits as a count of lock owners.
\<close>

section \<open>Layout of the word\<close>

definition MAX_THREADS :: nat where
  "MAX_THREADS = 128"

definition threadid_mask :: u64 where
  "threadid_mask = 0x7F"

definition lock_bit :: u64 where
  "lock_bit = 0x80"

definition nonopaque_bit :: u64 where
  "nonopaque_bit = 0x100"

definition user_bit :: u64 where
  "user_bit = 0x200"

definition increment_value :: u64 where
  "increment_value = 0x1000"

lemmas tid_layout = threadid_mask_def lock_bit_def nonopaque_bit_def user_bit_def increment_value_def

text \<open>\<^verbatim>\<open>TThread::set_id\<close>: the id of the running thread; thread-local state is passed explicitly.\<close>

definition set_id :: "int \<Rightarrow> int result" where
  "set_id i = rbind (rassert (0 \<le> i \<and> i < int MAX_THREADS)) (\<lambda>_. Inr i)"

section \<open>Reader-writer use of the word\<close>

text \<open>
  The spin loops \<^verbatim>\<open>lock_read\<close> and \<^verbatim>\<open>lock_write\<close>.  A turn of the loop reads the word (\<open>vv\<close>) and
  then compares and swaps against what the word is by then (\<open>cur\<close>); the list holds these two
  values for the turns that are scheduled, and \<open>None\<close> is that the loop still spins after them.
\<close>

fun lock_read :: "(u64 \<times> u64) list \<Rightarrow> u64 option" where
  "lock_read [] = None"
| "lock_read ((vv, cur) # turns) =
     (if vv AND lock_bit = 0 \<and> cur = vv then Some (vv + 1) else lock_read turns)"

fun lock_write :: "(u64 \<times> u64) list \<Rightarrow> u64 option" where
  "lock_write [] = None"
| "lock_write ((vv, cur) # turns) =
     (if vv AND threadid_mask = 0 \<and> vv AND lock_bit = 0 \<and> cur = vv
      then Some (vv OR lock_bit) else lock_write turns)"

definition is_locked :: "u64 \<Rightarrow> bool" where
  "is_locked v \<longleftrightarrow> v AND lock_bit \<noteq> 0"

definition inc_write_version :: "u64 \<Rightarrow> u64 result" where
  "inc_write_version v = rbind (rassert (is_locked v)) (\<lambda>_. Inr (v + increment_value))"

definition unlock_read :: "u64 \<Rightarrow> u64 result" where
  "unlock_read v = rbind (rassert (v > 0)) (\<lambda>_. Inr (v - 1))"

definition unlock_write :: "u64 \<Rightarrow> u64" where
  "unlock_write v = v AND NOT lock_bit"

section \<open>Exclusive lock with owner\<close>

definition is_locked_here :: "u64 \<Rightarrow> u64 \<Rightarrow> bool" where
  "is_locked_here v here \<longleftrightarrow> v AND (lock_bit OR threadid_mask) = lock_bit OR here"

definition is_locked_elsewhere :: "u64 \<Rightarrow> u64 \<Rightarrow> bool" where
  "is_locked_elsewhere v here \<longleftrightarrow>
     (let m = v AND (lock_bit OR threadid_mask) in m \<noteq> 0 \<and> m \<noteq> lock_bit OR here)"

text \<open>\<^verbatim>\<open>try_lock\<close>: \<open>vv\<close> is the value read first, \<open>cur\<close> the word at the compare-and-swap.\<close>

definition try_lock_cas :: "u64 \<Rightarrow> u64 \<Rightarrow> u64 \<Rightarrow> bool \<times> u64" where
  "try_lock_cas vv cur here =
     (if cur = vv AND NOT lock_bit then (True, vv OR lock_bit OR here) else (False, cur))"

definition try_lock :: "u64 \<Rightarrow> u64 \<Rightarrow> bool \<times> u64" where
  "try_lock v here = try_lock_cas v v here"

text \<open>\<^verbatim>\<open>lock\<close> repeats \<^verbatim>\<open>try_lock\<close> until it succeeds; the list is as above.\<close>

fun lock :: "(u64 \<times> u64) list \<Rightarrow> u64 \<Rightarrow> u64 option" where
  "lock [] here = None"
| "lock ((vv, cur) # turns) here =
     (case try_lock_cas vv cur here of
        (True, v') \<Rightarrow> Some v'
      | (False, _) \<Rightarrow> lock turns here)"

definition unlocked :: "u64 \<Rightarrow> u64" where
  "unlocked v = v AND NOT (lock_bit OR threadid_mask)"

definition unlock :: "u64 \<Rightarrow> u64 \<Rightarrow> u64 result" where
  "unlock v here = rbind (rassert (is_locked_here v here))
     (\<lambda>_. Inr (v AND NOT (lock_bit OR threadid_mask)))"

section \<open>Setting and checking versions\<close>

definition set_version :: "u64 \<Rightarrow> u64 \<Rightarrow> u64 \<Rightarrow> u64 result" where
  "set_version v new_v here =
     rbind (rassert (is_locked_here v here)) (\<lambda>_.
     rbind (rassert (new_v AND (lock_bit OR threadid_mask) = 0)) (\<lambda>_.
     Inr (new_v OR (lock_bit OR here))))"

definition set_version_locked :: "u64 \<Rightarrow> u64 \<Rightarrow> u64 \<Rightarrow> u64 result" where
  "set_version_locked v new_v here =
     rbind (rassert (is_locked_here v here)) (\<lambda>_.
     rbind (rassert (is_locked_here new_v here)) (\<lambda>_. Inr new_v))"

definition set_version_unlock :: "u64 \<Rightarrow> u64 \<Rightarrow> u64 \<Rightarrow> u64 result" where
  "set_version_unlock v new_v here =
     rbind (rassert (is_locked_here v here)) (\<lambda>_.
     rbind (rassert (\<not> is_locked new_v \<or> is_locked_here new_v here)) (\<lambda>_.
     Inr (new_v AND NOT (lock_bit OR threadid_mask))))"

definition set_nonopaque :: "u64 \<Rightarrow> u64" where
  "set_nonopaque v = v OR nonopaque_bit"

definition next_nonopaque_version :: "u64 \<Rightarrow> u64" where
  "next_nonopaque_version v = (v + increment_value) OR nonopaque_bit"

definition next_unflagged_nonopaque_version :: "u64 \<Rightarrow> u64" where
  "next_unflagged_nonopaque_version v =
     ((v + increment_value) AND NOT (increment_value - 1)) OR nonopaque_bit"

definition inc_nonopaque_version :: "u64 \<Rightarrow> u64 \<Rightarrow> u64 result" where
  "inc_nonopaque_version v here =
     rbind (rassert (is_locked_here v here)) (\<lambda>_.
     Inr ((v + increment_value) OR nonopaque_bit))"

text \<open>The assertion of \<^verbatim>\<open>check_version\<close> asks about the running thread, \<open>self\<close>, not about \<open>here\<close>.\<close>

definition check_version :: "u64 \<Rightarrow> u64 \<Rightarrow> u64 \<Rightarrow> u64 \<Rightarrow> bool result" where
  "check_version cur_vers old_vers here self =
     rbind (rassert (\<not> is_locked_elsewhere old_vers self)) (\<lambda>_.
     Inr (cur_vers = old_vers \<or> cur_vers = old_vers OR lock_bit OR here))"

definition try_check_opacity :: "u64 \<Rightarrow> u64 \<Rightarrow> bool" where
  "try_check_opacity start_tid v \<longleftrightarrow>
     sint (start_tid - v) > 0 \<and> v AND (lock_bit OR nonopaque_bit) = 0"

section \<open>Version with a count of lock owners\<close>

definition tcv_is_locked :: "u64 \<Rightarrow> bool" where
  "tcv_is_locked v \<longleftrightarrow> v AND threadid_mask > 0"

definition tcv_num_locks :: "u64 \<Rightarrow> u32" where
  "tcv_num_locks v = ucast (v AND threadid_mask)"

definition tcv_lock :: "u64 \<Rightarrow> u64" where
  "tcv_lock v = v + 1"

definition tcv_try_lock :: "u64 \<Rightarrow> bool \<times> u64" where
  "tcv_try_lock v = (True, tcv_lock v)"

definition tcv_unlock :: "u64 \<Rightarrow> u64" where
  "tcv_unlock v = v - 1"

text \<open>
  The compare-and-swap loops of \<^verbatim>\<open>set_version\<close> and \<^verbatim>\<open>inc_nonopaque_version\<close>.  Each turn reads the
  word (\<open>cur\<close>) and swaps against what it is by then (\<open>now\<close>); the result is the word the call
  leaves behind.
\<close>

fun tcv_set_version_loop :: "(u64 \<times> u64) list \<Rightarrow> u64 \<Rightarrow> u64 option" where
  "tcv_set_version_loop [] new_v = None"
| "tcv_set_version_loop ((cur, now) # turns) new_v =
     (if unlocked cur > unlocked new_v then Some now
      else if now = cur then Some (new_v OR (cur AND threadid_mask))
      else tcv_set_version_loop turns new_v)"

definition tcv_set_version :: "(u64 \<times> u64) list \<Rightarrow> u64 \<Rightarrow> u64 option result" where
  "tcv_set_version turns new_v =
     rbind (rassert (new_v AND threadid_mask = 0)) (\<lambda>_. Inr (tcv_set_version_loop turns new_v))"

fun tcv_inc_loop :: "(u64 \<times> u64) list \<Rightarrow> u64 option" where
  "tcv_inc_loop [] = None"
| "tcv_inc_loop ((cur, now) # turns) =
     (if now = cur then Some ((cur + increment_value) OR nonopaque_bit) else tcv_inc_loop turns)"

definition tcv_inc_nonopaque_version :: "u64 \<Rightarrow> (u64 \<times> u64) list \<Rightarrow> u64 option result" where
  "tcv_inc_nonopaque_version v turns =
     rbind (rassert (tcv_is_locked v)) (\<lambda>_. Inr (tcv_inc_loop turns))"

definition tcv_check_version :: "u64 \<Rightarrow> u64 \<Rightarrow> bool \<Rightarrow> bool" where
  "tcv_check_version v old_vers locked_by_us \<longleftrightarrow> v = old_vers OR (if locked_by_us then 1 else 0)"

section \<open>Bits of the word\<close>

named_theorems tid_bits "bits of the version word"

lemma lock_or_mask: "lock_bit OR threadid_mask = 0xFF"
  by (simp add: tid_layout)

lemma mask_8: "(0xFF :: u64) = mask 8"
  by (simp add: mask_eq_exp_minus_1)

lemma mask_7: "threadid_mask = mask 7"
  by (simp add: mask_eq_exp_minus_1 tid_layout)

lemma bit_lock_bit [simp, tid_bits]: "bit lock_bit n \<longleftrightarrow> n = 7"
proof -
  have eq: "lock_bit = push_bit 7 1" by (simp add: tid_layout)
  show ?thesis by (simp only: eq bit_push_bit_iff bit_1_iff) auto
qed

lemma bit_nonopaque_bit [simp, tid_bits]: "bit nonopaque_bit n \<longleftrightarrow> n = 8"
proof -
  have eq: "nonopaque_bit = push_bit 8 1" by (simp add: tid_layout)
  show ?thesis by (simp only: eq bit_push_bit_iff bit_1_iff) auto
qed

lemma bit_threadid_mask [simp, tid_bits]: "bit threadid_mask n \<longleftrightarrow> n < 7"
  by (auto simp: mask_7 bit_mask_iff possible_bit_def)

lemma thread_bits:
  assumes "here < (128 :: u64)" and "bit here n"
  shows "n < 7"
proof -
  have "bit (uint here) n"
    using assms(2) bit_imp_le_length [OF assms(2)] by (simp add: bit_uint_iff)
  moreover have "uint here < 2 ^ 7" using assms(1) by (simp add: word_less_def)
  moreover have "0 \<le> uint here" by simp
  ultimately show ?thesis by (metis bit_take_bit_iff take_bit_int_eq_self)
qed

lemma take_bit_8_increment: "take_bit 8 (v + 0x1000) = take_bit 8 (v :: u64)"
proof -
  have d: "(256::nat) dvd 18446744073709551616" by (rule dvdI [of _ _ 72057594037927936]) simp
  have "unat (take_bit 8 (v + 0x1000)) = unat (v + 0x1000) mod 256"
    by (simp add: take_bit_eq_mod unat_mod_distrib)
  also have "unat (v + 0x1000) = (unat v + 4096) mod 18446744073709551616"
    by (simp add: unat_word_ariths)
  also have "(unat v + 4096) mod 18446744073709551616 mod 256 = (unat v + 4096) mod 256"
    using d by (rule mod_mod_cancel)
  also have "\<dots> = unat v mod 256" using mod_mult_self1 [of "unat v" 16 256] by simp
  also have "\<dots> = unat (take_bit 8 v)" by (simp add: take_bit_eq_mod unat_mod_distrib)
  finally show ?thesis by (simp only: word_unat_eq_iff)
qed

text \<open>The lock state is the low byte of the word.\<close>

definition low8 :: "u64 \<Rightarrow> u64" where
  "low8 v = take_bit 8 v"

lemma and_lock_or_mask [tid_bits]: "v AND (lock_bit OR threadid_mask) = low8 v"
  by (simp only: lock_or_mask mask_8 low8_def take_bit_eq_mask)

lemma low8_or_lock [tid_bits]: "low8 (v OR lock_bit OR here) = low8 v OR lock_bit OR here"
  if "here < 128"
  by (rule bit_word_eqI) (auto simp: low8_def bit_or_iff bit_take_bit_iff dest: thread_bits [OF that])

lemma low8_clear [tid_bits]: "low8 (v AND NOT lock_bit AND NOT threadid_mask) = 0"
  by (rule bit_word_eqI) (auto simp: low8_def bit_and_iff bit_not_iff bit_take_bit_iff)

lemma low8_add_high [tid_bits]: "low8 ((v + increment_value) OR nonopaque_bit) = low8 v"
proof -
  have "take_bit 8 nonopaque_bit = (0 :: u64)"
    by (rule bit_word_eqI) (simp add: bit_take_bit_iff)
  then show ?thesis
    by (simp only: low8_def take_bit_or increment_value_def take_bit_8_increment or.right_neutral)
qed

lemma is_locked_here_low8: "is_locked_here v here \<longleftrightarrow> low8 v = lock_bit OR here"
  by (simp add: is_locked_here_def and_lock_or_mask)

lemma is_locked_bit: "is_locked v \<longleftrightarrow> bit v 7"
proof -
  have "v AND lock_bit = (if bit v 7 then lock_bit else 0)"
    by (rule bit_word_eqI) (auto simp: bit_and_iff)
  moreover have "lock_bit \<noteq> 0" by (simp add: tid_layout)
  ultimately show ?thesis by (simp add: is_locked_def)
qed

lemma is_locked_low8: "is_locked v \<longleftrightarrow> is_locked (low8 v)"
  by (simp add: is_locked_bit low8_def bit_take_bit_iff)

lemma is_locked_low8_owner: "here < 128 \<Longrightarrow> low8 v = lock_bit OR here \<Longrightarrow> is_locked v"
  by (subst is_locked_low8) (simp add: is_locked_bit bit_or_iff)

lemma owner_unique:
  assumes "a < 128" and "b < 128" and "lock_bit OR a = lock_bit OR b"
  shows "a = b"
proof (rule bit_word_eqI)
  fix n
  show "bit a n \<longleftrightarrow> bit b n"
  proof (cases "n = 7")
    case True
    with assms(1,2) show ?thesis by (auto dest: thread_bits)
  next
    case False
    have "bit (lock_bit OR a) n = bit (lock_bit OR b) n" using assms(3) by simp
    with False show ?thesis by (simp add: bit_or_iff)
  qed
qed

text \<open>
  A word is well formed when an unlocked word carries no thread id and a locked word carries the
  id of a thread.  Every operation keeps this.
\<close>

definition word_wf :: "u64 \<Rightarrow> bool" where
  "word_wf v \<longleftrightarrow> low8 v = 0 \<or> is_locked v"

lemma try_lock_cas_success:
  assumes "try_lock_cas vv cur here = (True, v')" and "here < 128" and "word_wf cur"
  shows "low8 cur = 0" and "low8 v' = lock_bit OR here"
proof -
  from assms(1) have cur: "cur = vv AND NOT lock_bit" and v': "v' = vv OR lock_bit OR here"
    by (auto simp: try_lock_cas_def split: if_splits)
  have "\<not> is_locked cur" by (simp add: cur is_locked_bit bit_and_iff bit_not_iff)
  with assms(3) show z: "low8 cur = 0" by (simp add: word_wf_def)
  have "low8 v' = low8 cur OR lock_bit OR here"
    by (intro bit_word_eqI)
      (auto simp: low8_def bit_take_bit_iff bit_or_iff bit_and_iff bit_not_iff v' cur
        dest: thread_bits [OF assms(2)])
  then show "low8 v' = lock_bit OR here" by (simp add: z)
qed

lemma unlock_low8:
  assumes "unlock v here = Inr v'"
  shows "low8 v = lock_bit OR here" and "low8 v' = 0"
  using assms
  by (auto simp: unlock_def is_locked_here_low8 low8_clear result_simps)

lemma set_version_low8:
  assumes "set_version v new_v here = Inr v'" and "here < 128"
  shows "low8 v = lock_bit OR here" and "low8 v' = lock_bit OR here"
proof -
  from assms(1) have v: "low8 v = lock_bit OR here" and n: "low8 new_v = 0"
    and v': "v' = new_v OR lock_bit OR here"
    by (auto simp: set_version_def is_locked_here_low8 and_lock_or_mask result_simps)
  show "low8 v = lock_bit OR here" by (rule v)
  show "low8 v' = lock_bit OR here" by (simp add: v' low8_or_lock [OF assms(2)] n)
qed

lemma set_version_unlock_low8:
  assumes "set_version_unlock v new_v here = Inr v'"
  shows "low8 v = lock_bit OR here" and "low8 v' = 0"
  using assms
  by (auto simp: set_version_unlock_def is_locked_here_low8 low8_clear result_simps)

lemma inc_nonopaque_version_low8:
  assumes "inc_nonopaque_version v here = Inr v'"
  shows "low8 v = lock_bit OR here" and "low8 v' = lock_bit OR here"
  using assms
  by (auto simp: inc_nonopaque_version_def is_locked_here_low8 low8_add_high result_simps)

section \<open>Threads interleaved on one word\<close>

text \<open>
  Each thread is idle, has read the word as the first half of \<^verbatim>\<open>try_lock\<close>, or holds the lock.
  Every memory access is a step of its own; a holder may set the version (by \<^verbatim>\<open>set_version\<close> or
  \<^verbatim>\<open>inc_nonopaque_version\<close>) any number of times and releases with \<^verbatim>\<open>unlock\<close> or
  \<^verbatim>\<open>set_version_unlock\<close>.
\<close>

datatype lock_pc = Idle | Have_Read u64 | Holding

record lock_sys =
  vword :: u64
  pcs :: "nat \<Rightarrow> lock_pc"

definition tid_of :: "nat \<Rightarrow> u64" where
  "tid_of i = word_of_nat i"

inductive lock_step :: "lock_sys \<Rightarrow> lock_sys \<Rightarrow> bool" where
  read_word: "i < MAX_THREADS \<Longrightarrow> pcs s i = Idle \<Longrightarrow>
     lock_step s (s\<lparr>pcs := (pcs s)(i := Have_Read (vword s))\<rparr>)"
| cas: "i < MAX_THREADS \<Longrightarrow> pcs s i = Have_Read vv \<Longrightarrow>
     try_lock_cas vv (vword s) (tid_of i) = (ok, w) \<Longrightarrow>
     lock_step s (s\<lparr>vword := w, pcs := (pcs s)(i := if ok then Holding else Idle)\<rparr>)"
| do_set_version: "i < MAX_THREADS \<Longrightarrow> pcs s i = Holding \<Longrightarrow>
     set_version (vword s) new_v (tid_of i) = Inr w \<Longrightarrow> lock_step s (s\<lparr>vword := w\<rparr>)"
| do_inc: "i < MAX_THREADS \<Longrightarrow> pcs s i = Holding \<Longrightarrow>
     inc_nonopaque_version (vword s) (tid_of i) = Inr w \<Longrightarrow> lock_step s (s\<lparr>vword := w\<rparr>)"
| do_set_unlock: "i < MAX_THREADS \<Longrightarrow> pcs s i = Holding \<Longrightarrow>
     set_version_unlock (vword s) new_v (tid_of i) = Inr w \<Longrightarrow>
     lock_step s (s\<lparr>vword := w, pcs := (pcs s)(i := Idle)\<rparr>)"
| do_unlock: "i < MAX_THREADS \<Longrightarrow> pcs s i = Holding \<Longrightarrow>
     unlock (vword s) (tid_of i) = Inr w \<Longrightarrow>
     lock_step s (s\<lparr>vword := w, pcs := (pcs s)(i := Idle)\<rparr>)"

inductive lock_reachable :: "u64 \<Rightarrow> lock_sys \<Rightarrow> bool" for v0 where
  lock_init: "low8 v0 = 0 \<Longrightarrow> lock_reachable v0 \<lparr>vword = v0, pcs = (\<lambda>_. Idle)\<rparr>"
| lock_next: "lock_reachable v0 s \<Longrightarrow> lock_step s t \<Longrightarrow> lock_reachable v0 t"

definition lock_inv :: "lock_sys \<Rightarrow> bool" where
  "lock_inv s \<longleftrightarrow>
     (\<forall>i. pcs s i = Holding \<longrightarrow> i < MAX_THREADS \<and> low8 (vword s) = lock_bit OR tid_of i) \<and>
     ((\<forall>i. pcs s i \<noteq> Holding) \<longrightarrow> low8 (vword s) = 0)"

lemma tid_of_less: "i < MAX_THREADS \<Longrightarrow> tid_of i < 128"
  by (simp add: tid_of_def MAX_THREADS_def word_less_nat_alt take_bit_nat_eq_self unat_of_nat)

lemma tid_of_inj: "i < MAX_THREADS \<Longrightarrow> j < MAX_THREADS \<Longrightarrow> tid_of i = tid_of j \<Longrightarrow> i = j"
  by (simp add: tid_of_def MAX_THREADS_def word_unat_eq_iff unat_of_nat)

lemma lock_inv_word_wf: "lock_inv s \<Longrightarrow> word_wf (vword s)"
  by (auto simp: lock_inv_def word_wf_def intro: is_locked_low8_owner tid_of_less)

lemma lock_inv_owner:
  assumes "lock_inv s" and "pcs s i = Holding" and "j < MAX_THREADS"
    and "low8 (vword s) = lock_bit OR tid_of j"
  shows "i = j"
proof -
  from assms(1,2) have i: "i < MAX_THREADS" "low8 (vword s) = lock_bit OR tid_of i"
    by (auto simp: lock_inv_def)
  with assms(4) have "tid_of i = tid_of j"
    by (intro owner_unique [OF tid_of_less [OF i(1)] tid_of_less [OF assms(3)]]) simp
  with i(1) assms(3) show ?thesis by (auto intro: tid_of_inj)
qed

lemma lock_inv_holder_unique: "lock_inv s \<Longrightarrow> pcs s i = Holding \<Longrightarrow> pcs s j = Holding \<Longrightarrow> i = j"
  by (rule lock_inv_owner) (auto simp: lock_inv_def)

lemma lock_inv_same_holders:
  "lock_inv s \<Longrightarrow> low8 (vword t) = low8 (vword s) \<Longrightarrow>
   (\<And>j. pcs t j = Holding \<longleftrightarrow> pcs s j = Holding) \<Longrightarrow> lock_inv t"
  by (simp add: lock_inv_def)

lemma lock_step_inv: "lock_step s t \<Longrightarrow> lock_inv s \<Longrightarrow> lock_inv t"
proof (induction rule: lock_step.induct)
  case (read_word i s)
  then show ?case by (intro lock_inv_same_holders [OF read_word(3)]) auto
next
  case (cas i s vv ok w)
  show ?case
  proof (cases ok)
    case True
    with cas have w: "low8 (vword s) = 0" "low8 w = lock_bit OR tid_of i"
      by (auto dest: try_lock_cas_success [OF _ tid_of_less] lock_inv_word_wf)
    have "lock_bit OR tid_of j \<noteq> 0" for j
      using bit_or_iff [of lock_bit "tid_of j" 7] by auto
    with w(1) cas(4) have "pcs s j \<noteq> Holding" for j by (auto simp: lock_inv_def)
    with w cas True show ?thesis by (auto simp: lock_inv_def)
  next
    case False
    with cas have "w = vword s" by (auto simp: try_lock_cas_def split: if_splits)
    with cas False show ?thesis by (intro lock_inv_same_holders [OF cas(4)]) auto
  qed
next
  case (do_set_version i s new_v w)
  from set_version_low8 [OF do_set_version(3) tid_of_less [OF do_set_version(1)]]
  show ?case by (intro lock_inv_same_holders [OF do_set_version(4)]) simp_all
next
  case (do_inc i s w)
  from inc_nonopaque_version_low8 [OF do_inc(3)]
  show ?case by (intro lock_inv_same_holders [OF do_inc(4)]) simp_all
next
  case (do_set_unlock i s new_v w)
  then have "pcs s j \<noteq> Holding" if "j \<noteq> i" for j
    using that lock_inv_holder_unique by blast
  with do_set_unlock show ?case by (auto simp: lock_inv_def dest: set_version_unlock_low8)
next
  case (do_unlock i s w)
  then have "pcs s j \<noteq> Holding" if "j \<noteq> i" for j
    using that lock_inv_holder_unique by blast
  with do_unlock show ?case by (auto simp: lock_inv_def dest: unlock_low8)
qed

lemma lock_reachable_inv: "lock_reachable v0 s \<Longrightarrow> lock_inv s"
proof (induction rule: lock_reachable.induct)
  case lock_init
  then show ?case by (simp add: lock_inv_def)
next
  case (lock_next s t)
  then show ?case by (blast intro: lock_step_inv)
qed

text \<open>
  C11.  However the threads' reads, compare-and-swaps, version updates and releases interleave,
  at most one thread holds the lock; the word then carries the lock bit and that thread's id, and
  the assertion of \<^verbatim>\<open>unlock\<close> holds for the holder.
\<close>

theorem lock_mutual_exclusion:
  assumes "lock_reachable v0 s" and "pcs s i = Holding" and "pcs s j = Holding"
  shows "i = j \<and> is_locked_here (vword s) (tid_of i) \<and>
    unlock (vword s) (tid_of i) = Inr (unlocked (vword s))"
proof -
  from assms(1) have inv: "lock_inv s" by (rule lock_reachable_inv)
  with assms(2) have "is_locked_here (vword s) (tid_of i)"
    by (auto simp: lock_inv_def is_locked_here_low8)
  moreover from inv assms(2,3) have "i = j" by (rule lock_inv_holder_unique)
  ultimately show ?thesis by (simp add: unlock_def unlocked_def)
qed

lemma lock_run_example:
  "lock_reachable 0x1000 \<lparr>vword = 0x1085, pcs = (\<lambda>_. Idle)(5 := Holding, 3 := Have_Read 0x1000)\<rparr>"
proof -
  let ?s0 = "\<lparr>vword = 0x1000, pcs = (\<lambda>_. Idle)\<rparr>"
  let ?s1 = "?s0\<lparr>pcs := (pcs ?s0)(5 := Have_Read (vword ?s0))\<rparr>"
  let ?s2 = "?s1\<lparr>pcs := (pcs ?s1)(3 := Have_Read (vword ?s1))\<rparr>"
  let ?s3 = "?s2\<lparr>vword := 0x1085, pcs := (pcs ?s2)(5 := if True then Holding else Idle)\<rparr>"
  have 0: "lock_reachable 0x1000 ?s0"
    by (rule lock_init) (simp add: low8_def take_bit_eq_mod)
  have 1: "lock_reachable 0x1000 ?s1"
    by (rule lock_next [OF 0], rule read_word) (simp_all add: MAX_THREADS_def)
  have 2: "lock_reachable 0x1000 ?s2"
    by (rule lock_next [OF 1], rule read_word) (simp_all add: MAX_THREADS_def)
  have 3: "lock_reachable 0x1000 ?s3"
    by (rule lock_next [OF 2], rule cas [where vv = "0x1000" and ok = True])
      (simp_all add: MAX_THREADS_def try_lock_cas_def tid_of_def tid_layout)
  moreover have "?s3 = \<lparr>vword = 0x1085, pcs = (\<lambda>_. Idle)(5 := Holding, 3 := Have_Read 0x1000)\<rparr>"
    by (simp add: fun_upd_twist)
  ultimately show ?thesis by simp
qed

theorem lock_mutual_exclusion_witness:
  "is_locked_here 0x1085 (tid_of 5) \<and> unlock 0x1085 (tid_of 5) = Inr (unlocked 0x1085)"
  using lock_mutual_exclusion [OF lock_run_example, of 5 5] by simp

section \<open>Sequential behaviour\<close>

lemma word_split_low8: "v = unlocked v OR low8 v"
  by (rule bit_word_eqI)
    (auto simp: unlocked_def low8_def bit_or_iff bit_and_iff bit_not_iff bit_take_bit_iff)

lemma low8_zero_bit: "low8 v = 0 \<Longrightarrow> n < 8 \<Longrightarrow> \<not> bit v n"
  by (metis bit_0_eq bit_take_bit_iff bot_apply bot_bool_def low8_def)

lemma unlocked_or_lock:
  assumes "low8 v = 0" and "here < 128"
  shows "unlocked (v OR lock_bit OR here) = v"
  using low8_zero_bit [OF assms(1)]
  by (intro bit_word_eqI)
    (force simp: unlocked_def bit_or_iff bit_and_iff bit_not_iff dest: thread_bits [OF assms(2)])

lemma unlocked_id: "low8 v = 0 \<Longrightarrow> unlocked v = v"
  using word_split_low8 [of v] by simp

text \<open>
  An unlocked version word is locked by \<^verbatim>\<open>try_lock\<close> at once and \<^verbatim>\<open>unlock\<close> gives back the very
  same word; on a word locked by any thread \<^verbatim>\<open>try_lock\<close> fails and leaves it as it is.
\<close>

theorem try_lock_unlock_roundtrip:
  assumes "here < 128"
  shows "(low8 v = 0 \<longrightarrow> (\<exists>v'. try_lock v here = (True, v') \<and> is_locked_here v' here \<and>
            unlock v' here = Inr v)) \<and>
         (is_locked v \<longrightarrow> try_lock v here = (False, v))"
proof (intro conjI impI)
  assume z: "low8 v = 0"
  have "\<not> bit v 7" by (rule low8_zero_bit [OF z]) simp
  then have "v AND NOT lock_bit = v"
    by (intro bit_word_eqI) (auto simp: bit_and_iff bit_not_iff)
  moreover have "is_locked_here (v OR lock_bit OR here) here"
    by (simp add: is_locked_here_low8 low8_or_lock [OF assms] z)
  ultimately show "\<exists>v'. try_lock v here = (True, v') \<and> is_locked_here v' here \<and> unlock v' here = Inr v"
    using unlocked_or_lock [OF z assms]
    by (auto simp: try_lock_def try_lock_cas_def unlock_def unlocked_def)
next
  assume "is_locked v"
  then have "bit v 7" by (simp add: is_locked_bit)
  moreover have "\<not> bit (v AND NOT lock_bit) 7" by (simp add: bit_and_iff bit_not_iff)
  ultimately have "v \<noteq> v AND NOT lock_bit" by metis
  then show "try_lock v here = (False, v)" by (simp add: try_lock_def try_lock_cas_def)
qed

theorem try_lock_unlock_roundtrip_witness:
  "low8 0x3000 = 0 \<and> is_locked 0x3085 \<and>
   (\<exists>v'. try_lock 0x3000 7 = (True, v') \<and> is_locked_here v' 7 \<and> unlock v' 7 = Inr 0x3000) \<and>
   try_lock 0x3085 7 = (False, 0x3085)"
proof -
  have l: "low8 0x3000 = 0" "is_locked 0x3085"
    by (simp_all add: low8_def take_bit_eq_mod is_locked_def tid_layout)
  show ?thesis
    using l try_lock_unlock_roundtrip [of 7 "0x3000"] try_lock_unlock_roundtrip [of 7 "0x3085"]
    by simp
qed

text \<open>
  The commit-time check of a read compares against a version that was observed unlocked.
  On a well-formed word it succeeds exactly when the version number and flags are the observed
  ones and no other thread holds the lock; the lock of the checking thread itself does not count.
\<close>

theorem check_version_iff:
  assumes "low8 old = 0" and "here < 128" and "word_wf cur"
  shows "check_version cur old here here =
    Inr (unlocked cur = old \<and> \<not> is_locked_elsewhere cur here)"
proof -
  have neq: "lock_bit OR here \<noteq> 0" using bit_or_iff [of lock_bit here 7] by auto
  have old: "\<not> is_locked_elsewhere old here"
    by (simp add: is_locked_elsewhere_def and_lock_or_mask assms(1) Let_def)
  have "(cur = old \<or> cur = old OR lock_bit OR here) \<longleftrightarrow>
      unlocked cur = old \<and> \<not> is_locked_elsewhere cur here"
  proof (cases "low8 cur = 0")
    case True
    then have "cur \<noteq> old OR lock_bit OR here"
      using low8_or_lock [OF assms(2), of old] assms(1) neq by auto
    with True show ?thesis
      by (simp add: unlocked_id is_locked_elsewhere_def and_lock_or_mask Let_def)
  next
    case False
    then have "cur \<noteq> old" using assms(1) by auto
    moreover have "cur = old OR lock_bit OR here \<longleftrightarrow> unlocked cur = old \<and> low8 cur = lock_bit OR here"
      using word_split_low8 [of cur] low8_or_lock [OF assms(2), of old] assms(1)
        unlocked_or_lock [OF assms(1,2)] by auto
    ultimately show ?thesis
      using False by (auto simp: is_locked_elsewhere_def and_lock_or_mask Let_def)
  qed
  with old show ?thesis by (simp add: check_version_def)
qed

theorem check_version_iff_witness:
  "check_version 0x3085 0x3000 5 5 = Inr True \<and> check_version 0x3085 0x3000 4 4 = Inr False"
proof -
  have l: "low8 0x3000 = 0" "word_wf 0x3085"
    by (simp_all add: low8_def take_bit_eq_mod word_wf_def is_locked_def tid_layout)
  show ?thesis
    using check_version_iff [OF l(1) _ l(2), of 5] check_version_iff [OF l(1) _ l(2), of 4]
    by (simp add: unlocked_def is_locked_elsewhere_def tid_layout)
qed

section \<open>Owners of a counting version\<close>

text \<open>
  Threads on one \<^verbatim>\<open>TCommutativeVersion\<close>: the set is the owners of the lock, at most 127 at a time.  A
  thread takes the lock with \<^verbatim>\<open>try_lock\<close> and gives it back with \<^verbatim>\<open>unlock\<close>; an owner may run a turn of
  \<^verbatim>\<open>set_version\<close> or \<^verbatim>\<open>inc_nonopaque_version\<close>, whose first read \<open>cur\<close> of the word may be out of date.
\<close>

inductive tcv_run :: "u64 \<Rightarrow> nat set \<Rightarrow> u64 \<Rightarrow> bool" for v0 where
  tcv_start: "v0 AND threadid_mask = 0 \<Longrightarrow> tcv_run v0 {} v0"
| tcv_acquire: "tcv_run v0 T v \<Longrightarrow> i < MAX_THREADS \<Longrightarrow> i \<notin> T \<Longrightarrow> card T < 127 \<Longrightarrow>
    tcv_try_lock v = (True, v') \<Longrightarrow> tcv_run v0 (insert i T) v'"
| tcv_release: "tcv_run v0 T v \<Longrightarrow> i \<in> T \<Longrightarrow> tcv_run v0 (T - {i}) (tcv_unlock v)"
| tcv_set: "tcv_run v0 T v \<Longrightarrow> i \<in> T \<Longrightarrow> tcv_set_version [(cur, v)] new_v = Inr (Some v') \<Longrightarrow> tcv_run v0 T v'"
| tcv_inc: "tcv_run v0 T v \<Longrightarrow> i \<in> T \<Longrightarrow> tcv_inc_nonopaque_version v [(cur, v)] = Inr (Some v') \<Longrightarrow>
    tcv_run v0 T v'"

lemma unat_and_threadid_mask: "unat (w AND threadid_mask) = unat w mod 128"
proof -
  have "w AND threadid_mask = w mod 128"
    by (simp only: mask_7 flip: take_bit_eq_mask) (simp add: take_bit_eq_mod)
  then show ?thesis by (simp add: unat_mod_distrib)
qed

lemma add_1_mod_128: "unat (v + 1 :: u64) mod 128 = (unat v + 1) mod 128"
proof -
  have d: "(128::nat) dvd 18446744073709551616" by (rule dvdI [of _ _ 144115188075855872]) simp
  have "unat (v + 1) mod 128 = (unat v + 1) mod 18446744073709551616 mod 128" by (simp add: unat_word_ariths)
  also have "\<dots> = (unat v + 1) mod 128" using d by (rule mod_mod_cancel)
  finally show ?thesis .
qed

lemma sub_1_mod_128: "0 < unat (v :: u64) mod 128 \<Longrightarrow> unat (v - 1) mod 128 = unat v mod 128 - 1"
proof -
  assume a: "0 < unat v mod 128"
  then have "v \<noteq> 0" by auto
  then have "unat (v - 1) = unat v - 1" by (rule unat_minus_one)
  with a show ?thesis by (cases "unat v") (auto simp: mod_Suc split: if_splits)
qed

lemma tcv_set_owners:
  assumes "tcv_set_version [(cur, v)] new_v = Inr (Some v')"
  shows "v' AND threadid_mask = v AND threadid_mask"
proof -
  from assms have z: "new_v AND threadid_mask = 0" and c: "v' = v \<or> v' = new_v OR (v AND threadid_mask)"
    by (auto simp: tcv_set_version_def result_simps split: if_splits)
  have "(new_v OR (v AND threadid_mask)) AND threadid_mask = (new_v AND threadid_mask) OR (v AND threadid_mask)"
    by (rule bit_word_eqI) (auto simp: bit_or_iff bit_and_iff)
  with c z show ?thesis by auto
qed

lemma tcv_inc_owners:
  assumes "tcv_inc_nonopaque_version v [(cur, v)] = Inr (Some v')"
  shows "v' AND threadid_mask = v AND threadid_mask"
proof -
  from assms have v': "v' = (v + increment_value) OR nonopaque_bit"
    by (auto simp: tcv_inc_nonopaque_version_def result_simps split: if_splits)
  have m: "w AND threadid_mask = low8 w AND threadid_mask" for w
    by (rule bit_word_eqI) (auto simp: low8_def bit_and_iff bit_take_bit_iff)
  show ?thesis using m [of v'] m [of v] by (simp only: v' low8_add_high)
qed

lemma tcv_run_count:
  "tcv_run v0 T v \<Longrightarrow> finite T \<and> card T \<le> 127 \<and> unat v mod 128 = card T"
proof (induction rule: tcv_run.induct)
  case tcv_start
  then have "unat (v0 AND threadid_mask) = 0" by simp
  then show ?case by (simp add: unat_and_threadid_mask)
next
  case (tcv_acquire T v i v')
  then have "v' = v + 1" by (simp add: tcv_try_lock_def tcv_lock_def)
  with tcv_acquire add_1_mod_128 [of v] show ?case by (simp add: mod_Suc)
next
  case (tcv_release T v i)
  then have "0 < card T" by (auto simp: card_gt_0_iff)
  with tcv_release sub_1_mod_128 [of v] show ?case by (simp add: tcv_unlock_def)
next
  case (tcv_set T v i cur new_v v')
  with tcv_set_owners [OF tcv_set.hyps(3)] unat_and_threadid_mask [of v] unat_and_threadid_mask [of v'] show ?case by simp
next
  case (tcv_inc T v i cur v')
  with tcv_inc_owners [OF tcv_inc.hyps(3)] unat_and_threadid_mask [of v] unat_and_threadid_mask [of v'] show ?case by simp
qed

text \<open>
  C21.  \<^verbatim>\<open>TCommutativeVersion\<close> counts its lock owners in the seven thread bits.  However threads take
  and give back the lock, set the version and bump it in between, with up to 127 owners \<^verbatim>\<open>num_locks\<close> is
  their number and \<^verbatim>\<open>is_locked\<close> says whether there is one, so the assertion of \<^verbatim>\<open>inc_nonopaque_version\<close>
  holds for an owner; taking and giving back restores the word.  One owner more, and there may be as
  many threads, the count has wrapped and the word claims to be unlocked.
\<close>

theorem tcv_counts_lock_owners:
  assumes "tcv_run v0 T v"
  shows "unat (tcv_num_locks v) = card T \<and> (tcv_is_locked v \<longleftrightarrow> T \<noteq> {}) \<and>
    tcv_unlock (snd (tcv_try_lock v)) = v \<and>
    (card T = 127 \<longrightarrow> \<not> tcv_is_locked (snd (tcv_try_lock v)))"
proof -
  note c = tcv_run_count [OF assms]
  have small: "unat (ucast (w :: u64) :: u32) = unat w" if "unat w < 128" for w
    using that by (simp add: unsigned_ucast_eq take_bit_nat_eq_self)
  have n: "unat (tcv_num_locks v) = card T"
    using c small [of "v AND threadid_mask"] by (simp add: tcv_num_locks_def unat_and_threadid_mask)
  have l: "tcv_is_locked w \<longleftrightarrow> unat w mod 128 \<noteq> 0" for w
    by (simp add: tcv_is_locked_def word_less_nat_alt unat_and_threadid_mask)
  have "\<not> tcv_is_locked (v + 1)" if "card T = 127"
    using that c add_1_mod_128 [of v] by (simp add: l mod_Suc)
  with n c l [of v] show ?thesis
    by (auto simp: tcv_try_lock_def tcv_lock_def tcv_unlock_def)
qed

lemma tcv_run_example: "tcv_run 0x3000 {7} 0x5001"
proof -
  have 0: "tcv_run 0x3000 {} 0x3000" by (rule tcv_start) (simp add: tid_layout)
  have 1: "tcv_run 0x3000 (insert 5 {}) 0x3001"
    by (rule tcv_acquire [OF 0]) (simp_all add: MAX_THREADS_def tcv_try_lock_def tcv_lock_def)
  have 2: "tcv_run 0x3000 (insert 7 {5}) 0x3002"
    by (rule tcv_acquire [OF 1]) (simp_all add: MAX_THREADS_def tcv_try_lock_def tcv_lock_def)
  have 3: "tcv_run 0x3000 {7, 5} 0x5002"
    by (rule tcv_set [OF 2, of 5 "0x3002" "0x5000"])
      (simp_all add: tcv_set_version_def unlocked_def tid_layout)
  have "tcv_run 0x3000 ({7, 5} - {5}) (tcv_unlock 0x5002)"
    by (rule tcv_release [OF 3]) simp
  then show ?thesis by (simp add: tcv_unlock_def insert_Diff_if)
qed

theorem tcv_counts_lock_owners_witness:
  "unat (tcv_num_locks 0x5001) = 1 \<and> tcv_is_locked 0x5001 \<and> tcv_unlock (snd (tcv_try_lock 0x5001)) = 0x5001"
  using tcv_counts_lock_owners [OF tcv_run_example] by simp

end
