(* ===== verification/Trans_Item.thy ===== *)
theory Trans_Item
  imports Transaction_Tid
begin

text \<open>
  The entries of a transaction's read and write set (\<^verbatim>\<open>benchmarks/sto/TransItem.hh\<close>).  One 64-bit
  word \<open>s_word\<close> packs the pointer to the owning object (low 48 bits), eleven user flags and the
  five flags of the runtime.  The data words \<^verbatim>\<open>rdata_\<close> and \<^verbatim>\<open>wdata_\<close> are \<open>None\<close> until they are
  written: the constructor leaves them uninitialised.  \<open>'w\<close> is what \<^verbatim>\<open>Packer\<close> unpacks from
  \<^verbatim>\<open>wdata_\<close>; \<^verbatim>\<open>rdata_\<close> holds a version or another value that fits a word.
\<close>

record 'w trans_item =
  s_word :: u64
  ti_key :: u64
  ti_rdata :: "u64 option"
  ti_wdata :: "'w option"
  extra :: bytes

section \<open>Flags\<close>

definition write_bit :: u64 where "write_bit = push_bit 63 1"
definition read_bit :: u64 where "read_bit = push_bit 62 1"
definition item_lock_bit :: u64 where "item_lock_bit = push_bit 61 1"
definition predicate_bit :: u64 where "predicate_bit = push_bit 60 1"
definition stash_bit :: u64 where "stash_bit = push_bit 59 1"
definition pointer_mask :: u64 where "pointer_mask = push_bit 48 1 - 1"
definition user0_bit :: u64 where "user0_bit = push_bit 48 1"
definition userf_shift :: nat where "userf_shift = 48"
definition shifted_userf_mask :: u64 where "shifted_userf_mask = 0x7FF"

definition special_mask :: u64 where
  "special_mask = pointer_mask OR read_bit OR write_bit OR item_lock_bit OR predicate_bit OR stash_bit"

definition minsert_bit :: u64 where "minsert_bit = user0_bit"
definition mdelete_bit :: u64 where "mdelete_bit = push_bit 1 user0_bit"

lemmas item_bit_defs = write_bit_def read_bit_def item_lock_bit_def predicate_bit_def stash_bit_def
  user0_bit_def minsert_bit_def mdelete_bit_def

section \<open>The item\<close>

definition TransItem :: "u64 \<Rightarrow> u64 \<Rightarrow> 'w trans_item" where
  "TransItem s k = \<lparr>s_word = s, ti_key = k, ti_rdata = None, ti_wdata = None, extra = []\<rparr>"

definition flags :: "'w trans_item \<Rightarrow> u64" where
  "flags it = s_word it"

definition owner :: "'w trans_item \<Rightarrow> u64" where
  "owner it = s_word it AND pointer_mask"

definition has_flag :: "'w trans_item \<Rightarrow> u64 \<Rightarrow> bool" where
  "has_flag it f \<longleftrightarrow> flags it AND f \<noteq> 0"

definition has_write :: "'w trans_item \<Rightarrow> bool" where
  "has_write it \<longleftrightarrow> flags it AND write_bit \<noteq> 0"

definition has_read :: "'w trans_item \<Rightarrow> bool" where
  "has_read it \<longleftrightarrow> flags it AND read_bit \<noteq> 0"

definition has_predicate :: "'w trans_item \<Rightarrow> bool" where
  "has_predicate it \<longleftrightarrow> flags it AND predicate_bit \<noteq> 0"

definition has_stash :: "'w trans_item \<Rightarrow> bool" where
  "has_stash it \<longleftrightarrow> flags it AND stash_bit \<noteq> 0"

definition needs_unlock :: "'w trans_item \<Rightarrow> bool" where
  "needs_unlock it \<longleftrightarrow> flags it AND item_lock_bit \<noteq> 0"

definition same_item :: "'w trans_item \<Rightarrow> 'w trans_item \<Rightarrow> bool" where
  "same_item x y \<longleftrightarrow> owner x = owner y \<and> ti_key x = ti_key y"

text \<open>The accessors of the data words, with their assertions; an unset word is not readable.\<close>

definition read_value :: "'w trans_item \<Rightarrow> u64 result" where
  "read_value it = rbind (rassert (has_read it))
     (\<lambda>_. case ti_rdata it of None \<Rightarrow> Inl Out_Of_Bounds | Some r \<Rightarrow> Inr r)"

definition item_check_version :: "'w trans_item \<Rightarrow> u64 \<Rightarrow> u64 \<Rightarrow> bool result" where
  "item_check_version it v here =
     rbind (rassert (has_read it)) (\<lambda>_.
     rbind (read_value it) (\<lambda>old. check_version v old here here))"

definition predicate_value :: "'w trans_item \<Rightarrow> u64 result" where
  "predicate_value it = rbind (rassert (has_predicate it \<and> \<not> has_read it))
     (\<lambda>_. case ti_rdata it of None \<Rightarrow> Inl Out_Of_Bounds | Some r \<Rightarrow> Inr r)"

definition write_value :: "'w trans_item \<Rightarrow> 'w result" where
  "write_value it = rbind (rassert (has_write it))
     (\<lambda>_. case ti_wdata it of None \<Rightarrow> Inl Out_Of_Bounds | Some w \<Rightarrow> Inr w)"

definition write_value_default :: "'w trans_item \<Rightarrow> 'w \<Rightarrow> 'w result" where
  "write_value_default it d =
     (if has_write it then case ti_wdata it of None \<Rightarrow> Inl Out_Of_Bounds | Some w \<Rightarrow> Inr w
      else Inr d)"

definition stash_value :: "'w trans_item \<Rightarrow> u64 result" where
  "stash_value it = rbind (rassert (has_stash it))
     (\<lambda>_. case ti_rdata it of None \<Rightarrow> Inl Out_Of_Bounds | Some r \<Rightarrow> Inr r)"

definition stash_value_default :: "'w trans_item \<Rightarrow> u64 \<Rightarrow> u64 result" where
  "stash_value_default it d =
     rbind (rassert (\<not> has_read it)) (\<lambda>_. if has_stash it then stash_value it else Inr d)"

definition item_eq :: "'w trans_item \<Rightarrow> 'w trans_item \<Rightarrow> bool" where
  "item_eq t1 t2 \<longleftrightarrow> ti_key t1 = ti_key t2 \<and> owner t1 = owner t2"

definition item_less :: "'w trans_item \<Rightarrow> 'w trans_item \<Rightarrow> bool" where
  "item_less t1 t2 \<longleftrightarrow> ti_key t1 < ti_key t2 \<or> (ti_key t1 = ti_key t2 \<and> owner t1 < owner t2)"

definition shifted_user_flags :: "'w trans_item \<Rightarrow> u64" where
  "shifted_user_flags it = drop_bit userf_shift (flags it) AND shifted_userf_mask"

definition assign_flags :: "u64 \<Rightarrow> 'w trans_item \<Rightarrow> 'w trans_item result" where
  "assign_flags f it = rbind (rassert (f AND special_mask = 0))
     (\<lambda>_. Inr (it\<lparr>s_word := (s_word it AND special_mask) OR f\<rparr>))"

definition clear_flags :: "u64 \<Rightarrow> 'w trans_item \<Rightarrow> 'w trans_item result" where
  "clear_flags f it = rbind (rassert (f AND special_mask = 0))
     (\<lambda>_. Inr (it\<lparr>s_word := s_word it AND NOT f\<rparr>))"

definition add_flags :: "u64 \<Rightarrow> 'w trans_item \<Rightarrow> 'w trans_item result" where
  "add_flags f it = rbind (rassert (f AND special_mask = 0))
     (\<lambda>_. Inr (it\<lparr>s_word := s_word it OR f\<rparr>))"

definition rm_flags :: "u64 \<Rightarrow> 'w trans_item \<Rightarrow> 'w trans_item" where
  "rm_flags f it = it\<lparr>s_word := s_word it AND NOT f\<rparr>"

definition or_flags :: "u64 \<Rightarrow> 'w trans_item \<Rightarrow> 'w trans_item" where
  "or_flags f it = it\<lparr>s_word := s_word it OR f\<rparr>"

definition clear_needs_unlock :: "'w trans_item \<Rightarrow> 'w trans_item" where
  "clear_needs_unlock it = rm_flags item_lock_bit it"

definition hasInsertOp :: "'w trans_item \<Rightarrow> bool" where
  "hasInsertOp it \<longleftrightarrow> has_flag it minsert_bit"

definition hasDeleteOp :: "'w trans_item \<Rightarrow> bool" where
  "hasDeleteOp it \<longleftrightarrow> flags it AND mdelete_bit \<noteq> 0"

section \<open>Flag bits\<close>

named_theorems item_simps "what the flag operations do to the flags"

lemma bit_single [simp]: "bit (2 ^ k :: u64) n \<longleftrightarrow> n = k \<and> n < 64"
  by (auto simp: bit_exp_iff possible_bit_def)

lemma and_single_neq_0:
  fixes w :: u64
  assumes "k < 64"
  shows "w AND push_bit k 1 \<noteq> 0 \<longleftrightarrow> bit w k"
proof -
  have "w AND 2 ^ k = (if bit w k then 2 ^ k else 0)"
    by (rule bit_word_eqI) (auto simp: bit_and_iff)
  moreover have "(2 :: u64) ^ k \<noteq> 0"
    using assms by (metis bit_0_eq bit_single bot_apply bot_bool_def)
  ultimately show ?thesis by simp
qed

lemma mdelete_bit_eq: "mdelete_bit = push_bit 49 1"
  by (simp add: mdelete_bit_def user0_bit_def)

lemma has_write_bit: "has_write it \<longleftrightarrow> bit (s_word it) 63"
  unfolding has_write_def flags_def write_bit_def by (rule and_single_neq_0) simp

lemma has_read_bit: "has_read it \<longleftrightarrow> bit (s_word it) 62"
  unfolding has_read_def flags_def read_bit_def by (rule and_single_neq_0) simp

lemma needs_unlock_bit: "needs_unlock it \<longleftrightarrow> bit (s_word it) 61"
  unfolding needs_unlock_def flags_def item_lock_bit_def by (rule and_single_neq_0) simp

lemma has_predicate_bit: "has_predicate it \<longleftrightarrow> bit (s_word it) 60"
  unfolding has_predicate_def flags_def predicate_bit_def by (rule and_single_neq_0) simp

lemma has_stash_bit: "has_stash it \<longleftrightarrow> bit (s_word it) 59"
  unfolding has_stash_def flags_def stash_bit_def by (rule and_single_neq_0) simp

lemma hasInsertOp_bit: "hasInsertOp it \<longleftrightarrow> bit (s_word it) 48"
  unfolding hasInsertOp_def has_flag_def flags_def minsert_bit_def user0_bit_def
  by (rule and_single_neq_0) simp

lemma hasDeleteOp_bit: "hasDeleteOp it \<longleftrightarrow> bit (s_word it) 49"
  unfolding hasDeleteOp_def flags_def mdelete_bit_eq by (rule and_single_neq_0) simp

lemmas has_bits = has_write_bit has_read_bit needs_unlock_bit has_predicate_bit has_stash_bit
  hasInsertOp_bit hasDeleteOp_bit

lemma pointer_mask_eq: "pointer_mask = mask 48"
  by (simp add: pointer_mask_def mask_eq_exp_minus_1)

lemma owner_take_bit: "owner it = take_bit 48 (s_word it)"
  by (simp add: owner_def pointer_mask_eq take_bit_eq_mask)

text \<open>The runtime's flags are set and cleared one by one: nothing else of the word moves.\<close>

definition runtime_flag :: "u64 \<Rightarrow> bool" where
  "runtime_flag f \<longleftrightarrow> f \<in> {write_bit, read_bit, item_lock_bit, predicate_bit, stash_bit}"

lemma bit_push_1: "k < 64 \<Longrightarrow> bit (push_bit k 1 :: u64) n \<longleftrightarrow> n = k"
  by (simp only: push_bit_of_1 bit_single) auto

lemma bit_write_bit [simp]: "bit write_bit n \<longleftrightarrow> n = 63" 
  unfolding write_bit_def by (rule bit_push_1) simp

lemma bit_read_bit [simp]: "bit read_bit n \<longleftrightarrow> n = 62" 
  unfolding read_bit_def by (rule bit_push_1) simp

lemma bit_item_lock_bit [simp]: "bit item_lock_bit n \<longleftrightarrow> n = 61" 
  unfolding item_lock_bit_def by (rule bit_push_1) simp

lemma bit_predicate_bit [simp]: "bit predicate_bit n \<longleftrightarrow> n = 60" 
  unfolding predicate_bit_def by (rule bit_push_1) simp

lemma bit_stash_bit [simp]: "bit stash_bit n \<longleftrightarrow> n = 59" 
  unfolding stash_bit_def by (rule bit_push_1) simp


lemma or_flags_fields [simp]:
  "ti_key (or_flags f it) = ti_key it" "ti_rdata (or_flags f it) = ti_rdata it"
  "ti_wdata (or_flags f it) = ti_wdata it" "extra (or_flags f it) = extra it"
  by (simp_all add: or_flags_def)

lemma rm_flags_fields [simp]:
  "ti_key (rm_flags f it) = ti_key it" "ti_rdata (rm_flags f it) = ti_rdata it"
  "ti_wdata (rm_flags f it) = ti_wdata it" "extra (rm_flags f it) = extra it"
  by (simp_all add: rm_flags_def)

lemma bit_or_flags [item_simps]: "bit (s_word (or_flags f it)) n \<longleftrightarrow> bit (s_word it) n \<or> bit f n"
  by (simp add: or_flags_def bit_or_iff)

lemma bit_rm_flags [item_simps]:
  "n < 64 \<Longrightarrow> bit (s_word (rm_flags f it)) n \<longleftrightarrow> bit (s_word it) n \<and> \<not> bit f n"
  by (auto simp: rm_flags_def bit_and_iff bit_not_iff)

lemma owner_or_flags [simp]: "runtime_flag f \<Longrightarrow> owner (or_flags f it) = owner it"
  by (rule bit_word_eqI)
    (auto simp: owner_take_bit bit_take_bit_iff bit_or_flags runtime_flag_def)

lemma owner_rm_flags [simp]: "runtime_flag f \<Longrightarrow> owner (rm_flags f it) = owner it"
  by (rule bit_word_eqI)
    (auto simp: owner_take_bit bit_take_bit_iff bit_rm_flags runtime_flag_def)

lemma runtime_flags [simp]:
  "runtime_flag write_bit" "runtime_flag read_bit" "runtime_flag item_lock_bit"
  "runtime_flag predicate_bit" "runtime_flag stash_bit"
  by (simp_all add: runtime_flag_def)

text \<open>
  The order on items: keys first, then owners.  It is what \<^verbatim>\<open>STO_SORT_WRITESET\<close> sorts by, so that
  all transactions lock in one order.
\<close>

lemma item_less_irrefl: "\<not> item_less t t"
  by (simp add: item_less_def)

lemma item_less_trans: "item_less a b \<Longrightarrow> item_less b c \<Longrightarrow> item_less a c"
  by (auto simp: item_less_def)

lemma item_less_total: "item_less a b \<or> item_eq a b \<or> item_less b a"
  by (auto simp: item_less_def item_eq_def)

lemma item_eq_not_less: "item_eq a b \<Longrightarrow> \<not> item_less a b"
  by (simp add: item_less_def item_eq_def)

text \<open>User flags.\<close>

lemma bit_special_mask: "bit special_mask n \<longleftrightarrow> n < 48 \<or> (59 \<le> n \<and> n < 64)"
  by (auto simp: special_mask_def bit_or_iff pointer_mask_eq bit_mask_iff possible_bit_def)

lemma bit_shifted_userf_mask: "bit shifted_userf_mask n \<longleftrightarrow> n < 11"
proof -
  have eq: "shifted_userf_mask = mask 11" by (simp add: shifted_userf_mask_def mask_eq_exp_minus_1)
  show ?thesis by (simp only: eq bit_mask_iff) (auto simp: possible_bit_def)
qed

lemma user_flag_bits:
  assumes "u AND NOT shifted_userf_mask = 0" and "bit u k"
  shows "k < 11"
proof -
  have "\<not> bit (u AND NOT shifted_userf_mask) k" using assms(1) by simp
  with assms(2) bit_imp_le_length [OF assms(2)] show ?thesis
    by (auto simp: bit_and_iff bit_not_iff bit_shifted_userf_mask)
qed

lemma user_flags_disjoint:
  assumes "u AND NOT shifted_userf_mask = 0"
  shows "push_bit 48 u AND special_mask = 0"
proof (rule bit_word_eqI)
  fix n
  show "bit (push_bit 48 u AND special_mask) n = bit 0 n"
    using user_flag_bits [OF assms, of "n - 48"]
    by (auto simp: bit_and_iff bit_push_bit_iff bit_special_mask)
qed

text \<open>
  The eleven user flags are stored without touching the owner pointer or the runtime's own
  flags: assigning user flags succeeds for every 11-bit value, reading them gives that value back,
  and the owner and the read, write, predicate, stash and lock flags are what they were.
\<close>

theorem assign_flags_roundtrip:
  assumes "u AND NOT shifted_userf_mask = 0"
  shows "\<exists>it'. assign_flags (push_bit userf_shift u) it = Inr it' \<and> shifted_user_flags it' = u \<and>
    owner it' = owner it \<and> (has_read it' \<longleftrightarrow> has_read it) \<and> (has_write it' \<longleftrightarrow> has_write it) \<and>
    (has_predicate it' \<longleftrightarrow> has_predicate it) \<and> (has_stash it' \<longleftrightarrow> has_stash it) \<and>
    (needs_unlock it' \<longleftrightarrow> needs_unlock it)"
proof -
  let ?s = "(s_word it AND special_mask) OR push_bit 48 u"
  have b: "bit ?s n \<longleftrightarrow> (if bit special_mask n then bit (s_word it) n else bit u (n - 48))"
    if "n < 64" for n
    using that user_flag_bits [OF assms, of "n - 48"]
    by (auto simp: bit_or_iff bit_and_iff bit_push_bit_iff bit_special_mask)
  have "take_bit 48 ?s = take_bit 48 (s_word it)"
    by (rule bit_word_eqI, simp only: bit_take_bit_iff) (auto simp: b bit_special_mask)
  moreover have "drop_bit 48 ?s AND shifted_userf_mask = u"
  proof (rule bit_word_eqI)
    fix n
    show "bit (drop_bit 48 ?s AND shifted_userf_mask) n = bit u n"
      using user_flag_bits [OF assms, of n] b [of "48 + n"]
      by (simp only: bit_and_iff bit_drop_bit_eq comp_apply bit_shifted_userf_mask)
        (auto simp: bit_special_mask)
  qed
  ultimately show ?thesis
    by (simp add: assign_flags_def userf_shift_def user_flags_disjoint [OF assms]
        shifted_user_flags_def flags_def owner_take_bit has_bits b bit_special_mask)
qed

theorem assign_flags_roundtrip_witness:
  "(0x401 :: u64) AND NOT shifted_userf_mask = 0 \<and>
   (\<exists>it'. assign_flags (push_bit userf_shift 0x401) (or_flags write_bit (TransItem 0x7F00 8 :: nat trans_item))
      = Inr it' \<and> shifted_user_flags it' = 0x401)"
proof -
  have h: "(0x401 :: u64) AND NOT shifted_userf_mask = 0" by (simp add: shifted_userf_mask_def)
  with assign_flags_roundtrip [OF h, of "or_flags write_bit (TransItem 0x7F00 8 :: nat trans_item)"]
  show ?thesis by blast
qed

end
