(* ===== verification/Trans_Set.thy ===== *)
theory Trans_Set
  imports Trans_Item
begin

text \<open>
  The read and write set of a transaction (\<^verbatim>\<open>class Transaction\<close> of
  \<^verbatim>\<open>benchmarks/sto/Transaction.hh\<close>): the chunked array of items, the hash table of 1024 16-bit
  slots that finds an item by owner and key, and the trick that spares clearing the table: a slot
  counts only when it is above \<^verbatim>\<open>hash_base_\<close>, which every \<^verbatim>\<open>start\<close> moves past the slots of the
  transaction before.  The operations that look items up and add them, the ones that record a
  read, a write, a predicate or a stash in an item, and the state of the transaction follow the
  header in its order.  The main result is that the lookup by hash is the linear search for the
  first item of that owner and key, that it never reads outside the array, and that every
  operation keeps what this needs.
\<close>

section \<open>State\<close>

datatype txn_state =
  S_in_progress | S_opacity_check | S_committing | S_committing_locked | S_aborted | S_committed

primrec state_code :: "txn_state \<Rightarrow> nat" where
  "state_code S_in_progress = 0"
| "state_code S_opacity_check = 1"
| "state_code S_committing = 2"
| "state_code S_committing_locked = 3"
| "state_code S_aborted = 4"
| "state_code S_committed = 5"

lemma state_code_inj: "state_code a = state_code b \<Longrightarrow> a = b"
  by (cases a; cases b) simp_all

instantiation txn_state :: linorder
begin

definition less_eq_txn_state :: "txn_state \<Rightarrow> txn_state \<Rightarrow> bool" where
  "less_eq_txn_state a b \<longleftrightarrow> state_code a \<le> state_code b"

definition less_txn_state :: "txn_state \<Rightarrow> txn_state \<Rightarrow> bool" where
  "less_txn_state a b \<longleftrightarrow> state_code a < state_code b"

instance
  by standard (auto simp: less_eq_txn_state_def less_txn_state_def intro: state_code_inj)

end

record 'w txn =
  threadid :: u64
  hash_base :: u16
  first_write :: u16
  txstate :: txn_state
  any_writes :: bool
  any_nonopaque :: bool
  may_duplicate_items :: bool
  tset :: "'w trans_item list"
  tset_alloc :: "bool list"   \<comment> \<open>which of the chunks of \<^verbatim>\<open>tset_\<close> are not null\<close>
  hashtable :: "u16 list"
  start_tid :: u64
  commit_tid_field :: u64
  tid_unique_field :: u64
  lrng_state :: u32

definition tset_initial_capacity :: nat where "tset_initial_capacity = 512"
definition tset_chunk :: nat where "tset_chunk = 512"
definition tset_max_capacity :: nat where "tset_max_capacity = 32768"
definition hash_size :: nat where "hash_size = 1024"

abbreviation tset_size :: "'w txn \<Rightarrow> nat" where
  "tset_size t \<equiv> length (tset t)"

definition in_progress :: "'w txn \<Rightarrow> bool" where
  "in_progress t \<longleftrightarrow> txstate t < S_aborted"

definition aborted :: "'w txn \<Rightarrow> bool" where
  "aborted t \<longleftrightarrow> txstate t = S_aborted"

definition initialize :: "'w txn \<Rightarrow> 'w txn" where
  "initialize t = t\<lparr>hash_base := 32768, tset := [], lrng_state := 12897,
     tset_alloc := replicate (tset_initial_capacity div tset_chunk) True @
       replicate (tset_max_capacity div tset_chunk - tset_initial_capacity div tset_chunk) False\<rparr>"

definition start :: "'w txn \<Rightarrow> 'w txn" where
  "start t =
     (let hb = hash_base t + (of_nat (tset_size t) + 1);
          clear = 32768 \<le> hb
      in t\<lparr>hash_base := (if clear then 0 else hb),
           tset := [],
           hashtable := (if clear then replicate hash_size 0 else hashtable t),
           any_writes := False, any_nonopaque := False, may_duplicate_items := False,
           first_write := 0, start_tid := 0, commit_tid_field := 0, tid_unique_field := 0,
           txstate := S_in_progress\<rparr>)"

definition local_random :: "'w txn \<Rightarrow> u32 \<times> 'w txn" where
  "local_random t = (let r = lrng_state t * 1664525 + 1013904223 in (r, t\<lparr>lrng_state := r\<rparr>))"

section \<open>Looking items up and adding them\<close>

definition hash :: "u64 \<Rightarrow> u64 \<Rightarrow> nat" where
  "hash obj key =
     (let n = key + 0x4000000;
          n = n + ((- (if n < 0x8000000 then 1 else 0)) AND drop_bit 4 obj)
      in unat ((n + drop_bit 16 n * 9) mod 1024))"

definition get_item :: "'w txn \<Rightarrow> nat \<Rightarrow> 'w trans_item result" where
  "get_item t i =
     (if i div tset_chunk < length (tset_alloc t) \<and> tset_alloc t ! (i div tset_chunk) \<and> i < tset_size t
      then Inr (tset t ! i) else Inl Out_Of_Bounds)"

definition refresh_tset_chunk :: "'w txn \<Rightarrow> 'w txn result" where
  "refresh_tset_chunk t =
     rbind (rassert (tset_size t mod tset_chunk = 0)) (\<lambda>_.
     rbind (rassert (tset_size t < tset_max_capacity)) (\<lambda>_.
       Inr (t\<lparr>tset_alloc := (tset_alloc t)[tset_size t div tset_chunk := True]\<rparr>)))"

definition allocate_item :: "u64 \<Rightarrow> u64 \<Rightarrow> 'w txn \<Rightarrow> (nat \<times> 'w txn) result" where
  "allocate_item obj xkey t =
     rbind (if tset_size t \<noteq> 0 \<and> tset_size t mod tset_chunk = 0 then refresh_tset_chunk t else Inr t) (\<lambda>t1.
       let t2 = t1\<lparr>tset := tset t1 @ [TransItem obj xkey]\<rparr>;
           hi = hash obj xkey;
           t3 = (if hashtable t2 ! hi \<le> hash_base t2
                 then t2\<lparr>hashtable := (hashtable t2)[hi := hash_base t2 + of_nat (tset_size t2)]\<rparr>
                 else t2)
       in Inr (tset_size t, t3))"

definition item_matches :: "u64 \<Rightarrow> u64 \<Rightarrow> 'w trans_item \<Rightarrow> bool" where
  "item_matches obj xkey it \<longleftrightarrow> owner it = obj \<and> ti_key it = xkey"

function find_item_scan :: "'w txn \<Rightarrow> u64 \<Rightarrow> u64 \<Rightarrow> nat \<Rightarrow> nat option result" where
  "find_item_scan t obj xkey tidx =
     (if tidx \<ge> tset_size t then Inr None
      else rbind (get_item t tidx) (\<lambda>it.
        if item_matches obj xkey it then Inr (Some tidx)
        else find_item_scan t obj xkey (Suc tidx)))"
  by pat_completeness auto
termination by (relation "measure (\<lambda>(t, _, _, i). tset_size t - i)") auto

declare find_item_scan.simps [simp del]

definition find_item :: "u64 \<Rightarrow> u64 \<Rightarrow> 'w txn \<Rightarrow> nat option result" where
  "find_item obj xkey t =
     (let hi = hash obj xkey; slot = hashtable t ! hi in
      if slot \<le> hash_base t then Inr None
      else let tidx = unat (slot - hash_base t - 1) in
        rbind (get_item t tidx) (\<lambda>ti.
          if item_matches obj xkey ti then Inr (Some tidx)
          else find_item_scan t obj xkey 0))"

definition new_item :: "u64 \<Rightarrow> u64 \<Rightarrow> 'w txn \<Rightarrow> (nat \<times> 'w txn) result" where
  "new_item obj key t = allocate_item obj key t"

definition fresh_item :: "u64 \<Rightarrow> u64 \<Rightarrow> 'w txn \<Rightarrow> (nat \<times> 'w txn) result" where
  "fresh_item obj key t = allocate_item obj key (t\<lparr>may_duplicate_items := tset_size t > 0\<rparr>)"

definition item :: "u64 \<Rightarrow> u64 \<Rightarrow> 'w txn \<Rightarrow> (nat \<times> 'w txn) result" where
  "item obj key t =
     rbind (find_item obj key t) (\<lambda>ti.
       case ti of None \<Rightarrow> allocate_item obj key t | Some i \<Rightarrow> Inr (i, t))"

definition read_item :: "u64 \<Rightarrow> u64 \<Rightarrow> 'w txn \<Rightarrow> (nat \<times> 'w txn) result" where
  "read_item obj key t =
     (if any_writes t then item obj key t
      else allocate_item obj key (t\<lparr>may_duplicate_items := tset_size t > 0\<rparr>))"

definition check_item :: "u64 \<Rightarrow> u64 \<Rightarrow> 'w txn \<Rightarrow> nat option result" where
  "check_item obj key t = find_item obj key t"

function preceding_duplicate_read_from :: "'w txn \<Rightarrow> nat \<Rightarrow> nat \<Rightarrow> bool result" where
  "preceding_duplicate_read_from t needle tidx =
     (if tidx \<ge> needle then Inr False
      else rbind (get_item t tidx) (\<lambda>it. rbind (get_item t needle) (\<lambda>nd.
        if owner it = owner nd \<and> ti_key it = ti_key nd \<and> has_read it then Inr True
        else preceding_duplicate_read_from t needle (Suc tidx))))"
  by pat_completeness auto
termination by (relation "measure (\<lambda>(_, n, i). n - i)") auto

declare preceding_duplicate_read_from.simps [simp del]

definition preceding_duplicate_read :: "'w txn \<Rightarrow> nat \<Rightarrow> bool result" where
  "preceding_duplicate_read t needle = preceding_duplicate_read_from t needle 0"

section \<open>Recording reads, writes, predicates and stashes\<close>

text \<open>
  The methods of \<^verbatim>\<open>TransProxy\<close>, a transaction together with the index of one of its items.
\<close>

definition put_item :: "nat \<Rightarrow> 'w trans_item \<Rightarrow> 'w txn \<Rightarrow> 'w txn" where
  "put_item i it t = t\<lparr>tset := (tset t)[i := it]\<rparr>"

definition add_read :: "nat \<Rightarrow> u64 \<Rightarrow> 'w txn \<Rightarrow> 'w txn result" where
  "add_read i rdata t =
     rbind (get_item t i) (\<lambda>it.
     rbind (rassert (\<not> has_stash it)) (\<lambda>_.
       Inr (if has_read it then t
            else (put_item i ((or_flags read_bit it)\<lparr>ti_rdata := Some rdata\<rparr>) t)\<lparr>any_nonopaque := True\<rparr>)))"

definition add_extra :: "nat \<Rightarrow> bytes \<Rightarrow> 'w txn \<Rightarrow> 'w txn result" where
  "add_extra i ex t = rbind (get_item t i) (\<lambda>it. Inr (put_item i (it\<lparr>extra := ex\<rparr>) t))"

definition update_read :: "nat \<Rightarrow> u64 \<Rightarrow> u64 \<Rightarrow> 'w txn \<Rightarrow> 'w txn result" where
  "update_read i old_rdata new_rdata t =
     rbind (get_item t i) (\<lambda>it.
       if has_read it
       then rbind (read_value it) (\<lambda>r.
         Inr (if r = old_rdata then put_item i (it\<lparr>ti_rdata := Some new_rdata\<rparr>) t else t))
       else Inr t)"

definition set_predicate0 :: "nat \<Rightarrow> 'w txn \<Rightarrow> 'w txn result" where
  "set_predicate0 i t =
     rbind (get_item t i) (\<lambda>it. rbind (rassert (\<not> has_read it)) (\<lambda>_.
       Inr (put_item i (or_flags predicate_bit it) t)))"

definition set_predicate :: "nat \<Rightarrow> u64 \<Rightarrow> 'w txn \<Rightarrow> 'w txn result" where
  "set_predicate i pdata t =
     rbind (get_item t i) (\<lambda>it. rbind (rassert (\<not> has_read it)) (\<lambda>_.
       Inr (put_item i ((or_flags predicate_bit it)\<lparr>ti_rdata := Some pdata\<rparr>) t)))"

definition predicate_value_default :: "nat \<Rightarrow> u64 \<Rightarrow> 'w txn \<Rightarrow> (u64 \<times> 'w txn) result" where
  "predicate_value_default i d t =
     rbind (get_item t i) (\<lambda>it. rbind (rassert (\<not> has_read it)) (\<lambda>_.
     rbind (if has_predicate it then Inr t else set_predicate i d t) (\<lambda>t'.
     rbind (get_item t' i) (\<lambda>it'. rbind (predicate_value it') (\<lambda>v. Inr (v, t'))))))"

definition add_write0 :: "nat \<Rightarrow> 'w txn \<Rightarrow> 'w txn result" where
  "add_write0 i t =
     rbind (get_item t i) (\<lambda>it.
       Inr (if has_write it then t
            else (put_item i (or_flags write_bit it) t)\<lparr>any_writes := True\<rparr>))"

definition add_write :: "nat \<Rightarrow> 'w \<Rightarrow> 'w txn \<Rightarrow> 'w txn result" where
  "add_write i wdata t =
     rbind (get_item t i) (\<lambda>it.
       Inr (if has_write it then put_item i (it\<lparr>ti_wdata := Some wdata\<rparr>) t
            else (put_item i ((or_flags write_bit it)\<lparr>ti_wdata := Some wdata\<rparr>) t)\<lparr>any_writes := True\<rparr>))"

definition set_stash :: "nat \<Rightarrow> u64 \<Rightarrow> 'w txn \<Rightarrow> 'w txn result" where
  "set_stash i sdata t =
     rbind (get_item t i) (\<lambda>it. rbind (rassert (\<not> has_read it)) (\<lambda>_.
       Inr (put_item i ((if has_stash it then it else or_flags stash_bit it)\<lparr>ti_rdata := Some sdata\<rparr>) t)))"

text \<open>
  \<open>observe_read\<close> is the tail that \<^verbatim>\<open>observe\<close> and \<^verbatim>\<open>add_read_opaque\<close> share once their checks have passed.
  The methods that take flags away again; \<^verbatim>\<open>remove_read\<close> and \<^verbatim>\<open>remove_write\<close> have the bodies of
  \<^verbatim>\<open>clear_read\<close> and \<^verbatim>\<open>clear_write\<close>, and none of them takes back \<^verbatim>\<open>any_writes_\<close>.  The user flags go
  to the item.
\<close>

definition observe_read :: "nat \<Rightarrow> u64 \<Rightarrow> bool \<Rightarrow> 'w txn \<Rightarrow> 'w txn result" where
  "observe_read i v add t =
     rbind (get_item t i) (\<lambda>it.
       Inr (if add \<and> \<not> has_read it
            then put_item i ((or_flags read_bit it)\<lparr>ti_rdata := Some v\<rparr>) t else t))"

definition clear_read :: "nat \<Rightarrow> 'w txn \<Rightarrow> 'w txn result" where
  "clear_read i t = rbind (get_item t i) (\<lambda>it. Inr (put_item i (rm_flags read_bit it) t))"

definition clear_predicate :: "nat \<Rightarrow> 'w txn \<Rightarrow> 'w txn result" where
  "clear_predicate i t = rbind (get_item t i) (\<lambda>it. Inr (put_item i (rm_flags predicate_bit it) t))"

definition clear_write :: "nat \<Rightarrow> 'w txn \<Rightarrow> 'w txn result" where
  "clear_write i t = rbind (get_item t i) (\<lambda>it. Inr (put_item i (rm_flags write_bit it) t))"

definition clear_stash :: "nat \<Rightarrow> 'w txn \<Rightarrow> 'w txn result" where
  "clear_stash i t = rbind (get_item t i) (\<lambda>it. Inr (put_item i (rm_flags stash_bit it) t))"

definition remove_read :: "nat \<Rightarrow> 'w txn \<Rightarrow> 'w txn result" where
  "remove_read i t = rbind (get_item t i) (\<lambda>it. Inr (put_item i (rm_flags read_bit it) t))"

definition remove_write :: "nat \<Rightarrow> 'w txn \<Rightarrow> 'w txn result" where
  "remove_write i t = rbind (get_item t i) (\<lambda>it. Inr (put_item i (rm_flags write_bit it) t))"

definition proxy_assign_flags :: "nat \<Rightarrow> u64 \<Rightarrow> 'w txn \<Rightarrow> 'w txn result" where
  "proxy_assign_flags i f t =
     rbind (get_item t i) (\<lambda>it. rbind (assign_flags f it) (\<lambda>it'. Inr (put_item i it' t)))"

definition proxy_clear_flags :: "nat \<Rightarrow> u64 \<Rightarrow> 'w txn \<Rightarrow> 'w txn result" where
  "proxy_clear_flags i f t =
     rbind (get_item t i) (\<lambda>it. rbind (clear_flags f it) (\<lambda>it'. Inr (put_item i it' t)))"

definition proxy_add_flags :: "nat \<Rightarrow> u64 \<Rightarrow> 'w txn \<Rightarrow> 'w txn result" where
  "proxy_add_flags i f t =
     rbind (get_item t i) (\<lambda>it. rbind (add_flags f it) (\<lambda>it'. Inr (put_item i it' t)))"

section \<open>The first item that matches\<close>

primrec first_match :: "('a \<Rightarrow> bool) \<Rightarrow> 'a list \<Rightarrow> nat option" where
  "first_match P [] = None"
| "first_match P (x # xs) = (if P x then Some 0 else map_option Suc (first_match P xs))"

lemma first_match_None_iff: "first_match P xs = None \<longleftrightarrow> (\<forall>x \<in> set xs. \<not> P x)"
  by (induction xs) auto

lemma first_match_Some_iff:
  "first_match P xs = Some i \<longleftrightarrow> i < length xs \<and> P (xs ! i) \<and> (\<forall>j < i. \<not> P (xs ! j))"
proof (induction xs arbitrary: i)
  case (Cons x xs)
  show ?case
    by (cases i) (auto simp: Cons.IH nth_Cons less_Suc_eq_0_disj)
qed simp

lemma first_match_append:
  "first_match P (xs @ [y]) =
   (case first_match P xs of Some i \<Rightarrow> Some i | None \<Rightarrow> if P y then Some (length xs) else None)"
  by (induction xs) (auto split: option.splits)

lemma first_match_map: "first_match P (map f xs) = first_match (P \<circ> f) xs"
  by (induction xs) auto

lemma first_match_stronger:
  assumes "first_match Q xs = Some i" and "\<And>x. P x \<Longrightarrow> Q x" and "P (xs ! i)"
  shows "first_match P xs = Some i"
  using assms by (auto simp: first_match_Some_iff)

section \<open>The invariant of the hash table\<close>

definition item_id :: "'w trans_item \<Rightarrow> u64 \<times> u64" where
  "item_id it = (owner it, ti_key it)"

definition item_hash :: "'w trans_item \<Rightarrow> nat" where
  "item_hash it = hash (owner it) (ti_key it)"

text \<open>A slot holds the first item of its hash, counted from \<^verbatim>\<open>hash_base_\<close>, or something stale.\<close>

definition slot_ok :: "'w txn \<Rightarrow> nat \<Rightarrow> bool" where
  "slot_ok t h = (case first_match (\<lambda>it. item_hash it = h) (tset t) of
       None \<Rightarrow> hashtable t ! h \<le> hash_base t
     | Some i \<Rightarrow> unat (hashtable t ! h) = unat (hash_base t) + i + 1)"

definition chunks_ok :: "'w txn \<Rightarrow> bool" where
  "chunks_ok t \<longleftrightarrow> length (tset_alloc t) = 64 \<and> tset_alloc t ! 0 \<and> tset_size t \<le> tset_max_capacity \<and>
     (\<forall>i < tset_size t. tset_alloc t ! (i div tset_chunk))"

definition hash_inv :: "'w txn \<Rightarrow> bool" where
  "hash_inv t \<longleftrightarrow> length (hashtable t) = hash_size \<and> hash_base t < 32768 \<and> chunks_ok t \<and>
     (\<forall>h < hash_size. slot_ok t h)"

lemma hash_less [simp]: "hash obj key < hash_size"
proof -
  have "unat (w mod 1024 :: u64) < 1024" for w
    by (simp add: unat_mod)
  then show ?thesis by (simp add: hash_def hash_size_def Let_def)
qed

lemma item_matches_hash: "item_matches obj key it \<Longrightarrow> item_hash it = hash obj key"
  by (simp add: item_matches_def item_hash_def)

lemma item_matches_id: "item_matches obj key it \<longleftrightarrow> item_id it = (obj, key)"
  by (simp add: item_matches_def item_id_def)

lemma get_item_ok: "chunks_ok t \<Longrightarrow> i < tset_size t \<Longrightarrow> get_item t i = Inr (tset t ! i)"
  by (auto simp: get_item_def chunks_ok_def tset_chunk_def tset_max_capacity_def)

lemma find_item_scan_eq:
  assumes "chunks_ok t" and "i \<le> tset_size t"
  shows "find_item_scan t obj key i =
    Inr (map_option (\<lambda>k. i + k) (first_match (item_matches obj key) (drop i (tset t))))"
  using assms(2)
proof (induction "tset_size t - i" arbitrary: i)
  case 0
  then show ?case by (simp add: find_item_scan.simps)
next
  case (Suc n)
  then have "i < tset_size t" by simp
  moreover have "drop i (tset t) = tset t ! i # drop (Suc i) (tset t)"
    using \<open>i < tset_size t\<close> by (simp add: Cons_nth_drop_Suc)
  moreover have "(+) (Suc i) = (\<lambda>k. Suc (i + k))" by auto
  ultimately show ?case
    using Suc.hyps(1) [of "Suc i"] Suc.hyps(2) get_item_ok [OF assms(1)]
    by (simp add: find_item_scan.simps [of t obj key i] option.map_comp comp_def)
qed

lemma slot_index:
  assumes "unat s = unat b + i + 1"
  shows "\<not> s \<le> (b :: u16)" and "unat (s - b - 1) = i"
proof -
  show "\<not> s \<le> b" using assms by (simp add: word_le_nat_alt)
  have le: "b \<le> s" using assms by (simp add: word_le_nat_alt)
  have d: "unat (s - b) = i + 1" using unat_sub [OF le] assms by simp
  then have "1 \<le> s - b" by (simp add: word_le_nat_alt)
  from unat_sub [OF this] d show "unat (s - b - 1) = i" by simp
qed

lemma find_item_eq:
  assumes inv: "hash_inv t"
  shows "find_item obj key t = Inr (first_match (item_matches obj key) (tset t))"
proof -
  let ?h = "hash obj key" and ?P = "item_matches obj key :: 'a trans_item \<Rightarrow> bool"
  have ch: "chunks_ok t" and slot: "slot_ok t ?h"
    using inv by (simp_all add: hash_inv_def)
  show ?thesis
  proof (cases "first_match (\<lambda>it. item_hash it = ?h) (tset t)")
    case None
    then have "first_match ?P (tset t) = None"
      by (auto simp: first_match_None_iff dest: item_matches_hash)
    with None slot show ?thesis by (simp add: slot_ok_def find_item_def Let_def)
  next
    case (Some i)
    with slot have s: "unat (hashtable t ! ?h) = unat (hash_base t) + i + 1"
      by (simp add: slot_ok_def)
    have i: "i < tset_size t" using Some by (simp add: first_match_Some_iff)
    show ?thesis
      using slot_index [OF s] get_item_ok [OF ch i] find_item_scan_eq [OF ch, of 0 obj key]
        first_match_stronger [OF Some, of ?P]
      by (auto simp: find_item_def Let_def item_matches_hash option.map_ident)
  qed
qed

section \<open>The operations keep it\<close>

definition valid_obj :: "u64 \<Rightarrow> bool" where
  "valid_obj obj \<longleftrightarrow> obj AND pointer_mask = obj"

lemma TransItem_fields [simp]:
  "ti_key (TransItem obj key) = key" "ti_rdata (TransItem obj key) = None"
  "ti_wdata (TransItem obj key) = None" "valid_obj obj \<Longrightarrow> owner (TransItem obj key) = obj"
  by (simp_all add: TransItem_def valid_obj_def owner_def)

lemma TransItem_no_flags:
  assumes "valid_obj obj"
  shows "\<not> has_write (TransItem obj key)" "\<not> has_read (TransItem obj key)"
    "\<not> has_predicate (TransItem obj key)" "\<not> has_stash (TransItem obj key)"
    "\<not> needs_unlock (TransItem obj key)"
proof -
  have "\<not> bit obj n" if "48 \<le> n" for n
  proof -
    have "bit obj n \<longleftrightarrow> bit (obj AND mask 48) n"
      using assms by (simp add: valid_obj_def pointer_mask_eq)
    then show ?thesis using that by (auto simp: bit_and_iff bit_mask_iff)
  qed
  then show "\<not> has_write (TransItem obj key)" "\<not> has_read (TransItem obj key)"
    "\<not> has_predicate (TransItem obj key)" "\<not> has_stash (TransItem obj key)"
    "\<not> needs_unlock (TransItem obj key)"
    by (simp_all add: has_bits TransItem_def)
qed

lemma chunks_ok_alloc:
  assumes "chunks_ok t" and "tset_size t < tset_max_capacity"
  shows "\<exists>a. (if tset_size t \<noteq> 0 \<and> tset_size t mod tset_chunk = 0 then refresh_tset_chunk t else Inr t)
           = Inr (t\<lparr>tset_alloc := a\<rparr>) \<and> length a = 64 \<and> a ! 0 \<and> (\<forall>i \<le> tset_size t. a ! (i div tset_chunk))"
proof (cases "tset_size t \<noteq> 0 \<and> tset_size t mod tset_chunk = 0")
  case True
  let ?a = "(tset_alloc t)[tset_size t div tset_chunk := True]"
  have "?a ! (i div tset_chunk)" if "i \<le> tset_size t" for i
    using assms that
    by (cases "i = tset_size t") (auto simp: chunks_ok_def nth_list_update tset_chunk_def tset_max_capacity_def)
  moreover have "?a ! 0"
    using assms by (cases "tset_size t div tset_chunk = 0") (simp_all add: chunks_ok_def)
  ultimately show ?thesis using True assms
    by (intro exI [of _ ?a]) (auto simp: refresh_tset_chunk_def chunks_ok_def)
next
  case False
  have "tset_alloc t ! (i div tset_chunk)" if "i \<le> tset_size t" for i
  proof (cases "i = tset_size t")
    case True
    show ?thesis
    proof (cases "tset_size t = 0")
      case False
      with \<open>\<not> (tset_size t \<noteq> 0 \<and> _)\<close> have "tset_size t mod 512 \<noteq> 0"
        by (simp add: tset_chunk_def)
      then have "tset_size t div 512 = (tset_size t - 1) div 512"
        using False by (cases "tset_size t") (simp_all add: div_Suc)
      then show ?thesis using assms False True by (auto simp: chunks_ok_def tset_chunk_def)
    qed (use assms True in \<open>simp add: chunks_ok_def\<close>)
  qed (use assms that in \<open>simp add: chunks_ok_def\<close>)
  then show ?thesis using False assms by (intro exI [of _ "tset_alloc t"]) (auto simp: chunks_ok_def)
qed

lemma slot_value:
  assumes "hash_base t < 32768" and "tset_size t < tset_max_capacity"
  shows "unat (hash_base t + of_nat (Suc (tset_size t))) = unat (hash_base t) + tset_size t + 1"
proof -
  have "unat (hash_base t) < 32768" using assms(1) by (simp add: word_less_nat_alt)
  with assms(2) show ?thesis
    by (simp add: tset_max_capacity_def unat_word_ariths unat_of_nat del: of_nat_Suc)
qed

lemma allocate_item_ok:
  fixes t :: "'w txn"
  assumes inv: "hash_inv t" and obj: "valid_obj obj" and room: "tset_size t < tset_max_capacity"
  shows "\<exists>a ht. allocate_item obj key t =
      Inr (tset_size t, t\<lparr>tset := tset t @ [TransItem obj key], tset_alloc := a, hashtable := ht\<rparr>) \<and>
      hash_inv (t\<lparr>tset := tset t @ [TransItem obj key], tset_alloc := a, hashtable := ht\<rparr>)"
proof -
  from inv have ch: "chunks_ok t" by (simp add: hash_inv_def)
  from chunks_ok_alloc [OF ch room] obtain a where
    a: "(if tset_size t \<noteq> 0 \<and> tset_size t mod tset_chunk = 0 then refresh_tset_chunk t else Inr t)
          = Inr (t\<lparr>tset_alloc := a\<rparr>)"
    and a_ok: "length a = 64" "a ! 0" "\<forall>i \<le> tset_size t. a ! (i div tset_chunk)" by blast
  let ?h = "hash obj key" and ?it = "TransItem obj key :: 'w trans_item"
  let ?ht = "if hashtable t ! ?h \<le> hash_base t
    then (hashtable t)[?h := hash_base t + of_nat (Suc (tset_size t))] else hashtable t"
  let ?t = "t\<lparr>tset := tset t @ [?it], tset_alloc := a, hashtable := ?ht\<rparr>"
  have eq: "allocate_item obj key t = Inr (tset_size t, ?t)"
    using a by (simp add: allocate_item_def Let_def del: of_nat_Suc)
  have hb: "hash_base t < 32768" and len: "length (hashtable t) = hash_size"
    using inv by (simp_all add: hash_inv_def)
  have ih: "item_hash ?it = ?h" using obj by (simp add: item_hash_def)
  have "slot_ok ?t h" if h: "h < hash_size" for h
  proof -
    have old: "slot_ok t h" using inv h by (simp add: hash_inv_def)
    show ?thesis
    proof (cases "first_match (\<lambda>it. item_hash it = h) (tset t)")
      case None
      then show ?thesis
        using old h len slot_value [OF hb room] ih
        by (auto simp: slot_ok_def first_match_append nth_list_update)
    next
      case (Some i)
      then have "\<not> hashtable t ! h \<le> hash_base t"
        using old slot_index(1) by (auto simp: slot_ok_def)
      with Some old show ?thesis
        by (cases "h = ?h") (simp_all add: slot_ok_def first_match_append)
    qed
  qed
  moreover have "chunks_ok ?t"
    using a_ok room by (auto simp: chunks_ok_def tset_max_capacity_def less_Suc_eq_le)
  ultimately have "hash_inv ?t"
    using hb len by (simp add: hash_inv_def)
  with eq show ?thesis by blast
qed

text \<open>
  A full set cannot grow: the assertion of \<^verbatim>\<open>refresh_tset_chunk\<close> fails before anything is written.
\<close>

lemma allocate_item_full: "tset_size t = tset_max_capacity \<Longrightarrow> allocate_item obj key t = Inl Assert_Fail"
  by (simp add: allocate_item_def refresh_tset_chunk_def tset_max_capacity_def tset_chunk_def rassert_def)

lemma start_fields [simp]:
  "tset (start t) = []" "any_writes (start t) = False" "any_nonopaque (start t) = False"
  "may_duplicate_items (start t) = False" "txstate (start t) = S_in_progress"
  "threadid (start t) = threadid t" "tset_alloc (start t) = tset_alloc t"
  "first_write (start t) = 0" "commit_tid_field (start t) = 0" "start_tid (start t) = 0"
  by (simp_all add: start_def Let_def)

lemma start_cleared:
  assumes "32768 \<le> hash_base t + (of_nat (tset_size t) + 1)"
  shows "hash_base (start t) = 0" "hashtable (start t) = replicate hash_size 0"
  using assms by (simp_all add: start_def Let_def)

lemma start_kept:
  assumes "\<not> 32768 \<le> hash_base t + (of_nat (tset_size t) + 1)"
  shows "hash_base (start t) = hash_base t + (of_nat (tset_size t) + 1)"
    "hashtable (start t) = hashtable t"
  using assms by (simp_all add: start_def Let_def)

lemma chunks_ok_empty: "chunks_ok t \<Longrightarrow> tset t' = [] \<Longrightarrow> tset_alloc t' = tset_alloc t \<Longrightarrow> chunks_ok t'"
  by (simp add: chunks_ok_def)

lemma hash_inv_start_cleared:
  assumes "chunks_ok t" and "32768 \<le> hash_base t + (of_nat (tset_size t) + 1)"
  shows "hash_inv (start t)"
  using assms(1) chunks_ok_empty [OF assms(1), of "start t"]
  by (simp add: hash_inv_def start_cleared [OF assms(2)] slot_ok_def)

lemma hash_inv_first_start:
  "hash_inv (start (initialize t))"
proof (rule hash_inv_start_cleared)
  show "chunks_ok (initialize t)"
    by (simp add: chunks_ok_def initialize_def tset_initial_capacity_def tset_chunk_def
        tset_max_capacity_def)
qed (simp add: initialize_def)

lemma slot_bound:
  assumes "hash_inv t" and "h < hash_size"
  shows "unat (hashtable t ! h) \<le> unat (hash_base t) + tset_size t"
proof -
  have "slot_ok t h" using assms by (simp add: hash_inv_def)
  then show ?thesis
    by (auto simp: slot_ok_def word_le_nat_alt first_match_Some_iff split: option.splits)
qed

lemma hash_inv_start:
  assumes inv: "hash_inv t" and sum: "unat (hash_base t) + tset_size t < 65535"
  shows "hash_inv (start t)"
proof (cases "32768 \<le> hash_base t + (of_nat (tset_size t) + 1)")
  case True
  with inv show ?thesis by (intro hash_inv_start_cleared) (simp_all add: hash_inv_def)
next
  case False
  have v: "unat (hash_base t + (of_nat (tset_size t) + 1)) = unat (hash_base t) + tset_size t + 1"
    using sum by (simp add: unat_word_ariths unat_of_nat mod_simps)
  have "slot_ok (start t) h" if "h < hash_size" for h
    using slot_bound [OF inv that] by (simp add: slot_ok_def start_kept [OF False] word_le_nat_alt v)
  moreover have "chunks_ok (start t)"
    using inv chunks_ok_empty [of t "start t"] by (simp add: hash_inv_def)
  ultimately show ?thesis
    using False inv by (simp add: hash_inv_def start_kept [OF False] not_le)
qed

section \<open>Interface: a set of items with lookup by key\<close>

definition get_or_add ::
  "('k \<Rightarrow> 's \<Rightarrow> nat option result) \<Rightarrow> ('k \<Rightarrow> 's \<Rightarrow> (nat \<times> 's) result) \<Rightarrow> 'k \<Rightarrow> 's \<Rightarrow> (nat \<times> 's) result"
where
  "get_or_add lookup add k s =
     rbind (lookup k s) (\<lambda>r. case r of None \<Rightarrow> add k s | Some i \<Rightarrow> Inr (i, s))"

locale keyed_items =
  fixes inv :: "'s \<Rightarrow> bool" and room :: "'s \<Rightarrow> bool" and keys :: "'s \<Rightarrow> 'k list"
    and valid :: "'k \<Rightarrow> bool"
    and lookup :: "'k \<Rightarrow> 's \<Rightarrow> nat option result" and add :: "'k \<Rightarrow> 's \<Rightarrow> (nat \<times> 's) result"
  assumes lookup_first: "inv s \<Longrightarrow> lookup k s = Inr (first_match ((=) k) (keys s))"
    and add_ok: "inv s \<Longrightarrow> valid k \<Longrightarrow> room s \<Longrightarrow>
      \<exists>s'. add k s = Inr (length (keys s), s') \<and> keys s' = keys s @ [k] \<and> inv s'"
begin

lemma lookup_None: "inv s \<Longrightarrow> lookup k s = Inr None \<longleftrightarrow> k \<notin> set (keys s)"
  by (auto simp: lookup_first first_match_None_iff)

lemma get_or_add_ok:
  assumes "inv s" and "valid k" and "room s"
  shows "\<exists>i s'. get_or_add lookup add k s = Inr (i, s') \<and> inv s' \<and> i < length (keys s') \<and>
    keys s' ! i = k \<and> keys s' = (if k \<in> set (keys s) then keys s else keys s @ [k]) \<and>
    (k \<in> set (keys s) \<longrightarrow> s' = s)"
proof (cases "first_match ((=) k) (keys s)")
  case None
  then have "k \<notin> set (keys s)" by (auto simp: first_match_None_iff)
  with None assms lookup_first [OF assms(1), of k] add_ok [OF assms] show ?thesis
    by (auto simp: get_or_add_def)
next
  case (Some i)
  then have "i < length (keys s)" "keys s ! i = k" by (auto simp: first_match_Some_iff)
  with Some assms lookup_first [OF assms(1), of k] show ?thesis
    by (auto simp: get_or_add_def)
qed

lemma get_or_add_again:
  assumes "inv s" and "valid k" and "room s" and "get_or_add lookup add k s = Inr (i, s')"
  shows "get_or_add lookup add k s' = Inr (i, s')"
proof (cases "first_match ((=) k) (keys s)")
  case None
  with assms lookup_first [OF assms(1), of k] have "add k s = Inr (i, s')"
    by (simp add: get_or_add_def)
  with add_ok [OF assms(1-3)] have "i = length (keys s)" "keys s' = keys s @ [k]" "inv s'" by auto
  with None show ?thesis
    by (simp add: get_or_add_def lookup_first first_match_append)
next
  case (Some j)
  with assms lookup_first [OF assms(1), of k] show ?thesis
    by (simp add: get_or_add_def)
qed

lemma get_or_add_distinct:
  assumes "inv s" and "valid k" and "room s" and "distinct (keys s)"
    and "get_or_add lookup add k s = Inr (i, s')"
  shows "distinct (keys s')"
  using get_or_add_ok [OF assms(1-3)] assms(4,5) by (auto split: if_splits)

end

definition item_keys :: "'w txn \<Rightarrow> (u64 \<times> u64) list" where
  "item_keys t = map item_id (tset t)"

interpretation tset: keyed_items hash_inv "\<lambda>t. tset_size t < tset_max_capacity" item_keys
  "\<lambda>k. valid_obj (fst k)" "\<lambda>k. find_item (fst k) (snd k)" "\<lambda>k. allocate_item (fst k) (snd k)"
proof
  fix t :: "'w txn" and k
  assume inv: "hash_inv t"
  have "(=) k \<circ> item_id = (item_matches (fst k) (snd k) :: 'w trans_item \<Rightarrow> bool)"
    by (auto simp: item_matches_id fun_eq_iff)
  with inv show "find_item (fst k) (snd k) t = Inr (first_match ((=) k) (item_keys t))"
    by (simp add: find_item_eq item_keys_def first_match_map)
  assume "valid_obj (fst k)" "tset_size t < tset_max_capacity"
  with allocate_item_ok [OF inv this, of "snd k"]
  show "\<exists>t'. allocate_item (fst k) (snd k) t = Inr (length (item_keys t), t') \<and>
      item_keys t' = item_keys t @ [k] \<and> hash_inv t'"
    by (auto simp: item_keys_def item_id_def)
qed

lemma item_get_or_add:
  "item obj key = get_or_add (\<lambda>k. find_item (fst k) (snd k)) (\<lambda>k. allocate_item (fst k) (snd k)) (obj, key)"
  by (simp add: fun_eq_iff item_def get_or_add_def cong: option.case_cong)

section \<open>What the recording operations keep\<close>

lemma owner_data_update [simp]:
  "owner (it\<lparr>ti_rdata := r\<rparr>) = owner it" "owner (it\<lparr>ti_wdata := w\<rparr>) = owner it"
  "owner (it\<lparr>extra := e\<rparr>) = owner it"
  by (simp_all add: owner_def)

lemma flag_data_update [simp]:
  "has_write (it\<lparr>ti_rdata := r\<rparr>) = has_write it" "has_write (it\<lparr>ti_wdata := w\<rparr>) = has_write it"
  "has_write (it\<lparr>extra := e\<rparr>) = has_write it" "has_read (it\<lparr>ti_rdata := r\<rparr>) = has_read it"
  "has_read (it\<lparr>ti_wdata := w\<rparr>) = has_read it" "has_read (it\<lparr>extra := e\<rparr>) = has_read it"
  by (simp_all add: has_write_def has_read_def flags_def)

lemma flag_or_flags [simp]:
  "has_write (or_flags read_bit it) = has_write it" "has_write (or_flags predicate_bit it) = has_write it"
  "has_write (or_flags stash_bit it) = has_write it" "has_write (or_flags write_bit it)"
  "has_write (or_flags item_lock_bit it) = has_write it"
  "has_read (or_flags read_bit it)" "has_read (or_flags write_bit it) = has_read it"
  "has_read (or_flags predicate_bit it) = has_read it" "has_read (or_flags stash_bit it) = has_read it"
  "has_read (or_flags item_lock_bit it) = has_read it"
  "needs_unlock (or_flags item_lock_bit it)"
  by (simp_all add: has_bits bit_or_flags)

lemma map_list_update_same: "f y = f (xs ! i) \<Longrightarrow> map f (xs[i := y]) = map f xs"
  by (metis list_update_id map_update)

lemma first_match_cong_map:
  assumes "map f xs = map f ys"
  shows "first_match (\<lambda>x. P (f x)) xs = first_match (\<lambda>x. P (f x)) ys"
  using first_match_map [of P f xs] first_match_map [of P f ys] assms by (simp add: comp_def)

lemma hash_inv_put_item:
  assumes inv: "hash_inv t" and id: "item_id it = item_id (tset t ! i)"
  shows "hash_inv (put_item i it t)"
proof -
  have m: "map item_id ((tset t)[i := it]) = map item_id (tset t)"
    using id by (rule map_list_update_same)
  have "first_match (\<lambda>it. item_hash it = h) ((tset t)[i := it])
      = first_match (\<lambda>it. item_hash it = h) (tset t)" for h
    using first_match_cong_map [OF m, of "\<lambda>k. hash (fst k) (snd k) = h"]
    by (simp add: item_hash_def item_id_def)
  with inv show ?thesis
    by (simp add: hash_inv_def slot_ok_def chunks_ok_def put_item_def cong: option.case_cong)
qed

lemma hash_inv_irrelevant [simp]:
  "hash_inv (t\<lparr>any_writes := b\<rparr>) = hash_inv t" "hash_inv (t\<lparr>any_nonopaque := b\<rparr>) = hash_inv t"
  "hash_inv (t\<lparr>may_duplicate_items := b\<rparr>) = hash_inv t" "hash_inv (t\<lparr>txstate := s\<rparr>) = hash_inv t"
  "hash_inv (t\<lparr>first_write := w\<rparr>) = hash_inv t" "hash_inv (t\<lparr>start_tid := w'\<rparr>) = hash_inv t"
  "hash_inv (t\<lparr>commit_tid_field := w'\<rparr>) = hash_inv t"
  "hash_inv (t\<lparr>tid_unique_field := w'\<rparr>) = hash_inv t"
  by (simp_all add: hash_inv_def slot_ok_def chunks_ok_def cong: option.case_cong)

text \<open>
  \<open>set_inv\<close>: the hash table is right, items are duplicated only when \<^verbatim>\<open>may_duplicate_items_\<close> says
  so, and a write item is announced by \<^verbatim>\<open>any_writes_\<close>.
\<close>

definition set_inv :: "'w txn \<Rightarrow> bool" where
  "set_inv t \<longleftrightarrow> hash_inv t \<and> (may_duplicate_items t \<or> distinct (item_keys t)) \<and>
     (\<forall>it \<in> set (tset t). has_write it \<longrightarrow> any_writes t)"

lemma get_item_Inr: "get_item t i = Inr it \<longleftrightarrow>
    i div tset_chunk < length (tset_alloc t) \<and> tset_alloc t ! (i div tset_chunk) \<and> i < tset_size t \<and>
    it = tset t ! i"
  by (auto simp: get_item_def)

lemma set_inv_put_item:
  assumes "set_inv t" and "item_id it = item_id (tset t ! i)" and "has_write it \<longrightarrow> b"
    and "any_writes t \<longrightarrow> b"
  shows "set_inv ((put_item i it t)\<lparr>any_writes := b\<rparr>)"
proof -
  have "item_keys (put_item i it t) = item_keys t"
    using map_list_update_same [OF assms(2)] by (simp add: item_keys_def put_item_def)
  moreover have "has_write x \<longrightarrow> b" if "x \<in> set ((tset t)[i := it])" for x
    using that assms set_update_subset_insert [of "tset t" i it] by (auto simp: set_inv_def)
  ultimately show ?thesis
    using assms hash_inv_put_item [OF _ assms(2)]
    by (auto simp: set_inv_def item_keys_def put_item_def)
qed

lemma set_inv_put_item_same:
  assumes "set_inv t" and "item_id it = item_id (tset t ! i)" and "has_write it = has_write (tset t ! i)"
    and "i < tset_size t"
  shows "set_inv (put_item i it t)"
proof -
  have "set_inv ((put_item i it t)\<lparr>any_writes := any_writes t\<rparr>)"
    using assms by (intro set_inv_put_item) (auto simp: set_inv_def)
  then show ?thesis by (simp add: put_item_def)
qed

lemma set_inv_irrelevant [simp]:
  "set_inv (t\<lparr>any_nonopaque := b\<rparr>) = set_inv t" "set_inv (t\<lparr>txstate := s\<rparr>) = set_inv t"
  "set_inv (t\<lparr>start_tid := w\<rparr>) = set_inv t"
  by (simp_all add: set_inv_def item_keys_def)

text \<open>
  What a run of one \<^verbatim>\<open>Transaction\<close> object does to its set: \<^verbatim>\<open>start\<close>, the lookups that may add an
  item, every method of \<^verbatim>\<open>TransProxy\<close> that changes an item, and the lock flag that the commit sets on
  an item and clears again.  \<^verbatim>\<open>new_item\<close> does not look whether the item is there; its callers do.
\<close>

inductive txn_step :: "'w txn \<Rightarrow> 'w txn \<Rightarrow> bool" where
  step_start: "txn_step t (start t)"
| step_item: "valid_obj obj \<Longrightarrow> item obj key t = Inr (i, t') \<Longrightarrow> txn_step t t'"
| step_read_item: "valid_obj obj \<Longrightarrow> read_item obj key t = Inr (i, t') \<Longrightarrow> txn_step t t'"
| step_fresh_item: "valid_obj obj \<Longrightarrow> fresh_item obj key t = Inr (i, t') \<Longrightarrow> txn_step t t'"
| step_new_item: "valid_obj obj \<Longrightarrow> (obj, key) \<notin> set (item_keys t) \<Longrightarrow>
    new_item obj key t = Inr (i, t') \<Longrightarrow> txn_step t t'"
| step_add_read: "add_read i r t = Inr t' \<Longrightarrow> txn_step t t'"
| step_update_read: "update_read i r r' t = Inr t' \<Longrightarrow> txn_step t t'"
| step_add_extra: "add_extra i e t = Inr t' \<Longrightarrow> txn_step t t'"
| step_set_predicate0: "set_predicate0 i t = Inr t' \<Longrightarrow> txn_step t t'"
| step_set_predicate: "set_predicate i r t = Inr t' \<Longrightarrow> txn_step t t'"
| step_predicate_value: "predicate_value_default i r t = Inr (v, t') \<Longrightarrow> txn_step t t'"
| step_add_write0: "add_write0 i t = Inr t' \<Longrightarrow> txn_step t t'"
| step_add_write: "add_write i w t = Inr t' \<Longrightarrow> txn_step t t'"
| step_set_stash: "set_stash i r t = Inr t' \<Longrightarrow> txn_step t t'"
| step_observe_read: "observe_read i v add t = Inr t' \<Longrightarrow> txn_step t t'"
| step_clear_read: "clear_read i t = Inr t' \<Longrightarrow> txn_step t t'"
| step_clear_predicate: "clear_predicate i t = Inr t' \<Longrightarrow> txn_step t t'"
| step_clear_write: "clear_write i t = Inr t' \<Longrightarrow> txn_step t t'"
| step_clear_stash: "clear_stash i t = Inr t' \<Longrightarrow> txn_step t t'"
| step_remove_read: "remove_read i t = Inr t' \<Longrightarrow> txn_step t t'"
| step_remove_write: "remove_write i t = Inr t' \<Longrightarrow> txn_step t t'"
| step_assign_flags: "proxy_assign_flags i f t = Inr t' \<Longrightarrow> txn_step t t'"
| step_clear_flags: "proxy_clear_flags i f t = Inr t' \<Longrightarrow> txn_step t t'"
| step_add_flags: "proxy_add_flags i f t = Inr t' \<Longrightarrow> txn_step t t'"
| step_lock_flag: "get_item t i = Inr it \<Longrightarrow> txn_step t (put_item i (or_flags item_lock_bit it) t)"
| step_unlock_flag: "get_item t i = Inr it \<Longrightarrow> txn_step t (put_item i (clear_needs_unlock it) t)"

inductive txn_reachable :: "'w txn \<Rightarrow> bool" where
  reach_init: "txn_reachable (start (initialize t))"
| reach_step: "txn_reachable t \<Longrightarrow> txn_step t t' \<Longrightarrow> txn_reachable t'"

lemma allocate_item_Inr:
  assumes "hash_inv t" and "valid_obj obj" and "allocate_item obj key t = Inr (i, t')"
  shows "tset_size t < tset_max_capacity"
  using assms allocate_item_full [of t obj key]
  by (cases "tset_size t = tset_max_capacity") (auto simp: hash_inv_def chunks_ok_def)

lemma set_inv_allocate:
  assumes inv: "hash_inv t" and obj: "valid_obj obj" and al: "allocate_item obj key t = Inr (i, t')"
    and dup: "may_duplicate_items t \<or> distinct (item_keys t @ [(obj, key)])"
    and wr: "\<forall>it \<in> set (tset t). has_write it \<longrightarrow> any_writes t"
  shows "set_inv t'"
proof -
  from allocate_item_ok [OF inv obj allocate_item_Inr [OF inv obj al], of key] al
  obtain a ht where t': "t' = t\<lparr>tset := tset t @ [TransItem obj key], tset_alloc := a, hashtable := ht\<rparr>"
    and inv': "hash_inv t'" by auto
  have "item_keys t' = item_keys t @ [(obj, key)]"
    using t' obj by (simp add: item_keys_def item_id_def)
  with inv' t' dup wr TransItem_no_flags(1) [OF obj, of key] show ?thesis
    by (auto simp: set_inv_def)
qed

lemma set_inv_item:
  assumes inv: "set_inv t" and obj: "valid_obj obj" and it: "item obj key t = Inr (i, t')"
  shows "set_inv t'"
proof -
  have h: "hash_inv t" using inv by (simp add: set_inv_def)
  have f: "find_item obj key t = Inr (first_match ((=) (obj, key)) (item_keys t))"
    using tset.lookup_first [OF h, of "(obj, key)"] by simp
  show ?thesis
  proof (cases "first_match ((=) (obj, key)) (item_keys t)")
    case None
    then have "(obj, key) \<notin> set (item_keys t)" by (auto simp: first_match_None_iff)
    with None it inv f show ?thesis
      by (intro set_inv_allocate [OF h obj, of key i t']) (auto simp: item_def set_inv_def)
  qed (use it inv f in \<open>auto simp: item_def\<close>)
qed

lemma set_inv_fresh_item:
  assumes inv: "set_inv t" and obj: "valid_obj obj"
    and al: "allocate_item obj key (t\<lparr>may_duplicate_items := 0 < tset_size t\<rparr>) = Inr (i, t')"
  shows "set_inv t'"
  using inv by (intro set_inv_allocate [OF _ obj al]) (auto simp: set_inv_def item_keys_def)

lemma item_id_updates [simp]:
  "item_id (it\<lparr>ti_rdata := r\<rparr>) = item_id it" "item_id (it\<lparr>ti_wdata := w\<rparr>) = item_id it"
  "item_id (it\<lparr>extra := e\<rparr>) = item_id it" "runtime_flag f \<Longrightarrow> item_id (or_flags f it) = item_id it"
  by (simp_all add: item_id_def)

lemma or_flags_data [simp]:
  "runtime_flag f \<Longrightarrow> item_id ((or_flags f it)\<lparr>ti_rdata := r\<rparr>) = item_id it"
  "runtime_flag f \<Longrightarrow> item_id ((or_flags f it)\<lparr>ti_wdata := w\<rparr>) = item_id it"
  by simp_all

lemma set_inv_records:
  assumes inv: "set_inv t"
  shows "add_read i r t = Inr t' \<Longrightarrow> set_inv t'"
    and "update_read i r r' t = Inr t' \<Longrightarrow> set_inv t'"
    and "add_extra i e t = Inr t' \<Longrightarrow> set_inv t'"
    and "set_predicate0 i t = Inr t' \<Longrightarrow> set_inv t'"
    and set_inv_set_predicate: "set_predicate i r t = Inr t' \<Longrightarrow> set_inv t'"
    and "set_stash i r t = Inr t' \<Longrightarrow> set_inv t'"
    and "add_write0 i t = Inr t' \<Longrightarrow> set_inv t'"
    and "add_write i w t = Inr t' \<Longrightarrow> set_inv t'"
proof -
  note same = set_inv_put_item_same [OF inv]
  show "add_read i r t = Inr t' \<Longrightarrow> set_inv t'"
    using inv by (auto simp: add_read_def rbind_eq_Inr_iff get_item_Inr intro!: same split: if_splits)
  show "update_read i r r' t = Inr t' \<Longrightarrow> set_inv t'"
    using inv by (auto simp: update_read_def rbind_eq_Inr_iff get_item_Inr intro!: same split: if_splits)
  show "add_extra i e t = Inr t' \<Longrightarrow> set_inv t'"
    by (auto simp: add_extra_def rbind_eq_Inr_iff get_item_Inr intro!: same)
  show "set_predicate0 i t = Inr t' \<Longrightarrow> set_inv t'"
    by (auto simp: set_predicate0_def rbind_eq_Inr_iff get_item_Inr intro!: same)
  show "set_predicate i r t = Inr t' \<Longrightarrow> set_inv t'"
    by (auto simp: set_predicate_def rbind_eq_Inr_iff get_item_Inr intro!: same)
  show "set_stash i r t = Inr t' \<Longrightarrow> set_inv t'"
    by (auto simp: set_stash_def rbind_eq_Inr_iff get_item_Inr intro!: same split: if_splits)
  show "add_write0 i t = Inr t' \<Longrightarrow> set_inv t'"
    using inv by (auto simp: add_write0_def rbind_eq_Inr_iff get_item_Inr intro!: set_inv_put_item split: if_splits)
  show "add_write i w t = Inr t' \<Longrightarrow> set_inv t'"
    using inv by (auto simp: add_write_def rbind_eq_Inr_iff get_item_Inr intro!: same set_inv_put_item split: if_splits)
qed

text \<open>The operations that only change flags: they keep the owner, and no write appears.\<close>

lemma set_inv_put_item_weaker:
  assumes "set_inv t" and "item_id it = item_id (tset t ! i)" and "has_write it \<longrightarrow> has_write (tset t ! i)"
    and "i < tset_size t"
  shows "set_inv (put_item i it t)"
proof -
  have "set_inv ((put_item i it t)\<lparr>any_writes := any_writes t\<rparr>)"
    using assms by (intro set_inv_put_item) (auto simp: set_inv_def)
  then show ?thesis by (simp add: put_item_def)
qed

lemma item_id_rm_flags [simp]: "runtime_flag f \<Longrightarrow> item_id (rm_flags f it) = item_id it"
  by (simp add: item_id_def)

lemma has_write_rm_flags: "has_write (rm_flags f it) \<longrightarrow> has_write it"
  by (simp add: has_bits bit_rm_flags)

lemma and_zero_bit: "f AND special_mask = 0 \<Longrightarrow> bit special_mask n \<Longrightarrow> \<not> bit (f :: u64) n"
  by (metis bit_0_eq bit_and_iff bot_apply bot_bool_def)

lemma owner_word_eqI:
  assumes "\<And>n. bit special_mask n \<Longrightarrow> bit (s_word it') n = bit (s_word it) n" and "ti_key it' = ti_key it"
  shows "item_id it' = item_id it" and "has_write it' = has_write it"
proof -
  have "owner it' = owner it"
    by (rule bit_word_eqI) (auto simp: owner_take_bit bit_take_bit_iff assms(1) bit_special_mask)
  then show "item_id it' = item_id it" using assms(2) by (simp add: item_id_def)
  show "has_write it' = has_write it" by (simp add: has_bits assms(1) bit_special_mask)
qed

lemma user_flags_kept:
  "assign_flags f it = Inr it' \<Longrightarrow> item_id it' = item_id it \<and> has_write it' = has_write it"
  "clear_flags f it = Inr it' \<Longrightarrow> item_id it' = item_id it \<and> has_write it' = has_write it"
  "add_flags f it = Inr it' \<Longrightarrow> item_id it' = item_id it \<and> has_write it' = has_write it"
proof -
  show "assign_flags f it = Inr it' \<Longrightarrow> item_id it' = item_id it \<and> has_write it' = has_write it"
    by (intro conjI owner_word_eqI)
      (auto simp: assign_flags_def rbind_eq_Inr_iff bit_or_iff bit_and_iff dest: and_zero_bit)
  show "clear_flags f it = Inr it' \<Longrightarrow> item_id it' = item_id it \<and> has_write it' = has_write it"
    by (intro conjI owner_word_eqI)
      (auto simp: clear_flags_def rbind_eq_Inr_iff bit_and_iff bit_not_iff bit_special_mask
        dest: and_zero_bit)
  show "add_flags f it = Inr it' \<Longrightarrow> item_id it' = item_id it \<and> has_write it' = has_write it"
    by (intro conjI owner_word_eqI)
      (auto simp: add_flags_def rbind_eq_Inr_iff bit_or_iff dest: and_zero_bit)
qed

lemmas clear_defs = clear_read_def clear_predicate_def clear_write_def clear_stash_def remove_read_def
  remove_write_def

lemma set_inv_clears:
  assumes inv: "set_inv t"
  shows "clear_read i t = Inr t' \<Longrightarrow> set_inv t'" "clear_predicate i t = Inr t' \<Longrightarrow> set_inv t'"
    "clear_write i t = Inr t' \<Longrightarrow> set_inv t'" "clear_stash i t = Inr t' \<Longrightarrow> set_inv t'"
    "remove_read i t = Inr t' \<Longrightarrow> set_inv t'" "remove_write i t = Inr t' \<Longrightarrow> set_inv t'"
  by (auto simp: clear_defs rbind_eq_Inr_iff get_item_Inr has_write_rm_flags
      intro!: set_inv_put_item_weaker [OF inv])

lemma set_inv_flags:
  assumes inv: "set_inv t"
  shows "proxy_assign_flags i f t = Inr t' \<Longrightarrow> set_inv t'"
    "proxy_clear_flags i f t = Inr t' \<Longrightarrow> set_inv t'"
    "proxy_add_flags i f t = Inr t' \<Longrightarrow> set_inv t'"
    "observe_read i v add t = Inr t' \<Longrightarrow> set_inv t'"
    "get_item t i = Inr it \<Longrightarrow> set_inv (put_item i (or_flags item_lock_bit it) t)"
    "get_item t i = Inr it \<Longrightarrow> set_inv (put_item i (clear_needs_unlock it) t)"
proof -
  note same = set_inv_put_item_same [OF inv]
  show "proxy_assign_flags i f t = Inr t' \<Longrightarrow> set_inv t'"
    by (auto simp: proxy_assign_flags_def rbind_eq_Inr_iff get_item_Inr user_flags_kept(1) intro!: same)
  show "proxy_clear_flags i f t = Inr t' \<Longrightarrow> set_inv t'"
    by (auto simp: proxy_clear_flags_def rbind_eq_Inr_iff get_item_Inr user_flags_kept(2) intro!: same)
  show "proxy_add_flags i f t = Inr t' \<Longrightarrow> set_inv t'"
    by (auto simp: proxy_add_flags_def rbind_eq_Inr_iff get_item_Inr user_flags_kept(3) intro!: same)
  show "observe_read i v add t = Inr t' \<Longrightarrow> set_inv t'"
    using inv by (auto simp: observe_read_def rbind_eq_Inr_iff get_item_Inr intro!: same split: if_splits)
  show "get_item t i = Inr it \<Longrightarrow> set_inv (put_item i (or_flags item_lock_bit it) t)"
    by (auto simp: get_item_Inr intro!: same)
  show "get_item t i = Inr it \<Longrightarrow> set_inv (put_item i (clear_needs_unlock it) t)"
    by (auto simp: get_item_Inr clear_needs_unlock_def has_write_rm_flags
        intro!: set_inv_put_item_weaker [OF inv])
qed

lemma set_inv_step:
  assumes "txn_step t t'" and "set_inv t" and "t' = start t \<longrightarrow> unat (hash_base t) + tset_size t < 65535"
  shows "set_inv t'"
  using assms
proof (induction rule: txn_step.induct)
  case (step_start t)
  then show ?case by (simp add: set_inv_def item_keys_def hash_inv_start)
next
  case (step_read_item obj key t i t')
  then show ?case
    using set_inv_item set_inv_fresh_item by (auto simp: read_item_def split: if_splits)
next
  case (step_new_item obj key t i t')
  then show ?case
    by (intro set_inv_allocate [of t obj key i t']) (auto simp: set_inv_def new_item_def)
next
  case (step_predicate_value i r t v t')
  then show ?case
    using set_inv_set_predicate
    by (auto simp: predicate_value_default_def rbind_eq_Inr_iff split: if_splits)
next
  case (step_fresh_item obj key t i t')
  show ?case
    by (rule set_inv_fresh_item [OF step_fresh_item(3,1) step_fresh_item(2) [unfolded fresh_item_def]])
next
  case (step_item obj key t i t')
  show ?case by (rule set_inv_item [OF step_item(3,1,2)])
qed (rule set_inv_records set_inv_clears set_inv_flags; assumption)+

section \<open>Properties\<close>

text \<open>
  C19.  Finding an item through the hash table is the linear search for the first item with that
  owner and key: the lookup neither misses an item, nor returns one left over from an earlier
  transaction, nor reads outside the item array.
\<close>

theorem find_item_first_match:
  assumes "hash_inv t"
  shows "find_item obj key t = Inr (first_match (\<lambda>it. owner it = obj \<and> ti_key it = key) (tset t))"
  using find_item_eq [OF assms, of obj key] by (simp add: item_matches_def [abs_def])

definition blank_txn :: "nat txn" where
  "blank_txn = \<lparr>threadid = 3, hash_base = 7, first_write = 0, txstate = S_aborted, any_writes = True,
     any_nonopaque = True, may_duplicate_items = True, tset = [], tset_alloc = [],
     hashtable = replicate 1024 99, start_tid = 0, commit_tid_field = 0, tid_unique_field = 0,
     lrng_state = 0\<rparr>"

theorem find_item_first_match_witness:
  "hash_inv (start (initialize blank_txn)) \<and>
   find_item 0x7F0010 8 (start (initialize blank_txn)) = Inr None"
  using find_item_first_match [OF hash_inv_first_start [of blank_txn], of "0x7F0010" 8] hash_inv_first_start
  by auto

text \<open>
  \<^verbatim>\<open>Transaction::item\<close> is get-or-add.  While the set has room it returns an index whose item
  has the owner and key asked for, adds an item (at the end) only when there was none, so a set
  without duplicates stays without, keeps the invariant, and asking again returns the same item and
  changes nothing.
\<close>

theorem item_get_or_add_correct:
  assumes "hash_inv t" and "valid_obj obj" and "tset_size t < tset_max_capacity"
  shows "\<exists>i t'. item obj key t = Inr (i, t') \<and> hash_inv t' \<and> i < tset_size t' \<and>
    owner (tset t' ! i) = obj \<and> ti_key (tset t' ! i) = key \<and>
    item_keys t' = (if (obj, key) \<in> set (item_keys t) then item_keys t else item_keys t @ [(obj, key)]) \<and>
    (distinct (item_keys t) \<longrightarrow> distinct (item_keys t')) \<and> item obj key t' = Inr (i, t')"
proof -
  let ?k = "(obj, key)"
  have v: "valid_obj (fst ?k)" using assms(2) by simp
  note gs = tset.get_or_add_ok [OF assms(1) v assms(3), folded item_get_or_add]
  from gs obtain i t' where g: "item obj key t = Inr (i, t')" "hash_inv t'" "i < length (item_keys t')"
    "item_keys t' ! i = ?k"
    "item_keys t' = (if ?k \<in> set (item_keys t) then item_keys t else item_keys t @ [?k])"
    by blast
  note again = tset.get_or_add_again [OF assms(1) v assms(3), folded item_get_or_add, OF g(1)]
  note dist = tset.get_or_add_distinct [OF assms(1) v assms(3) _ g(1) [unfolded item_get_or_add]]
  have "i < tset_size t'" "item_id (tset t' ! i) = (obj, key)"
    using g(3,4) by (simp_all add: item_keys_def)
  then show ?thesis
    using g(1,2,5) again dist unfolding item_id_def by blast
qed

theorem item_get_or_add_correct_witness:
  "\<exists>i t'. item 0x7F0010 8 (start (initialize blank_txn)) = Inr (i, t') \<and>
     item 0x7F0010 8 t' = Inr (i, t') \<and> item_keys t' = [(0x7F0010, 8)]"
proof -
  have "valid_obj 0x7F0010" by (simp add: valid_obj_def pointer_mask_def)
  from item_get_or_add_correct [OF hash_inv_first_start this, of blank_txn 8]
  show ?thesis by (auto simp: tset_max_capacity_def item_keys_def)
qed

text \<open>
  C18.  Every operation that builds or changes the set keeps its invariant, with one exception: the
  lookups that add an item, every method of \<^verbatim>\<open>TransProxy\<close> that records, updates, clears or removes a
  read, a write, a predicate, a stash or a user flag, and the lock flag of the commit always keep the
  hash table right, duplicate an item only if \<^verbatim>\<open>may_duplicate_items_\<close> says so, and leave \<^verbatim>\<open>any_writes_\<close>
  set while an item has a write; \<^verbatim>\<open>start\<close> does so when the old \<^verbatim>\<open>hash_base_\<close> and the number of items
  add up to less than 65535.  At exactly 65535 (the largest sum there is) the 16-bit \<^verbatim>\<open>hash_base_\<close>
  wraps to 0 and \<^verbatim>\<open>start\<close> breaks the invariant: that is the next theorem.
\<close>

theorem txn_step_preserves_set_inv:
  assumes "txn_step t t'" and "set_inv t" and "t' = start t \<longrightarrow> unat (hash_base t) + tset_size t < 65535"
  shows "set_inv t'"
  using assms by (rule set_inv_step)

theorem txn_step_preserves_set_inv_witness:
  "\<exists>t'. read_item 0x7F0010 8 (start (initialize blank_txn)) = Inr (0, t') \<and> set_inv t'"
proof -
  let ?t = "start (initialize blank_txn)"
  have v: "valid_obj 0x7F0010" by (simp add: valid_obj_def pointer_mask_def)
  have inv: "set_inv ?t"
    using hash_inv_first_start [of blank_txn] by (simp add: set_inv_def item_keys_def)
  from allocate_item_ok [of "?t\<lparr>may_duplicate_items := 0 < tset_size ?t\<rparr>", OF _ v, of 8]
    hash_inv_first_start [of blank_txn]
  obtain t' where r: "read_item 0x7F0010 8 ?t = Inr (0, t')"
    by (auto simp: read_item_def tset_max_capacity_def)
  have "hash_base ?t < 32768" using hash_inv_first_start [of blank_txn] by (simp add: hash_inv_def)
  then have "unat (hash_base ?t) + tset_size ?t < 65535" by (simp add: word_less_nat_alt)
  from txn_step_preserves_set_inv [OF step_read_item [OF v r] inv] this r show ?thesis by blast
qed

lemma reach_starts:
  "n \<le> 32767 \<Longrightarrow> \<exists>t :: 'w txn. txn_reachable t \<and> hash_inv t \<and> tset t = [] \<and> unat (hash_base t) = n"
proof (induction n)
  case 0
  have "hash_base (start (initialize t)) = 0" for t :: "'w txn"
    by (rule start_cleared(1)) (simp add: initialize_def)
  then show ?case
    using reach_init [of "undefined :: 'w txn"] hash_inv_first_start [of "undefined :: 'w txn"]
    by (intro exI [of _ "start (initialize undefined)"]) simp
next
  case (Suc n)
  then obtain t :: "'w txn" where t: "txn_reachable t" "hash_inv t" "tset t = []" "unat (hash_base t) = n"
    by auto
  have u: "unat (hash_base t + (of_nat (tset_size t) + 1)) = Suc n"
    using t Suc.prems by (simp add: unat_word_ariths)
  then have "\<not> 32768 \<le> hash_base t + (of_nat (tset_size t) + 1)"
    using Suc.prems by (simp add: word_le_nat_alt)
  from start_kept(1) [OF this] u have "unat (hash_base (start t)) = Suc n" by simp
  moreover have "hash_inv (start t)" using t Suc.prems by (intro hash_inv_start) simp_all
  ultimately show ?case
    using t reach_step [OF t(1) step_start] by (intro exI [of _ "start t"]) simp
qed

lemma reach_items:
  "n \<le> 32768 \<Longrightarrow> \<exists>t :: 'w txn. txn_reachable t \<and> hash_inv t \<and> tset_size t = n \<and> unat (hash_base t) = 32767 \<and>
     (n > 0 \<longrightarrow> item_id (tset t ! 0) = (0, 0))"
proof (induction n)
  case 0
  then show ?case using reach_starts [of 32767] by auto
next
  case (Suc n)
  then obtain t :: "'w txn" where t: "txn_reachable t" "hash_inv t" "tset_size t = n"
    "unat (hash_base t) = 32767" "n > 0 \<longrightarrow> item_id (tset t ! 0) = (0, 0)" by auto
  have v: "valid_obj 0" by (simp add: valid_obj_def)
  let ?t = "t\<lparr>may_duplicate_items := 0 < tset_size t\<rparr>"
  from allocate_item_ok [of ?t, OF _ v, of 0] t Suc.prems obtain a ht where
    f: "fresh_item 0 0 t = Inr (n, ?t\<lparr>tset := tset t @ [TransItem 0 0], tset_alloc := a, hashtable := ht\<rparr>)"
    and h: "hash_inv (?t\<lparr>tset := tset t @ [TransItem 0 0], tset_alloc := a, hashtable := ht\<rparr>)"
    by (auto simp: fresh_item_def tset_max_capacity_def)
  show ?case
    using reach_step [OF t(1) step_fresh_item [OF v f]] h t v
    by (intro exI [of _ "?t\<lparr>tset := tset t @ [TransItem 0 0], tset_alloc := a, hashtable := ht\<rparr>"])
      (auto simp: nth_append item_id_def)
qed

text \<open>
  The exception is real: a transaction that fills the set to its capacity of 32768 items when
  \<^verbatim>\<open>hash_base_\<close> is 32767 makes the sum in the next \<^verbatim>\<open>start\<close> wrap to 0, so the table is not cleared
  although all its slots are stale, and the next lookup follows a stale slot to an item that is not
  in the set.
\<close>

theorem start_wrap_leaves_stale_slots:
  "\<exists>t :: 'w txn. txn_reachable t \<and> hash_inv t \<and> tset (start t) = [] \<and>
     find_item 0 0 (start t) = Inl Out_Of_Bounds"
proof -
  from reach_items [of 32768] obtain t :: "'w txn" where t: "txn_reachable t" "hash_inv t"
    "tset_size t = 32768" "unat (hash_base t) = 32767" "item_id (tset t ! 0) = (0, 0)" by auto
  have "item_hash (tset t ! 0) = hash 0 0" using t(5) by (simp add: item_hash_def item_id_def)
  then have "first_match (\<lambda>it. item_hash it = hash 0 0) (tset t) = Some 0"
    using t(3) by (simp add: first_match_Some_iff)
  moreover have "slot_ok t (hash 0 0)" using t(2) by (simp add: hash_inv_def)
  ultimately have slot: "unat (hashtable t ! hash 0 0) = 32768" using t(4) by (simp add: slot_ok_def)
  have hb: "hash_base t = 32767" using t(4) by (simp add: word_unat_eq_iff)
  have "\<not> 32768 \<le> hash_base t + (of_nat (tset_size t) + 1)" by (simp add: hb t(3))
  note k = start_kept [OF this]
  have "hash_base (start t) = 0" by (simp add: k hb t(3))
  moreover have "\<not> hashtable t ! hash 0 0 \<le> 0" using slot by auto
  ultimately have "find_item 0 0 (start t) = Inl Out_Of_Bounds"
    by (simp add: find_item_def Let_def k(2) get_item_def)
  with t show ?thesis by (intro exI [of _ t]) simp
qed

end
