(* ===== verification/Sto_Commit.thy ===== *)
theory Sto_Commit
  imports Trans_Set
begin

text \<open>
  The commit protocol of the transaction runtime (\<^verbatim>\<open>benchmarks/sto/Transaction.cc\<close> and
  \<^verbatim>\<open>Transaction.hh\<close>): \<^verbatim>\<open>try_lock\<close>, the opacity checks, \<^verbatim>\<open>commit_tid\<close>, \<^verbatim>\<open>try_commit\<close> with its lock, check
  and install phases, and \<^verbatim>\<open>stop\<close>, which releases the locks and calls \<^verbatim>\<open>cleanup\<close>.  The virtual methods
  of \<^verbatim>\<open>TObject\<close> are a record of functions found through the owner pointer of an item; the contract
  they have to meet is the locale \<open>transactional_object\<close>, in which the commit protocol is proved
  correct once, for every object that meets it.
\<close>

section \<open>State\<close>

record ('w, 'h) sto =
  txn :: "'w txn"
  cur_thread :: u64   \<comment> \<open>\<^verbatim>\<open>TThread::id()\<close>\<close>
  gTID :: u64         \<comment> \<open>\<^verbatim>\<open>Transaction::_TID\<close>\<close>
  tsc :: u64          \<comment> \<open>what \<^verbatim>\<open>__rdtscp\<close> reads\<close>
  heap :: 'h          \<comment> \<open>the memory of the transactional objects\<close>

record ('w, 'h) tobject =
  ob_lock :: "nat \<Rightarrow> ('w, 'h) sto \<Rightarrow> (bool \<times> ('w, 'h) sto) result"
  ob_check_predicate :: "nat \<Rightarrow> bool \<Rightarrow> ('w, 'h) sto \<Rightarrow> (bool \<times> ('w, 'h) sto) result"
  ob_check :: "nat \<Rightarrow> ('w, 'h) sto \<Rightarrow> (bool \<times> ('w, 'h) sto) result"
  ob_install :: "nat \<Rightarrow> ('w, 'h) sto \<Rightarrow> ('w, 'h) sto result"
  ob_unlock :: "nat \<Rightarrow> ('w, 'h) sto \<Rightarrow> ('w, 'h) sto result"
  ob_cleanup :: "nat \<Rightarrow> bool \<Rightarrow> ('w, 'h) sto \<Rightarrow> ('w, 'h) sto result"

type_synonym ('w, 'h) vtables = "u64 \<Rightarrow> ('w, 'h) tobject"

definition default_check_predicate :: "nat \<Rightarrow> bool \<Rightarrow> ('w, 'h) sto \<Rightarrow> (bool \<times> ('w, 'h) sto) result" where
  "default_check_predicate i committing s = Inr (False, s)"

definition default_cleanup :: "nat \<Rightarrow> bool \<Rightarrow> ('w, 'h) sto \<Rightarrow> ('w, 'h) sto result" where
  "default_cleanup i committed s = Inr s"

abbreviation the_item :: "('w, 'h) sto \<Rightarrow> nat \<Rightarrow> 'w trans_item result" where
  "the_item s i \<equiv> get_item (txn s) i"

abbreviation with_txn :: "('w txn \<Rightarrow> 'w txn) \<Rightarrow> ('w, 'h) sto \<Rightarrow> ('w, 'h) sto" where
  "with_txn f s \<equiv> s\<lparr>txn := f (txn s)\<rparr>"

section \<open>Versions and opacity\<close>

text \<open>
  \<^verbatim>\<open>Transaction::try_lock\<close>: up to eight attempts, one when the item was read.  Other threads may
  change the version word between attempts; \<open>vers\<close> lists what the successive attempts find.
\<close>

definition try_lock_attempts :: nat where "try_lock_attempts = 2 ^ 3"

fun try_lock_loop :: "'w trans_item \<Rightarrow> u64 list \<Rightarrow> u64 \<Rightarrow> nat \<Rightarrow> (bool \<times> u64) option" where
  "try_lock_loop it [] here n = None"
| "try_lock_loop it (v # vs) here n =
     (case try_lock v here of
        (True, v') \<Rightarrow> Some (True, v')
      | (False, v') \<Rightarrow> if has_read it \<or> Suc n = try_lock_attempts then Some (False, v')
                      else try_lock_loop it vs here (Suc n))"

definition txn_try_lock :: "'w trans_item \<Rightarrow> u64 list \<Rightarrow> u64 \<Rightarrow> (bool \<times> u64) option" where
  "txn_try_lock it vers here = try_lock_loop it vers here 0"

definition tid_unique :: "('w, 'h) sto \<Rightarrow> (u64 \<times> ('w, 'h) sto) result" where
  "tid_unique s =
     rbind (rassert (txstate (txn s) = S_committing_locked \<or> txstate (txn s) = S_committing)) (\<lambda>_.
       let s' = (if tid_unique_field (txn s) = 0 then with_txn (\<lambda>t. t\<lparr>tid_unique_field := tsc s\<rparr>) s else s)
       in Inr (tid_unique_field (txn s'), s'))"

definition commit_tid :: "('w, 'h) sto \<Rightarrow> (u64 \<times> ('w, 'h) sto) result" where
  "commit_tid s =
     rbind (rassert (txstate (txn s) = S_committing_locked \<or> txstate (txn s) = S_committing)) (\<lambda>_.
     rbind (if commit_tid_field (txn s) = 0
            then rbind (tid_unique (with_txn (\<lambda>t. t\<lparr>commit_tid_field := gTID s\<rparr>)
                   (s\<lparr>gTID := gTID s + increment_value\<rparr>))) (\<lambda>(_, s'). Inr s')
            else Inr s) (\<lambda>s'.
       Inr (commit_tid_field (txn s'), s')))"

section \<open>Releasing locks\<close>

primrec unlock_items :: "('w, 'h) vtables \<Rightarrow> nat list \<Rightarrow> ('w, 'h) sto \<Rightarrow> ('w, 'h) sto result" where
  "unlock_items vt [] s = Inr s"
| "unlock_items vt (i # is) s =
     rbind (the_item s i) (\<lambda>it.
     rbind (if needs_unlock it then ob_unlock (vt (owner it)) i s else Inr s) (\<lambda>s'.
       unlock_items vt is s'))"

primrec cleanup_items :: "('w, 'h) vtables \<Rightarrow> bool \<Rightarrow> nat list \<Rightarrow> ('w, 'h) sto \<Rightarrow> ('w, 'h) sto result" where
  "cleanup_items vt committed [] s = Inr s"
| "cleanup_items vt committed (i # is) s =
     rbind (the_item s i) (\<lambda>it.
     rbind (if has_write it then ob_cleanup (vt (owner it)) i committed s else Inr s) (\<lambda>s'.
       cleanup_items vt committed is s'))"

definition items_from_first_write :: "('w, 'h) sto \<Rightarrow> nat list result" where
  "items_from_first_write s =
     (let fw = unat (first_write (txn s)) in
      if fw \<le> tset_size (txn s) then Inr (rev [fw ..< tset_size (txn s)]) else Inl Out_Of_Bounds)"

definition stop :: "('w, 'h) vtables \<Rightarrow> bool \<Rightarrow> nat list \<Rightarrow> ('w, 'h) sto \<Rightarrow> ('w, 'h) sto result" where
  "stop vt committed writeset s =
     rbind (if \<not> any_writes (txn s) then Inr s
            else if committed
            then rbind (unlock_items vt (rev writeset) s) (cleanup_items vt committed (rev writeset))
            else rbind (items_from_first_write s) (\<lambda>is.
                 rbind (if txstate (txn s) = S_committing_locked then unlock_items vt is s else Inr s)
                   (cleanup_items vt committed is))) (\<lambda>s'.
       Inr (with_txn (\<lambda>t. t\<lparr>txstate := (if committed then S_committed else S_aborted)\<rparr>) s'))"

definition silent_abort :: "('w, 'h) vtables \<Rightarrow> ('w, 'h) sto \<Rightarrow> ('w, 'h) sto result" where
  "silent_abort vt s = (if in_progress (txn s) then stop vt False [] s else Inr s)"

text \<open>\<^verbatim>\<open>abort\<close> throws: its result is the state that the handler of the exception finds.\<close>

definition abort :: "('w, 'h) vtables \<Rightarrow> ('w, 'h) sto \<Rightarrow> ('w, 'h) sto result" where
  "abort vt s = silent_abort vt s"

section \<open>Commit\<close>

definition lock_item :: "('w, 'h) vtables \<Rightarrow> nat \<Rightarrow> bool \<Rightarrow> ('w, 'h) sto \<Rightarrow> (bool \<times> ('w, 'h) sto) result" where
  "lock_item vt tidx is_first s =
     (let s1 = (if is_first
                then with_txn (\<lambda>t. t\<lparr>first_write := of_nat tidx, txstate := S_committing_locked\<rparr>) s else s)
      in rbind (the_item s1 tidx) (\<lambda>it.
         rbind (ob_lock (vt (owner it)) tidx s1) (\<lambda>(ok, s2).
           if ok then rbind (the_item s2 tidx) (\<lambda>it2.
             Inr (True, with_txn (put_item tidx (or_flags item_lock_bit it2)) s2))
           else Inr (False, s2))))"

definition predicate_item :: "('w, 'h) vtables \<Rightarrow> nat \<Rightarrow> ('w, 'h) sto \<Rightarrow> (bool \<times> ('w, 'h) sto) result" where
  "predicate_item vt tidx s =
     rbind (the_item s tidx) (\<lambda>it.
       if has_read it then Inr (True, s)
       else if has_predicate it then ob_check_predicate (vt (owner it)) tidx True s
       else Inr (True, s))"

primrec lock_phase ::
  "('w, 'h) vtables \<Rightarrow> nat list \<Rightarrow> nat list \<Rightarrow> ('w, 'h) sto \<Rightarrow> (bool \<times> nat list \<times> ('w, 'h) sto) result"
where
  "lock_phase vt [] ws s = Inr (True, ws, s)"
| "lock_phase vt (tidx # is) ws s =
     rbind (the_item s tidx) (\<lambda>it.
     rbind (if has_write it then lock_item vt tidx (ws = []) s else Inr (True, s)) (\<lambda>(ok, s1).
       let ws' = (if has_write it then ws @ [tidx] else ws) in
       if \<not> ok then Inr (False, ws', s1)
       else rbind (predicate_item vt tidx s1) (\<lambda>(ok, s2).
         if ok then lock_phase vt is ws' s2 else Inr (False, ws', s2))))"

primrec check_phase :: "('w, 'h) vtables \<Rightarrow> nat list \<Rightarrow> ('w, 'h) sto \<Rightarrow> (bool \<times> ('w, 'h) sto) result" where
  "check_phase vt [] s = Inr (True, s)"
| "check_phase vt (tidx # is) s =
     rbind (the_item s tidx) (\<lambda>it.
       if has_read it
       then rbind (ob_check (vt (owner it)) tidx s) (\<lambda>(ok, s1).
            rbind (if ok then Inr False
                   else if may_duplicate_items (txn s1)
                        then rbind (preceding_duplicate_read (txn s1) tidx) (\<lambda>dup. Inr (\<not> dup))
                        else Inr True) (\<lambda>bad.
              if bad then Inr (False, s1) else check_phase vt is s1))
       else check_phase vt is s)"

primrec install_phase :: "('w, 'h) vtables \<Rightarrow> nat list \<Rightarrow> ('w, 'h) sto \<Rightarrow> ('w, 'h) sto result" where
  "install_phase vt [] s = Inr s"
| "install_phase vt (tidx # is) s =
     rbind (the_item s tidx) (\<lambda>it. rbind (ob_install (vt (owner it)) tidx s) (install_phase vt is))"

text \<open>
  \<^verbatim>\<open>try_commit(no_paxos)\<close>; \<open>ser\<close> is \<^verbatim>\<open>serialize_util\<close>, applied to the indices of the write set.
\<close>

definition try_commit ::
  "('w, 'h) vtables \<Rightarrow> (nat list \<Rightarrow> ('w, 'h) sto \<Rightarrow> ('w, 'h) sto result) \<Rightarrow> bool \<Rightarrow> ('w, 'h) sto \<Rightarrow>
   (bool \<times> ('w, 'h) sto) result"
where
  "try_commit vt ser no_paxos s =
     rbind (rassert (cur_thread s = threadid (txn s))) (\<lambda>_.
     rbind (rassert (txstate (txn s) = S_in_progress \<or> S_aborted \<le> txstate (txn s))) (\<lambda>_.
     if S_aborted \<le> txstate (txn s) then Inr (S_aborted < txstate (txn s), s)
     else if \<not> any_writes (txn s) \<and> \<not> any_nonopaque (txn s)
     then rbind (stop vt True [] s) (\<lambda>s'. Inr (True, s'))
     else if tset_size (txn s) = 0 then Inl Out_Of_Bounds
     else
       rbind (lock_phase vt [0 ..< tset_size (txn s)] []
                (with_txn (\<lambda>t. t\<lparr>txstate := S_committing\<rparr>) s)) (\<lambda>(ok, ws, s1).
       if \<not> ok then rbind (stop vt False [] s1) (\<lambda>s'. Inr (False, s'))
       else
         let s2 = with_txn (\<lambda>t. t\<lparr>first_write := of_nat (hd (ws @ [tset_size t]))\<rparr>) s1 in
         rbind (check_phase vt [0 ..< tset_size (txn s2)] s2) (\<lambda>(ok, s3).
         if \<not> ok then rbind (stop vt False [] s3) (\<lambda>s'. Inr (False, s'))
         else rbind (install_phase vt ws s3) (\<lambda>s4.
              rbind (if no_paxos then Inr s4 else ser ws s4) (\<lambda>s5.
              rbind (stop vt True ws s5) (\<lambda>s'. Inr (True, s'))))))))"

definition commit ::
  "('w, 'h) vtables \<Rightarrow> (nat list \<Rightarrow> ('w, 'h) sto \<Rightarrow> ('w, 'h) sto result) \<Rightarrow> ('w, 'h) sto \<Rightarrow> ('w, 'h) sto result"
where
  "commit vt ser s = rbind (try_commit vt ser False s) (\<lambda>(ok, s'). if ok then Inr s' else Inl Txn_Abort)"

section \<open>Opacity checks and observed versions\<close>

text \<open>
  These may throw: the flag says whether the call returned (True) or threw \<^verbatim>\<open>Abort\<close> after it had
  stopped the transaction (False).
\<close>

primrec opacity_phase :: "('w, 'h) vtables \<Rightarrow> nat list \<Rightarrow> ('w, 'h) sto \<Rightarrow> (bool \<times> ('w, 'h) sto) result" where
  "opacity_phase vt [] s = Inr (True, s)"
| "opacity_phase vt (tidx # is) s =
     rbind (the_item s tidx) (\<lambda>it.
       if has_read it
       then rbind (ob_check (vt (owner it)) tidx s) (\<lambda>(ok, s1).
            rbind (if ok then Inr False
                   else if may_duplicate_items (txn s1)
                        then rbind (preceding_duplicate_read (txn s1) tidx) (\<lambda>dup. Inr (\<not> dup))
                        else Inr True) (\<lambda>bad.
              if bad then Inr (False, s1) else opacity_phase vt is s1))
       else if has_predicate it
       then rbind (ob_check_predicate (vt (owner it)) tidx False s) (\<lambda>(ok, s1).
              if ok then opacity_phase vt is s1 else Inr (False, s1))
       else opacity_phase vt is s)"

definition throw_abort :: "('w, 'h) vtables \<Rightarrow> ('w, 'h) sto \<Rightarrow> (bool \<times> ('w, 'h) sto) result" where
  "throw_abort vt s = rbind (abort vt s) (\<lambda>s'. Inr (False, s'))"

definition version_unchanged :: "nat option \<Rightarrow> u64 \<Rightarrow> ('w, 'h) sto \<Rightarrow> bool result" where
  "version_unchanged oi v s =
     (case oi of None \<Rightarrow> Inr False
      | Some i \<Rightarrow> rbind (the_item s i) (\<lambda>it.
          if has_read it then rbind (read_value it) (\<lambda>r. Inr (r = v)) else Inr False))"

definition hard_check_opacity ::
  "('w, 'h) vtables \<Rightarrow> nat option \<Rightarrow> u64 \<Rightarrow> ('w, 'h) sto \<Rightarrow> (bool \<times> ('w, 'h) sto) result"
where
  "hard_check_opacity vt oi v s =
     (if txstate (txn s) = S_committing \<or> txstate (txn s) = S_committing_locked then Inr (True, s)
      else rbind (version_unchanged oi v s) (\<lambda>same.
        if same then Inr (True, s)
        else if txstate (txn s) = S_opacity_check then throw_abort vt s
        else rbind (rassert (txstate (txn s) = S_in_progress)) (\<lambda>_.
          if is_locked_elsewhere v (threadid (txn s)) then throw_abort vt s
          else
            let s1 = with_txn (\<lambda>t. t\<lparr>txstate := S_opacity_check, start_tid := gTID s\<rparr>) s in
            rbind (opacity_phase vt [0 ..< tset_size (txn s1)] s1) (\<lambda>(ok, s2).
              if ok then Inr (True, with_txn (\<lambda>t. t\<lparr>txstate := S_in_progress\<rparr>) s2)
              else throw_abort vt s2))))"

definition check_opacity ::
  "('w, 'h) vtables \<Rightarrow> nat option \<Rightarrow> u64 \<Rightarrow> ('w, 'h) sto \<Rightarrow> (bool \<times> ('w, 'h) sto) result"
where
  "check_opacity vt oi v s =
     rbind (rassert (txstate (txn s) \<le> S_committing_locked)) (\<lambda>_.
       let s1 = (if start_tid (txn s) = 0 then with_txn (\<lambda>t. t\<lparr>start_tid := gTID s\<rparr>) s else s) in
       if \<not> try_check_opacity (start_tid (txn s1)) v \<and> txstate (txn s1) < S_committing
       then hard_check_opacity vt oi v s1 else Inr (True, s1))"

definition record_read :: "nat \<Rightarrow> u64 \<Rightarrow> bool \<Rightarrow> ('w, 'h) sto \<Rightarrow> ('w, 'h) sto result" where
  "record_read i v add s = rbind (observe_read i v add (txn s)) (\<lambda>t. Inr (s\<lparr>txn := t\<rparr>))"

definition observe :: "('w, 'h) vtables \<Rightarrow> nat \<Rightarrow> u64 \<Rightarrow> bool \<Rightarrow> ('w, 'h) sto \<Rightarrow> (bool \<times> ('w, 'h) sto) result" where
  "observe vt i v add s =
     rbind (the_item s i) (\<lambda>it.
     rbind (rassert (\<not> has_stash it)) (\<lambda>_.
       if is_locked_elsewhere v (threadid (txn s)) then throw_abort vt s
       else rbind (check_opacity vt (Some i) v s) (\<lambda>(ok, s1).
         if ok then rbind (record_read i v add s1) (\<lambda>s2. Inr (True, s2)) else Inr (False, s1))))"

definition observe_nonopaque ::
  "('w, 'h) vtables \<Rightarrow> nat \<Rightarrow> u64 \<Rightarrow> bool \<Rightarrow> ('w, 'h) sto \<Rightarrow> (bool \<times> ('w, 'h) sto) result"
where
  "observe_nonopaque vt i v add s =
     rbind (the_item s i) (\<lambda>it.
     rbind (rassert (\<not> has_stash it)) (\<lambda>_.
       if is_locked_elsewhere v (threadid (txn s)) then throw_abort vt s
       else rbind (record_read i v add s) (\<lambda>s1.
         Inr (True, if add \<and> \<not> has_read it then with_txn (\<lambda>t. t\<lparr>any_nonopaque := True\<rparr>) s1 else s1))))"

definition observe_commutative ::
  "('w, 'h) vtables \<Rightarrow> nat \<Rightarrow> u64 \<Rightarrow> bool \<Rightarrow> ('w, 'h) sto \<Rightarrow> (bool \<times> ('w, 'h) sto) result"
where
  "observe_commutative vt i v add s =
     rbind (the_item s i) (\<lambda>it.
     rbind (rassert (\<not> has_stash it)) (\<lambda>_.
       if tcv_is_locked v then throw_abort vt s
       else rbind (check_opacity vt (Some i) v s) (\<lambda>(ok, s1).
         if ok then rbind (record_read i v add s1) (\<lambda>s2. Inr (True, s2)) else Inr (False, s1))))"

definition add_read_opaque ::
  "('w, 'h) vtables \<Rightarrow> nat \<Rightarrow> u64 \<Rightarrow> ('w, 'h) sto \<Rightarrow> (bool \<times> ('w, 'h) sto) result"
where
  "add_read_opaque vt i v s =
     rbind (the_item s i) (\<lambda>it.
     rbind (rassert (\<not> has_stash it)) (\<lambda>_.
     rbind (check_opacity vt None (gTID s) s) (\<lambda>(ok, s1).
       if ok then rbind (record_read i v True s1) (\<lambda>s2. Inr (True, s2)) else Inr (False, s1))))"

section \<open>Items up to the lock flag\<close>

definition core :: "'w trans_item \<Rightarrow> 'w trans_item" where
  "core it = rm_flags item_lock_bit it"

lemma core_or_lock [simp]: "core (or_flags item_lock_bit it) = core it"
proof -
  have "s_word (core (or_flags item_lock_bit it)) = s_word (core it)"
    by (rule bit_word_eqI) (auto simp: core_def bit_rm_flags bit_or_flags)
  then show ?thesis by (cases it) (simp add: core_def rm_flags_def or_flags_def)
qed

lemma core_clear [simp]: "core (clear_needs_unlock it) = core it"
proof -
  have "s_word (core (clear_needs_unlock it)) = s_word (core it)"
    by (rule bit_word_eqI) (auto simp: core_def clear_needs_unlock_def bit_rm_flags)
  then show ?thesis by (cases it) (simp add: core_def rm_flags_def clear_needs_unlock_def)
qed

lemma not_needs_unlock_clear [simp]: "\<not> needs_unlock (clear_needs_unlock it)"
  by (simp add: has_bits clear_needs_unlock_def bit_rm_flags)

lemma core_facts:
  "has_write (core it) = has_write it" "has_read (core it) = has_read it"
  "has_predicate (core it) = has_predicate it" "item_id (core it) = item_id it" "owner (core it) = owner it"
  "ti_wdata (core it) = ti_wdata it" "ti_rdata (core it) = ti_rdata it"
  by (simp_all add: has_bits core_def bit_rm_flags item_id_def)

lemma core_eq_facts:
  assumes "core it = core it'"
  shows "has_write it = has_write it'" "has_read it = has_read it'" "item_id it = item_id it'"
    "has_predicate it = has_predicate it'" "owner it = owner it'"
  using core_facts [of it] core_facts [of it'] assms by simp_all

text \<open>Transaction ids come in steps of \<^verbatim>\<open>increment_value\<close>: they never touch the lock byte.\<close>

text \<open>
  The id under which a transaction commits, and the counter once it has taken it: \<^verbatim>\<open>commit_tid\<close> takes
  \<^verbatim>\<open>_TID\<close> on its first call and returns the same id afterwards.
\<close>

definition own_commit_id :: "('w, 'h) sto \<Rightarrow> u64" where
  "own_commit_id s = (if commit_tid_field (txn s) = 0 then gTID s else commit_tid_field (txn s))"

definition next_gTID :: "('w, 'h) sto \<Rightarrow> u64" where
  "next_gTID s = (if commit_tid_field (txn s) = 0 then gTID s + increment_value else gTID s)"

definition tid_ok :: "('w, 'h) sto \<Rightarrow> bool" where
  "tid_ok s \<longleftrightarrow> low8 (gTID s) = 0 \<and> low8 (commit_tid_field (txn s)) = 0 \<and> own_commit_id s \<noteq> 0"

lemmas tid_defs = tid_ok_def own_commit_id_def next_gTID_def

lemma tid_ok_low8:
  assumes "tid_ok s"
  shows "low8 (own_commit_id s) = 0" "low8 (next_gTID s) = 0"
proof -
  have "low8 (gTID s + increment_value) = low8 (gTID s)"
    by (simp only: low8_def increment_value_def take_bit_8_increment)
  with assms show "low8 (own_commit_id s) = 0" "low8 (next_gTID s) = 0" by (simp_all add: tid_defs)
qed

lemma commit_tid_spec:
  assumes "txstate (txn s) = S_committing_locked"
  shows "\<exists>u. commit_tid s = Inr (own_commit_id s, s\<lparr>gTID := next_gTID s,
    txn := (txn s)\<lparr>commit_tid_field := own_commit_id s, tid_unique_field := u\<rparr>\<rparr>)"
proof (cases "commit_tid_field (txn s) = 0")
  case True
  with assms show ?thesis
    by (intro exI [of _ "if tid_unique_field (txn s) = 0 then tsc s else tid_unique_field (txn s)"])
      (simp add: commit_tid_def tid_unique_def tid_defs Let_def)
next
  case False
  with assms show ?thesis
    by (intro exI [of _ "tid_unique_field (txn s)"]) (simp add: commit_tid_def tid_defs)
qed

section \<open>The contract of a transactional object\<close>

text \<open>
  \<open>val\<close> and \<open>holder\<close> are what a heap shows of the objects: the committed value at a location and the
  thread that holds its lock.  The laws ask that \<^verbatim>\<open>lock\<close> takes a free lock or changes nothing, that
  \<^verbatim>\<open>install\<close> writes the item's value under the transaction's commit id at its own location while the lock
  is held (and may release it, clearing the item's lock flag), that \<^verbatim>\<open>unlock\<close> releases, and that \<^verbatim>\<open>check\<close> and \<^verbatim>\<open>cleanup\<close> change neither
  values nor locks; \<^verbatim>\<open>lock\<close> fails only when the lock is taken.  \<open>stamp\<close> is the version of a location without its lock, \<open>rstamp\<close> the one an item has
  read; \<^verbatim>\<open>check\<close> compares them and rejects a location that another thread has locked.
\<close>

locale transactional_object =
  fixes vt :: "('w, 'h) vtables"
    and heap_ok :: "'h \<Rightarrow> bool"
    and val :: "'h \<Rightarrow> 'l \<Rightarrow> 'v"
    and holder :: "'h \<Rightarrow> 'l \<Rightarrow> u64 option"
    and loc :: "u64 \<times> u64 \<Rightarrow> 'l"
    and wval :: "u64 \<Rightarrow> 'w trans_item \<Rightarrow> 'v \<Rightarrow> 'v"
    and ready :: "'w trans_item \<Rightarrow> bool"
    and stamp :: "'h \<Rightarrow> 'l \<Rightarrow> 't"
    and rstamp :: "'w trans_item \<Rightarrow> 't"
  assumes wval_core: "wval tid (core it) = wval tid it"
    and rstamp_core: "rstamp (core it) = rstamp it"
    and ready_core: "ready (core it) = ready it"
    and lock_law: "the_item s i = Inr it \<Longrightarrow> has_write it \<Longrightarrow> ready it \<Longrightarrow> heap_ok (heap s) \<Longrightarrow>
      cur_thread s = threadid (txn s) \<Longrightarrow> cur_thread s < 128 \<Longrightarrow>
      \<exists>b h. ob_lock (vt (owner it)) i s = Inr (b, s\<lparr>heap := h\<rparr>) \<and> heap_ok h \<and> val h = val (heap s) \<and>
        stamp h = stamp (heap s) \<and> b = (holder (heap s) (loc (item_id it)) = None) \<and>
        (if b then holder h = (holder (heap s))(loc (item_id it) := Some (cur_thread s))
         else holder h = holder (heap s))"
    and predicate_law: "the_item s i = Inr it \<Longrightarrow> has_predicate it \<Longrightarrow> heap_ok (heap s) \<Longrightarrow>
      \<exists>b. ob_check_predicate (vt (owner it)) i c s = Inr (b, s)"
    and check_law: "the_item s i = Inr it \<Longrightarrow> has_read it \<Longrightarrow> ready it \<Longrightarrow> heap_ok (heap s) \<Longrightarrow>
      cur_thread s = threadid (txn s) \<Longrightarrow> cur_thread s < 128 \<Longrightarrow>
      ob_check (vt (owner it)) i s =
        Inr (stamp (heap s) (loc (item_id it)) = rstamp it \<and>
             holder (heap s) (loc (item_id it)) \<in> {None, Some (cur_thread s)}, s)"
    and install_law: "the_item s i = Inr it \<Longrightarrow> has_write it \<Longrightarrow> ready it \<Longrightarrow> heap_ok (heap s) \<Longrightarrow>
      cur_thread s = threadid (txn s) \<Longrightarrow> cur_thread s < 128 \<Longrightarrow>
      needs_unlock it \<Longrightarrow> txstate (txn s) = S_committing_locked \<Longrightarrow> tid_ok s \<Longrightarrow>
      holder (heap s) (loc (item_id it)) = Some (cur_thread s) \<Longrightarrow>
      \<exists>h u it'. ob_install (vt (owner it)) i s =
          Inr (s\<lparr>heap := h, gTID := next_gTID s,
                 txn := (put_item i it' (txn s))\<lparr>commit_tid_field := own_commit_id s, tid_unique_field := u\<rparr>\<rparr>) \<and>
        heap_ok h \<and>
        val h = (val (heap s))(loc (item_id it) := wval (own_commit_id s) it (val (heap s) (loc (item_id it)))) \<and>
        (it' = it \<and> holder h = holder (heap s) \<or>
         it' = clear_needs_unlock it \<and> holder h = (holder (heap s))(loc (item_id it) := None))"
    and unlock_law: "the_item s i = Inr it \<Longrightarrow> needs_unlock it \<Longrightarrow> heap_ok (heap s) \<Longrightarrow>
      cur_thread s = threadid (txn s) \<Longrightarrow> cur_thread s < 128 \<Longrightarrow>
      holder (heap s) (loc (item_id it)) = Some (cur_thread s) \<Longrightarrow>
      \<exists>h. ob_unlock (vt (owner it)) i s = Inr (s\<lparr>heap := h\<rparr>) \<and> heap_ok h \<and> val h = val (heap s) \<and>
        holder h = (holder (heap s))(loc (item_id it) := None)"
    and cleanup_law: "the_item s i = Inr it \<Longrightarrow> has_write it \<Longrightarrow> ready it \<Longrightarrow> heap_ok (heap s) \<Longrightarrow>
      \<exists>h. ob_cleanup (vt (owner it)) i c s = Inr (s\<lparr>heap := h\<rparr>) \<and> heap_ok h \<and> val h = val (heap s) \<and>
        holder h = holder (heap s)"
begin

definition iloc :: "('w, 'h) sto \<Rightarrow> nat \<Rightarrow> 'l" where
  "iloc s i = loc (item_id (tset (txn s) ! i))"

definition held :: "('w, 'h) sto \<Rightarrow> nat set" where
  "held s = {i. i < tset_size (txn s) \<and> needs_unlock (tset (txn s) ! i)}"

definition frame :: "('w, 'h) sto \<Rightarrow> ('w, 'h) sto \<Rightarrow> bool" where
  "frame s0 s \<longleftrightarrow> map core (tset (txn s)) = map core (tset (txn s0)) \<and> chunks_ok (txn s) \<and>
     any_writes (txn s) = any_writes (txn s0) \<and> may_duplicate_items (txn s) = may_duplicate_items (txn s0) \<and>
     cur_thread s = threadid (txn s) \<and> cur_thread s = cur_thread s0 \<and> cur_thread s < 128 \<and> heap_ok (heap s) \<and>
     tid_ok s \<and> own_commit_id s = own_commit_id s0 \<and> next_gTID s = next_gTID s0 \<and>
     (\<forall>it \<in> set (tset (txn s)). ready it)"

text \<open>The locks taken since \<open>s0\<close> are exactly the locations of the held items in \<open>R\<close>.\<close>

definition locks :: "('w, 'h) sto \<Rightarrow> ('w, 'h) sto \<Rightarrow> nat set \<Rightarrow> bool" where
  "locks s0 s R \<longleftrightarrow> inj_on (iloc s) (held s) \<and>
     (\<forall>i \<in> held s. holder (heap s0) (iloc s i) = None) \<and>
     holder (heap s) = (\<lambda>l. if l \<in> iloc s ` (held s \<inter> R) then Some (cur_thread s0) else holder (heap s0) l)"

lemma iloc_heap [simp]: "iloc (s\<lparr>heap := h\<rparr>) = iloc s" "held (s\<lparr>heap := h\<rparr>) = held s"
  by (simp_all add: iloc_def [abs_def] held_def)

lemma frame_item:
  assumes "frame s0 s" and "i < tset_size (txn s)"
  shows "the_item s i = Inr (tset (txn s) ! i)" and "ready (tset (txn s) ! i)"
  using assms by (simp_all add: frame_def get_item_ok)

lemma frame_heap: "frame s0 s \<Longrightarrow> heap_ok h \<Longrightarrow> frame s0 (s\<lparr>heap := h\<rparr>)"
  by (auto simp: frame_def tid_defs)

lemma frame_thread:
  assumes "frame s0 s"
  shows "cur_thread s = threadid (txn s)" "cur_thread s < 128" "cur_thread s = cur_thread s0"
    "heap_ok (heap s)" "tid_ok s" "own_commit_id s = own_commit_id s0" "next_gTID s = next_gTID s0"
  using assms unfolding frame_def by blast+

lemma frame_map: "frame s0 s \<Longrightarrow> map core (tset (txn s)) = map core (tset (txn s0))"
  unfolding frame_def by blast

lemma frame_size: "frame s0 s \<Longrightarrow> tset_size (txn s) = tset_size (txn s0)"
  using arg_cong [OF frame_map, of s0 s length] by simp

lemma frame_core:
  assumes "frame s0 s" and "i < tset_size (txn s)"
  shows "core (tset (txn s) ! i) = core (tset (txn s0) ! i)"
  using arg_cong [OF frame_map [OF assms(1)], of "\<lambda>xs. xs ! i"] assms(2) frame_size [OF assms(1)]
  by simp

lemma frame_iloc: "frame s0 s \<Longrightarrow> i < tset_size (txn s) \<Longrightarrow> iloc s i = iloc s0 i"
  using frame_core core_eq_facts(3) by (fastforce simp: iloc_def)

lemma locks_none: "locks s0 s R \<Longrightarrow> held s \<inter> R = {} \<Longrightarrow> holder (heap s) = holder (heap s0)"
  by (simp add: locks_def)

lemma locks_holder:
  assumes "locks s0 s R" and "i \<in> held s" and "i \<in> R"
  shows "holder (heap s) (iloc s i) = Some (cur_thread s0)"
  using assms by (auto simp: locks_def)

lemma locks_release:
  assumes l: "locks s0 s R" and i: "i \<in> held s"
    and h: "holder h = (holder (heap s))(iloc s i := None)"
  shows "locks s0 (s\<lparr>heap := h\<rparr>) (R - {i})"
proof -
  have inj: "inj_on (iloc s) (held s)" and free: "holder (heap s0) (iloc s i) = None"
    using l i by (simp_all add: locks_def)
  have "iloc s ` (held s \<inter> (R - {i})) = iloc s ` (held s \<inter> R) - {iloc s i}"
    using inj i by (auto simp: inj_on_def)
  then show ?thesis
    using l h free by (auto simp: locks_def fun_eq_iff)
qed

lemma locks_skip: "locks s0 s R \<Longrightarrow> i \<notin> held s \<Longrightarrow> locks s0 s (R - {i})"
proof -
  assume "locks s0 s R" "i \<notin> held s"
  moreover have "held s \<inter> (R - {i}) = held s \<inter> R" using \<open>i \<notin> held s\<close> by blast
  ultimately show ?thesis by (simp add: locks_def)
qed

lemma unlock_items_ok:
  assumes "frame s0 s" and "locks s0 s R" and "distinct is" and "set is \<subseteq> R"
    and "set is \<subseteq> {..< tset_size (txn s)}"
  shows "\<exists>h. unlock_items vt is s = Inr (s\<lparr>heap := h\<rparr>) \<and> heap_ok h \<and> val h = val (heap s) \<and>
    locks s0 (s\<lparr>heap := h\<rparr>) (R - set is)"
  using assms
proof (induction "is" arbitrary: s R)
  case Nil
  then show ?case by (intro exI [of _ "heap s"]) (auto simp: frame_def)
next
  case (Cons i "is")
  let ?it = "tset (txn s) ! i"
  have i: "i < tset_size (txn s)" "i \<in> R" using Cons.prems by auto
  note it = frame_item [OF Cons.prems(1) i(1)]
  note thr = frame_thread [OF Cons.prems(1)]
  have "\<exists>h. (if needs_unlock ?it then ob_unlock (vt (owner ?it)) i s else Inr s) = Inr (s\<lparr>heap := h\<rparr>) \<and>
      heap_ok h \<and> val h = val (heap s) \<and> locks s0 (s\<lparr>heap := h\<rparr>) (R - {i})"
  proof (cases "needs_unlock ?it")
    case True
    then have h: "i \<in> held s" using i by (simp add: held_def)
    have "holder (heap s) (loc (item_id ?it)) = Some (cur_thread s)"
      using locks_holder [OF Cons.prems(2) h i(2)] thr by (simp add: iloc_def)
    from unlock_law [OF it(1) True thr(4) thr(1,2) this] True locks_release [OF Cons.prems(2) h]
    show ?thesis by (auto simp: iloc_def)
  next
    case False
    then have "i \<notin> held s" by (simp add: held_def)
    with False locks_skip [OF Cons.prems(2)] thr(4) show ?thesis
      by (intro exI [of _ "heap s"]) simp
  qed
  then obtain h where h: "(if needs_unlock ?it then ob_unlock (vt (owner ?it)) i s else Inr s) = Inr (s\<lparr>heap := h\<rparr>)"
    "heap_ok h" "val h = val (heap s)" "locks s0 (s\<lparr>heap := h\<rparr>) (R - {i})" by blast
  from Cons.IH [OF frame_heap [OF Cons.prems(1) h(2)] h(4)] Cons.prems(3-5)
  obtain h' where "unlock_items vt is (s\<lparr>heap := h\<rparr>) = Inr (s\<lparr>heap := h'\<rparr>)" "heap_ok h'" "val h' = val h"
    "locks s0 (s\<lparr>heap := h'\<rparr>) (R - {i} - set is)" by auto
  then show ?case
    using it h by (intro exI [of _ h']) (simp add: Diff_insert2 [symmetric] del: Diff_insert0)
qed

lemma cleanup_items_ok:
  assumes "frame s0 s" and "set is \<subseteq> {..< tset_size (txn s)}"
  shows "\<exists>h. cleanup_items vt c is s = Inr (s\<lparr>heap := h\<rparr>) \<and> heap_ok h \<and> val h = val (heap s) \<and>
    holder h = holder (heap s)"
  using assms
proof (induction "is" arbitrary: s)
  case Nil
  then show ?case by (intro exI [of _ "heap s"]) (auto simp: frame_def)
next
  case (Cons i "is")
  let ?it = "tset (txn s) ! i"
  have i: "i < tset_size (txn s)" using Cons.prems by auto
  note it = frame_item [OF Cons.prems(1) i]
  have ok: "heap_ok (heap s)" using Cons.prems(1) by (simp add: frame_def)
  have "\<exists>h. (if has_write ?it then ob_cleanup (vt (owner ?it)) i c s else Inr s) = Inr (s\<lparr>heap := h\<rparr>) \<and>
      heap_ok h \<and> val h = val (heap s) \<and> holder h = holder (heap s)"
    using cleanup_law [OF it(1) _ it(2) ok, of c] ok
    by (cases "has_write ?it") (auto intro: exI [of _ "heap s"])
  then obtain h where h: "(if has_write ?it then ob_cleanup (vt (owner ?it)) i c s else Inr s) = Inr (s\<lparr>heap := h\<rparr>)"
    "heap_ok h" "val h = val (heap s)" "holder h = holder (heap s)" by blast
  from Cons.IH [OF frame_heap [OF Cons.prems(1) h(2)]] Cons.prems(2) h it show ?case by auto
qed

end

section \<open>The phases, for any object that meets the contract\<close>

context transactional_object
begin

lemma ready_cong: "core it = core it' \<Longrightarrow> ready it = ready it'"
  by (metis ready_core)

lemma wval_cong: "core it = core it' \<Longrightarrow> wval c it = wval c it'"
  by (metis wval_core)

lemma frame_put_item:
  assumes f: "frame s0 s" and i: "i < tset_size (txn s)" and c: "core it = core (tset (txn s) ! i)"
  shows "heap_ok h \<Longrightarrow> frame s0 (s\<lparr>heap := h, gTID := next_gTID s,
      txn := (put_item i it (txn s))\<lparr>commit_tid_field := own_commit_id s, tid_unique_field := u\<rparr>\<rparr>)"
    and "frame s0 (with_txn (put_item i it) s)"
proof -
  have "map core ((tset (txn s))[i := it]) = map core (tset (txn s))"
    using c by (rule map_list_update_same)
  moreover have "\<forall>x \<in> set ((tset (txn s))[i := it]). ready x"
    using f i ready_cong [OF c] set_update_subset_insert [of "tset (txn s)" i it]
    by (auto simp: frame_def)
  ultimately show "heap_ok h \<Longrightarrow> frame s0 (s\<lparr>heap := h, gTID := next_gTID s,
      txn := (put_item i it (txn s))\<lparr>commit_tid_field := own_commit_id s, tid_unique_field := u\<rparr>\<rparr>)"
    "frame s0 (with_txn (put_item i it) s)"
    using f tid_ok_low8 [OF frame_thread(5) [OF f]]
    by (auto simp: frame_def put_item_def chunks_ok_def tid_defs)
qed

definition abortable :: "('w, 'h) sto \<Rightarrow> ('w, 'h) sto \<Rightarrow> bool" where
  "abortable s0 s \<longleftrightarrow> frame s0 s \<and> locks s0 s UNIV \<and> val (heap s) = val (heap s0) \<and>
     unat (first_write (txn s)) \<le> tset_size (txn s) \<and> (held s \<noteq> {} \<longrightarrow> any_writes (txn s)) \<and>
     (held s = {} \<or> txstate (txn s) = S_committing_locked \<and> held s \<subseteq> {unat (first_write (txn s)) ..})"

lemma stop_abort_ok:
  assumes "abortable s0 s"
  shows "\<exists>h. stop vt False ws s = Inr (s\<lparr>heap := h, txn := (txn s)\<lparr>txstate := S_aborted\<rparr>\<rparr>) \<and>
    val h = val (heap s0) \<and> holder h = holder (heap s0)"
proof (cases "any_writes (txn s)")
  case False
  with assms show ?thesis
    by (intro exI [of _ "heap s"]) (auto simp: stop_def abortable_def intro!: locks_none)
next
  case True
  have f: "frame s0 s" and l: "locks s0 s UNIV" and v: "val (heap s) = val (heap s0)"
    using assms by (simp_all add: abortable_def)
  let ?is = "rev [unat (first_write (txn s)) ..< tset_size (txn s)]"
  have its: "items_from_first_write s = Inr ?is"
    using assms by (simp add: items_from_first_write_def Let_def abortable_def)
  have "\<exists>h. (if txstate (txn s) = S_committing_locked then unlock_items vt ?is s else Inr s) = Inr (s\<lparr>heap := h\<rparr>) \<and>
      heap_ok h \<and> val h = val (heap s0) \<and> holder h = holder (heap s0)"
  proof (cases "txstate (txn s) = S_committing_locked")
    case locked: True
    have "held s \<subseteq> set ?is" using assms by (auto simp: abortable_def held_def)
    then have sub: "held s \<inter> (UNIV - set ?is) = {}" by blast
    have "distinct ?is" "set ?is \<subseteq> UNIV" "set ?is \<subseteq> {..< tset_size (txn s)}" by auto
    from unlock_items_ok [OF f l this] obtain h where "unlock_items vt ?is s = Inr (s\<lparr>heap := h\<rparr>)"
      "heap_ok h" "val h = val (heap s)" "locks s0 (s\<lparr>heap := h\<rparr>) (UNIV - set ?is)" by blast
    with locks_none [of s0 "s\<lparr>heap := h\<rparr>" "UNIV - set ?is"] sub v locked show ?thesis by auto
  next
    case False
    then have "held s = {}" using assms by (auto simp: abortable_def)
    then have "holder (heap s) = holder (heap s0)" using l locks_none by blast
    with False v frame_thread(4) [OF f] show ?thesis by (intro exI [of _ "heap s"]) simp
  qed
  then obtain h where h: "(if txstate (txn s) = S_committing_locked then unlock_items vt ?is s else Inr s) = Inr (s\<lparr>heap := h\<rparr>)"
    "heap_ok h" "val h = val (heap s0)" "holder h = holder (heap s0)" by blast
  have "set ?is \<subseteq> {..< tset_size (txn (s\<lparr>heap := h\<rparr>))}" by auto
  from cleanup_items_ok [OF frame_heap [OF f h(2)] this, of False]
  obtain h' where "cleanup_items vt False ?is (s\<lparr>heap := h\<rparr>) = Inr (s\<lparr>heap := h'\<rparr>)"
    "val h' = val h" "holder h' = holder h" by auto
  with True h its show ?thesis by (intro exI [of _ h']) (simp add: stop_def)
qed

lemma stop_commit_ok:
  assumes f: "frame s0 s" and l: "locks s0 s UNIV" and ws: "distinct ws" "set ws \<subseteq> {..< tset_size (txn s)}"
    and sub: "held s \<subseteq> set ws" and any: "held s \<noteq> {} \<longrightarrow> any_writes (txn s)"
  shows "\<exists>h. stop vt True ws s = Inr (s\<lparr>heap := h, txn := (txn s)\<lparr>txstate := S_committed\<rparr>\<rparr>) \<and>
    val h = val (heap s) \<and> holder h = holder (heap s0)"
proof (cases "any_writes (txn s)")
  case False
  with any l show ?thesis
    by (intro exI [of _ "heap s"]) (auto simp: stop_def intro!: locks_none)
next
  case True
  from unlock_items_ok [OF f l, of "rev ws"] ws obtain h where
    h: "unlock_items vt (rev ws) s = Inr (s\<lparr>heap := h\<rparr>)" "heap_ok h" "val h = val (heap s)"
      "locks s0 (s\<lparr>heap := h\<rparr>) (UNIV - set ws)" by auto
  have "held s \<inter> (UNIV - set ws) = {}" using sub by blast
  then have "holder h = holder (heap s0)" using locks_none [OF h(4)] by simp
  moreover from cleanup_items_ok [OF frame_heap [OF f h(2)], of "rev ws" True] ws
  obtain h' where "cleanup_items vt True (rev ws) (s\<lparr>heap := h\<rparr>) = Inr (s\<lparr>heap := h'\<rparr>)"
    "val h' = val h" "holder h' = holder h" by auto
  ultimately show ?thesis using True h by (intro exI [of _ h']) (simp add: stop_def)
qed

definition locking :: "('w, 'h) sto \<Rightarrow> ('w, 'h) sto \<Rightarrow> nat \<Rightarrow> nat list \<Rightarrow> bool" where
  "locking s0 s k ws \<longleftrightarrow> frame s0 s \<and> locks s0 s UNIV \<and> val (heap s) = val (heap s0) \<and>
     stamp (heap s) = stamp (heap s0) \<and> held s = set ws \<and>
     ws = filter (\<lambda>i. has_write (tset (txn s0) ! i)) [0 ..< k] \<and> k \<le> tset_size (txn s) \<and>
     txstate (txn s) = (if ws = [] then S_committing else S_committing_locked) \<and>
     unat (first_write (txn s)) = (if ws = [] then 0 else hd ws)"

lemma hd_filter_upt_le:
  "x \<in> set (filter P [0 ..< k]) \<Longrightarrow> hd (filter P [0 ..< k]) \<le> x"
proof -
  have "sorted (filter P [0 ..< k])" by (simp add: sorted_wrt_filter)
  then show "x \<in> set (filter P [0 ..< k]) \<Longrightarrow> hd (filter P [0 ..< k]) \<le> x"
    by (cases "filter P [0 ..< k]") auto
qed

lemma locking_abortable:
  assumes "locking s0 s k ws" and "\<forall>it \<in> set (tset (txn s0)). has_write it \<longrightarrow> any_writes (txn s0)"
  shows "abortable s0 s"
proof -
  have f: "frame s0 s" and ws: "ws = filter (\<lambda>i. has_write (tset (txn s0) ! i)) [0 ..< k]" "held s = set ws"
    and k: "k \<le> tset_size (txn s)"
    using assms(1) unfolding locking_def by blast+
  have "any_writes (txn s)" if "ws \<noteq> []"
  proof -
    from that ws(1) obtain i where "i < k" "has_write (tset (txn s0) ! i)"
      by (auto simp: filter_empty_conv)
    then show ?thesis
      using assms(2) f k frame_size [OF f] by (auto simp: frame_def)
  qed
  moreover have "hd ws \<le> x" if "x \<in> set ws" for x
    using that unfolding ws(1) by (rule hd_filter_upt_le)
  moreover have "hd ws \<le> tset_size (txn s)" if "ws \<noteq> []"
    using hd_in_set [OF that] ws(1) k by auto
  ultimately show ?thesis
    using assms(1) by (cases "ws = []") (auto simp: locking_def abortable_def)
qed

lemma set_first_write_core:
  assumes "frame s0 s"
  shows "frame s0 (with_txn (\<lambda>t. t\<lparr>first_write := fw, txstate := st\<rparr>) s)"
    "iloc (with_txn (\<lambda>t. t\<lparr>first_write := fw, txstate := st\<rparr>) s) = iloc s"
    "held (with_txn (\<lambda>t. t\<lparr>first_write := fw, txstate := st\<rparr>) s) = held s"
  using assms by (auto simp: frame_def chunks_ok_def iloc_def [abs_def] held_def tid_defs)

definition valid_read :: "('w, 'h) sto \<Rightarrow> nat \<Rightarrow> bool" where
  "valid_read s i \<longleftrightarrow> stamp (heap s) (iloc s i) = rstamp (tset (txn s) ! i) \<and>
     holder (heap s) (iloc s i) \<in> {None, Some (cur_thread s)}"

text \<open>The reasons for which a commit may fail.\<close>

definition lock_conflict :: "('w, 'h) sto \<Rightarrow> nat \<Rightarrow> bool" where
  "lock_conflict s i \<longleftrightarrow> has_write (tset (txn s) ! i) \<and> (holder (heap s) (iloc s i) \<noteq> None \<or>
     (\<exists>j < i. has_write (tset (txn s) ! j) \<and> iloc s j = iloc s i))"

definition commit_conflict :: "('w, 'h) sto \<Rightarrow> bool" where
  "commit_conflict s \<longleftrightarrow> (\<exists>i < tset_size (txn s). lock_conflict s i \<or>
     has_predicate (tset (txn s) ! i) \<and> \<not> has_read (tset (txn s) ! i) \<or>
     has_read (tset (txn s) ! i) \<and> \<not> valid_read s i)"

lemma lock_conflict_locked:
  assumes f: "frame s0 s" and l: "locks s0 s UNIV" and k: "k < tset_size (txn s)" and w: "has_write (tset (txn s) ! k)"
    and hs: "held s = set (filter (\<lambda>i. has_write (tset (txn s0) ! i)) [0 ..< k])"
    and h: "holder (heap s) (iloc s k) \<noteq> None"
  shows "lock_conflict s0 k"
proof -
  have w0: "has_write (tset (txn s0) ! k)" using w core_eq_facts(1) [OF frame_core [OF f k]] by simp
  show ?thesis
  proof (cases "iloc s k \<in> iloc s ` held s")
    case True
    then obtain j where "j < k" "has_write (tset (txn s0) ! j)" "iloc s j = iloc s k" using hs by auto
    with w0 frame_iloc [OF f] k show ?thesis by (fastforce simp: lock_conflict_def)
  next
    case False
    with h l frame_iloc [OF f k] w0 show ?thesis by (simp add: locks_def lock_conflict_def)
  qed
qed

lemma held_lock_item:
  assumes "i < tset_size (txn s)"
  shows "held (with_txn (put_item i (or_flags item_lock_bit (tset (txn s) ! i))) s) = insert i (held s)"
    "iloc (with_txn (put_item i (or_flags item_lock_bit (tset (txn s) ! i))) s) = iloc s"
  using assms
  by (auto simp: held_def put_item_def nth_list_update iloc_def fun_eq_iff item_id_def split: if_splits)

lemma locks_add:
  assumes l: "locks s0 s UNIV" and i: "i < tset_size (txn s)" "i \<notin> held s"
    and free: "holder (heap s) (iloc s i) = None"
    and h: "holder h = (holder (heap s))(iloc s i := Some (cur_thread s0))"
  shows "locks s0 (with_txn (put_item i (or_flags item_lock_bit (tset (txn s) ! i))) (s\<lparr>heap := h\<rparr>)) UNIV"
proof -
  let ?s = "with_txn (put_item i (or_flags item_lock_bit (tset (txn s) ! i))) (s\<lparr>heap := h\<rparr>)"
  have e: "held ?s = insert i (held s)" "iloc ?s = iloc s"
    using held_lock_item [of i "s\<lparr>heap := h\<rparr>"] i(1) by simp_all
  have new: "iloc s i \<notin> iloc s ` held s"
    using l free by (auto simp: locks_def fun_eq_iff split: if_splits)
  then have "holder (heap s0) (iloc s i) = None" using l free by (auto simp: locks_def split: if_splits)
  with l i(2) new h show ?thesis
    unfolding locks_def e by (auto simp: fun_eq_iff)
qed

lemma lock_item_ok:
  assumes L: "locking s0 s k ws" and k: "k < tset_size (txn s)" and w: "has_write (tset (txn s) ! k)"
    and W: "\<forall>it \<in> set (tset (txn s0)). has_write it \<longrightarrow> any_writes (txn s0)"
  shows "\<exists>b s'. lock_item vt k (ws = []) s = Inr (b, s') \<and>
    (if b then locking s0 s' (Suc k) (ws @ [k]) else abortable s0 s' \<and> lock_conflict s0 k)"
proof -
  define s1 where "s1 = (if ws = [] then with_txn (\<lambda>t. t\<lparr>first_write := of_nat k, txstate := S_committing_locked\<rparr>) s else s)"
  let ?it = "tset (txn s) ! k"
  have f: "frame s0 s" and l: "locks s0 s UNIV" and hs: "held s = set ws"
    and ws: "ws = filter (\<lambda>i. has_write (tset (txn s0) ! i)) [0 ..< k]"
    using L unfolding locking_def by blast+
  have t: "tset (txn s1) = tset (txn s)" "heap s1 = heap s" "cur_thread s1 = cur_thread s"
    by (simp_all add: s1_def)
  have f1: "frame s0 s1" and i1: "iloc s1 = iloc s" and h1: "held s1 = held s"
    using set_first_write_core [OF f] f by (simp_all add: s1_def)
  have l1: "locks s0 s1 UNIV" using l unfolding locks_def i1 h1 t .
  have kk: "k < tset_size (txn s1)" using k t by simp
  have kn: "k \<notin> held s" using hs ws by simp
  have "k < 32768" using f k by (auto simp: frame_def chunks_ok_def tset_max_capacity_def)
  then have "unat (of_nat k :: u16) = k" by (simp add: unat_of_nat)
  then have fw: "unat (first_write (txn s1)) = hd (ws @ [k])" and st: "txstate (txn s1) = S_committing_locked"
    using L by (auto simp: locking_def hd_append s1_def)
  note it = frame_item [OF f1 kk, unfolded t]
  note thr = frame_thread [OF f1, unfolded t]
  have "heap_ok (heap s1)" by (rule frame_thread(4) [OF f1])
  from lock_law [OF it(1) w it(2) this frame_thread(1,2) [OF f1]] obtain b h where
    lk: "ob_lock (vt (owner ?it)) k s1 = Inr (b, s1\<lparr>heap := h\<rparr>)" "heap_ok h" "val h = val (heap s)" "stamp h = stamp (heap s)"
    and hn: "b = (holder (heap s) (iloc s k) = None)" and bh: "if b then holder h = (holder (heap s))(iloc s k := Some (cur_thread s0))
        else holder h = holder (heap s)"
    unfolding t iloc_def thr(3) by (elim exE conjE) assumption
  have vs: "val (heap s) = val (heap s0)" using L by (simp add: locking_def)
  let ?s2 = "s1\<lparr>heap := h\<rparr>"
  have f2: "frame s0 ?s2" using frame_heap [OF f1 lk(2)] .
  have it2: "the_item ?s2 k = Inr ?it" using frame_item(1) [OF f2] kk t by simp
  have sz: "tset_size (txn s) = tset_size (txn s0)" using frame_size [OF f] .
  show ?thesis
  proof (cases b)
    case True
    let ?s3 = "with_txn (put_item k (or_flags item_lock_bit ?it)) ?s2"
    have e: "lock_item vt k (ws = []) s = Inr (True, ?s3)"
      unfolding lock_item_def Let_def s1_def [symmetric] it(1) using lk(1) True it2 by simp
    have f3: "frame s0 ?s3" using frame_put_item(2) [OF f2, of k] kk t by simp
    have "locks s0 (with_txn (put_item k (or_flags item_lock_bit (tset (txn s1) ! k))) ?s2) UNIV"
      using hn bh True h1 i1 kn t by (intro locks_add [OF l1 kk]) simp_all
    then have l3: "locks s0 ?s3 UNIV" unfolding t .
    have "has_write (tset (txn s0) ! k)"
      using w core_eq_facts(1) [OF frame_core [OF f k]] by simp
    then have ws': "ws @ [k] = filter (\<lambda>i. has_write (tset (txn s0) ! i)) [0 ..< Suc k]"
      using ws by simp
    have h3: "held ?s3 = set (ws @ [k])"
      using held_lock_item(1) [of k ?s2] kk h1 hs t by simp
    have "locking s0 ?s3 (Suc k) (ws @ [k])"
      unfolding locking_def
    proof (intro conjI)
      show "val (heap ?s3) = val (heap s0)" using lk(3) vs by simp
      show "stamp (heap ?s3) = stamp (heap s0)" using lk(4) L by (simp add: locking_def)
      show "Suc k \<le> tset_size (txn ?s3)" using kk by (simp add: put_item_def)
      show "txstate (txn ?s3) = (if ws @ [k] = [] then S_committing else S_committing_locked)"
        using st by (simp add: put_item_def)
      show "unat (first_write (txn ?s3)) = (if ws @ [k] = [] then 0 else hd (ws @ [k]))"
        using fw by (simp add: put_item_def)
    qed (rule f3 l3 h3 ws')+
    with e True show ?thesis by auto
  next
    case False
    have e: "lock_item vt k (ws = []) s = Inr (False, ?s2)"
      unfolding lock_item_def Let_def s1_def [symmetric] it(1) using lk(1) False by simp
    have "locks s0 ?s2 UNIV" using l1 bh False i1 h1 t by (simp add: locks_def)
    moreover have "abortable s0 s" using locking_abortable [OF L W] .
    moreover have "hd (ws @ [k]) \<le> x" if "x \<in> set ws" for x
    proof -
      have "hd ws \<le> x" using that unfolding ws by (rule hd_filter_upt_le)
      moreover have "ws \<noteq> []" using that by auto
      ultimately show ?thesis by simp
    qed
    moreover have "hd (ws @ [k]) \<le> tset_size (txn s)"
      using k hd_in_set [of ws] ws by (cases "ws = []") (auto simp: hd_append)
    ultimately have "abortable s0 ?s2"
      unfolding abortable_def using f2 fw st lk(3) vs h1 hs t by (auto simp: frame_def)
    moreover have "lock_conflict s0 k"
      using hn False hs ws by (intro lock_conflict_locked [OF f l k w]) simp_all
    ultimately show ?thesis using e False by auto
  qed
qed

lemma predicate_item_ok:
  assumes "frame s0 s" and "i < tset_size (txn s)"
  shows "\<exists>b. predicate_item vt i s = Inr (b, s) \<and>
    (b \<or> has_predicate (tset (txn s) ! i) \<and> \<not> has_read (tset (txn s) ! i))"
  using frame_item(1) [OF assms] predicate_law [OF frame_item(1) [OF assms] _ frame_thread(4) [OF assms(1)]]
  by (auto simp: predicate_item_def)

lemma lock_phase_ok:
  assumes L: "locking s0 s k ws" and W: "\<forall>it \<in> set (tset (txn s0)). has_write it \<longrightarrow> any_writes (txn s0)"
    and n: "n = tset_size (txn s0)"
  shows "\<exists>ok ws' s'. lock_phase vt [k ..< n] ws s = Inr (ok, ws', s') \<and>
    (if ok then locking s0 s' n ws' else abortable s0 s' \<and> commit_conflict s0)"
  using L
proof (induction "n - k" arbitrary: k ws s)
  case 0
  have "k \<le> n" using "0.prems" n frame_size by (auto simp: locking_def)
  with 0 show ?case by auto
next
  case (Suc m)
  have f: "frame s0 s" using Suc.prems by (simp add: locking_def)
  have k: "k < n" "k < tset_size (txn s)" using Suc.hyps(2) n frame_size [OF f] by simp_all
  let ?it = "tset (txn s) ! k" and ?ws = "if has_write (tset (txn s) ! k) then ws @ [k] else ws"
  have "\<exists>b s1. (if has_write ?it then lock_item vt k (ws = []) s else Inr (True, s)) = Inr (b, s1) \<and>
      (if b then locking s0 s1 (Suc k) ?ws else abortable s0 s1 \<and> lock_conflict s0 k)"
  proof (cases "has_write ?it")
    case True
    with lock_item_ok [OF Suc.prems k(2) True W] show ?thesis by simp
  next
    case False
    then have "\<not> has_write (tset (txn s0) ! k)"
      using core_eq_facts(1) [OF frame_core [OF f k(2)]] by simp
    with False Suc.prems k show ?thesis by (simp add: locking_def)
  qed
  then obtain b s1 where s1: "(if has_write ?it then lock_item vt k (ws = []) s else Inr (True, s)) = Inr (b, s1)"
    and b: "if b then locking s0 s1 (Suc k) ?ws else abortable s0 s1 \<and> lock_conflict s0 k" by blast
  have step: "lock_phase vt [k ..< n] ws s =
      (if \<not> b then Inr (False, ?ws, s1)
       else rbind (predicate_item vt k s1) (\<lambda>(ok, s2).
         if ok then lock_phase vt [Suc k ..< n] ?ws s2 else Inr (False, ?ws, s2)))"
    using frame_item(1) [OF f k(2)] s1 by (simp add: upt_conv_Cons k(1) Let_def)
  show ?case
  proof (cases b)
    case True
    then have L1: "locking s0 s1 (Suc k) ?ws" using b by simp
    then have f1: "frame s0 s1" unfolding locking_def by blast
    have k1: "k < tset_size (txn s1)" using k n frame_size [OF f1] by simp
    from predicate_item_ok [OF f1 k1] obtain c where c: "predicate_item vt k s1 = Inr (c, s1)"
      and cp: "c \<or> has_predicate (tset (txn s1) ! k) \<and> \<not> has_read (tset (txn s1) ! k)" by blast
    show ?thesis
    proof (cases c)
      case True
      with step c \<open>b\<close> Suc.hyps(1) [OF _ L1] Suc.hyps(2) show ?thesis by simp
    next
      case False
      with cp core_eq_facts(2,4) [OF frame_core [OF f1 k1]] k(1) n have "commit_conflict s0"
        by (auto simp: commit_conflict_def)
      with False step c \<open>b\<close> locking_abortable [OF L1 W] show ?thesis by simp
    qed
  next
    case False
    with b k(1) n have "commit_conflict s0" by (auto simp: commit_conflict_def)
    with False step b show ?thesis by simp
  qed
qed

lemma preceding_duplicate_read_from_eq:
  assumes "chunks_ok t" and "needle < tset_size t"
  shows "preceding_duplicate_read_from t needle i =
    Inr (\<exists>j. i \<le> j \<and> j < needle \<and> item_id (tset t ! j) = item_id (tset t ! needle) \<and> has_read (tset t ! j))"
proof (induction "needle - i" arbitrary: i)
  case 0
  then show ?case by (auto simp: preceding_duplicate_read_from.simps)
next
  case (Suc n)
  then have i: "i < needle" by simp
  have "(\<exists>j. i \<le> j \<and> j < needle \<and> Q j) \<longleftrightarrow> Q i \<or> (\<exists>j. Suc i \<le> j \<and> j < needle \<and> Q j)" for Q
    using i by (metis Suc_leD Suc_leI le_neq_implies_less order_refl)
  then show ?case
    using assms i Suc.hyps(1) [of "Suc i"] Suc.hyps(2)
    by (subst preceding_duplicate_read_from.simps) (auto simp: get_item_ok item_id_def)
qed

lemma preceding_duplicate_read_eq:
  assumes "chunks_ok t" and "needle < tset_size t"
  shows "preceding_duplicate_read t needle =
    Inr (\<exists>j < needle. item_id (tset t ! j) = item_id (tset t ! needle) \<and> has_read (tset t ! j))"
  using preceding_duplicate_read_from_eq [OF assms, of 0] by (simp add: preceding_duplicate_read_def)

lemma check_phase_ok:
  assumes f: "frame s0 s" and "set is \<subseteq> {..< tset_size (txn s)}"
  shows "\<exists>b. check_phase vt is s = Inr (b, s) \<and>
    (b \<longrightarrow> (\<forall>i \<in> set is. has_read (tset (txn s) ! i) \<longrightarrow> valid_read s i \<or>
       (\<exists>j < i. item_id (tset (txn s) ! j) = item_id (tset (txn s) ! i) \<and> has_read (tset (txn s) ! j)))) \<and>
    (\<not> b \<longrightarrow> (\<exists>i \<in> set is. has_read (tset (txn s) ! i) \<and> \<not> valid_read s i))"
  using assms(2)
proof (induction "is")
  case (Cons i "is")
  then have i: "i < tset_size (txn s)" by simp
  have "chunks_ok (txn s)" using f by (simp add: frame_def)
  note d = preceding_duplicate_read_eq [OF this i]
  from Cons obtain c where c: "check_phase vt is s = Inr (c, s)"
    and cv: "c \<longrightarrow> (\<forall>i \<in> set is. has_read (tset (txn s) ! i) \<longrightarrow> valid_read s i \<or>
       (\<exists>j < i. item_id (tset (txn s) ! j) = item_id (tset (txn s) ! i) \<and> has_read (tset (txn s) ! j)))"
    and cn: "\<not> c \<longrightarrow> (\<exists>i \<in> set is. has_read (tset (txn s) ! i) \<and> \<not> valid_read s i)" by auto
  show ?case
  proof (cases "has_read (tset (txn s) ! i)")
    case True
    note thr = frame_thread [OF f]
    have "ob_check (vt (owner (tset (txn s) ! i))) i s = Inr (valid_read s i, s)"
      using check_law [OF frame_item(1) [OF f i] True frame_item(2) [OF f i] thr(4,1,2)]
      by (simp add: valid_read_def iloc_def)
    with True frame_item(1) [OF f i] c cv cn d show ?thesis by auto
  qed (use frame_item(1) [OF f i] c cv cn in auto)
qed simp

definition installed :: "('w, 'h) sto \<Rightarrow> nat list \<Rightarrow> ('l \<Rightarrow> 'v) \<Rightarrow> 'l \<Rightarrow> 'v" where
  "installed s is m = fold (\<lambda>i m. m(iloc s i := wval (own_commit_id s) (tset (txn s) ! i) (m (iloc s i)))) is m"

lemma locks_cleared:
  assumes "locks s0 (s\<lparr>heap := h\<rparr>) (UNIV - {i})" and "held s' = held s - {i}" and "iloc s' = iloc s"
    and "heap s' = h"
  shows "locks s0 s' UNIV"
proof -
  have "held s \<inter> (UNIV - {i}) = held s - {i}" by blast
  with assms show ?thesis by (auto simp: locks_def inj_on_diff)
qed

lemma install_phase_ok:
  assumes "frame s0 s" and "locks s0 s UNIV" and "set is \<subseteq> held s" and "distinct is"
    and "\<forall>i \<in> set is. has_write (tset (txn s) ! i)" and "is \<noteq> [] \<longrightarrow> txstate (txn s) = S_committing_locked"
  shows "\<exists>s'. install_phase vt is s = Inr s' \<and> frame s0 s' \<and> locks s0 s' UNIV \<and> held s' \<subseteq> held s \<and>
    txstate (txn s') = txstate (txn s) \<and> val (heap s') = installed s0 is (val (heap s)) \<and>
    (is \<noteq> [] \<or> commit_tid_field (txn s) \<noteq> 0 \<longrightarrow> commit_tid_field (txn s') \<noteq> 0)"
  using assms
proof (induction "is" arbitrary: s)
  case Nil
  then show ?case by (simp add: installed_def)
next
  case (Cons i "is")
  let ?it = "tset (txn s) ! i"
  note f = Cons.prems(1)
  have i: "i < tset_size (txn s)" "needs_unlock ?it" "i \<in> held s" "has_write ?it"
    "txstate (txn s) = S_committing_locked"
    using Cons.prems by (auto simp: held_def)
  note thr = frame_thread [OF f]
  have "holder (heap s) (loc (item_id ?it)) = Some (cur_thread s)"
    using locks_holder [OF Cons.prems(2) i(3)] thr(3) by (simp add: iloc_def)
  from install_law [OF frame_item(1) [OF f i(1)] i(4) frame_item(2) [OF f i(1)] thr(4,1,2) i(2,5) thr(5) this]
  obtain h u it' where ins: "ob_install (vt (owner ?it)) i s =
      Inr (s\<lparr>heap := h, gTID := next_gTID s,
        txn := (put_item i it' (txn s))\<lparr>commit_tid_field := own_commit_id s, tid_unique_field := u\<rparr>\<rparr>)"
    and hok: "heap_ok h"
    and v: "val h = (val (heap s))(iloc s i := wval (own_commit_id s) ?it (val (heap s) (iloc s i)))"
    and cs: "it' = ?it \<and> holder h = holder (heap s) \<or>
      it' = clear_needs_unlock ?it \<and> holder h = (holder (heap s))(iloc s i := None)"
    by (auto simp: iloc_def)
  define s' where "s' = s\<lparr>heap := h, gTID := next_gTID s,
    txn := (put_item i it' (txn s))\<lparr>commit_tid_field := own_commit_id s, tid_unique_field := u\<rparr>\<rparr>"
  have co: "core it' = core ?it" and iid: "item_id it' = item_id ?it"
    using cs core_eq_facts(3) [of it' ?it] by auto
  have f': "frame s0 s'"
    using frame_put_item(1) [OF f i(1) co hok] by (simp add: s'_def)
  have il: "iloc s' = iloc s"
    using i(1) iid by (auto simp: s'_def iloc_def fun_eq_iff put_item_def nth_list_update)
  have hp: "heap s' = h" by (simp add: s'_def)
  have lh: "locks s0 s' UNIV \<and> held s - {i} \<subseteq> held s' \<and> held s' \<subseteq> held s"
    using cs
  proof
    assume a: "it' = ?it \<and> holder h = holder (heap s)"
    then have "held s' = held s" by (simp add: s'_def held_def put_item_def)
    with a il hp Cons.prems(2) show ?thesis by (auto simp: locks_def)
  next
    assume a: "it' = clear_needs_unlock ?it \<and> holder h = (holder (heap s))(iloc s i := None)"
    then have hd: "held s' = held s - {i}"
      using i(1) by (auto simp: s'_def held_def put_item_def nth_list_update split: if_splits)
    from a locks_release [OF Cons.prems(2) i(3)] have "locks s0 (s\<lparr>heap := h\<rparr>) (UNIV - {i})" by blast
    from locks_cleared [OF this hd il hp] hd show ?thesis by auto
  qed
  have tj: "tset (txn s') ! j = tset (txn s) ! j" if "j \<noteq> i" for j
    using that by (simp add: s'_def put_item_def)
  have st: "txstate (txn s') = txstate (txn s)" and ct: "commit_tid_field (txn s') \<noteq> 0"
    using thr(5) by (simp_all add: s'_def put_item_def tid_ok_def)
  have "set is \<subseteq> held s'" using Cons.prems(3,4) lh by auto
  moreover have "\<forall>j \<in> set is. has_write (tset (txn s') ! j)"
  proof
    fix j assume "j \<in> set is"
    moreover from this have "j \<noteq> i" using Cons.prems(4) by auto
    ultimately show "has_write (tset (txn s') ! j)" using tj Cons.prems(5) by simp
  qed
  ultimately obtain s2 where s2: "install_phase vt is s' = Inr s2" "frame s0 s2" "locks s0 s2 UNIV"
    "held s2 \<subseteq> held s'" "txstate (txn s2) = txstate (txn s')" "val (heap s2) = installed s0 is (val (heap s'))"
    "commit_tid_field (txn s2) \<noteq> 0"
    using Cons.IH [OF f' conjunct1 [OF lh]] Cons.prems(4) st i(5) ct by auto
  have "installed s0 (i # is) (val (heap s)) = installed s0 is (val h)"
    using v frame_iloc [OF f i(1)] wval_cong [OF frame_core [OF f i(1)]] thr(6)
    by (simp add: installed_def)
  with s2 hp ins frame_item(1) [OF f i(1)] lh st show ?case
    by (simp add: s'_def [symmetric] subset_trans)
qed

lemma view_txn_fields [simp]:
  "iloc (with_txn (\<lambda>t. t\<lparr>first_write := fw\<rparr>) s) = iloc s" "held (with_txn (\<lambda>t. t\<lparr>first_write := fw\<rparr>) s) = held s"
  "iloc (with_txn (\<lambda>t. t\<lparr>txstate := st\<rparr>) s) = iloc s" "held (with_txn (\<lambda>t. t\<lparr>txstate := st\<rparr>) s) = held s"
  "iloc (s\<lparr>txn := (txn s)\<lparr>first_write := fw\<rparr>\<rparr>) = iloc s" "held (s\<lparr>txn := (txn s)\<lparr>first_write := fw\<rparr>\<rparr>) = held s"
  by (simp_all add: iloc_def [abs_def] held_def)

lemma view_frame [simp]:
  "frame s0 (with_txn (\<lambda>t. t\<lparr>first_write := fw\<rparr>) s) = frame s0 s"
  "frame s0 (with_txn (\<lambda>t. t\<lparr>txstate := st\<rparr>) s) = frame s0 s"
  by (simp_all add: frame_def chunks_ok_def tid_defs)

lemma view_locks [simp]:
  "locks s0 (with_txn (\<lambda>t. t\<lparr>first_write := fw\<rparr>) s) R = locks s0 s R"
  "locks s0 (with_txn (\<lambda>t. t\<lparr>txstate := st\<rparr>) s) R = locks s0 s R"
  unfolding locks_def view_txn_fields by simp_all

text \<open>A transaction that runs and has locked nothing yet.\<close>

definition clean :: "('w, 'h) sto \<Rightarrow> bool" where
  "clean s \<longleftrightarrow> set_inv (txn s) \<and> cur_thread s = threadid (txn s) \<and> cur_thread s < 128 \<and> heap_ok (heap s) \<and>
     tid_ok s \<and> (\<forall>it \<in> set (tset (txn s)). ready it \<and> \<not> needs_unlock it) \<and>
     txstate (txn s) = S_in_progress \<and> first_write (txn s) = 0 \<and>
     (any_nonopaque (txn s) \<or> any_writes (txn s) \<longrightarrow> tset (txn s) \<noteq> [])"

definition write_indices :: "('w, 'h) sto \<Rightarrow> nat list" where
  "write_indices s = filter (\<lambda>i. has_write (tset (txn s) ! i)) [0 ..< tset_size (txn s)]"

lemma clean_frame:
  assumes "clean s"
  shows "frame s s" "held s = {}" "locks s s R"
    "\<forall>it \<in> set (tset (txn s)). has_write it \<longrightarrow> any_writes (txn s)"
proof -
  show "frame s s" using assms by (auto simp: clean_def frame_def set_inv_def hash_inv_def)
  show h: "held s = {}" using assms by (auto simp: clean_def held_def)
  show "locks s s R" by (simp add: locks_def h)
  show "\<forall>it \<in> set (tset (txn s)). has_write it \<longrightarrow> any_writes (txn s)"
    using assms by (simp add: clean_def set_inv_def)
qed

lemma clean_locking:
  assumes "clean s"
  shows "locking s (with_txn (\<lambda>t. t\<lparr>txstate := S_committing\<rparr>) s) 0 []"
  unfolding locking_def view_frame view_locks view_txn_fields
  using clean_frame [OF assms] assms by (simp add: clean_def)

lemma locking_first_write:
  assumes L: "locking s0 s n ws" and n: "n = tset_size (txn s0)"
    and W: "\<forall>it \<in> set (tset (txn s0)). has_write it \<longrightarrow> any_writes (txn s0)"
  shows "abortable s0 (with_txn (\<lambda>t. t\<lparr>first_write := of_nat (hd (ws @ [tset_size t]))\<rparr>) s)"
proof -
  have f: "frame s0 s" and hs: "held s = set ws" and ws: "ws = filter (\<lambda>i. has_write (tset (txn s0) ! i)) [0 ..< n]"
    using L unfolding locking_def by blast+
  have sz: "tset_size (txn s) = n" using frame_size [OF f] n by simp
  have A: "abortable s0 s" using locking_abortable [OF L W] .
  have "hd (ws @ [n]) \<le> n" using hd_in_set [of ws] ws by (cases "ws = []") auto
  moreover have "n \<le> 32768" using f sz by (auto simp: frame_def chunks_ok_def tset_max_capacity_def)
  ultimately have u: "unat (of_nat (hd (ws @ [n])) :: u16) = hd (ws @ [n])"
    by (simp add: unat_of_nat)
  have "hd (ws @ [n]) \<le> x" if "x \<in> set ws" for x
  proof -
    have "hd ws \<le> x" using that unfolding ws by (rule hd_filter_upt_le)
    moreover have "ws \<noteq> []" using that by auto
    ultimately show ?thesis by simp
  qed
  then have "held s \<subseteq> {hd (ws @ [n]) ..}" using hs by auto
  with A u sz \<open>hd (ws @ [n]) \<le> n\<close> show ?thesis
    unfolding abortable_def view_frame view_locks view_txn_fields by (simp add: sz) blast
qed

lemma abortable_frame: "abortable s0 s \<Longrightarrow> frame s0 s \<and> locks s0 s UNIV \<and> val (heap s) = val (heap s0)"
  by (simp add: abortable_def)

text \<open>What the call of \<^verbatim>\<open>serialize_util\<close> may change: the log, not values, locks or items.\<close>

definition ser_ok :: "bool \<Rightarrow> (nat list \<Rightarrow> ('w, 'h) sto \<Rightarrow> ('w, 'h) sto result) \<Rightarrow> ('w, 'h) sto \<Rightarrow> bool" where
  "ser_ok no_paxos ser s0 \<longleftrightarrow> (\<forall>s. frame s0 s \<longrightarrow> no_paxos \<or>
     (\<exists>h u. ser (write_indices s0) s = Inr (s\<lparr>heap := h, txn := (txn s)\<lparr>tid_unique_field := u\<rparr>\<rparr>) \<and>
        heap_ok h \<and> val h = val (heap s) \<and> holder h = holder (heap s)))"

lemma commit_tail_ok:
  assumes f: "frame s0 s" and l: "locks s0 s UNIV" and v: "val (heap s) = val (heap s0)"
    and ws: "ws = write_indices s0" and h: "held s = set ws"
    and st: "ws \<noteq> [] \<longrightarrow> txstate (txn s) = S_committing_locked" and any: "ws \<noteq> [] \<longrightarrow> any_writes (txn s0)"
    and ser: "ser_ok no_paxos ser s0"
  shows "\<exists>s'. rbind (install_phase vt ws s) (\<lambda>s4. rbind (if no_paxos then Inr s4 else ser ws s4)
      (\<lambda>s5. rbind (stop vt True ws s5) (\<lambda>s'. Inr (True, s')))) = Inr (True, s') \<and>
    holder (heap s') = holder (heap s0) \<and> txstate (txn s') = S_committed \<and>
    val (heap s') = installed s0 ws (val (heap s0)) \<and>
    (ws \<noteq> [] \<longrightarrow> gTID s' = next_gTID s0)"
proof -
  have "\<forall>i \<in> set ws. has_write (tset (txn s) ! i)"
    using ws core_eq_facts(1) [OF frame_core [OF f]] frame_size [OF f] by (auto simp: write_indices_def)
  moreover have dw: "distinct ws" using ws by (simp add: write_indices_def)
  ultimately obtain s4 where s4: "install_phase vt ws s = Inr s4" "frame s0 s4" "locks s0 s4 UNIV"
    "held s4 \<subseteq> set ws" "val (heap s4) = installed s0 ws (val (heap s0))"
    "ws \<noteq> [] \<longrightarrow> commit_tid_field (txn s4) \<noteq> 0"
    using install_phase_ok [OF f l, of ws] h st v by auto
  have "\<exists>h u. (if no_paxos then Inr s4 else ser ws s4) = Inr (s4\<lparr>heap := h, txn := (txn s4)\<lparr>tid_unique_field := u\<rparr>\<rparr>) \<and>
      heap_ok h \<and> val h = val (heap s4) \<and> holder h = holder (heap s4)"
  proof (cases no_paxos)
    case True
    then show ?thesis using frame_thread(4) [OF s4(2)]
      by (intro exI [of _ "heap s4"] exI [of _ "tid_unique_field (txn s4)"]) simp
  next
    case False
    then show ?thesis using ser s4(2) ws by (auto simp: ser_ok_def)
  qed
  then obtain h u where s5: "(if no_paxos then Inr s4 else ser ws s4) = Inr (s4\<lparr>heap := h, txn := (txn s4)\<lparr>tid_unique_field := u\<rparr>\<rparr>)"
    "heap_ok h" "val h = val (heap s4)" "holder h = holder (heap s4)" by blast
  define t5 where "t5 = s4\<lparr>heap := h, txn := (txn s4)\<lparr>tid_unique_field := u\<rparr>\<rparr>"
  have f5: "frame s0 t5" using s4(2) s5(2) by (auto simp: t5_def frame_def chunks_ok_def tid_defs)
  have h5: "held t5 = held s4" and i5: "iloc t5 = iloc s4" by (simp_all add: t5_def held_def iloc_def [abs_def])
  have l5: "locks s0 t5 UNIV" using s4(3) s5(4) unfolding locks_def h5 i5 by (simp add: t5_def)
  have sub: "set ws \<subseteq> {..< tset_size (txn t5)}"
    using ws frame_size [OF f5] by (auto simp: write_indices_def)
  have "held t5 \<noteq> {} \<longrightarrow> any_writes (txn t5)"
  proof
    assume "held t5 \<noteq> {}"
    then have "ws \<noteq> []" using s4(4) h5 by auto
    with any f5 show "any_writes (txn t5)" by (simp add: frame_def)
  qed
  from stop_commit_ok [OF f5 l5 dw sub _ this] s4(4) h5 obtain h' where
    "stop vt True ws t5 = Inr (t5\<lparr>heap := h', txn := (txn t5)\<lparr>txstate := S_committed\<rparr>\<rparr>)"
    "val h' = val (heap t5)" "holder h' = holder (heap s0)" by auto
  moreover have "ws \<noteq> [] \<longrightarrow> gTID s4 = next_gTID s0"
    using s4(6) frame_thread(7) [OF s4(2)] by (auto simp: next_gTID_def)
  ultimately show ?thesis using s4 s5(1,3) by (simp add: t5_def)
qed

lemma valid_read_before:
  assumes f: "frame s0 s" and l: "locks s0 s UNIV" and st: "stamp (heap s) = stamp (heap s0)"
    and i: "i < tset_size (txn s)" and v: "valid_read s i"
  shows "valid_read s0 i"
proof -
  have r: "rstamp (tset (txn s) ! i) = rstamp (tset (txn s0) ! i)"
    by (metis frame_core [OF f i] rstamp_core)
  have "holder (heap s0) (iloc s i) \<in> {None, Some (cur_thread s)}"
    using v l frame_thread(3) [OF f]
    by (cases "iloc s i \<in> iloc s ` held s") (auto simp: valid_read_def locks_def split: if_splits)
  with v st r frame_iloc [OF f i] frame_thread(3) [OF f] show ?thesis
    by (simp add: valid_read_def)
qed

lemma valid_read_after:
  assumes f: "frame s0 s" and l: "locks s0 s UNIV" and st: "stamp (heap s) = stamp (heap s0)"
    and i: "i < tset_size (txn s)" and v: "valid_read s0 i"
  shows "valid_read s i"
proof -
  have r: "rstamp (tset (txn s) ! i) = rstamp (tset (txn s0) ! i)"
    by (metis frame_core [OF f i] rstamp_core)
  have "holder (heap s) (iloc s i) \<in> {None, Some (cur_thread s)}"
    using v l frame_thread(3) [OF f] frame_iloc [OF f i]
    by (auto simp: valid_read_def locks_def)
  with v st r frame_iloc [OF f i] show ?thesis by (simp add: valid_read_def)
qed

lemma reads_validated:
  assumes f: "frame s0 s" and l: "locks s0 s UNIV" and st: "stamp (heap s) = stamp (heap s0)"
    and rd: "\<forall>i \<in> set [0 ..< tset_size (txn s)]. has_read (tset (txn s) ! i) \<longrightarrow> valid_read s i \<or>
       (\<exists>j < i. item_id (tset (txn s) ! j) = item_id (tset (txn s) ! i) \<and> has_read (tset (txn s) ! j))"
    and i: "i < tset_size (txn s0)" "has_read (tset (txn s0) ! i)"
  shows "\<exists>j \<le> i. item_id (tset (txn s0) ! j) = item_id (tset (txn s0) ! i) \<and>
    has_read (tset (txn s0) ! j) \<and> valid_read s0 j"
  using i
proof (induction i rule: less_induct)
  case (less i)
  have sz: "tset_size (txn s) = tset_size (txn s0)" using frame_size [OF f] .
  have eq: "has_read (tset (txn s) ! j) = has_read (tset (txn s0) ! j)"
    "item_id (tset (txn s) ! j) = item_id (tset (txn s0) ! j)" if "j \<le> i" for j
    using core_eq_facts(2,3) [OF frame_core [OF f]] that less.prems(1) sz by simp_all
  from rd less.prems sz eq [of i] have "valid_read s i \<or>
      (\<exists>j < i. item_id (tset (txn s) ! j) = item_id (tset (txn s) ! i) \<and> has_read (tset (txn s) ! j))" by auto
  then show ?case
  proof
    assume "valid_read s i"
    with valid_read_before [OF f l st] less.prems sz show ?thesis by auto
  next
    assume "\<exists>j < i. item_id (tset (txn s) ! j) = item_id (tset (txn s) ! i) \<and> has_read (tset (txn s) ! j)"
    then obtain j where j: "j < i" "item_id (tset (txn s0) ! j) = item_id (tset (txn s0) ! i)"
      "has_read (tset (txn s0) ! j)" using eq by auto
    from less.IH [OF j(1) _ j(3)] j less.prems obtain k where "k \<le> j"
      "item_id (tset (txn s0) ! k) = item_id (tset (txn s0) ! i)" "has_read (tset (txn s0) ! k)" "valid_read s0 k"
      by auto
    with j(1) show ?thesis by (intro exI [of _ k]) simp
  qed
qed

lemma try_commit_ok:
  assumes c: "clean s" and ser: "ser_ok no_paxos ser s"
  shows "\<exists>b s'. try_commit vt ser no_paxos s = Inr (b, s') \<and> holder (heap s') = holder (heap s) \<and>
    txstate (txn s') = (if b then S_committed else S_aborted) \<and>
    val (heap s') = (if b then installed s (write_indices s) (val (heap s)) else val (heap s)) \<and>
    (b \<and> write_indices s \<noteq> [] \<longrightarrow> gTID s' = next_gTID s) \<and>
    (b \<and> (any_writes (txn s) \<or> any_nonopaque (txn s)) \<longrightarrow> (\<forall>i < tset_size (txn s). has_read (tset (txn s) ! i) \<longrightarrow>
      (\<exists>j \<le> i. item_id (tset (txn s) ! j) = item_id (tset (txn s) ! i) \<and> has_read (tset (txn s) ! j) \<and> valid_read s j))) \<and>
    (b \<or> commit_conflict s)"
proof (cases "\<not> any_writes (txn s) \<and> \<not> any_nonopaque (txn s)")
  case True
  have "\<forall>i \<in> set [0 ..< tset_size (txn s)]. \<not> has_write (tset (txn s) ! i)"
    using clean_frame(4) [OF c] True by auto
  then have "write_indices s = []" unfolding write_indices_def by (rule filter_False)
  then show ?thesis
    using c True by (simp add: try_commit_def clean_def stop_def less_eq_txn_state_def installed_def)
next
  case False
  let ?n = "tset_size (txn s)" and ?s0 = "with_txn (\<lambda>t. t\<lparr>txstate := S_committing\<rparr>) s"
  let ?fw = "\<lambda>ws s. with_txn (\<lambda>t. t\<lparr>first_write := of_nat (hd (ws @ [tset_size t]))\<rparr>) s"
  note W = clean_frame(4) [OF c]
  have pre: "cur_thread s = threadid (txn s)" "txstate (txn s) = S_in_progress" "tset (txn s) \<noteq> []"
    using c False by (auto simp: clean_def)
  have unf: "try_commit vt ser no_paxos s =
      rbind (lock_phase vt [0 ..< ?n] [] ?s0) (\<lambda>(ok, ws, s1).
       if \<not> ok then rbind (stop vt False [] s1) (\<lambda>s'. Inr (False, s'))
       else rbind (check_phase vt [0 ..< tset_size (txn (?fw ws s1))] (?fw ws s1)) (\<lambda>(ok, s3).
         if \<not> ok then rbind (stop vt False [] s3) (\<lambda>s'. Inr (False, s'))
         else rbind (install_phase vt ws s3) (\<lambda>s4.
              rbind (if no_paxos then Inr s4 else ser ws s4) (\<lambda>s5.
              rbind (stop vt True ws s5) (\<lambda>s'. Inr (True, s'))))))"
    using pre False unfolding try_commit_def Let_def by (auto simp: less_eq_txn_state_def)
  obtain ok ws s1 where lp: "lock_phase vt [0 ..< ?n] [] ?s0 = Inr (ok, ws, s1)"
    and r1: "if ok then locking s s1 ?n ws else abortable s s1 \<and> commit_conflict s"
    using lock_phase_ok [OF clean_locking [OF c] W refl] by blast
  show ?thesis
  proof (cases ok)
    case False
    with r1 have A1: "abortable s s1" and C1: "commit_conflict s" by simp_all
    from stop_abort_ok [OF A1, of "[]"] obtain h where
      "stop vt False [] s1 = Inr (s1\<lparr>heap := h, txn := (txn s1)\<lparr>txstate := S_aborted\<rparr>\<rparr>)"
      "val h = val (heap s)" "holder h = holder (heap s)" by blast
    with False lp unf C1 show ?thesis by simp
  next
    case True
    with r1 have L: "locking s s1 ?n ws" by simp
    define s2 where "s2 = ?fw ws s1"
    have A: "abortable s s2" using locking_first_write [OF L refl W] unfolding s2_def .
    have f2: "frame s s2" and l2: "locks s s2 UNIV" and v2: "val (heap s2) = val (heap s)"
      using abortable_frame [OF A] by blast+
    have "set [0 ..< tset_size (txn s2)] \<subseteq> {..< tset_size (txn s2)}" by auto
    from check_phase_ok [OF f2 this] obtain ok2 where
      "check_phase vt [0 ..< tset_size (txn s2)] s2 = Inr (ok2, s2)" 
      and rd: "ok2 \<longrightarrow> (\<forall>i \<in> set [0 ..< tset_size (txn s2)]. has_read (tset (txn s2) ! i) \<longrightarrow> valid_read s2 i \<or>
       (\<exists>j < i. item_id (tset (txn s2) ! j) = item_id (tset (txn s2) ! i) \<and> has_read (tset (txn s2) ! j)))"
      and rn: "\<not> ok2 \<longrightarrow> (\<exists>i \<in> set [0 ..< tset_size (txn s2)]. has_read (tset (txn s2) ! i) \<and> \<not> valid_read s2 i)" by blast
    then have ck: "check_phase vt [0 ..< tset_size (txn s1)] s2 = Inr (ok2, s2)" by (simp add: s2_def)
    have st2: "stamp (heap s2) = stamp (heap s)" using L by (simp add: locking_def s2_def)
    show ?thesis
    proof (cases ok2)
      case False
      from stop_abort_ok [OF A, of "[]"] obtain h where
        "stop vt False [] s2 = Inr (s2\<lparr>heap := h, txn := (txn s2)\<lparr>txstate := S_aborted\<rparr>\<rparr>)"
        "val h = val (heap s)" "holder h = holder (heap s)" by blast
      moreover have "commit_conflict s"
      proof -
        from rn False obtain i where i: "i < tset_size (txn s2)" "has_read (tset (txn s2) ! i)" "\<not> valid_read s2 i"
          by auto
        with valid_read_after [OF f2 l2 st2] core_eq_facts(2) [OF frame_core [OF f2 i(1)]] frame_size [OF f2]
        show ?thesis by (auto simp: commit_conflict_def)
      qed
      ultimately show ?thesis using False True lp unf ck by (simp add: s2_def [symmetric])
    next
      case ok2: True
      have ws: "ws = write_indices s" and hs: "held s2 = set ws"
        and st: "ws \<noteq> [] \<longrightarrow> txstate (txn s2) = S_committing_locked"
        using L by (simp_all add: locking_def write_indices_def s2_def held_def)
      have any: "ws \<noteq> [] \<longrightarrow> any_writes (txn s)"
        using ws W by (auto simp: write_indices_def filter_empty_conv)
      from commit_tail_ok [OF f2 l2 v2 ws hs st any ser] obtain s' where
        tail: "rbind (install_phase vt ws s2) (\<lambda>s4. rbind (if no_paxos then Inr s4 else ser ws s4)
          (\<lambda>s5. rbind (stop vt True ws s5) (\<lambda>s'. Inr (True, s')))) = Inr (True, s')"
        and res: "holder (heap s') = holder (heap s)" "txstate (txn s') = S_committed"
          "val (heap s') = installed s ws (val (heap s))" "ws \<noteq> [] \<longrightarrow> gTID s' = next_gTID s" by blast
      have "try_commit vt ser no_paxos s = Inr (True, s')"
        unfolding unf lp using True ok2 ck tail by (simp add: s2_def [symmetric])
      then show ?thesis
        using res ws reads_validated [OF f2 l2 st2 mp [OF rd ok2]]
        by (intro exI [of _ True] exI [of _ s']) simp
    qed
  qed
qed

end

end
