(* ===== verification/Sto_Objects.thy ===== *)
theory Sto_Objects
  imports Sto_Commit
begin

text \<open>
  Two transactional objects of the runtime, \<^verbatim>\<open>TBox\<close> (\<^verbatim>\<open>benchmarks/sto/TBox.hh\<close>) and \<^verbatim>\<open>TArray\<close>
  (\<^verbatim>\<open>TArray.hh\<close>), with their \<^verbatim>\<open>lock\<close>, \<^verbatim>\<open>check\<close>, \<^verbatim>\<open>install\<close> and \<^verbatim>\<open>unlock\<close>.  Both are shown to meet the contract
  \<open>transactional_object\<close>, which gives the correctness of \<^verbatim>\<open>try_commit\<close> on them.
\<close>

record 'v cell =
  vers :: u64
  cval :: 'v

text \<open>\<^verbatim>\<open>Transaction::set_version_unlock\<close> on a version word, for the item at index \<open>i\<close>.\<close>

definition txn_set_version_unlock ::
  "u64 \<Rightarrow> nat \<Rightarrow> u64 \<Rightarrow> ('w, 'h) sto \<Rightarrow> (u64 \<times> ('w, 'h) sto) result"
where
  "txn_set_version_unlock v i flgs s =
     rbind (commit_tid s) (\<lambda>(c, s1).
     rbind (set_version_unlock v (c OR flgs) (cur_thread s1)) (\<lambda>v'.
     rbind (the_item s1 i) (\<lambda>it.
       Inr (v', with_txn (put_item i (clear_needs_unlock it)) s1))))"

definition cell_try_lock :: "'w trans_item \<Rightarrow> 'v cell \<Rightarrow> u64 \<Rightarrow> (bool \<times> 'v cell) result" where
  "cell_try_lock it c here =
     (case txn_try_lock it (replicate try_lock_attempts (vers c)) here of
        None \<Rightarrow> Inl Assert_Fail
      | Some (b, v) \<Rightarrow> Inr (b, c\<lparr>vers := v\<rparr>))"

section \<open>TBox\<close>

type_synonym 'v boxes = "u64 \<Rightarrow> 'v cell"

definition tbox_lock :: "nat \<Rightarrow> ('v, 'v boxes) sto \<Rightarrow> (bool \<times> ('v, 'v boxes) sto) result" where
  "tbox_lock i s =
     rbind (the_item s i) (\<lambda>it.
     rbind (cell_try_lock it (heap s (owner it)) (threadid (txn s))) (\<lambda>(b, c).
       Inr (b, s\<lparr>heap := (heap s)(owner it := c)\<rparr>)))"

definition tbox_check :: "nat \<Rightarrow> ('v, 'v boxes) sto \<Rightarrow> (bool \<times> ('v, 'v boxes) sto) result" where
  "tbox_check i s =
     rbind (the_item s i) (\<lambda>it.
     rbind (item_check_version it (vers (heap s (owner it))) (cur_thread s)) (\<lambda>b. Inr (b, s)))"

definition tbox_install :: "nat \<Rightarrow> ('v, 'v boxes) sto \<Rightarrow> ('v, 'v boxes) sto result" where
  "tbox_install i s =
     rbind (the_item s i) (\<lambda>it.
     rbind (write_value it) (\<lambda>w.
       let b = heap s (owner it) in
       rbind (txn_set_version_unlock (vers b) i 0 s) (\<lambda>(v, s1).
         Inr (s1\<lparr>heap := (heap s1)(owner it := \<lparr>vers = v, cval = w\<rparr>)\<rparr>))))"

definition tbox_unlock :: "nat \<Rightarrow> ('v, 'v boxes) sto \<Rightarrow> ('v, 'v boxes) sto result" where
  "tbox_unlock i s =
     rbind (the_item s i) (\<lambda>it.
     rbind (unlock (vers (heap s (owner it))) (cur_thread s)) (\<lambda>v.
       Inr (s\<lparr>heap := (heap s)(owner it := (heap s (owner it))\<lparr>vers := v\<rparr>)\<rparr>)))"

definition tbox :: "('v, 'v boxes) tobject" where
  "tbox = \<lparr>ob_lock = tbox_lock, ob_check_predicate = default_check_predicate, ob_check = tbox_check,
           ob_install = tbox_install, ob_unlock = tbox_unlock, ob_cleanup = default_cleanup\<rparr>"

text \<open>\<^verbatim>\<open>TBox::read\<close> and \<^verbatim>\<open>TBox::write\<close>; the box is read while no other thread writes it.\<close>

definition tbox_read :: "('v, 'v boxes) vtables \<Rightarrow> u64 \<Rightarrow> ('v, 'v boxes) sto \<Rightarrow> (('v option) \<times> ('v, 'v boxes) sto) result" where
  "tbox_read vt obj s =
     rbind (rassert (in_progress (txn s))) (\<lambda>_.
     rbind (item obj 0 (txn s)) (\<lambda>(i, t).
       let s1 = s\<lparr>txn := t\<rparr> in
       rbind (the_item s1 i) (\<lambda>it.
         if has_write it then rbind (write_value it) (\<lambda>w. Inr (Some w, s1))
         else rbind (observe vt i (vers (heap s1 obj)) True s1) (\<lambda>(ok, s2).
           Inr (if ok then Some (cval (heap s1 obj)) else None, s2)))))"

definition tbox_write :: "u64 \<Rightarrow> 'v \<Rightarrow> ('v, 'v boxes) sto \<Rightarrow> ('v, 'v boxes) sto result" where
  "tbox_write obj x s =
     rbind (rassert (in_progress (txn s))) (\<lambda>_.
     rbind (item obj 0 (txn s)) (\<lambda>(i, t).
     rbind (add_write i x t) (\<lambda>t'. Inr (s\<lparr>txn := t'\<rparr>))))"

section \<open>TArray\<close>

type_synonym 'v arrays = "u64 \<Rightarrow> 'v cell list"

definition array_index :: "u64 \<Rightarrow> nat" where
  "array_index key = unat (ucast key :: u32)"

definition elem :: "('v, 'v arrays) sto \<Rightarrow> 'v trans_item \<Rightarrow> 'v cell result" where
  "elem s it = (let a = heap s (owner it); k = array_index (ti_key it) in
     if k < length a then Inr (a ! k) else Inl Out_Of_Bounds)"

definition put_elem :: "'v trans_item \<Rightarrow> 'v cell \<Rightarrow> ('v, 'v arrays) sto \<Rightarrow> ('v, 'v arrays) sto" where
  "put_elem it c s =
     s\<lparr>heap := (heap s)(owner it := (heap s (owner it))[array_index (ti_key it) := c])\<rparr>"

definition tarray_lock :: "nat \<Rightarrow> ('v, 'v arrays) sto \<Rightarrow> (bool \<times> ('v, 'v arrays) sto) result" where
  "tarray_lock i s =
     rbind (the_item s i) (\<lambda>it. rbind (elem s it) (\<lambda>e.
     rbind (cell_try_lock it e (threadid (txn s))) (\<lambda>(b, c). Inr (b, put_elem it c s))))"

definition tarray_check :: "nat \<Rightarrow> ('v, 'v arrays) sto \<Rightarrow> (bool \<times> ('v, 'v arrays) sto) result" where
  "tarray_check i s =
     rbind (the_item s i) (\<lambda>it. rbind (elem s it) (\<lambda>e.
     rbind (item_check_version it (vers e) (cur_thread s)) (\<lambda>b. Inr (b, s))))"

definition tarray_install :: "nat \<Rightarrow> ('v, 'v arrays) sto \<Rightarrow> ('v, 'v arrays) sto result" where
  "tarray_install i s =
     rbind (the_item s i) (\<lambda>it. rbind (elem s it) (\<lambda>e.
     rbind (write_value it) (\<lambda>w.
     rbind (txn_set_version_unlock (vers e) i 0 s) (\<lambda>(v, s1).
       Inr (put_elem it \<lparr>vers = v, cval = w\<rparr> s1)))))"

definition tarray_unlock :: "nat \<Rightarrow> ('v, 'v arrays) sto \<Rightarrow> ('v, 'v arrays) sto result" where
  "tarray_unlock i s =
     rbind (the_item s i) (\<lambda>it. rbind (elem s it) (\<lambda>e.
     rbind (unlock (vers e) (cur_thread s)) (\<lambda>v. Inr (put_elem it (e\<lparr>vers := v\<rparr>) s))))"

definition tarray :: "('v, 'v arrays) tobject" where
  "tarray = \<lparr>ob_lock = tarray_lock, ob_check_predicate = default_check_predicate, ob_check = tarray_check,
             ob_install = tarray_install, ob_unlock = tarray_unlock, ob_cleanup = default_cleanup\<rparr>"

section \<open>Version words and their holders\<close>

definition word_holder :: "u64 \<Rightarrow> u64 option" where
  "word_holder v = (if is_locked v then Some (v AND threadid_mask) else None)"

lemma word_holder_None: "word_wf v \<Longrightarrow> word_holder v = None \<longleftrightarrow> low8 v = 0"
proof -
  have "\<not> is_locked v" if "low8 v = 0"
    using that by (subst is_locked_low8) (simp add: is_locked_def)
  then show "word_wf v \<Longrightarrow> word_holder v = None \<longleftrightarrow> low8 v = 0"
    by (auto simp: word_holder_def word_wf_def)
qed

lemma word_holder_Some:
  assumes "t < 128"
  shows "word_holder v = Some t \<longleftrightarrow> low8 v = lock_bit OR t"
proof
  assume h: "word_holder v = Some t"
  then have b: "bit v 7" and m: "v AND threadid_mask = t"
    by (auto simp: word_holder_def is_locked_bit split: if_splits)
  have "bit t n \<longleftrightarrow> bit v n \<and> n < 7" for n
    using m by (auto simp: bit_and_iff simp flip: m)
  then show "low8 v = lock_bit OR t"
    using b by (intro bit_word_eqI) (auto simp: low8_def bit_take_bit_iff bit_or_iff numeral_eq_Suc less_Suc_eq)
next
  assume l: "low8 v = lock_bit OR t"
  have "v AND threadid_mask = low8 v AND threadid_mask"
    by (rule bit_word_eqI) (auto simp: low8_def bit_and_iff bit_take_bit_iff)
  also have "\<dots> = t"
    unfolding l by (rule bit_word_eqI) (auto simp: bit_and_iff bit_or_iff dest: thread_bits [OF assms])
  finally show "word_holder v = Some t"
    using is_locked_low8_owner [OF assms l] by (simp add: word_holder_def)
qed

lemma low8_wf [simp]: "low8 v = 0 \<Longrightarrow> word_wf v" "t < 128 \<Longrightarrow> low8 v = lock_bit OR t \<Longrightarrow> word_wf v"
  by (simp_all add: word_wf_def is_locked_low8_owner)

lemma try_lock_spec:
  assumes "word_wf v" and "t < 128"
  shows "if low8 v = 0 then \<exists>v'. try_lock v t = (True, v') \<and> low8 v' = lock_bit OR t \<and> unlocked v' = unlocked v
         else try_lock v t = (False, v)"
proof (cases "low8 v = 0")
  case True
  then have "v AND NOT lock_bit = v"
    using low8_zero_bit [OF True, of 7] by (intro bit_word_eqI) (auto simp: bit_and_iff bit_not_iff)
  then have "try_lock v t = (True, v OR lock_bit OR t)" by (simp add: try_lock_def try_lock_cas_def)
  with try_lock_cas_success [of v v t] assms(2) True unlocked_or_lock [OF True assms(2)] unlocked_id [OF True]
  show ?thesis by (simp add: try_lock_def)
next
  case False
  with assms(1) have "bit v 7" by (simp add: word_wf_def is_locked_bit)
  then have "v \<noteq> v AND NOT lock_bit"
    by (metis bit_and_iff bit_lock_bit bit_not_iff)
  with False show ?thesis by (simp add: try_lock_def try_lock_cas_def)
qed

lemma try_lock_loop_const:
  assumes "word_wf v" and "t < 128" and "n < try_lock_attempts"
  shows "if low8 v = 0 then \<exists>v'. try_lock_loop it (replicate (try_lock_attempts - n) v) t n = Some (True, v') \<and>
            low8 v' = lock_bit OR t \<and> unlocked v' = unlocked v
         else try_lock_loop it (replicate (try_lock_attempts - n) v) t n = Some (False, v)"
  using assms(3)
proof (induction "try_lock_attempts - n" arbitrary: n)
  case 0
  then have False by linarith
  then show ?case ..
next
  case (Suc m)
  have r: "replicate (try_lock_attempts - n) v = v # replicate (try_lock_attempts - Suc n) v"
    using Suc.prems by (cases "try_lock_attempts - n") auto
  show ?case
  proof (cases "low8 v = 0")
    case True
    then obtain v' where "try_lock v t = (True, v')" "low8 v' = lock_bit OR t" "unlocked v' = unlocked v"
      using try_lock_spec [OF assms(1,2)] by auto
    with True show ?thesis unfolding r by simp
  next
    case False
    have "try_lock v t = (False, v)" using try_lock_spec [OF assms(1,2)] False by simp
    moreover have "Suc n \<noteq> try_lock_attempts \<longrightarrow>
        try_lock_loop it (replicate (try_lock_attempts - Suc n) v) t (Suc n) = Some (False, v)"
      using Suc.hyps(1) [of "Suc n"] Suc.hyps(2) Suc.prems False by auto
    ultimately show ?thesis unfolding r using False by simp
  qed
qed

lemma cell_try_lock_spec:
  assumes "word_wf (vers c)" and "t < 128"
  shows "\<exists>b c'. cell_try_lock it c t = Inr (b, c') \<and> word_wf (vers c') \<and> cval c' = cval c \<and>
    unlocked (vers c') = unlocked (vers c) \<and> b = (word_holder (vers c) = None) \<and>
    (if b then word_holder (vers c') = Some t else c' = c)"
proof -
  have "0 < try_lock_attempts" by (simp add: try_lock_attempts_def)
  note tl = try_lock_loop_const [OF assms this, of it, simplified]
  show ?thesis
  proof (cases "low8 (vers c) = 0")
    case True
    with tl obtain v' where l: "try_lock_loop it (replicate try_lock_attempts (vers c)) t 0 = Some (True, v')"
      and v': "low8 v' = lock_bit OR t" and u: "unlocked v' = unlocked (vers c)" by auto
    have "word_wf v'" "word_holder v' = Some t" using v' assms(2) by (simp_all only: low8_wf word_holder_Some)
    with True l u show ?thesis
      by (intro exI [of _ True] exI [of _ "c\<lparr>vers := v'\<rparr>"])
        (simp add: cell_try_lock_def txn_try_lock_def word_holder_None [OF assms(1)])
  next
    case False
    with tl have "try_lock_loop it (replicate try_lock_attempts (vers c)) t 0 = Some (False, vers c)" by simp
    with assms(1) show ?thesis
      by (intro exI [of _ False] exI [of _ c])
        (simp add: cell_try_lock_def txn_try_lock_def word_holder_None [OF assms(1)] False)
  qed
qed

lemma unlock_spec:
  assumes "t < 128" and "word_holder v = Some t"
  shows "\<exists>v'. unlock v t = Inr v' \<and> word_wf v' \<and> word_holder v' = None \<and> unlocked v' = unlocked v"
proof -
  have "is_locked_here v t" using assms by (simp add: word_holder_Some is_locked_here_low8)
  then obtain v' where v': "unlock v t = Inr v'" by (simp add: unlock_def)
  have "v' = unlocked v" using v' by (simp add: unlock_def unlocked_def result_simps)
  with unlock_low8(2) [OF v'] v' unlocked_id [of v'] show ?thesis by (simp add: word_holder_None)
qed

lemma get_item_commit_fields [simp]:
  "get_item (t\<lparr>commit_tid_field := c, tid_unique_field := u\<rparr>) i = get_item t i"
  by (simp add: get_item_def)

lemma txn_set_version_unlock_spec:
  assumes "txstate (txn s) = S_committing_locked" and ok: "tid_ok s" and it: "the_item s i = Inr it"
    and t: "cur_thread s < 128" and v: "word_holder v = Some (cur_thread s)"
  shows "\<exists>v' u. txn_set_version_unlock v i 0 s =
      Inr (v', s\<lparr>gTID := next_gTID s, txn := (put_item i (clear_needs_unlock it) (txn s))
        \<lparr>commit_tid_field := own_commit_id s, tid_unique_field := u\<rparr>\<rparr>) \<and>
    word_wf v' \<and> word_holder v' = None \<and> unlocked v' = own_commit_id s"
proof -
  let ?c = "own_commit_id s"
  from commit_tid_spec [OF assms(1)] obtain u where
    ct: "commit_tid s = Inr (?c, s\<lparr>gTID := next_gTID s, txn := (txn s)\<lparr>commit_tid_field := ?c, tid_unique_field := u\<rparr>\<rparr>)"
    by blast
  note z = tid_ok_low8(1) [OF ok]
  have "\<not> is_locked ?c" using z by (subst is_locked_low8) (simp add: is_locked_def)
  then have v': "set_version_unlock v ?c (cur_thread s) = Inr ?c"
    using v t unlocked_id [OF z] unfolding unlocked_def
    by (simp add: set_version_unlock_def word_holder_Some is_locked_here_low8)
  have "word_wf ?c" "word_holder ?c = None" "unlocked ?c = ?c" using z by (simp_all add: word_holder_None unlocked_id)
  with ct v' it show ?thesis
    by (intro exI [of _ ?c] exI [of _ u]) (simp add: txn_set_version_unlock_def put_item_def)
qed

lemma item_check_version_spec:
  assumes "has_read it" and "ti_rdata it = Some r" and "low8 r = 0"
  shows "item_check_version it v t = Inr (v = r \<or> v = r OR lock_bit OR t)"
proof -
  have "\<not> is_locked_elsewhere r t"
    using assms(3) by (simp add: is_locked_elsewhere_def and_lock_or_mask)
  with assms show ?thesis by (simp add: item_check_version_def read_value_def check_version_def)
qed

lemma check_stamp:
  assumes "word_wf v" and r: "low8 r = 0" and t: "t < 128"
  shows "(v = r \<or> v = r OR lock_bit OR t) \<longleftrightarrow> unlocked v = r \<and> word_holder v \<in> {None, Some t}"
proof
  assume "v = r \<or> v = r OR lock_bit OR t"
  then show "unlocked v = r \<and> word_holder v \<in> {None, Some t}"
    using unlocked_id [OF r] unlocked_or_lock [OF r t] low8_or_lock [OF t, of r] r
    by (auto simp: word_holder_None word_holder_Some [OF t])
next
  assume a: "unlocked v = r \<and> word_holder v \<in> {None, Some t}"
  then have "low8 v = 0 \<or> low8 v = lock_bit OR t"
    using word_holder_None [OF assms(1)] word_holder_Some [OF t] by auto
  then show "v = r \<or> v = r OR lock_bit OR t"
    using word_split_low8 [of v] a by (auto simp: or.assoc)
qed

section \<open>TBox and TArray meet the contract\<close>

definition item_ready :: "'w trans_item \<Rightarrow> bool" where
  "item_ready it \<longleftrightarrow> (has_write it \<longrightarrow> ti_wdata it \<noteq> None) \<and>
     (has_read it \<longrightarrow> (case ti_rdata it of None \<Rightarrow> False | Some r \<Rightarrow> low8 r = 0))"

definition boxes_ok :: "'v boxes \<Rightarrow> bool" where
  "boxes_ok h \<longleftrightarrow> (\<forall>o'. word_wf (vers (h o')))"

definition box_val :: "'v boxes \<Rightarrow> u64 \<Rightarrow> 'v" where
  "box_val h obj = cval (h obj)"

definition box_holder :: "'v boxes \<Rightarrow> u64 \<Rightarrow> u64 option" where
  "box_holder h obj = word_holder (vers (h obj))"

definition box_stamp :: "'v boxes \<Rightarrow> u64 \<Rightarrow> u64" where
  "box_stamp h obj = unlocked (vers (h obj))"

definition read_stamp :: "'w trans_item \<Rightarrow> u64" where
  "read_stamp it = the (ti_rdata it)"

lemma read_stamp_core: "read_stamp (core it) = read_stamp it"
  by (simp add: read_stamp_def core_def)

text \<open>What a commit changes of a box: its value and its version without the lock.\<close>

definition box_view :: "'v boxes \<Rightarrow> u64 \<Rightarrow> 'v \<times> u64" where
  "box_view h obj = (box_val h obj, box_stamp h obj)"

definition written :: "u64 \<Rightarrow> 'w trans_item \<Rightarrow> 'w \<times> u64 \<Rightarrow> 'w \<times> u64" where
  "written c it old = (the (ti_wdata it), c)"

lemmas box_views = box_view_def box_val_def box_stamp_def box_holder_def

lemma fst_item_id [simp]: "fst (item_id it) = owner it"
  by (simp add: item_id_def)

lemma written_core: "written c (core it) = written c it"
  by (simp add: written_def [abs_def] core_def)

lemma item_ready_core: "item_ready (core it) = item_ready it"
  by (simp add: item_ready_def core_facts)

lemma boxes_ok_upd: "boxes_ok h \<Longrightarrow> word_wf (vers c) \<Longrightarrow> boxes_ok (h(obj := c))"
  by (simp add: boxes_ok_def)

interpretation tbox: transactional_object "\<lambda>_. tbox" boxes_ok box_view box_holder fst written item_ready
    box_stamp read_stamp
proof
  fix it :: "'v trans_item" and tid
  show "written tid (core it) = written tid it" "item_ready (core it) = item_ready it" "read_stamp (core it) = read_stamp it"
    by (rule written_core item_ready_core read_stamp_core)+
next
  fix s :: "('v, 'v boxes) sto" and i it
  assume it: "the_item s i = Inr it" and ok: "boxes_ok (heap s)" and thr: "cur_thread s = threadid (txn s)" "cur_thread s < 128"
  let ?o = "owner it"
  have wf: "word_wf (vers (heap s ?o))" using ok by (simp add: boxes_ok_def)
  from cell_try_lock_spec [OF wf thr(2), of it] obtain b c where
    "cell_try_lock it (heap s ?o) (cur_thread s) = Inr (b, c)" "word_wf (vers c)" "cval c = cval (heap s ?o)"
    "unlocked (vers c) = unlocked (vers (heap s ?o))" "b = (word_holder (vers (heap s ?o)) = None)"
    "if b then word_holder (vers c) = Some (cur_thread s) else c = heap s ?o" by blast
  with it thr boxes_ok_upd [OF ok] show "\<exists>b h. ob_lock tbox i s = Inr (b, s\<lparr>heap := h\<rparr>) \<and> boxes_ok h \<and> box_view h = box_view (heap s) \<and>
        box_stamp h = box_stamp (heap s) \<and> b = (box_holder (heap s) (fst (item_id it)) = None) \<and>
        (if b then box_holder h = (box_holder (heap s))(fst (item_id it) := Some (cur_thread s))
         else box_holder h = box_holder (heap s))"
    by (intro exI [of _ b] exI [of _ "(heap s)(?o := c)"])
      (auto simp: tbox_def tbox_lock_def box_views fun_eq_iff)
next
  fix s :: "('v, 'v boxes) sto" and i it c
  show "\<exists>b. ob_check_predicate tbox i c s = Inr (b, s)"
    by (simp add: tbox_def default_check_predicate_def)
next
  fix s :: "('v, 'v boxes) sto" and i it
  assume it: "the_item s i = Inr it" "has_read it" "item_ready it" and ok: "boxes_ok (heap s)"
    and thr: "cur_thread s < 128"
  then obtain r where r: "ti_rdata it = Some r" "low8 r = 0" by (auto simp: item_ready_def split: option.splits)
  have "word_wf (vers (heap s (owner it)))" using ok by (simp add: boxes_ok_def)
  from it check_stamp [OF this r(2) thr] item_check_version_spec [OF it(2) r]
  show "ob_check tbox i s = Inr (box_stamp (heap s) (fst (item_id it)) = read_stamp it \<and>
      box_holder (heap s) (fst (item_id it)) \<in> {None, Some (cur_thread s)}, s)"
    by (simp add: tbox_def tbox_check_def box_stamp_def box_holder_def read_stamp_def r)
next
  fix s :: "('v, 'v boxes) sto" and i it
  assume it: "the_item s i = Inr it" "has_write it" "item_ready it" and ok: "boxes_ok (heap s)"
    and thr: "cur_thread s = threadid (txn s)" "cur_thread s < 128" and st: "txstate (txn s) = S_committing_locked" "tid_ok s"
    and h: "box_holder (heap s) (fst (item_id it)) = Some (cur_thread s)"
  let ?o = "owner it"
  from it obtain w where w: "ti_wdata it = Some w" by (auto simp: item_ready_def)
  from txn_set_version_unlock_spec [OF st it(1) thr(2), of "vers (heap s ?o)"] h obtain v u where
    "txn_set_version_unlock (vers (heap s ?o)) i 0 s = Inr (v, s\<lparr>gTID := next_gTID s,
      txn := (put_item i (clear_needs_unlock it) (txn s))\<lparr>commit_tid_field := own_commit_id s, tid_unique_field := u\<rparr>\<rparr>)"
    "word_wf v" "word_holder v = None" "unlocked v = own_commit_id s" by (auto simp: box_holder_def)
  with it w boxes_ok_upd [OF ok, of "\<lparr>vers = v, cval = w\<rparr>" ?o]
  show "\<exists>h u it'. ob_install tbox i s =
          Inr (s\<lparr>heap := h, gTID := next_gTID s,
                 txn := (put_item i it' (txn s))\<lparr>commit_tid_field := own_commit_id s, tid_unique_field := u\<rparr>\<rparr>) \<and>
        boxes_ok h \<and>
        box_view h = (box_view (heap s))(fst (item_id it) := written (own_commit_id s) it (box_view (heap s) (fst (item_id it)))) \<and>
        (it' = it \<and> box_holder h = box_holder (heap s) \<or>
         it' = clear_needs_unlock it \<and> box_holder h = (box_holder (heap s))(fst (item_id it) := None))"
    by (intro exI [of _ "(heap s)(?o := \<lparr>vers = v, cval = w\<rparr>)"] exI [of _ u] exI [of _ "clear_needs_unlock it"])
      (auto simp: tbox_def tbox_install_def write_value_def box_views written_def fun_eq_iff)
next
  fix s :: "('v, 'v boxes) sto" and i it
  assume it: "the_item s i = Inr it" and ok: "boxes_ok (heap s)"
    and thr: "cur_thread s = threadid (txn s)" "cur_thread s < 128"
    and h: "box_holder (heap s) (fst (item_id it)) = Some (cur_thread s)"
  let ?o = "owner it"
  from unlock_spec [OF thr(2), of "vers (heap s ?o)"] h obtain v where
    "unlock (vers (heap s ?o)) (cur_thread s) = Inr v" "word_wf v" "word_holder v = None"
    "unlocked v = unlocked (vers (heap s ?o))" by (auto simp: box_holder_def)
  with it boxes_ok_upd [OF ok, of "(heap s ?o)\<lparr>vers := v\<rparr>" ?o]
  show "\<exists>h. ob_unlock tbox i s = Inr (s\<lparr>heap := h\<rparr>) \<and> boxes_ok h \<and> box_view h = box_view (heap s) \<and>
        box_holder h = (box_holder (heap s))(fst (item_id it) := None)"
    by (intro exI [of _ "(heap s)(?o := (heap s ?o)\<lparr>vers := v\<rparr>)"])
      (auto simp: tbox_def tbox_unlock_def box_views fun_eq_iff)
next
  fix s :: "('v, 'v boxes) sto" and i it c
  assume "boxes_ok (heap s)"
  then show "\<exists>h. ob_cleanup tbox i c s = Inr (s\<lparr>heap := h\<rparr>) \<and> boxes_ok h \<and> box_view h = box_view (heap s) \<and>
        box_holder h = box_holder (heap s)"
    by (intro exI [of _ "heap s"]) (simp add: tbox_def default_cleanup_def)
qed

definition arrays_ok :: "nat \<Rightarrow> 'v arrays \<Rightarrow> bool" where
  "arrays_ok N h \<longleftrightarrow> (\<forall>o'. length (h o') = N \<and> (\<forall>c \<in> set (h o'). word_wf (vers c)))"

definition arr_cell :: "'v arrays \<Rightarrow> u64 \<times> nat \<Rightarrow> 'v cell option" where
  "arr_cell h l = (if snd l < length (h (fst l)) then Some (h (fst l) ! snd l) else None)"

definition arr_val :: "'v arrays \<Rightarrow> u64 \<times> nat \<Rightarrow> 'v option" where
  "arr_val h l = map_option cval (arr_cell h l)"

definition arr_holder :: "'v arrays \<Rightarrow> u64 \<times> nat \<Rightarrow> u64 option" where
  "arr_holder h l = Option.bind (arr_cell h l) (\<lambda>c. word_holder (vers c))"

definition arr_stamp :: "'v arrays \<Rightarrow> u64 \<times> nat \<Rightarrow> u64 option" where
  "arr_stamp h l = map_option (\<lambda>c. unlocked (vers c)) (arr_cell h l)"

definition arr_read_stamp :: "'w trans_item \<Rightarrow> u64 option" where
  "arr_read_stamp it = Some (the (ti_rdata it))"

definition arr_loc :: "u64 \<times> u64 \<Rightarrow> u64 \<times> nat" where
  "arr_loc k = (fst k, array_index (snd k))"

definition arr_view :: "'v arrays \<Rightarrow> u64 \<times> nat \<Rightarrow> 'v option \<times> u64 option" where
  "arr_view h l = (arr_val h l, arr_stamp h l)"

definition arr_written :: "u64 \<Rightarrow> 'w trans_item \<Rightarrow> 'w option \<times> u64 option \<Rightarrow> 'w option \<times> u64 option" where
  "arr_written c it old = (Some (the (ti_wdata it)), Some c)"

lemmas arr_views = arr_view_def arr_val_def arr_stamp_def arr_holder_def

definition arr_ready :: "nat \<Rightarrow> 'w trans_item \<Rightarrow> bool" where
  "arr_ready N it \<longleftrightarrow> item_ready it \<and> array_index (ti_key it) < N"

lemma arr_cell_put:
  "array_index (ti_key it) < length (heap s (owner it)) \<Longrightarrow>
   arr_cell (heap (put_elem it c s)) = (arr_cell (heap s))(arr_loc (item_id it) := Some c)"
  by (auto simp: arr_cell_def put_elem_def arr_loc_def item_id_def fun_eq_iff)

lemma put_elem_views:
  assumes "array_index (ti_key it) < length (heap s (owner it))"
  shows "arr_view (heap (put_elem it c s)) =
      (arr_view (heap s))(arr_loc (item_id it) := (Some (cval c), Some (unlocked (vers c))))"
    and "arr_holder (heap (put_elem it c s)) = (arr_holder (heap s))(arr_loc (item_id it) := word_holder (vers c))"
  using arr_cell_put [OF assms, of c] by (auto simp: arr_views fun_eq_iff)

lemma arrays_ok_put:
  assumes "arrays_ok N (heap s)" and "word_wf (vers c)"
  shows "arrays_ok N (heap (put_elem it c s))"
proof -
  have "word_wf (vers x)" if "x \<in> set ((heap s (owner it))[k := c])" for x k
    using that assms set_update_subset_insert [of "heap s (owner it)" k c]
    by (auto simp: arrays_ok_def)
  with assms show ?thesis by (auto simp: arrays_ok_def put_elem_def)
qed

lemma elem_ok:
  assumes "arrays_ok N (heap s)" and "array_index (ti_key it) < N"
  shows "\<exists>e. elem s it = Inr e \<and> word_wf (vers e) \<and> arr_cell (heap s) (arr_loc (item_id it)) = Some e \<and>
    array_index (ti_key it) < length (heap s (owner it))"
proof -
  have "heap s (owner it) ! array_index (ti_key it) \<in> set (heap s (owner it))"
    using assms by (auto simp: arrays_ok_def)
  then have "word_wf (vers (heap s (owner it) ! array_index (ti_key it)))"
    using assms(1) unfolding arrays_ok_def by blast
  then show ?thesis
    using assms by (auto simp: elem_def arrays_ok_def Let_def arr_cell_def arr_loc_def item_id_def)
qed

lemma put_elem_heap: "put_elem it c s = s\<lparr>heap := heap (put_elem it c s)\<rparr>"
  by (simp add: put_elem_def)

lemma arr_ready_index: "arr_ready N it \<Longrightarrow> array_index (ti_key it) < N"
  by (simp add: arr_ready_def)

interpretation tarray: transactional_object "\<lambda>_. tarray" "arrays_ok N" arr_view arr_holder arr_loc
    arr_written "arr_ready N" arr_stamp arr_read_stamp for N
proof
  fix it :: "'v trans_item" and tid
  show "arr_written tid (core it) = arr_written tid it" "arr_ready N (core it) = arr_ready N it"
    "arr_read_stamp (core it) = arr_read_stamp it"
    by (simp_all add: arr_read_stamp_def arr_written_def [abs_def] arr_ready_def core_def item_ready_core [unfolded core_def])
next
  fix s :: "('v, 'v arrays) sto" and i it
  assume it: "the_item s i = Inr it" "arr_ready N it" and ok: "arrays_ok N (heap s)"
    and thr: "cur_thread s = threadid (txn s)" "cur_thread s < 128"
  let ?l = "arr_loc (item_id it)"
  from elem_ok [OF ok arr_ready_index [OF it(2)]] obtain e where e: "elem s it = Inr e" "word_wf (vers e)"
    "arr_cell (heap s) ?l = Some e" "array_index (ti_key it) < length (heap s (owner it))" by blast
  from cell_try_lock_spec [OF e(2) thr(2), of it] obtain b c where
    c: "cell_try_lock it e (cur_thread s) = Inr (b, c)" "word_wf (vers c)" "cval c = cval e"
    "unlocked (vers c) = unlocked (vers e)" "b = (word_holder (vers e) = None)"
    "if b then word_holder (vers c) = Some (cur_thread s) else c = e" by blast
  have "ob_lock tarray i s = Inr (b, s\<lparr>heap := heap (put_elem it c s)\<rparr>)"
    using it(1) e(1) c(1) thr(1) put_elem_heap [of it c s] by (simp add: tarray_def tarray_lock_def)
  then show "\<exists>b h. ob_lock tarray i s = Inr (b, s\<lparr>heap := h\<rparr>) \<and> arrays_ok N h \<and> arr_view h = arr_view (heap s) \<and>
        arr_stamp h = arr_stamp (heap s) \<and> b = (arr_holder (heap s) ?l = None) \<and> (if b then arr_holder h = (arr_holder (heap s))(?l := Some (cur_thread s))
         else arr_holder h = arr_holder (heap s))"
    using arrays_ok_put [OF ok c(2), of it] put_elem_views [OF e(4), of c] arr_cell_put [OF e(4), of c] c(3-6) e(3)
    by (intro exI [of _ b] exI [of _ "heap (put_elem it c s)"])
      (auto simp: arr_views fun_eq_iff)
next
  fix s :: "('v, 'v arrays) sto" and i it c
  show "\<exists>b. ob_check_predicate tarray i c s = Inr (b, s)"
    by (simp add: tarray_def default_check_predicate_def)
next
  fix s :: "('v, 'v arrays) sto" and i it
  assume it: "the_item s i = Inr it" "has_read it" "arr_ready N it" and ok: "arrays_ok N (heap s)"
    and thr: "cur_thread s < 128"
  let ?l = "arr_loc (item_id it)"
  from elem_ok [OF ok arr_ready_index [OF it(3)]] obtain e where e: "elem s it = Inr e" "word_wf (vers e)"
    "arr_cell (heap s) ?l = Some e" by blast
  from it obtain r where r: "ti_rdata it = Some r" "low8 r = 0"
    by (auto simp: arr_ready_def item_ready_def split: option.splits)
  from it e check_stamp [OF e(2) r(2) thr] item_check_version_spec [OF it(2) r]
  show "ob_check tarray i s = Inr (arr_stamp (heap s) ?l = arr_read_stamp it \<and>
      arr_holder (heap s) ?l \<in> {None, Some (cur_thread s)}, s)"
    by (simp add: tarray_def tarray_check_def arr_stamp_def arr_holder_def arr_read_stamp_def r)
next
  fix s :: "('v, 'v arrays) sto" and i it
  assume it: "the_item s i = Inr it" "has_write it" "arr_ready N it" and ok: "arrays_ok N (heap s)"
    and thr: "cur_thread s = threadid (txn s)" "cur_thread s < 128" and st: "txstate (txn s) = S_committing_locked" "tid_ok s"
    and h: "arr_holder (heap s) (arr_loc (item_id it)) = Some (cur_thread s)"
  let ?l = "arr_loc (item_id it)"
  from it obtain w where w: "ti_wdata it = Some w" by (auto simp: arr_ready_def item_ready_def)
  from elem_ok [OF ok arr_ready_index [OF it(3)]] obtain e where e: "elem s it = Inr e"
    "arr_cell (heap s) ?l = Some e" "array_index (ti_key it) < length (heap s (owner it))" by blast
  have "word_holder (vers e) = Some (cur_thread s)" using h e(2) by (simp add: arr_holder_def)
  from txn_set_version_unlock_spec [OF st it(1) thr(2) this] obtain v u where
    v: "txn_set_version_unlock (vers e) i 0 s = Inr (v, s\<lparr>gTID := next_gTID s,
      txn := (put_item i (clear_needs_unlock it) (txn s))\<lparr>commit_tid_field := own_commit_id s, tid_unique_field := u\<rparr>\<rparr>)"
    "word_wf v" "word_holder v = None" "unlocked v = own_commit_id s" by blast
  let ?c = "\<lparr>vers = v, cval = w\<rparr>"
  have "ob_install tarray i s = Inr (s\<lparr>heap := heap (put_elem it ?c s), gTID := next_gTID s,
      txn := (put_item i (clear_needs_unlock it) (txn s))\<lparr>commit_tid_field := own_commit_id s, tid_unique_field := u\<rparr>\<rparr>)"
    using it w e(1) v(1) by (simp add: tarray_def tarray_install_def write_value_def put_elem_def)
  then show "\<exists>h u it'. ob_install tarray i s =
          Inr (s\<lparr>heap := h, gTID := next_gTID s,
                 txn := (put_item i it' (txn s))\<lparr>commit_tid_field := own_commit_id s, tid_unique_field := u\<rparr>\<rparr>) \<and>
        arrays_ok N h \<and>
        arr_view h = (arr_view (heap s))(?l := arr_written (own_commit_id s) it (arr_view (heap s) ?l)) \<and>
        (it' = it \<and> arr_holder h = arr_holder (heap s) \<or>
         it' = clear_needs_unlock it \<and> arr_holder h = (arr_holder (heap s))(?l := None))"
    using arrays_ok_put [OF ok, of ?c it] put_elem_views [OF e(3), of ?c] v w
    by (intro exI [of _ "heap (put_elem it ?c s)"] exI [of _ u] exI [of _ "clear_needs_unlock it"]) (simp add: arr_written_def)
next
  fix s :: "('v, 'v arrays) sto" and i it
  assume it: "the_item s i = Inr it" and ok: "arrays_ok N (heap s)"
    and thr: "cur_thread s = threadid (txn s)" "cur_thread s < 128"
    and h: "arr_holder (heap s) (arr_loc (item_id it)) = Some (cur_thread s)"
  let ?l = "arr_loc (item_id it)"
  from h obtain e where e: "arr_cell (heap s) ?l = Some e" "word_holder (vers e) = Some (cur_thread s)"
    by (auto simp: arr_holder_def split: Option.bind_splits)
  then have k: "array_index (ti_key it) < length (heap s (owner it))" and el: "elem s it = Inr e"
    by (auto simp: arr_cell_def elem_def arr_loc_def item_id_def split: if_splits)
  from unlock_spec [OF thr(2) e(2)] obtain v where
    v: "unlock (vers e) (cur_thread s) = Inr v" "word_wf v" "word_holder v = None" "unlocked v = unlocked (vers e)" by blast
  let ?c = "e\<lparr>vers := v\<rparr>"
  have "ob_unlock tarray i s = Inr (s\<lparr>heap := heap (put_elem it ?c s)\<rparr>)"
    using it el v(1) put_elem_heap [of it ?c s] by (simp add: tarray_def tarray_unlock_def)
  then show "\<exists>h. ob_unlock tarray i s = Inr (s\<lparr>heap := h\<rparr>) \<and> arrays_ok N h \<and> arr_view h = arr_view (heap s) \<and>
        arr_holder h = (arr_holder (heap s))(?l := None)"
    using arrays_ok_put [OF ok, of ?c it] arr_cell_put [OF k, of ?c] v e(1)
    by (intro exI [of _ "heap (put_elem it ?c s)"]) (auto simp: arr_views fun_eq_iff)
next
  fix s :: "('v, 'v arrays) sto" and i it c
  assume "arrays_ok N (heap s)"
  then show "\<exists>h. ob_cleanup tarray i c s = Inr (s\<lparr>heap := h\<rparr>) \<and> arrays_ok N h \<and> arr_view h = arr_view (heap s) \<and>
        arr_holder h = arr_holder (heap s)"
    by (intro exI [of _ "heap s"]) (simp add: tarray_def default_cleanup_def)
qed

section \<open>Properties\<close>

text \<open>
  C1.  \<^verbatim>\<open>Transaction::try_commit\<close> on \<^verbatim>\<open>TBox\<close> objects.  A running transaction whose items are well formed
  always gets an answer; every lock is afterwards held by whoever held it before, so none is leaked,
  whether the commit succeeds, fails to lock or fails validation.  On success the written boxes, and
  no others, have the values of the write set, installed in the order of the items, and as version
  the commit id, which is the value the global counter had; the counter has moved past it; and for
  each box the transaction read, its (first) read has the version the box had when the commit began,
  and no other thread had the box locked (a transaction without writes and with opaque reads only is
  not validated by the code, and this clause leaves it out).  On failure values and versions are as they were, and there
  was a reason: a written box was locked or written twice, a predicate, or a stale read.
\<close>

theorem tbox_try_commit_atomic:
  assumes "tbox.clean s" and "commit_tid_field (txn s) = 0"
  shows "\<exists>b s'. try_commit (\<lambda>_. tbox) ser True s = Inr (b, s') \<and>
    box_holder (heap s') = box_holder (heap s) \<and>
    txstate (txn s') = (if b then S_committed else S_aborted) \<and>
    box_view (heap s') = (if b
      then fold (\<lambda>i m. m(owner (tset (txn s) ! i) := (the (ti_wdata (tset (txn s) ! i)), gTID s)))
             (filter (\<lambda>i. has_write (tset (txn s) ! i)) [0 ..< tset_size (txn s)]) (box_view (heap s))
      else box_view (heap s)) \<and>
    (b \<and> (\<exists>i < tset_size (txn s). has_write (tset (txn s) ! i)) \<longrightarrow> gTID s' = gTID s + increment_value) \<and>
    (b \<and> (any_writes (txn s) \<or> any_nonopaque (txn s)) \<longrightarrow>
      (\<forall>i < tset_size (txn s). has_read (tset (txn s) ! i) \<longrightarrow>
        (\<exists>j \<le> i. item_id (tset (txn s) ! j) = item_id (tset (txn s) ! i) \<and> has_read (tset (txn s) ! j) \<and>
          box_stamp (heap s) (owner (tset (txn s) ! j)) = the (ti_rdata (tset (txn s) ! j)) \<and>
          box_holder (heap s) (owner (tset (txn s) ! j)) \<in> {None, Some (cur_thread s)}))) \<and>
    (b \<or> (\<exists>i < tset_size (txn s).
      has_write (tset (txn s) ! i) \<and> (box_holder (heap s) (owner (tset (txn s) ! i)) \<noteq> None \<or>
        (\<exists>j < i. has_write (tset (txn s) ! j) \<and> owner (tset (txn s) ! j) = owner (tset (txn s) ! i))) \<or>
      has_predicate (tset (txn s) ! i) \<and> \<not> has_read (tset (txn s) ! i) \<or>
      has_read (tset (txn s) ! i) \<and> (box_stamp (heap s) (owner (tset (txn s) ! i)) \<noteq> the (ti_rdata (tset (txn s) ! i)) \<or>
        box_holder (heap s) (owner (tset (txn s) ! i)) \<notin> {None, Some (cur_thread s)})))"
proof -
  have ser: "tbox.ser_ok True ser s" by (simp add: tbox.ser_ok_def)
  have ids: "own_commit_id s = gTID s" "next_gTID s = gTID s + increment_value"
    using assms(2) by (simp_all add: tid_defs)
  have inst: "tbox.installed s is = fold (\<lambda>i m. m(owner (tset (txn s) ! i) := (the (ti_wdata (tset (txn s) ! i)), gTID s))) is" for "is"
    by (simp add: tbox.installed_def [abs_def] tbox.iloc_def written_def ids)
  have ne: "filter (\<lambda>i. has_write (tset (txn s) ! i)) [0 ..< tset_size (txn s)] \<noteq> [] \<longleftrightarrow>
      (\<exists>i < tset_size (txn s). has_write (tset (txn s) ! i))"
    by (auto simp: filter_empty_conv)
  have vr: "tbox.valid_read s i \<longleftrightarrow> box_stamp (heap s) (owner (tset (txn s) ! i)) = the (ti_rdata (tset (txn s) ! i)) \<and>
      box_holder (heap s) (owner (tset (txn s) ! i)) \<in> {None, Some (cur_thread s)}" for i
    by (simp add: tbox.valid_read_def tbox.iloc_def read_stamp_def)
  from tbox.try_commit_ok [OF assms(1) ser] show ?thesis
    unfolding inst tbox.write_indices_def ne vr ids tbox.commit_conflict_def tbox.lock_conflict_def
      tbox.iloc_def fst_item_id de_Morgan_conj .
qed

definition box_txn :: "nat txn" where
  "box_txn = (let t = start (initialize blank_txn) in
     case item 0x7F0010 0 t of Inr (i, t1) \<Rightarrow> (case add_write i 42 t1 of Inr t2 \<Rightarrow> t2 | Inl _ \<Rightarrow> t) | Inl _ \<Rightarrow> t)"

definition box_sto :: "(nat, nat boxes) sto" where
  "box_sto = \<lparr>txn = box_txn, cur_thread = 3, gTID = 0x2000, tsc = 77, heap = (\<lambda>_. \<lparr>vers = 0x1000, cval = 5\<rparr>)\<rparr>"

lemma start_init_commit_fields [simp]:
  "commit_tid_field (start t) = 0" "first_write (start t) = 0" "threadid (initialize t) = threadid t"
  by (simp_all add: start_def initialize_def Let_def)

lemma box_txn_facts:
  "set_inv box_txn" "tset box_txn = [(or_flags write_bit (TransItem 0x7F0010 0))\<lparr>ti_wdata := Some 42\<rparr>]"
  "threadid box_txn = 3" "txstate box_txn = S_in_progress" "first_write box_txn = 0"
  "commit_tid_field box_txn = 0"
proof -
  let ?t = "start (initialize blank_txn)"
  have v: "valid_obj 0x7F0010" by (simp add: valid_obj_def pointer_mask_def)
  have nw: "\<not> has_write (TransItem 0x7F0010 0 :: nat trans_item)" by (rule TransItem_no_flags(1) [OF v])
  have hi: "hash_inv ?t" by (rule hash_inv_first_start)
  have room: "tset_size ?t < tset_max_capacity" by (simp add: tset_max_capacity_def)
  have fi: "find_item 0x7F0010 0 ?t = Inr None" using find_item_eq [OF hi] by simp
  from allocate_item_ok [OF hi v room, of 0] obtain a ht where
    al: "allocate_item 0x7F0010 0 ?t = Inr (0, ?t\<lparr>tset := [TransItem 0x7F0010 0], tset_alloc := a, hashtable := ht\<rparr>)"
    and h1: "hash_inv (?t\<lparr>tset := [TransItem 0x7F0010 0], tset_alloc := a, hashtable := ht\<rparr>)"
    by auto
  define t1 where "t1 = ?t\<lparr>tset := [TransItem 0x7F0010 0], tset_alloc := a, hashtable := ht\<rparr>"
  have it: "item 0x7F0010 0 ?t = Inr (0, t1)" using fi al by (simp add: item_def t1_def)
  have s0: "set_inv ?t" using hi by (simp add: set_inv_def item_keys_def)
  have s1: "set_inv t1" by (rule set_inv_item [OF s0 v it])
  have "get_item t1 0 = Inr (TransItem 0x7F0010 0)"
    using h1 get_item_ok [of t1 0] by (simp add: t1_def hash_inv_def)
  then have aw: "add_write 0 42 t1 = Inr ((put_item 0 ((or_flags write_bit (TransItem 0x7F0010 0))\<lparr>ti_wdata := Some 42\<rparr>) t1)\<lparr>any_writes := True\<rparr>)"
    using nw by (simp add: add_write_def)
  have bt: "box_txn = (put_item 0 ((or_flags write_bit (TransItem 0x7F0010 0))\<lparr>ti_wdata := Some 42\<rparr>) t1)\<lparr>any_writes := True\<rparr>"
    using it aw by (simp add: box_txn_def Let_def)
  show "set_inv box_txn" using set_inv_records(8) [OF s1 aw] bt by simp
  show "tset box_txn = [(or_flags write_bit (TransItem 0x7F0010 0))\<lparr>ti_wdata := Some 42\<rparr>]"
    "threadid box_txn = 3" "txstate box_txn = S_in_progress" "first_write box_txn = 0" "commit_tid_field box_txn = 0"
    by (simp_all add: bt put_item_def t1_def blank_txn_def)
qed

lemma box_sto_clean: "tbox.clean box_sto"
proof -
  have v: "valid_obj 0x7F0010" by (simp add: valid_obj_def pointer_mask_def)
  have "\<not> has_read (TransItem 0x7F0010 0 :: nat trans_item)" "\<not> needs_unlock (TransItem 0x7F0010 0 :: nat trans_item)"
    using TransItem_no_flags [OF v] by blast+
  then have "\<not> needs_unlock ((or_flags write_bit (TransItem 0x7F0010 0 :: nat trans_item))\<lparr>ti_wdata := Some 42\<rparr>)"
    "item_ready ((or_flags write_bit (TransItem 0x7F0010 0 :: nat trans_item))\<lparr>ti_wdata := Some 42\<rparr>)"
    by (simp_all add: has_bits or_flags_def bit_or_iff item_ready_def)
  moreover have "low8 0x1000 = 0" "low8 0x2000 = 0" "low8 0 = 0" by (simp_all add: low8_def take_bit_eq_mod)
  ultimately show ?thesis
    using box_txn_facts by (simp add: tbox.clean_def box_sto_def boxes_ok_def tid_defs)
qed

theorem tbox_try_commit_atomic_witness:
  "tbox.clean box_sto \<and> (\<exists>s'. try_commit (\<lambda>_. tbox) (\<lambda>_. Inr) True box_sto = Inr (True, s') \<and>
     box_view (heap s') 0x7F0010 = (42, 0x2000) \<and> box_holder (heap s') 0x7F0010 = None \<and>
     gTID s' = 0x2000 + increment_value)"
proof -
  let ?it = "(or_flags write_bit (TransItem 0x7F0010 0 :: nat trans_item))\<lparr>ti_wdata := Some 42\<rparr>"
  have v: "valid_obj 0x7F0010" by (simp add: valid_obj_def pointer_mask_def)
  have o: "owner (TransItem 0x7F0010 0 :: nat trans_item) = 0x7F0010" using v by simp
  have fl: "\<not> has_read (TransItem 0x7F0010 0 :: nat trans_item)" "\<not> has_predicate (TransItem 0x7F0010 0 :: nat trans_item)"
    using TransItem_no_flags [OF v] by blast+
  then have f: "\<not> has_predicate ?it" by (simp add: has_bits or_flags_def bit_or_iff)
  have h: "box_holder (heap box_sto) l = None" for l
    by (simp add: box_sto_def box_holder_def word_holder_def is_locked_def lock_bit_def)
  have t: "tset (txn box_sto) = [?it]" "gTID box_sto = 0x2000" by (simp_all add: box_sto_def box_txn_facts)
  have "commit_tid_field (txn box_sto) = 0" by (simp add: box_sto_def box_txn_facts)
  from tbox_try_commit_atomic [OF box_sto_clean this, of "\<lambda>_. Inr"] obtain b s' where
    r: "try_commit (\<lambda>_. tbox) (\<lambda>_. Inr) True box_sto = Inr (b, s')" "box_holder (heap s') = box_holder (heap box_sto)"
      "box_view (heap s') = (if b then (box_view (heap box_sto))(0x7F0010 := (42, 0x2000)) else box_view (heap box_sto))"
      "b \<longrightarrow> gTID s' = 0x2000 + increment_value" and b: b
    unfolding t h by (auto simp: o fl f)
  with box_sto_clean h show ?thesis by simp
qed

definition arr_sto :: "(nat, nat arrays) sto" where
  "arr_sto = \<lparr>txn = box_txn, cur_thread = 3, gTID = 0x2000, tsc = 77,
     heap = (\<lambda>_. replicate 4 \<lparr>vers = 0x1000, cval = 5\<rparr>)\<rparr>"

lemma arr_sto_clean: "tarray.clean 4 arr_sto"
proof -
  have "array_index 0 < 4" by (simp add: array_index_def)
  moreover have "item_ready it \<and> \<not> needs_unlock it" if "it \<in> set (tset box_txn)" for it
    using box_sto_clean that by (simp add: tbox.clean_def box_sto_def)
  moreover have "low8 0x1000 = 0" "low8 0x2000 = 0" "low8 0 = 0" by (simp_all add: low8_def take_bit_eq_mod)
  ultimately show ?thesis
    using box_txn_facts by (simp add: tarray.clean_def arr_sto_def arrays_ok_def tid_defs arr_ready_def)
qed

text \<open>
  The same for \<^verbatim>\<open>TArray\<close> of \<open>N\<close> elements: the commit is atomic on the elements, no element outside
  the array is touched (the model of an access outside is an error, and there is none), and no
  element's lock is leaked.
\<close>

theorem tarray_try_commit_atomic:
  assumes "tarray.clean N s" and "commit_tid_field (txn s) = 0"
  shows "\<exists>b s'. try_commit (\<lambda>_. tarray) ser True s = Inr (b, s') \<and>
    arr_holder (heap s') = arr_holder (heap s) \<and>
    txstate (txn s') = (if b then S_committed else S_aborted) \<and>
    arr_view (heap s') = (if b
      then fold (\<lambda>i m. m((owner (tset (txn s) ! i), array_index (ti_key (tset (txn s) ! i))) :=
                (Some (the (ti_wdata (tset (txn s) ! i))), Some (gTID s))))
             (filter (\<lambda>i. has_write (tset (txn s) ! i)) [0 ..< tset_size (txn s)]) (arr_view (heap s))
      else arr_view (heap s))"
proof -
  have ser: "tarray.ser_ok N True ser s" by (simp add: tarray.ser_ok_def)
  have ids: "own_commit_id s = gTID s" using assms(2) by (simp add: tid_defs)
  have inst: "tarray.installed s is = fold (\<lambda>i m. m((owner (tset (txn s) ! i), array_index (ti_key (tset (txn s) ! i))) :=
                (Some (the (ti_wdata (tset (txn s) ! i))), Some (gTID s)))) is" for "is"
    by (simp add: tarray.installed_def [abs_def] tarray.iloc_def arr_written_def arr_loc_def item_id_def ids)
  from tarray.try_commit_ok [OF assms(1) ser] show ?thesis
    unfolding inst tarray.write_indices_def by blast
qed

theorem tarray_try_commit_atomic_witness:
  "tarray.clean 4 arr_sto \<and> (\<exists>b s'. try_commit (\<lambda>_. tarray) (\<lambda>_. Inr) True arr_sto = Inr (b, s') \<and>
     fst (arr_view (heap s') (0x7F0010, 0)) = Some (if b then 42 else 5) \<and>
     fst (arr_view (heap s') (0x7F0010, 1)) = Some 5)"
proof -
  have v: "valid_obj 0x7F0010" by (simp add: valid_obj_def pointer_mask_def)
  have o: "owner ((or_flags write_bit (TransItem 0x7F0010 0 :: nat trans_item))\<lparr>ti_wdata := Some 42\<rparr>) = 0x7F0010"
    using v by simp
  have c: "commit_tid_field (txn arr_sto) = 0" by (simp add: arr_sto_def box_txn_facts)
  have "fst (arr_view (heap arr_sto) (0x7F0010, k)) = (if k < 4 then Some 5 else None)" for k
    by (simp add: arr_sto_def arr_views arr_cell_def)
  with tarray_try_commit_atomic [OF arr_sto_clean c, of "\<lambda>_. Inr"] arr_sto_clean o show ?thesis
    by (auto simp: arr_sto_def box_txn_facts array_index_def)
qed

text \<open>
  Validation: a transaction that writes or reads without opacity does not commit when one of
  its reads is stale, that is, when the box has another version than the one read or is locked by
  another thread; it aborts and leaves every box, its version included, as it was.
\<close>

theorem tbox_stale_read_aborts:
  assumes "tbox.clean s" and "any_writes (txn s) \<or> any_nonopaque (txn s)" and "\<not> may_duplicate_items (txn s)"
    and i: "i < tset_size (txn s)" "has_read (tset (txn s) ! i)"
    and stale: "unlocked (vers (heap s (owner (tset (txn s) ! i)))) \<noteq> the (ti_rdata (tset (txn s) ! i)) \<or>
      box_holder (heap s) (owner (tset (txn s) ! i)) \<notin> {None, Some (cur_thread s)}"
  shows "\<exists>s'. try_commit (\<lambda>_. tbox) ser True s = Inr (False, s') \<and> txstate (txn s') = S_aborted \<and>
    box_view (heap s') = box_view (heap s) \<and> box_holder (heap s') = box_holder (heap s)"
proof -
  have ser: "tbox.ser_ok True ser s" by (simp add: tbox.ser_ok_def)
  have dist: "distinct (map item_id (tset (txn s)))"
    using assms(1,3) by (simp add: tbox.clean_def set_inv_def item_keys_def)
  have "\<not> tbox.valid_read s j" if "j \<le> i" "item_id (tset (txn s) ! j) = item_id (tset (txn s) ! i)" for j
  proof -
    have "j = i" using nth_eq_iff_index_eq [OF dist, of j i] that i(1) by simp
    then show ?thesis
      using stale by (auto simp: tbox.valid_read_def tbox.iloc_def box_stamp_def read_stamp_def)
  qed
  then have nv: "\<not> (\<exists>j \<le> i. item_id (tset (txn s) ! j) = item_id (tset (txn s) ! i) \<and>
      has_read (tset (txn s) ! j) \<and> tbox.valid_read s j)" by blast
  from tbox.try_commit_ok [OF assms(1) ser] obtain b s' where
    r: "try_commit (\<lambda>_. tbox) ser True s = Inr (b, s')" "box_holder (heap s') = box_holder (heap s)"
      "txstate (txn s') = (if b then S_committed else S_aborted)"
      "box_view (heap s') = (if b then tbox.installed s (tbox.write_indices s) (box_view (heap s)) else box_view (heap s))"
    and rd: "b \<longrightarrow> (\<exists>j \<le> i. item_id (tset (txn s) ! j) = item_id (tset (txn s) ! i) \<and>
      has_read (tset (txn s) ! j) \<and> tbox.valid_read s j)"
    using assms(2) i by blast
  from rd nv have "\<not> b" by blast
  with r show ?thesis by simp
qed

definition stale_txn :: "nat txn" where
  "stale_txn = (case add_read 0 0x3000 box_txn of Inr t \<Rightarrow> t | Inl _ \<Rightarrow> box_txn)"

definition stale_sto :: "(nat, nat boxes) sto" where
  "stale_sto = box_sto\<lparr>txn := stale_txn\<rparr>"

lemma stale_txn_facts:
  "set_inv stale_txn" "tset stale_txn = [(or_flags read_bit ((or_flags write_bit (TransItem 0x7F0010 0))\<lparr>ti_wdata := Some 42\<rparr>))\<lparr>ti_rdata := Some 0x3000\<rparr>]"
  "threadid stale_txn = 3" "txstate stale_txn = S_in_progress" "first_write stale_txn = 0"
  "commit_tid_field stale_txn = 0" "any_nonopaque stale_txn" "may_duplicate_items stale_txn = may_duplicate_items box_txn"
proof -
  let ?it = "(or_flags write_bit (TransItem 0x7F0010 0 :: nat trans_item))\<lparr>ti_wdata := Some 42\<rparr>"
  have v: "valid_obj 0x7F0010" by (simp add: valid_obj_def pointer_mask_def)
  have n0: "\<not> has_read (TransItem 0x7F0010 0 :: nat trans_item)" "\<not> has_stash (TransItem 0x7F0010 0 :: nat trans_item)"
    by (rule TransItem_no_flags [OF v])+
  have n: "\<not> has_read ?it" "\<not> has_stash ?it"
    using n0 by (simp_all add: has_bits or_flags_def bit_or_iff)
  have "chunks_ok box_txn" using box_txn_facts(1) by (simp add: set_inv_def hash_inv_def)
  then have "get_item box_txn 0 = Inr ?it" using get_item_ok [of box_txn 0] box_txn_facts(2) by simp
  then have ar: "add_read 0 0x3000 box_txn = Inr ((put_item 0 ((or_flags read_bit ?it)\<lparr>ti_rdata := Some 0x3000\<rparr>) box_txn)\<lparr>any_nonopaque := True\<rparr>)"
    using n by (simp add: add_read_def)
  then have eq: "stale_txn = (put_item 0 ((or_flags read_bit ?it)\<lparr>ti_rdata := Some 0x3000\<rparr>) box_txn)\<lparr>any_nonopaque := True\<rparr>"
    by (simp add: stale_txn_def)
  show "set_inv stale_txn" using set_inv_records(1) [OF box_txn_facts(1) ar] eq by simp
  show "tset stale_txn = [(or_flags read_bit ?it)\<lparr>ti_rdata := Some 0x3000\<rparr>]"
    "threadid stale_txn = 3" "txstate stale_txn = S_in_progress" "first_write stale_txn = 0"
    "commit_tid_field stale_txn = 0" "any_nonopaque stale_txn" "may_duplicate_items stale_txn = may_duplicate_items box_txn"
    using box_txn_facts by (simp_all add: eq put_item_def)
qed

lemma box_txn_no_duplicates: "\<not> may_duplicate_items box_txn"
proof -
  have "may_duplicate_items t = may_duplicate_items t'" if "allocate_item obj key t' = Inr (i, t)" for obj key i and t t' :: "nat txn"
    using that by (auto simp: allocate_item_def Let_def refresh_tset_chunk_def result_simps split: if_splits)
  moreover have "may_duplicate_items t = may_duplicate_items t'" if "add_write i w t' = Inr t" for i w and t t' :: "nat txn"
    using that by (auto simp: add_write_def put_item_def result_simps split: if_splits)
  ultimately show ?thesis
    by (auto simp: box_txn_def Let_def item_def result_simps split: sum.splits option.splits)
qed

lemma stale_sto_clean: "tbox.clean stale_sto"
proof -
  let ?it = "(or_flags read_bit ((or_flags write_bit (TransItem 0x7F0010 0 :: nat trans_item))\<lparr>ti_wdata := Some 42\<rparr>))\<lparr>ti_rdata := Some 0x3000\<rparr>"
  have v: "valid_obj 0x7F0010" by (simp add: valid_obj_def pointer_mask_def)
  have "\<not> needs_unlock (TransItem 0x7F0010 0 :: nat trans_item)" by (rule TransItem_no_flags(5) [OF v])
  then have "\<not> needs_unlock ?it" by (simp add: has_bits or_flags_def bit_or_iff)
  moreover have l: "low8 0x1000 = 0" "low8 0x2000 = 0" "low8 0x3000 = 0" "low8 0 = 0"
    by (simp_all add: low8_def take_bit_eq_mod)
  moreover have "item_ready ?it" using l by (simp add: item_ready_def)
  ultimately show ?thesis
    using stale_txn_facts by (simp add: tbox.clean_def box_sto_def stale_sto_def boxes_ok_def tid_defs)
qed

theorem tbox_stale_read_aborts_witness:
  "\<exists>s'. try_commit (\<lambda>_. tbox) (\<lambda>_. Inr) True stale_sto = Inr (False, s') \<and> fst (box_view (heap s') 0x7F0010) = 5"
proof -
  have v: "valid_obj 0x7F0010" by (simp add: valid_obj_def pointer_mask_def)
  have u: "unlocked 0x1000 \<noteq> 0x3000" by (simp add: unlocked_def lock_bit_def threadid_mask_def)
  have "\<exists>s'. try_commit (\<lambda>_. tbox) (\<lambda>_. Inr) True stale_sto = Inr (False, s') \<and> txstate (txn s') = S_aborted \<and>
    box_view (heap s') = box_view (heap stale_sto) \<and> box_holder (heap s') = box_holder (heap stale_sto)"
    by (rule tbox_stale_read_aborts [OF stale_sto_clean, where i = 0])
      (use stale_txn_facts box_txn_no_duplicates u v in \<open>simp_all add: stale_sto_def box_sto_def\<close>)
  moreover have "fst (box_view (heap stale_sto) 0x7F0010) = 5" by (simp add: stale_sto_def box_sto_def box_views)
  ultimately show ?thesis by metis
qed

end
