(* ===== verification/Log_Format.thy ===== *)
theory Log_Format
  imports Rolis_Prelude
begin

text \<open>
  The format of the replicated transaction log, as an abstract specification.  A log entry handed to
  Paxos is a sequence of transactions, each with its commit id, the number of its key-value records
  and the length of their encoding, followed by the id of the last commit.  A record has a key, a
  value and a table id whose top bit says that the key was deleted.  \<^verbatim>\<open>serialize_util\<close> writes this
  format and \<^verbatim>\<open>treplay_in_same_thread_opt_mbta_v2\<close> reads it; both theories refer to the encoding
  defined here.
\<close>

record kv =
  kv_key :: bytes
  kv_val :: bytes
  kv_table :: u16
  kv_delete :: bool

record log_txn =
  lt_cid :: u64
  lt_kvs :: "kv list"

definition delete_bit :: u16 where
  "delete_bit = push_bit 15 1"

definition enc_table :: "kv \<Rightarrow> u16" where
  "enc_table r = (if kv_delete r then kv_table r OR delete_bit else kv_table r)"

definition enc_kv :: "kv \<Rightarrow> bytes" where
  "enc_kv r = le_bytes 2 (of_nat (length (kv_key r)) :: u16) @ kv_key r @
     le_bytes 2 (of_nat (length (kv_val r)) :: u16) @ kv_val r @ le_bytes 2 (enc_table r)"

definition enc_kvs :: "kv list \<Rightarrow> bytes" where
  "enc_kvs rs = concat (map enc_kv rs)"

definition enc_txn :: "log_txn \<Rightarrow> bytes" where
  "enc_txn t = le_bytes 8 (lt_cid t) @ le_bytes 2 (of_nat (length (lt_kvs t)) :: u16) @
     le_bytes 4 (of_nat (length (enc_kvs (lt_kvs t))) :: u32) @ enc_kvs (lt_kvs t)"

definition enc_txns :: "log_txn list \<Rightarrow> bytes" where
  "enc_txns ts = concat (map enc_txn ts)"

definition enc_batch :: "log_txn list \<Rightarrow> u64 \<Rightarrow> bytes" where
  "enc_batch ts lastc = enc_txns ts @ le_bytes 8 lastc"

text \<open>What fits the widths of the format; table ids must leave the delete bit free.\<close>

definition kv_ok :: "kv \<Rightarrow> bool" where
  "kv_ok r \<longleftrightarrow> 0 < length (kv_key r) \<and> length (kv_key r) < 2 ^ 16 \<and> length (kv_val r) < 2 ^ 16 \<and>
     10000 \<le> kv_table r \<and> kv_table r \<le> 20000"

definition log_txn_ok :: "log_txn \<Rightarrow> bool" where
  "log_txn_ok t \<longleftrightarrow> (\<forall>r \<in> set (lt_kvs t). kv_ok r) \<and> length (lt_kvs t) < 2 ^ 16 \<and>
     length (enc_kvs (lt_kvs t)) < 2 ^ 32"

lemma enc_kvs_Cons [simp]: "enc_kvs (r # rs) = enc_kv r @ enc_kvs rs"
  by (simp add: enc_kvs_def)

lemma enc_kvs_Nil [simp]: "enc_kvs [] = []"
  by (simp add: enc_kvs_def)

lemma enc_kvs_append [simp]: "enc_kvs (rs @ rs') = enc_kvs rs @ enc_kvs rs'"
  by (simp add: enc_kvs_def)

lemma enc_txns_simps [simp]:
  "enc_txns [] = []" "enc_txns (t # ts) = enc_txn t @ enc_txns ts"
  "enc_txns (ts @ ts') = enc_txns ts @ enc_txns ts'"
  by (simp_all add: enc_txns_def)

lemma length_enc_kv [simp]: "length (enc_kv r) = 6 + length (kv_key r) + length (kv_val r)"
  by (simp add: enc_kv_def)

lemma length_enc_txn [simp]: "length (enc_txn t) = 14 + length (enc_kvs (lt_kvs t))"
  by (simp add: enc_txn_def)

lemma le_word_u16: "n < 2 ^ 16 \<Longrightarrow> unat (of_nat n :: u16) = n"
  by (simp add: unat_of_nat)

lemma le_word_u32: "n < 2 ^ 32 \<Longrightarrow> unat (of_nat n :: u32) = n"
  by (simp add: unat_of_nat)

lemma kv_ok_table_bit: "kv_ok r \<Longrightarrow> \<not> bit (kv_table r) 15"
proof -
  assume "kv_ok r"
  then have "unat (kv_table r) < 2 ^ 15" by (simp add: kv_ok_def word_le_nat_alt)
  then have "take_bit 15 (kv_table r) = kv_table r"
    by (simp add: word_unat_eq_iff unsigned_take_bit_eq take_bit_nat_eq_self)
  then show ?thesis by (metis bit_take_bit_iff less_irrefl)
qed

end
