(* ===== verification/Log_Serialize.thy ===== *)
theory Log_Serialize
  imports Sto_Commit Log_Format
begin

text \<open>
  Writing the log of committed transactions: the per-thread buffer \<^verbatim>\<open>StringAllocator\<close>
  (\<^verbatim>\<open>benchmarks/sto/Transaction.hh\<close>) and \<^verbatim>\<open>Transaction::serialize_util\<close> (\<^verbatim>\<open>Transaction.cc\<close>) in the
  configuration the makefile builds (\<^verbatim>\<open>BULK_POOL_LOG_SUBMIT\<close>, \<^verbatim>\<open>PAXOS_LIB_ENABLED\<close>).  Every \<^verbatim>\<open>memcpy\<close>
  of the code is a write into the buffer that fails outside of it, so the theorems also say when
  the code stays inside its allocation.  \<^verbatim>\<open>add_log_to_nc\<close>, the entry to the replication library,
  appends to the list of submitted entries.
\<close>

section \<open>StringAllocator\<close>

definition MAX_ARRAY_SIZE_IN_BYTES :: nat where
  "MAX_ARRAY_SIZE_IN_BYTES = 4098 * 3 * 4098"

text \<open>
  \<^verbatim>\<open>kSizeLimit\<close> is a static member: one value, 1000 until \<^verbatim>\<open>setSTOBatchSize\<close> changes it at start-up, which
  a buffer created later sees.  It is kept with the buffer and left arbitrary in the theorems.
\<close>

record log_buf =
  kSizeLimit :: nat
  LOG :: bytes
  entries :: nat
  curr_pos :: nat
  latest_commit_id :: u64
  submitted :: "(bytes \<times> int) list"   \<comment> \<open>what \<^verbatim>\<open>add_log_to_nc\<close> received, oldest first\<close>

definition StringAllocator :: "nat \<Rightarrow> log_buf" where
  "StringAllocator k = \<lparr>kSizeLimit = k, LOG = replicate MAX_ARRAY_SIZE_IN_BYTES 0, entries = 0, curr_pos = 0,
     latest_commit_id = 0, submitted = []\<rparr>"

definition setSTOBatchSize :: "nat \<Rightarrow> log_buf \<Rightarrow> log_buf" where
  "setSTOBatchSize k l = l\<lparr>kSizeLimit := k\<rparr>"

definition checkPushRequired :: "log_buf \<Rightarrow> bool" where
  "checkPushRequired l \<longleftrightarrow> entries l \<ge> kSizeLimit l"

definition getLogOnly :: "log_buf \<Rightarrow> bytes \<times> nat" where
  "getLogOnly l = (LOG l, curr_pos l)"

definition resetMemory :: "log_buf \<Rightarrow> log_buf" where
  "resetMemory l = l\<lparr>curr_pos := 0, entries := 0, latest_commit_id := 0\<rparr>"

definition checkLimits :: "nat \<Rightarrow> log_buf \<Rightarrow> bool" where
  "checkLimits newLogLen l \<longleftrightarrow> curr_pos l + newLogLen < MAX_ARRAY_SIZE_IN_BYTES"

definition bypass_add :: "u64 \<Rightarrow> log_buf \<Rightarrow> log_buf result" where
  "bypass_add value l =
     rbind (mem_write (LOG l) (curr_pos l) (le_bytes 8 value)) (\<lambda>b.
       Inr (l\<lparr>LOG := b, curr_pos := curr_pos l + 8\<rparr>))"

definition increment :: "log_buf \<Rightarrow> log_buf" where
  "increment l = l\<lparr>entries := entries l + 1\<rparr>"

definition update_ptr :: "nat \<Rightarrow> log_buf \<Rightarrow> log_buf" where
  "update_ptr w l = l\<lparr>entries := entries l + 1, curr_pos := w\<rparr>"

definition update_commit_id :: "u64 \<Rightarrow> log_buf \<Rightarrow> log_buf" where
  "update_commit_id nid l = l\<lparr>latest_commit_id := nid\<rparr>"

definition sa_add :: "bytes \<Rightarrow> log_buf \<Rightarrow> (bool \<times> log_buf) result" where
  "sa_add arr l =
     (if \<not> checkLimits (length arr) l then Inr (False, l)
      else rbind (mem_write (LOG l) (curr_pos l) arr) (\<lambda>b.
        Inr (True, l\<lparr>entries := entries l + 1, LOG := b, curr_pos := curr_pos l + length arr\<rparr>)))"

text \<open>\<^verbatim>\<open>~StringAllocator\<close> flushes what is left when its thread ends.\<close>

definition destroy_StringAllocator :: "int \<Rightarrow> log_buf \<Rightarrow> log_buf result" where
  "destroy_StringAllocator pid l =
     rbind (rassert (curr_pos l \<le> MAX_ARRAY_SIZE_IN_BYTES)) (\<lambda>_.
       if curr_pos l = 0 then Inr l
       else rbind (rassert (latest_commit_id l > 0)) (\<lambda>_.
            rbind (mem_write (LOG l) (curr_pos l) (le_bytes 8 (latest_commit_id l))) (\<lambda>b.
              Inr (l\<lparr>LOG := b, submitted := submitted l @ [(take (curr_pos l + 8) b, pid)]\<rparr>))))"

section \<open>serialize_util\<close>

text \<open>The memory of a node: its transactional objects and the log buffer of the running thread.\<close>

record 'o node =
  objs :: 'o
  nlog :: log_buf

definition emit :: "bytes \<Rightarrow> bytes \<times> nat \<Rightarrow> (bytes \<times> nat) result" where
  "emit bs = (\<lambda>(buf, w). rbind (mem_write buf w bs) (\<lambda>buf'. Inr (buf', w + length bs)))"

text \<open>
  One round of the loop.  \<open>stored\<close> gives the value bytes at the address in the item's key, \<open>ident\<close> the
  table id of the owning object.
\<close>

definition serialize_item ::
  "(u64 \<Rightarrow> u64) \<Rightarrow> (u64 \<Rightarrow> bytes) \<Rightarrow> bytes trans_item \<Rightarrow> bytes \<times> nat \<Rightarrow> (bytes \<times> nat) result"
where
  "serialize_item ident stored it bw =
     rbind (if hasInsertOp it then write_value it else Inr (extra it)) (\<lambda>kkx.
       let len_of_K = of_nat (length (extra it)) :: u16 in
       if len_of_K = 0 then Inl Exit_Process
       else
         rbind (emit (le_bytes 2 len_of_K) bw) (\<lambda>bw1.
         rbind (mem_read kkx 0 (unat len_of_K)) (\<lambda>k.
         rbind (emit k bw1) (\<lambda>bw2.
         let vvx = stored (ti_key it); len_of_V = of_nat (length vvx) :: u16 in
         rbind (emit (le_bytes 2 len_of_V) bw2) (\<lambda>bw3.
         rbind (mem_read vvx 0 (unat len_of_V)) (\<lambda>v.
         rbind (emit v bw3) (\<lambda>bw4.
         let table_id = ucast (ident (owner it)) :: u16;
             table_id = (if hasDeleteOp it then table_id OR push_bit 15 1 else table_id)
         in emit (le_bytes 2 table_id) bw4)))))))"

primrec serialize_items ::
  "(u64 \<Rightarrow> u64) \<Rightarrow> (u64 \<Rightarrow> bytes) \<Rightarrow> bytes trans_item list \<Rightarrow> nat \<Rightarrow> bytes \<times> nat \<Rightarrow>
   (nat \<times> bytes \<times> nat) result"
where
  "serialize_items ident stored [] wcount bw = Inr (wcount, bw)"
| "serialize_items ident stored (it # its) wcount bw =
     (if \<not> has_write it then serialize_items ident stored its wcount bw
      else rbind (serialize_item ident stored it bw) (serialize_items ident stored its (wcount + 1)))"

text \<open>The end of the function: account for the new entry and submit a full batch.\<close>

definition submit_if_full :: "u64 \<Rightarrow> int \<Rightarrow> nat \<Rightarrow> log_buf \<Rightarrow> log_buf result" where
  "submit_if_full cid pid w l =
     (let l1 = update_ptr w l; (queueLog, pos) = getLogOnly l1 in
      if \<not> checkPushRequired l1 then Inr l1
      else
        rbind (rassert (pos \<le> MAX_ARRAY_SIZE_IN_BYTES)) (\<lambda>_.
        rbind (if pos = 0 then Inr l1
               else rbind (mem_write queueLog pos (le_bytes 8 cid)) (\<lambda>b.
                 Inr ((update_ptr (pos + 8) (l1\<lparr>LOG := b\<rparr>))
                   \<lparr>submitted := submitted l1 @ [(take (pos + 8) b, pid)]\<rparr>))) (\<lambda>l2.
          Inr (resetMemory l2))))"

definition serialize_util ::
  "(u64 \<Rightarrow> u64) \<Rightarrow> ('o \<Rightarrow> u64 \<Rightarrow> bytes) \<Rightarrow> u32 \<Rightarrow> int \<Rightarrow> nat list \<Rightarrow> (bytes, 'o node) sto \<Rightarrow> (bytes, 'o node) sto result"
where
  "serialize_util ident stored epoch pid writeset s =
     (let l = nlog (heap s); nwriteset = length writeset; (array, w) = getLogOnly l in
      if nwriteset = 0 then Inr s
      else
        rbind (tid_unique s) (\<lambda>(tid, s1).
        let cid = scast epoch + tid * 1000; l1 = update_commit_id cid l in
        rbind (emit (le_bytes 8 cid) (array, w)) (\<lambda>bw1.
        rbind (emit (le_bytes 2 (of_nat nwriteset :: u16)) bw1) (\<lambda>(a2, w2).
        let w_tmp = w2 + 4 in
        rbind (serialize_items ident (stored (objs (heap s))) (tset (txn s1)) 0 (a2, w_tmp)) (\<lambda>(wcount, a3, w3).
        rbind (mem_write a3 (w_tmp - 4) (le_bytes 4 (of_nat (w3 - w_tmp) :: u32))) (\<lambda>a4.
        if wcount \<noteq> nwriteset then Inl Exit_Process
        else rbind (submit_if_full cid pid w3 (l1\<lparr>LOG := a4\<rparr>)) (\<lambda>l2.
          Inr (s1\<lparr>heap := (heap s1)\<lparr>nlog := l2\<rparr>\<rparr>))))))))"

section \<open>Copies in sequence\<close>

lemma emit_eq:
  "emit bs (buf, w) = (if w + length bs \<le> length buf
     then Inr (take w buf @ bs @ drop (w + length bs) buf, w + length bs) else Inl Out_Of_Bounds)"
  by (simp add: emit_def mem_write_def)

lemma emit_append: "rbind (emit a bw) (emit b) = emit (a @ b) bw"
  by (cases bw) (auto simp: emit_eq ac_simps)

lemma emit_append_then: "rbind (emit a bw) (\<lambda>bw'. rbind (emit b bw') f) = rbind (emit (a @ b) bw) f"
  by (cases "emit a bw") (simp_all flip: emit_append)

lemma emit_Nil: "w \<le> length buf \<Longrightarrow> emit [] (buf, w) = Inr (buf, w)"
  by (simp add: emit_eq)

lemma emit_take:
  assumes "emit bs (buf, w) = Inr (buf', w')"
  shows "w' = w + length bs" "length buf' = length buf" "take w' buf' = take w buf @ bs" "w' \<le> length buf'"
  using assms by (auto simp: emit_eq split: if_splits)

lemma mem_write_middle:
  "length mid = length new \<Longrightarrow> off = length pre \<Longrightarrow> mem_write (pre @ mid @ post) off new = Inr (pre @ new @ post)"
  by (simp add: mem_write_def)

text \<open>A header, a gap that is filled in last, and a body: the same as one copy.\<close>

lemma emit_patched:
  assumes "length gap = 4" and "body \<noteq> []"
  shows "rbind (emit hdr (buf, w)) (\<lambda>(b1, w1). rbind (emit body (b1, w1 + 4)) (\<lambda>(b2, w2).
      rbind (mem_write b2 w1 gap) (\<lambda>b3. f (b3, w2)))) = rbind (emit (hdr @ gap @ body) (buf, w)) f"
proof (cases "w + length hdr + 4 + length body \<le> length buf")
  case True
  let ?w1 = "w + length hdr"
  have len: "length body > 0" using assms(2) by simp
  let ?b1 = "take w buf @ hdr @ drop ?w1 buf"
  have "take (?w1 + 4) ?b1 = take w buf @ hdr @ take 4 (drop ?w1 buf)"
    using True by (simp add: min_def)
  moreover have "drop (?w1 + 4 + length body) ?b1 = drop (?w1 + 4 + length body) buf"
    using True by (simp add: ac_simps)
  ultimately have b2: "emit body (?b1, ?w1 + 4) = Inr (take w buf @ hdr @ take 4 (drop ?w1 buf) @ body @
      drop (?w1 + 4 + length body) buf, ?w1 + 4 + length body)"
    using True by (simp add: emit_eq)
  have l1: "length (take 4 (drop ?w1 buf)) = length gap" and l2: "?w1 = length (take w buf @ hdr)"
    using True assms(1) by auto
  have p: "mem_write (take w buf @ hdr @ take 4 (drop ?w1 buf) @ body @ drop (?w1 + 4 + length body) buf) ?w1 gap
      = Inr (take w buf @ hdr @ gap @ body @ drop (?w1 + 4 + length body) buf)"
    using mem_write_middle [OF l1 l2, of "body @ drop (?w1 + 4 + length body) buf"] by (simp only: append_assoc)
  have e1: "emit hdr (buf, w) = Inr (?b1, ?w1)" using True by (simp add: emit_eq)
  have e2: "emit (hdr @ gap @ body) (buf, w) =
      Inr (take w buf @ hdr @ gap @ body @ drop (?w1 + 4 + length body) buf, ?w1 + 4 + length body)"
    using True assms(1) by (simp add: emit_eq ac_simps)
  show ?thesis by (simp only: e1 e2 b2 p rbind_simps prod.case)
next
  case False
  then have "emit (hdr @ gap @ body) (buf, w) = Inl Out_Of_Bounds"
    using assms(1) by (simp add: emit_eq)
  with False show ?thesis
    by (simp add: emit_eq)
qed

section \<open>What one transaction writes\<close>

definition item_kv :: "(u64 \<Rightarrow> u64) \<Rightarrow> (u64 \<Rightarrow> bytes) \<Rightarrow> bytes trans_item \<Rightarrow> kv" where
  "item_kv ident stored it = \<lparr>kv_key = extra it, kv_val = stored (ti_key it),
     kv_table = ucast (ident (owner it)), kv_delete = hasDeleteOp it\<rparr>"

text \<open>
  A write item as \<^verbatim>\<open>MassTrans\<close> prepares it: the key is in \<^verbatim>\<open>extra\<close>, and for an insert also in the write
  data; key and value fit 16-bit lengths.
\<close>

definition log_item_ok :: "(u64 \<Rightarrow> u64) \<Rightarrow> (u64 \<Rightarrow> bytes) \<Rightarrow> bytes trans_item \<Rightarrow> bool" where
  "log_item_ok ident stored it \<longleftrightarrow> kv_ok (item_kv ident stored it) \<and>
     (hasInsertOp it \<longrightarrow> ti_wdata it = Some (extra it))"

definition written_items :: "'w txn \<Rightarrow> 'w trans_item list" where
  "written_items t = filter has_write (tset t)"

lemma serialize_item_eq:
  assumes ok: "log_item_ok ident stored it" and w: "has_write it"
  shows "serialize_item ident stored it bw = emit (enc_kv (item_kv ident stored it)) bw"
proof -
  let ?K = "extra it" and ?V = "stored (ti_key it)"
  have k: "0 < length ?K" "unat (of_nat (length ?K) :: u16) = length ?K"
    and v: "unat (of_nat (length ?V) :: u16) = length ?V"
    using ok le_word_u16 by (simp_all add: log_item_ok_def kv_ok_def item_kv_def)
  then have nz: "(of_nat (length ?K) :: u16) \<noteq> 0" by (metis less_irrefl unat_0)
  have kk: "(if hasInsertOp it then write_value it else Inr (extra it)) = Inr ?K"
    using ok w by (simp add: log_item_ok_def write_value_def)
  have "mem_read ?K 0 (length ?K) = Inr ?K" "mem_read ?V 0 (length ?V) = Inr ?V"
    by (simp_all add: mem_read_def)
  then have "serialize_item ident stored it bw =
      rbind (emit (le_bytes 2 (of_nat (length ?K) :: u16)) bw) (\<lambda>bw1. rbind (emit ?K bw1) (\<lambda>bw2.
      rbind (emit (le_bytes 2 (of_nat (length ?V) :: u16)) bw2) (\<lambda>bw3. rbind (emit ?V bw3)
        (emit (le_bytes 2 (enc_table (item_kv ident stored it)))))))"
    unfolding serialize_item_def kk rbind_simps Let_def k(2) v using nz
    by (simp add: enc_table_def item_kv_def delete_bit_def)
  also have "\<dots> = emit (enc_kv (item_kv ident stored it)) bw"
    unfolding emit_append emit_append_then by (simp add: enc_kv_def item_kv_def)
  finally show ?thesis .
qed

lemma serialize_items_eq:
  assumes "\<forall>it \<in> set its. has_write it \<longrightarrow> log_item_ok ident stored it"
    and "filter has_write its \<noteq> [] \<or> snd bw \<le> length (fst bw)"
  shows "serialize_items ident stored its n bw =
    rbind (emit (enc_kvs (map (item_kv ident stored) (filter has_write its))) bw)
      (\<lambda>bw'. Inr (n + length (filter has_write its), bw'))"
  using assms
proof (induction its arbitrary: n bw)
  case Nil
  then show ?case by (cases bw) (simp add: emit_Nil)
next
  case (Cons it its)
  show ?case
  proof (cases "has_write it")
    case True
    let ?e = "enc_kv (item_kv ident stored it)"
    show ?thesis
    proof (cases "emit ?e bw")
      case (Inl e)
      then have "emit (?e @ enc_kvs (map (item_kv ident stored) (filter has_write its))) bw = Inl e"
        using emit_append [of ?e bw] by simp
      with Inl True Cons.prems show ?thesis by (simp add: serialize_item_eq)
    next
      case (Inr bw')
      then have "snd bw' \<le> length (fst bw')"
        using emit_take(4) [of ?e "fst bw" "snd bw" "fst bw'" "snd bw'"] by simp
      with Inr True Cons show ?thesis
        using emit_append [of ?e bw "enc_kvs (map (item_kv ident stored) (filter has_write its))"]
        by (simp add: serialize_item_eq)
    qed
  qed (use Cons in simp)
qed

definition logged_txn ::
  "(u64 \<Rightarrow> u64) \<Rightarrow> ('o \<Rightarrow> u64 \<Rightarrow> bytes) \<Rightarrow> u32 \<Rightarrow> (bytes, 'o node) sto \<Rightarrow> log_txn"
where
  "logged_txn ident stored epoch s =
     \<lparr>lt_cid = scast epoch + (if tid_unique_field (txn s) = 0 then tsc s else tid_unique_field (txn s)) * 1000,
      lt_kvs = map (item_kv ident (stored (objs (heap s)))) (written_items (txn s))\<rparr>"

text \<open>The state of a transaction that may be logged.\<close>

definition loggable ::
  "(u64 \<Rightarrow> u64) \<Rightarrow> ('o \<Rightarrow> u64 \<Rightarrow> bytes) \<Rightarrow> nat list \<Rightarrow> (bytes, 'o node) sto \<Rightarrow> bool"
where
  "loggable ident stored ws s \<longleftrightarrow>
     txstate (txn s) \<in> {S_committing, S_committing_locked} \<and> ws \<noteq> [] \<and>
     length ws = length (written_items (txn s)) \<and> length ws < 2 ^ 16 \<and>
     (\<forall>it \<in> set (written_items (txn s)). log_item_ok ident (stored (objs (heap s))) it) \<and>
     length (enc_kvs (map (item_kv ident (stored (objs (heap s)))) (written_items (txn s)))) < 2 ^ 32"

lemma enc_kvs_not_Nil: "rs \<noteq> [] \<Longrightarrow> enc_kvs rs \<noteq> []"
  by (cases rs) (simp_all add: enc_kv_def)

lemma serialize_util_eq:
  assumes L: "loggable ident stored ws s"
  shows "\<exists>u. serialize_util ident stored epoch pid ws s =
    rbind (emit (enc_txn (logged_txn ident stored epoch s)) (LOG (nlog (heap s)), curr_pos (nlog (heap s)))) (\<lambda>(a, w).
    rbind (submit_if_full (lt_cid (logged_txn ident stored epoch s)) pid w
        ((nlog (heap s))\<lparr>latest_commit_id := lt_cid (logged_txn ident stored epoch s), LOG := a\<rparr>)) (\<lambda>l.
      Inr (s\<lparr>txn := (txn s)\<lparr>tid_unique_field := u\<rparr>, heap := (heap s)\<lparr>nlog := l\<rparr>\<rparr>)))"
proof -
  define T where "T = logged_txn ident stored epoch s"
  define u where "u = (if tid_unique_field (txn s) = 0 then tsc s else tid_unique_field (txn s))"
  define s1 where "s1 = s\<lparr>txn := (txn s)\<lparr>tid_unique_field := u\<rparr>\<rparr>"
  define l where "l = nlog (heap s)"
  let ?st = "stored (objs (heap s))"
  let ?body = "enc_kvs (map (item_kv ident ?st) (written_items (txn s)))"
  have n: "ws \<noteq> []" "length ws = length (written_items (txn s))" "length ?body < 2 ^ 32"
    "\<forall>it \<in> set (written_items (txn s)). log_item_ok ident ?st it"
    and st: "txstate (txn s) \<in> {S_committing, S_committing_locked}"
    using L unfolding loggable_def by blast+
  have cid: "lt_cid T = scast epoch + u * 1000" by (simp add: T_def logged_txn_def u_def)
  have tid: "tid_unique s = Inr (u, s1)"
    using st by (auto simp: tid_unique_def Let_def u_def s1_def)
  have wr: "filter has_write (tset (txn s)) \<noteq> []"
    using n(1,2) by (simp add: written_items_def) (metis length_0_conv)
  have its: "\<forall>it \<in> set (tset (txn s)). has_write it \<longrightarrow> log_item_ok ident ?st it"
    using n(4) by (simp add: written_items_def)
  have body: "?body \<noteq> []" using wr by (intro enc_kvs_not_Nil) (simp add: written_items_def)
  have items: "serialize_items ident ?st (tset (txn s1)) 0 bw =
      rbind (emit ?body bw) (\<lambda>bw'. Inr (length ws, bw'))" for bw
    using serialize_items_eq [OF its, of bw 0] wr n(2) by (simp add: s1_def written_items_def)
  define f where "f = (\<lambda>(a, w). rbind (submit_if_full (lt_cid T) pid w (l\<lparr>latest_commit_id := lt_cid T, LOG := a\<rparr>))
      (\<lambda>l. Inr (s1\<lparr>heap := (heap s1)\<lparr>nlog := l\<rparr>\<rparr>)))"
  let ?hdr = "le_bytes 8 (lt_cid T) @ le_bytes 2 (of_nat (length ws) :: u16)"
  let ?gap = "le_bytes 4 (of_nat (length ?body) :: u32)"
  have "serialize_util ident stored epoch pid ws s =
      rbind (emit ?hdr (LOG l, curr_pos l)) (\<lambda>(b1, w1). rbind (emit ?body (b1, w1 + 4)) (\<lambda>(b2, w2).
      rbind (mem_write b2 w1 ?gap) (\<lambda>b3. f (b3, w2))))"
  proof -
    have step: "rbind (serialize_items ident ?st (tset (txn s1)) 0 (a2, w2 + 4)) (\<lambda>(wcount, a3, w3).
        rbind (mem_write a3 (w2 + 4 - 4) (le_bytes 4 (of_nat (w3 - (w2 + 4)) :: u32))) (\<lambda>a4.
        if wcount \<noteq> length ws then Inl Exit_Process
        else rbind (submit_if_full (lt_cid T) pid w3 ((update_commit_id (lt_cid T) l)\<lparr>LOG := a4\<rparr>)) (\<lambda>l2.
          Inr (s1\<lparr>heap := (heap s1)\<lparr>nlog := l2\<rparr>\<rparr>)))) =
      rbind (emit ?body (a2, w2 + 4)) (\<lambda>(b2, w3). rbind (mem_write b2 w2 ?gap) (\<lambda>b3. f (b3, w3)))" for a2 w2
      by (simp add: items emit_eq update_commit_id_def f_def)
    show ?thesis
      using n(1) unfolding serialize_util_def Let_def getLogOnly_def l_def [symmetric] tid
      by (simp only: prod.case rbind_simps length_0_conv if_False cid [symmetric] step)
        (simp only: emit_append_then split_def)
  qed
  also have "\<dots> = rbind (emit (?hdr @ ?gap @ ?body) (LOG l, curr_pos l)) f"
    by (rule emit_patched [OF _ body]) simp
  also have "?hdr @ ?gap @ ?body = enc_txn T"
    using n(2) by (simp add: enc_txn_def T_def logged_txn_def)
  finally show ?thesis
    unfolding f_def T_def l_def s1_def by (intro exI [of _ u]) (simp add: split_def)
qed

section \<open>The buffer between submissions\<close>

definition log_inv :: "log_buf \<Rightarrow> log_txn list \<Rightarrow> bool" where
  "log_inv l ts \<longleftrightarrow> curr_pos l = length (enc_txns ts) \<and> take (curr_pos l) (LOG l) = enc_txns ts \<and>
     entries l = length ts \<and> (ts = [] \<or> length ts < kSizeLimit l) \<and> length (LOG l) = MAX_ARRAY_SIZE_IN_BYTES \<and>
     (ts \<noteq> [] \<longrightarrow> latest_commit_id l = lt_cid (last ts))"

lemma log_inv_init: "log_inv (StringAllocator k) []" "log_inv (setSTOBatchSize k' (StringAllocator k)) []"
  by (simp_all add: log_inv_def StringAllocator_def setSTOBatchSize_def)

lemma submit_if_full_ok:
  assumes inv: "log_inv l ts" and em: "emit (enc_txn t) (LOG l, curr_pos l) = Inr (a, w)"
    and room: "w + 8 \<le> MAX_ARRAY_SIZE_IN_BYTES"
  shows "\<exists>l'. submit_if_full (lt_cid t) pid w (l\<lparr>latest_commit_id := lt_cid t, LOG := a\<rparr>) = Inr l' \<and>
    kSizeLimit l' = kSizeLimit l \<and>
    (if Suc (length ts) < kSizeLimit l
     then log_inv l' (ts @ [t]) \<and> submitted l' = submitted l
     else log_inv l' [] \<and> submitted l' = submitted l @ [(enc_batch (ts @ [t]) (lt_cid t), pid)])"
proof -
  note e = emit_take [OF em]
  have wt: "take w a = enc_txns (ts @ [t])" "w = length (enc_txns (ts @ [t]))" "length a = MAX_ARRAY_SIZE_IN_BYTES"
    using e inv by (auto simp: log_inv_def)
  show ?thesis
  proof (cases "Suc (length ts) < kSizeLimit l")
    case True
    with inv wt show ?thesis
      by (simp add: submit_if_full_def Let_def update_ptr_def getLogOnly_def checkPushRequired_def log_inv_def)
  next
    case False
    have w0: "w \<noteq> 0" using wt(2) by simp
    let ?b = "take w a @ le_bytes 8 (lt_cid t) @ drop (w + 8) a"
    have mw: "mem_write a w (le_bytes 8 (lt_cid t)) = Inr ?b"
      using room wt(3) by (simp add: mem_write_def)
    have tk: "take (w + 8) ?b = enc_batch (ts @ [t]) (lt_cid t)"
      using room wt by (simp add: enc_batch_def)
    have "length ?b = MAX_ARRAY_SIZE_IN_BYTES" using room wt(3) by simp
    with False w0 mw tk inv room show ?thesis
      by (simp add: submit_if_full_def Let_def update_ptr_def getLogOnly_def checkPushRequired_def log_inv_def
          resetMemory_def)
  qed
qed

section \<open>Properties\<close>

text \<open>
  C10.  \<^verbatim>\<open>serialize_util\<close> appends exactly the encoding of the committed transaction: its commit id
  (time stamp times 1000 plus epoch) and, for every written item in order, key, value, table and
  delete mark.  Whatever batch size \<^verbatim>\<open>kSizeLimit\<close> is set, nothing is submitted while fewer are buffered;
  the transaction that fills the batch makes the whole batch, closed by its commit id, one submitted
  entry, and the buffer is empty again.
\<close>

theorem serialize_util_appends:
  assumes inv: "log_inv (nlog (heap s)) ts" and L: "loggable ident stored ws s"
    and room: "length (enc_txns ts) + length (enc_txn (logged_txn ident stored epoch s)) + 8 \<le> MAX_ARRAY_SIZE_IN_BYTES"
  shows "\<exists>s'. serialize_util ident stored epoch pid ws s = Inr s' \<and> objs (heap s') = objs (heap s) \<and>
    tset (txn s') = tset (txn s) \<and>
    (let t = logged_txn ident stored epoch s in
     kSizeLimit (nlog (heap s')) = kSizeLimit (nlog (heap s)) \<and>
     (if Suc (length ts) < kSizeLimit (nlog (heap s))
     then log_inv (nlog (heap s')) (ts @ [t]) \<and> submitted (nlog (heap s')) = submitted (nlog (heap s))
     else log_inv (nlog (heap s')) [] \<and>
       submitted (nlog (heap s')) = submitted (nlog (heap s)) @ [(enc_batch (ts @ [t]) (lt_cid t), pid)]))"
proof -
  let ?t = "logged_txn ident stored epoch s" and ?l = "nlog (heap s)"
  have fit: "curr_pos ?l + length (enc_txn ?t) \<le> length (LOG ?l)"
    using inv room by (simp add: log_inv_def)
  then obtain a where em: "emit (enc_txn ?t) (LOG ?l, curr_pos ?l) = Inr (a, curr_pos ?l + length (enc_txn ?t))"
    by (simp add: emit_eq)
  have "curr_pos ?l + length (enc_txn ?t) + 8 \<le> MAX_ARRAY_SIZE_IN_BYTES" using inv room by (simp add: log_inv_def)
  from submit_if_full_ok [OF inv em this, of pid] obtain l' where
    l': "submit_if_full (lt_cid ?t) pid (curr_pos ?l + length (enc_txn ?t)) (?l\<lparr>latest_commit_id := lt_cid ?t, LOG := a\<rparr>) = Inr l'"
    and r: "kSizeLimit l' = kSizeLimit ?l \<and> (if Suc (length ts) < kSizeLimit ?l
     then log_inv l' (ts @ [?t]) \<and> submitted l' = submitted ?l
     else log_inv l' [] \<and> submitted l' = submitted ?l @ [(enc_batch (ts @ [?t]) (lt_cid ?t), pid)])" by blast
  from serialize_util_eq [OF L, of epoch pid] obtain u where
    "serialize_util ident stored epoch pid ws s = Inr (s\<lparr>txn := (txn s)\<lparr>tid_unique_field := u\<rparr>, heap := (heap s)\<lparr>nlog := l'\<rparr>\<rparr>)"
    using em l' by auto
  with r show ?thesis by (simp add: Let_def)
qed

definition log_txn_ex :: "bytes txn" where
  "log_txn_ex = \<lparr>threadid = 3, hash_base = 0, first_write = 0, txstate = S_committing_locked, any_writes = True,
     any_nonopaque = True, may_duplicate_items = False,
     tset = [\<lparr>s_word = push_bit 63 1 OR push_bit 48 1 OR 0x7F0010, ti_key = 64, ti_rdata = None,
              ti_wdata = Some [107, 49], extra = [107, 49]\<rparr>],
     tset_alloc = [True], hashtable = [], start_tid = 0, commit_tid_field = 0x2000, tid_unique_field = 0,
     lrng_state = 0\<rparr>"

definition log_sto_ex :: "(bytes, unit node) sto" where
  "log_sto_ex = \<lparr>txn = log_txn_ex, cur_thread = 3, gTID = 0x3000, tsc = 5,
     heap = \<lparr>objs = (), nlog = StringAllocator 1000\<rparr>\<rparr>"

lemma log_sto_ex_loggable: "loggable (\<lambda>_. 10002) (\<lambda>_ _. [118]) [0] log_sto_ex"
  by (simp add: loggable_def log_sto_ex_def log_txn_ex_def written_items_def log_item_ok_def kv_ok_def item_kv_def
      has_write_def flags_def write_bit_def hasInsertOp_def has_flag_def)

theorem serialize_util_appends_witness:
  "\<exists>s'. serialize_util (\<lambda>_. 10002) (\<lambda>_ _. [118]) 1 0 [0] log_sto_ex = Inr s' \<and>
     log_inv (nlog (heap s')) [\<lparr>lt_cid = 5001, lt_kvs = [\<lparr>kv_key = [107, 49], kv_val = [118], kv_table = 10002, kv_delete = False\<rparr>]\<rparr>]"
proof -
  have t: "logged_txn (\<lambda>_. 10002) (\<lambda>_ _. [118]) 1 log_sto_ex =
    \<lparr>lt_cid = 5001, lt_kvs = [\<lparr>kv_key = [107, 49], kv_val = [118], kv_table = 10002, kv_delete = False\<rparr>]\<rparr>"
    by (simp add: logged_txn_def log_sto_ex_def log_txn_ex_def written_items_def item_kv_def
      has_write_def flags_def write_bit_def hasDeleteOp_def mdelete_bit_def user0_bit_def)
  have "log_inv (nlog (heap log_sto_ex)) []" by (simp add: log_sto_ex_def log_inv_init)
  from serialize_util_appends [OF this log_sto_ex_loggable, of 1 0]
  show ?thesis unfolding t by (auto simp: MAX_ARRAY_SIZE_IN_BYTES_def enc_kvs_def log_sto_ex_def StringAllocator_def)
qed

text \<open>
  C20.  There is no other bound than the allocation: \<^verbatim>\<open>serialize_util\<close> never asks \<^verbatim>\<open>checkLimits\<close>, so a
  transaction whose encoding does not fit behind the current position is copied past the end of the
  buffer; the assertion on the position comes after the copies.
\<close>

theorem serialize_util_overflow:
  assumes "loggable ident stored ws s"
    and "length (LOG (nlog (heap s))) < curr_pos (nlog (heap s)) + length (enc_txn (logged_txn ident stored epoch s))"
  shows "serialize_util ident stored epoch pid ws s = Inl Out_Of_Bounds"
  using serialize_util_eq [OF assms(1), of epoch pid] assms(2) by (auto simp: emit_eq)

theorem serialize_util_overflow_witness:
  "serialize_util (\<lambda>_. 10002) (\<lambda>_ _. [118]) 1 0 [0]
     (log_sto_ex\<lparr>heap := \<lparr>objs = (), nlog = (StringAllocator 1000)\<lparr>curr_pos := MAX_ARRAY_SIZE_IN_BYTES - 10\<rparr>\<rparr>\<rparr>) = Inl Out_Of_Bounds"
proof (rule serialize_util_overflow)
  show "loggable (\<lambda>_. 10002) (\<lambda>_ _. [118]) [0]
     (log_sto_ex\<lparr>heap := \<lparr>objs = (), nlog = (StringAllocator 1000)\<lparr>curr_pos := MAX_ARRAY_SIZE_IN_BYTES - 10\<rparr>\<rparr>\<rparr>)"
    using log_sto_ex_loggable by (simp add: loggable_def)
qed (simp add: StringAllocator_def MAX_ARRAY_SIZE_IN_BYTES_def)

text \<open>
  When a thread ends, \<^verbatim>\<open>~StringAllocator\<close> submits the transactions still buffered, in order and
  closed by the last commit id, so none of them is lost; an empty buffer submits nothing.
\<close>

theorem destroy_flushes_buffer:
  assumes "log_inv l ts" and "ts \<noteq> [] \<longrightarrow> lt_cid (last ts) \<noteq> 0"
    and "length (enc_txns ts) + 8 \<le> MAX_ARRAY_SIZE_IN_BYTES"
  shows "\<exists>l'. destroy_StringAllocator pid l = Inr l' \<and>
    submitted l' = submitted l @ (if ts = [] then [] else [(enc_batch ts (lt_cid (last ts)), pid)])"
proof (cases ts)
  case Nil
  with assms show ?thesis by (simp add: destroy_StringAllocator_def log_inv_def)
next
  case (Cons t ts')
  let ?c = "lt_cid (last ts)"
  have l: "curr_pos l = length (enc_txns ts)" "take (curr_pos l) (LOG l) = enc_txns ts"
    "length (LOG l) = MAX_ARRAY_SIZE_IN_BYTES" "latest_commit_id l = ?c" "ts \<noteq> []"
    using assms(1) Cons by (auto simp: log_inv_def)
  have p: "curr_pos l \<noteq> 0" using l(1) Cons by simp
  have c: "0 < ?c" using assms(2) l(5) by (simp add: word_gt_0)
  let ?b = "take (curr_pos l) (LOG l) @ le_bytes 8 ?c @ drop (curr_pos l + 8) (LOG l)"
  have "mem_write (LOG l) (curr_pos l) (le_bytes 8 ?c) = Inr ?b"
    using assms(3) l by (simp add: mem_write_def)
  moreover have "take (curr_pos l + 8) ?b = enc_batch ts ?c"
    using assms(3) l(1-3) by (simp add: enc_batch_def)
  ultimately show ?thesis
    using l p c assms(3) by (simp add: destroy_StringAllocator_def)
qed

definition one_txn_buf :: "log_txn \<Rightarrow> log_buf" where
  "one_txn_buf t = \<lparr>kSizeLimit = 1000, LOG = enc_txn t @ replicate (MAX_ARRAY_SIZE_IN_BYTES - length (enc_txn t)) 0, entries = 1,
     curr_pos = length (enc_txn t), latest_commit_id = lt_cid t, submitted = []\<rparr>"

theorem destroy_flushes_buffer_witness:
  "\<exists>l'. destroy_StringAllocator 2 (one_txn_buf \<lparr>lt_cid = 5001, lt_kvs = []\<rparr>) = Inr l' \<and>
     submitted l' = [(enc_batch [\<lparr>lt_cid = 5001, lt_kvs = []\<rparr>] 5001, 2)]"
proof -
  have "log_inv (one_txn_buf \<lparr>lt_cid = 5001, lt_kvs = []\<rparr>) [\<lparr>lt_cid = 5001, lt_kvs = []\<rparr>]"
    by (simp add: log_inv_def one_txn_buf_def MAX_ARRAY_SIZE_IN_BYTES_def)
  from destroy_flushes_buffer [OF this, of 2] show ?thesis
    by (simp add: one_txn_buf_def MAX_ARRAY_SIZE_IN_BYTES_def)
qed

end
