(* ===== verification/Stuffed_Str.thy ===== *)
theory Stuffed_Str
  imports Rolis_Prelude
begin

text \<open>
  The cells that hold the values of a table, \<^verbatim>\<open>stuffed_str\<close> (\<^verbatim>\<open>benchmarks/sto/stuffed_str.hh\<close>) as
  \<^verbatim>\<open>versioned_str\<close> uses it: a version word, the bytes of the value and the capacity the cell was
  allocated with.  Capacities are rounded up by \<^verbatim>\<open>pad\<close>; the lemmas are what the callers need of it:
  the allocation is large enough, and it grows with the length asked for.
\<close>

record velem =
  ve_version :: u64    \<comment> \<open>\<^verbatim>\<open>stuff_\<close>\<close>
  ve_capacity :: u32   \<comment> \<open>\<^verbatim>\<open>capacity_\<close>\<close>
  ve_value :: bytes    \<comment> \<open>\<^verbatim>\<open>buf_\<close>, \<^verbatim>\<open>size_\<close> bytes of it\<close>

text \<open>\<^verbatim>\<open>sizeof(stuffed_str)\<close>: the version word and two 32-bit fields.\<close>

definition sizeof_stuffed_str :: u32 where
  "sizeof_stuffed_str = 16"

definition pad :: "u32 \<Rightarrow> u32" where
  "pad v =
     (if v \<le> 512 then (v + 15) AND NOT 15
      else
        let v = v - 1; v = v OR drop_bit 1 v; v = v OR drop_bit 2 v; v = v OR drop_bit 4 v;
            v = v OR drop_bit 8 v; v = v OR drop_bit 16 v
        in v + 1)"

definition size_for :: "u32 \<Rightarrow> u32" where
  "size_for len = pad (len + sizeof_stuffed_str)"

definition stuffed_make :: "bytes \<Rightarrow> u32 \<Rightarrow> u64 \<Rightarrow> velem result" where
  "stuffed_make str capacity val =
     rbind (rassert (sint (size_for (of_nat (length str))) \<le> sint capacity)) (\<lambda>_.
       Inr \<lparr>ve_version = val, ve_capacity = capacity - sizeof_stuffed_str, ve_value = str\<rparr>)"

definition stuffed_make_str :: "bytes \<Rightarrow> u64 \<Rightarrow> velem result" where
  "stuffed_make_str s val = stuffed_make s (size_for (of_nat (length s))) val"

definition needs_resize :: "velem \<Rightarrow> u32 \<Rightarrow> bool" where
  "needs_resize e len \<longleftrightarrow> sint len > sint (ve_capacity e)"

definition reserve :: "velem \<Rightarrow> u32 \<Rightarrow> velem result" where
  "reserve e len =
     (if \<not> needs_resize e len then Inr e else stuffed_make (ve_value e) len (ve_version e))"

text \<open>\<^verbatim>\<open>replace\<close>; the flag says whether the result is the cell itself.\<close>

definition stuffed_replace :: "velem \<Rightarrow> bytes \<Rightarrow> (bool \<times> velem) result" where
  "stuffed_replace e str =
     (if \<not> needs_resize e (of_nat (length str)) then Inr (True, e\<lparr>ve_value := str\<rparr>)
      else rbind (stuffed_make str (size_for (of_nat (length str))) (ve_version e)) (\<lambda>n. Inr (False, n)))"

section \<open>Rounding up\<close>

definition smear :: "u32 \<Rightarrow> u32" where
  "smear v =
     (let v = v OR drop_bit 1 v; v = v OR drop_bit 2 v; v = v OR drop_bit 4 v; v = v OR drop_bit 8 v
      in v OR drop_bit 16 v)"

lemma pad_smear: "pad v = (if v \<le> 512 then (v + 15) AND NOT 15 else smear (v - 1) + 1)"
  by (simp add: pad_def smear_def Let_def)

lemma smear_step:
  fixes w :: u32
  assumes "\<And>i. bit w i \<longleftrightarrow> (\<exists>d < m. bit v (i + d))"
  shows "bit (w OR drop_bit m w) i \<longleftrightarrow> (\<exists>d < 2 * m. bit v (i + d))"
proof
  assume "bit (w OR drop_bit m w) i"
  then consider "bit w i" | "bit w (m + i)" by (auto simp: bit_or_iff bit_drop_bit_eq)
  then show "\<exists>d < 2 * m. bit v (i + d)"
  proof cases
    case 1
    then obtain d where "d < m" "bit v (i + d)" using assms by blast
    then show ?thesis by (intro exI [of _ d]) simp
  next
    case 2
    then obtain d where "d < m" "bit v (m + i + d)" using assms by blast
    then show ?thesis by (intro exI [of _ "m + d"]) (simp add: ac_simps)
  qed
next
  assume "\<exists>d < 2 * m. bit v (i + d)"
  then obtain d where d: "d < 2 * m" "bit v (i + d)" by blast
  show "bit (w OR drop_bit m w) i"
  proof (cases "d < m")
    case True
    with d assms show ?thesis by (auto simp: bit_or_iff)
  next
    case False
    then have "d - m < m" "bit v (m + i + (d - m))" using d by (simp_all add: ac_simps)
    then have "bit w (m + i)" using assms by blast
    then show ?thesis by (auto simp: bit_or_iff bit_drop_bit_eq)
  qed
qed

lemma bit_smear: "bit (smear v) i \<longleftrightarrow> (\<exists>d < 32. bit v (i + d))"
proof -
  let ?w1 = "v OR drop_bit 1 v" let ?w2 = "?w1 OR drop_bit 2 ?w1" let ?w3 = "?w2 OR drop_bit 4 ?w2"
  let ?w4 = "?w3 OR drop_bit 8 ?w3"
  have 0: "bit v i \<longleftrightarrow> (\<exists>d < 1. bit v (i + d))" for i by simp
  note 1 = smear_step [OF 0, simplified]
  note 2 = smear_step [OF 1, simplified]
  note 3 = smear_step [OF 2, simplified]
  note 4 = smear_step [OF 3, simplified]
  note 5 = smear_step [OF 4, simplified]
  show ?thesis using 5 [of i] by (simp add: smear_def Let_def)
qed

lemma bit_smear_iff: "bit (smear v) i \<longleftrightarrow> 2 ^ i \<le> unat v"
proof
  assume "bit (smear v) i"
  then obtain d where "bit v (i + d)" using bit_smear by blast
  then have "bit (unat v) (i + d)" by (simp add: bit_unsigned_iff bit_imp_le_length)
  then have "2 ^ (i + d) \<le> unat v" by (metis bit_nat_def div_less even_zero not_less)
  then show "2 ^ i \<le> unat v" by (meson le_add1 one_le_numeral order_trans power_increasing)
next
  assume a: "2 ^ i \<le> unat v"
  show "bit (smear v) i"
  proof (rule ccontr)
    assume "\<not> bit (smear v) i"
    then have n: "\<not> bit v (i + d)" if "d < 32" for d using that bit_smear by blast
    have "\<not> bit (take_bit i v) j = (\<not> bit v j)" for j
    proof (cases "j < i")
      case False
      then obtain d where "j = i + d" by (meson le_Suc_ex not_less)
      with n [of d] bit_imp_le_length [of v j] show ?thesis by (auto simp: bit_take_bit_iff)
    qed (simp add: bit_take_bit_iff)
    then have "take_bit i v = v" by (intro bit_word_eqI) blast
    then have "unat (take_bit i v) = unat v" by simp
    then have "unat v < 2 ^ i" by (metis take_bit_nat_less_exp unsigned_take_bit_eq)
    with a show False by simp
  qed
qed

lemma bits_subset_le:
  assumes "\<And>i. bit (a :: u32) i \<Longrightarrow> bit b i"
  shows "a \<le> b"
proof -
  have "a AND b = a" using assms by (intro bit_word_eqI) (auto simp: bit_and_iff)
  then show ?thesis by (metis word_and_le1)
qed

lemma smear_mono: "u \<le> v \<Longrightarrow> smear u \<le> smear v"
  by (rule bits_subset_le) (auto simp: bit_smear_iff word_le_nat_alt)

lemma smear_ge: "v \<le> smear v"
proof (rule bits_subset_le)
  fix i assume "bit v i"
  then show "bit (smear v) i" using bit_smear [of v i] by (intro iffD2 [OF bit_smear] exI [of _ 0]) simp
qed

lemma smear_less: "unat v < 2 ^ n \<Longrightarrow> unat (smear v) < 2 ^ n"
proof -
  assume a: "unat v < 2 ^ n"
  have "take_bit n (smear v) = smear v"
  proof (rule bit_word_eqI)
    fix i
    have "i < n" if "bit (smear v) i"
    proof -
      have "(2 :: nat) ^ i < 2 ^ n" using that a unfolding bit_smear_iff by (rule le_less_trans)
      then show ?thesis by simp
    qed
    then show "bit (take_bit n (smear v)) i = bit (smear v) i" by (auto simp: bit_take_bit_iff)
  qed
  then have "unat (take_bit n (smear v)) = unat (smear v)" by simp
  then show ?thesis by (metis take_bit_nat_less_exp unsigned_take_bit_eq)
qed

lemma round_16: "unat v \<le> 512 \<Longrightarrow> unat ((v + 15) AND NOT 15 :: u32) = 16 * ((unat v + 15) div 16)"
proof -
  assume a: "unat v \<le> 512"
  have m: "x AND NOT (mask 4) = push_bit 4 (drop_bit 4 x)" for x :: u32
    by (rule bit_word_eqI)
      (auto simp: bit_and_iff bit_not_iff bit_mask_iff bit_push_bit_iff bit_drop_bit_eq possible_bit_def)
  have "(15 :: u32) = mask 4" by (simp add: mask_eq_exp_minus_1)
  then have "(v + 15) AND NOT 15 = push_bit 4 (drop_bit 4 (v + 15))" using m [of "v + 15"] by metis
  moreover have "unat (v + 15) = unat v + 15" using a by (simp add: unat_word_ariths)
  ultimately have "unat ((v + 15) AND NOT 15) = take_bit 32 (push_bit 4 (drop_bit 4 (unat v + 15)))"
    using a by (simp add: unsigned_push_bit_eq unsigned_drop_bit_eq take_bit_eq_mod [of 32 "unat v + 15"])
  also have "\<dots> = 16 * ((unat v + 15) div 16)"
    using a by (simp add: push_bit_eq_mult drop_bit_eq_div take_bit_eq_mod)
  finally show ?thesis .
qed

lemma pad_large: "512 < v \<Longrightarrow> unat v \<le> 2 ^ 30 \<Longrightarrow> unat (pad v) = unat (smear (v - 1)) + 1"
proof -
  assume a: "512 < v" "unat v \<le> 2 ^ 30"
  then have "unat (v - 1) = unat v - 1" by (intro unat_minus_one) auto
  with a have "unat (v - 1) < 2 ^ 30" by (auto simp: word_less_nat_alt)
  moreover have "\<not> v \<le> 512" using a(1) by (simp add: not_le)
  ultimately show ?thesis using smear_less [of "v - 1" 30] by (simp add: pad_smear unat_word_ariths)
qed

lemma pad_ge: "unat v \<le> 2 ^ 30 \<Longrightarrow> unat v \<le> unat (pad v)"
proof (cases "v \<le> 512")
  case True
  then have "unat v \<le> 512" by (simp add: word_le_nat_alt)
  with round_16 True show ?thesis by (simp add: pad_smear)
next
  case False
  then have v: "512 < v" by simp
  assume "unat v \<le> 2 ^ 30"
  moreover have "unat (v - 1) = unat v - 1" using v by (intro unat_minus_one) auto
  moreover have "unat (v - 1) \<le> unat (smear (v - 1))" using smear_ge by (simp add: word_le_nat_alt [symmetric])
  ultimately show ?thesis using pad_large [OF v] by simp
qed

lemma pad_mono: "u \<le> v \<Longrightarrow> unat v \<le> 2 ^ 30 \<Longrightarrow> unat (pad u) \<le> unat (pad v)"
proof (cases "v \<le> 512")
  case True
  assume "u \<le> v"
  with True have "unat u \<le> unat v" "unat v \<le> 512" by (simp_all add: word_le_nat_alt)
  moreover have "u \<le> 512" using True \<open>u \<le> v\<close> by (rule order_trans [rotated])
  ultimately show ?thesis using True round_16 [of u] round_16 [of v] by (simp add: pad_smear div_le_mono)
next
  case False
  then have v: "512 < v" by simp
  assume uv: "u \<le> v" and b: "unat v \<le> 2 ^ 30"
  show ?thesis
  proof (cases "u \<le> 512")
    case True
    then have "unat u \<le> 512" by (simp add: word_le_nat_alt)
    then have "unat (pad u) \<le> 512" using True round_16 [of u] by (simp add: pad_smear)
    moreover have "512 < unat v" using v by (simp add: word_less_nat_alt)
    ultimately show ?thesis using pad_ge [OF b] by simp
  next
    case u: False
    have "u \<noteq> 0" "v \<noteq> 0" using u v by auto
    from this [THEN unat_minus_one] have "u - 1 \<le> v - 1" using uv by (simp add: word_le_nat_alt)
    from smear_mono [OF this] have "unat (smear (u - 1)) \<le> unat (smear (v - 1))" by (simp add: word_le_nat_alt)
    moreover have "unat u \<le> 2 ^ 30" using uv b by (simp add: word_le_nat_alt)
    ultimately show ?thesis using pad_large [of u] pad_large [OF v b] u by simp
  qed
qed

lemma pad_le: "unat v \<le> 2 ^ n \<Longrightarrow> 9 \<le> n \<Longrightarrow> n \<le> 30 \<Longrightarrow> unat (pad v) \<le> 2 ^ n"
proof (cases "v \<le> 512")
  case True
  assume n: "9 \<le> n"
  from True have "unat v \<le> 512" by (simp add: word_le_nat_alt)
  then have "unat (pad v) \<le> 2 ^ 9" using True round_16 [of v] by (simp add: pad_smear)
  also have "(2 :: nat) ^ 9 \<le> 2 ^ n" using n by (intro power_increasing) simp_all
  finally show ?thesis .
next
  case False
  then have v: "512 < v" by simp
  assume b: "unat v \<le> 2 ^ n" and n: "n \<le> 30"
  have "(2 :: nat) ^ n \<le> 2 ^ 30" using n by (intro power_increasing) simp_all
  with b have "unat v \<le> 2 ^ 30" by simp
  moreover have "unat (v - 1) = unat v - 1" using v by (intro unat_minus_one) auto
  with b v have "unat (v - 1) < 2 ^ n" by (auto simp: word_less_nat_alt)
  ultimately show ?thesis using pad_large [OF v] smear_less [of "v - 1" n] by simp
qed

section \<open>Cells for values of bounded length\<close>

abbreviation blen :: "bytes \<Rightarrow> u32" where
  "blen v \<equiv> of_nat (length v)"

text \<open>The capacity of the cell that is allocated for a value.\<close>

definition capacity_for :: "bytes \<Rightarrow> u32" where
  "capacity_for v = size_for (blen v) - sizeof_stuffed_str"

definition short_value :: "bytes \<Rightarrow> bool" where
  "short_value v \<longleftrightarrow> length v \<le> 2 ^ 16 + 7"

lemma unat_blen: "short_value v \<Longrightarrow> unat (blen v) = length v"
  by (simp add: short_value_def unat_of_nat)

lemma sint_small: "unat (w :: u32) \<le> 2 ^ 18 \<Longrightarrow> sint w = int (unat w)"
proof -
  assume a: "unat w \<le> 2 ^ 18"
  then have "int (unat w) \<le> int (2 ^ 18)" by (simp only: of_nat_le_iff)
  then have "uint w \<le> 262144" by simp
  then have "uint w < 2 ^ 31" by (rule le_less_trans) simp
  moreover have "- (2 ^ 31) \<le> uint w" by (rule order_trans [of _ 0]) simp_all
  moreover have "sint w = signed_take_bit 31 (uint w)" by (simp add: sint_uint)
  ultimately have "sint w = uint w" by (simp only: signed_take_bit_int_eq_self)
  then show ?thesis by simp
qed

lemma sint_compare:
  assumes "unat (a :: u32) \<le> 2 ^ 18" and "unat (b :: u32) \<le> 2 ^ 18"
  shows "sint a < sint b \<longleftrightarrow> unat a < unat b" "sint a \<le> sint b \<longleftrightarrow> unat a \<le> unat b"
  unfolding sint_small [OF assms(1)] sint_small [OF assms(2)] by (rule of_nat_less_iff of_nat_le_iff)+

lemma size_for_bounds:
  assumes "short_value v"
  shows "length v + 16 \<le> unat (size_for (blen v))" "unat (size_for (blen v)) \<le> 2 ^ 17"
proof -
  have u: "unat (blen v + 16) = length v + 16"
    using assms unat_blen [OF assms] by (simp add: unat_word_ariths short_value_def)
  have "unat (blen v + 16) \<le> 2 ^ 17" unfolding u using assms by (simp add: short_value_def)
  from pad_ge [of "blen v + 16"] pad_le [OF this] this u
  show "length v + 16 \<le> unat (size_for (blen v))" "unat (size_for (blen v)) \<le> 2 ^ 17"
    by (simp_all add: size_for_def sizeof_stuffed_str_def)
qed

lemma size_for_mono:
  assumes "length v \<le> length w" and "short_value w"
  shows "unat (size_for (blen v)) \<le> unat (size_for (blen w))"
proof -
  have v: "short_value v" using assms by (simp add: short_value_def)
  have u: "unat (blen x + 16) = length x + 16" if "short_value x" for x
    using that unat_blen [OF that] by (simp add: unat_word_ariths short_value_def)
  have "blen v + 16 \<le> blen w + 16" using u [OF v] u [OF assms(2)] assms(1) by (simp add: word_le_nat_alt)
  moreover have "unat (blen w + 16) \<le> 2 ^ 30" using u [OF assms(2)] assms(2) by (simp add: short_value_def)
  ultimately show ?thesis using pad_mono by (simp add: size_for_def sizeof_stuffed_str_def)
qed

lemma capacity_for_bounds:
  assumes "short_value v"
  shows "length v \<le> unat (capacity_for v)" "unat (capacity_for v) \<le> 2 ^ 17"
proof -
  note b = size_for_bounds [OF assms]
  have "(16 :: u32) \<le> size_for (blen v)" using b by (simp add: word_le_nat_alt)
  then have "unat (capacity_for v) = unat (size_for (blen v)) - 16"
    by (simp add: capacity_for_def sizeof_stuffed_str_def unat_sub)
  with b show "length v \<le> unat (capacity_for v)" "unat (capacity_for v) \<le> 2 ^ 17" by simp_all
qed

definition cell_ok :: "velem \<Rightarrow> bool" where
  "cell_ok e \<longleftrightarrow> length (ve_value e) \<le> unat (ve_capacity e) \<and> unat (ve_capacity e) \<le> 2 ^ 17"

lemma needs_resize_iff:
  assumes "cell_ok e" and "short_value v"
  shows "needs_resize e (blen v) \<longleftrightarrow> unat (ve_capacity e) < length v"
  using assms unat_blen [OF assms(2)] sint_compare(1) [of "ve_capacity e" "blen v"]
  by (simp add: needs_resize_def cell_ok_def short_value_def)

lemma make_str_ok:
  "short_value v \<Longrightarrow> stuffed_make_str v x = Inr \<lparr>ve_version = x, ve_capacity = capacity_for v, ve_value = v\<rparr>"
  by (simp add: stuffed_make_str_def stuffed_make_def capacity_for_def)

lemma reserve_ok:
  assumes e: "cell_ok e" and v: "short_value v" and r: "unat (ve_capacity e) < length v"
  shows "needs_resize e (size_for (blen v))"
    and "reserve e (size_for (blen v)) = Inr (e\<lparr>ve_capacity := capacity_for v\<rparr>)"
proof -
  note b = size_for_bounds [OF v]
  show n: "needs_resize e (size_for (blen v))"
    using e b r sint_compare(1) [of "ve_capacity e" "size_for (blen v)"]
    by (simp add: needs_resize_def cell_ok_def)
  have le: "length (ve_value e) \<le> length v" using e r by (simp add: cell_ok_def)
  have "unat (size_for (blen (ve_value e))) \<le> unat (size_for (blen v))" by (rule size_for_mono [OF le v])
  with b have "sint (size_for (blen (ve_value e))) \<le> sint (size_for (blen v))"
    using sint_compare(2) [of "size_for (blen (ve_value e))" "size_for (blen v)"] by simp
  with n show "reserve e (size_for (blen v)) = Inr (e\<lparr>ve_capacity := capacity_for v\<rparr>)"
    by (simp add: reserve_def stuffed_make_def capacity_for_def)
qed

lemma replace_ok:
  assumes "cell_ok e" and "short_value v" and "length v \<le> unat (ve_capacity e)"
  shows "stuffed_replace e v = Inr (True, e\<lparr>ve_value := v\<rparr>)"
  using needs_resize_iff [OF assms(1,2)] assms(3) by (simp add: stuffed_replace_def)

end
