(* ===== verification/Mass_Trans.thy ===== *)
theory Mass_Trans
  imports Stuffed_Str Transaction_Tid
begin

text \<open>
  The put of the replay on a table, \<^verbatim>\<open>MassTrans::trans_write_mbta\<close> (\<^verbatim>\<open>benchmarks/sto/MassTrans.hh\<close>), run as
  a transaction of its own and committed with \<^verbatim>\<open>try_commit_no_paxos\<close>.  A table maps a key to the cell
  the tree holds for it.  The version word of a cell is kept in full: the lock byte, the invalid flag
  (\<^verbatim>\<open>user_bit\<close>) and the count.  One thread (\<open>here\<close>) runs the transaction; nobody else uses the table in
  the meantime.

  The lemmas give the effect of the put in each case.  A newer value that does not fit the cell is
  the interesting one: \<^verbatim>\<open>reallyHandlePutFound\<close> marks the cell that the transaction has just observed
  as invalid, so that the validation of this very transaction fails and the value is not stored; the
  tree keeps a larger cell with the old value.
\<close>

type_synonym db_key = "u16 \<times> bytes"
type_synonym db = "db_key \<rightharpoonup> velem"

definition invalid_bit :: u64 where
  "invalid_bit = user_bit"

text \<open>
  The flag is \<^verbatim>\<open>has_insert\<close> of the item; a transaction that has just started has no item for the cell
  yet, so below it is False.
\<close>

definition validityCheck :: "bool \<Rightarrow> velem \<Rightarrow> bool" where
  "validityCheck has_insert e \<longleftrightarrow> ve_version e AND invalid_bit = 0 \<or> has_insert"

definition needsResize :: "velem \<Rightarrow> bytes \<Rightarrow> bool" where
  "needsResize e v \<longleftrightarrow> needs_resize e (of_nat (length v))"

definition resizeIfNeeded :: "velem \<Rightarrow> bytes \<Rightarrow> velem result" where
  "resizeIfNeeded e v = reserve e (size_for (of_nat (length v)))"

definition set_value :: "velem \<Rightarrow> bytes \<Rightarrow> velem result" where
  "set_value e v = rbind (stuffed_replace e v) (\<lambda>(same, ret). rbind (rassert same) (\<lambda>_. Inr ret))"

text \<open>\<^verbatim>\<open>lock(e)\<close> waits while the cell is locked.\<close>

definition lock_elem :: "u64 \<Rightarrow> velem \<Rightarrow> velem result" where
  "lock_elem here e =
     (case try_lock (ve_version e) here of
        (True, v) \<Rightarrow> Inr (e\<lparr>ve_version := v\<rparr>)
      | (False, _) \<Rightarrow> Inl Spins)"

definition unlock_elem :: "u64 \<Rightarrow> velem \<Rightarrow> velem result" where
  "unlock_elem here e = rbind (unlock (ve_version e) here) (\<lambda>v. Inr (e\<lparr>ve_version := v\<rparr>))"

text \<open>
  \<^verbatim>\<open>reallyHandlePutFound\<close>: the cell that was found and the one that the write goes to, which the tree
  now holds.
\<close>

definition reallyHandlePutFound :: "u64 \<Rightarrow> velem \<Rightarrow> bytes \<Rightarrow> (velem \<times> velem) result" where
  "reallyHandlePutFound here e value =
     (if needsResize e value then
        rbind (lock_elem here e) (\<lambda>e.
        if ve_version e AND invalid_bit \<noteq> 0
        then rbind (unlock_elem here e) (\<lambda>_. Inl Txn_Abort)
        else
          rbind (unlock_elem here (e\<lparr>ve_version := ve_version e OR invalid_bit\<rparr>)) (\<lambda>e.
          rbind (resizeIfNeeded e value) (\<lambda>new_location.
          rbind (rassert (needs_resize e (size_for (of_nat (length value))))) (\<lambda>_.
            Inr (e, new_location\<lparr>ve_version := ve_version new_location AND NOT invalid_bit\<rparr>)))))
      else Inr (e, e))"

text \<open>\<^verbatim>\<open>handlePutFound\<close>; the first component is the version that \<^verbatim>\<open>observe\<close> puts into the read item.\<close>

definition handlePutFound :: "u64 \<Rightarrow> velem \<Rightarrow> bytes \<Rightarrow> (u64 \<times> velem \<times> velem) result" where
  "handlePutFound here e value =
     (if \<not> validityCheck False e then Inl Txn_Abort
      else if is_locked_elsewhere (ve_version e) here then Inl Txn_Abort
      else rbind (reallyHandlePutFound here e value) (\<lambda>(e', n). Inr (ve_version e, e', n)))"

definition elem_check :: "u64 \<Rightarrow> velem \<Rightarrow> u64 \<Rightarrow> bool result" where
  "elem_check here e read_version =
     (if \<not> validityCheck False e then Inr False else check_version (ve_version e) read_version here here)"

definition elem_install :: "u64 \<Rightarrow> velem \<Rightarrow> bytes \<Rightarrow> velem result" where
  "elem_install here e value =
     rbind (rassert (is_locked (ve_version e))) (\<lambda>_.
     rbind (set_value e value) (\<lambda>e.
     rbind (inc_nonopaque_version (ve_version e) here) (\<lambda>v. Inr (e\<lparr>ve_version := v\<rparr>))))"

text \<open>
  The commit of the transaction: lock the cell that is written, check the cell that was observed
  (the same one unless it was resized), install and unlock.  The result is the verdict and the cell
  in the tree.
\<close>

definition commit_found :: "u64 \<Rightarrow> bytes \<Rightarrow> bool \<Rightarrow> u64 \<times> velem \<times> velem \<Rightarrow> (bool \<times> velem) result" where
  "commit_found here value resized = (\<lambda>(v, e, n).
     case try_lock (ve_version n) here of
       (False, _) \<Rightarrow> Inr (False, n)
     | (True, vl) \<Rightarrow>
         let n = n\<lparr>ve_version := vl\<rparr> in
         rbind (elem_check here (if resized then e else n) v) (\<lambda>ok.
           if \<not> ok then rbind (unlock_elem here n) (\<lambda>n. Inr (False, n))
           else rbind (elem_install here n value) (\<lambda>n.
                rbind (unlock_elem here n) (\<lambda>n. Inr (True, n)))))"

text \<open>
  A new key: the cell enters the tree marked invalid; the commit locks it, the installation of an
  inserted item removes the mark, and \<^verbatim>\<open>unlock\<close> releases it.  A failed commit takes the key out again.
\<close>

definition commit_insert :: "u64 \<Rightarrow> velem \<Rightarrow> (bool \<times> velem option) result" where
  "commit_insert here val =
     (case try_lock (ve_version val) here of
        (False, _) \<Rightarrow> Inr (False, None)
      | (True, vl) \<Rightarrow> rbind (unlock_elem here (val\<lparr>ve_version := vl AND NOT invalid_bit\<rparr>)) (\<lambda>e. Inr (True, Some e)))"

definition trans_write_mbta ::
  "(bytes \<Rightarrow> bytes \<Rightarrow> bool result) \<Rightarrow> u64 \<Rightarrow> db_key \<Rightarrow> bytes \<Rightarrow> db \<Rightarrow> (bool \<times> db) result"
where
  "trans_write_mbta compar here k value d =
     (case d k of
        Some e \<Rightarrow>
          rbind (compar value (ve_value e)) (\<lambda>newer.
          if \<not> newer then Inr (True, d)
          else rbind (handlePutFound here e value) (\<lambda>(v, e', n).
               rbind (commit_found here value (needsResize e value) (v, e', n)) (\<lambda>(ok, n').
                 Inr (ok, d(k \<mapsto> n')))))
      | None \<Rightarrow>
          rbind (stuffed_make_str value invalid_bit) (\<lambda>val.
          rbind (commit_insert here val) (\<lambda>(ok, e). Inr (ok, d(k := e)))))"

section \<open>Version words at rest\<close>

lemma bit_user_bit [simp, tid_bits]: "bit user_bit n \<longleftrightarrow> n = 9"
proof -
  have eq: "user_bit = push_bit 9 1" by (simp add: tid_layout)
  show ?thesis by (simp only: eq bit_push_bit_iff bit_1_iff) auto
qed

lemma and_user_bit: "(v AND user_bit = 0) \<longleftrightarrow> \<not> bit v 9"
proof
  assume "v AND user_bit = 0"
  then have "\<not> bit (v AND user_bit) 9" by simp
  then show "\<not> bit v 9" by (simp add: bit_and_iff)
next
  assume "\<not> bit v 9"
  then show "v AND user_bit = 0" by (intro bit_word_eqI) (auto simp: bit_and_iff)
qed

text \<open>A cell in the tree between transactions: unlocked, valid, and large enough for its value.\<close>

definition elem_ok :: "velem \<Rightarrow> bool" where
  "elem_ok e \<longleftrightarrow> cell_ok e \<and> low8 (ve_version e) = 0 \<and> \<not> bit (ve_version e) 9"

lemma try_lock_free: "low8 v = 0 \<Longrightarrow> try_lock v here = (True, v OR lock_bit OR here)"
proof -
  assume "low8 v = 0"
  then have "v AND NOT lock_bit = v"
    using low8_zero_bit [of v 7] by (intro bit_word_eqI) (auto simp: bit_and_iff bit_not_iff)
  then show ?thesis by (simp add: try_lock_def try_lock_cas_def)
qed

lemma unlock_locked:
  assumes "low8 v = lock_bit OR here"
  shows "unlock v here = Inr (unlocked v)"
  using assms by (simp add: unlock_def unlocked_def is_locked_here_low8)

lemma low8_or_high: "low8 (v OR user_bit) = low8 v" "low8 (v AND NOT user_bit) = low8 v"
  by (rule bit_word_eqI, auto simp: low8_def bit_take_bit_iff bit_or_iff bit_and_iff bit_not_iff)+

lemma low8_locked: "low8 v = 0 \<Longrightarrow> here < 128 \<Longrightarrow> low8 (v OR lock_bit OR here) = lock_bit OR here"
  by (simp add: low8_or_lock)

lemma thread_bit_high: "here < (128 :: u64) \<Longrightarrow> 7 \<le> n \<Longrightarrow> \<not> bit here n"
  using thread_bits by fastforce

lemma bit_locked: "here < 128 \<Longrightarrow> 8 \<le> n \<Longrightarrow> bit (v OR lock_bit OR here) n \<longleftrightarrow> bit v n"
  by (auto simp: bit_or_iff dest: thread_bits)

lemma take_bit_12_increment: "take_bit 12 (v + 0x1000) = take_bit 12 (v :: u64)"
proof -
  have d: "(4096::nat) dvd 18446744073709551616" by (rule dvdI [of _ _ 4503599627370496]) simp
  have "unat (take_bit 12 (v + 0x1000)) = unat (v + 0x1000) mod 4096"
    by (simp add: take_bit_eq_mod unat_mod_distrib)
  also have "unat (v + 0x1000) = (unat v + 4096) mod 18446744073709551616"
    by (simp add: unat_word_ariths)
  also have "(unat v + 4096) mod 18446744073709551616 mod 4096 = (unat v + 4096) mod 4096"
    using d by (rule mod_mod_cancel)
  also have "\<dots> = unat v mod 4096" by simp
  also have "\<dots> = unat (take_bit 12 v)" by (simp add: take_bit_eq_mod unat_mod_distrib)
  finally show ?thesis by (simp only: word_unat_eq_iff)
qed

lemma next_nonopaque_ok:
  assumes "low8 v = 0" and "\<not> bit v 9"
  shows "low8 (next_nonopaque_version v) = 0" "\<not> bit (next_nonopaque_version v) 9"
proof -
  show "low8 (next_nonopaque_version v) = 0"
    using low8_add_high [of v] assms(1) by (simp add: next_nonopaque_version_def)
  have "bit (take_bit 12 (v + 0x1000)) 9 \<longleftrightarrow> bit (take_bit 12 v) 9" by (simp only: take_bit_12_increment)
  then show "\<not> bit (next_nonopaque_version v) 9"
    using assms(2) by (simp add: next_nonopaque_version_def bit_or_iff bit_take_bit_iff increment_value_def)
qed

lemma inc_while_locked:
  assumes v: "low8 v = 0" and h: "here < 128"
  shows "inc_nonopaque_version (v OR lock_bit OR here) here = Inr (next_nonopaque_version v OR lock_bit OR here)"
proof -
  let ?b = "lock_bit OR here" and ?w = "v + increment_value"
  have l: "low8 ?w = 0"
    using v by (simp only: low8_def increment_value_def take_bit_8_increment)
  have b: "bit ?b n \<Longrightarrow> n < 8" for n by (auto simp: bit_or_iff dest: thread_bits [OF h])
  have disj: "x AND ?b = 0" if "low8 x = 0" for x
  proof (rule bit_word_eqI)
    fix n show "bit (x AND ?b) n = bit 0 n"
      using b [of n] low8_zero_bit [OF that, of n] by (auto simp: bit_and_iff)
  qed
  have "v OR ?b = v + ?b" using disjunctive_add_eq_or [OF disj [OF v]] by simp
  then have "(v OR ?b) + increment_value = ?w + ?b" by (simp only: add.commute add.left_commute)
  also have "\<dots> = ?w OR ?b" using disjunctive_add_eq_or [OF disj [OF l]] by simp
  finally have e: "(v OR ?b) + increment_value = ?w OR ?b" .
  have "is_locked_here (v OR ?b) here" using low8_locked [OF v h] by (simp add: is_locked_here_low8)
  then show ?thesis
    using e by (simp add: inc_nonopaque_version_def next_nonopaque_version_def ac_simps)
qed

section \<open>The four cases of a put\<close>

lemma elem_validity: "validityCheck False e \<longleftrightarrow> \<not> bit (ve_version e) 9"
  by (simp add: validityCheck_def invalid_bit_def and_user_bit)

lemma trans_write_new:
  assumes "d k = None" and "short_value v" and "here < 128"
  shows "trans_write_mbta compar here k v d =
    Inr (True, d(k \<mapsto> \<lparr>ve_version = 0, ve_capacity = capacity_for v, ve_value = v\<rparr>))"
proof -
  have z: "low8 (invalid_bit) = 0"
    by (rule bit_word_eqI) (auto simp: low8_def invalid_bit_def bit_take_bit_iff)
  let ?w = "(invalid_bit OR lock_bit OR here) AND NOT invalid_bit"
  have "low8 ?w = low8 (invalid_bit OR lock_bit OR here)" using low8_or_high(2) by (simp add: invalid_bit_def)
  then have "unlock ?w here = Inr (unlocked ?w)" using low8_locked [OF z assms(3)] by (intro unlock_locked) simp
  moreover have "unlocked ?w = 0"
    using thread_bit_high [OF assms(3)]
    by (intro bit_word_eqI) (auto simp: unlocked_def invalid_bit_def bit_and_iff bit_not_iff bit_or_iff)
  ultimately show ?thesis
    using assms try_lock_free [OF z, of here]
    by (simp add: trans_write_mbta_def make_str_ok commit_insert_def unlock_elem_def)
qed

lemma trans_write_old:
  assumes "d k = Some e" and "compar v (ve_value e) = Inr False"
  shows "trans_write_mbta compar here k v d = Inr (True, d)"
  using assms by (simp add: trans_write_mbta_def)

lemma trans_write_fits:
  assumes d: "d k = Some e" and c: "compar v (ve_value e) = Inr True" and e: "elem_ok e"
    and v: "short_value v" and f: "length v \<le> unat (ve_capacity e)" and h: "here < 128"
  shows "trans_write_mbta compar here k v d =
    Inr (True, d(k \<mapsto> e\<lparr>ve_version := next_nonopaque_version (ve_version e), ve_value := v\<rparr>))"
proof -
  let ?v = "ve_version e"
  have ok: "cell_ok e" "low8 ?v = 0" "\<not> bit ?v 9" using e by (simp_all add: elem_ok_def)
  have nr: "\<not> needsResize e v" using needs_resize_iff [OF ok(1) v] f by (simp add: needsResize_def)
  have hp: "handlePutFound here e v = Inr (?v, e, e)"
    using ok nr by (simp add: handlePutFound_def elem_validity is_locked_elsewhere_def and_lock_or_mask reallyHandlePutFound_def)
  let ?n = "e\<lparr>ve_version := ?v OR lock_bit OR here\<rparr>" and ?w = "next_nonopaque_version ?v"
  have vc: "validityCheck False ?n" using ok(3) bit_locked [OF h, of 9 ?v] by (simp add: elem_validity)
  have "\<not> is_locked_elsewhere ?v here" using ok(2) by (simp add: is_locked_elsewhere_def and_lock_or_mask)
  then have "elem_check here ?n ?v = Inr True" using vc by (simp add: elem_check_def check_version_def)
  moreover have "is_locked (?v OR lock_bit OR here)"
    by (rule is_locked_low8_owner [OF h low8_locked [OF ok(2) h]])
  then have "elem_install here ?n v = Inr (e\<lparr>ve_value := v, ve_version := ?w OR lock_bit OR here\<rparr>)"
    using replace_ok [of ?n v] ok(1) v f inc_while_locked [OF ok(2) h]
    by (simp add: elem_install_def set_value_def cell_ok_def)
  moreover have "unlock (?w OR lock_bit OR here) here = Inr ?w"
    using next_nonopaque_ok [OF ok(2,3)] low8_locked [OF _ h] unlocked_or_lock [OF _ h]
    by (simp add: unlock_locked)
  ultimately have "commit_found here v False (?v, e, e) = Inr (True, e\<lparr>ve_version := ?w, ve_value := v\<rparr>)"
    using try_lock_free [OF ok(2), of here] by (simp add: commit_found_def unlock_elem_def Let_def)
  with d c hp nr show ?thesis by (simp add: trans_write_mbta_def)
qed

lemma trans_write_grows:
  assumes d: "d k = Some e" and c: "compar v (ve_value e) = Inr True" and e: "elem_ok e"
    and v: "short_value v" and f: "unat (ve_capacity e) < length v" and h: "here < 128"
  shows "trans_write_mbta compar here k v d = Inr (False, d(k \<mapsto> e\<lparr>ve_capacity := capacity_for v\<rparr>))"
proof -
  let ?v = "ve_version e"
  have ok: "cell_ok e" "low8 ?v = 0" "\<not> bit ?v 9" using e by (simp_all add: elem_ok_def)
  have nr: "needsResize e v" using needs_resize_iff [OF ok(1) v] f by (simp add: needsResize_def)
  let ?i = "?v OR invalid_bit"
  have i8: "low8 ?i = 0" and i9: "bit ?i 9" using ok(2) low8_or_high(1) by (simp_all add: invalid_bit_def bit_or_iff)
  have ii: "?i AND NOT invalid_bit = ?v"
    using ok(3) by (intro bit_word_eqI) (auto simp: invalid_bit_def bit_and_iff bit_or_iff bit_not_iff)
  have com: "(?v OR lock_bit OR here) OR invalid_bit = ?i OR lock_bit OR here" by (simp add: ac_simps)
  have "unlock (?i OR lock_bit OR here) here = Inr ?i"
    using low8_locked [OF i8 h] unlocked_or_lock [OF i8 h] by (simp add: unlock_locked)
  then have ul: "unlock_elem here (e\<lparr>ve_version := (?v OR lock_bit OR here) OR invalid_bit\<rparr>) = Inr (e\<lparr>ve_version := ?i\<rparr>)"
    unfolding com by (simp add: unlock_elem_def)
  have vl: "(?v OR lock_bit OR here) AND invalid_bit = 0"
    using ok(3) bit_locked [OF h, of 9 ?v] by (simp add: invalid_bit_def and_user_bit)
  have "cell_ok (e\<lparr>ve_version := ?i\<rparr>)" using ok(1) by (simp add: cell_ok_def)
  note rs = reserve_ok [OF this v]
  have hp: "handlePutFound here e v = Inr (?v, e\<lparr>ve_version := ?i\<rparr>, e\<lparr>ve_capacity := capacity_for v\<rparr>)"
    using ok nr try_lock_free [OF ok(2), of here] ul vl rs f ii
    by (simp add: handlePutFound_def elem_validity is_locked_elsewhere_def and_lock_or_mask reallyHandlePutFound_def
        lock_elem_def resizeIfNeeded_def)
  have "unlock (?v OR lock_bit OR here) here = Inr ?v"
    using low8_locked [OF ok(2) h] unlocked_or_lock [OF ok(2) h] by (simp add: unlock_locked)
  moreover have "elem_check here (e\<lparr>ve_version := ?i\<rparr>) ?v = Inr False" using i9 by (simp add: elem_check_def elem_validity)
  ultimately have "commit_found here v True (?v, e\<lparr>ve_version := ?i\<rparr>, e\<lparr>ve_capacity := capacity_for v\<rparr>) =
      Inr (False, e\<lparr>ve_capacity := capacity_for v\<rparr>)"
    using try_lock_free [OF ok(2), of here] by (simp add: commit_found_def unlock_elem_def Let_def)
  with d c hp nr show ?thesis by (simp add: trans_write_mbta_def)
qed

end
