(* ===== verification/Log_Replay.thy ===== *)
theory Log_Replay
  imports Log_Format Mass_Trans "HOL-Library.Multiset"
begin

text \<open>
  Replaying the log on a follower: \<^verbatim>\<open>treplay_in_same_thread_opt_mbta_v2\<close> and
  \<^verbatim>\<open>get_latest_commit_id\<close> (\<^verbatim>\<open>benchmarks/sto/ReplayDB.cc\<close>), the loop over the key-value records of one
  transaction and the comparison of commit ids (\<^verbatim>\<open>benchmarks/sto/ThreadPool.cc\<close>).  The code walks a raw buffer
  by pointer arithmetic; every read is checked here.  Each record becomes a compare-and-put in a
  transaction of its own (\<open>Mass_Trans\<close>): it is stored with its commit id in the last eight bytes and
  replaces only an older value.  The verdict of the commit is not looked at, so a newer value that
  needs a larger cell is lost; as long as the values of a key fit into each other's cells, the
  order in which logs are replayed does not matter.  The replay is one thread, \<open>here\<close>, that has the
  tables to itself: a put whose commit fails because of another thread is lost in the same way.
\<close>

section \<open>Compare-and-put\<close>

definition keystore_encode3_v2 :: "bytes \<Rightarrow> u64 \<Rightarrow> bytes result" where
  "keystore_encode3_v2 s x =
     (if length s < 8 then Inl Out_Of_Bounds else mem_write s (length s - 8) (le_bytes 8 x))"

definition keystore_decode3_v2 :: "bytes \<Rightarrow> u64 result" where
  "keystore_decode3_v2 s =
     (if length s < 8 then Inl Out_Of_Bounds
      else rbind (mem_read s (length s - 8) 8) (\<lambda>b. Inr (le_word b)))"

definition cmpFunc2_v2 :: "bytes \<Rightarrow> bytes \<Rightarrow> bool result" where
  "cmpFunc2_v2 newValue oldValue =
     rbind (keystore_decode3_v2 newValue) (\<lambda>commit_id_new.
     rbind (keystore_decode3_v2 oldValue) (\<lambda>commit_id_old.
       Inr (commit_id_new > commit_id_old)))"

text \<open>\<^verbatim>\<open>put_mbta\<close> and the commit that follows it, \<^verbatim>\<open>commit_txn_no_paxos\<close>: the verdict and the tables.\<close>

definition put_mbta :: "u64 \<Rightarrow> u16 \<Rightarrow> bytes \<Rightarrow> bytes \<Rightarrow> db \<Rightarrow> (bool \<times> db) result" where
  "put_mbta here table_id key value d = trans_write_mbta cmpFunc2_v2 here (table_id, key) value d"

text \<open>
  The loop around it: an exception makes it try again, for ever if nobody changes the tables; the
  verdict \<open>ret\<close> is not used.
\<close>

definition put_loop :: "u64 \<Rightarrow> u16 \<Rightarrow> bytes \<Rightarrow> bytes \<Rightarrow> db \<Rightarrow> db result" where
  "put_loop here table_id key value d =
     (case put_mbta here table_id key value d of
        Inl Txn_Abort \<Rightarrow> Inl Spins
      | Inl e \<Rightarrow> Inl e
      | Inr (ret, d') \<Rightarrow> Inr d')"

section \<open>The records of one transaction\<close>

definition tombstone :: bytes where
  "tombstone = [48, 49, 50, 51, 52, 53, 54, 55]"   \<comment> \<open>\<^verbatim>\<open>"01234567"\<close>\<close>

definition replay_one ::
  "u64 \<Rightarrow> u64 \<Rightarrow> nat \<Rightarrow> bytes \<Rightarrow> db \<Rightarrow> (nat \<times> bytes \<times> db) result"
where
  "replay_one here cid offset buffer d =
     rbind (mem_read buffer offset 2) (\<lambda>lk.
     let len_of_K = unat (le_word lk :: u16); offset = offset + 2 in
     rbind (mem_read buffer offset len_of_K) (\<lambda>key.
     let offset = offset + len_of_K in
     rbind (mem_read buffer offset 2) (\<lambda>lv.
     let len_of_V = unat (le_word lv :: u16); offset = offset + 2 in
     rbind (mem_read buffer offset (len_of_V + 8)) (\<lambda>value.
     let offset = offset + len_of_V in
     rbind (mem_read buffer offset 2) (\<lambda>ti.
     let table_id = le_word ti :: u16; delete_true = bit table_id 15;
         table_id = (if delete_true then table_id XOR push_bit 15 1 else table_id) in
     rbind (mem_write buffer offset (le_bytes 2 table_id)) (\<lambda>buffer.
     let offset = offset + 2 in
     if table_id = 0 \<or> table_id > 20000 \<or> table_id < 10000 then Inl Exit_Process
     else
       let value = (if delete_true then tombstone else value) in
       rbind (keystore_encode3_v2 value cid) (\<lambda>value.
       rbind (put_loop here table_id key value d) (\<lambda>d. Inr (offset, buffer, d)))))))))"

primrec replay_kvs :: "nat \<Rightarrow> u64 \<Rightarrow> u64 \<Rightarrow> nat \<Rightarrow> bytes \<Rightarrow> db \<Rightarrow> (nat \<times> bytes \<times> db) result" where
  "replay_kvs 0 here cid offset buffer d = Inr (offset, buffer, d)"
| "replay_kvs (Suc n) here cid offset buffer d =
     rbind (replay_one here cid offset buffer d) (\<lambda>(offset, buffer, d). replay_kvs n here cid offset buffer d)"

definition getFileContentNew_OneLogOptimized_mbta_v2 ::
  "u64 \<Rightarrow> nat \<Rightarrow> u64 \<Rightarrow> u16 \<Rightarrow> bytes \<Rightarrow> db \<Rightarrow> (nat \<times> bytes \<times> db) result"
where
  "getFileContentNew_OneLogOptimized_mbta_v2 here arr cid kvcount buffer d =
     rbind (replay_kvs (unat kvcount) here cid arr buffer d) (\<lambda>(_, buffer, d). Inr (unat kvcount, buffer, d))"

section \<open>The log entry\<close>

definition get_latest_commit_id :: "bytes \<Rightarrow> u64 result" where
  "get_latest_commit_id buffer =
     rbind (rassert (length buffer \<ge> 8)) (\<lambda>_.
     rbind (mem_read buffer (length buffer - 8) 8) (\<lambda>b. Inr (le_word b)))"

record WrappedLogV2 =
  wl_cid :: u64
  wl_count :: u16
  wl_len :: u32
  wl_arr :: nat

function wrap_logs :: "bytes \<Rightarrow> nat \<Rightarrow> nat \<Rightarrow> WrappedLogV2 list result" where
  "wrap_logs buffer len idx =
     (if idx \<ge> len then Inr []
      else
        rbind (mem_read buffer idx 8) (\<lambda>c.
        rbind (mem_read buffer (idx + 8) 2) (\<lambda>n.
        rbind (mem_read buffer (idx + 10) 4) (\<lambda>l.
        let w = \<lparr>wl_cid = le_word c, wl_count = le_word n, wl_len = le_word l, wl_arr = idx + 14\<rparr> in
        rbind (wrap_logs buffer len (idx + 14 + unat (wl_len w))) (\<lambda>ws. Inr (w # ws))))))"
  by pat_completeness auto
termination by (relation "measure (\<lambda>(_, len, idx). len - idx)") auto

declare wrap_logs.simps [simp del]

primrec replay_wrapped :: "u64 \<Rightarrow> WrappedLogV2 list \<Rightarrow> bytes \<Rightarrow> db \<Rightarrow> (nat \<times> bytes \<times> db) result" where
  "replay_wrapped here [] buffer d = Inr (0, buffer, d)"
| "replay_wrapped here (w # ws) buffer d =
     rbind (getFileContentNew_OneLogOptimized_mbta_v2 here (wl_arr w) (wl_cid w) (wl_count w) buffer d) (\<lambda>(n, buffer, d).
     rbind (replay_wrapped here ws buffer d) (\<lambda>(m, buffer, d). Inr (n + m, buffer, d)))"

definition treplay_in_same_thread_opt_mbta_v2 :: "u64 \<Rightarrow> bytes \<Rightarrow> db \<Rightarrow> (nat \<times> db) result" where
  "treplay_in_same_thread_opt_mbta_v2 here buffer d =
     rbind (rassert (length buffer \<ge> 8)) (\<lambda>_.
     rbind (wrap_logs buffer (length buffer - 8) 0) (\<lambda>ws.
     rbind (replay_wrapped here ws buffer d) (\<lambda>(n, _, d). Inr (n, d))))"

section \<open>The effect of a put\<close>

type_synonym put = "db_key \<times> u64 \<times> bytes"

definition cid_of :: "bytes \<Rightarrow> u64" where
  "cid_of v = le_word (drop (length v - 8) v)"

text \<open>
  A put with a commit id: a new key gets a cell of its own; an older value that leaves room is
  replaced; one that does not stays, and its cell grows; a newer value stays.
\<close>

definition put_newer :: "put \<Rightarrow> db \<Rightarrow> db" where
  "put_newer = (\<lambda>(k, cid, v) d.
     let w = v @ le_bytes 8 cid in
     case d k of
       None \<Rightarrow> d(k \<mapsto> \<lparr>ve_version = 0, ve_capacity = capacity_for w, ve_value = w\<rparr>)
     | Some e \<Rightarrow>
         if cid_of (ve_value e) < cid
         then d(k \<mapsto> (if length w \<le> unat (ve_capacity e)
                      then e\<lparr>ve_version := next_nonopaque_version (ve_version e), ve_value := w\<rparr>
                      else e\<lparr>ve_capacity := capacity_for w\<rparr>))
         else d)"

definition kv_put :: "u64 \<Rightarrow> kv \<Rightarrow> put" where
  "kv_put cid r = ((kv_table r, kv_key r), cid, if kv_delete r then [] else kv_val r)"

definition txn_puts :: "log_txn \<Rightarrow> put list" where
  "txn_puts t = map (kv_put (lt_cid t)) (lt_kvs t)"

definition put_ok :: "put \<Rightarrow> bool" where
  "put_ok p \<longleftrightarrow> length (snd (snd p)) < 2 ^ 16"

definition db_ok :: "db \<Rightarrow> bool" where
  "db_ok d \<longleftrightarrow> (\<forall>k e. d k = Some e \<longrightarrow> elem_ok e \<and> 8 \<le> length (ve_value e))"

lemma cid_of_append [simp]: "cid_of (v @ le_bytes 8 c) = c"
  by (simp add: cid_of_def)

lemma put_short: "put_ok (k, c, v) \<Longrightarrow> short_value (v @ le_bytes 8 c)"
  by (simp add: put_ok_def short_value_def)

lemma kv_put_ok: "kv_ok r \<Longrightarrow> put_ok (kv_put c r)"
  by (simp add: kv_put_def put_ok_def kv_ok_def)

lemma txn_puts_ok: "log_txn_ok t \<Longrightarrow> \<forall>p \<in> set (txn_puts t). put_ok p"
  by (auto simp: txn_puts_def log_txn_ok_def kv_put_ok)

lemma elem_ok_new:
  "short_value w \<Longrightarrow> elem_ok \<lparr>ve_version = 0, ve_capacity = capacity_for w, ve_value = w\<rparr>"
  using capacity_for_bounds [of w] by (simp add: elem_ok_def cell_ok_def low8_def)

lemma elem_ok_upd:
  assumes "elem_ok e" and "short_value w"
  shows "length w \<le> unat (ve_capacity e) \<Longrightarrow>
      elem_ok (e\<lparr>ve_version := next_nonopaque_version (ve_version e), ve_value := w\<rparr>)"
    and "unat (ve_capacity e) < length w \<Longrightarrow> elem_ok (e\<lparr>ve_capacity := capacity_for w\<rparr>)"
  using assms capacity_for_bounds [of w] next_nonopaque_ok [of "ve_version e"]
  by (auto simp: elem_ok_def cell_ok_def)

lemma db_ok_put_newer:
  assumes "db_ok d" and "put_ok p"
  shows "db_ok (put_newer p d)"
proof -
  obtain k c v where p: "p = (k, c, v)" by (cases p)
  let ?w = "v @ le_bytes 8 c"
  have w: "short_value ?w" using put_short assms(2) p by blast
  have "elem_ok e \<and> 8 \<le> length (ve_value e)" if e: "put_newer p d k' = Some e" for k' e
  proof (cases "k' = k \<and> put_newer p d \<noteq> d")
    case False
    then have "d k' = Some e"
    proof (cases "put_newer p d = d")
      case False
      with \<open>\<not> (k' = k \<and> put_newer p d \<noteq> d)\<close> have "k' \<noteq> k" by simp
      then show ?thesis using e p by (auto simp: put_newer_def Let_def split: option.splits if_splits)
    qed (use e in simp)
    then show ?thesis using assms(1) unfolding db_ok_def by blast
  next
    case True
    then show ?thesis
    proof (cases "d k")
      case None
      then show ?thesis using e True p elem_ok_new [OF w] by (auto simp: put_newer_def Let_def)
    next
      case (Some e0)
      then have "elem_ok e0" "8 \<le> length (ve_value e0)" using assms(1) unfolding db_ok_def by blast+
      with elem_ok_upd [OF this(1) w] Some e True p show ?thesis
        by (auto simp: put_newer_def Let_def not_le split: if_splits)
    qed
  qed
  then show ?thesis by (simp add: db_ok_def)
qed

lemma db_ok_fold: "db_ok d \<Longrightarrow> \<forall>p \<in> set ps. put_ok p \<Longrightarrow> db_ok (fold put_newer ps d)"
  by (induction ps arbitrary: d) (simp_all add: db_ok_put_newer)

lemma decode_eq: "8 \<le> length v \<Longrightarrow> keystore_decode3_v2 v = Inr (cid_of v)"
  by (simp add: keystore_decode3_v2_def cid_of_def mem_read_def)

lemma put_mbta_eq:
  assumes "db_ok d" and "put_ok ((t, k), c, v)" and "here < 128"
  shows "\<exists>ret. put_mbta here t k (v @ le_bytes 8 c) d = Inr (ret, put_newer ((t, k), c, v) d)"
proof (cases "d (t, k)")
  case None
  from None put_short [OF assms(2)] assms(3)
  have "trans_write_mbta cmpFunc2_v2 here (t, k) (v @ le_bytes 8 c) d = Inr (True, put_newer ((t, k), c, v) d)"
    by (subst trans_write_new) (simp_all add: put_newer_def Let_def)
  then show ?thesis by (simp add: put_mbta_def)
next
  case (Some e)
  then have e: "elem_ok e" "8 \<le> length (ve_value e)" using assms(1) by (auto simp: db_ok_def)
  then have c: "cmpFunc2_v2 (v @ le_bytes 8 c) (ve_value e) = Inr (c > cid_of (ve_value e))"
    by (simp add: cmpFunc2_v2_def decode_eq)
  show ?thesis
  proof (cases "c > cid_of (ve_value e)")
    case False
    with trans_write_old [of d "(t, k)" e cmpFunc2_v2] c Some show ?thesis by (simp add: put_mbta_def put_newer_def Let_def)
  next
    case True
    then have c': "cmpFunc2_v2 (v @ le_bytes 8 c) (ve_value e) = Inr True" using c by simp
    note fits = trans_write_fits [of d "(t, k)" e cmpFunc2_v2, OF Some c' e(1) put_short [OF assms(2)] _ assms(3)]
    note grows = trans_write_grows [of d "(t, k)" e cmpFunc2_v2, OF Some c' e(1) put_short [OF assms(2)] _ assms(3)]
    show ?thesis
      using fits grows True Some
      by (cases "length (v @ le_bytes 8 c) \<le> unat (ve_capacity e)") (simp_all add: put_mbta_def put_newer_def Let_def not_le)
  qed
qed

lemma put_loop_eq:
  "db_ok d \<Longrightarrow> put_ok ((t, k), c, v) \<Longrightarrow> here < 128 \<Longrightarrow>
   put_loop here t k (v @ le_bytes 8 c) d = Inr (put_newer ((t, k), c, v) d)"
  using put_mbta_eq [of d t k c v here] by (auto simp: put_loop_def)

lemma encode_eq: "length x = 8 \<Longrightarrow> keystore_encode3_v2 (v @ x) c = Inr (v @ le_bytes 8 c)"
  by (simp add: keystore_encode3_v2_def mem_write_def)

section \<open>Replaying what was encoded\<close>

lemma read_at: "off = length pre \<Longrightarrow> length bs = n \<Longrightarrow> mem_read (pre @ bs @ post) off n = Inr bs"
  by (simp add: mem_read_def)

lemma write_at:
  "off = length pre \<Longrightarrow> length old = length new \<Longrightarrow> mem_write (pre @ old @ post) off new = Inr (pre @ new @ post)"
  by (simp add: mem_write_def)

lemma enc_table_dec:
  assumes "kv_ok r"
  shows "bit (enc_table r) 15 \<longleftrightarrow> kv_delete r"
    and "(if kv_delete r then enc_table r XOR push_bit 15 1 else enc_table r) = kv_table r"
proof -
  have b15: "bit (push_bit 15 1 :: u16) n \<longleftrightarrow> n = 15" for n
    unfolding bit_push_bit_iff by (auto simp: bit_1_iff possible_bit_def)
  show "bit (enc_table r) 15 \<longleftrightarrow> kv_delete r"
    using kv_ok_table_bit [OF assms] by (simp add: enc_table_def delete_bit_def bit_or_iff b15)
  moreover have "(x OR b) XOR b = x" if "\<And>n. bit b n \<longleftrightarrow> n = 15" "\<not> bit x 15" for x b :: u16
    using that by (intro bit_word_eqI) (auto simp: bit_or_iff bit_xor_iff)
  from this [OF b15 kv_ok_table_bit [OF assms]] have "(kv_table r OR delete_bit) XOR push_bit 15 1 = kv_table r"
    unfolding delete_bit_def .
  ultimately show "(if kv_delete r then enc_table r XOR push_bit 15 1 else enc_table r) = kv_table r"
    by (simp add: enc_table_def)
qed

lemma replay_one_enc:
  assumes r: "kv_ok r" and d: "db_ok d" and h: "here < 128" and post: "8 \<le> length post"
  shows "replay_one here cid (length pre) (pre @ enc_kv r @ post) d =
    Inr (length pre + length (enc_kv r), pre @ enc_kv (r\<lparr>kv_delete := False\<rparr>) @ post, put_newer (kv_put cid r) d)"
proof -
  let ?K = "kv_key r" and ?V = "kv_val r"
  let ?lk = "le_bytes 2 (of_nat (length ?K) :: u16)" and ?lv = "le_bytes 2 (of_nat (length ?V) :: u16)"
  let ?ti = "le_bytes 2 (enc_table r)" and ?ti' = "le_bytes 2 (kv_table r)"
  let ?buf = "pre @ ?lk @ ?K @ ?lv @ ?V @ ?ti @ post"
  have buf: "pre @ enc_kv r @ post = ?buf" by (simp add: enc_kv_def)
  have K: "unat (of_nat (length ?K) :: u16) = length ?K" and V: "unat (of_nat (length ?V) :: u16) = length ?V"
    using r le_word_u16 by (simp_all add: kv_ok_def)
  let ?o1 = "length pre + 2" let ?o2 = "?o1 + length ?K" let ?o3 = "?o2 + 2" let ?o4 = "?o3 + length ?V"
  have r1: "mem_read ?buf (length pre) 2 = Inr ?lk"
    using read_at [of "length pre" pre ?lk 2 "?K @ ?lv @ ?V @ ?ti @ post"] by simp
  have r2: "mem_read ?buf ?o1 (length ?K) = Inr ?K"
    using read_at [of ?o1 "pre @ ?lk" ?K "length ?K" "?lv @ ?V @ ?ti @ post"] by simp
  have r3: "mem_read ?buf ?o2 2 = Inr ?lv"
    using read_at [of ?o2 "pre @ ?lk @ ?K" ?lv 2 "?V @ ?ti @ post"] by simp
  have r4: "mem_read ?buf ?o3 (length ?V + 8) = Inr (?V @ ?ti @ take 6 post)"
    using read_at [of ?o3 "pre @ ?lk @ ?K @ ?lv" "?V @ ?ti @ take 6 post" "length ?V + 8" "drop 6 post"] post
    by simp
  have r5: "mem_read ?buf ?o4 2 = Inr ?ti"
    using read_at [of ?o4 "pre @ ?lk @ ?K @ ?lv @ ?V" ?ti 2 post] by simp
  have w: "mem_write ?buf ?o4 ?ti' = Inr (pre @ ?lk @ ?K @ ?lv @ ?V @ ?ti' @ post)"
    using write_at [of ?o4 "pre @ ?lk @ ?K @ ?lv @ ?V" ?ti ?ti' post] by simp
  have tab: "\<not> (kv_table r = 0 \<or> kv_table r > 20000 \<or> kv_table r < 10000)"
    using r by (auto simp: kv_ok_def)
  have e: "keystore_encode3_v2 (if kv_delete r then tombstone else ?V @ ?ti @ take 6 post) cid =
      Inr ((if kv_delete r then [] else ?V) @ le_bytes 8 cid)"
    using encode_eq [of tombstone "[]" cid] encode_eq [of "?ti @ take 6 post" ?V cid] post
    by (simp add: tombstone_def)
  have p: "put_loop here (kv_table r) ?K ((if kv_delete r then [] else ?V) @ le_bytes 8 cid) d =
      Inr (put_newer (kv_put cid r) d)"
    using put_loop_eq [OF d kv_put_ok [OF r, of cid, unfolded kv_put_def] h] by (simp add: kv_put_def)
  have "replay_one here cid (length pre) ?buf d = Inr (?o4 + 2, pre @ ?lk @ ?K @ ?lv @ ?V @ ?ti' @ post, put_newer (kv_put cid r) d)"
    unfolding replay_one_def Let_def
    by (simp only: r1 rbind_simps K r2 r3 V r4 r5 le_word_le_bytes_16 enc_table_dec [OF r] w tab if_False e p)
  then show ?thesis
    unfolding buf by (simp add: enc_kv_def enc_table_def)
qed

definition unmark :: "kv list \<Rightarrow> kv list" where
  "unmark rs = map (\<lambda>r. r\<lparr>kv_delete := False\<rparr>) rs"

lemma length_enc_unmark [simp]: "length (enc_kvs (unmark rs)) = length (enc_kvs rs)"
  by (induction rs) (simp_all add: unmark_def)

lemma replay_kvs_enc:
  assumes "\<forall>r \<in> set rs. kv_ok r" and "db_ok d" and "here < 128" and "8 \<le> length post"
  shows "replay_kvs (length rs) here cid (length pre) (pre @ enc_kvs rs @ post) d =
    Inr (length pre + length (enc_kvs rs), pre @ enc_kvs (unmark rs) @ post, fold put_newer (map (kv_put cid) rs) d)"
  using assms
proof (induction rs arbitrary: pre d)
  case Nil
  then show ?case by (simp add: unmark_def)
next
  case (Cons r rs)
  have "8 \<le> length (enc_kvs rs @ post)" using Cons.prems(4) by simp
  note one = replay_one_enc [OF _ Cons.prems(2,3) this, of r cid pre]
  have IH: "replay_kvs (length rs) here cid (length (pre @ enc_kv (r\<lparr>kv_delete := False\<rparr>)))
      ((pre @ enc_kv (r\<lparr>kv_delete := False\<rparr>)) @ enc_kvs rs @ post) (put_newer (kv_put cid r) d) =
    Inr (length (pre @ enc_kv (r\<lparr>kv_delete := False\<rparr>)) + length (enc_kvs rs),
      (pre @ enc_kv (r\<lparr>kv_delete := False\<rparr>)) @ enc_kvs (unmark rs) @ post,
      fold put_newer (map (kv_put cid) rs) (put_newer (kv_put cid r) d))"
    using Cons.prems db_ok_put_newer [OF Cons.prems(2) kv_put_ok] by (intro Cons.IH) simp_all
  have l: "length (pre @ enc_kv (r\<lparr>kv_delete := False\<rparr>)) = length pre + length (enc_kv r)" by simp
  show ?case
    using one Cons.prems(1) IH unfolding l by (simp add: unmark_def)
qed

text \<open>The headers, found by following the lengths.\<close>

fun wrapped :: "nat \<Rightarrow> log_txn list \<Rightarrow> WrappedLogV2 list" where
  "wrapped off [] = []"
| "wrapped off (t # ts) =
     \<lparr>wl_cid = lt_cid t, wl_count = of_nat (length (lt_kvs t)),
      wl_len = of_nat (length (enc_kvs (lt_kvs t))), wl_arr = off + 14\<rparr> # wrapped (off + length (enc_txn t)) ts"

lemma wrap_logs_enc:
  assumes "\<forall>t \<in> set ts. log_txn_ok t"
  shows "wrap_logs (pre @ enc_txns ts @ post) (length pre + length (enc_txns ts)) (length pre) = Inr (wrapped (length pre) ts)"
  using assms
proof (induction ts arbitrary: pre)
  case Nil
  then show ?case by (simp add: wrap_logs.simps)
next
  case (Cons t ts)
  let ?c = "le_bytes 8 (lt_cid t)" and ?n = "le_bytes 2 (of_nat (length (lt_kvs t)) :: u16)"
  let ?l = "le_bytes 4 (of_nat (length (enc_kvs (lt_kvs t))) :: u32)"
  let ?rest = "enc_txns ts @ post" and ?buf = "pre @ enc_txns (t # ts) @ post"
  have buf: "?buf = pre @ ?c @ ?n @ ?l @ enc_kvs (lt_kvs t) @ ?rest" by (simp add: enc_txn_def)
  have r1: "mem_read ?buf (length pre) 8 = Inr ?c"
    unfolding buf by (rule read_at) simp_all
  have r2: "mem_read ?buf (length pre + 8) 2 = Inr ?n"
    unfolding buf using read_at [of "length pre + 8" "pre @ ?c" ?n 2 "?l @ enc_kvs (lt_kvs t) @ ?rest"] by simp
  have r3: "mem_read ?buf (length pre + 10) 4 = Inr ?l"
    unfolding buf using read_at [of "length pre + 10" "pre @ ?c @ ?n" ?l 4 "enc_kvs (lt_kvs t) @ ?rest"] by simp
  have u: "unat (of_nat (length (enc_kvs (lt_kvs t))) :: u32) = length (enc_kvs (lt_kvs t))"
    using Cons.prems by (simp add: log_txn_ok_def le_word_u32)
  have IH: "wrap_logs ?buf (length pre + length (enc_txns (t # ts))) (length pre + 14 + length (enc_kvs (lt_kvs t)))
      = Inr (wrapped (length pre + length (enc_txn t)) ts)"
    using Cons.IH [of "pre @ enc_txn t"] Cons.prems by (simp add: ac_simps)
  have ne: "enc_txns (t # ts) \<noteq> []" by (simp add: enc_txn_def)
  show ?case
    by (subst wrap_logs.simps) (simp add: r1 r2 r3 u IH ne Let_def del: enc_txns_simps(2))
qed

definition unmark_txn :: "log_txn \<Rightarrow> log_txn" where
  "unmark_txn t = t\<lparr>lt_kvs := unmark (lt_kvs t)\<rparr>"

definition txn_hdr :: "log_txn \<Rightarrow> bytes" where
  "txn_hdr t = le_bytes 8 (lt_cid t) @ le_bytes 2 (of_nat (length (lt_kvs t)) :: u16) @
     le_bytes 4 (of_nat (length (enc_kvs (lt_kvs t))) :: u32)"

lemma enc_txn_hdr: "enc_txn t = txn_hdr t @ enc_kvs (lt_kvs t)"
  by (simp add: enc_txn_def txn_hdr_def)

lemma enc_unmark_txn: "enc_txn (unmark_txn t) = txn_hdr t @ enc_kvs (unmark (lt_kvs t))"
  by (simp add: enc_txn_def unmark_txn_def txn_hdr_def) (simp add: unmark_def)

lemma replay_wrapped_enc:
  assumes "\<forall>t \<in> set ts. log_txn_ok t" and "db_ok d" and "here < 128" and "8 \<le> length post"
  shows "replay_wrapped here (wrapped (length pre) ts) (pre @ enc_txns ts @ post) d =
    Inr (length (concat (map lt_kvs ts)), pre @ enc_txns (map unmark_txn ts) @ post,
         fold put_newer (concat (map txn_puts ts)) d)"
  using assms
proof (induction ts arbitrary: pre d)
  case Nil
  then show ?case by simp
next
  case (Cons t ts)
  let ?h = "txn_hdr t" and ?rs = "lt_kvs t"
  have n: "unat (of_nat (length ?rs) :: u16) = length ?rs"
    using Cons.prems(1) by (simp add: log_txn_ok_def le_word_u16)
  have ok: "\<forall>r \<in> set ?rs. kv_ok r" using Cons.prems(1) by (simp add: log_txn_ok_def)
  have h: "length (pre @ ?h) = length pre + 14" by (simp add: txn_hdr_def)
  have p8: "8 \<le> length (enc_txns ts @ post)" using Cons.prems(4) by simp
  have kvs: "replay_kvs (length ?rs) here (lt_cid t) (length pre + 14) (pre @ enc_txns (t # ts) @ post) d =
      Inr (length pre + 14 + length (enc_kvs ?rs), (pre @ enc_txn (unmark_txn t)) @ enc_txns ts @ post,
           fold put_newer (txn_puts t) d)"
    using replay_kvs_enc [OF ok Cons.prems(2,3) p8, of "lt_cid t" "pre @ ?h"]
    unfolding h enc_unmark_txn by (simp add: txn_puts_def enc_txn_hdr)
  have l: "length (enc_txn (unmark_txn t)) = length (enc_txn t)" by (simp add: unmark_txn_def)
  have dok: "db_ok (fold put_newer (txn_puts t) d)"
    using db_ok_fold [OF Cons.prems(2) txn_puts_ok] Cons.prems(1) by simp
  have IH: "replay_wrapped here (wrapped (length (pre @ enc_txn (unmark_txn t))) ts)
      ((pre @ enc_txn (unmark_txn t)) @ enc_txns ts @ post) (fold put_newer (txn_puts t) d) =
    Inr (length (concat (map lt_kvs ts)), (pre @ enc_txn (unmark_txn t)) @ enc_txns (map unmark_txn ts) @ post,
         fold put_newer (concat (map txn_puts ts)) (fold put_newer (txn_puts t) d))"
    using Cons.prems dok by (intro Cons.IH) simp_all
  show ?case
    using IH unfolding length_append l
    by (simp add: getFileContentNew_OneLogOptimized_mbta_v2_def n kvs del: enc_txns_simps(2) length_enc_txn)
      (simp add: comp_def)
qed

section \<open>Order of replay\<close>

text \<open>
  What a table shows of its cells are their values.  On values alone a put is the newest-wins
  update, as long as the values of a key fit into every cell the key may get: the one it has now and
  those made for the other values of the key.
\<close>

definition values_of :: "db \<Rightarrow> db_key \<rightharpoonup> bytes" where
  "values_of d = (\<lambda>k. map_option ve_value (d k))"

definition put_value :: "put \<Rightarrow> (db_key \<rightharpoonup> bytes) \<Rightarrow> db_key \<rightharpoonup> bytes" where
  "put_value = (\<lambda>(k, cid, v) m.
     case m k of None \<Rightarrow> m(k \<mapsto> v @ le_bytes 8 cid)
     | Some old \<Rightarrow> if cid_of old < cid then m(k \<mapsto> v @ le_bytes 8 cid) else m)"

definition stored :: "put \<Rightarrow> bytes" where
  "stored p = snd (snd p) @ le_bytes 8 (fst (snd p))"

definition puts_fit :: "db \<Rightarrow> put list \<Rightarrow> bool" where
  "puts_fit d ps \<longleftrightarrow> (\<forall>p \<in> set ps.
     (\<forall>e. d (fst p) = Some e \<longrightarrow> length (stored p) \<le> unat (ve_capacity e)) \<and>
     (\<forall>q \<in> set ps. fst q = fst p \<longrightarrow> length (stored p) \<le> unat (capacity_for (stored q))))"

lemma put_newer_values:
  assumes "puts_fit d (p # ps)"
  shows "values_of (put_newer p d) = put_value p (values_of d)" and "puts_fit (put_newer p d) ps"
proof -
  obtain k c v where p: "p = (k, c, v)" by (cases p)
  have f: "length (stored q) \<le> unat (ve_capacity e)" if "q \<in> set (p # ps)" "d (fst q) = Some e" for q e
    using assms that unfolding puts_fit_def by blast
  have g: "length (stored q) \<le> unat (capacity_for (stored p))" if "q \<in> set ps" "fst q = k" for q
    using assms that p unfolding puts_fit_def by fastforce
  have w: "stored p = v @ le_bytes 8 c" by (simp add: p stored_def)
  show "values_of (put_newer p d) = put_value p (values_of d)"
  proof (cases "d k")
    case None
    then show ?thesis by (simp add: p put_newer_def put_value_def values_of_def Let_def fun_eq_iff)
  next
    case (Some e)
    with f [of p e] w p have "length (v @ le_bytes 8 c) \<le> unat (ve_capacity e)" by simp
    with Some show ?thesis by (auto simp: p put_newer_def put_value_def values_of_def Let_def fun_eq_iff)
  qed
  have "length (stored q) \<le> unat (ve_capacity e)" if q: "q \<in> set ps" "put_newer p d (fst q) = Some e" for q e
  proof (cases "fst q = k")
    case False
    then have "d (fst q) = Some e" using q(2) by (auto simp: p put_newer_def Let_def split: option.splits if_splits)
    with f q(1) show ?thesis by simp
  next
    case True
    show ?thesis
    proof (cases "d k")
      case None
      then have "ve_capacity e = capacity_for (stored p)" using q(2) True w by (auto simp: p put_newer_def Let_def)
      with g [OF q(1) True] show ?thesis by simp
    next
      case (Some e0)
      then have "ve_capacity e = ve_capacity e0 \<or> ve_capacity e = capacity_for (stored p)"
        using q(2) True w by (auto simp: p put_newer_def Let_def split: if_splits)
      with g [OF q(1) True] f [of q e0] Some True q(1) show ?thesis by auto
    qed
  qed
  with assms show "puts_fit (put_newer p d) ps" by (simp add: puts_fit_def)
qed

lemma fold_put_newer_values:
  "puts_fit d ps \<Longrightarrow> values_of (fold put_newer ps d) = fold put_value ps (values_of d)"
proof (induction ps arbitrary: d)
  case (Cons p ps)
  note v = put_newer_values [OF Cons.prems]
  show ?case using Cons.IH [OF v(2)] v(1) by simp
qed simp

lemma puts_fit_set: "set ps = set qs \<Longrightarrow> puts_fit d ps = puts_fit d qs"
  by (simp add: puts_fit_def)

text \<open>Two puts of one commit id to one key are the same put: commit ids are unique.\<close>

definition consistent_puts :: "put list \<Rightarrow> bool" where
  "consistent_puts ps \<longleftrightarrow> (\<forall>p \<in> set ps. \<forall>q \<in> set ps. fst p = fst q \<and> fst (snd p) = fst (snd q) \<longrightarrow> p = q)"

lemma put_value_same: "put_value (k, c, v) d k = Some w \<Longrightarrow> w = v @ le_bytes 8 c \<or> d k = Some w"
  by (auto simp: put_value_def split: option.splits if_splits)

lemma put_value_other: "k' \<noteq> k \<Longrightarrow> put_value (k, c, v) d k' = d k'"
  by (auto simp: put_value_def split: option.splits)

lemma put_value_at: "put_value (k, c, v) d k =
    (case d k of None \<Rightarrow> Some (v @ le_bytes 8 c)
     | Some old \<Rightarrow> Some (if cid_of old < c then v @ le_bytes 8 c else old))"
  by (auto simp: put_value_def split: option.splits)

lemma put_value_commute:
  assumes "fst p = fst q \<and> fst (snd p) = fst (snd q) \<longrightarrow> p = q"
  shows "put_value p (put_value q d) = put_value q (put_value p d)"
proof
  fix k
  obtain kp cp vp kq cq vq where p: "p = (kp, cp, vp)" and q: "q = (kq, cq, vq)"
    by (metis prod.collapse)
  show "put_value p (put_value q d) k = put_value q (put_value p d) k"
  proof (cases "kp = kq \<and> k = kp")
    case True
    with assms p q have "cp = cq \<longrightarrow> vp = vq" by auto
    with True p q show ?thesis
      by (cases "d k") (auto simp: put_value_at)
  next
    case False
    with p q show ?thesis
      by (cases "k = kp"; cases "k = kq") (auto simp: put_value_other put_value_at)
  qed
qed

lemma fold_put_value_perm:
  assumes "consistent_puts ps" and "mset ps = mset qs"
  shows "fold put_value ps = fold put_value qs"
proof (rule fold_multiset_equiv [OF _ assms(2)])
  fix p q assume "p \<in> set ps" "q \<in> set ps"
  with assms(1) put_value_commute [of p q] show "put_value p \<circ> put_value q = put_value q \<circ> put_value p"
    by (auto simp: consistent_puts_def fun_eq_iff)
qed

lemma fold_put_value_grows:
  "d k = Some old \<Longrightarrow> \<exists>w. fold put_value ps d k = Some w \<and> cid_of old \<le> cid_of w"
proof (induction ps arbitrary: d old)
  case (Cons p ps)
  obtain kp cp vp where p: "p = (kp, cp, vp)" by (cases p)
  have "\<exists>w. put_value p d k = Some w \<and> cid_of old \<le> cid_of w"
    using Cons.prems p by (cases "k = kp") (auto simp: put_value_at put_value_other)
  with Cons.IH show ?case by (metis (no_types, lifting) fold_simps(2) order_trans)
qed simp

lemma fold_put_value_covers:
  assumes "(k, c, v) \<in> set ps"
  shows "\<exists>w. fold put_value ps d k = Some w \<and> c \<le> cid_of w"
  using assms
proof (induction ps arbitrary: d)
  case (Cons p ps)
  show ?case
  proof (cases "p = (k, c, v)")
    case True
    have "\<exists>w. put_value p d k = Some w \<and> c \<le> cid_of w"
      using True by (cases "d k") (auto simp: put_value_at)
    then obtain w where "put_value p d k = Some w" "c \<le> cid_of w" by blast
    with fold_put_value_grows [of "put_value p d" k w ps] show ?thesis by auto
  qed (use Cons in auto)
qed simp

lemma fold_put_value_from:
  "fold put_value ps d k = Some w \<Longrightarrow> d k = Some w \<or> (\<exists>c v. (k, c, v) \<in> set ps \<and> w = v @ le_bytes 8 c)"
proof (induction ps arbitrary: d)
  case (Cons p ps)
  obtain kp cp vp where p: "p = (kp, cp, vp)" by (cases p)
  from Cons.IH [of "put_value p d"] Cons.prems have "put_value p d k = Some w \<or> (\<exists>c v. (k, c, v) \<in> set ps \<and> w = v @ le_bytes 8 c)"
    by simp
  with p put_value_same [of k cp vp d w] put_value_other [of k kp cp vp d] show ?case
    by (cases "k = kp") auto
qed simp

lemma put_newer_old: "d k = Some e \<Longrightarrow> c \<le> cid_of (ve_value e) \<Longrightarrow> put_newer (k, c, v) d = d"
  by (auto simp: put_newer_def Let_def dest: leD)

lemma fold_put_newer_again:
  assumes "puts_fit d ps" and "set qs \<subseteq> set ps"
  shows "fold put_newer qs (fold put_newer ps d) = fold put_newer ps d"
  using assms(2)
proof (induction qs)
  case (Cons q qs)
  obtain k c v where q: "q = (k, c, v)" by (cases q)
  with Cons.prems fold_put_value_covers [of k c v ps "values_of d"] obtain w where
    "fold put_value ps (values_of d) k = Some w" "c \<le> cid_of w" by auto
  moreover have "map_option ve_value (fold put_newer ps d k) = fold put_value ps (values_of d) k"
    using fold_put_newer_values [OF assms(1)] by (metis values_of_def)
  ultimately obtain e where "fold put_newer ps d k = Some e" "c \<le> cid_of (ve_value e)" by auto
  with put_newer_old [of "fold put_newer ps d" k e c v] q have "put_newer q (fold put_newer ps d) = fold put_newer ps d" by simp
  with Cons show ?case by simp
qed simp

section \<open>Properties\<close>

lemma replay_of_encoded_eq:
  assumes "\<forall>t \<in> set ts. log_txn_ok t" and "db_ok d" and "here < 128"
  shows "treplay_in_same_thread_opt_mbta_v2 here (enc_batch ts c) d =
      Inr (length (concat (map lt_kvs ts)), fold put_newer (concat (map txn_puts ts)) d)"
proof -
  have "wrap_logs (enc_batch ts c) (length (enc_txns ts)) 0 = Inr (wrapped 0 ts)"
    using wrap_logs_enc [OF assms(1), of "[]" "le_bytes 8 c"] by (simp add: enc_batch_def)
  moreover have "replay_wrapped here (wrapped 0 ts) (enc_batch ts c) d =
    Inr (length (concat (map lt_kvs ts)), enc_txns (map unmark_txn ts) @ le_bytes 8 c,
         fold put_newer (concat (map txn_puts ts)) d)"
    using replay_wrapped_enc [OF assms, of "le_bytes 8 c" "[]"] by (simp add: enc_batch_def)
  ultimately show ?thesis
    by (simp add: treplay_in_same_thread_opt_mbta_v2_def) (simp add: enc_batch_def)
qed

text \<open>
  C2.  Replaying an encoded log entry finds every record.  On a buffer that holds transactions
  in the log format, the replay never reads or writes outside the buffer (the eight bytes it
  copies beyond each value included), no assertion fails and no retry loops, it stops at the
  trailer, counts every record, and its effect on the tables is, for every record in order, the put
  that \<open>put_newer\<close> spells out: a new key is inserted, an older value is replaced if the new one fits its
  cell, and is kept in a larger cell if it does not; the trailer is the commit id the follower
  reports.
\<close>

theorem replay_of_encoded:
  assumes "\<forall>t \<in> set ts. log_txn_ok t" and "db_ok d" and "here < 128"
  shows "treplay_in_same_thread_opt_mbta_v2 here (enc_batch ts c) d =
      Inr (length (concat (map lt_kvs ts)), fold put_newer (concat (map txn_puts ts)) d) \<and>
    get_latest_commit_id (enc_batch ts c) = Inr c"
proof
  show "treplay_in_same_thread_opt_mbta_v2 here (enc_batch ts c) d =
      Inr (length (concat (map lt_kvs ts)), fold put_newer (concat (map txn_puts ts)) d)"
    by (rule replay_of_encoded_eq [OF assms])
  show "get_latest_commit_id (enc_batch ts c) = Inr c"
    by (simp add: get_latest_commit_id_def enc_batch_def mem_read_def)
qed

definition ex_txn :: "u64 \<Rightarrow> bytes \<Rightarrow> bool \<Rightarrow> log_txn" where
  "ex_txn c v del = \<lparr>lt_cid = c, lt_kvs = [\<lparr>kv_key = [107], kv_val = v, kv_table = 10002, kv_delete = del\<rparr>]\<rparr>"

lemma ex_txn_ok: "length v < 100 \<Longrightarrow> log_txn_ok (ex_txn c v del)"
  by (simp add: log_txn_ok_def ex_txn_def kv_ok_def)

lemma capacity_small: "length w \<in> {8, 9, 10} \<Longrightarrow> capacity_for w = 16"
  by (auto simp: capacity_for_def size_for_def pad_def sizeof_stuffed_str_def)

theorem replay_of_encoded_witness:
  "\<exists>d. treplay_in_same_thread_opt_mbta_v2 3 (enc_batch [ex_txn 7 [1, 2] False, ex_txn 9 [] True] 9) Map.empty =
     Inr (2, d) \<and> values_of d = [(10002, [107]) \<mapsto> le_bytes 8 (9 :: u64)]"
proof -
  let ?ts = "[ex_txn 7 [1, 2] False, ex_txn 9 [] True]"
  have "treplay_in_same_thread_opt_mbta_v2 3 (enc_batch ?ts 9) Map.empty =
      Inr (length (concat (map lt_kvs ?ts)), fold put_newer (concat (map txn_puts ?ts)) Map.empty)"
    using replay_of_encoded [of ?ts Map.empty 3 9] by (simp add: ex_txn_ok db_ok_def)
  moreover have "values_of (fold put_newer (concat (map txn_puts ?ts)) Map.empty) = [(10002, [107]) \<mapsto> le_bytes 8 (9 :: u64)]"
    using cid_of_append [of "[1, 2]" 7]
    by (simp add: ex_txn_def txn_puts_def kv_put_def put_newer_def values_of_def fun_eq_iff capacity_small)
  moreover have "length (concat (map lt_kvs ?ts)) = 2" by (simp add: ex_txn_def)
  ultimately show ?thesis by simp
qed

primrec replay_all :: "u64 \<Rightarrow> (log_txn list \<times> u64) list \<Rightarrow> db \<Rightarrow> db result" where
  "replay_all here [] d = Inr d"
| "replay_all here (b # bs) d =
     rbind (treplay_in_same_thread_opt_mbta_v2 here (enc_batch (fst b) (snd b)) d) (\<lambda>(_, d'). replay_all here bs d')"

abbreviation batch_puts :: "log_txn list \<times> u64 \<Rightarrow> put list" where
  "batch_puts b \<equiv> concat (map txn_puts (fst b))"

lemma replay_all_eq:
  assumes "\<forall>b \<in> set bs. \<forall>t \<in> set (fst b). log_txn_ok t" and "db_ok d" and "here < 128"
  shows "replay_all here bs d = Inr (fold put_newer (concat (map batch_puts bs)) d)"
  using assms
proof (induction bs arbitrary: d)
  case (Cons b bs)
  have "db_ok (fold put_newer (batch_puts b) d)"
    using Cons.prems txn_puts_ok by (intro db_ok_fold) auto
  with Cons replay_of_encoded_eq [of "fst b" d here "snd b"] show ?case by simp
qed simp

text \<open>
  C3.  Replaying log entries in any order gives the same values.  Entries come from one Paxos stream
  per worker thread and are applied as they arrive; when one thread applies them, a commit id writes a
  key at most once, and the values of a key fit into the cells made for its other values (and
  into the cell the key has at the start), the tables show the same values whatever the order.
\<close>

theorem replay_order_independent:
  assumes "\<forall>b \<in> set bs. \<forall>t \<in> set (fst b). log_txn_ok t" and "db_ok d" and "here < 128"
    and "consistent_puts (concat (map batch_puts bs))" and "puts_fit d (concat (map batch_puts bs))"
    and "mset bs = mset bs'"
  shows "\<exists>d1 d2. replay_all here bs d = Inr d1 \<and> replay_all here bs' d = Inr d2 \<and> values_of d1 = values_of d2"
proof -
  let ?ps = "concat (map batch_puts bs)" and ?qs = "concat (map batch_puts bs')"
  have s: "set bs = set bs'" using assms(6) by (rule mset_eq_setD)
  then have "set ?ps = set ?qs" by simp
  then have "puts_fit d ?qs" using puts_fit_set assms(5) by blast
  moreover have "mset ?ps = mset ?qs"
    using assms(6) by (simp add: mset_concat flip: sum_mset_sum_list)
  ultimately have "values_of (fold put_newer ?ps d) = values_of (fold put_newer ?qs d)"
    using fold_put_value_perm [OF assms(4)] fold_put_newer_values assms(5) by simp
  then show ?thesis
    using replay_all_eq [of bs d here] replay_all_eq [of bs' d here] assms(1-3) s by simp
qed

theorem replay_order_independent_witness:
  "\<exists>d1 d2. replay_all 3 [([ex_txn 7 [1] False], 7), ([ex_txn 9 [2, 3] False], 9)] Map.empty = Inr d1 \<and>
   replay_all 3 [([ex_txn 9 [2, 3] False], 9), ([ex_txn 7 [1] False], 7)] Map.empty = Inr d2 \<and>
   values_of d1 = values_of d2"
  by (rule replay_order_independent)
    (simp_all add: ex_txn_ok db_ok_def consistent_puts_def,
     simp_all add: ex_txn_def txn_puts_def kv_put_def puts_fit_def stored_def capacity_small)

text \<open>
  C4.  Newest wins: after the entries have been replayed into empty tables by one thread, with the
  values of a key fitting into each other's cells, every key shows the record of its largest commit id (a
  deletion leaves the bare commit id), and replaying an entry again changes nothing.
\<close>

theorem replay_newest_wins:
  assumes ok: "\<forall>b \<in> set bs. \<forall>t \<in> set (fst b). log_txn_ok t" and h: "here < 128"
    and ps: "ps = concat (map batch_puts bs)" and fit: "puts_fit Map.empty ps" and k: "(k, c, v) \<in> set ps"
  shows "\<exists>d c' v'. replay_all here bs Map.empty = Inr d \<and> values_of d k = Some (v' @ le_bytes 8 c') \<and>
    (k, c', v') \<in> set ps \<and> (\<forall>c'' v''. (k, c'', v'') \<in> set ps \<longrightarrow> c'' \<le> c') \<and>
    (\<forall>b \<in> set bs. \<exists>n. treplay_in_same_thread_opt_mbta_v2 here (enc_batch (fst b) (snd b)) d = Inr (n, d))"
proof -
  let ?d = "fold put_newer ps Map.empty" and ?m = "fold put_value ps (values_of Map.empty)"
  have e: "db_ok Map.empty" by (simp add: db_ok_def)
  have r: "replay_all here bs Map.empty = Inr ?d" using replay_all_eq [OF ok e h] ps by simp
  have m: "values_of ?d = ?m" by (rule fold_put_newer_values [OF fit])
  have pok: "\<forall>p \<in> set ps. put_ok p" using ok ps txn_puts_ok by auto
  from fold_put_value_covers [OF k] obtain w where w: "?m k = Some w" by blast
  from fold_put_value_from [OF w] obtain c' v' where c': "(k, c', v') \<in> set ps" "w = v' @ le_bytes 8 c'"
    by (auto simp: values_of_def)
  have "c'' \<le> c'" if "(k, c'', v'') \<in> set ps" for c'' v''
    using fold_put_value_covers [OF that, of "values_of Map.empty"] w c'(2) by auto
  moreover have "\<exists>n. treplay_in_same_thread_opt_mbta_v2 here (enc_batch (fst b) (snd b)) ?d = Inr (n, ?d)" if b: "b \<in> set bs" for b
  proof -
    have "set (batch_puts b) \<subseteq> set ps" using b ps by auto
    from fold_put_newer_again [OF fit this] show ?thesis
      using replay_of_encoded_eq [of "fst b" ?d here "snd b"] ok b h db_ok_fold [OF e pok] by auto
  qed
  ultimately show ?thesis using r w c' m by metis
qed

theorem replay_newest_wins_witness:
  "\<exists>d. replay_all 3 [([ex_txn 9 [2] False], 9), ([ex_txn 7 [1] False], 7)] Map.empty = Inr d \<and>
     values_of d (10002, [107]) = Some ([2] @ le_bytes 8 (9 :: u64))"
proof -
  let ?bs = "[([ex_txn 9 [2] False], 9), ([ex_txn 7 [1] False], 7)]"
  have ps: "concat (map batch_puts ?bs) = [((10002, [107]), 9, [2]), ((10002, [107]), 7, [1])]"
    by (simp add: ex_txn_def txn_puts_def kv_put_def)
  have ok: "\<forall>b \<in> set ?bs. \<forall>t \<in> set (fst b). log_txn_ok t" by (simp add: ex_txn_ok)
  have fit: "puts_fit Map.empty [((10002, [107]), 9, [2]), ((10002, [107]), 7, [1])]"
    by (simp add: puts_fit_def stored_def capacity_small)
  have m: "((10002, [107]), 9, [2]) \<in> set [((10002, [107]), 9, [2]), ((10002, [107]), 7, [1]) :: put]" by simp
  have h: "(3 :: u64) < 128" by simp
  from replay_newest_wins [OF ok h refl, unfolded ps, OF fit m]
  obtain d c' v' where d: "replay_all 3 ?bs Map.empty = Inr d" "values_of d (10002, [107]) = Some (v' @ le_bytes 8 c')"
    and c: "((10002, [107]), c', v') \<in> set [((10002, [107]), 9, [2]), ((10002, [107]), 7, [1]) :: put]"
    and le: "\<forall>c'' v''. ((10002, [107]), c'', v'') \<in> set [((10002, [107]), 9, [2]), ((10002, [107]), 7, [1]) :: put] \<longrightarrow> c'' \<le> c'"
    by blast
  have "9 \<le> c'" using le m by blast
  with c have "c' = 9 \<and> v' = [2]" by auto
  with d show ?thesis by blast
qed

text \<open>
  C5.  A newer value that needs a larger cell is lost.  A key is deleted by one transaction and given a
  value of more than eight bytes by a later one.  Replayed in this order, the deletion makes a cell for
  its eight bytes; the put of the value finds it too small, marks it invalid, and so fails its own
  validation; nobody looks at the verdict, and the key stays deleted.  In the other order the value
  is there.
\<close>

theorem replay_loses_longer_value:
  assumes del: "kv_delete r" and upd: "\<not> kv_delete r'"
    and same: "kv_table r' = kv_table r" "kv_key r' = kv_key r"
    and "8 < length (kv_val r')" and "c < c'" and "here < 128"
    and fits: "log_txn_ok \<lparr>lt_cid = c, lt_kvs = [r]\<rparr>" "log_txn_ok \<lparr>lt_cid = c', lt_kvs = [r']\<rparr>"
  shows "\<exists>d d'. replay_all here [([\<lparr>lt_cid = c, lt_kvs = [r]\<rparr>], c), ([\<lparr>lt_cid = c', lt_kvs = [r']\<rparr>], c')] Map.empty = Inr d \<and>
      values_of d (kv_table r, kv_key r) = Some (le_bytes 8 c) \<and>
    replay_all here [([\<lparr>lt_cid = c', lt_kvs = [r']\<rparr>], c'), ([\<lparr>lt_cid = c, lt_kvs = [r]\<rparr>], c)] Map.empty = Inr d' \<and>
      values_of d' (kv_table r, kv_key r) = Some (kv_val r' @ le_bytes 8 c')"
proof -
  let ?b = "([\<lparr>lt_cid = c, lt_kvs = [r]\<rparr>], c)" and ?b' = "([\<lparr>lt_cid = c', lt_kvs = [r']\<rparr>], c')"
  have e: "db_ok Map.empty" by (simp add: db_ok_def)
  have p: "batch_puts ?b = [((kv_table r, kv_key r), c, [])]"
    "batch_puts ?b' = [((kv_table r, kv_key r), c', kv_val r')]"
    using del upd same by (simp_all add: txn_puts_def kv_put_def)
  have "unat (capacity_for (le_bytes 8 c)) = 16" by (simp add: capacity_small)
  with assms(5,6) have v: "values_of (fold put_newer (concat (map batch_puts [?b, ?b'])) Map.empty) (kv_table r, kv_key r) =
      Some (le_bytes 8 c)"
    "values_of (fold put_newer (concat (map batch_puts [?b', ?b])) Map.empty) (kv_table r, kv_key r) =
      Some (kv_val r' @ le_bytes 8 c')"
    using cid_of_append [of "[]" c] unfolding list.map p by (auto simp: put_newer_def values_of_def Let_def)
  show ?thesis
    using replay_all_eq [OF _ e assms(7), of "[?b, ?b']"] replay_all_eq [OF _ e assms(7), of "[?b', ?b]"] fits v by simp
qed

theorem replay_loses_longer_value_witness:
  "\<exists>d d'. replay_all 3 [([ex_txn 7 [] True], 7), ([ex_txn 9 (replicate 9 1) False], 9)] Map.empty = Inr d \<and>
      values_of d (10002, [107]) = Some (le_bytes 8 (7 :: u64)) \<and>
    replay_all 3 [([ex_txn 9 (replicate 9 1) False], 9), ([ex_txn 7 [] True], 7)] Map.empty = Inr d' \<and>
      values_of d' (10002, [107]) = Some (replicate 9 1 @ le_bytes 8 (9 :: u64))"
proof -
  let ?r = "\<lparr>kv_key = [107], kv_val = [], kv_table = 10002, kv_delete = True\<rparr>"
  let ?r' = "\<lparr>kv_key = [107], kv_val = replicate 9 1, kv_table = 10002, kv_delete = False\<rparr>"
  have "log_txn_ok \<lparr>lt_cid = 7, lt_kvs = [?r]\<rparr>" "log_txn_ok \<lparr>lt_cid = 9, lt_kvs = [?r']\<rparr>"
    by (simp_all add: log_txn_ok_def kv_ok_def)
  with replay_loses_longer_value [of ?r ?r' 7 9 3] show ?thesis
    by (simp add: kv_ok_def ex_txn_def)
qed

end
