(* ===== verification/Paxos_Server.thy ===== *)
theory Paxos_Server
  imports Rolis_Prelude
begin

text \<open>
  The acceptor and learner of Rolis's multi-Paxos: \<^verbatim>\<open>PaxosServer\<close>
  (\<^verbatim>\<open>third-party/paxos/src/deptran/paxos/server.h\<close> and \<^verbatim>\<open>server.cc\<close>) with the \<^verbatim>\<open>ElectionState\<close> it
  shares with the other partitions of its machine (\<^verbatim>\<open>paxos_worker.h\<close>).

  A machine runs one \<^verbatim>\<open>PaxosServer\<close> per partition, the elements of the global vector
  \<^verbatim>\<open>pxs_workers_g\<close>; here they are the list \<open>workers\<close> of a \<open>paxos_node\<close>.  A handler runs in the
  server of one partition \<open>p\<close>, and may change the servers of the other partitions and the election
  state; it is one step of the model.  The out parameters \<^verbatim>\<open>*valid\<close> and \<^verbatim>\<open>*ballot\<close> are the reply,
  where \<open>None\<close> says that the handler left \<^verbatim>\<open>*ballot\<close> alone.  \<^verbatim>\<open>verify(0)\<close> is the error \<open>Assert_Fail\<close>.
  The calls of the application, \<^verbatim>\<open>app_next_\<close>, are recorded in order in the field \<open>applied\<close>, each with
  the slot it was made for.  Slots are natural numbers and ballots integers: the model is about
  runs with fewer than \<open>2 ^ 31\<close> slots and epochs, where the 32-bit loop counters and the 64-bit
  fields do not wrap.  Clocks (\<^verbatim>\<open>set_lastseen\<close>) and log messages have no counterpart.
\<close>

section \<open>State\<close>

record 'c PaxosData =
  max_ballot_seen :: int
  max_ballot_accepted :: int
  is_no_op :: bool
  accepted_cmd :: "'c option"
  committed_cmd :: "'c option"

record BulkPrepare =
  seen_ballot :: int
  bp_leader_id :: int

record 'c PaxosServer =
  min_active_slot :: nat
  max_executed_slot :: nat
  max_committed_slot :: nat
  cur_min_prepared_slot :: nat
  max_accepted_slot :: nat
  max_possible_slot :: nat
  cur_open_slot :: nat
  max_touched_slot :: nat
  ps_leader_id :: int
  bulk_prepares :: "nat \<times> nat \<rightharpoonup> BulkPrepare"
  logs :: "nat \<rightharpoonup> 'c PaxosData"
  cur_epoch :: int
  n_prepare :: nat
  n_accept :: nat
  n_commit :: nat
  applied :: "(nat \<times> 'c) list"

record ElectionState =
  es_epoch :: int
  cur_state :: int
  machine_id :: int
  es_leader_id :: int

record 'c paxos_node =
  es :: ElectionState
  workers :: "'c PaxosServer list"

type_synonym reply = "int \<times> int option"

definition new_PaxosData :: "'c PaxosData" where
  "new_PaxosData = \<lparr>max_ballot_seen = 0, max_ballot_accepted = 0, is_no_op = False,
     accepted_cmd = None, committed_cmd = None\<rparr>"

text \<open>The constructor leaves \<^verbatim>\<open>leader_id\<close> and \<^verbatim>\<open>cur_epoch\<close> uninitialised: their first values are arguments.\<close>

definition new_PaxosServer :: "int \<Rightarrow> int \<Rightarrow> 'c PaxosServer" where
  "new_PaxosServer l e = \<lparr>min_active_slot = 0, max_executed_slot = 0, max_committed_slot = 0,
     cur_min_prepared_slot = 0, max_accepted_slot = 0, max_possible_slot = 2 ^ 31 - 1,
     cur_open_slot = 1, max_touched_slot = 0, ps_leader_id = l, bulk_prepares = Map.empty,
     logs = Map.empty, cur_epoch = e, n_prepare = 0, n_accept = 0, n_commit = 0, applied = []\<rparr>"

definition set_epoch :: "int \<Rightarrow> ElectionState \<Rightarrow> ElectionState" where
  "set_epoch val s = (if val = - 1 then s\<lparr>es_epoch := es_epoch s + 1\<rparr> else s\<lparr>es_epoch := val\<rparr>)"

definition set_state :: "int \<Rightarrow> ElectionState \<Rightarrow> ElectionState" where
  "set_state val s = s\<lparr>cur_state := val\<rparr>"

definition set_leader :: "int \<Rightarrow> ElectionState \<Rightarrow> ElectionState" where
  "set_leader val s = s\<lparr>es_leader_id := val\<rparr>"

text \<open>
  The messages: \<^verbatim>\<open>BulkPrepareLog\<close>, \<^verbatim>\<open>HeartBeatLog\<close>, \<^verbatim>\<open>PaxosPrepCmd\<close>, \<^verbatim>\<open>BulkPaxosCmd\<close>, \<^verbatim>\<open>SyncLogRequest\<close>,
  \<^verbatim>\<open>SyncLogResponse\<close> and \<^verbatim>\<open>SyncNoOpRequest\<close>.
\<close>

record BulkPrepareLog =
  min_prepared_slots :: "(nat \<times> nat) list"
  bpl_leader_id :: int
  bpl_epoch :: int

record HeartBeatLog =
  hb_leader_id :: int
  hb_epoch :: int

record PaxosPrepCmd =
  slots :: "nat list"
  ballots :: "int list"
  cmd_leader_id :: int

record 'c BulkPaxosCmd = PaxosPrepCmd +
  cmds :: "'c option list"

record SyncLogRequest =
  sl_leader_id :: int
  sl_epoch :: int
  sync_commit_slot :: "nat list"

record 'c SyncLogResponse =
  sync_data :: "(nat list \<times> int list \<times> 'c list) list"
  missing_slots :: "nat list list"

record SyncNoOpRequest =
  no_leader_id :: int
  no_epoch :: int
  sync_slots :: "nat list"

section \<open>Access to a server and its log\<close>

definition GetInstance :: "nat \<Rightarrow> 'c PaxosServer \<Rightarrow> ('c PaxosData \<times> 'c PaxosServer) result" where
  "GetInstance i ps = rbind (rassert (min_active_slot ps \<le> i)) (\<lambda>_.
     case logs ps i of
       Some d \<Rightarrow> Inr (d, ps)
     | None \<Rightarrow> Inr (new_PaxosData, ps\<lparr>logs := (logs ps)(i \<mapsto> new_PaxosData)\<rparr>))"

text \<open>The instance is a shared pointer into the map: an assignment to its fields changes the map.\<close>

definition put_instance :: "nat \<Rightarrow> 'c PaxosData \<Rightarrow> 'c PaxosServer \<Rightarrow> 'c PaxosServer" where
  "put_instance i d ps = ps\<lparr>logs := (logs ps)(i \<mapsto> d)\<rparr>"

definition get_open_slot :: "'c PaxosServer \<Rightarrow> nat \<times> 'c PaxosServer" where
  "get_open_slot ps = (cur_open_slot ps, ps\<lparr>cur_open_slot := cur_open_slot ps + 1\<rparr>)"

primrec free_loop :: "nat \<Rightarrow> nat \<Rightarrow> 'c PaxosServer \<Rightarrow> 'c PaxosServer" where
  "free_loop 0 i ps = ps\<lparr>min_active_slot := i\<rparr>"
| "free_loop (Suc n) i ps = free_loop n (i + 1) (ps\<lparr>logs := (logs ps)(i := None)\<rparr>)"

definition FreeSlots :: "'c PaxosServer \<Rightarrow> 'c PaxosServer" where
  "FreeSlots ps = free_loop (max_executed_slot ps - (min_active_slot ps + 100)) (min_active_slot ps) ps"

definition clear_accepted_entries :: "'c PaxosServer \<Rightarrow> 'c PaxosServer" where
  "clear_accepted_entries ps =
     fold (\<lambda>i ps. ps\<lparr>logs := (logs ps)(i := None)\<rparr>)
       [max_committed_slot ps..<Suc (max_accepted_slot ps)] ps"

section \<open>Single-slot handlers\<close>

definition OnPrepare :: "nat \<Rightarrow> int \<Rightarrow> 'c PaxosServer \<Rightarrow> (int \<times> 'c PaxosServer) result" where
  "OnPrepare slot_id ballot ps = rbind (GetInstance slot_id ps) (\<lambda>(d, ps).
     rbind (rassert (ballot \<noteq> max_ballot_seen d)) (\<lambda>_.
     rbind (rassert (max_ballot_seen d < ballot)) (\<lambda>_.
     let d = d\<lparr>max_ballot_seen := ballot\<rparr>;
         ps = put_instance slot_id d ps
     in Inr (max_ballot_seen d, ps\<lparr>n_prepare := n_prepare ps + 1\<rparr>))))"

definition OnAccept :: "nat \<Rightarrow> int \<Rightarrow> 'c \<Rightarrow> 'c PaxosServer \<Rightarrow> (int \<times> 'c PaxosServer) result" where
  "OnAccept slot_id ballot cmd ps = rbind (GetInstance slot_id ps) (\<lambda>(d, ps).
     rbind (rassert (max_ballot_accepted d < ballot)) (\<lambda>_.
     rbind (rassert (max_ballot_seen d \<le> ballot)) (\<lambda>_.
     let d = d\<lparr>max_ballot_seen := ballot, max_ballot_accepted := ballot\<rparr>;
         ps = put_instance slot_id d ps
     in Inr (max_ballot_seen d, ps\<lparr>n_accept := n_accept ps + 1\<rparr>))))"

text \<open>
  The loop from \<^verbatim>\<open>max_executed_slot_ + 1\<close> to \<^verbatim>\<open>max_committed_slot_\<close> that stops at the first slot with no
  committed command; \<open>n\<close> is the number of slots still to look at.
\<close>

primrec execute_loop :: "nat \<Rightarrow> nat \<Rightarrow> 'c PaxosServer \<Rightarrow> 'c PaxosServer result" where
  "execute_loop 0 i ps = Inr ps"
| "execute_loop (Suc n) i ps = rbind (GetInstance i ps) (\<lambda>(d, ps).
     case committed_cmd d of
       Some c \<Rightarrow> execute_loop n (i + 1) (ps\<lparr>applied := applied ps @ [(i, c)],
                    max_executed_slot := max_executed_slot ps + 1, n_commit := n_commit ps + 1\<rparr>)
     | None \<Rightarrow> Inr ps)"

definition OnCommit :: "nat \<Rightarrow> int \<Rightarrow> 'c \<Rightarrow> 'c PaxosServer \<Rightarrow> 'c PaxosServer result" where
  "OnCommit slot_id ballot cmd ps = rbind (GetInstance slot_id ps) (\<lambda>(d, ps).
     let ps = put_instance slot_id (d\<lparr>committed_cmd := Some cmd\<rparr>) ps;
         ps = (if max_committed_slot ps < slot_id then ps\<lparr>max_committed_slot := slot_id\<rparr> else ps)
     in rbind (rassert (max_executed_slot ps < slot_id)) (\<lambda>_.
        rbind (execute_loop (max_committed_slot ps - max_executed_slot ps)
                 (max_executed_slot ps + 1) ps) (\<lambda>ps.
        Inr (FreeSlots ps))))"

section \<open>Handlers that span the partitions\<close>

definition upd_worker :: "nat \<Rightarrow> ('c PaxosServer \<Rightarrow> 'c PaxosServer) \<Rightarrow> 'c paxos_node \<Rightarrow> 'c paxos_node" where
  "upd_worker i f nd = nd\<lparr>workers := (workers nd)[i := f (workers nd ! i)]\<rparr>"

definition upd_es :: "(ElectionState \<Rightarrow> ElectionState) \<Rightarrow> 'c paxos_node \<Rightarrow> 'c paxos_node" where
  "upd_es f nd = nd\<lparr>es := f (es nd)\<rparr>"

text \<open>
  The loop over \<^verbatim>\<open>i < pxs_workers_g.size()-1\<close> that moves every partition to a new epoch: the last
  worker carries the election traffic and is left out.
\<close>

definition raise_epochs :: "int \<Rightarrow> int \<Rightarrow> 'c paxos_node \<Rightarrow> 'c paxos_node" where
  "raise_epochs b leader nd =
     fold (\<lambda>i. upd_worker i (\<lambda>ps. ps\<lparr>cur_epoch := b, ps_leader_id := leader\<rparr>))
       [0..<length (workers nd) - 1] nd"

text \<open>
  \<^verbatim>\<open>OnBulkPrepare\<close> looks up the current range (which creates it), erases it and enters the new one.
  The code writes the two fields of the new range through a pointer to the erased element and
  copies them from there; the model takes the memory of the element to be still in place.
\<close>

definition bp_range :: "'c PaxosServer \<Rightarrow> nat \<times> nat" where
  "bp_range ps = (cur_min_prepared_slot ps, max_possible_slot ps)"

definition bp_touch :: "'c PaxosServer \<Rightarrow> BulkPrepare \<times> 'c PaxosServer" where
  "bp_touch ps = (case bulk_prepares ps (bp_range ps) of
     Some bp \<Rightarrow> (bp, ps)
   | None \<Rightarrow> let bp = \<lparr>seen_ballot = 0, bp_leader_id = 0\<rparr>
             in (bp, ps\<lparr>bulk_prepares := (bulk_prepares ps)(bp_range ps \<mapsto> bp)\<rparr>))"

definition bulk_prepare_check :: "BulkPrepareLog \<Rightarrow> nat \<Rightarrow> 'c paxos_node \<Rightarrow> 'c paxos_node result" where
  "bulk_prepare_check m i nd = rbind (vec_at (workers nd) i) (\<lambda>ps.
     let (bp, ps) = bp_touch ps
     in rbind (rassert (\<not> bpl_epoch m < seen_ballot bp)) (\<lambda>_. Inr (upd_worker i (\<lambda>_. ps) nd)))"

definition bulk_prepare_set :: "nat \<Rightarrow> BulkPrepareLog \<Rightarrow> nat \<Rightarrow> 'c paxos_node \<Rightarrow> 'c paxos_node result" where
  "bulk_prepare_set p m i nd = rbind (vec_at (workers nd) i) (\<lambda>ps.
     let slot_id_min = snd (min_prepared_slots m ! i);
         (bp, ps) = bp_touch ps;
         ps = ps\<lparr>bulk_prepares := (bulk_prepares ps)(bp_range ps := None)\<rparr>;
         bp = bp\<lparr>seen_ballot := bpl_epoch m, bp_leader_id := bpl_leader_id m\<rparr>;
         key = (slot_id_min, max_possible_slot (workers nd ! p));
         ps = ps\<lparr>bulk_prepares := (bulk_prepares ps)(key \<mapsto> bp),
                 cur_min_prepared_slot := slot_id_min, cur_epoch := bpl_epoch m\<rparr>
     in Inr (upd_worker i (\<lambda>_. ps) nd))"

definition OnBulkPrepare :: "nat \<Rightarrow> BulkPrepareLog \<Rightarrow> 'c paxos_node \<Rightarrow> (reply \<times> 'c paxos_node) result" where
  "OnBulkPrepare p m nd =
     (if bpl_epoch m < es_epoch (es nd) then Inr ((0, Some (es_epoch (es nd))), nd)
      else if bpl_epoch m = es_epoch (es nd) \<and> bpl_leader_id m \<noteq> machine_id (es nd)
      then Inr ((0, Some (es_epoch (es nd))), nd)
      else let n = length (min_prepared_slots m)
        in rbind (for_each (bulk_prepare_check m) [0..<n] nd) (\<lambda>nd.
           rbind (for_each (bulk_prepare_set p m) [0..<n] nd) (\<lambda>nd.
           let nd = (if machine_id (es nd) \<noteq> bpl_leader_id m then upd_es (set_state 0) nd else nd);
               nd = upd_es (set_leader (bpl_leader_id m)) nd;
               nd = upd_es (set_epoch (bpl_epoch m)) nd
           in Inr ((1, Some (es_epoch (es nd))), nd))))"

definition OnHeartbeat :: "HeartBeatLog \<Rightarrow> 'c paxos_node \<Rightarrow> (reply \<times> 'c paxos_node) result" where
  "OnHeartbeat m nd =
     (if hb_epoch m < es_epoch (es nd) then Inr ((0, Some (es_epoch (es nd))), nd)
      else if hb_epoch m = es_epoch (es nd)
      then rbind (rassert (hb_leader_id m = es_leader_id (es nd))) (\<lambda>_.
        let nd = (if hb_leader_id m \<noteq> machine_id (es nd) then upd_es (set_state 0) nd else nd)
        in Inr ((1, None), upd_es (set_epoch (hb_epoch m)) nd))
      else
        let nd = upd_es (set_epoch (hb_epoch m)) (upd_es (set_state 0) nd);
            nd = raise_epochs (hb_epoch m) (hb_leader_id m) nd
        in Inr ((1, None), upd_es (set_leader (hb_leader_id m)) nd))"

text \<open>
  The reply of \<^verbatim>\<open>OnBulkPrepare2\<close> carries the command accepted for the slot, with its ballot, when
  there is one.
\<close>

definition OnBulkPrepare2 ::
  "nat \<Rightarrow> PaxosPrepCmd \<Rightarrow> 'c paxos_node \<Rightarrow> ((reply \<times> (int \<times> nat \<times> 'c) option) \<times> 'c paxos_node) result" where
  "OnBulkPrepare2 p m nd =
     rbind (vec_at (ballots m) 0) (\<lambda>cur_b. rbind (vec_at (slots m) 0) (\<lambda>cur_slot.
     let ps = workers nd ! p; req_leader = cmd_leader_id m in
     if cur_b < cur_epoch ps then Inr (((0, Some (cur_epoch ps)), None), nd)
     else
       let nd = (if req_leader \<noteq> machine_id (es nd) then upd_es (set_state 0) nd else nd);
           nd = upd_worker p (\<lambda>ps. ps\<lparr>max_touched_slot := max (max_touched_slot ps) cur_slot\<rparr>) nd
       in rbind
         (if cur_epoch ps < cur_b
          then Inr (raise_epochs cur_b req_leader
                      (upd_es (set_leader req_leader) (upd_es (set_epoch cur_b) nd)))
          else rbind (rassert (req_leader = es_leader_id (es nd))) (\<lambda>_. Inr nd)) (\<lambda>nd.
       rbind (GetInstance cur_slot (workers nd ! p)) (\<lambda>(d, ps).
       let nd = upd_worker p (\<lambda>_. ps) nd
       in case accepted_cmd d of
            None \<Rightarrow> Inr (((2, Some cur_b), None), nd)
          | Some c \<Rightarrow> Inr (((1, None), Some (max_ballot_accepted d, cur_slot, c)), nd)))))"

definition sync_entries :: "nat \<Rightarrow> nat \<Rightarrow> 'c PaxosServer \<Rightarrow> ((nat \<times> int \<times> 'c) list \<times> 'c PaxosServer) result" where
  "sync_entries lo hi ps = for_each (\<lambda>j (acc, ps). rbind (GetInstance j ps) (\<lambda>(d, ps).
     case committed_cmd d of
       Some c \<Rightarrow> Inr (acc @ [(j, max_ballot_accepted d, c)], ps)
     | None \<Rightarrow> Inr (acc, ps))) [lo..<Suc hi] ([], ps)"

definition missing_entries :: "nat \<Rightarrow> nat \<Rightarrow> 'c PaxosServer \<Rightarrow> (nat list \<times> 'c PaxosServer) result" where
  "missing_entries lo hi ps = for_each (\<lambda>j (acc, ps). rbind (GetInstance j ps) (\<lambda>(d, ps).
     Inr (if committed_cmd d = None then acc @ [j] else acc, ps))) [lo..<hi] ([], ps)"

definition sync_log_partition ::
  "SyncLogRequest \<Rightarrow> nat \<Rightarrow> 'c SyncLogResponse \<times> 'c paxos_node \<Rightarrow> ('c SyncLogResponse \<times> 'c paxos_node) result" where
  "sync_log_partition m i = (\<lambda>(r, nd).
     rbind (vec_at (sync_commit_slot m) i) (\<lambda>from.
     let ps = workers nd ! i in
     rbind (sync_entries from (max_committed_slot ps) ps) (\<lambda>(ent, ps).
     rbind (missing_entries (max_executed_slot ps) from ps) (\<lambda>(ms, ps).
     Inr (\<lparr>sync_data = sync_data r @ [(map fst ent, map (fst \<circ> snd) ent, map (snd \<circ> snd) ent)],
           missing_slots = missing_slots r @ [ms]\<rparr>,
         upd_worker i (\<lambda>_. ps) nd)))))"

definition OnSyncLog ::
  "SyncLogRequest \<Rightarrow> 'c paxos_node \<Rightarrow> ((reply \<times> 'c SyncLogResponse) \<times> 'c paxos_node) result" where
  "OnSyncLog m nd =
     (if sl_epoch m < es_epoch (es nd)
      then Inr (((0, Some (es_epoch (es nd))), \<lparr>sync_data = [], missing_slots = []\<rparr>), nd)
      else rbind (for_each (sync_log_partition m) [0..<length (workers nd) - 1]
                   (\<lparr>sync_data = [], missing_slots = []\<rparr>, nd)) (\<lambda>(r, nd).
        Inr (((1, None), r), nd)))"

text \<open>
  Accept and commit of a batch.  The loops over the slots of the batch share their head: a slot
  with an older ballot than the current epoch ends the loop with a negative reply, a newer ballot
  moves all partitions to its epoch.  The state of such a loop is the reply so far and the node;
  the flag says that the loop was left by \<^verbatim>\<open>break\<close>.
\<close>

type_synonym 'c bulk_state = "bool \<times> reply \<times> 'c paxos_node"

definition bulk_slot ::
  "nat \<Rightarrow> int \<Rightarrow> nat list \<Rightarrow> int list \<Rightarrow> (nat \<Rightarrow> nat \<Rightarrow> int \<Rightarrow> 'c PaxosServer \<Rightarrow> 'c PaxosServer result) \<Rightarrow>
   (int \<Rightarrow> reply \<Rightarrow> reply) \<Rightarrow> nat \<Rightarrow> 'c bulk_state \<Rightarrow> 'c bulk_state result" where
  "bulk_slot p req_leader ss bs body upd_reply i = (\<lambda>(stopped, rep, nd).
     if stopped then Inr (stopped, rep, nd)
     else rbind (vec_at ss i) (\<lambda>slot_id. rbind (vec_at bs i) (\<lambda>ballot_id.
     if ballot_id < cur_epoch (workers nd ! p)
     then Inr (True, (0, Some (cur_epoch (workers nd ! p))), nd)
     else
       let nd = (if cur_epoch (workers nd ! p) < ballot_id then raise_epochs ballot_id req_leader nd else nd);
           nd = upd_es (set_leader req_leader) nd
       in rbind (body i slot_id ballot_id (workers nd ! p)) (\<lambda>ps.
          Inr (False, upd_reply ballot_id rep, upd_worker p (\<lambda>_. ps) nd)))))"

definition accept_slot :: "'c option list \<Rightarrow> nat \<Rightarrow> nat \<Rightarrow> int \<Rightarrow> 'c PaxosServer \<Rightarrow> 'c PaxosServer result" where
  "accept_slot cs i slot_id ballot_id ps = rbind (GetInstance slot_id ps) (\<lambda>(d, ps).
     rbind (vec_at cs i) (\<lambda>c.
     let d = d\<lparr>max_ballot_seen := ballot_id, max_ballot_accepted := ballot_id, accepted_cmd := c\<rparr>;
         ps = put_instance slot_id d ps
     in Inr (ps\<lparr>max_accepted_slot := slot_id, n_accept := n_accept ps + 1\<rparr>)))"

definition bump_committed :: "nat \<Rightarrow> 'c PaxosServer \<Rightarrow> 'c PaxosServer" where
  "bump_committed slot_id ps =
     (if max_committed_slot ps < slot_id then ps\<lparr>max_committed_slot := slot_id\<rparr> else ps)"

definition commit_slot :: "nat \<Rightarrow> nat \<Rightarrow> int \<Rightarrow> 'c PaxosServer \<Rightarrow> 'c PaxosServer result" where
  "commit_slot i slot_id ballot_id ps = rbind (GetInstance slot_id ps) (\<lambda>(d, ps).
     rbind (rassert (max_ballot_accepted d = ballot_id)) (\<lambda>_.
     let d = d\<lparr>max_ballot_seen := ballot_id, max_ballot_accepted := ballot_id,
               committed_cmd := accepted_cmd d\<rparr>
     in Inr (bump_committed slot_id (put_instance slot_id d ps))))"

definition sync_commit_one :: "'c option list \<Rightarrow> nat \<Rightarrow> nat \<Rightarrow> int \<Rightarrow> 'c PaxosServer \<Rightarrow> 'c PaxosServer result" where
  "sync_commit_one cs i slot_id ballot_id ps = rbind (GetInstance slot_id ps) (\<lambda>(d, ps).
     rbind (rassert (max_ballot_accepted d \<le> ballot_id)) (\<lambda>_.
     rbind (vec_at cs i) (\<lambda>c.
     let d = d\<lparr>max_ballot_seen := ballot_id, max_ballot_accepted := ballot_id, committed_cmd := c\<rparr>
     in Inr (bump_committed slot_id (put_instance slot_id d ps)))))"

text \<open>The head of the three batch handlers: reject an old first ballot, note the leader.\<close>

definition bulk_enter ::
  "nat \<Rightarrow> int list \<Rightarrow> nat list \<Rightarrow> int \<Rightarrow> ('c paxos_node \<Rightarrow> (reply \<times> 'c paxos_node) result) \<Rightarrow>
   'c paxos_node \<Rightarrow> (reply \<times> 'c paxos_node) result" where
  "bulk_enter p bs ss req_leader k nd =
     rbind (vec_at bs 0) (\<lambda>cur_b. rbind (vec_at ss 0) (\<lambda>_.
     if cur_b < cur_epoch (workers nd ! p) then Inr ((0, Some (cur_epoch (workers nd ! p))), nd)
     else k (if req_leader \<noteq> machine_id (es nd) then upd_es (set_state 0) nd else nd)))"

definition OnBulkAccept :: "nat \<Rightarrow> 'c BulkPaxosCmd \<Rightarrow> 'c paxos_node \<Rightarrow> (reply \<times> 'c paxos_node) result" where
  "OnBulkAccept p m = bulk_enter p (ballots m) (slots m) (cmd_leader_id m) (\<lambda>nd.
     rbind (for_each (bulk_slot p (cmd_leader_id m) (slots m) (ballots m) (accept_slot (cmds m)) (\<lambda>b (v, _). (v, Some b)))
             [0..<length (slots m)] (False, (1, None), nd)) (\<lambda>(_, rep, nd).
     Inr (rep, nd)))"

text \<open>
  The committed slots that follow the executed ones are collected first and handed to the
  application after the loop.
\<close>

primrec collect_loop ::
  "nat \<Rightarrow> nat \<Rightarrow> (nat \<times> 'c) list \<Rightarrow> 'c PaxosServer \<Rightarrow> ((nat \<times> 'c) list \<times> 'c PaxosServer) result" where
  "collect_loop 0 i commit_exec ps = Inr (commit_exec, ps)"
| "collect_loop (Suc n) i commit_exec ps = rbind (GetInstance i ps) (\<lambda>(d, ps).
     case committed_cmd d of
       Some c \<Rightarrow> collect_loop n (i + 1) (commit_exec @ [(i, c)])
                    (ps\<lparr>max_executed_slot := max_executed_slot ps + 1, n_commit := n_commit ps + 1\<rparr>)
     | None \<Rightarrow> Inr (commit_exec, ps))"

definition app_next :: "(nat \<times> 'c) list \<Rightarrow> 'c PaxosServer \<Rightarrow> 'c PaxosServer" where
  "app_next xs ps = ps\<lparr>applied := applied ps @ xs\<rparr>"

definition execute_committed :: "nat \<Rightarrow> 'c bulk_state \<Rightarrow> (reply \<times> 'c paxos_node) result" where
  "execute_committed p = (\<lambda>(_, (v, b), nd).
     if v = 0 then Inr ((v, b), nd)
     else let ps = workers nd ! p in
       rbind (collect_loop (max_committed_slot ps - max_executed_slot ps) (max_executed_slot ps + 1) [] ps)
         (\<lambda>(commit_exec, ps). Inr ((1, b), upd_worker p (\<lambda>_. app_next commit_exec ps) nd)))"

definition OnBulkCommit :: "nat \<Rightarrow> PaxosPrepCmd \<Rightarrow> 'c paxos_node \<Rightarrow> (reply \<times> 'c paxos_node) result" where
  "OnBulkCommit p m = bulk_enter p (ballots m) (slots m) (cmd_leader_id m) (\<lambda>nd.
     rbind (for_each (bulk_slot p (cmd_leader_id m) (slots m) (ballots m) commit_slot (\<lambda>b rep. rep))
             [0..<length (slots m)] (False, (1, None), nd))
       (execute_committed p))"

definition OnSyncCommit :: "nat \<Rightarrow> 'c BulkPaxosCmd \<Rightarrow> 'c paxos_node \<Rightarrow> (reply \<times> 'c paxos_node) result" where
  "OnSyncCommit p m = bulk_enter p (ballots m) (slots m) (cmd_leader_id m) (\<lambda>nd.
     rbind (for_each (bulk_slot p (cmd_leader_id m) (slots m) (ballots m) (sync_commit_one (cmds m)) (\<lambda>b rep. rep))
             [0..<length (slots m)] (False, (1, None), nd))
       (execute_committed p))"

text \<open>\<^verbatim>\<open>OnSyncNoOps\<close>; \<open>noop\<close> is the empty \<^verbatim>\<open>LogEntry\<close>.\<close>

definition fill_noop :: "'c \<Rightarrow> int \<Rightarrow> nat \<Rightarrow> 'c PaxosServer \<Rightarrow> 'c PaxosServer result" where
  "fill_noop noop cur_b j ps = rbind (GetInstance j ps) (\<lambda>(d, ps).
     if committed_cmd d \<noteq> None then Inr ps
     else Inr (put_instance j
       (d\<lparr>committed_cmd := Some noop, is_no_op := True, max_ballot_accepted := cur_b\<rparr>) ps))"

definition execute_or_fail :: "nat \<Rightarrow> 'c PaxosServer \<Rightarrow> 'c PaxosServer result" where
  "execute_or_fail i ps = rbind (GetInstance i ps) (\<lambda>(d, ps).
     case committed_cmd d of
       None \<Rightarrow> Inl Assert_Fail
     | Some c \<Rightarrow> rbind (rassert (\<not> is_no_op d)) (\<lambda>_.
         Inr (ps\<lparr>applied := applied ps @ [(i, c)],
                 max_executed_slot := max_executed_slot ps + 1, n_commit := n_commit ps + 1\<rparr>)))"

definition sync_noops_partition :: "'c \<Rightarrow> SyncNoOpRequest \<Rightarrow> nat \<Rightarrow> 'c paxos_node \<Rightarrow> 'c paxos_node result" where
  "sync_noops_partition noop m i nd =
     rbind (vec_at (sync_slots m) i) (\<lambda>from.
     let ps = workers nd ! i in
     rbind (rassert (\<not> from \<le> max_executed_slot ps)) (\<lambda>_.
     rbind (for_each (fill_noop noop (no_epoch m)) [from..<Suc (max_committed_slot ps)] ps) (\<lambda>ps.
     rbind (for_each execute_or_fail [Suc (max_executed_slot ps)..<Suc (max_committed_slot ps)] ps) (\<lambda>ps.
     Inr (upd_worker i (\<lambda>_. ps\<lparr>max_executed_slot := max_committed_slot ps,
                              cur_open_slot := max_committed_slot ps + 1\<rparr>) nd)))))"

definition OnSyncNoOps :: "'c \<Rightarrow> nat \<Rightarrow> SyncNoOpRequest \<Rightarrow> 'c paxos_node \<Rightarrow> (reply \<times> 'c paxos_node) result" where
  "OnSyncNoOps noop p m nd =
     (if no_epoch m < cur_epoch (workers nd ! p) then Inr ((0, Some (cur_epoch (workers nd ! p))), nd)
      else rbind (for_each (sync_noops_partition noop m) [0..<length (workers nd) - 1] nd) (\<lambda>nd.
        Inr ((1, None), nd)))"

section \<open>Runs\<close>

text \<open>
  The messages a server of partition \<open>p\<close> gets, and their handlers (\<^verbatim>\<open>service.cc\<close> only unpacks the
  request and calls the handler of the same name).
\<close>

datatype 'c paxos_msg =
    Prepare nat int
  | Accept nat int 'c
  | Decide nat int 'c
  | Bulk_Prepare BulkPrepareLog
  | Heartbeat HeartBeatLog
  | Bulk_Prepare2 PaxosPrepCmd
  | Sync_Log SyncLogRequest
  | Bulk_Accept "'c BulkPaxosCmd"
  | Bulk_Decide PaxosPrepCmd
  | Sync_Commit "'c BulkPaxosCmd"
  | Sync_NoOps SyncNoOpRequest

definition on_server ::
  "nat \<Rightarrow> ('c PaxosServer \<Rightarrow> 'c PaxosServer result) \<Rightarrow> 'c paxos_node \<Rightarrow> 'c paxos_node result" where
  "on_server p f nd = rbind (f (workers nd ! p)) (\<lambda>ps. Inr (upd_worker p (\<lambda>_. ps) nd))"

fun handle :: "'c \<Rightarrow> nat \<Rightarrow> 'c paxos_msg \<Rightarrow> 'c paxos_node \<Rightarrow> 'c paxos_node result" where
  "handle noop p (Prepare s b) nd = on_server p (\<lambda>ps. rbind (OnPrepare s b ps) (\<lambda>r. Inr (snd r))) nd"
| "handle noop p (Accept s b c) nd = on_server p (\<lambda>ps. rbind (OnAccept s b c ps) (\<lambda>r. Inr (snd r))) nd"
| "handle noop p (Decide s b c) nd = on_server p (OnCommit s b c) nd"
| "handle noop p (Bulk_Prepare m) nd = rbind (OnBulkPrepare p m nd) (\<lambda>r. Inr (snd r))"
| "handle noop p (Heartbeat m) nd = rbind (OnHeartbeat m nd) (\<lambda>r. Inr (snd r))"
| "handle noop p (Bulk_Prepare2 m) nd = rbind (OnBulkPrepare2 p m nd) (\<lambda>r. Inr (snd r))"
| "handle noop p (Sync_Log m) nd = rbind (OnSyncLog m nd) (\<lambda>r. Inr (snd r))"
| "handle noop p (Bulk_Accept m) nd = rbind (OnBulkAccept p m nd) (\<lambda>r. Inr (snd r))"
| "handle noop p (Bulk_Decide m) nd = rbind (OnBulkCommit p m nd) (\<lambda>r. Inr (snd r))"
| "handle noop p (Sync_Commit m) nd = rbind (OnSyncCommit p m nd) (\<lambda>r. Inr (snd r))"
| "handle noop p (Sync_NoOps m) nd = rbind (OnSyncNoOps noop p m nd) (\<lambda>r. Inr (snd r))"

text \<open>The states a machine with \<open>k\<close> partitions can get into, whatever messages arrive in whatever order.\<close>

inductive paxos_reachable :: "nat \<Rightarrow> 'c paxos_node \<Rightarrow> bool" for k where
  start: "workers nd = map (\<lambda>(l, e). new_PaxosServer l e) les \<Longrightarrow> length les = k \<Longrightarrow> paxos_reachable k nd"
| step: "paxos_reachable k nd \<Longrightarrow> p < k \<Longrightarrow> handle noop p m nd = Inr nd' \<Longrightarrow> paxos_reachable k nd'"

section \<open>The log of a server\<close>

definition inst :: "'c PaxosServer \<Rightarrow> nat \<Rightarrow> 'c PaxosData" where
  "inst ps i = (case logs ps i of None \<Rightarrow> new_PaxosData | Some d \<Rightarrow> d)"

named_theorems paxos_simps "the log of a Paxos server"

lemma GetInstance_eq_Inr_iff [paxos_simps]:
  "GetInstance i ps = Inr r \<longleftrightarrow> min_active_slot ps \<le> i \<and> r = (inst ps i, put_instance i (inst ps i) ps)"
  by (cases r) (auto simp: GetInstance_def inst_def put_instance_def rbind_eq_Inr_iff fun_upd_idem
      split: option.splits)

lemma GetInstance_defined [simp]:
  "min_active_slot ps \<le> i \<Longrightarrow> GetInstance i ps = Inr (inst ps i, put_instance i (inst ps i) ps)"
  by (simp add: GetInstance_eq_Inr_iff)

lemma inst_put_instance [simp]: "inst (put_instance i d ps) j = (if j = i then d else inst ps j)"
  by (simp add: inst_def put_instance_def)

lemma put_instance_frame [simp]:
  "min_active_slot (put_instance i d ps) = min_active_slot ps"
  "max_executed_slot (put_instance i d ps) = max_executed_slot ps"
  "max_committed_slot (put_instance i d ps) = max_committed_slot ps"
  "cur_epoch (put_instance i d ps) = cur_epoch ps"
  "n_commit (put_instance i d ps) = n_commit ps"
  "applied (put_instance i d ps) = applied ps"
  "cur_open_slot (put_instance i d ps) = cur_open_slot ps"
  by (simp_all add: put_instance_def)

lemma inst_frame [simp]:
  "inst (ps\<lparr>applied := a\<rparr>) = inst ps"
  "inst (ps\<lparr>max_executed_slot := x\<rparr>) = inst ps"
  "inst (ps\<lparr>max_committed_slot := x\<rparr>) = inst ps"
  "inst (ps\<lparr>max_accepted_slot := x\<rparr>) = inst ps"
  "inst (ps\<lparr>max_touched_slot := x\<rparr>) = inst ps"
  "inst (ps\<lparr>cur_epoch := e\<rparr>) = inst ps"
  "inst (ps\<lparr>ps_leader_id := l\<rparr>) = inst ps"
  "inst (ps\<lparr>n_accept := n\<rparr>) = inst ps"
  "inst (ps\<lparr>n_commit := n\<rparr>) = inst ps"
  by (simp_all add: inst_def fun_eq_iff)

lemma workers_upd [simp]:
  "workers (upd_worker i f nd) = (workers nd)[i := f (workers nd ! i)]"
  "workers (upd_es g nd) = workers nd"
  "es (upd_worker i f nd) = es nd"
  "es (upd_es g nd) = g (es nd)"
  by (simp_all add: upd_worker_def upd_es_def)

lemma workers_fold_upd:
  "workers (fold (\<lambda>i. upd_worker i f) [0..<n] nd) = map f (take n (workers nd)) @ drop n (workers nd)"
  if "n \<le> length (workers nd)"
  using that
proof (induction n)
  case (Suc n)
  then have "n < length (workers nd)" by simp
  with Suc show ?case
    by (simp add: take_Suc_conv_app_nth nth_append list_update_append Cons_nth_drop_Suc [symmetric])
qed simp

lemma es_fold_upd [simp]: "es (fold (\<lambda>i. upd_worker i f) xs nd) = es nd"
  by (induction xs arbitrary: nd) simp_all

lemma es_raise_epochs [simp]: "es (raise_epochs b l nd) = es nd"
  by (simp add: raise_epochs_def)

lemma workers_raise_epochs:
  "workers (raise_epochs b l nd) =
     map (\<lambda>ps. ps\<lparr>cur_epoch := b, ps_leader_id := l\<rparr>) (butlast (workers nd)) @
     drop (length (workers nd) - 1) (workers nd)"
  by (simp add: raise_epochs_def workers_fold_upd butlast_conv_take)

lemma length_raise_epochs [simp]: "length (workers (raise_epochs b l nd)) = length (workers nd)"
  by (simp add: workers_raise_epochs)

lemma nth_raise_epochs:
  "p < length (workers nd) - 1 \<Longrightarrow>
   workers (raise_epochs b l nd) ! p = (workers nd ! p)\<lparr>cur_epoch := b, ps_leader_id := l\<rparr>"
  by (simp add: workers_raise_epochs nth_append nth_butlast)

section \<open>Execution in slot order\<close>

definition server_inv :: "'c PaxosServer \<Rightarrow> bool" where
  "server_inv ps \<longleftrightarrow> map fst (applied ps) = [1..<Suc (max_executed_slot ps)] \<and>
     max_executed_slot ps \<le> max_committed_slot ps \<and> n_commit ps = length (applied ps) \<and>
     min_active_slot ps \<le> max_executed_slot ps"

definition node_inv :: "nat \<Rightarrow> 'c paxos_node \<Rightarrow> bool" where
  "node_inv k nd \<longleftrightarrow> length (workers nd) = k \<and> (\<forall>ps \<in> set (workers nd). server_inv ps)"

lemma server_inv_frame [simp]:
  "server_inv (put_instance i d ps) = server_inv ps"
  "server_inv (ps\<lparr>cur_epoch := e\<rparr>) = server_inv ps"
  "server_inv (ps\<lparr>ps_leader_id := l\<rparr>) = server_inv ps"
  "server_inv (ps\<lparr>max_touched_slot := x\<rparr>) = server_inv ps"
  "server_inv (ps\<lparr>max_accepted_slot := x\<rparr>) = server_inv ps"
  "server_inv (ps\<lparr>n_accept := n\<rparr>) = server_inv ps"
  "server_inv (ps\<lparr>n_prepare := n\<rparr>) = server_inv ps"
  "server_inv (ps\<lparr>bulk_prepares := bp\<rparr>) = server_inv ps"
  "server_inv (ps\<lparr>cur_min_prepared_slot := x\<rparr>) = server_inv ps"
  "server_inv (ps\<lparr>cur_open_slot := x\<rparr>) = server_inv ps"
  by (simp_all add: server_inv_def)

lemma server_inv_bump [simp]: "server_inv ps \<Longrightarrow> server_inv (bump_committed s ps)"
  by (simp add: server_inv_def bump_committed_def del: upt_Suc)

lemma server_inv_executed:
  "server_inv ps \<Longrightarrow> i = Suc (max_executed_slot ps) \<Longrightarrow> i \<le> max_committed_slot ps \<Longrightarrow>
   server_inv (ps\<lparr>applied := applied ps @ [(i, c)], max_executed_slot := max_executed_slot ps + 1,
                  n_commit := n_commit ps + 1\<rparr>)"
  by (simp add: server_inv_def upt_Suc_append del: upt_Suc)

lemma server_inv_new [simp]: "server_inv (new_PaxosServer l e)"
  by (simp add: server_inv_def new_PaxosServer_def)

lemma free_loop_eq:
  "free_loop n i ps = ps\<lparr>min_active_slot := i + n, logs := (\<lambda>j. if i \<le> j \<and> j < i + n then None else logs ps j)\<rparr>"
proof (induction n arbitrary: i ps)
  case 0
  show ?case by (rule PaxosServer.equality) (auto simp: fun_eq_iff)
next
  case (Suc n)
  have "(\<lambda>j. if Suc i \<le> j \<and> j < Suc i + n then None else if j = i then None else logs ps j) =
      (\<lambda>j. if i \<le> j \<and> j < i + Suc n then None else logs ps j)" by (auto simp: fun_eq_iff)
  then show ?case
    by (simp only: free_loop.simps Suc.IH)
      (simp add: fun_upd_def cong: if_cong)
qed

lemma server_inv_FreeSlots [simp]: "server_inv ps \<Longrightarrow> server_inv (FreeSlots ps)"
  by (auto simp: FreeSlots_def free_loop_eq server_inv_def)

lemma execute_loop_inv:
  assumes "execute_loop n i ps = Inr ps'" and "server_inv ps" and "i = Suc (max_executed_slot ps)"
    and "i + n \<le> Suc (max_committed_slot ps)"
  shows "server_inv ps'"
  using assms
proof (induction n arbitrary: i ps)
  case (Suc n)
  show ?case
  proof (cases "committed_cmd (inst ps i)")
    case None
    with Suc.prems show ?thesis by (auto simp: rbind_eq_Inr_iff GetInstance_eq_Inr_iff)
  next
    case (Some c)
    let ?ps = "put_instance i (inst ps i) ps"
    have inv: "server_inv (?ps\<lparr>applied := applied ?ps @ [(i, c)],
        max_executed_slot := max_executed_slot ?ps + 1, n_commit := n_commit ?ps + 1\<rparr>)"
      using Suc.prems by (intro server_inv_executed) simp_all
    from Some Suc.prems show ?thesis
      by (auto simp: rbind_eq_Inr_iff GetInstance_eq_Inr_iff intro: Suc.IH [OF _ inv])
  qed
qed simp

lemma OnCommit_inv:
  assumes "OnCommit s b c ps = Inr ps'" and "server_inv ps"
  shows "server_inv ps'"
proof -
  let ?ps = "bump_committed s (put_instance s ((inst ps s)\<lparr>committed_cmd := Some c\<rparr>) (put_instance s (inst ps s) ps))"
  from assms(1) obtain ps1 where
    ps1: "execute_loop (max_committed_slot ?ps - max_executed_slot ?ps) (max_executed_slot ?ps + 1) ?ps = Inr ps1"
    and ps': "ps' = FreeSlots ps1"
    by (auto simp: OnCommit_def Let_def rbind_eq_Inr_iff GetInstance_eq_Inr_iff bump_committed_def)
  have "server_inv ?ps" using assms(2) by simp
  moreover from this have "max_executed_slot ?ps \<le> max_committed_slot ?ps"
    by (simp add: server_inv_def)
  ultimately have "server_inv ps1" by (intro execute_loop_inv [OF ps1]) simp_all
  then show ?thesis by (simp add: ps')
qed

text \<open>The invariant of a machine: that of each of its servers.\<close>

lemma node_inv_nth: "node_inv k nd \<Longrightarrow> i < k \<Longrightarrow> server_inv (workers nd ! i)"
  by (simp add: node_inv_def)

lemma node_inv_upd_es [simp]: "node_inv k (upd_es f nd) = node_inv k nd"
  by (simp add: node_inv_def)

lemma node_inv_upd_worker:
  "node_inv k nd \<Longrightarrow> (i < k \<Longrightarrow> server_inv (f (workers nd ! i))) \<Longrightarrow> node_inv k (upd_worker i f nd)"
  by (cases "i < k")
    (auto simp: node_inv_def list_update_beyond dest!: set_update_subset_insert [THEN subsetD])

lemma node_inv_raise_epochs [simp]: "node_inv k nd \<Longrightarrow> node_inv k (raise_epochs b l nd)"
  by (auto simp: node_inv_def workers_raise_epochs dest: in_set_butlastD in_set_dropD)

lemma accept_slot_inv: "accept_slot cs i s b ps = Inr ps' \<Longrightarrow> server_inv ps \<Longrightarrow> server_inv ps'"
  by (auto simp: accept_slot_def Let_def rbind_eq_Inr_iff GetInstance_eq_Inr_iff)

lemma commit_slot_inv: "commit_slot i s b ps = Inr ps' \<Longrightarrow> server_inv ps \<Longrightarrow> server_inv ps'"
  by (auto simp: commit_slot_def Let_def rbind_eq_Inr_iff GetInstance_eq_Inr_iff)

lemma sync_commit_one_inv: "sync_commit_one cs i s b ps = Inr ps' \<Longrightarrow> server_inv ps \<Longrightarrow> server_inv ps'"
  by (auto simp: sync_commit_one_def Let_def rbind_eq_Inr_iff GetInstance_eq_Inr_iff)

lemma bulk_slot_inv:
  assumes "bulk_slot p l ss bs body u i s = Inr s'" and "node_inv k (snd (snd s))" and "p < k"
    and "\<And>i s b ps ps'. body i s b ps = Inr ps' \<Longrightarrow> server_inv ps \<Longrightarrow> server_inv ps'"
  shows "node_inv k (snd (snd s'))"
proof (cases s)
  case (fields stopped rep nd)
  let ?b = "bs ! i"
  let ?nd = "upd_es (set_leader l) (if cur_epoch (workers nd ! p) < ?b then raise_epochs ?b l nd else nd)"
  have inv: "node_inv k ?nd" using assms(2) fields by simp
  consider "snd (snd s') = nd"
    | ps where "body i (ss ! i) ?b (workers ?nd ! p) = Inr ps" "snd (snd s') = upd_worker p (\<lambda>_. ps) ?nd"
    using assms(1) fields
    by (auto simp: bulk_slot_def Let_def rbind_eq_Inr_iff split: if_splits)
  then show ?thesis
  proof cases
    case 1
    then show ?thesis using assms(2) fields by simp
  next
    case 2
    have "server_inv ps"
      by (rule assms(4) [OF 2(1)]) (rule node_inv_nth [OF inv assms(3)])
    then show ?thesis unfolding 2(2) by (intro node_inv_upd_worker inv)
  qed
qed

lemma collect_loop_inv:
  assumes "collect_loop n i acc ps = Inr (xs, ps')" and "i = Suc (max_executed_slot ps)"
    and "i + n \<le> Suc (max_committed_slot ps)" and "server_inv (ps\<lparr>applied := applied ps @ acc\<rparr>)"
  shows "server_inv (app_next xs ps')"
  using assms
proof (induction n arbitrary: i acc ps)
  case 0
  then show ?case by (simp add: app_next_def)
next
  case (Suc n)
  show ?case
  proof (cases "committed_cmd (inst ps i)")
    case None
    with Suc.prems show ?thesis
      by (auto simp: rbind_eq_Inr_iff GetInstance_eq_Inr_iff app_next_def put_instance_def server_inv_def)
  next
    case (Some c)
    from Some Suc.prems(1)
    have loop: "collect_loop n (i + 1) (acc @ [(i, c)]) ((put_instance i (inst ps i) ps)
        \<lparr>max_executed_slot := max_executed_slot ps + 1, n_commit := n_commit ps + 1\<rparr>) = Inr (xs, ps')"
      by (auto simp: rbind_eq_Inr_iff GetInstance_eq_Inr_iff)
    show ?thesis
      by (rule Suc.IH [OF loop])
        (use Suc.prems in \<open>simp_all add: server_inv_def upt_Suc_append del: upt_Suc\<close>)
  qed
qed

lemma execute_committed_cases:
  assumes "execute_committed p (st, (v, b), nd) = Inr (r, nd')"
  obtains "v = 0" "nd' = nd" "r = (v, b)"
  | xs ps where "v \<noteq> 0"
      "collect_loop (max_committed_slot (workers nd ! p) - max_executed_slot (workers nd ! p))
         (max_executed_slot (workers nd ! p) + 1) [] (workers nd ! p) = Inr (xs, ps)"
      "nd' = upd_worker p (\<lambda>_. app_next xs ps) nd" "r = (1, b)"
proof (cases "v = 0")
  case True
  with assms that(1) show thesis by (simp add: execute_committed_def)
next
  case False
  with assms that(2) show thesis
    by (auto simp only: execute_committed_def split_conv if_False Let_def rbind_eq_Inr_iff
        split_paired_Ex Inr_inject prod.inject)
qed

lemma execute_committed_inv:
  assumes "execute_committed p s = Inr (r, nd')" and "node_inv k (snd (snd s))" and "p < k"
  shows "node_inv k nd'"
proof -
  obtain st v b nd where s: "s = (st, (v, b), nd)" by (metis prod.exhaust)
  from s assms(2,3) have inv: "server_inv (workers nd ! p)" by (simp add: node_inv_nth)
  from assms(1) show ?thesis unfolding s
  proof (cases rule: execute_committed_cases)
    case 1
    then show ?thesis using assms(2) s by simp
  next
    case (2 xs ps)
    have "server_inv (app_next xs ps)"
      by (rule collect_loop_inv [OF 2(2)]) (use inv in \<open>simp_all add: server_inv_def\<close>)
    then show ?thesis using assms(2) s by (simp add: 2(3) node_inv_upd_worker)
  qed
qed

lemma bulk_loop_inv:
  assumes "for_each (bulk_slot p l ss bs body u) xs s = Inr s'" and "node_inv k (snd (snd s))" and "p < k"
    and "\<And>i s b ps ps'. body i s b ps = Inr ps' \<Longrightarrow> server_inv ps \<Longrightarrow> server_inv ps'"
  shows "node_inv k (snd (snd s'))"
  by (rule for_each_invariant [where P = "\<lambda>s. node_inv k (snd (snd s))", OF assms(1,2)])
    (rule bulk_slot_inv [OF _ _ assms(3,4)])

definition bulk_entered :: "int \<Rightarrow> 'c paxos_node \<Rightarrow> 'c paxos_node" where
  "bulk_entered l nd = (if l \<noteq> machine_id (es nd) then upd_es (set_state 0) nd else nd)"

lemma workers_bulk_entered [simp]: "workers (bulk_entered l nd) = workers nd"
  by (simp add: bulk_entered_def)

lemma node_inv_bulk_entered [simp]: "node_inv k (bulk_entered l nd) = node_inv k nd"
  by (simp add: bulk_entered_def)

lemma bulk_enter_cases:
  assumes "bulk_enter p bs ss l k nd = Inr (r, nd')"
  obtains "bs \<noteq> []" "bs ! 0 < cur_epoch (workers nd ! p)" "r = (0, Some (cur_epoch (workers nd ! p)))" "nd' = nd"
  | "bs \<noteq> []" "ss \<noteq> []" "cur_epoch (workers nd ! p) \<le> bs ! 0" "k (bulk_entered l nd) = Inr (r, nd')"
proof (cases "bs ! 0 < cur_epoch (workers nd ! p)")
  case True
  with assms have "bs \<noteq> []" "r = (0, Some (cur_epoch (workers nd ! p)))" "nd' = nd"
    by (auto simp: bulk_enter_def rbind_eq_Inr_iff)
  with True show thesis by (intro that(1))
next
  case False
  with assms have "bs \<noteq> []" "ss \<noteq> []" "k (bulk_entered l nd) = Inr (r, nd')"
    by (auto simp: bulk_enter_def rbind_eq_Inr_iff bulk_entered_def)
  with False show thesis by (intro that(2)) simp_all
qed

lemma OnBulkAccept_inv:
  assumes "OnBulkAccept p m nd = Inr (r, nd')" and "node_inv k nd" and "p < k"
  shows "node_inv k nd'"
  using assms(1) unfolding OnBulkAccept_def
proof (cases rule: bulk_enter_cases)
  case 2
  from 2(4) obtain st where
    "for_each (bulk_slot p (cmd_leader_id m) (slots m) (ballots m) (accept_slot (cmds m)) (\<lambda>b (v, _). (v, Some b)))
       [0..<length (slots m)] (False, (1, None), bulk_entered (cmd_leader_id m) nd) = Inr (st, r, nd')"
    by (auto simp: rbind_eq_Inr_iff)
  from bulk_loop_inv [OF this _ assms(3) accept_slot_inv] assms(2) show ?thesis by simp
qed (simp add: assms(2))

lemma bulk_commit_inv:
  assumes "rbind (for_each (bulk_slot p l ss bs body u) xs (False, (1, None), nd)) (execute_committed p) =
      Inr (r, nd')" and "node_inv k nd" and "p < k"
    and "\<And>i s b ps ps'. body i s b ps = Inr ps' \<Longrightarrow> server_inv ps \<Longrightarrow> server_inv ps'"
  shows "node_inv k nd'"
proof -
  from assms(1) obtain s where s: "for_each (bulk_slot p l ss bs body u) xs (False, (1, None), nd) = Inr s"
    "execute_committed p s = Inr (r, nd')"
    by (auto simp: rbind_eq_Inr_iff)
  from bulk_loop_inv [OF s(1) _ assms(3,4)] assms(2) have "node_inv k (snd (snd s))" by simp
  from execute_committed_inv [OF s(2) this assms(3)] show ?thesis .
qed

lemma OnBulkCommit_inv:
  assumes "OnBulkCommit p m nd = Inr (r, nd')" and "node_inv k nd" and "p < k"
  shows "node_inv k nd'"
  using assms(1) unfolding OnBulkCommit_def
  by (cases rule: bulk_enter_cases)
    (use assms(2,3) in \<open>auto elim!: bulk_commit_inv dest: commit_slot_inv\<close>)

lemma OnSyncCommit_inv:
  assumes "OnSyncCommit p m nd = Inr (r, nd')" and "node_inv k nd" and "p < k"
  shows "node_inv k nd'"
  using assms(1) unfolding OnSyncCommit_def
  by (cases rule: bulk_enter_cases)
    (use assms(2,3) in \<open>auto elim!: bulk_commit_inv dest: sync_commit_one_inv\<close>)

lemma OnHeartbeat_inv: "OnHeartbeat m nd = Inr (r, nd') \<Longrightarrow> node_inv k nd \<Longrightarrow> node_inv k nd'"
  by (auto simp: OnHeartbeat_def Let_def rbind_eq_Inr_iff split: if_splits)

lemma server_inv_bp_touch: "server_inv (snd (bp_touch ps)) = server_inv ps"
  by (simp add: bp_touch_def Let_def split: option.split)

lemma bulk_prepare_inv:
  "bulk_prepare_check m i nd = Inr nd' \<Longrightarrow> node_inv k nd \<Longrightarrow> node_inv k nd'"
  "bulk_prepare_set p m i nd = Inr nd' \<Longrightarrow> node_inv k nd \<Longrightarrow> node_inv k nd'"
  using server_inv_bp_touch [of "workers nd ! i"]
  by (auto simp: bulk_prepare_check_def bulk_prepare_set_def Let_def rbind_eq_Inr_iff node_inv_nth
      split: prod.splits intro!: node_inv_upd_worker)

lemma OnBulkPrepare_inv:
  assumes "OnBulkPrepare p m nd = Inr (r, nd')" and "node_inv k nd"
  shows "node_inv k nd'"
proof -
  let ?n = "length (min_prepared_slots m)"
  have "nd' = nd \<or> (\<exists>nd1 nd2. for_each (bulk_prepare_check m) [0..<?n] nd = Inr nd1 \<and>
      for_each (bulk_prepare_set p m) [0..<?n] nd1 = Inr nd2 \<and> workers nd' = workers nd2)"
    using assms(1) by (auto simp: OnBulkPrepare_def Let_def rbind_eq_Inr_iff split: if_splits)
  moreover
  {
    fix nd1 nd2
    assume nd: "for_each (bulk_prepare_check m) [0..<?n] nd = Inr nd1"
      "for_each (bulk_prepare_set p m) [0..<?n] nd1 = Inr nd2"
    have "node_inv k nd1"
      by (rule for_each_invariant [where P = "node_inv k", OF nd(1) assms(2)]) (rule bulk_prepare_inv)
    then have "node_inv k nd2"
      by (rule for_each_invariant [where P = "node_inv k", OF nd(2)]) (rule bulk_prepare_inv)
  }
  ultimately show ?thesis using assms(2) by (auto simp: node_inv_def)
qed

definition prepare2_entered :: "nat \<Rightarrow> PaxosPrepCmd \<Rightarrow> 'c paxos_node \<Rightarrow> 'c paxos_node" where
  "prepare2_entered p m nd =
     (let b = ballots m ! 0; l = cmd_leader_id m;
          nd1 = upd_worker p (\<lambda>ps. ps\<lparr>max_touched_slot := max (max_touched_slot ps) (slots m ! 0)\<rparr>)
                  (bulk_entered l nd)
      in if cur_epoch (workers nd ! p) < b
         then raise_epochs b l (upd_es (set_leader l) (upd_es (set_epoch b) nd1)) else nd1)"

lemma OnBulkPrepare2_cases:
  assumes "OnBulkPrepare2 p m nd = Inr ((r, a), nd')"
  obtains "ballots m \<noteq> []" "ballots m ! 0 < cur_epoch (workers nd ! p)"
      "r = (0, Some (cur_epoch (workers nd ! p)))" "a = None" "nd' = nd"
  | ps where "ballots m \<noteq> []" "cur_epoch (workers nd ! p) \<le> ballots m ! 0"
      "ps = workers (prepare2_entered p m nd) ! p"
      "nd' = upd_worker p (\<lambda>_. put_instance (slots m ! 0) (inst ps (slots m ! 0)) ps) (prepare2_entered p m nd)"
      "(r, a) = (case accepted_cmd (inst ps (slots m ! 0)) of None \<Rightarrow> ((2, Some (ballots m ! 0)), None)
        | Some c \<Rightarrow> ((1, None), Some (max_ballot_accepted (inst ps (slots m ! 0)), slots m ! 0, c)))"
proof (cases "ballots m ! 0 < cur_epoch (workers nd ! p)")
  case True
  with assms have "ballots m \<noteq> []" "r = (0, Some (cur_epoch (workers nd ! p)))" "a = None" "nd' = nd"
    by (auto simp: OnBulkPrepare2_def rbind_eq_Inr_iff)
  with True show thesis by (intro that(1))
next
  case False
  let ?nd = "prepare2_entered p m nd"
  let ?ps = "workers ?nd ! p"
  have ne: "ballots m \<noteq> []" "slots m \<noteq> []"
    using assms by (auto simp: OnBulkPrepare2_def rbind_eq_Inr_iff)
  with False assms have "rbind (GetInstance (slots m ! 0) ?ps) (\<lambda>(d, ps).
       case accepted_cmd d of
         None \<Rightarrow> Inr (((2, Some (ballots m ! 0)), None), upd_worker p (\<lambda>_. ps) ?nd)
       | Some c \<Rightarrow> Inr (((1, None), Some (max_ballot_accepted d, slots m ! 0, c)), upd_worker p (\<lambda>_. ps) ?nd)) =
      Inr ((r, a), nd')"
    by (cases "cur_epoch (workers nd ! p) < ballots m ! 0";
        cases "cmd_leader_id m = es_leader_id (es (bulk_entered (cmd_leader_id m) nd))")
      (simp_all only: OnBulkPrepare2_def prepare2_entered_def bulk_entered_def [symmetric] Let_def
        vec_at_defined length_greater_0_conv rbind_simps if_True if_False rassert_True rassert_False
        workers_upd workers_bulk_entered sum.distinct simp_thms)
  then have "(r, a) = (case accepted_cmd (inst ?ps (slots m ! 0)) of None \<Rightarrow> ((2, Some (ballots m ! 0)), None)
        | Some c \<Rightarrow> ((1, None), Some (max_ballot_accepted (inst ?ps (slots m ! 0)), slots m ! 0, c)))"
    "nd' = upd_worker p (\<lambda>_. put_instance (slots m ! 0) (inst ?ps (slots m ! 0)) ?ps) ?nd"
    by (auto simp: rbind_eq_Inr_iff GetInstance_eq_Inr_iff split: option.splits)
  with False ne(1) show thesis by (intro that(2) [OF _ _ refl]) simp_all
qed

lemma node_inv_prepare2_entered: "node_inv k nd \<Longrightarrow> p < k \<Longrightarrow> node_inv k (prepare2_entered p m nd)"
  by (auto simp: prepare2_entered_def Let_def node_inv_nth
      intro!: node_inv_raise_epochs node_inv_upd_worker)

lemma OnBulkPrepare2_inv:
  assumes "OnBulkPrepare2 p m nd = Inr ((r, a), nd')" and "node_inv k nd" and "p < k"
  shows "node_inv k nd'"
  using assms(1)
proof (cases rule: OnBulkPrepare2_cases)
  case (2 ps)
  from assms(2,3) have "node_inv k (prepare2_entered p m nd)" by (rule node_inv_prepare2_entered)
  with 2(3,4) assms(3) show ?thesis by (simp add: node_inv_upd_worker node_inv_nth)
qed (simp add: assms(2))

lemma for_each_server_inv:
  assumes "for_each f xs s = Inr s'" and "server_inv (snd s)"
    and "\<And>i s s'. f i s = Inr s' \<Longrightarrow> server_inv (snd s) \<Longrightarrow> server_inv (snd s')"
  shows "server_inv (snd s')"
  by (rule for_each_invariant [where P = "\<lambda>s. server_inv (snd s)", OF assms(1,2)]) (rule assms(3))

lemma sync_entries_inv: "sync_entries lo hi ps = Inr (xs, ps') \<Longrightarrow> server_inv ps \<Longrightarrow> server_inv ps'"
  unfolding sync_entries_def
  by (drule for_each_server_inv)
    (auto simp: rbind_eq_Inr_iff GetInstance_eq_Inr_iff split: option.splits)

lemma missing_entries_inv: "missing_entries lo hi ps = Inr (xs, ps') \<Longrightarrow> server_inv ps \<Longrightarrow> server_inv ps'"
  unfolding missing_entries_def
  by (drule for_each_server_inv)
    (auto simp: rbind_eq_Inr_iff GetInstance_eq_Inr_iff)

lemma sync_log_partition_inv:
  assumes "sync_log_partition m i s = Inr s'" and "node_inv k (snd s)" and "i < k"
  shows "node_inv k (snd s')"
  using assms sync_entries_inv missing_entries_inv
  by (fastforce simp: sync_log_partition_def Let_def rbind_eq_Inr_iff node_inv_nth
      intro!: node_inv_upd_worker split: prod.splits)

lemma OnSyncLog_inv:
  assumes "OnSyncLog m nd = Inr (r, nd')" and "node_inv k nd"
  shows "node_inv k nd'"
proof (cases "sl_epoch m < es_epoch (es nd)")
  case True
  with assms show ?thesis by (simp add: OnSyncLog_def)
next
  case False
  from assms(2) have k: "length (workers nd) = k" by (simp add: node_inv_def)
  from False assms(1) obtain r1 where loop: "for_each (sync_log_partition m) [0..<length (workers nd) - 1]
      (\<lparr>sync_data = [], missing_slots = []\<rparr>, nd) = Inr (r1, nd')"
    by (auto simp: OnSyncLog_def rbind_eq_Inr_iff)
  have "node_inv k (snd (r1, nd'))"
    by (rule for_each_invariant [where P = "\<lambda>s. node_inv k (snd s)", OF loop])
      (simp add: assms(2), erule sync_log_partition_inv, assumption, use k in auto)
  then show ?thesis by simp
qed

lemma fill_noop_frame:
  "fill_noop noop b j ps = Inr ps' \<Longrightarrow> \<exists>d. ps' = put_instance j d ps"
  by (auto simp: fill_noop_def rbind_eq_Inr_iff GetInstance_eq_Inr_iff put_instance_def split: if_splits)

lemma fill_noops_frame:
  assumes "for_each (fill_noop noop b) xs ps = Inr ps'"
  shows "server_inv ps' = server_inv ps \<and> max_executed_slot ps' = max_executed_slot ps \<and>
    max_committed_slot ps' = max_committed_slot ps"
  by (rule for_each_invariant [where P = "\<lambda>q. server_inv q = server_inv ps \<and>
        max_executed_slot q = max_executed_slot ps \<and> max_committed_slot q = max_committed_slot ps", OF assms])
    (auto dest!: fill_noop_frame)

lemma execute_or_fail_Inr:
  "execute_or_fail i ps = Inr ps' \<Longrightarrow> \<exists>c. committed_cmd (inst ps i) = Some c \<and> \<not> is_no_op (inst ps i) \<and>
     ps' = (put_instance i (inst ps i) ps)\<lparr>applied := applied ps @ [(i, c)],
       max_executed_slot := max_executed_slot ps + 1, n_commit := n_commit ps + 1\<rparr>"
  by (auto simp: execute_or_fail_def rbind_eq_Inr_iff GetInstance_eq_Inr_iff split: option.splits)

lemma execute_or_fail_loop:
  assumes "for_each execute_or_fail [Suc (max_executed_slot ps)..<Suc hi] ps = Inr ps'"
    and "server_inv ps" and "max_executed_slot ps \<le> hi" and "hi = max_committed_slot ps"
  shows "server_inv ps' \<and> max_executed_slot ps' = hi \<and> max_committed_slot ps' = hi"
  using assms
proof (induction "hi - max_executed_slot ps" arbitrary: ps)
  case 0
  then show ?case by simp
next
  case (Suc n)
  let ?i = "Suc (max_executed_slot ps)"
  from Suc.hyps(2) have up: "[?i..<Suc hi] = ?i # [Suc ?i..<Suc hi]" by (intro upt_conv_Cons) simp
  from Suc.prems(1) obtain ps1 where
    ps1: "execute_or_fail ?i ps = Inr ps1" "for_each execute_or_fail [Suc ?i..<Suc hi] ps1 = Inr ps'"
    by (auto simp only: up for_each.simps rbind_eq_Inr_iff)
  from execute_or_fail_Inr [OF ps1(1)] obtain c where
    eq: "ps1 = (put_instance ?i (inst ps ?i) ps)\<lparr>applied := applied ps @ [(?i, c)],
       max_executed_slot := max_executed_slot ps + 1, n_commit := n_commit ps + 1\<rparr>" by blast
  have "server_inv ps1"
    using server_inv_executed [of "put_instance ?i (inst ps ?i) ps" ?i c] Suc.prems Suc.hyps(2)
    by (simp add: eq)
  moreover have "max_executed_slot ps1 = ?i" "hi = max_committed_slot ps1"
    using Suc.prems(4) by (simp_all add: eq)
  ultimately show ?case using Suc.hyps ps1(2) by (intro Suc.hyps(1)) simp_all
qed

lemma sync_noops_partition_inv:
  assumes "sync_noops_partition noop m i nd = Inr nd'" and "node_inv k nd" and "i < k"
  shows "node_inv k nd'"
proof -
  let ?ps = "workers nd ! i"
  let ?lo = "sync_slots m ! i"
  from assms(1) obtain ps1 ps2 where
    ps1: "for_each (fill_noop noop (no_epoch m)) [?lo..<Suc (max_committed_slot ?ps)] ?ps = Inr ps1"
    and ps2: "for_each execute_or_fail [Suc (max_executed_slot ps1)..<Suc (max_committed_slot ps1)] ps1 = Inr ps2"
    and nd': "nd' = upd_worker i (\<lambda>_. ps2\<lparr>max_executed_slot := max_committed_slot ps2,
                              cur_open_slot := max_committed_slot ps2 + 1\<rparr>) nd"
    by (auto simp: sync_noops_partition_def Let_def rbind_eq_Inr_iff)
  from assms(2,3) have inv: "server_inv ?ps" by (rule node_inv_nth)
  then have le: "max_executed_slot ?ps \<le> max_committed_slot ?ps" by (simp add: server_inv_def)
  from fill_noops_frame [OF ps1] inv le execute_or_fail_loop [OF ps2]
  have "server_inv ps2" "max_executed_slot ps2 = max_committed_slot ps2" by simp_all
  then have "server_inv (ps2\<lparr>max_executed_slot := max_committed_slot ps2\<rparr>)"
    by (simp add: server_inv_def)
  with assms(2) show ?thesis unfolding nd' by (intro node_inv_upd_worker) simp_all
qed

lemma OnSyncNoOps_inv:
  assumes "OnSyncNoOps noop p m nd = Inr (r, nd')" and "node_inv k nd"
  shows "node_inv k nd'"
proof (cases "no_epoch m < cur_epoch (workers nd ! p)")
  case True
  with assms show ?thesis by (simp add: OnSyncNoOps_def)
next
  case False
  from assms(2) have k: "length (workers nd) = k" by (simp add: node_inv_def)
  from False assms(1) have loop:
    "for_each (sync_noops_partition noop m) [0..<length (workers nd) - 1] nd = Inr nd'"
    by (auto simp: OnSyncNoOps_def rbind_eq_Inr_iff)
  show ?thesis
    by (rule for_each_invariant [where P = "node_inv k", OF loop assms(2)])
      (erule sync_noops_partition_inv, assumption, use k in auto)
qed

lemma on_server_inv:
  assumes "on_server p f nd = Inr nd'" and "node_inv k nd" and "p < k"
    and "\<And>ps ps'. f ps = Inr ps' \<Longrightarrow> server_inv ps \<Longrightarrow> server_inv ps'"
  shows "node_inv k nd'"
  using assms by (auto simp: on_server_def rbind_eq_Inr_iff node_inv_nth intro!: node_inv_upd_worker)

lemma OnPrepare_inv: "OnPrepare s b ps = Inr (r, ps') \<Longrightarrow> server_inv ps \<Longrightarrow> server_inv ps'"
  by (auto simp: OnPrepare_def Let_def rbind_eq_Inr_iff GetInstance_eq_Inr_iff)

lemma OnAccept_inv: "OnAccept s b c ps = Inr (r, ps') \<Longrightarrow> server_inv ps \<Longrightarrow> server_inv ps'"
  by (auto simp: OnAccept_def Let_def rbind_eq_Inr_iff GetInstance_eq_Inr_iff)

lemma handle_inv:
  assumes "handle noop p m nd = Inr nd'" and "node_inv k nd" and "p < k"
  shows "node_inv k nd'"
  using assms
  by (cases m)
    (auto simp: rbind_eq_Inr_iff
      elim!: on_server_inv OnBulkPrepare_inv OnHeartbeat_inv OnBulkPrepare2_inv OnSyncLog_inv
        OnBulkAccept_inv OnBulkCommit_inv OnSyncCommit_inv OnSyncNoOps_inv
      dest: OnPrepare_inv OnAccept_inv OnCommit_inv)

lemma paxos_reachable_inv: "paxos_reachable k nd \<Longrightarrow> node_inv k nd"
proof (induction rule: paxos_reachable.induct)
  case (start nd les)
  then show ?case by (auto simp: node_inv_def)
next
  case (step nd p noop m nd')
  then show ?case by (blast intro: handle_inv)
qed

section \<open>Promises\<close>

text \<open>
  What partition \<open>p\<close> has accepted for a slot, and that a step keeps a promise to the epoch \<open>e\<close>: the
  partition does not fall behind \<open>e\<close>, and a slot changes hands only for a ballot of at least \<open>e\<close>.
\<close>

definition accepted_at :: "'c PaxosServer \<Rightarrow> nat \<Rightarrow> int \<times> 'c option" where
  "accepted_at ps s = (max_ballot_accepted (inst ps s), accepted_cmd (inst ps s))"

definition keeps_promise :: "int \<Rightarrow> 'c PaxosServer \<Rightarrow> 'c PaxosServer \<Rightarrow> bool" where
  "keeps_promise e ps ps' \<longleftrightarrow> e \<le> cur_epoch ps' \<and>
     (\<forall>s. accepted_at ps' s = accepted_at ps s \<or> e \<le> max_ballot_accepted (inst ps' s))"

lemma keeps_promise_refl: "e \<le> cur_epoch ps \<Longrightarrow> keeps_promise e ps ps"
  by (simp add: keeps_promise_def)

lemma keeps_promise_trans: "keeps_promise e ps ps1 \<Longrightarrow> keeps_promise e ps1 ps2 \<Longrightarrow> keeps_promise e ps ps2"
  by (auto simp: keeps_promise_def accepted_at_def) (metis prod.inject)+

lemma bump_committed_frame [simp]:
  "inst (bump_committed s ps) = inst ps" "cur_epoch (bump_committed s ps) = cur_epoch ps"
  "max_executed_slot (bump_committed s ps) = max_executed_slot ps"
  "min_active_slot (bump_committed s ps) = min_active_slot ps"
  "applied (bump_committed s ps) = applied ps"
  "max_committed_slot (bump_committed s ps) = max (max_committed_slot ps) s"
  by (simp_all add: bump_committed_def)

definition promising :: "int \<Rightarrow> (nat \<Rightarrow> nat \<Rightarrow> int \<Rightarrow> 'c PaxosServer \<Rightarrow> 'c PaxosServer result) \<Rightarrow> bool" where
  "promising e body \<longleftrightarrow> (\<forall>i s b ps ps'. e \<le> b \<longrightarrow> e \<le> cur_epoch ps \<longrightarrow> body i s b ps = Inr ps' \<longrightarrow> keeps_promise e ps ps')"

lemma promising_bodies [simp]:
  "promising e (accept_slot cs)" "promising e commit_slot" "promising e (sync_commit_one cs)"
  by (auto simp: promising_def accept_slot_def commit_slot_def sync_commit_one_def Let_def rbind_eq_Inr_iff
      GetInstance_eq_Inr_iff keeps_promise_def accepted_at_def)

definition set_epoch_of :: "int \<Rightarrow> int \<Rightarrow> 'c PaxosServer \<Rightarrow> 'c PaxosServer" where
  "set_epoch_of b l ps = (if cur_epoch ps < b then ps\<lparr>cur_epoch := b, ps_leader_id := l\<rparr> else ps)"

lemma bulk_slot_cases:
  assumes "bulk_slot p l ss bs body u i (st, rep, nd) = Inr (st', rep', nd')" and "p < length (workers nd) - 1"
  obtains "st" "st'" "rep' = rep" "nd' = nd"
  | "\<not> st" "st'" "rep' = (0, Some (cur_epoch (workers nd ! p)))" "nd' = nd"
  | ps where "\<not> st" "\<not> st'" "i < length ss" "i < length bs" "rep' = u (bs ! i) rep"
      "cur_epoch (workers nd ! p) \<le> bs ! i"
      "body i (ss ! i) (bs ! i) (set_epoch_of (bs ! i) l (workers nd ! p)) = Inr ps"
      "workers nd' ! p = ps" "length (workers nd') = length (workers nd)"
proof -
  consider "st" | "\<not> st" "i < length ss" "i < length bs" "bs ! i < cur_epoch (workers nd ! p)"
    | "\<not> st" "i < length ss" "i < length bs" "cur_epoch (workers nd ! p) \<le> bs ! i"
    using assms(1) by (fastforce simp: bulk_slot_def rbind_eq_Inr_iff)
  then show thesis
  proof cases
    case 1
    with assms(1) show thesis by (intro that(1)) (simp_all add: bulk_slot_def)
  next
    case 2
    with assms(1) show thesis by (intro that(2)) (auto simp: bulk_slot_def)
  next
    case 3
    let ?nd = "upd_es (set_leader l) (if cur_epoch (workers nd ! p) < bs ! i then raise_epochs (bs ! i) l nd else nd)"
    have w: "workers ?nd ! p = set_epoch_of (bs ! i) l (workers nd ! p)"
      using assms(2) by (simp add: set_epoch_of_def nth_raise_epochs)
    from 3 assms(1) obtain ps where ps: "body i (ss ! i) (bs ! i) (workers ?nd ! p) = Inr ps"
      "\<not> st'" "rep' = u (bs ! i) rep" "nd' = upd_worker p (\<lambda>_. ps) ?nd"
      by (auto simp: bulk_slot_def Let_def rbind_eq_Inr_iff)
    from ps(4) assms(2) have "workers nd' ! p = ps" "length (workers nd') = length (workers nd)"
      by simp_all
    with 3 ps(1-3) show thesis unfolding w by (intro that(3))
  qed
qed

lemma keeps_promise_set_epoch_of: "e \<le> cur_epoch ps \<Longrightarrow> keeps_promise e ps (set_epoch_of b l ps)"
  by (simp add: keeps_promise_def set_epoch_of_def accepted_at_def)

lemma bulk_slot_promise:
  assumes "bulk_slot p l ss bs body u i (st, rep, nd) = Inr (st', rep', nd')"
    and "p < length (workers nd) - 1" and "e \<le> cur_epoch (workers nd ! p)"
    and "promising e body"
  shows "keeps_promise e (workers nd ! p) (workers nd' ! p) \<and> length (workers nd') = length (workers nd)"
  using assms(1,2)
proof (cases rule: bulk_slot_cases)
  case (3 ps)
  let ?ps = "set_epoch_of (bs ! i) l (workers nd ! p)"
  have k: "keeps_promise e (workers nd ! p) ?ps" by (rule keeps_promise_set_epoch_of [OF assms(3)])
  have "keeps_promise e ?ps ps"
    using assms(4) [unfolded promising_def, rule_format, OF _ _ 3(7)] assms(3) 3(6) k
    by (simp add: keeps_promise_def [of _ _ ?ps])
  with k 3(8,9) show ?thesis by (auto intro: keeps_promise_trans)
qed (use assms(3) in \<open>simp_all add: keeps_promise_refl\<close>)

lemma bulk_loop_promise:
  assumes "for_each (bulk_slot p l ss bs body u) xs (st, rep, nd) = Inr (st', rep', nd')"
    and "p < length (workers nd) - 1" and "e \<le> cur_epoch (workers nd ! p)"
    and "promising e body"
  shows "keeps_promise e (workers nd ! p) (workers nd' ! p) \<and> length (workers nd') = length (workers nd)"
proof -
  let ?P = "\<lambda>s. keeps_promise e (workers nd ! p) (workers (snd (snd s)) ! p) \<and>
    length (workers (snd (snd s))) = length (workers nd)"
  have "?P (st', rep', nd')"
  proof (rule for_each_invariant [where P = ?P, OF assms(1)])
    show "?P (st, rep, nd)" using assms(3) by (simp add: keeps_promise_refl)
  next
    fix i s s'
    assume P: "?P s" and s': "bulk_slot p l ss bs body u i s = Inr s'"
    obtain a b n a' b' n' where eq: "s = (a, b, n)" "s' = (a', b', n')" by (metis prod.exhaust)
    from P have "e \<le> cur_epoch (workers n ! p)" by (simp add: eq keeps_promise_def)
    with P assms(2) s' show "?P s'"
      using bulk_slot_promise [of p l ss bs body u i a b n a' b' n' e] assms(4)
      by (auto simp: eq intro: keeps_promise_trans)
  qed
  then show ?thesis by simp
qed

lemma collect_loop_frame:
  "collect_loop n i acc ps = Inr (xs, ps') \<Longrightarrow>
   accepted_at ps' = accepted_at ps \<and> cur_epoch ps' = cur_epoch ps \<and> committed_cmd \<circ> inst ps' = committed_cmd \<circ> inst ps"
proof (induction n arbitrary: i acc ps)
  case (Suc n)
  have "accepted_at (put_instance i (inst ps i) ps) = accepted_at ps"
    "committed_cmd \<circ> inst (put_instance i (inst ps i) ps) = committed_cmd \<circ> inst ps"
    by (auto simp: accepted_at_def fun_eq_iff)
  with Suc show ?case
    by (fastforce simp: rbind_eq_Inr_iff GetInstance_eq_Inr_iff accepted_at_def fun_eq_iff split: option.splits)
qed simp

lemma execute_committed_promise:
  assumes "execute_committed p (st, (v, b), nd) = Inr (r, nd')" and "p < length (workers nd)"
    and "e \<le> cur_epoch (workers nd ! p)"
  shows "keeps_promise e (workers nd ! p) (workers nd' ! p) \<and> length (workers nd') = length (workers nd)"
  using assms(1)
proof (cases rule: execute_committed_cases)
  case (2 xs ps)
  from collect_loop_frame [OF 2(2)] assms(2,3) show ?thesis
    by (simp add: 2(3) keeps_promise_def app_next_def accepted_at_def fun_eq_iff)
qed (use assms(3) in \<open>simp add: keeps_promise_refl\<close>)

lemma bulk_commit_promise:
  assumes "rbind (for_each (bulk_slot p l ss bs body u) xs (False, (1, None), nd)) (execute_committed p) =
      Inr (r, nd')" and "p < length (workers nd) - 1" and "e \<le> cur_epoch (workers nd ! p)"
    and "promising e body"
  shows "keeps_promise e (workers nd ! p) (workers nd' ! p) \<and> length (workers nd') = length (workers nd)"
proof -
  from assms(1) obtain st v b nd1 where
    s: "for_each (bulk_slot p l ss bs body u) xs (False, (1, None), nd) = Inr (st, (v, b), nd1)"
      "execute_committed p (st, (v, b), nd1) = Inr (r, nd')"
    by (auto simp: rbind_eq_Inr_iff)
  note 1 = bulk_loop_promise [OF s(1) assms(2-4)]
  then have "e \<le> cur_epoch (workers nd1 ! p)" by (simp add: keeps_promise_def)
  with 1 execute_committed_promise [OF s(2)] assms(2) show ?thesis
    by (auto intro: keeps_promise_trans)
qed

fun batch_msg :: "'c paxos_msg \<Rightarrow> bool" where
  "batch_msg (Bulk_Prepare2 m) = True"
| "batch_msg (Bulk_Accept m) = True"
| "batch_msg (Bulk_Decide m) = True"
| "batch_msg (Sync_Commit m) = True"
| "batch_msg m = False"

lemma batch_promise:
  assumes "handle noop p m nd = Inr nd'" and "batch_msg m" and "p < length (workers nd) - 1"
    and "e \<le> cur_epoch (workers nd ! p)"
  shows "keeps_promise e (workers nd ! p) (workers nd' ! p) \<and> length (workers nd') = length (workers nd)"
proof (cases m)
  case (Bulk_Prepare2 q)
  with assms(1) obtain r a where "OnBulkPrepare2 p q nd = Inr ((r, a), nd')"
    by (auto simp: rbind_eq_Inr_iff)
  then show ?thesis
  proof (cases rule: OnBulkPrepare2_cases)
    case (2 ps)
    have ps: "inst ps = inst (workers nd ! p)" "e \<le> cur_epoch ps" "length (workers (prepare2_entered p q nd)) = length (workers nd)"
      using assms(3,4) 2(2,3) by (auto simp: prepare2_entered_def Let_def nth_raise_epochs)
    with assms(3) show ?thesis by (auto simp: 2(4) keeps_promise_def accepted_at_def)
  qed (use assms(4) in \<open>simp add: keeps_promise_refl\<close>)
next
  case (Bulk_Accept q)
  with assms(1) obtain r where "OnBulkAccept p q nd = Inr (r, nd')" by (auto simp: rbind_eq_Inr_iff)
  then show ?thesis unfolding OnBulkAccept_def
  proof (cases rule: bulk_enter_cases)
    case 2
    from 2(4) obtain st where "for_each (bulk_slot p (cmd_leader_id q) (slots q) (ballots q) (accept_slot (cmds q))
        (\<lambda>b (v, _). (v, Some b))) [0..<length (slots q)]
        (False, (1, None), bulk_entered (cmd_leader_id q) nd) = Inr (st, r, nd')"
      by (auto simp: rbind_eq_Inr_iff)
    from bulk_loop_promise [OF this] assms(3,4) show ?thesis by auto
  qed (use assms(4) in \<open>simp add: keeps_promise_refl\<close>)
next
  case (Bulk_Decide q)
  with assms(1) obtain r where "OnBulkCommit p q nd = Inr (r, nd')" by (auto simp: rbind_eq_Inr_iff)
  then show ?thesis unfolding OnBulkCommit_def
  proof (cases rule: bulk_enter_cases)
    case 2
    from bulk_commit_promise [OF 2(4)] assms(3,4) show ?thesis by auto
  qed (use assms(4) in \<open>simp add: keeps_promise_refl\<close>)
next
  case (Sync_Commit q)
  with assms(1) obtain r where "OnSyncCommit p q nd = Inr (r, nd')" by (auto simp: rbind_eq_Inr_iff)
  then show ?thesis unfolding OnSyncCommit_def
  proof (cases rule: bulk_enter_cases)
    case 2
    from bulk_commit_promise [OF 2(4)] assms(3,4) show ?thesis by auto
  qed (use assms(4) in \<open>simp add: keeps_promise_refl\<close>)
qed (use assms(2) in simp_all)

lemma batch_run_promise:
  assumes "for_each (handle noop p) ms nd = Inr nd'" and "list_all batch_msg ms"
    and "p < length (workers nd) - 1" and "e \<le> cur_epoch (workers nd ! p)"
  shows "keeps_promise e (workers nd ! p) (workers nd' ! p)"
proof -
  let ?P = "\<lambda>n. keeps_promise e (workers nd ! p) (workers n ! p) \<and> length (workers n) = length (workers nd)"
  have "?P nd'"
  proof (rule for_each_invariant [where P = ?P, OF assms(1)])
    show "?P nd" using assms(4) by (simp add: keeps_promise_refl)
  next
    fix m n n'
    assume m: "m \<in> set ms" and P: "?P n" and n': "handle noop p m n = Inr n'"
    from m assms(2) have "batch_msg m" by (simp add: list_all_iff)
    moreover from P have "e \<le> cur_epoch (workers n ! p)" by (simp add: keeps_promise_def)
    ultimately show "?P n'" using batch_promise [OF n'] P assms(3) by (auto intro: keeps_promise_trans)
  qed
  then show ?thesis by simp
qed

section \<open>The normal case\<close>

text \<open>
  The messages a leader sends for \<open>cs\<close> in the slots from \<open>s\<close> on: one batch to accept and one to
  commit, all slots with the leader's epoch as ballot.
\<close>

definition accept_batch :: "int \<Rightarrow> nat \<Rightarrow> int \<Rightarrow> 'c list \<Rightarrow> 'c BulkPaxosCmd" where
  "accept_batch l s b cs = \<lparr>slots = [s..<s + length cs], ballots = replicate (length cs) b,
     cmd_leader_id = l, cmds = map Some cs\<rparr>"

definition commit_batch :: "int \<Rightarrow> nat \<Rightarrow> int \<Rightarrow> 'c list \<Rightarrow> PaxosPrepCmd" where
  "commit_batch l s b cs = \<lparr>slots = [s..<s + length cs], ballots = replicate (length cs) b,
     cmd_leader_id = l\<rparr>"

definition same_log :: "'c PaxosServer \<Rightarrow> 'c PaxosServer \<Rightarrow> bool" where
  "same_log ps ps' \<longleftrightarrow> inst ps' = inst ps \<and> applied ps' = applied ps \<and>
     max_executed_slot ps' = max_executed_slot ps \<and> max_committed_slot ps' = max_committed_slot ps \<and>
     min_active_slot ps' = min_active_slot ps"

definition others_same :: "nat \<Rightarrow> 'c paxos_node \<Rightarrow> 'c paxos_node \<Rightarrow> bool" where
  "others_same p nd nd' \<longleftrightarrow> length (workers nd') = length (workers nd) \<and>
     (\<forall>q < length (workers nd). q \<noteq> p \<longrightarrow> same_log (workers nd ! q) (workers nd' ! q))"

lemma same_log_refl [simp]: "same_log ps ps"
  by (simp add: same_log_def)

lemma others_same_refl [simp]: "others_same p nd nd"
  by (simp add: others_same_def)

lemma others_same_trans: "others_same p nd nd1 \<Longrightarrow> others_same p nd1 nd2 \<Longrightarrow> others_same p nd nd2"
  by (auto simp: others_same_def same_log_def)

lemma others_same_workers: "workers nd1 = workers nd' \<Longrightarrow> others_same p nd nd1 = others_same p nd nd'"
  by (simp add: others_same_def)

lemma others_same_upd_worker [simp]: "others_same p nd (upd_worker p f nd') = others_same p nd nd'"
  by (auto simp: others_same_def)

lemma same_log_raise:
  assumes "q < length (workers nd)"
  shows "same_log (workers nd ! q) (workers (raise_epochs b l nd) ! q)"
proof (cases "q < length (workers nd) - 1")
  case True
  then show ?thesis by (simp add: nth_raise_epochs same_log_def)
next
  case False
  with assms have "q = length (workers nd) - 1" by simp
  with assms show ?thesis by (simp add: workers_raise_epochs nth_append)
qed

lemma others_same_raise [simp]: "others_same p nd (raise_epochs b l nd)"
  by (simp add: others_same_def same_log_raise)

lemma bulk_slot_ok:
  assumes "p < length (workers nd) - 1" and "i < length ss" and "i < length bs"
    and "cur_epoch (workers nd ! p) \<le> bs ! i"
    and "body i (ss ! i) (bs ! i) (set_epoch_of (bs ! i) l (workers nd ! p)) = Inr ps"
  shows "\<exists>nd'. bulk_slot p l ss bs body u i (False, rep, nd) = Inr (False, u (bs ! i) rep, nd') \<and>
    workers nd' ! p = ps \<and> others_same p nd nd'"
proof -
  let ?nd = "upd_es (set_leader l) (if cur_epoch (workers nd ! p) < bs ! i then raise_epochs (bs ! i) l nd else nd)"
  have w: "workers ?nd ! p = set_epoch_of (bs ! i) l (workers nd ! p)"
    using assms(1) by (simp add: set_epoch_of_def nth_raise_epochs)
  have "others_same p nd ?nd"
    by (simp add: others_same_workers [of "upd_es (set_leader l) _"] )
  moreover have "bulk_slot p l ss bs body u i (False, rep, nd) =
      Inr (False, u (bs ! i) rep, upd_worker p (\<lambda>_. ps) ?nd)"
    using assms(2-4) assms(5) [folded w] by (simp add: bulk_slot_def Let_def)
  moreover have "workers (upd_worker p (\<lambda>_. ps) ?nd) ! p = ps" using assms(1) by simp
  ultimately show ?thesis by auto
qed

text \<open>State of the accept loop after \<open>i\<close> slots, and of the commit loop.\<close>

definition accepted_upto ::
  "nat \<Rightarrow> 'c paxos_node \<Rightarrow> nat \<Rightarrow> int \<Rightarrow> 'c list \<Rightarrow> nat \<Rightarrow> 'c bulk_state \<Rightarrow> bool" where
  "accepted_upto p nd s b cs i = (\<lambda>(st, rep, nd').
     let ps = workers nd ! p; ps' = workers nd' ! p
     in \<not> st \<and> fst rep = 1 \<and> (0 < i \<longrightarrow> snd rep = Some b \<and> cur_epoch ps' = b) \<and> cur_epoch ps' \<le> b \<and>
        others_same p nd nd' \<and>
        applied ps' = applied ps \<and> max_executed_slot ps' = max_executed_slot ps \<and>
        max_committed_slot ps' = max_committed_slot ps \<and> min_active_slot ps' = min_active_slot ps \<and>
        (\<forall>j < i. accepted_at ps' (s + j) = (b, Some (cs ! j))) \<and>
        (\<forall>j. j < s \<or> s + i \<le> j \<longrightarrow> inst ps' j = inst ps j))"

lemma set_epoch_of_frame [simp]:
  "inst (set_epoch_of b l ps) = inst ps" "applied (set_epoch_of b l ps) = applied ps"
  "max_executed_slot (set_epoch_of b l ps) = max_executed_slot ps"
  "max_committed_slot (set_epoch_of b l ps) = max_committed_slot ps"
  "min_active_slot (set_epoch_of b l ps) = min_active_slot ps"
  "cur_epoch ps \<le> b \<Longrightarrow> cur_epoch (set_epoch_of b l ps) = b"
  by (auto simp: set_epoch_of_def)

lemma accept_slot_ok:
  assumes "min_active_slot ps \<le> s" and "i < length cs"
  obtains ps' where "accept_slot cs i s b ps = Inr ps'"
    "applied ps' = applied ps" "max_executed_slot ps' = max_executed_slot ps"
    "max_committed_slot ps' = max_committed_slot ps" "min_active_slot ps' = min_active_slot ps"
    "cur_epoch ps' = cur_epoch ps" "accepted_at ps' s = (b, cs ! i)" "\<And>j. j \<noteq> s \<Longrightarrow> inst ps' j = inst ps j"
proof
  let ?d = "(inst ps s)\<lparr>max_ballot_seen := b, max_ballot_accepted := b, accepted_cmd := cs ! i\<rparr>"
  let ?ps = "put_instance s ?d (put_instance s (inst ps s) ps)"
  show "accept_slot cs i s b ps = Inr (?ps\<lparr>max_accepted_slot := s, n_accept := n_accept ?ps + 1\<rparr>)"
    using assms by (simp add: accept_slot_def Let_def)
qed (simp_all add: accepted_at_def)

lemma accept_loop_step:
  assumes "accepted_upto p nd s b cs i st" and "i < length cs" and "p < length (workers nd) - 1"
    and "min_active_slot (workers nd ! p) \<le> s"
  shows "\<exists>st'. bulk_slot p l [s..<s + length cs] (replicate (length cs) b) (accept_slot (map Some cs))
      (\<lambda>b (v, _). (v, Some b)) i st = Inr st' \<and> accepted_upto p nd s b cs (Suc i) st'"
proof -
  obtain v w nd1 where st: "st = (False, (v, w), nd1)"
    using assms(1) by (cases st) (auto simp: accepted_upto_def Let_def)
  let ?ps = "workers nd1 ! p"
  let ?ps1 = "set_epoch_of b l ?ps"
  have P: "v = 1" "others_same p nd nd1" "applied ?ps = applied (workers nd ! p)" "cur_epoch ?ps \<le> b"
    "max_executed_slot ?ps = max_executed_slot (workers nd ! p)"
    "max_committed_slot ?ps = max_committed_slot (workers nd ! p)"
    "min_active_slot ?ps = min_active_slot (workers nd ! p)"
    "\<forall>j < i. accepted_at ?ps (s + j) = (b, Some (cs ! j))"
    "\<forall>j. j < s \<or> s + i \<le> j \<longrightarrow> inst ?ps j = inst (workers nd ! p) j"
    using assms(1) by (simp_all add: st accepted_upto_def Let_def)
  obtain ps2 where acc: "accept_slot (map Some cs) i (s + i) b ?ps1 = Inr ps2"
    "applied ps2 = applied ?ps1" "max_executed_slot ps2 = max_executed_slot ?ps1"
    "max_committed_slot ps2 = max_committed_slot ?ps1" "min_active_slot ps2 = min_active_slot ?ps1"
    "cur_epoch ps2 = cur_epoch ?ps1" "accepted_at ps2 (s + i) = (b, map Some cs ! i)"
    "\<And>j. j \<noteq> s + i \<Longrightarrow> inst ps2 j = inst ?ps1 j"
    by (rule accept_slot_ok [of ?ps1 "s + i" i "map Some cs" b]) (use assms(2,4) P(7) in auto)
  note ps2 = acc [simplified set_epoch_of_frame(1-5) set_epoch_of_frame(6) [OF P(4)] nth_map [OF assms(2)]]
  have len: "p < length (workers nd1) - 1" using P(2) assms(3) by (simp add: others_same_def)
  have at: "i < length [s..<s + length cs]" "i < length (replicate (length cs) b)"
    "[s..<s + length cs] ! i = s + i" "replicate (length cs) b ! i = b"
    using assms(2) by simp_all
  have body: "accept_slot (map Some cs) i ([s..<s + length cs] ! i) (replicate (length cs) b ! i)
      (set_epoch_of (replicate (length cs) b ! i) l ?ps) = Inr ps2"
    using ps2(1) by (simp only: at(3,4))
  have le: "cur_epoch ?ps \<le> replicate (length cs) b ! i" using P(4) by (simp only: at(4))
  obtain nd2 where nd2: "bulk_slot p l [s..<s + length cs] (replicate (length cs) b) (accept_slot (map Some cs))
      (\<lambda>b (v, _). (v, Some b)) i (False, (v, w), nd1) = Inr (False, (v, Some b), nd2)"
    "workers nd2 ! p = ps2" "others_same p nd1 nd2"
    using bulk_slot_ok [where u = "\<lambda>b (v, _). (v, Some b)" and rep = "(v, w)" and
        body = "accept_slot (map Some cs)" and l = l, OF len at(1,2) le body]
    unfolding at(4) split_conv by blast
  have "\<forall>j < Suc i. accepted_at ps2 (s + j) = (b, Some (cs ! j))"
    using P(8) ps2(7,8) by (auto simp: less_Suc_eq accepted_at_def)
  moreover have "\<forall>j. j < s \<or> s + Suc i \<le> j \<longrightarrow> inst ps2 j = inst (workers nd ! p) j"
    using P(9) ps2(8) by auto
  ultimately have "accepted_upto p nd s b cs (Suc i) (False, (v, Some b), nd2)"
    using P(1-7) ps2(2-6) others_same_trans [OF P(2) nd2(3)]
    by (simp add: accepted_upto_def Let_def nd2(2))
  with nd2(1) show ?thesis unfolding st by blast
qed

lemma OnBulkAccept_ok:
  assumes "p < length (workers nd) - 1" and "min_active_slot (workers nd ! p) \<le> s"
    and "cur_epoch (workers nd ! p) \<le> b" and "cs \<noteq> []"
  shows "\<exists>nd'. OnBulkAccept p (accept_batch l s b cs) nd = Inr ((1, Some b), nd') \<and>
    accepted_upto p nd s b cs (length cs) (False, (1, Some b), nd')"
proof -
  let ?m = "accept_batch l s b cs"
  let ?nd = "bulk_entered l nd"
  have "accepted_upto p nd s b cs 0 (False, (1, None), ?nd)"
    using assms(3) by (simp add: accepted_upto_def Let_def others_same_def)
  then have "\<exists>st. for_each (bulk_slot p l [s..<s + length cs] (replicate (length cs) b)
      (accept_slot (map Some cs)) (\<lambda>b (v, _). (v, Some b))) [0..<length cs] (False, (1, None), ?nd) = Inr st \<and>
      accepted_upto p nd s b cs (length cs) st"
    by (rule for_each_upt_progress [where P = "accepted_upto p nd s b cs"])
      (rule accept_loop_step [OF _ _ assms(1,2)])
  then obtain st where st: "for_each (bulk_slot p l [s..<s + length cs] (replicate (length cs) b)
      (accept_slot (map Some cs)) (\<lambda>b (v, _). (v, Some b))) [0..<length cs] (False, (1, None), ?nd) = Inr st"
    "accepted_upto p nd s b cs (length cs) st" by blast
  from st(2) assms(4) obtain nd' where nd': "st = (False, (1, Some b), nd')"
    by (cases st) (auto simp: accepted_upto_def Let_def)
  have "OnBulkAccept p ?m nd = Inr ((1, Some b), nd')"
    using assms(3,4) st(1)
    by (simp add: OnBulkAccept_def bulk_enter_def accept_batch_def nd' bulk_entered_def [symmetric] del: upt_Suc)
  with st(2) nd' show ?thesis by blast
qed

definition committed_upto ::
  "nat \<Rightarrow> 'c paxos_node \<Rightarrow> nat \<Rightarrow> 'c list \<Rightarrow> nat \<Rightarrow> 'c bulk_state \<Rightarrow> bool" where
  "committed_upto p nd s cs i = (\<lambda>(st, rep, nd').
     let ps = workers nd ! p; ps' = workers nd' ! p
     in \<not> st \<and> rep = (1, None) \<and> cur_epoch ps' = cur_epoch ps \<and> others_same p nd nd' \<and>
        accepted_at ps' = accepted_at ps \<and>
        applied ps' = applied ps \<and> max_executed_slot ps' = max_executed_slot ps \<and>
        min_active_slot ps' = min_active_slot ps \<and>
        (\<forall>j < i. committed_cmd (inst ps' (s + j)) = Some (cs ! j)) \<and>
        max_committed_slot ps' = (if i = 0 then max_committed_slot ps else max (max_committed_slot ps) (s + i - 1)))"

lemma commit_slot_ok:
  assumes "min_active_slot ps \<le> s" and "max_ballot_accepted (inst ps s) = b"
  obtains ps' where "commit_slot i s b ps = Inr ps'"
    "applied ps' = applied ps" "max_executed_slot ps' = max_executed_slot ps"
    "max_committed_slot ps' = max (max_committed_slot ps) s" "min_active_slot ps' = min_active_slot ps"
    "cur_epoch ps' = cur_epoch ps" "accepted_at ps' = accepted_at ps"
    "committed_cmd (inst ps' s) = accepted_cmd (inst ps s)" "\<And>j. j \<noteq> s \<Longrightarrow> inst ps' j = inst ps j"
proof
  let ?d = "(inst ps s)\<lparr>max_ballot_seen := b, max_ballot_accepted := b, committed_cmd := accepted_cmd (inst ps s)\<rparr>"
  show "commit_slot i s b ps = Inr (bump_committed s (put_instance s ?d (put_instance s (inst ps s) ps)))"
    using assms by (simp add: commit_slot_def Let_def)
qed (use assms(2) in \<open>auto simp: accepted_at_def fun_eq_iff\<close>)

lemma commit_loop_step:
  assumes "committed_upto p nd s cs i st" and "i < length cs" and "p < length (workers nd) - 1"
    and "min_active_slot (workers nd ! p) \<le> s" and "cur_epoch (workers nd ! p) = b"
    and "\<forall>j < length cs. accepted_at (workers nd ! p) (s + j) = (b, Some (cs ! j))"
  shows "\<exists>st'. bulk_slot p l [s..<s + length cs] (replicate (length cs) b) commit_slot
      (\<lambda>b rep. rep) i st = Inr st' \<and> committed_upto p nd s cs (Suc i) st'"
proof -
  obtain nd1 where st: "st = (False, (1, None), nd1)"
    using assms(1) by (cases st) (auto simp: committed_upto_def Let_def)
  let ?ps = "workers nd1 ! p"
  have P: "cur_epoch ?ps = b" "others_same p nd nd1" "accepted_at ?ps = accepted_at (workers nd ! p)"
    "applied ?ps = applied (workers nd ! p)"
    "max_executed_slot ?ps = max_executed_slot (workers nd ! p)"
    "min_active_slot ?ps = min_active_slot (workers nd ! p)"
    "\<forall>j < i. committed_cmd (inst ?ps (s + j)) = Some (cs ! j)"
    "max_committed_slot ?ps = (if i = 0 then max_committed_slot (workers nd ! p)
       else max (max_committed_slot (workers nd ! p)) (s + i - 1))"
    using assms(1,5) by (simp_all add: st committed_upto_def Let_def)
  have same: "set_epoch_of b l ?ps = ?ps" using P(1) by (simp add: set_epoch_of_def)
  have acc: "accepted_at ?ps (s + i) = (b, Some (cs ! i))" using P(3) assms(2,6) by simp
  obtain ps2 where ps2: "commit_slot i (s + i) b ?ps = Inr ps2"
    "applied ps2 = applied ?ps" "max_executed_slot ps2 = max_executed_slot ?ps"
    "max_committed_slot ps2 = max (max_committed_slot ?ps) (s + i)" "min_active_slot ps2 = min_active_slot ?ps"
    "cur_epoch ps2 = cur_epoch ?ps" "accepted_at ps2 = accepted_at ?ps"
    "committed_cmd (inst ps2 (s + i)) = accepted_cmd (inst ?ps (s + i))"
    "\<And>j. j \<noteq> s + i \<Longrightarrow> inst ps2 j = inst ?ps j"
    by (rule commit_slot_ok [of ?ps "s + i" b i]) (use assms(4) P(6) acc in \<open>auto simp: accepted_at_def\<close>)
  have len: "p < length (workers nd1) - 1" using P(2) assms(3) by (simp add: others_same_def)
  have at: "i < length [s..<s + length cs]" "i < length (replicate (length cs) b)"
    "[s..<s + length cs] ! i = s + i" "replicate (length cs) b ! i = b"
    using assms(2) by simp_all
  have body: "commit_slot i ([s..<s + length cs] ! i) (replicate (length cs) b ! i)
      (set_epoch_of (replicate (length cs) b ! i) l ?ps) = Inr ps2"
    using ps2(1) by (simp only: at(3,4) same)
  have le: "cur_epoch ?ps \<le> replicate (length cs) b ! i" using P(1) by (simp only: at(4))
  obtain nd2 where nd2: "bulk_slot p l [s..<s + length cs] (replicate (length cs) b) commit_slot
      (\<lambda>b rep. rep) i (False, (1, None), nd1) = Inr (False, (1, None), nd2)"
    "workers nd2 ! p = ps2" "others_same p nd1 nd2"
    using bulk_slot_ok [where u = "\<lambda>b rep. rep" and rep = "(1, None)" and body = commit_slot and l = l,
        OF len at(1,2) le body] by blast
  have "\<forall>j < Suc i. committed_cmd (inst ps2 (s + j)) = Some (cs ! j)"
    using P(7) ps2(8,9) acc by (auto simp: less_Suc_eq accepted_at_def)
  then have "committed_upto p nd s cs (Suc i) (False, (1, None), nd2)"
    using P(1-6,8) ps2(2-7) others_same_trans [OF P(2) nd2(3)] assms(5)
    by (auto simp add: committed_upto_def Let_def nd2(2))
  with nd2(1) show ?thesis unfolding st by blast
qed

text \<open>Enough committed slots behind the executed ones are all collected.\<close>

lemma collect_loop_all:
  assumes "\<forall>j < length cs. committed_cmd (inst ps (i + j)) = Some (cs ! j)" and "min_active_slot ps \<le> i"
  shows "\<exists>ps'. collect_loop (length cs) i acc ps = Inr (acc @ zip [i..<i + length cs] cs, ps') \<and>
    applied ps' = applied ps \<and> max_executed_slot ps' = max_executed_slot ps + length cs \<and>
    max_committed_slot ps' = max_committed_slot ps"
  using assms
proof (induction cs arbitrary: i acc ps)
  case (Cons c cs)
  let ?ps = "(put_instance i (inst ps i) ps)\<lparr>max_executed_slot := max_executed_slot ps + 1, n_commit := n_commit ps + 1\<rparr>"
  have c: "committed_cmd (inst ps i) = Some c" using Cons.prems(1) by (auto dest: spec [of _ 0])
  have "\<forall>j < length cs. committed_cmd (inst ?ps (Suc i + j)) = Some (cs ! j)"
    using Cons.prems(1) by (auto dest: spec [of _ "Suc _"])
  from Cons.IH [OF this, of "acc @ [(i, c)]"] Cons.prems(2) obtain ps' where
    "collect_loop (length cs) (Suc i) (acc @ [(i, c)]) ?ps = Inr ((acc @ [(i, c)]) @ zip [Suc i..<Suc i + length cs] cs, ps')"
    "applied ps' = applied ps" "max_executed_slot ps' = max_executed_slot ps + Suc (length cs)"
    "max_committed_slot ps' = max_committed_slot ps"
    by auto
  then show ?case using Cons.prems(2) c
    by (simp add: upt_conv_Cons del: upt_Suc)
qed simp

lemma OnBulkCommit_ok:
  assumes "p < length (workers nd) - 1" and "min_active_slot (workers nd ! p) \<le> s"
    and "cur_epoch (workers nd ! p) = b" and "cs \<noteq> []"
    and "s = Suc (max_executed_slot (workers nd ! p))"
    and "max_committed_slot (workers nd ! p) = max_executed_slot (workers nd ! p)"
    and "\<forall>j < length cs. accepted_at (workers nd ! p) (s + j) = (b, Some (cs ! j))"
  shows "\<exists>nd'. OnBulkCommit p (commit_batch l s b cs) nd = Inr ((1, None), nd') \<and>
    applied (workers nd' ! p) = applied (workers nd ! p) @ zip [s..<s + length cs] cs \<and>
    max_executed_slot (workers nd' ! p) = max_executed_slot (workers nd ! p) + length cs \<and>
    max_committed_slot (workers nd' ! p) = max_executed_slot (workers nd' ! p) \<and>
    others_same p nd nd'"
proof -
  let ?nd = "bulk_entered l nd"
  let ?ps = "workers nd ! p"
  have "committed_upto p nd s cs 0 (False, (1, None), ?nd)"
    by (simp add: committed_upto_def Let_def others_same_def)
  then have "\<exists>st. for_each (bulk_slot p l [s..<s + length cs] (replicate (length cs) b)
      commit_slot (\<lambda>b rep. rep)) [0..<length cs] (False, (1, None), ?nd) = Inr st \<and>
      committed_upto p nd s cs (length cs) st"
    by (rule for_each_upt_progress [where P = "committed_upto p nd s cs"])
      (rule commit_loop_step [OF _ _ assms(1,2,3,7)])
  then obtain nd1 where loop: "for_each (bulk_slot p l [s..<s + length cs] (replicate (length cs) b)
      commit_slot (\<lambda>b rep. rep)) [0..<length cs] (False, (1, None), ?nd) = Inr (False, (1, None), nd1)"
    and c: "committed_upto p nd s cs (length cs) (False, (1, None), nd1)"
    by (auto simp: committed_upto_def Let_def)
  let ?ps1 = "workers nd1 ! p"
  have P: "others_same p nd nd1" "applied ?ps1 = applied ?ps" "max_executed_slot ?ps1 = max_executed_slot ?ps"
    "min_active_slot ?ps1 = min_active_slot ?ps" "\<forall>j < length cs. committed_cmd (inst ?ps1 (s + j)) = Some (cs ! j)"
    "max_committed_slot ?ps1 = max_executed_slot ?ps + length cs"
    using c assms(4,5,6) by (auto simp: committed_upto_def Let_def)
  from collect_loop_all [OF P(5), of "[]"] P(4) assms(2) obtain ps2 where
    ps2: "collect_loop (length cs) s [] ?ps1 = Inr (zip [s..<s + length cs] cs, ps2)"
    "applied ps2 = applied ?ps1" "max_executed_slot ps2 = max_executed_slot ?ps1 + length cs"
    "max_committed_slot ps2 = max_committed_slot ?ps1"
    by auto
  let ?nd2 = "upd_worker p (\<lambda>_. app_next (zip [s..<s + length cs] cs) ps2) nd1"
  have "execute_committed p (False, (1, None), nd1) = Inr ((1, None), ?nd2)"
    using ps2(1) P(3,6) assms(5) by (simp add: execute_committed_def Let_def)
  then have "OnBulkCommit p (commit_batch l s b cs) nd = Inr ((1, None), ?nd2)"
    using assms(3,4) loop
    by (simp add: OnBulkCommit_def bulk_enter_def commit_batch_def bulk_entered_def [symmetric] del: upt_Suc)
  moreover have "workers ?nd2 ! p = app_next (zip [s..<s + length cs] cs) ps2"
    using P(1) assms(1) by (simp add: others_same_def)
  ultimately show ?thesis using P ps2 by (simp add: app_next_def)
qed

section \<open>Properties\<close>

text \<open>
  C22.  The normal case executes.  A partition that has executed all it has committed, is given a
  batch of commands for the next slots by a leader whose epoch is not older than its own, and then
  the commit of that batch: both messages are answered positively, the application gets exactly
  these commands, once each and in slot order, and the logs of the other partitions stay as they
  were.
\<close>

theorem bulk_accept_commit_executes:
  assumes "p < length (workers nd) - 1" and "cs \<noteq> []" and "cur_epoch (workers nd ! p) \<le> b"
    and "max_committed_slot (workers nd ! p) = max_executed_slot (workers nd ! p)"
    and "min_active_slot (workers nd ! p) \<le> max_executed_slot (workers nd ! p)"
    and "s = Suc (max_executed_slot (workers nd ! p))"
  shows "\<exists>nd1 nd2. OnBulkAccept p (accept_batch l s b cs) nd = Inr ((1, Some b), nd1) \<and>
    OnBulkCommit p (commit_batch l s b cs) nd1 = Inr ((1, None), nd2) \<and>
    applied (workers nd2 ! p) = applied (workers nd ! p) @ zip [s..<s + length cs] cs \<and>
    max_executed_slot (workers nd2 ! p) = max_executed_slot (workers nd ! p) + length cs \<and>
    max_committed_slot (workers nd2 ! p) = max_executed_slot (workers nd2 ! p) \<and>
    others_same p nd nd2"
proof -
  from assms(5,6) have "min_active_slot (workers nd ! p) \<le> s" by simp
  from OnBulkAccept_ok [OF assms(1) this assms(3,2)] obtain nd1 where
    nd1: "OnBulkAccept p (accept_batch l s b cs) nd = Inr ((1, Some b), nd1)"
    and acc: "accepted_upto p nd s b cs (length cs) (False, (1, Some b), nd1)" by blast
  have P: "cur_epoch (workers nd1 ! p) = b" "others_same p nd nd1"
    "applied (workers nd1 ! p) = applied (workers nd ! p)"
    "max_executed_slot (workers nd1 ! p) = max_executed_slot (workers nd ! p)"
    "max_committed_slot (workers nd1 ! p) = max_committed_slot (workers nd ! p)"
    "min_active_slot (workers nd1 ! p) = min_active_slot (workers nd ! p)"
    "\<forall>j < length cs. accepted_at (workers nd1 ! p) (s + j) = (b, Some (cs ! j))"
    using acc assms(2) by (auto simp: accepted_upto_def Let_def)
  then have "p < length (workers nd1) - 1" using assms(1) by (simp add: others_same_def)
  moreover have "min_active_slot (workers nd1 ! p) \<le> s" "s = Suc (max_executed_slot (workers nd1 ! p))"
    "max_committed_slot (workers nd1 ! p) = max_executed_slot (workers nd1 ! p)"
    using P(4-6) assms(4-6) by simp_all
  ultimately obtain nd2 where nd2: "OnBulkCommit p (commit_batch l s b cs) nd1 = Inr ((1, None), nd2)"
    "applied (workers nd2 ! p) = applied (workers nd1 ! p) @ zip [s..<s + length cs] cs"
    "max_executed_slot (workers nd2 ! p) = max_executed_slot (workers nd1 ! p) + length cs"
    "max_committed_slot (workers nd2 ! p) = max_executed_slot (workers nd2 ! p)" "others_same p nd1 nd2"
    using OnBulkCommit_ok [of p nd1 s b cs l] P(1,7) assms(2) by blast
  from others_same_trans [OF P(2) nd2(5)] nd1 nd2(1-4) P(3,4) show ?thesis
    by (intro exI conjI) (simp_all only:)
qed

definition fresh_node :: "int \<Rightarrow> nat \<Rightarrow> int \<Rightarrow> 'c paxos_node" where
  "fresh_node mid k e = \<lparr>es = \<lparr>es_epoch = e, cur_state = 0, machine_id = mid, es_leader_id = 0\<rparr>,
     workers = map (\<lambda>(l, e). new_PaxosServer l e) (replicate k (0, e))\<rparr>"

lemma workers_fresh_node [simp]: "workers (fresh_node m k e) = replicate k (new_PaxosServer 0 e)"
  by (simp add: fresh_node_def)

lemma new_PaxosServer_frame [simp]:
  "cur_epoch (new_PaxosServer l e) = e" "max_executed_slot (new_PaxosServer l e) = 0"
  "max_committed_slot (new_PaxosServer l e) = 0" "min_active_slot (new_PaxosServer l e) = 0"
  "applied (new_PaxosServer l e) = []" "inst (new_PaxosServer l e) = (\<lambda>_. new_PaxosData)"
  by (simp_all add: new_PaxosServer_def inst_def fun_eq_iff)

theorem bulk_accept_commit_executes_witness:
  "\<exists>nd1 nd2. OnBulkAccept 0 (accept_batch 0 1 2 ''ab'') (fresh_node 1 3 2) = Inr ((1, Some 2), nd1) \<and>
    OnBulkCommit 0 (commit_batch 0 1 2 ''ab'') nd1 = Inr ((1, None), nd2) \<and>
    applied (workers nd2 ! 0) = [(1, CHR ''a''), (2, CHR ''b'')]"
  using bulk_accept_commit_executes [of 0 "fresh_node 1 3 2" "''ab''" 2 1 0]
  by (auto simp: upt_conv_Cons)

text \<open>
  C23.  Execution is in slot order, without gaps and without repetition, whatever messages arrive in
  whatever order: in every state a machine can get into, the slots handed to the application are
  \<open>1, 2, \<dots>\<close> up to \<^verbatim>\<open>max_executed_slot_\<close>, which never overtakes \<^verbatim>\<open>max_committed_slot_\<close>, and \<^verbatim>\<open>n_commit_\<close>
  counts them.
\<close>

theorem paxos_executes_in_order:
  assumes "paxos_reachable k nd" and "p < k"
  shows "map fst (applied (workers nd ! p)) = [1..<Suc (max_executed_slot (workers nd ! p))] \<and>
    max_executed_slot (workers nd ! p) \<le> max_committed_slot (workers nd ! p) \<and>
    n_commit (workers nd ! p) = length (applied (workers nd ! p))"
  using node_inv_nth [OF paxos_reachable_inv [OF assms(1)] assms(2)] by (simp add: server_inv_def)

lemma fresh_node_reachable: "paxos_reachable k (fresh_node m k e)"
  by (rule paxos_reachable.start [of _ "replicate k (0, e)"]) (simp_all add: fresh_node_def)

theorem paxos_executes_in_order_witness:
  "\<exists>nd :: char paxos_node. paxos_reachable 3 nd \<and> map fst (applied (workers nd ! 0)) = [1, 2] \<and> max_executed_slot (workers nd ! 0) = 2"
proof -
  obtain nd1 where nd1: "OnBulkAccept 0 (accept_batch 0 1 2 ''ab'') (fresh_node 1 3 2) = Inr ((1, Some 2), nd1)"
    and acc: "accepted_upto 0 (fresh_node 1 3 2) 1 2 ''ab'' 2 (False, (1, Some 2), nd1)"
    using OnBulkAccept_ok [of 0 "fresh_node 1 3 2" 1 2 "''ab''" 0] by (auto simp: numeral_2_eq_2)
  have ps: "length (workers nd1) = 3" "cur_epoch (workers nd1 ! 0) = 2" "min_active_slot (workers nd1 ! 0) = 0"
    "max_executed_slot (workers nd1 ! 0) = 0" "max_committed_slot (workers nd1 ! 0) = 0"
    "\<forall>j < 2. accepted_at (workers nd1 ! 0) (1 + j) = (2, Some (''ab'' ! j))"
    using acc by (simp_all add: accepted_upto_def others_same_def Let_def)
  obtain nd2 where nd2: "OnBulkCommit 0 (commit_batch 0 1 2 ''ab'') nd1 = Inr ((1, None), nd2)"
    "max_executed_slot (workers nd2 ! 0) = 2"
    using OnBulkCommit_ok [of 0 nd1 1 2 "''ab''" 0] ps by auto
  have "paxos_reachable 3 nd1"
    by (rule paxos_reachable.step [OF fresh_node_reachable [of 3 1 2], of 0 undefined "Bulk_Accept (accept_batch 0 1 2 ''ab'')"])
      (use nd1 in simp_all)
  then have r: "paxos_reachable 3 nd2"
    by (rule paxos_reachable.step [of _ _ 0 undefined "Bulk_Decide (commit_batch 0 1 2 ''ab'')"])
      (use nd2(1) in simp_all)
  from paxos_executes_in_order [OF r, of 0] nd2(2) have "map fst (applied (workers nd2 ! 0)) = [1, 2]"
    by (simp add: upt_conv_Cons)
  with r nd2(2) show ?thesis by (intro exI [of _ nd2] conjI)
qed

text \<open>
  C24.  Against the four batch handlers an acceptor keeps its promises.  Start from a node whose
  partition \<open>p\<close> is in an epoch of at least \<open>e\<close>, and deliver to this partition any sequence of
  \<^verbatim>\<open>OnBulkPrepare2\<close>, \<^verbatim>\<open>OnBulkAccept\<close>, \<^verbatim>\<open>OnBulkCommit\<close> and \<^verbatim>\<open>OnSyncCommit\<close> messages that no assertion
  stops.  Then the partition is still in an epoch of at least \<open>e\<close>, what it has accepted for a slot has
  changed only for ballots of at least \<open>e\<close>, and each of these four handlers refuses a message whose
  first ballot is older than \<open>e\<close> with the epoch in the reply and no change of the node.  The messages
  left out are left out for a reason: the handlers of single slots (\<^verbatim>\<open>OnAccept\<close>) do not look at the epoch
  at all, and a heartbeat can lower it (next theorem).
\<close>

theorem acceptor_keeps_promise:
  assumes "for_each (handle noop p) ms nd = Inr nd'" and "list_all batch_msg ms"
    and "p < length (workers nd) - 1" and "e \<le> cur_epoch (workers nd ! p)"
  shows "e \<le> cur_epoch (workers nd' ! p) \<and>
    (\<forall>s. accepted_at (workers nd' ! p) s = accepted_at (workers nd ! p) s \<or>
         e \<le> max_ballot_accepted (inst (workers nd' ! p) s)) \<and>
    (\<forall>m. slots m \<noteq> [] \<and> ballots m \<noteq> [] \<and> ballots m ! 0 < e \<longrightarrow>
         OnBulkAccept p m nd' = Inr ((0, Some (cur_epoch (workers nd' ! p))), nd') \<and>
         OnSyncCommit p m nd' = Inr ((0, Some (cur_epoch (workers nd' ! p))), nd')) \<and>
    (\<forall>m. slots m \<noteq> [] \<and> ballots m \<noteq> [] \<and> ballots m ! 0 < e \<longrightarrow>
         OnBulkCommit p m nd' = Inr ((0, Some (cur_epoch (workers nd' ! p))), nd') \<and>
         OnBulkPrepare2 p m nd' = Inr (((0, Some (cur_epoch (workers nd' ! p))), None), nd'))"
  using batch_run_promise [OF assms]
  by (auto simp: keeps_promise_def OnBulkAccept_def OnSyncCommit_def OnBulkCommit_def OnBulkPrepare2_def
      bulk_enter_def)

theorem acceptor_keeps_promise_witness:
  "\<exists>nd'. handle CHR ''z'' 0 (Bulk_Accept (accept_batch 0 1 5 ''ab'')) (fresh_node 1 3 2) = Inr nd' \<and>
     2 \<le> cur_epoch (workers nd' ! 0) \<and>
     OnBulkAccept 0 (accept_batch 2 1 1 ''xy'') nd' = Inr ((0, Some (cur_epoch (workers nd' ! 0))), nd')"
proof -
  obtain nd' where "OnBulkAccept 0 (accept_batch 0 1 5 ''ab'') (fresh_node 1 3 2) = Inr ((1, Some 5), nd')"
    using OnBulkAccept_ok [of 0 "fresh_node 1 3 2" 1 5 "''ab''" 0] by auto
  then have h: "handle CHR ''z'' 0 (Bulk_Accept (accept_batch 0 1 5 ''ab'')) (fresh_node 1 3 2) = Inr nd'"
    by simp
  then show ?thesis
    using acceptor_keeps_promise [of "CHR ''z''" 0 "[Bulk_Accept (accept_batch 0 1 5 ''ab'')]" "fresh_node 1 3 2" nd' 2]
    by (auto simp: accept_batch_def upt_conv_Cons)
qed

text \<open>The accept of a batch leaves the epoch of the election state alone.\<close>

lemma bulk_slot_es_epoch:
  assumes "bulk_slot p l ss bs body u i s = Inr s'"
  shows "es_epoch (es (snd (snd s'))) = es_epoch (es (snd (snd s)))"
  using assms
  by (cases s) (auto simp: bulk_slot_def Let_def rbind_eq_Inr_iff set_leader_def split: if_splits)

lemma OnBulkAccept_es_epoch:
  assumes "OnBulkAccept p m nd = Inr (r, nd')"
  shows "es_epoch (es nd') = es_epoch (es nd)"
  using assms unfolding OnBulkAccept_def
proof (cases rule: bulk_enter_cases)
  case 2
  from 2(4) obtain st where loop: "for_each (bulk_slot p (cmd_leader_id m) (slots m) (ballots m)
      (accept_slot (cmds m)) (\<lambda>b (v, _). (v, Some b))) [0..<length (slots m)]
      (False, (1, None), bulk_entered (cmd_leader_id m) nd) = Inr (st, r, nd')"
    by (auto simp: rbind_eq_Inr_iff)
  have "es_epoch (es (snd (snd (st, r, nd')))) = es_epoch (es nd)"
    by (rule for_each_invariant [where P = "\<lambda>s. es_epoch (es (snd (snd s))) = es_epoch (es nd)", OF loop])
      (auto simp: bulk_entered_def set_state_def dest!: bulk_slot_es_epoch)
  then show ?thesis by simp
qed simp

text \<open>
  C25.  The promise does not cover heartbeats.  \<^verbatim>\<open>OnHeartbeat\<close> compares its epoch with that of the
  election state, which the accept messages of a new leader do not raise, and then sets the epoch
  of every partition to its own.  A machine whose election state is still at epoch 3 and that has
  accepted a command with ballot 5 goes back to epoch 4 on the heartbeat of a leader of epoch 4,
  and then accepts that leader's command for the same slot with the smaller ballot.
\<close>

theorem heartbeat_breaks_promise:
  "\<exists>nd1 nd2 nd3. OnBulkAccept 0 (accept_batch 1 1 5 ''a'') (fresh_node 2 3 3) = Inr ((1, Some 5), nd1) \<and>
     accepted_at (workers nd1 ! 0) 1 = (5, Some CHR ''a'') \<and>
     OnHeartbeat \<lparr>hb_leader_id = 0, hb_epoch = 4\<rparr> nd1 = Inr ((1, None), nd2) \<and>
     OnBulkAccept 0 (accept_batch 0 1 4 ''b'') nd2 = Inr ((1, Some 4), nd3) \<and>
     accepted_at (workers nd3 ! 0) 1 = (4, Some CHR ''b'')"
proof -
  let ?nd0 = "fresh_node 2 3 3"
  obtain nd1 where nd1: "OnBulkAccept 0 (accept_batch 1 1 5 ''a'') ?nd0 = Inr ((1, Some 5), nd1)"
    and acc: "accepted_upto 0 ?nd0 1 5 ''a'' 1 (False, (1, Some 5), nd1)"
    using OnBulkAccept_ok [of 0 ?nd0 1 5 "''a''" 1] by auto
  from OnBulkAccept_es_epoch [OF nd1] have e1: "es_epoch (es nd1) = 3" by (simp add: fresh_node_def)
  from acc have w1: "length (workers nd1) = 3" "accepted_at (workers nd1 ! 0) 1 = (5, Some CHR ''a'')"
    "min_active_slot (workers nd1 ! 0) = 0"
    by (simp_all add: accepted_upto_def others_same_def Let_def)
  let ?nd2 = "upd_es (set_leader 0) (raise_epochs 4 0 (upd_es (set_epoch 4) (upd_es (set_state 0) nd1)))"
  have 2: "OnHeartbeat \<lparr>hb_leader_id = 0, hb_epoch = 4\<rparr> nd1 = Inr ((1, None), ?nd2)"
    by (simp add: OnHeartbeat_def Let_def e1)
  have "cur_epoch (workers ?nd2 ! 0) = 4" "min_active_slot (workers ?nd2 ! 0) = 0" "length (workers ?nd2) = 3"
    using w1 by (simp_all add: nth_raise_epochs)
  with OnBulkAccept_ok [of 0 ?nd2 1 4 "''b''" 0] obtain nd3 where
    3: "OnBulkAccept 0 (accept_batch 0 1 4 ''b'') ?nd2 = Inr ((1, Some 4), nd3)"
      "accepted_upto 0 ?nd2 1 4 ''b'' 1 (False, (1, Some 4), nd3)" by auto
  from 3(2) have "accepted_at (workers nd3 ! 0) 1 = (4, Some CHR ''b'')"
    by (simp add: accepted_upto_def Let_def)
  with nd1 w1(2) 2 3(1) show ?thesis by blast
qed

lemma fill_noop_at:
  "min_active_slot ps \<le> j \<Longrightarrow> fill_noop noop b j ps = Inr (put_instance j
     (if committed_cmd (inst ps j) = None
      then (inst ps j)\<lparr>committed_cmd := Some noop, is_no_op := True, max_ballot_accepted := b\<rparr>
      else inst ps j) ps)"
  by (simp add: fill_noop_def put_instance_def)

lemma fill_noops_all:
  assumes "\<forall>j \<in> set xs. min_active_slot ps \<le> j" and "distinct xs"
  shows "\<exists>ps'. for_each (fill_noop noop b) xs ps = Inr ps' \<and>
    max_executed_slot ps' = max_executed_slot ps \<and> max_committed_slot ps' = max_committed_slot ps \<and>
    min_active_slot ps' = min_active_slot ps \<and>
    (\<forall>j \<in> set xs. committed_cmd (inst ps j) = None \<longrightarrow> is_no_op (inst ps' j)) \<and>
    (\<forall>j. j \<notin> set xs \<longrightarrow> inst ps' j = inst ps j)"
  using assms
proof (induction xs arbitrary: ps)
  case (Cons x xs)
  let ?d = "if committed_cmd (inst ps x) = None
    then (inst ps x)\<lparr>committed_cmd := Some noop, is_no_op := True, max_ballot_accepted := b\<rparr> else inst ps x"
  let ?ps = "put_instance x ?d ps"
  have step: "fill_noop noop b x ps = Inr ?ps" using Cons.prems(1) by (simp add: fill_noop_at)
  from Cons.prems have "\<forall>j \<in> set xs. min_active_slot ?ps \<le> j" "distinct xs" by simp_all
  from Cons.IH [OF this] obtain ps' where ps': "for_each (fill_noop noop b) xs ?ps = Inr ps'"
    "max_executed_slot ps' = max_executed_slot ps" "max_committed_slot ps' = max_committed_slot ps"
    "min_active_slot ps' = min_active_slot ps"
    "\<forall>j \<in> set xs. committed_cmd (inst ?ps j) = None \<longrightarrow> is_no_op (inst ps' j)"
    "\<forall>j. j \<notin> set xs \<longrightarrow> inst ps' j = inst ?ps j" by auto
  have "is_no_op (inst ps' x)" if "committed_cmd (inst ps x) = None"
    using that ps'(6) Cons.prems(2) by auto
  with ps' step Cons.prems(2) show ?case by (auto split: if_splits)
qed simp

lemma execute_or_fail_noop:
  assumes "for_each execute_or_fail xs ps = Inr ps'" and "j \<in> set xs"
    and "is_no_op (inst ps j)"
  shows False
  using assms
proof (induction xs arbitrary: ps)
  case (Cons x xs)
  from Cons.prems(1) obtain ps1 where ps1: "execute_or_fail x ps = Inr ps1" "for_each execute_or_fail xs ps1 = Inr ps'"
    by (auto simp: rbind_eq_Inr_iff)
  from execute_or_fail_Inr [OF ps1(1)] Cons.prems(2,3) have "j \<in> set xs" "inst ps1 j = inst ps j"
    by auto
  with Cons.IH [OF ps1(2)] Cons.prems(3) show ?case by simp
qed simp

lemma sync_noops_partition_gap:
  assumes "i < length (sync_slots m)" and "server_inv (workers nd ! i)"
    and "sync_slots m ! i \<le> j" and "j \<le> max_committed_slot (workers nd ! i)"
    and "committed_cmd (inst (workers nd ! i) j) = None"
  shows "sync_noops_partition noop m i nd \<noteq> Inr nd'"
proof
  let ?ps = "workers nd ! i"
  let ?lo = "sync_slots m ! i"
  assume "sync_noops_partition noop m i nd = Inr nd'"
  then obtain ps1 ps2 where lt: "max_executed_slot ?ps < ?lo"
    and ps1: "for_each (fill_noop noop (no_epoch m)) [?lo..<Suc (max_committed_slot ?ps)] ?ps = Inr ps1"
    and ps2: "for_each execute_or_fail [Suc (max_executed_slot ps1)..<Suc (max_committed_slot ps1)] ps1 = Inr ps2"
    by (auto simp: sync_noops_partition_def Let_def rbind_eq_Inr_iff not_le)
  have "\<forall>j \<in> set [?lo..<Suc (max_committed_slot ?ps)]. min_active_slot ?ps \<le> j"
    using assms(2) lt by (auto simp: server_inv_def)
  moreover have "j \<in> set [?lo..<Suc (max_committed_slot ?ps)]" using assms(3,4) by auto
  ultimately have ex: "is_no_op (inst ps1 j)" "max_executed_slot ps1 = max_executed_slot ?ps"
    "max_committed_slot ps1 = max_committed_slot ?ps"
    using fill_noops_all [of "[?lo..<Suc (max_committed_slot ?ps)]" ?ps noop "no_epoch m"] ps1 assms(5)
    by (auto simp del: upt_Suc set_upt)
  from ex(2,3) lt assms(3,4) have "j \<in> set [Suc (max_executed_slot ps1)..<Suc (max_committed_slot ps1)]" by auto
  from execute_or_fail_noop [OF ps2 this ex(1)] show False .
qed

text \<open>
  \<^verbatim>\<open>OnSyncNoOps\<close> cannot fill a gap.  When some slot between the first one asked for and the
  last committed one has no committed command, the handler makes it a no-op and then stops at the
  \<^verbatim>\<open>verify(0)\<close> of its own execution loop, for whatever reply it would have given.
\<close>

theorem sync_noops_gap_fails:
  assumes "cur_epoch (workers nd ! p) \<le> no_epoch m" and "node_inv (Suc (Suc k)) nd"
    and "0 < length (sync_slots m)" and "sync_slots m ! 0 \<le> j" and "j \<le> max_committed_slot (workers nd ! 0)"
    and "committed_cmd (inst (workers nd ! 0) j) = None"
  shows "OnSyncNoOps noop p m nd \<noteq> Inr r"
proof
  assume "OnSyncNoOps noop p m nd = Inr r"
  moreover from assms(2) have "length (workers nd) - 1 = Suc k" "server_inv (workers nd ! 0)"
    by (auto simp: node_inv_def)
  ultimately obtain nd1 where "sync_noops_partition noop m 0 nd = Inr nd1"
    using assms(1) by (auto simp: OnSyncNoOps_def rbind_eq_Inr_iff upt_conv_Cons simp del: upt_Suc)
  with sync_noops_partition_gap [OF assms(3) \<open>server_inv (workers nd ! 0)\<close> assms(4-6)] show False by simp
qed

definition gap_node :: "char paxos_node" where
  "gap_node = upd_worker 0 (bump_committed 2) (fresh_node 1 2 3)"

theorem sync_noops_gap_fails_witness:
  "\<not> (\<exists>r. OnSyncNoOps CHR ''z'' 0 \<lparr>no_leader_id = 1, no_epoch = 3, sync_slots = [1]\<rparr> gap_node = Inr r)"
proof -
  have "node_inv (Suc (Suc 0)) gap_node"
    unfolding gap_node_def by (rule node_inv_upd_worker) (simp_all add: node_inv_def)
  then have "OnSyncNoOps CHR ''z'' 0 \<lparr>no_leader_id = 1, no_epoch = 3, sync_slots = [1]\<rparr> gap_node \<noteq> Inr r" for r
    by (intro sync_noops_gap_fails [where k = 0 and j = 1])
      (simp_all add: gap_node_def new_PaxosData_def)
  then show ?thesis by blast
qed

end
