(* ===== verification/Masstree_Permuter.thy ===== *)
theory Masstree_Permuter
  imports Rolis_Prelude "HOL-Library.Multiset"
begin

text \<open>
  \<^verbatim>\<open>kpermuter\<close> (\<^verbatim>\<open>masstree/kpermuter.hh\<close>): the order of the keys of a Masstree leaf, packed into one
  64-bit word that a reader can load in one step.  The lowest four bits are the number of keys, the
  next \<open>W\<close> groups of four bits name the slots: first those in use, in key order, then the free ones.
  \<open>W\<close> is the template argument \<^verbatim>\<open>width\<close>; the widths from 8 to 15 are those stored in 64 bits.

  The operations are the C++ expressions, shift for shift.  \<open>nib x k\<close> is the group \<open>k\<close> of four bits,
  and \<open>elems W x\<close> the list of slots; the lemmas on groups of bits (collection \<open>nib_simps\<close>) turn each
  operation into one on that list.
\<close>

section \<open>The code\<close>

definition initial_value :: u64 where "initial_value = 0x0123456789ABCDE0"

definition full_value :: u64 where "full_value = 0xEDCBA98765432100"

definition max_width :: nat where "max_width = 15"

definition make_empty :: "nat \<Rightarrow> u64" where
  "make_empty W = drop_bit ((max_width - W) * 4) initial_value AND NOT 15"

definition make_sorted :: "nat \<Rightarrow> nat \<Rightarrow> u64" where
  "make_sorted W n =
     (let m = (if n = W then 0 else push_bit (n * 4) 16) - 1
      in push_bit (n * 4) (make_empty W) OR (full_value AND m) OR word_of_nat n)"

definition kp_size :: "u64 \<Rightarrow> nat" where
  "kp_size x = unat (x AND 15)"

definition elt :: "u64 \<Rightarrow> nat \<Rightarrow> nat" where
  "elt x i = unat (drop_bit (i * 4 + 4) x AND 15)"

definition kp_back :: "nat \<Rightarrow> u64 \<Rightarrow> nat" where
  "kp_back W x = elt x (W - 1)"

definition value_from :: "u64 \<Rightarrow> nat \<Rightarrow> u64" where
  "value_from x i = drop_bit ((i + 1) * 4) x"

definition set_size :: "nat \<Rightarrow> u64 \<Rightarrow> u64" where
  "set_size n x = (x AND NOT 15) OR word_of_nat n"

definition insert_from_back :: "nat \<Rightarrow> nat \<Rightarrow> u64 \<Rightarrow> nat \<times> u64" where
  "insert_from_back W i x =
     (let v = kp_back W x
      in (v, ((x + 1) AND (push_bit (i * 4) 16 - 1))
             OR push_bit (i * 4 + 4) (word_of_nat v)
             OR (push_bit 4 x AND NOT (push_bit (i * 4) 256 - 1))))"

definition insert_selected :: "nat \<Rightarrow> nat \<Rightarrow> u64 \<Rightarrow> u64" where
  "insert_selected di si x =
     (let v = elt x si; m = push_bit (si * 4) 256 - 1
      in ((x + 1) AND (push_bit (di * 4) 16 - 1))
         OR push_bit (di * 4 + 4) (word_of_nat v)
         OR (push_bit 4 x AND m AND NOT (push_bit (di * 4) 256 - 1))
         OR (x AND NOT m))"

definition kp_remove :: "nat \<Rightarrow> u64 \<Rightarrow> u64" where
  "kp_remove i x =
     (if kp_size x = i + 1 then x - 1
      else let rot_amount = (kp_size x - i - 1) * 4;
               rot_mask = push_bit ((i + 1) * 4) (push_bit rot_amount 16 - 1)
        in ((x - 1) AND NOT rot_mask)
           OR (drop_bit 4 (x AND rot_mask) AND rot_mask)
           OR (push_bit rot_amount (x AND rot_mask) AND rot_mask))"

definition remove_to_back :: "nat \<Rightarrow> nat \<Rightarrow> u64 \<Rightarrow> u64" where
  "remove_to_back W i x =
     (let m = NOT (push_bit (i * 4) 16 - 1);
          y = x AND (push_bit (W * 4) 16 - 1)
      in ((y - 1) AND NOT m) OR (drop_bit 4 y AND m) OR push_bit ((W - i - 1) * 4) (y AND m))"

definition kp_rotate :: "nat \<Rightarrow> nat \<Rightarrow> nat \<Rightarrow> u64 \<Rightarrow> u64" where
  "kp_rotate W i j x =
     (let m = (if i = W then 0 else push_bit (i * 4) 16) - 1;
          y = x AND (push_bit (W * 4) 16 - 1)
      in (y AND m) OR (drop_bit ((j - i) * 4) y AND NOT m) OR push_bit ((W - j) * 4) (y AND NOT m))"

definition exchange :: "nat \<Rightarrow> nat \<Rightarrow> u64 \<Rightarrow> u64" where
  "exchange i j x =
     (let diff = (drop_bit (i * 4) x XOR drop_bit (j * 4) x) AND 240
      in x XOR (push_bit (i * 4) diff OR push_bit (j * 4) diff))"

primrec exchange_values_loop :: "nat \<Rightarrow> nat \<Rightarrow> u64 \<Rightarrow> u64 \<Rightarrow> u64 \<Rightarrow> u64 \<Rightarrow> u64" where
  "exchange_values_loop W 0 a b diff p = diff"
| "exchange_values_loop W (Suc n) a b diff p =
     (let v = drop_bit (W * 4) p AND 15;
          diff = diff XOR (if v = a \<or> v = b then a XOR b else 0)
      in exchange_values_loop W n a b (push_bit 4 diff) (push_bit 4 p))"

definition exchange_values :: "nat \<Rightarrow> u64 \<Rightarrow> u64 \<Rightarrow> u64 \<Rightarrow> u64" where
  "exchange_values W a b x = x XOR exchange_values_loop W W a b 0 x"

section \<open>Groups of four bits\<close>

definition nib :: "u64 \<Rightarrow> nat \<Rightarrow> u64" where
  "nib x k = take_bit 4 (drop_bit (4 * k) x)"

named_theorems nib_simps "groups of four bits of a word"

lemma bit_nib [simp]: "bit (nib x k) r \<longleftrightarrow> r < 4 \<and> bit x (4 * k + r)"
  by (auto simp: nib_def bit_take_bit_iff bit_drop_bit_eq)

lemma nib_eqI: "(\<And>r. r < 4 \<Longrightarrow> bit x (4 * k + r) = bit y (4 * l + r)) \<Longrightarrow> nib x k = nib y l"
  by (rule bit_word_eqI) auto

lemma nib_out [nib_simps]: "16 \<le> k \<Longrightarrow> nib x k = 0"
  by (rule bit_word_eqI) (auto dest: bit_imp_le_length)

lemma word_eq_nibI:
  assumes "\<And>k. k < 16 \<Longrightarrow> nib x k = nib y k"
  shows "x = y"
proof (rule bit_word_eqI)
  fix n
  assume "n < LENGTH(64)"
  then have "n div 4 < 16" by simp
  from assms [OF this] have "bit (nib x (n div 4)) (n mod 4) = bit (nib y (n div 4)) (n mod 4)" by simp
  then show "bit x n = bit y n" by simp
qed

lemma nib_less: "nib x k < 16"
proof -
  have "unat (nib x k) < 2 ^ 4" by (simp add: nib_def take_bit_eq_mod unat_mod)
  then show ?thesis by (simp add: word_less_nat_alt)
qed

lemma unat_nib_less: "unat (nib x k) < 16"
  using nib_less [of x k] by (simp add: word_less_nat_alt)

lemma nib_nib [nib_simps]: "nib (nib x k) l = (if l = 0 then nib x k else 0)"
  by (rule bit_word_eqI) auto

lemma nib_0 [nib_simps]: "nib 0 k = 0"
  by (simp add: nib_def)

lemma nib_or [nib_simps]: "nib (x OR y) k = nib x k OR nib y k"
  by (rule bit_word_eqI) (auto simp: bit_or_iff)

lemma nib_xor [nib_simps]: "nib (x XOR y) k = nib x k XOR nib y k"
  by (rule bit_word_eqI) (auto simp: bit_xor_iff)

lemma nib_and_mask [nib_simps]: "nib (x AND mask (4 * j)) k = (if k < j then nib x k else 0)"
  by (rule bit_word_eqI) (auto simp: bit_and_iff bit_mask_iff dest: bit_imp_le_length)

lemma nib_and_not_mask [nib_simps]: "nib (x AND NOT (mask (4 * j))) k = (if k < j then 0 else nib x k)"
  by (rule bit_word_eqI) (auto simp: bit_and_iff bit_not_iff bit_mask_iff dest: bit_imp_le_length)

lemma nib_push [nib_simps]: "nib (push_bit (4 * j) x) k = (if j \<le> k \<and> k < 16 then nib x (k - j) else 0)"
proof (rule bit_word_eqI)
  fix n
  show "bit (nib (push_bit (4 * j) x) k) n = bit (if j \<le> k \<and> k < 16 then nib x (k - j) else 0) n"
  proof (cases "j \<le> k")
    case True
    then have "4 * k + n - 4 * j = 4 * (k - j) + n" by simp
    with True show ?thesis unfolding bit_nib bit_push_bit_iff
      by (auto dest: bit_imp_le_length)
  next
    case False
    then show ?thesis unfolding bit_nib bit_push_bit_iff by auto
  qed
qed

lemma nib_drop [nib_simps]: "nib (drop_bit (4 * j) x) k = nib x (k + j)"
  by (rule nib_eqI) (simp add: bit_drop_bit_eq algebra_simps)

lemma push_16_minus_1: "push_bit (i * 4) 16 - 1 = (mask (4 * Suc i) :: u64)"
proof -
  have "push_bit (i * 4) (16 :: u64) = 2 ^ (4 * Suc i)"
    by (simp add: push_bit_eq_mult power_add mult.commute)
  then show ?thesis by (simp add: mask_eq_exp_minus_1)
qed

lemma push_256_minus_1: "push_bit (i * 4) 256 - 1 = (mask (4 * Suc (Suc i)) :: u64)"
proof -
  have "push_bit (i * 4) (256 :: u64) = 2 ^ (4 * Suc (Suc i))"
    by (simp add: push_bit_eq_mult power_add mult.commute)
  then show ?thesis by (simp add: mask_eq_exp_minus_1)
qed

lemma mask_15: "(15 :: u64) = mask (4 * Suc 0)"
  by (simp add: mask_eq_exp_minus_1)

lemmas kp_masks = push_16_minus_1 push_256_minus_1 mask_15

lemma nib_0_eq: "nib x 0 = x AND 15"
  by (simp add: nib_def take_bit_eq_mask mask_eq_exp_minus_1)

lemma kp_size_nib: "kp_size x = unat (nib x 0)"
  by (simp add: kp_size_def nib_0_eq)

lemma elt_nib: "elt x i = unat (nib x (Suc i))"
proof -
  have "i * 4 + 4 = 4 * Suc i" by simp
  then show ?thesis by (simp add: elt_def nib_def take_bit_eq_mask mask_eq_exp_minus_1 del: mult_Suc_right)
qed

lemma nib_of_nat: "v < 16 \<Longrightarrow> nib (word_of_nat v) k = (if k = 0 then word_of_nat v else 0)"
proof -
  assume "v < 16"
  then have "take_bit 4 (word_of_nat v :: u64) = word_of_nat v"
    by (simp add: take_bit_eq_mod word_arith_nat_mod unat_of_nat)
  then have "word_of_nat v = nib (word_of_nat v) 0" by (simp add: nib_def)
  then show ?thesis using nib_nib [of "word_of_nat v" 0 k] by metis
qed

text \<open>Adding to and subtracting from the size does not carry into the slots.\<close>

lemma nib_id: "w < 16 \<Longrightarrow> nib w k = (if k = 0 then w else 0)"
  using nib_of_nat [of "unat w" k] by (simp add: word_less_nat_alt)

lemma nib_and: "nib (x AND y) k = nib x k AND nib y k"
  by (rule bit_word_eqI) (auto simp: bit_and_iff)

definition hi :: "u64 \<Rightarrow> u64" where
  "hi x = x AND NOT (mask (4 * Suc 0))"

lemma nib_hi [nib_simps]: "nib (hi x) k = (if k = 0 then 0 else nib x k)"
  by (simp add: hi_def nib_and_not_mask del: mult_Suc_right)

lemma nib_add_low:
  assumes "w < 16"
  shows "nib (hi x + w) k = (if k = 0 then w else nib x k)"
proof -
  have "hi x AND w = 0"
    by (rule word_eq_nibI) (simp add: nib_and nib_simps nib_id [OF assms])
  then have "hi x + w = hi x OR w" by (rule disjunctive_add_eq_or)
  then show ?thesis by (simp add: nib_simps nib_id [OF assms])
qed

lemma nib_split: "x = hi x + nib x 0"
  by (rule word_eq_nibI) (simp add: nib_add_low [OF nib_less])

lemma nib_plus_1:
  assumes "kp_size x < 15"
  shows "nib (x + 1) k = (if k = 0 then nib x 0 + 1 else nib x k)"
proof -
  have "nib x 0 + 1 < 16"
    using assms by (simp add: kp_size_nib word_less_nat_alt unat_word_ariths)
  from nib_add_low [OF this, of x k] show ?thesis
    by (subst nib_split [of x]) (simp add: add.assoc)
qed

lemma nib_minus_1:
  assumes "0 < kp_size x"
  shows "nib (x - 1) k = (if k = 0 then nib x 0 - 1 else nib x k)"
proof -
  have "unat (nib x 0 - 1) = unat (nib x 0) - 1"
    using assms by (intro unat_minus_one) (auto simp: kp_size_nib)
  then have "nib x 0 - 1 < 16" using unat_nib_less [of x 0] by (simp add: word_less_nat_alt)
  from nib_add_low [OF this, of x k] show ?thesis
    by (subst nib_split [of x]) (simp add: add_diff_eq)
qed

text \<open>The operations on the groups: which group of the argument each group of the result is.\<close>

lemma nib_insert_from_back:
  assumes "kp_size x < 15" and "i < W" and "W \<le> 15" and "k \<le> W"
  shows "nib (snd (insert_from_back W i x)) k =
    (if k = 0 then nib x 0 + 1 else if k \<le> i then nib x k else if k = Suc i then nib x W else nib x (k - 1))"
proof -
  have v: "word_of_nat (kp_back W x) = nib x W"
    using assms(2) by (simp add: kp_back_def elt_nib)
  have 4: "i * 4 + 4 = 4 * Suc i" "(4 :: nat) = 4 * Suc 0" by simp_all
  have "nib (snd (insert_from_back W i x)) k =
    (if k < Suc i then nib (x + 1) k else 0) OR
    (if Suc i \<le> k \<and> k < 16 then nib (nib x W) (k - Suc i) else 0) OR
    (if k < Suc (Suc i) then 0 else if Suc 0 \<le> k \<and> k < 16 then nib x (k - Suc 0) else 0)"
    unfolding insert_from_back_def Let_def snd_conv v kp_masks nib_or nib_and_mask nib_and_not_mask
      4(1) nib_push
    by (subst 4(2), subst nib_push) simp
  then show ?thesis
    using assms by (auto simp: nib_simps nib_plus_1)
qed

lemma nib_push_nat [nib_simps]:
  "nib (push_bit (j * 4) x) k = (if j \<le> k \<and> k < 16 then nib x (k - j) else 0)"
  "nib (push_bit 4 x) k = (if 1 \<le> k \<and> k < 16 then nib x (k - 1) else 0)"
  "nib (push_bit (j * 4 + 4) x) k = (if Suc j \<le> k \<and> k < 16 then nib x (k - Suc j) else 0)"
  using nib_push [of j x k] nib_push [of 1 x k] nib_push [of "Suc j" x k] by (simp_all add: ac_simps)

lemma nib_drop_nat [nib_simps]:
  "nib (drop_bit (j * 4) x) k = nib x (k + j)" "nib (drop_bit 4 x) k = nib x (Suc k)"
  using nib_drop [of j x k] nib_drop [of 1 x k] by (simp_all add: ac_simps)

lemma nib_and_slice [nib_simps]:
  "nib (x AND push_bit (a * 4) (mask (4 * m))) k = (if a \<le> k \<and> k < a + m then nib x k else 0)"
  "nib (x AND NOT (push_bit (a * 4) (mask (4 * m)))) k = (if a \<le> k \<and> k < a + m then 0 else nib x k)"
proof -
  have b: "bit (push_bit (a * 4) (mask (4 * m)) :: u64) n \<longleftrightarrow> a * 4 \<le> n \<and> n < 4 * (a + m) \<and> n < 64" for n
    unfolding bit_push_bit_iff bit_mask_iff by auto
  show "nib (x AND push_bit (a * 4) (mask (4 * m))) k = (if a \<le> k \<and> k < a + m then nib x k else 0)"
    by (rule bit_word_eqI) (auto simp: bit_and_iff b dest: bit_imp_le_length)
  show "nib (x AND NOT (push_bit (a * 4) (mask (4 * m)))) k = (if a \<le> k \<and> k < a + m then 0 else nib x k)"
    by (rule bit_word_eqI) (auto simp: bit_and_iff bit_not_iff b dest: bit_imp_le_length)
qed

lemma nib_insert_selected:
  assumes "kp_size x < 15" and "di \<le> si" and "si < 15"
  shows "nib (insert_selected di si x) k =
    (if k = 0 then nib x 0 + 1 else if k \<le> di then nib x k
     else if k = Suc di then nib x (Suc si) else if k \<le> Suc si then nib x (k - 1) else nib x k)"
proof -
  have v: "word_of_nat (elt x si) = nib x (Suc si)" by (simp add: elt_nib)
  have "nib (insert_selected di si x) k =
    (if k < Suc di then nib (x + 1) k else 0) OR
    (if Suc di \<le> k \<and> k < 16 then nib (nib x (Suc si)) (k - Suc di) else 0) OR
    (if k < Suc (Suc di) then 0 else if k < Suc (Suc si) then
       if 1 \<le> k \<and> k < 16 then nib x (k - 1) else 0 else 0) OR
    (if k < Suc (Suc si) then 0 else nib x k)"
    unfolding insert_selected_def Let_def v kp_masks and.assoc [symmetric] nib_or nib_and_mask
      nib_and_not_mask nib_push_nat ..
  then show ?thesis using assms by (auto simp: nib_nib nib_plus_1)
qed

lemma nib_remove:
  assumes "i < kp_size x" and "kp_size x \<le> 15"
  shows "nib (kp_remove i x) k =
    (if k = 0 then nib x 0 - 1 else if k \<le> i \<or> kp_size x < k then nib x k
     else if k = kp_size x then nib x (Suc i) else nib x (Suc k))"
proof (cases "kp_size x = i + 1")
  case True
  then show ?thesis using assms by (cases "k = Suc i") (auto simp: kp_remove_def nib_minus_1)
next
  case False
  define m where "m = kp_size x - i - 1"
  have m: "kp_size x = i + 1 + m" "0 < m" using False assms by (auto simp: m_def)
  define M :: u64 where "M = push_bit ((i + 1) * 4) (mask (4 * Suc m))"
  have M: "nib (y AND M) k = (if i + 1 \<le> k \<and> k < i + 1 + Suc m then nib y k else 0)"
    "nib (y AND NOT M) k = (if i + 1 \<le> k \<and> k < i + 1 + Suc m then 0 else nib y k)" for y k
    unfolding M_def by (rule nib_and_slice)+
  have "kp_remove i x = ((x - 1) AND NOT M) OR (drop_bit 4 (x AND M) AND M) OR (push_bit (m * 4) (x AND M) AND M)"
    using False by (simp only: kp_remove_def Let_def m_def M_def push_16_minus_1 if_False)
  then have "nib (kp_remove i x) k =
      (if i + 1 \<le> k \<and> k < i + 1 + Suc m then 0 else nib (x - 1) k) OR
      (if i + 1 \<le> k \<and> k < i + 1 + Suc m then nib (x AND M) (Suc k) else 0) OR
      (if i + 1 \<le> k \<and> k < i + 1 + Suc m then if m \<le> k \<and> k < 16 then nib (x AND M) (k - m) else 0 else 0)"
    by (simp only: nib_or M nib_push_nat nib_drop_nat)
  then show ?thesis
    using assms m unfolding M by (auto simp: nib_minus_1)
qed

lemma nib_remove_to_back:
  assumes "i < W" and "W \<le> 15" and "0 < kp_size x" and "k \<le> W"
  shows "nib (remove_to_back W i x) k =
    (if k = 0 then nib x 0 - 1 else if k \<le> i then nib x k
     else if k = W then nib x (Suc i) else nib x (Suc k))"
proof -
  define y where "y = x AND mask (4 * Suc W)"
  have y: "nib y k = (if k \<le> W then nib x k else 0)" for k
    by (simp add: y_def nib_and_mask del: mult_Suc_right)
  then have "0 < kp_size y" using assms(3) by (simp add: kp_size_nib)
  then show ?thesis
    using assms unfolding remove_to_back_def Let_def kp_masks bit.double_compl y_def [symmetric]
    by (auto simp del: push_bit_and simp: nib_or nib_and_mask nib_and_not_mask nib_push_nat nib_drop_nat nib_minus_1 y
        simp del: mult_Suc_right)
qed

lemma nib_rotate:
  assumes "i \<le> j" and "j \<le> W" and "W \<le> 15" and "k \<le> W"
  shows "nib (kp_rotate W i j x) k =
    (if k \<le> i then nib x k else if k + (j - i) \<le> W then nib x (k + (j - i)) else nib x (k + (j - i) - (W - i)))"
proof (cases "i = W")
  case True
  with assms show ?thesis
    by (simp add: kp_rotate_def Let_def push_16_minus_1 nib_or nib_and_mask nib_0 nib_push_nat del: mult_Suc_right)
next
  case False
  define y where "y = x AND mask (4 * Suc W)"
  have y: "nib y k = (if k \<le> W then nib x k else 0)" for k
    by (simp add: y_def nib_and_mask del: mult_Suc_right)
  from False have "kp_rotate W i j x = (y AND mask (4 * Suc i)) OR (drop_bit ((j - i) * 4) y AND NOT (mask (4 * Suc i)))
      OR push_bit ((W - j) * 4) (y AND NOT (mask (4 * Suc i)))"
    unfolding kp_rotate_def Let_def y_def by (simp only: push_16_minus_1 if_False)
  then show ?thesis
    using assms
    by (auto simp del: push_bit_and simp: y nib_or nib_and_mask nib_and_not_mask nib_push_nat nib_drop_nat simp del: mult_Suc_right)
qed

lemma nib_exchange:
  assumes "i < 15" and "j < 15"
  shows "nib (exchange i j x) k =
    (if k = Suc i then nib x (Suc j) else if k = Suc j then nib x (Suc i) else nib x k)"
proof -
  have 240: "(240 :: u64) = push_bit (1 * 4) (mask (4 * 1))" by (simp add: mask_eq_exp_minus_1 push_bit_eq_mult)
  define diff where "diff = (drop_bit (i * 4) x XOR drop_bit (j * 4) x) AND 240"
  have d: "nib diff k = (if k = 1 then nib x (Suc i) XOR nib x (Suc j) else 0)" for k
    unfolding diff_def 240 nib_and_slice(1) by (auto simp: nib_xor nib_drop_nat)
  have "nib (exchange i j x) k = nib x k XOR
      ((if i \<le> k \<and> k < 16 then nib diff (k - i) else 0) OR (if j \<le> k \<and> k < 16 then nib diff (k - j) else 0))"
    unfolding exchange_def Let_def diff_def [symmetric] nib_xor nib_or nib_push_nat ..
  moreover have "k = Suc i \<Longrightarrow> k < 16" "k = Suc j \<Longrightarrow> k < 16" using assms by simp_all
  ultimately show ?thesis
    by (auto simp: d diff_eq_eq xor.left_commute simp flip: xor.assoc)
qed

lemma nib_set_size: "n < 16 \<Longrightarrow> nib (set_size n x) k = (if k = 0 then word_of_nat n else nib x k)"
  unfolding set_size_def mask_15 nib_or nib_and_not_mask by (auto simp: nib_of_nat)

lemma nib_initial_value:
  assumes "k < 16"
  shows "nib initial_value k = (if k = 0 then 0 else word_of_nat (15 - k))"
proof -
  have "k \<in> {0, 1, 2, 3, 4, 5, 6, 7, 8, 9, 10, 11, 12, 13, 14, 15}"
    using assms unfolding insert_iff empty_iff by presburger
  then show ?thesis by (auto simp: nib_def initial_value_def)
qed

lemma nib_full_value:
  assumes "k < 16"
  shows "nib full_value k = (if k = 0 then 0 else word_of_nat (k - 1))"
proof -
  have "k \<in> {0, 1, 2, 3, 4, 5, 6, 7, 8, 9, 10, 11, 12, 13, 14, 15}"
    using assms unfolding insert_iff empty_iff by presburger
  then show ?thesis by (auto simp: nib_def full_value_def)
qed

lemma nib_make_empty:
  assumes "W \<le> 15" and "k \<le> W"
  shows "nib (make_empty W) k = (if k = 0 then 0 else word_of_nat (W - k))"
proof -
  have "W - k = 15 - (k + (15 - W))" using assms by simp
  then show ?thesis
    using assms unfolding make_empty_def mask_15 nib_and_not_mask nib_drop_nat max_width_def
    by (auto simp: nib_initial_value)
qed

lemma nib_make_empty_out: "W \<le> 15 \<Longrightarrow> W < k \<Longrightarrow> nib (make_empty W) k = 0"
  unfolding make_empty_def mask_15 nib_and_not_mask nib_drop_nat max_width_def by (auto simp: nib_out)

lemma nib_make_sorted:
  assumes "n \<le> W" and "W \<le> 15" and "k \<le> W"
  shows "nib (make_sorted W n) k =
    (if k = 0 then word_of_nat n else if k \<le> n then word_of_nat (k - 1) else word_of_nat (W + n - k))"
proof -
  have n: "nib (word_of_nat n) k = (if k = 0 then word_of_nat n else 0)"
    using assms by (simp add: nib_of_nat)
  have full: "nib (full_value AND ((if n = W then 0 else push_bit (n * 4) 16) - 1)) k =
      (if k \<le> n then nib full_value k else 0)"
  proof (cases "n = W")
    case True
    then show ?thesis using assms(3) by simp
  next
    case False
    then show ?thesis
      by (simp add: push_16_minus_1 nib_and_mask less_Suc_eq_le del: mult_Suc_right)
  qed
  have e: "nib (push_bit (n * 4) (make_empty W)) k = (if n \<le> k then nib (make_empty W) (k - n) else 0)"
    using assms by (simp add: nib_push_nat)
  have "W - (k - n) = W + n - k" if "n \<le> k" using that by simp
  then show ?thesis
    using assms unfolding make_sorted_def Let_def nib_or full n e
    by (auto simp: nib_full_value nib_make_empty)
qed

section \<open>The list of slots\<close>

definition elems :: "nat \<Rightarrow> u64 \<Rightarrow> nat list" where
  "elems W x = map (elt x) [0..<W]"

text \<open>A permuter: its slots are \<open>0, \<dots>, W - 1\<close> in some order, of which the first \<^verbatim>\<open>size()\<close> are in use.\<close>

definition permuter_ok :: "nat \<Rightarrow> u64 \<Rightarrow> bool" where
  "permuter_ok W x \<longleftrightarrow> 8 \<le> W \<and> W \<le> 15 \<and> kp_size x \<le> W \<and> distinct (elems W x) \<and> set (elems W x) = {0..<W}"

lemma length_elems [simp]: "length (elems W x) = W"
  by (simp add: elems_def)

lemma nth_elems [simp]: "i < W \<Longrightarrow> elems W x ! i = unat (nib x (Suc i))"
  by (simp add: elems_def elt_nib)

lemma elems_eqI:
  "(\<And>i. i < W \<Longrightarrow> unat (nib x (Suc i)) = xs ! i) \<Longrightarrow> length xs = W \<Longrightarrow> elems W x = xs"
  by (rule nth_equalityI) simp_all

text \<open>
  List operations: put the last slot in position \<open>i\<close>; move slot \<open>i\<close> to the position before \<open>n\<close>; turn the
  slots from \<open>i\<close> on round until slot \<open>j\<close> comes first; put slot \<open>s\<close> in position \<open>d\<close>.
\<close>

definition ins_back :: "nat \<Rightarrow> 'a list \<Rightarrow> 'a list" where
  "ins_back i es = take i es @ last es # drop i (butlast es)"

definition move_before :: "nat \<Rightarrow> nat \<Rightarrow> 'a list \<Rightarrow> 'a list" where
  "move_before i n es = take i es @ drop (Suc i) (take n es) @ es ! i # drop n es"

definition turn :: "nat \<Rightarrow> nat \<Rightarrow> 'a list \<Rightarrow> 'a list" where
  "turn i j es = take i es @ drop j es @ drop i (take j es)"

definition pick :: "nat \<Rightarrow> nat \<Rightarrow> 'a list \<Rightarrow> 'a list" where
  "pick d s es = take d es @ es ! s # drop d (take s es) @ drop (Suc s) es"


lemma kp_size_insert_from_back:
  "kp_size x < 15 \<Longrightarrow> i < W \<Longrightarrow> W \<le> 15 \<Longrightarrow> kp_size (snd (insert_from_back W i x)) = Suc (kp_size x)"
  by (simp add: kp_size_nib nib_insert_from_back unat_word_ariths)

lemma elems_insert_from_back:
  assumes "kp_size x < 15" and "i < W" and "W \<le> 15"
  shows "elems W (snd (insert_from_back W i x)) = ins_back i (elems W x)"
proof (rule elems_eqI)
  have ne: "elems W x \<noteq> []" using assms(2) by (auto simp: elems_def)
  fix j
  assume j: "j < W"
  consider "j < i" | "j = i" | "i < j" by linarith
  then show "unat (nib (snd (insert_from_back W i x)) (Suc j)) = ins_back i (elems W x) ! j"
    using assms j ne
    by cases (auto simp: ins_back_def nth_append nib_insert_from_back last_conv_nth nth_Cons' nth_butlast)
qed (use assms in \<open>simp add: ins_back_def\<close>)

lemma elems_remove:
  assumes "i < kp_size x" and "kp_size x \<le> W" and "W \<le> 15"
  shows "elems W (kp_remove i x) = move_before i (kp_size x) (elems W x)"
proof (rule elems_eqI)
  fix j
  assume j: "j < W"
  consider "j < i" | "i \<le> j" "j < kp_size x - 1" | "i \<le> j" "j = kp_size x - 1" | "kp_size x \<le> j" by linarith
  then show "unat (nib (kp_remove i x) (Suc j)) = move_before i (kp_size x) (elems W x) ! j"
    using assms j
    by cases (auto simp: move_before_def nth_append nib_remove min_def nth_Cons')
qed (use assms in \<open>simp add: move_before_def\<close>)

lemma elems_remove_to_back:
  assumes "i < W" and "0 < kp_size x" and "W \<le> 15"
  shows "elems W (remove_to_back W i x) = move_before i W (elems W x)"
proof (rule elems_eqI)
  fix j
  assume j: "j < W"
  consider "j < i" | "i \<le> j" "j < W - 1" | "i \<le> j" "j = W - 1" using j by linarith
  then show "unat (nib (remove_to_back W i x) (Suc j)) = move_before i W (elems W x) ! j"
    using assms j
    by cases (auto simp: move_before_def nth_append nib_remove_to_back min_def nth_Cons')
qed (use assms in \<open>simp add: move_before_def\<close>)

lemma elems_rotate:
  assumes "i \<le> j" and "j \<le> W" and "W \<le> 15"
  shows "elems W (kp_rotate W i j x) = turn i j (elems W x)"
proof (rule elems_eqI)
  fix k
  assume k: "k < W"
  have "k + (j - i) + 1 - (W - i) = Suc (k + j - W)" if "W \<le> k + (j - i)" "i \<le> j" using that assms by simp
  with assms k show "unat (nib (kp_rotate W i j x) (Suc k)) = turn i j (elems W x) ! k"
    by (auto simp: turn_def nth_append nib_rotate algebra_simps min_def)
qed (use assms in \<open>simp add: turn_def\<close>)

lemma elems_exchange:
  assumes "i < W" and "j < W" and "W \<le> 15"
  shows "elems W (exchange i j x) = (elems W x)[i := elems W x ! j, j := elems W x ! i]"
  by (rule elems_eqI) (use assms in \<open>auto simp: nth_list_update nib_exchange\<close>)

lemma elems_insert_selected:
  assumes "kp_size x < 15" and "d \<le> s" and "s < W" and "W \<le> 15"
  shows "elems W (insert_selected d s x) = pick d s (elems W x)"
proof (rule elems_eqI)
  fix j
  assume j: "j < W"
  consider "j < d" | "j = d" | "d < j" "j \<le> s" | "s < j" by linarith
  then show "unat (nib (insert_selected d s x) (Suc j)) = pick d s (elems W x) ! j"
    using assms j
    by cases (auto simp: pick_def nth_append nib_insert_selected min_def nth_Cons')
qed (use assms in \<open>simp add: pick_def\<close>)

lemma elems_make_sorted:
  assumes "n \<le> W" and "W \<le> 15"
  shows "elems W (make_sorted W n) = [0..<n] @ rev [n..<W]"
proof (rule elems_eqI)
  fix i
  assume i: "i < W"
  have "unat (word_of_nat v :: u64) = v" if "v \<le> 15" for v using that by (simp add: unat_of_nat)
  with assms i show "unat (nib (make_sorted W n) (Suc i)) = ([0..<n] @ rev [n..<W]) ! i"
    by (auto simp: nib_make_sorted nth_append rev_nth simp del: of_nat_add of_nat_diff of_nat_Suc)
qed (use assms in simp)

section \<open>What the operations do\<close>

lemma mset_ins_back:
  assumes "i < length es"
  shows "mset (ins_back i es) = mset es"
proof (cases es rule: rev_cases)
  case (snoc bs v)
  have "mset (take i bs) + mset (drop i bs) = mset bs" by (simp flip: mset_append)
  with snoc assms show ?thesis by (simp add: ins_back_def)
qed (use assms in simp)

lemma mset_move_before:
  assumes "i < n" and "n \<le> length es"
  shows "mset (move_before i n es) = mset es"
proof -
  have "es = take n es @ drop n es" by simp
  moreover have "take n es = take i es @ es ! i # drop (Suc i) (take n es)"
    using assms id_take_nth_drop [of i "take n es"] by (simp add: min_def)
  ultimately have "mset es = mset (take i es) + mset (es ! i # drop (Suc i) (take n es)) + mset (drop n es)"
    by (metis mset_append)
  then show ?thesis by (simp add: move_before_def)
qed

lemma mset_turn:
  assumes "i \<le> j" and "j \<le> length es"
  shows "mset (turn i j es) = mset es"
proof -
  have "take j es = take i es @ drop i (take j es)"
    using assms by (metis append_take_drop_id min_def take_take)
  then have "mset es = mset (take i es) + mset (drop i (take j es)) + mset (drop j es)"
    by (metis append_take_drop_id mset_append)
  then show ?thesis by (simp add: turn_def)
qed

lemma permuter_ok_mset:
  assumes "permuter_ok W x" and "mset (elems W y) = mset (elems W x)" and "kp_size y \<le> W"
  shows "permuter_ok W y"
  using assms mset_eq_setD [OF assms(2)] mset_eq_imp_distinct_iff [OF assms(2)]
  by (simp add: permuter_ok_def)

lemma permuter_ok_make_sorted:
  assumes "n \<le> W" and "8 \<le> W" and "W \<le> 15"
  shows "permuter_ok W (make_sorted W n)"
proof -
  have "kp_size (make_sorted W n) = n" using assms by (simp add: kp_size_nib nib_make_sorted unat_of_nat)
  with assms show ?thesis unfolding permuter_ok_def elems_make_sorted [OF assms(1,3)] by auto
qed

text \<open>
  \<^verbatim>\<open>insert_from_back(i)\<close> on a permuter with a free slot takes a slot that was not in use, and the
  result is again a permuter, with one slot more in use: the slots in use are the old ones with the
  new one put in at position \<open>i\<close>.
\<close>

theorem insert_from_back_correct:
  assumes "permuter_ok W x" and "kp_size x < W" and "i \<le> kp_size x" and "insert_from_back W i x = (v, y)"
  shows "permuter_ok W y \<and> kp_size y = Suc (kp_size x) \<and>
    v < W \<and> v \<notin> set (take (kp_size x) (elems W x)) \<and>
    take (kp_size y) (elems W y) = take i (elems W x) @ v # drop i (take (kp_size x) (elems W x))"
proof -
  let ?es = "elems W x" and ?n = "kp_size x"
  have W: "8 \<le> W" "W \<le> 15" "distinct ?es" "set ?es = {0..<W}" using assms(1) by (simp_all add: permuter_ok_def)
  have y: "y = snd (insert_from_back W i x)" and v: "v = ?es ! (W - 1)"
    using assms(4) W by (auto simp: insert_from_back_def Let_def kp_back_def elt_nib)
  have sz: "kp_size y = Suc ?n" unfolding y by (rule kp_size_insert_from_back) (use assms W in auto)
  have es: "elems W y = ins_back i ?es" unfolding y by (rule elems_insert_from_back) (use assms W in auto)
  have ok: "permuter_ok W y"
    by (rule permuter_ok_mset [OF assms(1)]) (use es assms sz in \<open>simp_all add: mset_ins_back\<close>)
  have vl: "last ?es = v" using W v by (subst last_conv_nth) (auto simp: elems_def)
  have "v \<notin> set (take ?n ?es)"
    using W(3) assms(2) unfolding v
    by (auto simp: in_set_conv_nth nth_eq_iff_index_eq simp del: nth_elems)
  moreover have "v \<in> set ?es" unfolding v using W by (intro nth_mem) simp
  moreover have "take (Suc ?n) (ins_back i ?es) = take i ?es @ v # drop i (take ?n ?es)"
    using assms(2,3) by (simp add: ins_back_def vl take_Cons' take_drop take_butlast min_def Suc_diff_le)
  ultimately show ?thesis using ok sz es W(4) by auto
qed

theorem insert_from_back_correct_witness:
  "take 3 (elems 15 (snd (insert_from_back 15 1 (make_sorted 15 2)))) = [0, 2, 1]"
proof -
  have sz: "kp_size (make_sorted 15 2) = 2" by (simp add: kp_size_nib nib_make_sorted)
  have es: "elems 15 (make_sorted 15 2) = [0..<2] @ rev [2..<15]" by (rule elems_make_sorted) simp_all
  have ok: "permuter_ok 15 (make_sorted 15 2)" by (rule permuter_ok_make_sorted) simp_all
  obtain v y where vy: "insert_from_back 15 1 (make_sorted 15 2) = (v, y)" by fastforce
  moreover have "v = 2" using vy es
    by (simp add: insert_from_back_def Let_def kp_back_def elt_nib nib_make_sorted)
  ultimately show ?thesis
    using insert_from_back_correct [OF ok _ _ vy] sz unfolding es by (auto simp: numeral_3_eq_3 upt_conv_Cons)
qed

text \<open>
  \<^verbatim>\<open>remove(i)\<close> takes the slot at position \<open>i\<close> out of use, keeps the order of the others, and leaves
  the removed slot right behind them; \<^verbatim>\<open>remove_to_back(i)\<close> puts it at the very end instead, where
  \<^verbatim>\<open>insert_from_back\<close> will take it first.
\<close>

theorem remove_correct:
  assumes "permuter_ok W x" and "i < kp_size x"
  shows "permuter_ok W (kp_remove i x) \<and> Suc (kp_size (kp_remove i x)) = kp_size x \<and>
    elems W (kp_remove i x) = take i (elems W x) @ drop (Suc i) (take (kp_size x) (elems W x)) @
      elems W x ! i # drop (kp_size x) (elems W x) \<and>
    permuter_ok W (remove_to_back W i x) \<and> Suc (kp_size (remove_to_back W i x)) = kp_size x \<and>
    elems W (remove_to_back W i x) = take i (elems W x) @ drop (Suc i) (elems W x) @ [elems W x ! i]"
proof -
  have W: "W \<le> 15" "kp_size x \<le> W" using assms(1) by (simp_all add: permuter_ok_def)
  have "unat (nib x 0 - 1) = unat (nib x 0) - 1"
    using assms(2) by (intro unat_minus_one) (auto simp: kp_size_nib)
  then have sz: "kp_size (kp_remove i x) = kp_size x - 1" "kp_size (remove_to_back W i x) = kp_size x - 1"
    using assms(2) W by (simp_all add: kp_size_nib nib_remove nib_remove_to_back)
  have es: "elems W (kp_remove i x) = move_before i (kp_size x) (elems W x)"
    "elems W (remove_to_back W i x) = move_before i W (elems W x)"
    using assms(2) W by (simp_all add: elems_remove elems_remove_to_back)
  have "permuter_ok W (kp_remove i x)"
    by (rule permuter_ok_mset [OF assms(1)]) (use es sz assms(2) W in \<open>simp_all add: mset_move_before\<close>)
  moreover have "permuter_ok W (remove_to_back W i x)"
    by (rule permuter_ok_mset [OF assms(1)]) (use es sz assms(2) W in \<open>simp_all add: mset_move_before\<close>)
  ultimately show ?thesis using es sz assms(2) by (simp add: move_before_def)
qed

theorem remove_correct_witness:
  "elems 8 (kp_remove 0 (make_sorted 8 3)) = [1, 2, 0, 7, 6, 5, 4, 3] \<and>
   elems 8 (remove_to_back 8 0 (make_sorted 8 3)) = [1, 2, 7, 6, 5, 4, 3, 0]"
proof -
  have sz: "kp_size (make_sorted 8 3) = 3" by (simp add: kp_size_nib nib_make_sorted)
  have "0 < kp_size (make_sorted 8 3)" by (simp add: sz)
  from remove_correct [OF permuter_ok_make_sorted this] show ?thesis
    by (simp add: sz elems_make_sorted upt_conv_Cons)
qed

text \<open>
  Insertion and removal undo each other: a slot put in at position \<open>i\<close> and taken out again
  by \<^verbatim>\<open>remove_to_back(i)\<close> leaves the very same word, for the width 15 of the leaves.
\<close>

theorem insert_remove_roundtrip:
  assumes "permuter_ok 15 x" and "kp_size x < 15" and "i < 15"
  shows "remove_to_back 15 i (snd (insert_from_back 15 i x)) = x"
proof (rule word_eq_nibI)
  let ?y = "snd (insert_from_back 15 i x)"
  have sz: "0 < kp_size ?y" using assms by (simp add: kp_size_insert_from_back)
  fix k :: nat
  assume "k < 16"
  with assms sz show "nib (remove_to_back 15 i ?y) k = nib x k"
    by (auto simp: nib_remove_to_back nib_insert_from_back)
qed

theorem insert_remove_roundtrip_witness:
  "remove_to_back 15 1 (snd (insert_from_back 15 1 (make_sorted 15 4))) = make_sorted 15 4"
  by (rule insert_remove_roundtrip [OF permuter_ok_make_sorted])
    (simp_all add: kp_size_nib nib_make_sorted)

text \<open>
  \<^verbatim>\<open>rotate(i, j)\<close> turns round all slots from position \<open>i\<close> on, free ones included: with the slots
  before \<open>i\<close> unchanged, position \<open>k\<close> gets the slot at \<open>i + (k - i + j - i) mod (width - i)\<close>.  The comment
  in the code has \<^verbatim>\<open>size()\<close> in place of the width, which is not what happens on a permuter with free slots.
\<close>

theorem rotate_turns_all_slots:
  assumes "permuter_ok W x" and "i \<le> j" and "j \<le> kp_size x"
  shows "permuter_ok W (kp_rotate W i j x) \<and> kp_size (kp_rotate W i j x) = kp_size x \<and>
    (\<forall>k < W. elt (kp_rotate W i j x) k =
       (if k < i then elt x k else elt x (i + (k - i + (j - i)) mod (W - i))))"
proof -
  have W: "W \<le> 15" "j \<le> W" using assms by (auto simp: permuter_ok_def)
  have sz: "kp_size (kp_rotate W i j x) = kp_size x"
    using assms W by (simp add: kp_size_nib nib_rotate)
  have "permuter_ok W (kp_rotate W i j x)"
    by (rule permuter_ok_mset [OF assms(1)])
      (use assms W sz in \<open>simp_all add: elems_rotate mset_turn permuter_ok_def\<close>)
  moreover have "elt (kp_rotate W i j x) k = (if k < i then elt x k else elt x (i + (k - i + (j - i)) mod (W - i)))"
    if k: "k < W" for k
  proof (cases "k + (j - i) < W")
    case True
    then have "(k - i + (j - i)) mod (W - i) = k - i + (j - i)" if "i \<le> k" using that by (simp add: mod_less)
    with True k assms(2) W show ?thesis by (auto simp: elt_nib nib_rotate add.assoc)
  next
    case False
    then have "(k - i + (j - i)) mod (W - i) = k - i + (j - i) - (W - i)" if "i \<le> k"
      using that k W assms(2) by (subst le_mod_geq) (auto simp: mod_less)
    moreover have "Suc (j + k) - W = Suc (j + k - W)" using False assms(2) by simp
    ultimately show ?thesis using False k assms(2) W by (auto simp: elt_nib nib_rotate algebra_simps)
  qed
  ultimately show ?thesis using sz by blast
qed

theorem rotate_turns_all_slots_witness:
  "map (elt (kp_rotate 8 0 1 (make_sorted 8 3))) [0..<8] = [1, 2, 7, 6, 5, 4, 3, 0]"
proof -
  have sz: "kp_size (make_sorted 8 3) = 3" by (simp add: kp_size_nib nib_make_sorted)
  have "elt (kp_rotate 8 0 1 (make_sorted 8 3)) k = elt (make_sorted 8 3) (Suc k mod 8)" if "k < 8" for k
    using rotate_turns_all_slots [OF permuter_ok_make_sorted, of 3 8 0 1] that by (simp add: sz)
  then show ?thesis by (simp add: upt_conv_Cons elt_nib nib_make_sorted)
qed

end
