(* ===== verification/Masstree_Nodeversion.thy ===== *)
theory Masstree_Nodeversion
  imports Rolis_Prelude
begin

text \<open>
  \<^verbatim>\<open>nodeversion<nodeversion_parameters<uint32_t> >\<close> (\<^verbatim>\<open>masstree/nodeversion.hh\<close>): the version word of a
  Masstree node.  Writers lock the node, mark what they are about to do and publish a new version
  when they unlock; readers take no lock, they compare the version before and after.  The compare
  and swap loop of \<^verbatim>\<open>lock\<close> is one round (\<open>nv_try_lock\<close>), tried again until it succeeds.  Fences have no
  counterpart: a step of the model is one atomic access to the word.
\<close>

section \<open>The code\<close>

definition nv_lock_bit :: u32 where "nv_lock_bit = 1"
definition inserting_shift :: nat where "inserting_shift = 1"
definition inserting_bit :: u32 where "inserting_bit = 2"
definition splitting_bit :: u32 where "splitting_bit = 4"
definition dirty_mask :: u32 where "dirty_mask = inserting_bit OR splitting_bit"
definition vinsert_lowbit :: u32 where "vinsert_lowbit = 8"
definition vsplit_lowbit :: u32 where "vsplit_lowbit = 512"
definition unused1_bit :: u32 where "unused1_bit = push_bit 28 1"
definition deleted_bit :: u32 where "deleted_bit = push_bit 29 1"
definition root_bit :: u32 where "root_bit = push_bit 30 1"
definition isleaf_bit :: u32 where "isleaf_bit = push_bit 31 1"
definition split_unlock_mask :: u32 where
  "split_unlock_mask = NOT (root_bit OR unused1_bit OR (vsplit_lowbit - 1))"
definition unlock_mask :: u32 where
  "unlock_mask = NOT (unused1_bit OR (vinsert_lowbit - 1))"

definition nodeversion :: "bool \<Rightarrow> u32" where
  "nodeversion leaf = (if leaf then isleaf_bit else 0)"

definition nv_isleaf :: "u32 \<Rightarrow> bool" where "nv_isleaf v \<longleftrightarrow> v AND isleaf_bit \<noteq> 0"
definition nv_locked :: "u32 \<Rightarrow> bool" where "nv_locked v \<longleftrightarrow> v AND nv_lock_bit \<noteq> 0"
definition inserting :: "u32 \<Rightarrow> bool" where "inserting v \<longleftrightarrow> v AND inserting_bit \<noteq> 0"
definition splitting :: "u32 \<Rightarrow> bool" where "splitting v \<longleftrightarrow> v AND splitting_bit \<noteq> 0"
definition deleted :: "u32 \<Rightarrow> bool" where "deleted v \<longleftrightarrow> v AND deleted_bit \<noteq> 0"
definition is_root :: "u32 \<Rightarrow> bool" where "is_root v \<longleftrightarrow> v AND root_bit \<noteq> 0"

text \<open>One round of the loop in \<^verbatim>\<open>stable\<close>: the version, unless a writer has marked it.\<close>

definition nv_stable :: "u32 \<Rightarrow> u32 option" where
  "nv_stable v = (if v AND dirty_mask \<noteq> 0 then None else Some v)"

definition has_changed :: "u32 \<Rightarrow> u32 \<Rightarrow> bool" where
  "has_changed v x \<longleftrightarrow> x XOR v > nv_lock_bit"

definition has_split :: "u32 \<Rightarrow> u32 \<Rightarrow> bool" where
  "has_split v x \<longleftrightarrow> x XOR v \<ge> vsplit_lowbit"

definition nv_try_lock :: "u32 \<Rightarrow> u32 \<Rightarrow> u32 result option" where
  "nv_try_lock expected v =
     (if expected AND nv_lock_bit = 0 \<and> v = expected
      then Some (rbind (rassert (expected AND dirty_mask = 0)) (\<lambda>_. Inr (expected OR nv_lock_bit)))
      else None)"

definition nv_unlock :: "u32 \<Rightarrow> u32 \<Rightarrow> u32 result" where
  "nv_unlock x v =
     rbind (rassert (x = v)) (\<lambda>_. rbind (rassert (x AND nv_lock_bit \<noteq> 0)) (\<lambda>_.
     Inr (if x AND splitting_bit \<noteq> 0 then (x + vsplit_lowbit) AND split_unlock_mask
          else (x + push_bit 2 (x AND inserting_bit)) AND unlock_mask)))"

definition mark_insert :: "u32 \<Rightarrow> u32 result" where
  "mark_insert v = rbind (rassert (nv_locked v)) (\<lambda>_. Inr (v OR inserting_bit))"

definition mark_split :: "u32 \<Rightarrow> u32 result" where
  "mark_split v = rbind (rassert (nv_locked v)) (\<lambda>_. Inr (v OR splitting_bit))"

definition mark_change :: "bool \<Rightarrow> u32 \<Rightarrow> u32 result" where
  "mark_change is_split v =
     rbind (rassert (nv_locked v)) (\<lambda>_. Inr (v OR push_bit inserting_shift (if is_split then 2 else 1)))"

definition mark_deleted :: "u32 \<Rightarrow> u32 result" where
  "mark_deleted v = rbind (rassert (nv_locked v)) (\<lambda>_. Inr (v OR (deleted_bit OR splitting_bit)))"

definition mark_deleted_tree :: "u32 \<Rightarrow> u32 result" where
  "mark_deleted_tree v = rbind (rassert (nv_locked v \<and> is_root v)) (\<lambda>_. Inr (v OR deleted_bit))"

definition mark_root :: "u32 \<Rightarrow> u32" where "mark_root v = v OR root_bit"
definition mark_nonroot :: "u32 \<Rightarrow> u32" where "mark_nonroot v = v AND NOT root_bit"

definition unlocked_version_value :: "u32 \<Rightarrow> u32" where
  "unlocked_version_value v = v AND unlock_mask"

text \<open>
  The life of a version word: every change that writers make to it.  The counter of \<open>nv_run\<close> says how
  often a writer has unlocked a node that it had marked as inserted into or split, and how many of
  these were splits.
\<close>

inductive nv_run :: "u32 \<Rightarrow> nat \<Rightarrow> nat \<Rightarrow> u32 \<Rightarrow> bool" for v0 where
  start: "nv_run v0 0 0 v0"
| lock: "nv_run v0 n s v \<Longrightarrow> nv_try_lock v v = Some (Inr v') \<Longrightarrow> nv_run v0 n s v'"
| mark_insert: "nv_run v0 n s v \<Longrightarrow> mark_insert v = Inr v' \<Longrightarrow> nv_run v0 n s v'"
| mark_split: "nv_run v0 n s v \<Longrightarrow> mark_split v = Inr v' \<Longrightarrow> nv_run v0 n s v'"
| mark_change: "nv_run v0 n s v \<Longrightarrow> mark_change b v = Inr v' \<Longrightarrow> nv_run v0 n s v'"
| mark_deleted: "nv_run v0 n s v \<Longrightarrow> mark_deleted v = Inr v' \<Longrightarrow> nv_run v0 n s v'"
| mark_deleted_tree: "nv_run v0 n s v \<Longrightarrow> mark_deleted_tree v = Inr v' \<Longrightarrow> nv_run v0 n s v'"
| mark_root: "nv_run v0 n s v \<Longrightarrow> nv_run v0 n s (mark_root v)"
| mark_nonroot: "nv_run v0 n s v \<Longrightarrow> nv_run v0 n s (mark_nonroot v)"
| unlock: "nv_run v0 n s v \<Longrightarrow> nv_unlock v v = Inr v' \<Longrightarrow>
    nv_run v0 (if v AND dirty_mask \<noteq> 0 then Suc n else n) (if splitting v then Suc s else s) v'"

section \<open>The bits\<close>

lemmas nv_bits = nv_lock_bit_def inserting_bit_def splitting_bit_def dirty_mask_def vinsert_lowbit_def
  vsplit_lowbit_def unused1_bit_def deleted_bit_def root_bit_def isleaf_bit_def

lemma bit_nv_masks [simp]:
  "bit nv_lock_bit n \<longleftrightarrow> n = 0" "bit inserting_bit n \<longleftrightarrow> n = 1" "bit splitting_bit n \<longleftrightarrow> n = 2"
  "bit unused1_bit n \<longleftrightarrow> n = 28" "bit deleted_bit n \<longleftrightarrow> n = 29" "bit root_bit n \<longleftrightarrow> n = 30"
  "bit isleaf_bit n \<longleftrightarrow> n = 31" "bit dirty_mask n \<longleftrightarrow> n = 1 \<or> n = 2"
proof -
  have p: "bit (push_bit k (1 :: u32)) n \<longleftrightarrow> n = k" if "k < 32" for k
    using that unfolding bit_push_bit_iff by (auto simp: bit_1_iff)
  have e: "nv_lock_bit = push_bit 0 1" "inserting_bit = push_bit 1 1" "splitting_bit = push_bit 2 1"
    by (simp_all add: nv_bits push_bit_eq_mult)
  show "bit nv_lock_bit n \<longleftrightarrow> n = 0" "bit inserting_bit n \<longleftrightarrow> n = 1" "bit splitting_bit n \<longleftrightarrow> n = 2"
    "bit unused1_bit n \<longleftrightarrow> n = 28" "bit deleted_bit n \<longleftrightarrow> n = 29" "bit root_bit n \<longleftrightarrow> n = 30"
    "bit isleaf_bit n \<longleftrightarrow> n = 31"
    unfolding e unused1_bit_def deleted_bit_def root_bit_def isleaf_bit_def by (simp_all only: p)
  then show "bit dirty_mask n \<longleftrightarrow> n = 1 \<or> n = 2"
    unfolding dirty_mask_def bit_or_iff e by (simp_all only: p)
qed

lemma bit_nv_unlock_masks [simp]:
  "bit split_unlock_mask n \<longleftrightarrow> n < 32 \<and> 9 \<le> n \<and> n \<noteq> 28 \<and> n \<noteq> 30"
  "bit unlock_mask n \<longleftrightarrow> n < 32 \<and> 3 \<le> n \<and> n \<noteq> 28"
proof -
  have "vsplit_lowbit - 1 = mask 9" "vinsert_lowbit - 1 = mask 3"
    by (simp_all add: nv_bits mask_eq_exp_minus_1)
  then show "bit split_unlock_mask n \<longleftrightarrow> n < 32 \<and> 9 \<le> n \<and> n \<noteq> 28 \<and> n \<noteq> 30"
    "bit unlock_mask n \<longleftrightarrow> n < 32 \<and> 3 \<le> n \<and> n \<noteq> 28"
    by (auto simp: split_unlock_mask_def unlock_mask_def bit_and_iff bit_not_iff bit_mask_iff possible_bit_def
        dest: bit_imp_le_length)
qed

lemma and_single_bit:
  assumes "\<And>n. bit m n \<longleftrightarrow> n = k"
  shows "(v AND m = (0 :: u32)) \<longleftrightarrow> \<not> bit v k"
proof
  assume "v AND m = 0"
  then have "\<not> bit (v AND m) k" by simp
  then show "\<not> bit v k" by (simp add: bit_and_iff assms)
next
  assume "\<not> bit v k"
  then show "v AND m = 0" by (intro bit_word_eqI) (auto simp: bit_and_iff assms)
qed

lemma nv_tests [simp]:
  "v AND nv_lock_bit = 0 \<longleftrightarrow> \<not> bit v 0" "v AND inserting_bit = 0 \<longleftrightarrow> \<not> bit v 1"
  "v AND splitting_bit = 0 \<longleftrightarrow> \<not> bit v 2" "v AND deleted_bit = 0 \<longleftrightarrow> \<not> bit v 29"
  "v AND root_bit = 0 \<longleftrightarrow> \<not> bit v 30" "v AND isleaf_bit = 0 \<longleftrightarrow> \<not> bit v 31"
  by (rule and_single_bit, simp)+

lemma dirty_test [simp]: "v AND dirty_mask = 0 \<longleftrightarrow> \<not> bit v 1 \<and> \<not> bit v 2"
proof
  assume "v AND dirty_mask = 0"
  then have "\<not> bit (v AND dirty_mask) 1" "\<not> bit (v AND dirty_mask) 2" by simp_all
  then show "\<not> bit v 1 \<and> \<not> bit v 2" by (simp add: bit_and_iff)
next
  assume "\<not> bit v 1 \<and> \<not> bit v 2"
  then show "v AND dirty_mask = 0" by (intro bit_word_eqI) (auto simp: bit_and_iff)
qed

text \<open>The counter of inserts and splits, bits 3 to 27, and the part of it that counts splits.\<close>

definition vcount :: "u32 \<Rightarrow> nat" where
  "vcount v = unat v div 2 ^ 3 mod 2 ^ 25"

lemma vcount_bits: "vcount v = unat (take_bit 25 (drop_bit 3 v))"
  by (simp add: vcount_def take_bit_eq_mod drop_bit_eq_div unat_div unat_mod)

lemma vcount_eqI: "(\<And>n. 3 \<le> n \<Longrightarrow> n < 28 \<Longrightarrow> bit v n = bit w n) \<Longrightarrow> vcount v = vcount w"
  unfolding vcount_bits
  by (rule arg_cong [where f = unat], rule bit_word_eqI)
    (auto simp: bit_take_bit_iff bit_drop_bit_eq)

lemma vcount_frame [simp]:
  "vcount (v OR nv_lock_bit) = vcount v" "vcount (v OR inserting_bit) = vcount v"
  "vcount (v OR splitting_bit) = vcount v" "vcount (v OR (deleted_bit OR splitting_bit)) = vcount v"
  "vcount (v OR deleted_bit) = vcount v" "vcount (v OR root_bit) = vcount v"
  "vcount (v AND NOT root_bit) = vcount v"
  "vcount (w AND unlock_mask) = vcount w"
  by (rule vcount_eqI, auto simp: bit_or_iff bit_and_iff bit_not_iff)+

lemma vcount_add_8: "vcount (v + 8) = (vcount v + 1) mod 2 ^ 25"
proof -
  have "unat (v + 8) = (unat v + 8) mod 2 ^ 32" by (simp add: unat_word_ariths)
  then have "vcount (v + 8) = (unat v + 8) mod 2 ^ 32 div 2 ^ 3 mod 2 ^ 25" by (simp add: vcount_def)
  also have "\<dots> = (unat v + 8) div 2 ^ 3 mod 2 ^ 25" by (simp add: mod_mult2_eq [of _ 8 "2 ^ 29", simplified] mod_mod_cancel)
  also have "(unat v + 8) div 2 ^ 3 = unat v div 2 ^ 3 + 1" by simp
  also have "(unat v div 2 ^ 3 + 1) mod 2 ^ 25 = (vcount v + 1) mod 2 ^ 25" by (simp add: vcount_def mod_simps)
  finally show ?thesis .
qed

lemma vcount_split_unlock: "vcount (w AND split_unlock_mask) = vcount w div 2 ^ 6 * 2 ^ 6"
proof -
  have "take_bit 25 (drop_bit 3 (w AND split_unlock_mask)) = push_bit 6 (drop_bit 6 (take_bit 25 (drop_bit 3 w)))"
  proof (rule bit_word_eqI)
    fix n
    assume n: "n < LENGTH(32)"
    show "bit (take_bit 25 (drop_bit 3 (w AND split_unlock_mask))) n =
        bit (push_bit 6 (drop_bit 6 (take_bit 25 (drop_bit 3 w)))) n"
      unfolding bit_push_bit_iff using n
      by (auto simp: bit_take_bit_iff bit_drop_bit_eq bit_and_iff dest: bit_imp_le_length)
  qed
  moreover have "unat (push_bit 6 (drop_bit 6 x) :: u32) = unat x div 2 ^ 6 * 2 ^ 6" if "unat x < 2 ^ 25" for x :: u32
  proof -
    have "unat x div 2 ^ 6 * 2 ^ 6 < 2 ^ 32" using that by (simp add: div_mult2_eq [symmetric]) 
    then show ?thesis by (simp add: push_bit_eq_mult drop_bit_eq_div unat_word_ariths unat_div)
  qed
  moreover have "unat (take_bit 25 (drop_bit 3 w)) < 2 ^ 25" by (simp add: take_bit_eq_mod unat_mod)
  ultimately show ?thesis by (simp add: vcount_bits)
qed

lemma vcount_add_512: "vcount (v + 512) = (vcount v + 64) mod 2 ^ 25"
proof -
  have "unat (v + 512) = (unat v + 512) mod 2 ^ 32" by (simp add: unat_word_ariths)
  then have "vcount (v + 512) = (unat v + 512) mod 2 ^ 32 div 2 ^ 3 mod 2 ^ 25" by (simp add: vcount_def)
  also have "\<dots> = (unat v + 512) div 2 ^ 3 mod 2 ^ 25" by (simp add: mod_mult2_eq [of _ 8 "2 ^ 29", simplified] mod_mod_cancel)
  also have "(unat v + 512) div 2 ^ 3 = unat v div 2 ^ 3 + 64" by simp
  also have "(unat v div 2 ^ 3 + 64) mod 2 ^ 25 = (vcount v + 64) mod 2 ^ 25" by (simp add: vcount_def mod_simps)
  finally show ?thesis .
qed

lemma bit_le_unat: "bit (x :: u32) n \<Longrightarrow> 2 ^ n \<le> unat x"
proof (rule ccontr)
  assume b: "bit x n" and "\<not> 2 ^ n \<le> unat x"
  then have "unat x div 2 ^ n = 0" by simp
  moreover from b have "bit (unat x) n" by (simp add: bit_unsigned_iff)
  then have "odd (unat x div 2 ^ n)" unfolding bit_iff_odd .
  ultimately show False by simp
qed

lemma has_changed_bit: "bit v n \<noteq> bit x n \<Longrightarrow> 1 \<le> n \<Longrightarrow> has_changed v x"
proof -
  assume "bit v n \<noteq> bit x n" and n: "1 \<le> n"
  then have "bit (x XOR v) n" by (auto simp: bit_xor_iff)
  from bit_le_unat [OF this] have "2 ^ n \<le> unat (x XOR v)" .
  moreover have "(2 :: nat) ^ 1 \<le> 2 ^ n" using n by (intro power_increasing) simp_all
  ultimately show ?thesis by (simp add: has_changed_def nv_lock_bit_def word_less_nat_alt)
qed

lemma has_changed_vcount: "vcount v \<noteq> vcount x \<Longrightarrow> has_changed v x"
  using vcount_eqI [of v x] has_changed_bit [of v _ x] by force

lemma has_split_vcount: "vcount v div 2 ^ 6 \<noteq> vcount x div 2 ^ 6 \<Longrightarrow> has_split v x"
proof (rule ccontr)
  assume ne: "vcount v div 2 ^ 6 \<noteq> vcount x div 2 ^ 6" and "\<not> has_split v x"
  then have small: "unat (x XOR v) < 2 ^ 9" by (simp add: has_split_def vsplit_lowbit_def word_less_nat_alt not_le)
  have "bit v n = bit x n" if "9 \<le> n" for n
  proof (rule ccontr)
    assume "bit v n \<noteq> bit x n"
    then have "bit (x XOR v) n" by (auto simp: bit_xor_iff)
    from bit_le_unat [OF this] have "2 ^ n \<le> unat (x XOR v)" .
    moreover have "(2 :: nat) ^ 9 \<le> 2 ^ n" using that by (intro power_increasing) simp_all
    ultimately show False using small by simp
  qed
  then have "vcount (v AND split_unlock_mask) = vcount (x AND split_unlock_mask)"
    by (intro vcount_eqI) (auto simp: bit_and_iff)
  with ne show False by (simp add: vcount_split_unlock)
qed

section \<open>Readers notice writers\<close>

text \<open>
  \<open>c\<close> is the counter without wrap-around: an insert adds one, a split goes to the next multiple
  of 64.
\<close>

lemma split_mod: "((c mod 2 ^ 25 + 64) mod 2 ^ 25) div 2 ^ 6 * 2 ^ 6 = ((c div 2 ^ 6 + 1) * 2 ^ 6) mod (2 ^ 25 :: nat)"
proof -
  have 25: "(2 :: nat) ^ 25 = 2 ^ 6 * 2 ^ 19" by simp
  have "(c mod 2 ^ 25 + 64) mod 2 ^ 25 = (c + 64) mod (2 ^ 25 :: nat)" by (simp only: mod_simps)
  also have "\<dots> div 2 ^ 6 = (c + 64) div 2 ^ 6 mod 2 ^ 19"
    unfolding 25 mod_mult2_eq by simp
  also have "(c + 64) div 2 ^ 6 = c div 2 ^ 6 + 1" by simp
  finally have "((c mod 2 ^ 25 + 64) mod 2 ^ 25) div 2 ^ 6 = (c div 2 ^ 6 + 1) mod (2 ^ 19 :: nat)" .
  then show ?thesis unfolding 25 mult.commute [of _ "2 ^ 6"] mult_mod_right [symmetric] by simp
qed

lemma nv_unlock_vcount:
  assumes "nv_unlock v v = Inr v'"
  shows "vcount v' = (if bit v 2 then (vcount v + 64) mod 2 ^ 25 div 2 ^ 6 * 2 ^ 6
    else if bit v 1 then (vcount v + 1) mod 2 ^ 25 else vcount v)"
proof -
  have i: "push_bit 2 (v AND inserting_bit) = (if bit v 1 then 8 else 0)"
  proof (cases "bit v 1")
    case True
    then have "v AND inserting_bit = inserting_bit" by (intro bit_word_eqI) (auto simp: bit_and_iff)
    with True show ?thesis by (simp add: inserting_bit_def push_bit_eq_mult)
  next
    case False
    then have "v AND inserting_bit = 0" by simp
    with False show ?thesis by (simp only: push_bit_0_id if_False push_bit_of_0)
  qed
  show ?thesis
    using assms
    by (auto simp: nv_unlock_def rbind_eq_Inr_iff vcount_split_unlock vsplit_lowbit_def i vcount_add_8 vcount_add_512
        simp del: push_bit_and split: if_splits)
qed

lemma mark_change_eq: "mark_change b v = (if b then mark_split v else mark_insert v)"
  by (simp add: mark_change_def mark_split_def mark_insert_def inserting_shift_def push_bit_eq_mult nv_bits)

lemma nv_run_count:
  assumes "nv_run v0 n s v"
  shows "\<exists>c. vcount v = c mod 2 ^ 25 \<and> vcount v0 + n \<le> c \<and> c \<le> vcount v0 + 2 ^ 6 * n \<and>
    vcount v0 div 2 ^ 6 + s \<le> c div 2 ^ 6 \<and> c div 2 ^ 6 \<le> vcount v0 div 2 ^ 6 + n \<and> s \<le> n"
  using assms
proof (induction rule: nv_run.induct)
  case start
  have "vcount v0 = vcount v0 mod 2 ^ 25" by (simp add: vcount_def)
  then show ?case by (intro exI [of _ "vcount v0"]) simp
next
  case (unlock n s v v')
  then obtain c where c: "vcount v = c mod 2 ^ 25" "vcount v0 + n \<le> c" "c \<le> vcount v0 + 2 ^ 6 * n"
    "vcount v0 div 2 ^ 6 + s \<le> c div 2 ^ 6" "c div 2 ^ 6 \<le> vcount v0 div 2 ^ 6 + n" "s \<le> n" by blast
  note v' = nv_unlock_vcount [OF unlock.hyps(2)]
  consider "bit v 2" | "\<not> bit v 2" "bit v 1" | "\<not> bit v 2" "\<not> bit v 1" by blast
  then show ?case
  proof cases
    case 1
    let ?c = "(c div 2 ^ 6 + 1) * 2 ^ 6"
    have "vcount v' = ?c mod 2 ^ 25" using 1 v' unfolding c(1) split_mod by simp
    moreover have "c < ?c" "?c \<le> c + 2 ^ 6" by (simp_all add: mult.commute)
    ultimately show ?thesis using 1 c by (intro exI [of _ ?c]) (simp add: splitting_def)
  next
    case 2
    have "vcount v' = Suc c mod 2 ^ 25" using 2 v' c(1) by (simp add: mod_simps)
    moreover have "vcount v0 div 2 ^ 6 + s \<le> Suc c div 2 ^ 6" by (rule order_trans [OF c(4)]) (simp add: div_le_mono)
    moreover have "Suc c div 2 ^ 6 \<le> Suc (c div 2 ^ 6)" by (simp add: div_Suc)
    ultimately show ?thesis using 2 c by (intro exI [of _ "Suc c"]) (simp add: splitting_def)
  next
    case 3
    with v' c show ?thesis by (intro exI [of _ c]) (simp add: splitting_def)
  qed
qed (auto simp: nv_try_lock_def mark_insert_def mark_split_def mark_change_eq mark_deleted_def mark_deleted_tree_def
    mark_root_def mark_nonroot_def rbind_eq_Inr_iff split: if_splits)

text \<open>
  C28.  An optimistic reader notices every change.  A reader has taken a version with no writer's
  mark in it (\<^verbatim>\<open>stable\<close>), and later finds that the version \<open>v\<close> it sees has not changed
  (\<^verbatim>\<open>has_changed\<close> is false).  If fewer than \<open>2 ^ 19\<close> marked changes were published in between, then
  none was, and none is under way; and as long as \<^verbatim>\<open>has_split\<close> is false, there was no split.
\<close>

theorem reader_notices_writers:
  assumes "nv_stable v0 = Some v0" and "nv_run v0 n s v" and "n < 2 ^ 19"
  shows "(\<not> has_changed v v0 \<longrightarrow> n = 0 \<and> v AND dirty_mask = 0) \<and> (\<not> has_split v v0 \<longrightarrow> s = 0)"
proof -
  from assms(1) have clean: "\<not> bit v0 1" "\<not> bit v0 2" by (auto simp: nv_stable_def split: if_splits)
  obtain c where c: "vcount v = c mod 2 ^ 25" "vcount v0 + n \<le> c" "c \<le> vcount v0 + 2 ^ 6 * n"
    "vcount v0 div 2 ^ 6 + s \<le> c div 2 ^ 6" "c div 2 ^ 6 \<le> vcount v0 div 2 ^ 6 + n" "s \<le> n"
    using nv_run_count [OF assms(2)] by blast
  have v0: "vcount v0 < 2 ^ 25" by (simp add: vcount_def)
  have "has_changed v v0" if "0 < n"
  proof (rule has_changed_vcount)
    have "c mod 2 ^ 25 \<noteq> vcount v0"
    proof (cases "c < 2 ^ 25")
      case False
      with c(3) v0 assms(3) have "c mod 2 ^ 25 = c - 2 ^ 25" by (subst le_mod_geq) simp_all
      with False c(3) assms(3) show ?thesis by simp
    qed (use that c(2) in simp)
    then show "vcount v \<noteq> vcount v0" using c(1) by simp
  qed
  moreover have "has_changed v v0" if "v AND dirty_mask \<noteq> 0"
    using that clean has_changed_bit [of v 1 v0] has_changed_bit [of v 2 v0] by auto
  moreover have "has_split v v0" if s: "0 < s"
  proof (rule has_split_vcount)
    let ?d = "c div 2 ^ 6"
    have "c mod 2 ^ 25 div 2 ^ 6 = ?d mod 2 ^ 19"
      using mod_mult2_eq [of c "2 ^ 6" "2 ^ 19"] by (simp add: mult.commute)
    moreover have d0: "vcount v0 div 2 ^ 6 < 2 ^ 19" using v0 by (simp add: div_less_iff_less_mult)
    have "?d mod 2 ^ 19 \<noteq> vcount v0 div 2 ^ 6"
    proof (cases "?d < 2 ^ 19")
      case False
      with c(5) d0 assms(3) have "?d mod 2 ^ 19 = ?d - 2 ^ 19" by (subst le_mod_geq) simp_all
      with False c(5) assms(3) show ?thesis by linarith
    qed (use s c(4) in simp)
    ultimately show "vcount v div 2 ^ 6 \<noteq> vcount v0 div 2 ^ 6" using c(1) by simp
  qed
  ultimately show ?thesis by blast
qed

theorem reader_notices_writers_witness:
  "has_changed 0x80000008 0x80000000 \<and> nv_run 0x80000000 1 0 0x80000008"
proof -
  have 1: "nv_run 0x80000000 0 0 0x80000001"
    by (rule nv_run.lock [OF nv_run.start]) (simp add: nv_try_lock_def nv_bits)
  have 2: "nv_run 0x80000000 0 0 0x80000003"
    by (rule nv_run.mark_insert [OF 1]) (simp add: mark_insert_def nv_locked_def nv_bits)
  have u: "nv_unlock 0x80000003 0x80000003 = Inr 0x80000008"
    by (simp add: nv_unlock_def unlock_mask_def nv_bits del: nv_tests)
  have 3: "nv_run 0x80000000 1 0 0x80000008"
    using nv_run.unlock [OF 2 u] by (simp add: splitting_def dirty_mask_def nv_bits del: nv_tests dirty_test)
  have "nv_stable 0x80000000 = Some 0x80000000" by (simp add: nv_stable_def nv_bits del: dirty_test)
  from reader_notices_writers [OF this 3] 3 show ?thesis by auto
qed

end
