(* ===== verification/Masstree_Search.thy ===== *)
theory Masstree_Search
  imports Rolis_Prelude
begin

text \<open>
  The searches of \<^verbatim>\<open>masstree/ksearch.hh\<close> in the sorted slots of a node.  \<open>perm\<close> is the list of slots in
  key order (\<^verbatim>\<open>perm[0]\<close>, \dots, \<^verbatim>\<open>perm[size() - 1]\<close>), and \<open>cmp p\<close> the result of \<^verbatim>\<open>comparator(ka, n, p)\<close>: how
  the key that is looked for compares with the key in slot \<open>p\<close>.  A node searches linearly or by
  bisection depending on its size (\<^verbatim>\<open>key_bound\<close>).
\<close>

section \<open>The code\<close>

record key_indexed_position =
  kp_i :: nat
  kp_p :: int

function key_upper_bound_loop :: "(nat \<Rightarrow> int) \<Rightarrow> nat list \<Rightarrow> nat \<Rightarrow> nat \<Rightarrow> nat" where
  "key_upper_bound_loop cmp perm l r =
     (if l < r then
        let m = (l + r) div 2; c = cmp (perm ! m)
        in if c < 0 then key_upper_bound_loop cmp perm l m
           else if c = 0 then m + 1
           else key_upper_bound_loop cmp perm (m + 1) r
      else l)"
  by pat_completeness auto
termination by (relation "measure (\<lambda>(_, _, l, r). r - l)") auto

definition key_upper_bound_by :: "(nat \<Rightarrow> int) \<Rightarrow> nat list \<Rightarrow> nat" where
  "key_upper_bound_by cmp perm = key_upper_bound_loop cmp perm 0 (length perm)"

function key_lower_bound_loop :: "(nat \<Rightarrow> int) \<Rightarrow> nat list \<Rightarrow> nat \<Rightarrow> nat \<Rightarrow> key_indexed_position" where
  "key_lower_bound_loop cmp perm l r =
     (if l < r then
        let m = (l + r) div 2; mp = perm ! m; c = cmp mp
        in if c < 0 then key_lower_bound_loop cmp perm l m
           else if c = 0 then \<lparr>kp_i = m, kp_p = int mp\<rparr>
           else key_lower_bound_loop cmp perm (m + 1) r
      else \<lparr>kp_i = l, kp_p = - 1\<rparr>)"
  by pat_completeness auto
termination by (relation "measure (\<lambda>(_, _, l, r). r - l)") auto

definition key_lower_bound_by :: "(nat \<Rightarrow> int) \<Rightarrow> nat list \<Rightarrow> key_indexed_position" where
  "key_lower_bound_by cmp perm = key_lower_bound_loop cmp perm 0 (length perm)"

function key_find_upper_bound_loop :: "(nat \<Rightarrow> int) \<Rightarrow> nat list \<Rightarrow> nat \<Rightarrow> nat" where
  "key_find_upper_bound_loop cmp perm l =
     (if l < length perm then
        if cmp (perm ! l) < 0 then l else key_find_upper_bound_loop cmp perm (l + 1)
      else l)"
  by pat_completeness auto
termination by (relation "measure (\<lambda>(_, perm, l). length perm - l)") auto

definition key_find_upper_bound_by :: "(nat \<Rightarrow> int) \<Rightarrow> nat list \<Rightarrow> nat" where
  "key_find_upper_bound_by cmp perm = key_find_upper_bound_loop cmp perm 0"

function key_find_lower_bound_loop :: "(nat \<Rightarrow> int) \<Rightarrow> nat list \<Rightarrow> nat \<Rightarrow> key_indexed_position" where
  "key_find_lower_bound_loop cmp perm l =
     (if l < length perm then
        let lp = perm ! l; c = cmp lp
        in if c < 0 then \<lparr>kp_i = l, kp_p = - 1\<rparr>
           else if c = 0 then \<lparr>kp_i = l, kp_p = int lp\<rparr>
           else key_find_lower_bound_loop cmp perm (l + 1)
      else \<lparr>kp_i = l, kp_p = - 1\<rparr>)"
  by pat_completeness auto
termination by (relation "measure (\<lambda>(_, perm, l). length perm - l)") auto

definition key_find_lower_bound_by :: "(nat \<Rightarrow> int) \<Rightarrow> nat list \<Rightarrow> key_indexed_position" where
  "key_find_lower_bound_by cmp perm = key_find_lower_bound_loop cmp perm 0"

declare key_upper_bound_loop.simps [simp del] key_lower_bound_loop.simps [simp del]
  key_find_upper_bound_loop.simps [simp del] key_find_lower_bound_loop.simps [simp del]

text \<open>Which search a node of \<open>max_size\<close> keys uses (\<^verbatim>\<open>key_bound<max_size, bound_method_fast>\<close>).\<close>

definition key_bound_upper :: "nat \<Rightarrow> (nat \<Rightarrow> int) \<Rightarrow> nat list \<Rightarrow> nat" where
  "key_bound_upper max_size = (if max_size > 16 then key_upper_bound_by else key_find_upper_bound_by)"

definition key_bound_lower :: "nat \<Rightarrow> (nat \<Rightarrow> int) \<Rightarrow> nat list \<Rightarrow> key_indexed_position" where
  "key_bound_lower max_size = (if max_size > 16 then key_lower_bound_by else key_find_lower_bound_by)"

section \<open>What the searches find\<close>

text \<open>
  In a sorted node, the key looked for is greater than the keys of a first part of the slots, equal
  to at most one, and smaller than the rest.
\<close>

definition sorted_slots :: "(nat \<Rightarrow> int) \<Rightarrow> nat list \<Rightarrow> bool" where
  "sorted_slots cmp perm \<longleftrightarrow> (\<forall>i j. i < j \<and> j < length perm \<longrightarrow>
     (cmp (perm ! i) \<le> 0 \<longrightarrow> cmp (perm ! j) < 0))"

definition lower_spec :: "(nat \<Rightarrow> int) \<Rightarrow> nat list \<Rightarrow> key_indexed_position \<Rightarrow> bool" where
  "lower_spec cmp perm r \<longleftrightarrow> kp_i r \<le> length perm \<and> (\<forall>j < kp_i r. 0 < cmp (perm ! j)) \<and>
     (if kp_i r < length perm \<and> cmp (perm ! kp_i r) = 0 then kp_p r = int (perm ! kp_i r)
      else kp_p r = - 1 \<and> (kp_i r < length perm \<longrightarrow> cmp (perm ! kp_i r) < 0))"

definition upper_spec :: "(nat \<Rightarrow> int) \<Rightarrow> nat list \<Rightarrow> nat \<Rightarrow> bool" where
  "upper_spec cmp perm u \<longleftrightarrow> u \<le> length perm \<and> (\<forall>j < u. 0 \<le> cmp (perm ! j)) \<and>
     (u < length perm \<longrightarrow> cmp (perm ! u) < 0)"

lemma lower_spec_unique: "lower_spec cmp perm r \<Longrightarrow> lower_spec cmp perm r' \<Longrightarrow> r = r'"
proof -
  assume r: "lower_spec cmp perm r" and r': "lower_spec cmp perm r'"
  have le: "kp_i s \<le> kp_i t" if s: "lower_spec cmp perm s" and t: "lower_spec cmp perm t" for s t
  proof (rule ccontr)
    assume "\<not> kp_i s \<le> kp_i t"
    then have "kp_i t < length perm" "0 < cmp (perm ! kp_i t)"
      using s by (auto simp: lower_spec_def)
    with t show False by (auto simp: lower_spec_def split: if_splits)
  qed
  from le [OF r r'] le [OF r' r] have "kp_i r = kp_i r'" by simp
  moreover have p: "kp_p s = (if kp_i s < length perm \<and> cmp (perm ! kp_i s) = 0 then int (perm ! kp_i s) else - 1)"
    if "lower_spec cmp perm s" for s
    using that unfolding lower_spec_def by (simp only: simp_thms split: if_splits)
  from p [OF r] p [OF r'] have "kp_i r = kp_i r' \<Longrightarrow> kp_p r = kp_p r'" by (simp only:)
  ultimately show ?thesis by simp
qed

lemma upper_spec_unique: "upper_spec cmp perm u \<Longrightarrow> upper_spec cmp perm u' \<Longrightarrow> u = u'"
  by (rule ccontr) (force simp: upper_spec_def neq_iff)

lemma find_lower_ok:
  assumes "l \<le> length perm" and "\<forall>j < l. 0 < cmp (perm ! j)"
  shows "lower_spec cmp perm (key_find_lower_bound_loop cmp perm l)"
  using assms
proof (induction cmp perm l rule: key_find_lower_bound_loop.induct)
  case (1 cmp perm l)
  show ?case
  proof (cases "l < length perm \<and> 0 < cmp (perm ! l)")
    case True
    have "lower_spec cmp perm (key_find_lower_bound_loop cmp perm (l + 1))"
      by (rule "1.IH" [OF _ refl refl]) (use True "1.prems" in \<open>auto simp: less_Suc_eq\<close>)
    with True show ?thesis by (subst key_find_lower_bound_loop.simps) (simp add: Let_def)
  next
    case False
    with "1.prems" show ?thesis
      by (subst key_find_lower_bound_loop.simps) (auto simp: lower_spec_def Let_def)
  qed
qed

lemma find_upper_ok:
  assumes "l \<le> length perm" and "\<forall>j < l. 0 \<le> cmp (perm ! j)"
  shows "upper_spec cmp perm (key_find_upper_bound_loop cmp perm l)"
  using assms
proof (induction cmp perm l rule: key_find_upper_bound_loop.induct)
  case (1 cmp perm l)
  show ?case
  proof (cases "l < length perm \<and> 0 \<le> cmp (perm ! l)")
    case True
    have "upper_spec cmp perm (key_find_upper_bound_loop cmp perm (l + 1))"
      by (rule "1.IH") (use True "1.prems" in \<open>auto simp: less_Suc_eq\<close>)
    with True show ?thesis by (subst key_find_upper_bound_loop.simps) simp
  next
    case False
    with "1.prems" show ?thesis by (subst key_find_upper_bound_loop.simps) (auto simp: upper_spec_def)
  qed
qed

lemma sorted_below: "sorted_slots cmp perm \<Longrightarrow> 0 \<le> cmp (perm ! m) \<Longrightarrow> m < length perm \<Longrightarrow> j < m \<Longrightarrow> 0 < cmp (perm ! j)"
  by (force simp: sorted_slots_def)

lemma sorted_above: "sorted_slots cmp perm \<Longrightarrow> cmp (perm ! m) \<le> 0 \<Longrightarrow> m < j \<Longrightarrow> j < length perm \<Longrightarrow> cmp (perm ! j) < 0"
  by (simp add: sorted_slots_def)

lemma lower_ok:
  assumes "sorted_slots cmp perm" and "l \<le> r" and "r \<le> length perm" and "\<forall>j < l. 0 < cmp (perm ! j)"
    and "\<forall>j. r \<le> j \<and> j < length perm \<longrightarrow> cmp (perm ! j) < 0"
  shows "lower_spec cmp perm (key_lower_bound_loop cmp perm l r)"
  using assms
proof (induction cmp perm l r rule: key_lower_bound_loop.induct)
  case (1 cmp perm l r)
  let ?m = "(l + r) div 2"
  show ?case
  proof (cases "l < r")
    case False
    with 1(3-7) show ?thesis by (subst key_lower_bound_loop.simps) (auto simp: lower_spec_def)
  next
    case True
    then have m: "l \<le> ?m" "?m < r" "?m < length perm" using 1(5) by auto
    consider "cmp (perm ! ?m) < 0" | "cmp (perm ! ?m) = 0" | "0 < cmp (perm ! ?m)" by linarith
    then show ?thesis
    proof cases
      case 1
      have "lower_spec cmp perm (key_lower_bound_loop cmp perm l ?m)"
        by (rule "1.IH"(1) [OF True refl refl refl 1])
          (use "1.prems" m 1 sorted_above [OF "1.prems"(1), of ?m] in \<open>auto simp: le_less\<close>)
      with True 1 show ?thesis by (subst key_lower_bound_loop.simps) (simp add: Let_def)
    next
      case 2
      with True m "1.prems" sorted_below [OF "1.prems"(1), of ?m] show ?thesis
        by (subst key_lower_bound_loop.simps) (auto simp: lower_spec_def Let_def)
    next
      case 3
      have "lower_spec cmp perm (key_lower_bound_loop cmp perm (?m + 1) r)"
        by (rule "1.IH"(2) [OF True refl refl refl])
          (use "1.prems" m 3 sorted_below [OF "1.prems"(1), of ?m] in \<open>auto simp: less_Suc_eq\<close>)
      with True 3 show ?thesis by (subst key_lower_bound_loop.simps) (simp add: Let_def)
    qed
  qed
qed

lemma upper_ok:
  assumes "sorted_slots cmp perm" and "l \<le> r" and "r \<le> length perm" and "\<forall>j < l. 0 \<le> cmp (perm ! j)"
    and "\<forall>j. r \<le> j \<and> j < length perm \<longrightarrow> cmp (perm ! j) < 0"
  shows "upper_spec cmp perm (key_upper_bound_loop cmp perm l r)"
  using assms
proof (induction cmp perm l r rule: key_upper_bound_loop.induct)
  case (1 cmp perm l r)
  let ?m = "(l + r) div 2"
  show ?case
  proof (cases "l < r")
    case False
    with 1(3-7) show ?thesis by (subst key_upper_bound_loop.simps) (auto simp: upper_spec_def)
  next
    case True
    then have m: "l \<le> ?m" "?m < r" "?m < length perm" using 1(5) by auto
    have below: "0 \<le> cmp (perm ! j)" if "0 \<le> cmp (perm ! ?m)" "j \<le> ?m" for j
      using that sorted_below [OF "1.prems"(1) that(1) m(3), of j] by (cases "j = ?m") auto
    consider "cmp (perm ! ?m) < 0" | "cmp (perm ! ?m) = 0" | "0 < cmp (perm ! ?m)" by linarith
    then show ?thesis
    proof cases
      case 1
      have "upper_spec cmp perm (key_upper_bound_loop cmp perm l ?m)"
        by (rule "1.IH"(1) [OF True refl refl 1])
          (use "1.prems" m 1 sorted_above [OF "1.prems"(1), of ?m] in \<open>auto simp: le_less\<close>)
      with True 1 show ?thesis by (subst key_upper_bound_loop.simps) (simp add: Let_def)
    next
      case 2
      with True m below sorted_above [OF "1.prems"(1), of ?m] show ?thesis
        by (subst key_upper_bound_loop.simps) (auto simp: upper_spec_def Let_def less_Suc_eq_le)
    next
      case 3
      have "upper_spec cmp perm (key_upper_bound_loop cmp perm (?m + 1) r)"
        by (rule "1.IH"(2) [OF True refl refl])
          (use "1.prems" m 3 below in \<open>auto simp: less_Suc_eq_le\<close>)
      with True 3 show ?thesis by (subst key_upper_bound_loop.simps) (simp add: Let_def)
    qed
  qed
qed

text \<open>
  C29.  Both searches of a sorted node, linear and by bisection, give the same answer: the lower
  bound is the first slot whose key is not smaller than the one looked for, with the slot itself when
  the keys are equal and \<open>- 1\<close> otherwise; the upper bound is the first slot whose key is greater.
\<close>

theorem searches_agree:
  assumes "sorted_slots cmp perm"
  shows "key_lower_bound_by cmp perm = key_find_lower_bound_by cmp perm \<and>
    key_upper_bound_by cmp perm = key_find_upper_bound_by cmp perm \<and>
    lower_spec cmp perm (key_bound_lower n cmp perm) \<and> upper_spec cmp perm (key_bound_upper n cmp perm)"
proof -
  have l: "lower_spec cmp perm (key_lower_bound_by cmp perm)" "lower_spec cmp perm (key_find_lower_bound_by cmp perm)"
    unfolding key_lower_bound_by_def key_find_lower_bound_by_def
    by (simp_all add: lower_ok [OF assms] find_lower_ok)
  have u: "upper_spec cmp perm (key_upper_bound_by cmp perm)" "upper_spec cmp perm (key_find_upper_bound_by cmp perm)"
    unfolding key_upper_bound_by_def key_find_upper_bound_by_def
    by (simp_all add: upper_ok [OF assms] find_upper_ok)
  from l u show ?thesis
    using lower_spec_unique [OF l] upper_spec_unique [OF u] by (simp add: key_bound_lower_def key_bound_upper_def)
qed

theorem searches_agree_witness:
  "key_lower_bound_by (\<lambda>p. 5 - int p) [2, 4, 5, 9] = \<lparr>kp_i = 2, kp_p = 5\<rparr>"
proof -
  have "sorted_slots (\<lambda>p. 5 - int p) [2, 4, 5, 9]"
    by (auto simp: sorted_slots_def less_Suc_eq numeral_eq_Suc nth_Cons split: nat.splits)
  from searches_agree [OF this] show ?thesis
    by (simp add: key_find_lower_bound_by_def key_find_lower_bound_loop.simps)
qed

end
