(* ===== verification/Masstree_Key.thy ===== *)
theory Masstree_Key
  imports Rolis_Prelude
begin

text \<open>
  Keys of Masstree (\<^verbatim>\<open>masstree/masstree_key.hh\<close>) and the eight-byte slices they are cut into
  (\<^verbatim>\<open>masstree/string_slice.hh\<close>), for the slice type \<^verbatim>\<open>uint64_t\<close>, and the circular integers of
  \<^verbatim>\<open>masstree/circular_int.hh\<close>.

  A string is a list of bytes.  A \<^verbatim>\<open>key\<close> keeps two pointers into the memory of its string: \<^verbatim>\<open>first_\<close>, the
  start, and \<^verbatim>\<open>s_\<close>, where the current layer starts; here these are the buffer \<open>kbuf\<close> and the offset
  \<open>koff\<close>.  A read outside the buffer is an error.
\<close>

section \<open>Slices\<close>

definition slice_size :: nat where "slice_size = 8"

definition net_to_host_order :: "u64 \<Rightarrow> u64" where
  "net_to_host_order x = le_word (rev (le_bytes 8 x))"

definition host_to_net_order :: "u64 \<Rightarrow> u64" where
  "host_to_net_order x = le_word (rev (le_bytes 8 x))"

text \<open>\<^verbatim>\<open>make(s, len)\<close> with the memory \<open>buf\<close> at \<^verbatim>\<open>s = buf + off\<close>; \<^verbatim>\<open>len\<close> may be negative.\<close>

definition slice_make :: "bytes \<Rightarrow> nat \<Rightarrow> int \<Rightarrow> u64 result" where
  "slice_make buf off len =
     (if len \<le> 0 then Inr 0
      else rbind (mem_read buf off (min (nat len) slice_size)) (\<lambda>bs. Inr (le_word bs)))"

definition make_comparable :: "bytes \<Rightarrow> nat \<Rightarrow> int \<Rightarrow> u64 result" where
  "make_comparable buf off len = rbind (slice_make buf off len) (\<lambda>x. Inr (net_to_host_order x))"

text \<open>
  The sloppy form of the little-endian build: one load of eight bytes, of which the last ones are
  the string's, and a shift that drops the others.
\<close>

definition make_sloppy :: "bytes \<Rightarrow> nat \<Rightarrow> int \<Rightarrow> u64 result" where
  "make_sloppy buf off len =
     (if len \<le> 0 then Inr 0
      else if int slice_size \<le> len then rbind (mem_read buf off slice_size) (\<lambda>bs. Inr (le_word bs))
      else let d = slice_size - nat len
        in if off < d then Inl Out_Of_Bounds
           else rbind (mem_read buf (off - d) slice_size) (\<lambda>bs. Inr (drop_bit (8 * d) (le_word bs))))"

definition make_comparable_sloppy :: "bytes \<Rightarrow> nat \<Rightarrow> int \<Rightarrow> u64 result" where
  "make_comparable_sloppy buf off len = rbind (make_sloppy buf off len) (\<lambda>x. Inr (net_to_host_order x))"

text \<open>The two forms of \<^verbatim>\<open>unparse_comparable\<close>: the bytes they copy to \<^verbatim>\<open>buf\<close>.\<close>

primrec trim_zeros :: "nat \<Rightarrow> bytes \<Rightarrow> nat" where
  "trim_zeros 0 bs = 0"
| "trim_zeros (Suc l) bs = (if bs ! l = 0 then trim_zeros l bs else Suc l)"

definition unparse_comparable_trim :: "int \<Rightarrow> u64 \<Rightarrow> bytes" where
  "unparse_comparable_trim buflen v =
     (let u = le_bytes 8 (host_to_net_order v) in take (nat (min (int (trim_zeros slice_size u)) buflen)) u)"

definition unparse_comparable :: "int \<Rightarrow> u64 \<Rightarrow> int \<Rightarrow> bytes" where
  "unparse_comparable buflen v len =
     take (nat (min (min len (int slice_size)) buflen)) (le_bytes 8 (host_to_net_order v))"

definition equals_sloppy :: "bytes \<Rightarrow> nat \<Rightarrow> bytes \<Rightarrow> nat \<Rightarrow> int \<Rightarrow> bool result" where
  "equals_sloppy a ao b bo len =
     (if len \<le> int slice_size then
        rbind (mem_read a ao slice_size) (\<lambda>x. rbind (mem_read b bo slice_size) (\<lambda>y.
          let delta = le_word x XOR le_word y :: u64
          in if len \<le> 0 then Inr True
             else Inr (push_bit (8 * (slice_size - nat len)) delta = 0)))
      else rbind (mem_read a ao (nat len)) (\<lambda>x. rbind (mem_read b bo (nat len)) (\<lambda>y. Inr (x = y))))"

section \<open>Keys\<close>

record key =
  ikey0 :: u64
  klen :: int
  kbuf :: bytes
  koff :: nat

definition ikey_size :: nat where "ikey_size = 8"

definition key_of :: "bytes \<Rightarrow> key result" where
  "key_of s = rbind (make_comparable s 0 (int (length s))) (\<lambda>x.
     Inr \<lparr>ikey0 = x, klen = int (length s), kbuf = s, koff = 0\<rparr>)"

text \<open>\<^verbatim>\<open>ctz(x) / 8\<close> for a nonzero \<open>x\<close>: the number of zero bytes at the low end.\<close>

fun low_zero_bytes :: "bytes \<Rightarrow> nat" where
  "low_zero_bytes [] = 0"
| "low_zero_bytes (b # bs) = (if b = 0 then Suc (low_zero_bytes bs) else 0)"

definition key_of_ikey :: "u64 \<Rightarrow> key" where
  "key_of_ikey x = \<lparr>ikey0 = x, klen = (if x \<noteq> 0 then int ikey_size - int (low_zero_bytes (le_bytes 8 x)) else 0),
     kbuf = [], koff = 0\<rparr>"

definition key_of_ikey_len :: "u64 \<Rightarrow> int \<Rightarrow> key" where
  "key_of_ikey_len x len = \<lparr>ikey0 = x, klen = min len (int ikey_size), kbuf = [], koff = 0\<rparr>"

definition key_empty :: "key \<Rightarrow> bool" where
  "key_empty k \<longleftrightarrow> ikey0 k = 0 \<and> klen k = 0"

definition has_suffix :: "key \<Rightarrow> bool" where
  "has_suffix k \<longleftrightarrow> int ikey_size < klen k"

definition suffix :: "key \<Rightarrow> bytes result" where
  "suffix k = mem_read (kbuf k) (koff k + ikey_size) (nat (klen k - int ikey_size))"

definition shift :: "key \<Rightarrow> key result" where
  "shift k =
     (let off = koff k + ikey_size; len = klen k - int ikey_size
      in rbind (make_comparable_sloppy (kbuf k) off len) (\<lambda>x. Inr (k\<lparr>koff := off, klen := len, ikey0 := x\<rparr>)))"

definition shift_by :: "nat \<Rightarrow> key \<Rightarrow> key result" where
  "shift_by delta k =
     (let off = koff k + delta; len = klen k - int delta
      in rbind (make_comparable_sloppy (kbuf k) off len) (\<lambda>x. Inr (k\<lparr>koff := off, klen := len, ikey0 := x\<rparr>)))"

definition is_shifted :: "key \<Rightarrow> bool" where
  "is_shifted k \<longleftrightarrow> koff k \<noteq> 0"

definition unshift_all :: "key \<Rightarrow> key result" where
  "unshift_all k =
     (if koff k \<noteq> 0 then
        rbind (make_comparable (kbuf k) 0 (klen k + int (koff k))) (\<lambda>x.
          Inr (k\<lparr>klen := klen k + int (koff k), koff := 0, ikey0 := x\<rparr>))
      else Inr k)"

definition cmp_ikey :: "u64 \<Rightarrow> u64 \<Rightarrow> int" where
  "cmp_ikey a b = (if a < b then - 1 else if a = b then 0 else 1)"

definition key_compare :: "key \<Rightarrow> u64 \<Rightarrow> int \<Rightarrow> int" where
  "key_compare k ikey keylenx =
     (let c = cmp_ikey (ikey0 k) ikey
      in if c = 0 then
           if int ikey_size < klen k then (if keylenx \<le> int ikey_size then 1 else 0)
           else klen k - keylenx
         else c)"

definition key_unparse :: "int \<Rightarrow> key \<Rightarrow> bytes result" where
  "key_unparse datalen k =
     (let cplen = min (klen k) datalen; hd = unparse_comparable cplen (ikey0 k) (int ikey_size)
      in if int ikey_size < cplen
         then rbind (mem_read (kbuf k) (koff k + ikey_size) (nat (cplen - int ikey_size))) (\<lambda>t. Inr (hd @ t))
         else Inr hd)"

definition prefix_string :: "key \<Rightarrow> bytes" where
  "prefix_string k = take (koff k) (kbuf k)"

definition full_string :: "key \<Rightarrow> bytes" where
  "full_string k = take (nat (int (koff k) + klen k)) (kbuf k)"

definition key_increment :: "key \<Rightarrow> bool \<times> key" where
  "key_increment k =
     (if has_suffix k then (ikey0 k + 1 = 0, k\<lparr>ikey0 := ikey0 k + 1, klen := 1\<rparr>)
      else (False, k\<lparr>klen := klen k + 1\<rparr>))"

definition assign_store_ikey :: "u64 \<Rightarrow> key \<Rightarrow> key result" where
  "assign_store_ikey ikey k = rbind (mem_write (kbuf k) (koff k) (le_bytes 8 (host_to_net_order ikey))) (\<lambda>b.
     Inr (k\<lparr>ikey0 := ikey, kbuf := b\<rparr>))"

definition assign_store_suffix :: "bytes \<Rightarrow> key \<Rightarrow> (nat \<times> key) result" where
  "assign_store_suffix s k = rbind (mem_write (kbuf k) (koff k + ikey_size) s) (\<lambda>b.
     Inr (ikey_size + length s, k\<lparr>kbuf := b\<rparr>))"

definition assign_store_length :: "int \<Rightarrow> key \<Rightarrow> key" where
  "assign_store_length len k = k\<lparr>klen := len\<rparr>"

definition unshift :: "key \<Rightarrow> key result" where
  "unshift k = rbind (rassert (is_shifted k)) (\<lambda>_.
     rbind (make_comparable_sloppy (kbuf k) (koff k - ikey_size) (int ikey_size)) (\<lambda>x.
     Inr (k\<lparr>koff := koff k - ikey_size, ikey0 := x, klen := int ikey_size + 1\<rparr>)))"

definition shift_clear :: "key \<Rightarrow> key" where
  "shift_clear k = k\<lparr>ikey0 := 0, klen := 0, koff := koff k + ikey_size\<rparr>"

definition shift_clear_reverse :: "key \<Rightarrow> key" where
  "shift_clear_reverse k = k\<lparr>ikey0 := NOT 0, klen := int ikey_size + 1, koff := koff k + ikey_size\<rparr>"

section \<open>Big-endian numbers\<close>

text \<open>
  The reference for a comparable slice: the first eight bytes, filled up with zeros, read as a
  number whose first digit is the most significant.
\<close>

definition pad8 :: "bytes \<Rightarrow> bytes" where
  "pad8 s = take 8 s @ replicate (8 - length s) 0"

primrec be_nat :: "bytes \<Rightarrow> nat" where
  "be_nat [] = 0"
| "be_nat (b # bs) = unat b * 256 ^ length bs + be_nat bs"

fun lex_less :: "bytes \<Rightarrow> bytes \<Rightarrow> bool" where
  "lex_less _ [] = False"
| "lex_less [] (_ # _) = True"
| "lex_less (a # as) (b # bs) = (a < b \<or> a = b \<and> lex_less as bs)"

lemma length_pad8 [simp]: "length (pad8 s) = 8"
  by (simp add: pad8_def)

lemma be_nat_bound: "be_nat bs < 256 ^ length bs"
proof (induction bs)
  case (Cons b bs)
  have "unat b < 2 ^ LENGTH(8)" by (rule unsigned_less)
  then have "Suc (unat b) \<le> 256" by simp
  then have "Suc (unat b) * 256 ^ length bs \<le> 256 * 256 ^ length bs" by (rule mult_le_mono1)
  moreover have "be_nat (b # bs) < Suc (unat b) * 256 ^ length bs" using Cons by simp
  ultimately show ?case by (simp only: length_Cons power_Suc)
qed simp

lemma be_nat_less_iff:
  "length xs = length ys \<Longrightarrow> be_nat xs < be_nat ys \<longleftrightarrow> lex_less xs ys"
proof (induction xs arbitrary: ys)
  case (Cons x xs)
  then obtain y zs where ys: "ys = y # zs" "length xs = length zs" by (cases ys) auto
  let ?B = "256 ^ length zs :: nat"
  have b: "be_nat xs < ?B" "be_nat zs < ?B" using be_nat_bound [of xs] be_nat_bound [of zs] ys(2) by simp_all
  have lt: "u * ?B + be_nat vs < w * ?B + be_nat us" if "u < w" "be_nat vs < ?B" for u w vs us
  proof -
    from that(1) have "Suc u * ?B \<le> w * ?B" by (intro mult_le_mono1) simp
    with that(2) show ?thesis by simp
  qed
  from lt [of "unat x" "unat y" xs zs] lt [of "unat y" "unat x" zs xs] b Cons.IH [OF ys(2)] show ?case
    by (cases x y rule: linorder_cases) (auto simp: ys word_less_nat_alt)
qed simp

lemma be_nat_inj: "length xs = length ys \<Longrightarrow> be_nat xs = be_nat ys \<Longrightarrow> xs = ys"
proof (rule ccontr)
  assume l: "length xs = length ys" and e: "be_nat xs = be_nat ys" and "xs \<noteq> ys"
  then have "lex_less xs ys \<or> lex_less ys xs" by (induction xs ys rule: list_induct2) auto
  with l e be_nat_less_iff [of xs ys] be_nat_less_iff [of ys xs] show False by simp
qed

lemma be_nat_snoc: "be_nat (bs @ [b]) = be_nat bs * 256 + unat b"
  by (induction bs) (simp_all add: algebra_simps)

lemma bit_le_word: "bit (le_word bs :: u64) n \<Longrightarrow> n < 8 * length bs"
proof (induction bs arbitrary: n)
  case (Cons b bs)
  then consider "bit (ucast b :: u64) n" | "bit (push_bit 8 (le_word bs) :: u64) n" by (auto simp: bit_or_iff)
  then show ?case
  proof cases
    case 1
    then show ?thesis by (auto simp: bit_ucast_iff dest: bit_imp_le_length)
  next
    case 2
    then have "8 \<le> n" "bit (le_word bs :: u64) (n - 8)" unfolding bit_push_bit_iff by auto
    from Cons.IH [OF this(2)] \<open>8 \<le> n\<close> show ?thesis by simp
  qed
qed simp

lemma le_word_split:
  assumes "length bs \<le> 7"
  shows "ucast (le_word (b # bs) :: u64) = b" "drop_bit 8 (le_word (b # bs) :: u64) = le_word bs"
proof -
  show "ucast (le_word (b # bs) :: u64) = b"
    by (rule bit_word_eqI) (auto simp: bit_ucast_iff bit_or_iff bit_push_bit_iff)
  show "drop_bit 8 (le_word (b # bs) :: u64) = le_word bs"
  proof (rule bit_word_eqI)
    fix n
    assume "n < LENGTH(64)"
    have "\<not> bit (ucast b :: u64) (n + 8)" by (auto simp: bit_ucast_iff dest: bit_imp_le_length)
    moreover have "bit (push_bit 8 (le_word bs) :: u64) (n + 8) = bit (le_word bs :: u64) n"
      unfolding bit_push_bit_iff using assms by (auto dest: bit_le_word)
    ultimately show "bit (drop_bit 8 (le_word (b # bs) :: u64)) n = bit (le_word bs :: u64) n"
      by (simp add: bit_drop_bit_eq bit_or_iff add.commute)
  qed
qed

lemma le_bytes_le_word: "length bs \<le> n \<Longrightarrow> n \<le> 8 \<Longrightarrow> le_bytes n (le_word bs :: u64) = bs @ replicate (n - length bs) 0"
proof (induction n arbitrary: bs)
  case (Suc n)
  show ?case
  proof (cases bs)
    case Nil
    have "le_bytes m (0 :: u64) = replicate m 0" for m by (induction m) simp_all
    with Nil show ?thesis by simp
  next
    case (Cons b cs)
    then have "length cs \<le> 7" using Suc.prems by simp
    from le_word_split [OF this, of b] Suc.IH [of cs] Suc.prems Cons show ?thesis
      by (simp del: le_word.simps)
  qed
qed simp

lemma unat_le_word: "length bs \<le> 8 \<Longrightarrow> unat (le_word bs :: u64) = be_nat (rev bs)"
proof (induction bs)
  case (Cons b bs)
  then have l: "length bs \<le> 7" by simp
  let ?w = "le_word (b # bs) :: u64"
  have "unat ?w div 256 = be_nat (rev bs)"
    using arg_cong [OF le_word_split(2) [OF l, of b], of unat] Cons
    by (simp add: drop_bit_eq_div unat_div del: le_word.simps)
  moreover have "unat ?w mod 256 = unat b"
  proof -
    have "unat b = unat (ucast ?w :: u8)" by (simp only: le_word_split(1) [OF l])
    also have "\<dots> = take_bit 8 (unat ?w)" by (simp add: unsigned_ucast_eq del: le_word.simps)
    finally show ?thesis by (simp add: take_bit_eq_mod)
  qed
  ultimately show ?case using div_mult_mod_eq [of "unat ?w" 256] by (simp add: be_nat_snoc del: le_word.simps)
qed simp

lemma net_to_host_le_word: "length bs \<le> 8 \<Longrightarrow> unat (net_to_host_order (le_word bs)) = be_nat (pad8 bs)"
  by (simp add: net_to_host_order_def le_bytes_le_word unat_le_word pad8_def)

lemma make_comparable_string:
  assumes "off + len \<le> length buf"
  shows "\<exists>x. make_comparable buf off (int len) = Inr x \<and> unat x = be_nat (pad8 (take len (drop off buf)))"
proof (cases "len = 0")
  case True
  then show ?thesis by (simp add: make_comparable_def slice_make_def net_to_host_le_word [of "[]", simplified])
next
  case False
  let ?bs = "take (min len 8) (drop off buf)"
  have "pad8 (take len (drop off buf)) = pad8 ?bs" using assms by (auto simp: pad8_def min_def)
  with False assms net_to_host_le_word [of ?bs] show ?thesis
    by (auto simp: make_comparable_def slice_make_def slice_size_def mem_read_def)
qed

text \<open>The load that reaches in front of the string gives the same slice.\<close>

lemma drop_bit_le_word: "length (xs @ ys) \<le> 8 \<Longrightarrow> drop_bit (8 * length xs) (le_word (xs @ ys) :: u64) = le_word ys"
proof (induction xs)
  case (Cons x xs)
  have "drop_bit (8 * length (x # xs)) (le_word (x # xs @ ys)) = drop_bit (8 * length xs) (drop_bit 8 (le_word (x # xs @ ys) :: u64))"
    by (simp only: drop_bit_drop_bit length_Cons mult_Suc_right add.commute)
  also have "\<dots> = le_word ys" using Cons le_word_split(2) [of "xs @ ys" x] by (simp del: le_word.simps)
  finally show ?case by simp
qed simp

lemma make_sloppy_eq:
  assumes "slice_size \<le> off" and "off + len \<le> length buf"
  shows "make_sloppy buf off (int len) = slice_make buf off (int len)"
proof (cases "len = 0 \<or> slice_size \<le> len")
  case True
  with assms show ?thesis by (auto simp: make_sloppy_def slice_make_def min_def)
next
  case False
  let ?d = "8 - len"
  let ?xs = "take ?d (drop (off - ?d) buf)" and ?ys = "take len (drop off buf)"
  have le: "?d \<le> off" "off - ?d + 8 \<le> length buf" using False assms by (auto simp: slice_size_def)
  have "8 = ?d + len" using False by (simp add: slice_size_def)
  then have "take 8 (drop (off - ?d) buf) = ?xs @ ?ys"
    using le(1) take_add [of ?d len "drop (off - ?d) buf"] by simp
  moreover have "length ?xs = ?d" using le by simp
  moreover have "drop_bit (8 * length ?xs) (le_word (?xs @ ?ys) :: u64) = le_word ?ys"
    by (rule drop_bit_le_word) (use le False in \<open>simp add: slice_size_def\<close>)
  ultimately show ?thesis using False le assms
    by (auto simp: make_sloppy_def slice_make_def slice_size_def mem_read_def Let_def nat_le_iff)
qed

section \<open>Order\<close>

lemma lex_less_irrefl [simp]: "\<not> lex_less s s"
  by (induction s) simp_all

lemma lex_less_zeros: "\<not> lex_less s (replicate (length s) 0)"
  by (induction s) simp_all

lemma lex_less_pad:
  "lex_less (take n s @ replicate (n - length s) 0) (take n t @ replicate (n - length t) 0) \<Longrightarrow> lex_less s t"
proof (induction n arbitrary: s t)
  case (Suc n)
  show ?case
  proof (cases t)
    case Nil
    let ?p = "take (Suc n) s @ replicate (Suc n - length s) 0"
    have "length ?p = Suc n" by (simp add: min_def)
    with Nil Suc.prems lex_less_zeros [of ?p] show ?thesis by simp
  next
    case (Cons b t')
    with Suc show ?thesis by (cases s) auto
  qed
qed simp

lemma lex_less_prefix: "u \<noteq> [] \<Longrightarrow> lex_less t (t @ u)"
  by (induction t) (auto simp: neq_Nil_conv)

lemma take_pad8: "n \<le> length s \<Longrightarrow> n \<le> 8 \<Longrightarrow> take n (pad8 s) = take n s"
  by (simp add: pad8_def min_def)

lemma slice_order:
  assumes "make_comparable s 0 (int (length s)) = Inr x" and "make_comparable t 0 (int (length t)) = Inr y"
  shows "x < y \<Longrightarrow> lex_less s t" and "x = y \<longleftrightarrow> pad8 s = pad8 t"
proof -
  have x: "unat x = be_nat (pad8 s)" and y: "unat y = be_nat (pad8 t)"
    using make_comparable_string [of 0 "length s" s] make_comparable_string [of 0 "length t" t] assms by auto
  show "lex_less s t" if "x < y"
    using that be_nat_less_iff [of "pad8 s" "pad8 t"] lex_less_pad [of 8 s t] x y
    by (simp add: pad8_def [symmetric] word_less_nat_alt)
  show "x = y \<longleftrightarrow> pad8 s = pad8 t"
    using be_nat_inj [of "pad8 s" "pad8 t"] x y by (auto simp: word_unat_eq_iff)
qed

text \<open>
  Slices compare as the strings they are cut from: if the slice of \<open>s\<close> is the smaller number,
  then \<open>s\<close> comes first in the lexicographic order of strings, and equal slices have the same first
  eight bytes up to zeros at the end.
\<close>

theorem make_comparable_order:
  assumes "make_comparable s 0 (int (length s)) = Inr x" and "make_comparable t 0 (int (length t)) = Inr y"
  shows "(x < y \<longrightarrow> lex_less s t) \<and> (y < x \<longrightarrow> lex_less t s) \<and> (x = y \<longleftrightarrow> pad8 s = pad8 t)"
  using slice_order [OF assms] slice_order(1) [OF assms(2,1)] by blast

theorem make_comparable_order_witness:
  "\<exists>x y. make_comparable [0x61, 0x62] 0 2 = Inr x \<and> make_comparable [0x61, 0x63] 0 2 = Inr y \<and> x < y"
proof -
  obtain x y where x: "make_comparable [0x61, 0x62] 0 (int (length [0x61, 0x62 :: u8])) = Inr x"
    and y: "make_comparable [0x61, 0x63] 0 (int (length [0x61, 0x63 :: u8])) = Inr y"
    using make_comparable_string [of 0 2 "[0x61, 0x62]"] make_comparable_string [of 0 2 "[0x61, 0x63]"] by auto
  from make_comparable_order [OF x y] have "x < y" by (cases x y rule: linorder_cases) (simp_all add: pad8_def)
  with x y show ?thesis by simp
qed

lemma key_of_defined: "\<exists>k. key_of s = Inr k"
  using make_comparable_string [of 0 "length s" s] by (auto simp: key_of_def)

lemma key_of_fields:
  assumes "key_of s = Inr k"
  shows "klen k = int (length s)" "kbuf k = s" "koff k = 0" "make_comparable s 0 (int (length s)) = Inr (ikey0 k)"
  using assms by (auto simp: key_of_def rbind_eq_Inr_iff)

lemma pad8_eq_prefix:
  assumes "pad8 s = pad8 t" and "length s \<le> length t" and "length s \<le> 8"
  shows "take (length s) t = s"
  using take_pad8 [of "length s" s] take_pad8 [of "length s" t] assms by simp

text \<open>
  Keys compare as strings.  Comparing a key with the slice and length stored for another one
  gives the order of the two strings; the result is zero only for equal strings of at most eight
  bytes, or for two longer strings that agree in their first eight bytes and differ, if at all, in a
  deeper layer.
\<close>

theorem key_compare_correct:
  assumes "key_of s = Inr k" and "key_of t = Inr k'"
  shows "(key_compare k (ikey0 k') (klen k') < 0 \<longrightarrow> lex_less s t) \<and>
    (0 < key_compare k (ikey0 k') (klen k') \<longrightarrow> lex_less t s) \<and>
    (key_compare k (ikey0 k') (klen k') = 0 \<longleftrightarrow>
       s = t \<and> length s \<le> 8 \<or> 8 < length s \<and> 8 < length t \<and> take 8 s = take 8 t)"
proof -
  note k = key_of_fields(1,4) [OF assms(1)] and k' = key_of_fields(1,4) [OF assms(2)]
  note ord = slice_order [OF k(2) k'(2)] slice_order(1) [OF k'(2) k(2)]
  have pad: "8 < length u \<Longrightarrow> pad8 u = take 8 u" for u by (simp add: pad8_def)
  show ?thesis
  proof (cases "pad8 s = pad8 t")
    case False
    then have "ikey0 k \<noteq> ikey0 k'" using ord by simp
    moreover from False pad have "\<not> (s = t \<and> length s \<le> 8 \<or> 8 < length s \<and> 8 < length t \<and> take 8 s = take 8 t)"
      by auto
    ultimately show ?thesis using ord
      by (auto simp: key_compare_def cmp_ikey_def Let_def)
  next
    case True
    then have "ikey0 k = ikey0 k'" using ord by simp
    then have c: "key_compare k (ikey0 k') (klen k') =
        (if 8 < length s then if length t \<le> 8 then 1 else 0 else int (length s) - int (length t))"
      by (simp add: key_compare_def cmp_ikey_def Let_def k k' ikey_size_def)
    have shorter: "lex_less u v" if "pad8 u = pad8 v" "length u < length v" "length u \<le> 8" for u v
    proof -
      have "v = u @ drop (length u) v" using pad8_eq_prefix [of u v] that by (metis append_take_drop_id less_imp_le)
      moreover have "drop (length u) v \<noteq> []" using that(2) by simp
      ultimately show ?thesis using lex_less_prefix by metis
    qed
    have same: "s = t" if "length s = length t" "length s \<le> 8"
      using pad8_eq_prefix [OF True] that by simp
    show ?thesis
      using True shorter [of s t] shorter [of t s] same pad [of s] pad [of t] unfolding c by auto
  qed
qed

theorem key_compare_correct_witness:
  "\<exists>k k'. key_of [0x61] = Inr k \<and> key_of [0x61, 0] = Inr k' \<and> key_compare k (ikey0 k') (klen k') < 0"
proof -
  obtain k k' where k: "key_of [0x61] = Inr k" and k': "key_of [0x61, 0] = Inr k'"
    using key_of_defined by blast
  from key_compare_correct [OF k k'] key_compare_correct [OF k' k]
  have "\<not> 0 < key_compare k (ikey0 k') (klen k')" "key_compare k (ikey0 k') (klen k') \<noteq> 0" by auto
  with k k' show ?thesis by (auto simp: not_less)
qed

section \<open>Round trips\<close>

lemma nat_min_int: "nat (min (int n) 8) = min n 8"
  by simp

lemma le_bytes_net_order: "length bs \<le> 8 \<Longrightarrow> le_bytes 8 (host_to_net_order (net_to_host_order (le_word bs))) = pad8 bs"
  by (simp add: host_to_net_order_def net_to_host_order_def le_bytes_le_word pad8_def)

lemma net_order_of_slice:
  assumes "make_comparable buf off (int len) = Inr x" and "off + len \<le> length buf"
  shows "le_bytes 8 (host_to_net_order x) = pad8 (take len (drop off buf))"
proof (cases "len = 0")
  case True
  then show ?thesis using assms le_bytes_net_order [of "[]"]
    by (auto simp: make_comparable_def slice_make_def)
next
  case False
  let ?bs = "take (min len 8) (drop off buf)"
  have "pad8 (take len (drop off buf)) = pad8 ?bs" using assms by (auto simp: pad8_def min_def)
  moreover have "x = net_to_host_order (le_word ?bs)"
    using False assms by (auto simp: make_comparable_def slice_make_def slice_size_def mem_read_def split: if_splits)
  ultimately show ?thesis using le_bytes_net_order [of ?bs] by simp
qed

text \<open>
  \<^verbatim>\<open>unparse\<close> gives back the string a key was made of, cut off after the room there is for it.
\<close>

theorem key_unparse_key_of:
  assumes "key_of s = Inr k" and "0 \<le> datalen"
  shows "key_unparse datalen k = Inr (take (nat datalen) s)"
proof -
  note k = key_of_fields [OF assms(1)]
  have u: "le_bytes 8 (host_to_net_order (ikey0 k)) = pad8 s" using net_order_of_slice [OF k(4)] by simp
  define n where "n = min (length s) (nat datalen)"
  have n: "min (klen k) datalen = int n" "take (nat datalen) s = take n s" "n \<le> length s"
    using assms(2) by (auto simp: n_def k min_def)
  have "take (min 8 n) (pad8 s) = take (min 8 n) s" using n(3) by (intro take_pad8) simp_all
  then have hd: "unparse_comparable (int n) (ikey0 k) (int ikey_size) = take (min 8 n) s"
    by (simp add: unparse_comparable_def u slice_size_def ikey_size_def min.commute nat_min_int)
  show ?thesis
  proof (cases "8 < n")
    case True
    then have "take n s = take 8 s @ take (n - 8) (drop 8 s)" by (simp flip: take_add)
    moreover have "mem_read (kbuf k) (koff k + ikey_size) (nat (int n - int ikey_size)) = Inr (take (n - 8) (drop 8 s))"
      using True n(3) by (simp add: mem_read_def k ikey_size_def nat_diff_distrib)
    ultimately show ?thesis using True unfolding key_unparse_def n Let_def hd by (simp add: ikey_size_def)
  next
    case False
    then show ?thesis unfolding key_unparse_def n Let_def hd by (simp add: ikey_size_def min_def)
  qed
qed

theorem key_unparse_key_of_witness:
  "\<exists>k. key_of [1, 2, 3, 4, 5, 6, 7, 8, 9, 10] = Inr k \<and> key_unparse 9 k = Inr [1, 2, 3, 4, 5, 6, 7, 8, 9]"
proof -
  obtain k where k: "key_of [1, 2, 3, 4, 5, 6, 7, 8, 9, 10] = Inr k" using key_of_defined by blast
  from key_unparse_key_of [OF k, of 9] k show ?thesis by simp
qed

text \<open>
  A key that descended \<open>n\<close> layers of the tree: it stands for the rest of the string, but keeps the
  whole of it.
\<close>

definition key_in_layer :: "bytes \<Rightarrow> nat \<Rightarrow> key \<Rightarrow> bool" where
  "key_in_layer s n k \<longleftrightarrow> kbuf k = s \<and> koff k = 8 * n \<and> klen k = int (length s) - int (8 * n) \<and>
     make_comparable s (8 * n) (int (length s) - int (8 * n)) = Inr (ikey0 k)"

lemma shift_layer:
  assumes "key_in_layer s n k" and "8 * Suc n \<le> length s"
  shows "\<exists>k'. shift k = Inr k' \<and> key_in_layer s (Suc n) k'"
proof -
  define off len where "off = 8 * n + 8" and "len = length s - off"
  have o: "8 * Suc n = off" "off + len = length s" using assms(2) by (simp_all add: off_def len_def)
  then have i: "int (length s) - int (8 * Suc n) = int len" "int (length s) - int (8 * n) - int ikey_size = int len"
    by (simp_all add: off_def ikey_size_def)
  have "make_comparable_sloppy s off (int len) = make_comparable s off (int len)"
    using o make_sloppy_eq [of off len s]
    by (simp add: make_comparable_sloppy_def make_comparable_def slice_size_def)
  moreover obtain x where "make_comparable s off (int len) = Inr x"
    using make_comparable_string [of off len s] o by auto
  moreover have "koff k + ikey_size = off" "kbuf k = s" "klen k - int ikey_size = int len"
    using assms(1) i(2) by (simp_all add: key_in_layer_def off_def ikey_size_def)
  ultimately have "shift k = Inr (k\<lparr>koff := off, klen := int len, ikey0 := x\<rparr>)"
    "make_comparable s off (int len) = Inr x" "kbuf k = s"
    by (simp_all add: shift_def Let_def)
  then show ?thesis unfolding key_in_layer_def i(1) unfolding o(1) by simp
qed

lemma shift_layers:
  assumes "key_of s = Inr k" and "8 * n \<le> length s"
  shows "\<exists>k'. for_each (\<lambda>_. shift) [0..<n] k = Inr k' \<and> key_in_layer s n k'"
proof (rule for_each_upt_progress)
  show "key_in_layer s 0 k" using key_of_fields [OF assms(1)] by (simp add: key_in_layer_def)
  show "\<exists>s'. shift k = Inr s' \<and> key_in_layer s (Suc i) s'" if "i < n" "key_in_layer s i k" for i k
    using shift_layer [OF that(2)] that(1) assms(2) by simp
qed

lemma make_comparable_drop:
  "make_comparable (drop off s) 0 len = make_comparable s off len"
  if "off \<le> length s"
  using that by (auto simp: make_comparable_def slice_make_def mem_read_def)

text \<open>
  C30.  Descending and coming back.  After \<open>n\<close> calls of \<^verbatim>\<open>shift\<close> a key looks like the key of the
  string without its first \<open>8 * n\<close> bytes (the same slice and length, so comparisons in the deeper
  layer are those of the rest of the string), no read leaves the string although the sloppy slice
  reads in front of the rest, and \<^verbatim>\<open>unshift_all\<close> restores the key that was there at the start.
\<close>

theorem shift_unshift_all:
  assumes "key_of s = Inr k" and "8 * n \<le> length s"
  shows "\<exists>k' r. for_each (\<lambda>_. shift) [0..<n] k = Inr k' \<and> key_of (drop (8 * n) s) = Inr r \<and>
    ikey0 k' = ikey0 r \<and> klen k' = klen r \<and> full_string k' = s \<and> unshift_all k' = Inr k"
proof -
  note k = key_of_fields [OF assms(1)]
  obtain k' where k': "for_each (\<lambda>_. shift) [0..<n] k = Inr k'" "key_in_layer s n k'"
    using shift_layers [OF assms] by auto
  obtain r where r: "key_of (drop (8 * n) s) = Inr r" using key_of_defined by blast
  note rf = key_of_fields [OF r]
  have l: "int (length (drop (8 * n) s)) = int (length s) - int (8 * n)" using assms(2) by simp
  have "ikey0 k' = ikey0 r" "klen k' = klen r"
    using k'(2) rf(1,4) make_comparable_drop [OF assms(2)] l by (auto simp: key_in_layer_def)
  moreover have "full_string k' = s" using k'(2) by (simp add: full_string_def key_in_layer_def)
  moreover have "unshift_all k' = Inr k"
  proof (cases "n = 0")
    case True
    with k' show ?thesis by (auto simp: unshift_all_def key_in_layer_def)
  next
    case False
    with k'(2) k show ?thesis by (auto simp: unshift_all_def key_in_layer_def)
  qed
  ultimately show ?thesis using k'(1) r by blast
qed

theorem shift_unshift_all_witness:
  "\<exists>k k'. key_of [1, 2, 3, 4, 5, 6, 7, 8, 9] = Inr k \<and> shift k = Inr k' \<and> klen k' = 1 \<and> unshift_all k' = Inr k"
proof -
  let ?s = "[1, 2, 3, 4, 5, 6, 7, 8, 9] :: bytes"
  obtain k where k: "key_of ?s = Inr k" using key_of_defined by blast
  from shift_unshift_all [OF k, of 1] obtain k' r where "shift k = Inr k'" "key_of [9] = Inr r" "klen k' = klen r"
    "unshift_all k' = Inr k" by (auto simp: rbind_eq_Inr_iff)
  with k key_of_fields(1) [of "[9]" r] show ?thesis by auto
qed

end
