(* ===== verification/Masstree_Leaf.thy ===== *)
theory Masstree_Leaf
  imports Masstree_Permuter Masstree_Nodeversion Masstree_Search Masstree_Key
begin

text \<open>
  The leaves of Masstree (\<^verbatim>\<open>masstree/masstree_struct.hh\<close>), and what an insertion does to the
  leaf it has found and locked (\<^verbatim>\<open>masstree_insert.hh\<close>, \<^verbatim>\<open>masstree_split.hh\<close>): use a free slot, rearrange the
  free slots, or split the leaf in two.  A leaf has \<open>W\<close> slots, each with a slice of eight bytes, a length
  code, a suffix and a value, and a permuter that orders the slots in use.  The string bag that holds the
  suffixes is represented by the suffix of each slot.  The new node of a split is an argument, with
  whatever is in its arrays.  The links between leaves are in \<open>Masstree_Links\<close>, and what a split does to
  the nodes above in \<open>Masstree_Internode\<close>.
\<close>

section \<open>Leaves\<close>

record 'v leaf =
  lf_version :: u32
  lf_modstate :: nat
  lf_keylenx :: "nat list"
  lf_perm :: u64
  lf_ikey0 :: "u64 list"
  lf_lv :: "'v option list"
  lf_ksuf :: "bytes list"
  lf_next :: "nat option"
  lf_prev :: "nat option"

definition ksuf_keylenx :: nat where "ksuf_keylenx = 64"

definition layer_keylenx :: nat where "layer_keylenx = 128"

definition modstate_insert :: nat where "modstate_insert = 0"

definition modstate_remove :: nat where "modstate_remove = 1"

definition leaf_size :: "'v leaf \<Rightarrow> nat" where "leaf_size l = kp_size (lf_perm l)"

definition ikey_bound :: "'v leaf \<Rightarrow> u64 result" where "ikey_bound l = vec_at (lf_ikey0 l) 0"

definition keylenx_is_layer :: "nat \<Rightarrow> bool" where "keylenx_is_layer n \<longleftrightarrow> 127 < n"

definition keylenx_has_ksuf :: "nat \<Rightarrow> bool" where "keylenx_has_ksuf n \<longleftrightarrow> n = ksuf_keylenx"

definition leaf_compare_key :: "key \<Rightarrow> 'v leaf \<Rightarrow> nat \<Rightarrow> int" where
  "leaf_compare_key a l bp = key_compare a (lf_ikey0 l ! bp) (int (lf_keylenx l ! bp))"

definition full_version_value :: "'v leaf \<Rightarrow> u32" where
  "full_version_value l = push_bit 4 (lf_version l) + word_of_nat (leaf_size l)"

definition vec_put :: "'a list \<Rightarrow> nat \<Rightarrow> 'a \<Rightarrow> 'a list result" where
  "vec_put v i x = (if i < length v then Inr (v[i := x]) else Inl Out_Of_Bounds)"

definition assign_ksuf :: "nat \<Rightarrow> bytes \<Rightarrow> 'v leaf \<Rightarrow> 'v leaf result" where
  "assign_ksuf p s l = rbind (vec_put (lf_ksuf l) p s) (\<lambda>ks. Inr (l\<lparr>lf_ksuf := ks\<rparr>))"

definition leaf_assign :: "nat \<Rightarrow> key \<Rightarrow> 'v leaf \<Rightarrow> 'v leaf result" where
  "leaf_assign p ka l =
     rbind (vec_put (lf_lv l) p None) (\<lambda>lv. rbind (vec_put (lf_ikey0 l) p (ikey0 ka)) (\<lambda>ik.
     let l = l\<lparr>lf_lv := lv, lf_ikey0 := ik\<rparr>
     in if \<not> has_suffix ka then rbind (vec_put (lf_keylenx l) p (nat (klen ka))) (\<lambda>kl. Inr (l\<lparr>lf_keylenx := kl\<rparr>))
        else rbind (vec_put (lf_keylenx l) p ksuf_keylenx) (\<lambda>kl. rbind (suffix ka) (\<lambda>s.
          assign_ksuf p s (l\<lparr>lf_keylenx := kl\<rparr>)))))"

definition leaf_copy :: "nat \<Rightarrow> 'v leaf \<Rightarrow> nat \<Rightarrow> 'v leaf \<Rightarrow> 'v leaf result" where
  "leaf_copy p x xp l =
     rbind (vec_at (lf_lv x) xp) (\<lambda>v. rbind (vec_put (lf_lv l) p v) (\<lambda>lv.
     rbind (vec_at (lf_ikey0 x) xp) (\<lambda>k. rbind (vec_put (lf_ikey0 l) p k) (\<lambda>ik.
     rbind (vec_at (lf_keylenx x) xp) (\<lambda>n. rbind (vec_put (lf_keylenx l) p n) (\<lambda>kl.
     let l = l\<lparr>lf_lv := lv, lf_ikey0 := ik, lf_keylenx := kl\<rparr>
     in if keylenx_has_ksuf n then rbind (vec_at (lf_ksuf x) xp) (\<lambda>s. assign_ksuf p s l) else Inr l))))))"

section \<open>Splitting a leaf\<close>

definition ikey_after_insert :: "u64 \<Rightarrow> nat \<Rightarrow> key \<Rightarrow> nat \<Rightarrow> 'v leaf \<Rightarrow> u64 result" where
  "ikey_after_insert perm i ka ka_i l =
     (if i < ka_i then vec_at (lf_ikey0 l) (elt perm i)
      else if i = ka_i then Inr (ikey0 ka)
      else vec_at (lf_ikey0 l) (elt perm (i - 1)))"

text \<open>
  The search for a place to split that does not separate equal slices.  Beyond both ends the loop of the
  code goes on forever; \<open>width + 2\<close> rounds are more than it can use.
\<close>

fun mid_loop :: "nat \<Rightarrow> (nat \<Rightarrow> u64 result) \<Rightarrow> nat \<Rightarrow> u64 \<Rightarrow> int \<Rightarrow> nat \<Rightarrow> nat result" where
  "mid_loop 0 key_at width mid_ikey midl midr = Inl Spins"
| "mid_loop (Suc fuel) key_at width mid_ikey midl midr =
     rbind (if midr \<le> width then rbind (key_at midr) (\<lambda>k. Inr (mid_ikey \<noteq> k)) else Inr False) (\<lambda>r.
     if r then Inr midr
     else rbind (if 0 \<le> midl then rbind (key_at (nat midl)) (\<lambda>k. Inr (mid_ikey \<noteq> k)) else Inr False) (\<lambda>r.
       if r then Inr (nat (midl + 1))
       else mid_loop fuel key_at width mid_ikey (midl - 1) (midr + 1)))"

definition split_mid :: "nat \<Rightarrow> nat \<Rightarrow> key \<Rightarrow> 'v leaf \<Rightarrow> nat result" where
  "split_mid W p ka l =
     (let width = leaf_size l; perml = lf_perm l; key_at = (\<lambda>i. ikey_after_insert perml i ka p l);
          mid = (if p = 0 \<and> lf_prev l = None then 1
                 else if p = width \<and> lf_next l = None then width else W div 2 + 1)
      in rbind (key_at mid) (\<lambda>mid_ikey. rbind (key_at (mid - 1)) (\<lambda>k.
         if mid_ikey = k then
           rbind (mid_loop (width + 2) key_at width mid_ikey (int mid - 2) (mid + 1)) (\<lambda>mid.
           rbind (rassert (0 < mid \<and> mid \<le> width)) (\<lambda>_. Inr mid))
         else Inr mid)))"

definition split_copy_step :: "nat \<Rightarrow> nat \<Rightarrow> key \<Rightarrow> 'v leaf \<Rightarrow> nat \<Rightarrow> 'v leaf \<times> u64 \<Rightarrow> ('v leaf \<times> u64) result" where
  "split_copy_step mid p ka l x = (\<lambda>(nr, pv).
     if x = p then rbind (leaf_assign (x - mid) ka nr) (\<lambda>nr. Inr (nr, pv))
     else rbind (leaf_copy (x - mid) l (unat (pv AND 15)) nr) (\<lambda>nr. Inr (nr, drop_bit 4 pv)))"

definition split_into :: "nat \<Rightarrow> 'v leaf \<Rightarrow> nat \<Rightarrow> key \<Rightarrow> 'v leaf \<Rightarrow> ('v leaf \<times> u64 \<times> nat) result" where
  "split_into W nr p ka l =
     rbind (rassert (nv_locked (lf_version l) \<and> nv_locked (lf_version nr))) (\<lambda>_.
     rbind (rassert (W - 1 \<le> leaf_size l)) (\<lambda>_.
     let width = leaf_size l; perml = lf_perm l
     in rbind (split_mid W p ka l) (\<lambda>mid.
        let pv = value_from perml (mid - (if p < mid then 1 else 0))
        in rbind (for_each (split_copy_step mid p ka l) [mid..<width + 1] (nr, pv)) (\<lambda>(nr, _).
           let permr = make_sorted W (width + 1 - mid);
               permr = (if mid \<le> p then remove_to_back W (p - mid) permr else permr);
               nr = nr\<lparr>lf_perm := permr\<rparr>
           in rbind (vec_at (lf_ikey0 nr) 0) (\<lambda>split_ikey.
              Inr (nr, split_ikey, if mid \<le> p then 1 + (if mid = width then 1 else 0) else 0))))))"

text \<open>
  The cursor of an insertion: the position of the key in the order, the slot it goes to, and the two
  leaves, of which the second one exists after a split; \<open>cu_right\<close> says which of them is \<^verbatim>\<open>n_\<close>.
\<close>

record 'v cursor =
  cu_i :: nat
  cu_p :: nat
  cu_left :: "'v leaf"
  cu_new :: "('v leaf \<times> u64) option"
  cu_right :: bool

text \<open>The leaf part of \<^verbatim>\<open>make_split\<close>: rearrange the free slots, or split and put the key into one of the halves.\<close>

definition split_leaf :: "nat \<Rightarrow> nat \<Rightarrow> key \<Rightarrow> 'v leaf \<Rightarrow> 'v leaf \<Rightarrow> 'v cursor result" where
  "split_leaf W i ka nr l = rbind (split_into W (nr\<lparr>lf_version := lf_version l\<rparr>) i ka l) (\<lambda>(nr, split_ikey, split_type).
     let perml = lf_perm l; width = kp_size perml;
         perml = set_size (width - leaf_size nr) perml;
         perml = (if width \<noteq> W then exchange (kp_size perml) (W - 1) perml else perml)
     in rbind (mark_split (lf_version l)) (\<lambda>v.
        let l = l\<lparr>lf_version := v, lf_perm := perml\<rparr>
        in if split_type = 0 then
             let p = kp_back W perml
             in rbind (leaf_assign p ka l) (\<lambda>l.
                Inr \<lparr>cu_i = i, cu_p = p, cu_left = l, cu_new = Some (nr, split_ikey), cu_right = False\<rparr>)
           else let p = i - kp_size perml
             in Inr \<lparr>cu_i = p, cu_p = p, cu_left = l, cu_new = Some (nr, split_ikey), cu_right = True\<rparr>))"

definition make_split :: "nat \<Rightarrow> nat \<Rightarrow> key \<Rightarrow> 'v leaf \<Rightarrow> 'v leaf \<Rightarrow> 'v cursor result" where
  "make_split W i ka nr l =
     (if leaf_size l < W then
        let perm = lf_perm l; perm = exchange (kp_size perm) (W - 1) perm; p = kp_back W perm
        in if p \<noteq> 0 then rbind (leaf_assign p ka (l\<lparr>lf_perm := perm\<rparr>)) (\<lambda>l.
             Inr \<lparr>cu_i = i, cu_p = p, cu_left = l, cu_new = None, cu_right = False\<rparr>)
           else split_leaf W i ka nr l
      else split_leaf W i ka nr l)"

text \<open>The end of \<^verbatim>\<open>find_insert\<close>, for a key that is not in the leaf, and \<^verbatim>\<open>finish_insert\<close>.\<close>

definition find_insert :: "nat \<Rightarrow> nat \<Rightarrow> key \<Rightarrow> 'v leaf \<Rightarrow> 'v leaf \<Rightarrow> 'v cursor result" where
  "find_insert W i ka nr l =
     rbind (if lf_modstate l \<noteq> modstate_insert then
              rbind (rassert (lf_modstate l = modstate_remove)) (\<lambda>_. rbind (mark_insert (lf_version l)) (\<lambda>v.
              Inr (l\<lparr>lf_version := v, lf_modstate := modstate_insert\<rparr>)))
            else Inr l) (\<lambda>l.
     if leaf_size l < W then
       let p = kp_back W (lf_perm l)
       in rbind (if p \<noteq> 0 \<or> lf_prev l = None then Inr True
                 else rbind (ikey_bound l) (\<lambda>b. Inr (b = ikey0 ka))) (\<lambda>reuse.
          if reuse then rbind (leaf_assign p ka l) (\<lambda>l.
            Inr \<lparr>cu_i = i, cu_p = p, cu_left = l, cu_new = None, cu_right = False\<rparr>)
          else make_split W i ka nr l)
     else make_split W i ka nr l)"

definition finish_insert_leaf :: "nat \<Rightarrow> nat \<Rightarrow> nat \<Rightarrow> 'v leaf \<Rightarrow> 'v leaf result" where
  "finish_insert_leaf W i p l = rbind (rassert (kp_back W (lf_perm l) = p)) (\<lambda>_.
     Inr (l\<lparr>lf_perm := snd (insert_from_back W i (lf_perm l))\<rparr>))"

definition finish_insert :: "nat \<Rightarrow> 'v cursor \<Rightarrow> 'v cursor result" where
  "finish_insert W c =
     (if cu_right c then (case cu_new c of None \<Rightarrow> Inl Out_Of_Bounds
        | Some (nr, k) \<Rightarrow> rbind (finish_insert_leaf W (cu_i c) (cu_p c) nr) (\<lambda>nr. Inr (c\<lparr>cu_new := Some (nr, k)\<rparr>)))
      else rbind (finish_insert_leaf W (cu_i c) (cu_p c) (cu_left c)) (\<lambda>l. Inr (c\<lparr>cu_left := l\<rparr>)))"

section \<open>The entries of a leaf\<close>

definition ins :: "nat \<Rightarrow> 'a \<Rightarrow> 'a list \<Rightarrow> 'a list" where
  "ins i x xs = take i xs @ x # drop i xs"

lemma length_ins [simp]: "i \<le> length xs \<Longrightarrow> length (ins i x xs) = Suc (length xs)"
  by (simp add: ins_def)

lemma nth_ins: "i \<le> length xs \<Longrightarrow> j \<le> length xs \<Longrightarrow> ins i x xs ! j = (if j < i then xs ! j else if j = i then x else xs ! (j - 1))"
  by (auto simp: ins_def nth_append nth_Cons' min_def)

lemma map_ins: "map f (ins i x xs) = ins i (f x) (map f xs)"
  by (simp add: ins_def take_map drop_map)

lemma take_ins: "i \<le> length xs \<Longrightarrow> n \<le> i \<Longrightarrow> take n (ins i x xs) = take n xs"
  by (simp add: ins_def min_def)

lemma take_ins_beyond: "i < n \<Longrightarrow> i \<le> length xs \<Longrightarrow> take n (ins i x xs) = ins i x (take (n - 1) xs)"
  by (auto simp: ins_def take_Cons' min_def drop_take)

definition suffix_of :: "key \<Rightarrow> bytes" where
  "suffix_of ka = (case suffix ka of Inr s \<Rightarrow> s | Inl _ \<Rightarrow> [])"

definition key_ok :: "key \<Rightarrow> bool" where
  "key_ok ka \<longleftrightarrow> (has_suffix ka \<longrightarrow> suffix ka = Inr (suffix_of ka))"

text \<open>What a slot holds: slice, length code, suffix (if it has one) and value.\<close>

type_synonym 'v lentry = "u64 \<times> nat \<times> bytes \<times> 'v option"

definition entry :: "'v leaf \<Rightarrow> nat \<Rightarrow> 'v lentry" where
  "entry l s = (lf_ikey0 l ! s, lf_keylenx l ! s, if keylenx_has_ksuf (lf_keylenx l ! s) then lf_ksuf l ! s else [], lf_lv l ! s)"

definition key_entry :: "key \<Rightarrow> 'v lentry" where
  "key_entry ka = (ikey0 ka, if has_suffix ka then ksuf_keylenx else nat (klen ka), if has_suffix ka then suffix_of ka else [], None)"

definition arrays_ok :: "nat \<Rightarrow> 'v leaf \<Rightarrow> bool" where
  "arrays_ok W l \<longleftrightarrow> length (lf_keylenx l) = W \<and> length (lf_ikey0 l) = W \<and> length (lf_lv l) = W \<and> length (lf_ksuf l) = W"

definition leaf_ok :: "nat \<Rightarrow> 'v leaf \<Rightarrow> bool" where
  "leaf_ok W l \<longleftrightarrow> permuter_ok W (lf_perm l) \<and> arrays_ok W l"

definition entries :: "nat \<Rightarrow> 'v leaf \<Rightarrow> 'v lentry list" where
  "entries W l = map (entry l) (take (leaf_size l) (elems W (lf_perm l)))"

definition same_rest :: "'v leaf \<Rightarrow> 'v leaf \<Rightarrow> bool" where
  "same_rest l l' \<longleftrightarrow> lf_perm l' = lf_perm l \<and> lf_version l' = lf_version l \<and> lf_modstate l' = lf_modstate l \<and>
     lf_next l' = lf_next l \<and> lf_prev l' = lf_prev l"

lemma fst_entry [simp]: "fst (entry l s) = lf_ikey0 l ! s"
  by (simp add: entry_def)

lemma fst_key_entry [simp]: "fst (key_entry ka) = ikey0 ka"
  by (simp add: key_entry_def)

lemma leaf_assign_ok:
  assumes "arrays_ok W l" and "p < W" and "key_ok ka"
  shows "\<exists>l'. leaf_assign p ka l = Inr l' \<and> arrays_ok W l' \<and> same_rest l l' \<and> entry l' p = key_entry ka \<and>
    (\<forall>s. s \<noteq> p \<longrightarrow> entry l' s = entry l s)"
proof (cases "has_suffix ka")
  case True
  with assms show ?thesis
    by (simp add: leaf_assign_def vec_put_def assign_ksuf_def arrays_ok_def same_rest_def entry_def key_entry_def key_ok_def
        keylenx_has_ksuf_def)
next
  case False
  then have "nat (klen ka) \<noteq> 64" by (auto simp: has_suffix_def ikey_size_def)
  with assms False show ?thesis
    by (simp add: leaf_assign_def vec_put_def arrays_ok_def same_rest_def entry_def key_entry_def keylenx_has_ksuf_def
        ksuf_keylenx_def)
qed

lemma leaf_copy_ok:
  assumes "arrays_ok W l" and "arrays_ok W x" and "p < W" and "xp < W"
  shows "\<exists>l'. leaf_copy p x xp l = Inr l' \<and> arrays_ok W l' \<and> same_rest l l' \<and> entry l' p = entry x xp \<and>
    (\<forall>s. s \<noteq> p \<longrightarrow> entry l' s = entry l s)"
  using assms
  by (cases "keylenx_has_ksuf (lf_keylenx x ! xp)")
    (simp_all add: leaf_copy_def vec_put_def assign_ksuf_def arrays_ok_def same_rest_def entry_def)

lemma leaf_size_le: "leaf_ok W l \<Longrightarrow> leaf_size l \<le> W"
  by (simp add: leaf_ok_def permuter_ok_def leaf_size_def)

lemma length_entries [simp]: "leaf_ok W l \<Longrightarrow> length (entries W l) = leaf_size l"
  using leaf_size_le [of W l] by (simp add: entries_def)

lemma slot_less: "permuter_ok W x \<Longrightarrow> i < W \<Longrightarrow> elt x i < W"
  unfolding permuter_ok_def by (metis atLeastLessThan_iff elt_nib length_elems nth_elems nth_mem)

lemma nth_entries: "leaf_ok W l \<Longrightarrow> i < leaf_size l \<Longrightarrow> entries W l ! i = entry l (elt (lf_perm l) i)"
  using leaf_size_le [of W l] by (simp add: entries_def elt_nib)

section \<open>Where a leaf is split\<close>

lemma ikey_after_insert_ok:
  assumes "leaf_ok W l" and "p \<le> leaf_size l" and "i \<le> leaf_size l"
  shows "ikey_after_insert (lf_perm l) i ka p l = Inr (ins p (ikey0 ka) (map fst (entries W l)) ! i)"
proof -
  have n: "leaf_size l \<le> W" and perm: "permuter_ok W (lf_perm l)" and len: "length (lf_ikey0 l) = W"
    using assms(1) leaf_size_le by (auto simp: leaf_ok_def arrays_ok_def)
  have slot: "elt (lf_perm l) j < length (lf_ikey0 l)" if "j < leaf_size l" for j
    using that slot_less [OF perm, of j] n len by simp
  show ?thesis
    using assms slot by (auto simp: ikey_after_insert_def nth_ins nth_entries)
qed

lemma mid_loop_ok:
  assumes "\<And>i. i \<le> width \<Longrightarrow> key_at i = Inr (ks ! i)" and "\<exists>i \<le> width. ks ! i \<noteq> k"
    and "\<And>i. midl < int i \<Longrightarrow> i < midr \<Longrightarrow> i \<le> width \<Longrightarrow> ks ! i = k"
    and "nat (midl + 1) + (Suc width - midr) < fuel" and "midl + 1 < int midr" and "0 < midr" and "midl < int width"
  shows "\<exists>m. mid_loop fuel key_at width k midl midr = Inr m \<and> 0 < m \<and> m \<le> width \<and> ks ! (m - 1) \<noteq> ks ! m"
  using assms(3-)
proof (induction fuel arbitrary: midl midr)
  case 0
  then show ?case by simp
next
  case (Suc fuel)
  show ?case
  proof (cases "midr \<le> width \<and> ks ! midr \<noteq> k")
    case True
    have "midl < int (midr - 1)" using Suc.prems(3,4) by simp
    with Suc.prems(1) [of "midr - 1"] True Suc.prems(4) have "ks ! (midr - 1) = k" by auto
    with True Suc.prems(4) assms(1) show ?thesis by (intro exI [of _ midr]) auto
  next
    case right: False
    have r: "rbind (if midr \<le> width then rbind (key_at midr) (\<lambda>k'. Inr (k \<noteq> k')) else Inr False) f = f False" for f :: "bool \<Rightarrow> nat result"
      using right assms(1) by auto
    show ?thesis
    proof (cases "0 \<le> midl \<and> ks ! nat midl \<noteq> k")
      case True
      have "ks ! nat (midl + 1) = k" using Suc.prems(1) [of "nat (midl + 1)"] True Suc.prems(3,5) by auto
      moreover have "nat (midl + 1) - 1 = nat midl" using True by simp
      ultimately show ?thesis using True right r assms(1) Suc.prems(5)
        by (intro exI [of _ "nat (midl + 1)"]) auto
    next
      case left: False
      have l: "rbind (if 0 \<le> midl then rbind (key_at (nat midl)) (\<lambda>k'. Inr (k \<noteq> k')) else Inr False) f = f False" for f :: "bool \<Rightarrow> nat result"
        using left assms(1) Suc.prems(5) by auto
      have eq: "ks ! i = k" if h: "midl - 1 < int i" "i < midr + 1" "i \<le> width" for i
      proof -
        consider "int i = midl" | "i = midr" | "midl < int i" "i < midr" using h by linarith
        then show ?thesis using left right h Suc.prems(1) by cases auto
      qed
      have "midr \<le> width \<or> 0 \<le> midl"
      proof (rule ccontr)
        assume "\<not> (midr \<le> width \<or> 0 \<le> midl)"
        then have "ks ! i = k" if "i \<le> width" for i using that eq [of i] by auto
        with assms(2) show False by blast
      qed
      then have "nat (midl - 1 + 1) + (Suc width - (midr + 1)) < fuel" using Suc.prems(2) by auto
      from Suc.IH [OF eq this] Suc.prems(3-5) show ?thesis by (simp add: r l del: Suc_le_eq)
    qed
  qed
qed

lemma split_mid_ok:
  fixes ka :: key
  assumes ok: "leaf_ok W l" and full: "W - 1 \<le> leaf_size l" and p: "p \<le> leaf_size l"
  defines "ks \<equiv> ins p (ikey0 ka) (map fst (entries W l))"
  assumes diff: "\<exists>i \<le> leaf_size l. \<exists>j \<le> leaf_size l. ks ! i \<noteq> ks ! j"
  shows "\<exists>mid. split_mid W p ka l = Inr mid \<and> 0 < mid \<and> mid \<le> leaf_size l \<and> ks ! (mid - 1) \<noteq> ks ! mid"
proof -
  let ?n = "leaf_size l"
  define mid where "mid = (if p = 0 \<and> lf_prev l = None then 1 else if p = ?n \<and> lf_next l = None then ?n else W div 2 + 1)"
  have W: "8 \<le> W" using ok by (simp add: leaf_ok_def permuter_ok_def)
  have mid: "0 < mid" "mid \<le> ?n" using W full by (auto simp: mid_def)
  have key_at: "ikey_after_insert (lf_perm l) i ka p l = Inr (ks ! i)" if "i \<le> ?n" for i
    unfolding ks_def using ikey_after_insert_ok [OF ok p that] .
  show ?thesis
  proof (cases "ks ! mid = ks ! (mid - 1)")
    case False
    with mid key_at show ?thesis
      by (intro exI [of _ mid]) (auto simp: split_mid_def Let_def mid_def [symmetric])
  next
    case True
    have ex: "\<exists>i \<le> ?n. ks ! i \<noteq> ks ! mid" using diff by metis
    have "\<exists>m. mid_loop (?n + 2) (\<lambda>i. ikey_after_insert (lf_perm l) i ka p l) ?n (ks ! mid) (int mid - 2) (mid + 1) = Inr m \<and>
        0 < m \<and> m \<le> ?n \<and> ks ! (m - 1) \<noteq> ks ! m"
    proof (rule mid_loop_ok [OF key_at ex])
      fix i assume "int mid - 2 < int i" "i < mid + 1"
      then have "i = mid - 1 \<or> i = mid" by linarith
      with True show "ks ! i = ks ! mid" by auto
    qed (use mid in auto)
    then obtain m where m: "mid_loop (?n + 2) (\<lambda>i. ikey_after_insert (lf_perm l) i ka p l) ?n (ks ! mid) (int mid - 2) (mid + 1) = Inr m"
      "0 < m" "m \<le> ?n" "ks ! (m - 1) \<noteq> ks ! m" by blast
    with True mid key_at show ?thesis
      by (intro exI [of _ m]) (simp add: split_mid_def Let_def mid_def [symmetric])
  qed
qed

section \<open>What a split copies\<close>

lemma for_each_upt_progress_from:
  assumes "a \<le> b" and "P a s" and "\<And>i s. a \<le> i \<Longrightarrow> i < b \<Longrightarrow> P i s \<Longrightarrow> \<exists>s'. f i s = Inr s' \<and> P (Suc i) s'"
  shows "\<exists>s'. for_each f [a..<b] s = Inr s' \<and> P b s'"
  using assms(1,3)
proof (induction b rule: dec_induct)
  case base
  then show ?case using assms(2) by simp
next
  case (step b)
  then obtain s1 where s1: "for_each f [a..<b] s = Inr s1" "P b s1" by (meson less_SucI)
  with step.prems [of b s1] step.hyps show ?case by (auto simp: for_each_append)
qed

lemma value_from_low: "unat (value_from x i AND 15) = elt x i"
  by (simp add: value_from_def elt_def algebra_simps)

lemma value_from_next: "drop_bit 4 (value_from x i) = value_from x (Suc i)"
  by (simp add: value_from_def algebra_simps)

lemma split_copy_ok:
  fixes ka :: key
  assumes ok: "leaf_ok W l" and p: "p \<le> leaf_size l" and mid: "0 < mid" "mid \<le> leaf_size l"
    and nr: "arrays_ok W nr" and ka: "key_ok ka"
  defines "xs \<equiv> ins p (key_entry ka) (entries W l)"
  shows "\<exists>nr' pv. for_each (split_copy_step mid p ka l) [mid..<leaf_size l + 1]
      (nr, value_from (lf_perm l) (mid - (if p < mid then 1 else 0))) = Inr (nr', pv) \<and> arrays_ok W nr' \<and>
      same_rest nr nr' \<and> (\<forall>y. mid + y \<le> leaf_size l \<longrightarrow> entry nr' y = xs ! (mid + y))"
proof -
  let ?n = "leaf_size l"
  define P where "P x s \<longleftrightarrow> arrays_ok W (fst s) \<and> same_rest nr (fst s) \<and>
    snd s = value_from (lf_perm l) (x - (if p < x then 1 else 0)) \<and> (\<forall>y. mid + y < x \<longrightarrow> entry (fst s) y = xs ! (mid + y))"
    for x and s :: "'a leaf \<times> u64"
  have n: "?n \<le> W" and perm: "permuter_ok W (lf_perm l)" and arr: "arrays_ok W l"
    using ok leaf_size_le by (auto simp: leaf_ok_def)
  have step: "\<exists>s'. split_copy_step mid p ka l x s = Inr s' \<and> P (Suc x) s'" if x: "mid \<le> x" "x < ?n + 1" and P: "P x s" for x s
  proof -
    obtain r pv where s: "s = (r, pv)" by fastforce
    have r: "arrays_ok W r" "same_rest nr r" "\<And>y. mid + y < x \<Longrightarrow> entry r y = xs ! (mid + y)"
      and pv: "pv = value_from (lf_perm l) (x - (if p < x then 1 else 0))"
      using P by (auto simp: P_def s)
    have xm: "x - mid < W" using x mid n by simp
    have frame: "P (Suc x) (r', pv')" if h: "arrays_ok W r'" "same_rest r r'" "entry r' (x - mid) = xs ! x"
      "\<forall>y. y \<noteq> x - mid \<longrightarrow> entry r' y = entry r y" "pv' = value_from (lf_perm l) (Suc x - (if p < Suc x then 1 else 0))" for r' pv'
    proof -
      have "entry r' y = xs ! (mid + y)" if y: "mid + y < Suc x" for y
      proof (cases "mid + y = x")
        case True
        then have "y = x - mid" by simp
        with True h(3) show ?thesis by simp
      next
        case False
        then have "y \<noteq> x - mid" "mid + y < x" using y by auto
        with r(3) h(4) show ?thesis by simp
      qed
      with h r(2) show ?thesis by (auto simp: P_def same_rest_def)
    qed
    show ?thesis
    proof (cases "x = p")
      case True
      obtain r' where r': "leaf_assign (x - mid) ka r = Inr r'" "arrays_ok W r'" "same_rest r r'"
        "entry r' (x - mid) = key_entry ka" "\<forall>y. y \<noteq> x - mid \<longrightarrow> entry r' y = entry r y"
        using leaf_assign_ok [OF r(1) xm ka] by blast
      have "P (Suc x) (r', pv)"
        by (rule frame) (use r' pv True ok p in \<open>auto simp: xs_def nth_ins\<close>)
      with r'(1) True show ?thesis by (simp add: split_copy_step_def s)
    next
      case False
      define j where "j = x - (if p < x then 1 else 0)"
      have j: "j < ?n" using x False p by (auto simp: j_def)
      have slot: "unat (pv AND 15) = elt (lf_perm l) j" by (simp add: pv value_from_low j_def)
      have "elt (lf_perm l) j < W" using slot_less [OF perm, of j] j n by simp
      from leaf_copy_ok [OF r(1) arr xm this] obtain r' where r': "leaf_copy (x - mid) l (unat (pv AND 15)) r = Inr r'"
        "arrays_ok W r'" "same_rest r r'" "entry r' (x - mid) = entry l (elt (lf_perm l) j)"
        "\<forall>y. y \<noteq> x - mid \<longrightarrow> entry r' y = entry r y"
        unfolding slot by blast
      have "xs ! x = entries W l ! j" using x False ok p by (auto simp: xs_def nth_ins j_def)
      then have "xs ! x = entry l (elt (lf_perm l) j)" using nth_entries [OF ok j] by simp
      moreover have "drop_bit 4 pv = value_from (lf_perm l) (Suc x - (if p < Suc x then 1 else 0))"
        using False by (auto simp: pv value_from_next)
      ultimately have "P (Suc x) (r', drop_bit 4 pv)" using r' by (intro frame) auto
      with r'(1) False show ?thesis by (simp add: split_copy_step_def s)
    qed
  qed
  have base: "P mid (nr, value_from (lf_perm l) (mid - (if p < mid then 1 else 0)))"
    using nr by (simp add: P_def same_rest_def)
  have "\<exists>s'. for_each (split_copy_step mid p ka l) [mid..<?n + 1]
      (nr, value_from (lf_perm l) (mid - (if p < mid then 1 else 0))) = Inr s' \<and> P (?n + 1) s'"
    by (rule for_each_upt_progress_from [where P = P, OF _ base step]) (use mid in simp_all)
  then obtain s' where s': "for_each (split_copy_step mid p ka l) [mid..<?n + 1]
      (nr, value_from (lf_perm l) (mid - (if p < mid then 1 else 0))) = Inr s'" "P (?n + 1) s'" by blast
  then show ?thesis by (cases s') (auto simp: P_def)
qed

section \<open>The permuters of an insertion\<close>

lemma set_size_ok:
  assumes "permuter_ok W x" and "n \<le> W"
  shows "permuter_ok W (set_size n x)" "kp_size (set_size n x) = n" "elems W (set_size n x) = elems W x"
proof -
  have n: "n < 16" using assms by (simp add: permuter_ok_def)
  show sz: "kp_size (set_size n x) = n" using n by (simp add: kp_size_nib nib_set_size unat_of_nat)
  show es: "elems W (set_size n x) = elems W x" using n by (intro elems_eqI) (simp_all add: nib_set_size)
  show "permuter_ok W (set_size n x)" using assms sz es by (simp add: permuter_ok_def)
qed

lemma exchange_ok:
  assumes "permuter_ok W x" and "n < W"
  shows "permuter_ok W (exchange n (W - 1) x)" "kp_size (exchange n (W - 1) x) = kp_size x"
    "take n (elems W (exchange n (W - 1) x)) = take n (elems W x)"
    "kp_back W (exchange n (W - 1) x) = elt x n"
proof -
  have W: "W \<le> 15" "8 \<le> W" using assms(1) by (simp_all add: permuter_ok_def)
  have es: "elems W (exchange n (W - 1) x) = (elems W x)[n := elems W x ! (W - 1), W - 1 := elems W x ! n]"
    by (rule elems_exchange) (use assms W in auto)
  show sz: "kp_size (exchange n (W - 1) x) = kp_size x"
    using assms W by (simp add: kp_size_nib nib_exchange)
  show "permuter_ok W (exchange n (W - 1) x)"
  proof (rule permuter_ok_mset [OF assms(1)])
    show "mset (elems W (exchange n (W - 1) x)) = mset (elems W x)"
      unfolding es by (rule mset_swap) (use assms W in simp_all)
  qed (use assms in \<open>simp add: sz [unfolded One_nat_def] permuter_ok_def\<close>)
  show "take n (elems W (exchange n (W - 1) x)) = take n (elems W x)"
    unfolding es using assms(2) by simp
  show "kp_back W (exchange n (W - 1) x) = elt x n"
    using assms(2) W by (auto simp: kp_back_def elt_nib nib_exchange)
qed

lemma take_ins_back: "n < length es \<Longrightarrow> i \<le> n \<Longrightarrow> take (Suc n) (ins_back i es) = ins i (last es) (take n es)"
  by (simp add: ins_back_def ins_def take_Cons' take_butlast min_def Suc_diff_le drop_take butlast_conv_take)

lemma kp_back_last: "0 < W \<Longrightarrow> kp_back W x = last (elems W x)"
  by (subst last_conv_nth) (auto simp: kp_back_def elt_nib elems_def)

lemma insert_from_back_ok:
  assumes "permuter_ok W x" and "kp_size x < W" and "i \<le> kp_size x"
  defines "y \<equiv> snd (insert_from_back W i x)"
  shows "permuter_ok W y" "kp_size y = Suc (kp_size x)"
    "take (kp_size y) (elems W y) = ins i (kp_back W x) (take (kp_size x) (elems W x))"
proof -
  have W: "W \<le> 15" "0 < W" using assms(1) by (simp_all add: permuter_ok_def)
  show sz: "kp_size y = Suc (kp_size x)" unfolding y_def by (rule kp_size_insert_from_back) (use assms W in auto)
  have es: "elems W y = ins_back i (elems W x)" unfolding y_def by (rule elems_insert_from_back) (use assms W in auto)
  show "permuter_ok W y" by (rule permuter_ok_mset [OF assms(1)]) (use assms(1-3) sz in \<open>simp_all add: es mset_ins_back\<close>)
  show "take (kp_size y) (elems W y) = ins i (kp_back W x) (take (kp_size x) (elems W x))"
    unfolding sz es kp_back_last [OF W(2)] using assms by (intro take_ins_back) simp_all
qed

lemma remove_then_insert_back:
  assumes "i < n" and "n \<le> W" and "8 \<le> W" and "W \<le> 15"
  defines "x \<equiv> remove_to_back W i (make_sorted W n)"
  shows "permuter_ok W x" "kp_size x = n - 1" "kp_back W x = i"
    "take n (elems W (snd (insert_from_back W i x))) = [0..<n]"
proof -
  let ?s = "make_sorted W n"
  have ok: "permuter_ok W ?s" using assms by (intro permuter_ok_make_sorted)
  have sz: "kp_size ?s = n" using assms by (simp add: kp_size_nib nib_make_sorted unat_of_nat)
  have es: "elems W ?s = [0..<n] @ rev [n..<W]" using assms by (intro elems_make_sorted)
  have ex: "elems W x = move_before i W (elems W ?s)"
    unfolding x_def using assms sz by (intro elems_remove_to_back) simp_all
  have "unat (nib ?s 0 - 1) = unat (nib ?s 0) - 1"
    using assms(1) sz by (intro unat_minus_one) (auto simp: kp_size_nib)
  then show szx: "kp_size x = n - 1"
    using assms sz by (simp add: x_def kp_size_nib nib_remove_to_back)
  show okx: "permuter_ok W x"
    by (rule permuter_ok_mset [OF ok]) (use assms(1-4) szx in \<open>simp_all add: ex mset_move_before\<close>)
  have "last (elems W x) = i" using assms(1-4) by (simp add: ex es move_before_def nth_append)
  then have slot_i: "kp_back W x = i" using assms(1-4) by (simp add: kp_back_last)
  then show "kp_back W x = i" .
  have ins: "take (kp_size (snd (insert_from_back W i x))) (elems W (snd (insert_from_back W i x))) =
      ins i (kp_back W x) (take (kp_size x) (elems W x))"
    "kp_size (snd (insert_from_back W i x)) = Suc (kp_size x)"
    by (rule insert_from_back_ok [OF okx]; use assms(1-4) szx in simp)+
  have "take (n - 1) (elems W x) = [0..<i] @ [Suc i..<n]"
    using assms(1-4) by (simp add: ex es move_before_def min_def)
  moreover have "take n (elems W (snd (insert_from_back W i x))) = ins i i (take (n - 1) (elems W x))"
    using ins szx assms(1) slot_i by simp
  moreover have "[0..<n] = [0..<i] @ i # [Suc i..<n]"
    using assms(1) upt_add_eq_append [of 0 i "n - i"] by (simp add: upt_conv_Cons)
  ultimately show "take n (elems W (snd (insert_from_back W i x))) = [0..<n]" by (simp add: ins_def)
qed

section \<open>Inserting into a leaf\<close>

lemma entries_reperm:
  assumes "leaf_ok W l" and "permuter_ok W x" and "kp_size x = n" and "n \<le> leaf_size l"
    and "take n (elems W x) = take n (elems W (lf_perm l))"
  shows "leaf_ok W (l\<lparr>lf_version := v, lf_perm := x\<rparr>)" "entries W (l\<lparr>lf_version := v, lf_perm := x\<rparr>) = take n (entries W l)"
proof -
  have entry: "entry (l\<lparr>lf_version := v, lf_perm := x\<rparr>) = entry l" by (rule ext) (simp add: entry_def)
  show "leaf_ok W (l\<lparr>lf_version := v, lf_perm := x\<rparr>)" using assms(1,2) by (simp add: leaf_ok_def arrays_ok_def)
  show "entries W (l\<lparr>lf_version := v, lf_perm := x\<rparr>) = take n (entries W l)"
    using assms(3-5) by (simp add: entries_def leaf_size_def entry take_map min_def)
qed

text \<open>
  What a leaf needs of its permuter: a list of slots, of which the first ones are in use, and an
  insertion that takes the last slot into use.  Writing an entry into that slot first and inserting
  it then puts the entry into the list of entries, whatever the other slots hold.
\<close>

locale slot_order =
  fixes valid :: "'p \<Rightarrow> bool" and used :: "'p \<Rightarrow> nat" and slots :: "'p \<Rightarrow> nat list" and free :: "'p \<Rightarrow> nat"
    and put :: "nat \<Rightarrow> 'p \<Rightarrow> 'p" and width :: nat
  assumes slots_distinct: "valid x \<Longrightarrow> distinct (slots x)"
    and slots_length: "valid x \<Longrightarrow> length (slots x) = width \<and> 0 < width"
    and free_last: "valid x \<Longrightarrow> free x = last (slots x)"
    and put_valid: "valid x \<Longrightarrow> used x < width \<Longrightarrow> i \<le> used x \<Longrightarrow> valid (put i x)"
    and put_used: "valid x \<Longrightarrow> used x < width \<Longrightarrow> i \<le> used x \<Longrightarrow> used (put i x) = Suc (used x)"
    and put_slots: "valid x \<Longrightarrow> used x < width \<Longrightarrow> i \<le> used x \<Longrightarrow>
      take (used (put i x)) (slots (put i x)) = ins i (free x) (take (used x) (slots x))"
begin

lemma free_unused:
  assumes "valid x" and "used x < width"
  shows "free x \<notin> set (take (used x) (slots x))"
proof
  assume "free x \<in> set (take (used x) (slots x))"
  moreover have "free x = slots x ! (width - 1)"
    using slots_length [OF assms(1)] free_last [OF assms(1)] last_conv_nth [of "slots x"] by force
  ultimately obtain j where "j < used x" "slots x ! j = slots x ! (width - 1)"
    by (auto simp: in_set_conv_nth)
  then show False
    using assms slots_length [OF assms(1)] nth_eq_iff_index_eq [OF slots_distinct [OF assms(1)], of j "width - 1"] by simp
qed

lemma put_content:
  assumes "valid x" and "used x < width" and "i \<le> used x" and "\<And>s. s \<noteq> free x \<Longrightarrow> f' s = f s"
  shows "map f' (take (used (put i x)) (slots (put i x))) = ins i (f' (free x)) (map f (take (used x) (slots x)))"
proof -
  have "map f' (take (used x) (slots x)) = map f (take (used x) (slots x))"
    using assms(4) free_unused [OF assms(1,2)] by (intro map_cong refl) metis
  then show ?thesis unfolding put_slots [OF assms(1-3)] map_ins by (rule arg_cong)
qed

end

interpretation kp: slot_order "permuter_ok W" kp_size "elems W" "kp_back W" "\<lambda>i x. snd (insert_from_back W i x)" W for W
proof unfold_locales
  fix x i
  assume x: "permuter_ok W x"
  then show "distinct (elems W x)" "length (elems W x) = W \<and> 0 < W" by (simp_all add: permuter_ok_def)
  then show "kp_back W x = last (elems W x)" by (intro kp_back_last) simp
  assume "kp_size x < W" and "i \<le> kp_size x"
  from insert_from_back_ok [OF x this] show "permuter_ok W (snd (insert_from_back W i x))"
    "kp_size (snd (insert_from_back W i x)) = Suc (kp_size x)"
    "take (kp_size (snd (insert_from_back W i x))) (elems W (snd (insert_from_back W i x))) =
      ins i (kp_back W x) (take (kp_size x) (elems W x))" by blast+
qed

lemma insert_free_ok:
  assumes ok: "leaf_ok W l" and room: "leaf_size l < W" and i: "i \<le> leaf_size l" and ka: "key_ok ka"
  shows "\<exists>l' l''. leaf_assign (kp_back W (lf_perm l)) ka l = Inr l' \<and>
    finish_insert_leaf W i (kp_back W (lf_perm l)) l' = Inr l'' \<and> leaf_ok W l'' \<and>
    entries W l'' = ins i (key_entry ka) (entries W l)"
proof -
  let ?b = "kp_back W (lf_perm l)"
  have perm: "permuter_ok W (lf_perm l)" and arr: "arrays_ok W l" and W: "0 < W"
    using ok by (auto simp: leaf_ok_def permuter_ok_def)
  have b: "?b < W" using slot_less [OF perm, of "W - 1"] W by (simp add: kp_back_def)
  from leaf_assign_ok [OF arr b ka] obtain l' where l': "leaf_assign ?b ka l = Inr l'" "arrays_ok W l'" "same_rest l l'"
    "entry l' ?b = key_entry ka" "\<forall>s. s \<noteq> ?b \<longrightarrow> entry l' s = entry l s" by blast
  define x where "x = snd (insert_from_back W i (lf_perm l))"
  note h = perm room [unfolded leaf_size_def] i [unfolded leaf_size_def]
  have entry: "entry (l'\<lparr>lf_perm := x\<rparr>) = entry l'" by (rule ext) (simp add: entry_def)
  have "entries W (l'\<lparr>lf_perm := x\<rparr>) = ins i (key_entry ka) (entries W l)"
    using kp.put_content [OF h, of "entry l'" "entry l"] l'(4,5) unfolding entries_def leaf_size_def entry by (simp add: x_def)
  moreover have "leaf_ok W (l'\<lparr>lf_perm := x\<rparr>)" using kp.put_valid [OF h] l'(2) by (simp add: leaf_ok_def arrays_ok_def x_def)
  moreover have "finish_insert_leaf W i ?b l' = Inr (l'\<lparr>lf_perm := x\<rparr>)"
    using l'(3) by (simp add: finish_insert_leaf_def same_rest_def x_def)
  ultimately show ?thesis using l'(1) by blast
qed

text \<open>
  What an insertion leaves behind: one leaf with the key put in, or two that hold the entries before and
  from some place on, with different slices on the two sides of it.
\<close>

definition insert_done :: "nat \<Rightarrow> 'v lentry list \<Rightarrow> 'v cursor \<Rightarrow> bool" where
  "insert_done W xs c \<longleftrightarrow> leaf_ok W (cu_left c) \<and> (case cu_new c of
      None \<Rightarrow> entries W (cu_left c) = xs
    | Some (nr, split_ikey) \<Rightarrow> leaf_ok W nr \<and> entries W (cu_left c) @ entries W nr = xs \<and>
        entries W (cu_left c) \<noteq> [] \<and> entries W nr \<noteq> [] \<and> split_ikey = fst (hd (entries W nr)) \<and>
        fst (last (entries W (cu_left c))) \<noteq> split_ikey)"

lemma entries_sorted:
  assumes "arrays_ok W r" and "permuter_ok W x" and "kp_size x = length xs - mid" and "mid \<le> length xs"
    and "take (length xs - mid) (elems W x) = [0..<length xs - mid]"
    and "\<And>y. mid + y < length xs \<Longrightarrow> entry r y = xs ! (mid + y)"
  shows "leaf_ok W (r\<lparr>lf_perm := x\<rparr>)" "entries W (r\<lparr>lf_perm := x\<rparr>) = drop mid xs"
proof -
  have entry: "entry (r\<lparr>lf_perm := x\<rparr>) = entry r" by (rule ext) (simp add: entry_def)
  show "leaf_ok W (r\<lparr>lf_perm := x\<rparr>)" using assms(1,2) by (simp add: leaf_ok_def arrays_ok_def)
  have "entries W (r\<lparr>lf_perm := x\<rparr>) = map (entry r) [0..<length xs - mid]"
    using assms(3,5) by (simp add: entries_def leaf_size_def entry)
  also have "\<dots> = drop mid xs" by (rule nth_equalityI) (use assms(4,6) in auto)
  finally show "entries W (r\<lparr>lf_perm := x\<rparr>) = drop mid xs" .
qed

lemma split_into_ok:
  fixes ka :: key
  assumes ok: "leaf_ok W l" and full: "W - 1 \<le> leaf_size l" and p: "p \<le> leaf_size l" and nr: "arrays_ok W nr"
    and ka: "key_ok ka" and locked: "nv_locked (lf_version l)" "nv_locked (lf_version nr)"
  defines "xs \<equiv> ins p (key_entry ka) (entries W l)"
  assumes diff: "\<exists>i \<le> leaf_size l. \<exists>j \<le> leaf_size l. fst (xs ! i) \<noteq> fst (xs ! j)"
  shows "\<exists>mid nr' ty. split_into W nr p ka l = Inr (nr', fst (xs ! mid), ty) \<and> 0 < mid \<and> mid \<le> leaf_size l \<and>
    fst (xs ! (mid - 1)) \<noteq> fst (xs ! mid) \<and> (ty = 0 \<longleftrightarrow> p < mid) \<and>
    (if p < mid then leaf_size nr' = leaf_size l + 1 - mid \<and> leaf_ok W nr' \<and> entries W nr' = drop mid xs
     else leaf_size nr' = leaf_size l - mid \<and>
       (\<exists>nr''. finish_insert_leaf W (p - mid) (p - mid) nr' = Inr nr'' \<and> leaf_ok W nr'' \<and> entries W nr'' = drop mid xs))"
proof -
  let ?n = "leaf_size l"
  have W: "8 \<le> W" "W \<le> 15" "?n \<le> W" using ok leaf_size_le by (auto simp: leaf_ok_def permuter_ok_def)
  have len: "length xs = Suc ?n" using ok p by (simp add: xs_def)
  have ks: "ins p (ikey0 ka) (map fst (entries W l)) ! i = fst (xs ! i)" if "i \<le> ?n" for i
  proof -
    have "ins p (ikey0 ka) (map fst (entries W l)) = map fst xs" by (simp add: xs_def map_ins)
    then show ?thesis using that len by simp
  qed
  have "\<exists>i \<le> ?n. \<exists>j \<le> ?n. ins p (ikey0 ka) (map fst (entries W l)) ! i \<noteq> ins p (ikey0 ka) (map fst (entries W l)) ! j"
    using diff ks by metis
  from split_mid_ok [OF ok full p this] obtain mid where mid: "split_mid W p ka l = Inr mid" "0 < mid" "mid \<le> ?n"
    and sep': "ins p (ikey0 ka) (map fst (entries W l)) ! (mid - 1) \<noteq> ins p (ikey0 ka) (map fst (entries W l)) ! mid"
    by blast
  have sep: "fst (xs ! (mid - 1)) \<noteq> fst (xs ! mid)" using sep' mid(3) ks [of mid] ks [of "mid - 1"] by simp
  from split_copy_ok [OF ok p mid(2,3) nr ka] obtain r pv where
    r: "for_each (split_copy_step mid p ka l) [mid..<?n + 1] (nr, value_from (lf_perm l) (mid - (if p < mid then 1 else 0))) = Inr (r, pv)"
    "arrays_ok W r" "\<And>y. mid + y \<le> ?n \<Longrightarrow> entry r y = xs ! (mid + y)"
    unfolding xs_def by blast
  define n where "n = ?n + 1 - mid"
  have n: "0 < n" "n \<le> W" "n = length xs - mid" "mid \<le> length xs" using mid W by (auto simp: n_def len)
  have entry: "entry r y = xs ! (mid + y)" if "mid + y < length xs" for y using r(3) that len by simp
  define x where "x = (if mid \<le> p then remove_to_back W (p - mid) (make_sorted W n) else make_sorted W n)"
  have key0: "lf_ikey0 r ! 0 = fst (xs ! mid)" "0 < length (lf_ikey0 r)"
    using r(3) [of 0] mid(3) fst_entry [of r 0] r(2) W by (auto simp: arrays_ok_def)
  let ?ty = "if mid \<le> p then 1 + (if mid = ?n then 1 else 0) else 0 :: nat"
  have res: "split_into W nr p ka l = Inr (r\<lparr>lf_perm := x\<rparr>, fst (xs ! mid), ?ty)"
    using locked full key0 mid(1) r(1) unfolding split_into_def Let_def by (simp add: x_def n_def)
  show ?thesis
  proof (cases "p < mid")
    case True
    then have x: "x = make_sorted W n" by (simp add: x_def)
    have perm: "permuter_ok W x" unfolding x using n W by (intro permuter_ok_make_sorted)
    have sz: "kp_size x = n" unfolding x using n(2) W by (simp add: kp_size_nib nib_make_sorted unat_of_nat)
    have es: "take n (elems W x) = [0..<n]" unfolding x using n(2) W by (simp add: elems_make_sorted)
    note right = entries_sorted [OF r(2) perm, of xs mid, folded n(3), OF sz n(4) es entry]
    show ?thesis using res mid(2,3) sep True right sz
      by (intro exI [of _ mid] exI [of _ "r\<lparr>lf_perm := x\<rparr>"] exI [of _ ?ty]) (simp add: leaf_size_def n_def)
  next
    case False
    then have x: "x = remove_to_back W (p - mid) (make_sorted W n)" by (simp add: x_def)
    have "p - mid < n" using False p mid by (simp add: n_def)
    note x' = remove_then_insert_back [OF this n(2) W(1,2), folded x]
    define y where "y = snd (insert_from_back W (p - mid) x)"
    have y: "permuter_ok W y" "kp_size y = n" "take n (elems W y) = [0..<n]"
      using insert_from_back_ok [OF x'(1), of "p - mid"] x'(2,4) n \<open>p - mid < n\<close> by (auto simp: y_def)
    note right = entries_sorted [OF r(2) y(1), of xs mid, folded n(3), OF y(2) n(4) y(3) entry]
    have "finish_insert_leaf W (p - mid) (p - mid) (r\<lparr>lf_perm := x\<rparr>) = Inr (r\<lparr>lf_perm := y\<rparr>)"
      using x'(3) by (simp add: finish_insert_leaf_def y_def)
    with res mid(2,3) sep False right x'(2) show ?thesis
      by (intro exI [of _ mid] exI [of _ "r\<lparr>lf_perm := x\<rparr>"] exI [of _ ?ty]) (simp add: leaf_size_def n_def)
  qed
qed

lemma left_perm_ok:
  assumes "leaf_ok W l" and "m \<le> leaf_size l" and "m < W \<or> leaf_size l = W"
  defines "x \<equiv> if leaf_size l \<noteq> W then exchange m (W - 1) (set_size m (lf_perm l)) else set_size m (lf_perm l)"
  shows "permuter_ok W x" "kp_size x = m" "take m (elems W x) = take m (elems W (lf_perm l))"
proof -
  have perm: "permuter_ok W (lf_perm l)" and m: "m \<le> W" using assms(1,2) leaf_size_le by (auto simp: leaf_ok_def intro: le_trans)
  note s = set_size_ok [OF perm m]
  show "permuter_ok W x" "kp_size x = m" "take m (elems W x) = take m (elems W (lf_perm l))"
    using assms(3) s exchange_ok(1-3) [OF s(1), of m] by (auto simp: x_def)
qed

lemma take_drop_hd: "i < length xs \<Longrightarrow> drop i xs \<noteq> [] \<and> hd (drop i xs) = xs ! i"
  by (simp add: hd_drop_conv_nth)

lemma last_take: "0 < i \<Longrightarrow> i \<le> length xs \<Longrightarrow> take i xs \<noteq> [] \<and> last (take i xs) = xs ! (i - 1)"
  by (cases xs) (simp_all add: last_conv_nth min_def)

lemma split_leaf_cases:
  fixes ka :: key
  assumes ok: "leaf_ok W l" and full: "W - 1 \<le> leaf_size l" and i: "i \<le> leaf_size l" and nr: "arrays_ok W nr"
    and ka: "key_ok ka" and locked: "nv_locked (lf_version l)"
  defines "xs \<equiv> ins i (key_entry ka) (entries W l)"
  assumes diff: "\<exists>i \<le> leaf_size l. \<exists>j \<le> leaf_size l. fst (xs ! i) \<noteq> fst (xs ! j)"
  obtains mid r v x m where "0 < mid" "mid \<le> leaf_size l" "fst (xs ! (mid - 1)) \<noteq> fst (xs ! mid)"
    "m = (if i < mid then mid - 1 else mid)"
    "x = (if leaf_size l \<noteq> W then exchange m (W - 1) (set_size m (lf_perm l)) else set_size m (lf_perm l))"
    "if i < mid then leaf_ok W r \<and> entries W r = drop mid xs
     else \<exists>r''. finish_insert_leaf W (i - mid) (i - mid) r = Inr r'' \<and> leaf_ok W r'' \<and> entries W r'' = drop mid xs"
    "split_leaf W i ka nr l =
      (if i < mid then rbind (leaf_assign (kp_back W x) ka (l\<lparr>lf_version := v, lf_perm := x\<rparr>)) (\<lambda>l.
        Inr \<lparr>cu_i = i, cu_p = kp_back W x, cu_left = l, cu_new = Some (r, fst (xs ! mid)), cu_right = False\<rparr>)
      else Inr \<lparr>cu_i = i - mid, cu_p = i - mid, cu_left = l\<lparr>lf_version := v, lf_perm := x\<rparr>,
        cu_new = Some (r, fst (xs ! mid)), cu_right = True\<rparr>)"
proof -
  let ?n = "leaf_size l"
  have nr': "arrays_ok W (nr\<lparr>lf_version := lf_version l\<rparr>)" "nv_locked (lf_version (nr\<lparr>lf_version := lf_version l\<rparr>))"
    using nr locked by (simp_all add: arrays_ok_def)
  obtain mid r ty where s: "split_into W (nr\<lparr>lf_version := lf_version l\<rparr>) i ka l = Inr (r, fst (xs ! mid), ty)"
    and mid: "0 < mid" "mid \<le> ?n" "fst (xs ! (mid - 1)) \<noteq> fst (xs ! mid)" and ty: "ty = 0 \<longleftrightarrow> i < mid"
    and right: "if i < mid then leaf_size r = ?n + 1 - mid \<and> leaf_ok W r \<and> entries W r = drop mid xs
     else leaf_size r = ?n - mid \<and>
       (\<exists>r''. finish_insert_leaf W (i - mid) (i - mid) r = Inr r'' \<and> leaf_ok W r'' \<and> entries W r'' = drop mid xs)"
    using split_into_ok [OF ok full i nr'(1) ka locked nr'(2) diff [unfolded xs_def]] unfolding xs_def by blast
  obtain v where v: "mark_split (lf_version l) = Inr v" using locked by (simp add: mark_split_def)
  define m where "m = ?n - leaf_size r"
  have m: "m = (if i < mid then mid - 1 else mid)" using right mid by (auto simp: m_def split: if_splits)
  define x where "x = (if ?n \<noteq> W then exchange m (W - 1) (set_size m (lf_perm l)) else set_size m (lf_perm l))"
  have mW: "m \<le> ?n" "m < W \<or> ?n = W" using m mid leaf_size_le [OF ok] by (auto split: if_splits)
  have sz: "kp_size (set_size m (lf_perm l)) = m"
    using ok mW(1) leaf_size_le [OF ok] by (intro set_size_ok(2) [of W]) (auto simp: leaf_ok_def)
  have run: "split_leaf W i ka nr l = (if ty = 0 then rbind (leaf_assign (kp_back W x) ka (l\<lparr>lf_version := v, lf_perm := x\<rparr>)) (\<lambda>l.
        Inr \<lparr>cu_i = i, cu_p = kp_back W x, cu_left = l, cu_new = Some (r, fst (xs ! mid)), cu_right = False\<rparr>)
      else Inr \<lparr>cu_i = i - m, cu_p = i - m, cu_left = l\<lparr>lf_version := v, lf_perm := x\<rparr>, cu_new = Some (r, fst (xs ! mid)), cu_right = True\<rparr>)"
    unfolding split_leaf_def s rbind_simps prod.case Let_def leaf_size_def [symmetric] m_def [symmetric] sz x_def [symmetric]
    using v left_perm_ok(2) [OF ok mW, folded x_def] by simp
  show thesis
    by (rule that [OF mid m x_def, of r v]) (use right run ty m in \<open>auto split: if_splits\<close>)
qed

lemma split_leaf_ok:
  fixes ka :: key
  assumes ok: "leaf_ok W l" and full: "W - 1 \<le> leaf_size l" and i: "i \<le> leaf_size l" and nr: "arrays_ok W nr"
    and ka: "key_ok ka" and locked: "nv_locked (lf_version l)"
  defines "xs \<equiv> ins i (key_entry ka) (entries W l)"
  assumes diff: "\<exists>i \<le> leaf_size l. \<exists>j \<le> leaf_size l. fst (xs ! i) \<noteq> fst (xs ! j)"
  shows "\<exists>c c'. split_leaf W i ka nr l = Inr c \<and> finish_insert W c = Inr c' \<and> insert_done W xs c'"
proof -
  let ?n = "leaf_size l"
  have len: "length xs = Suc ?n" using ok i by (simp add: xs_def)
  obtain mid r v x m where mid: "0 < mid" "mid \<le> ?n" and sep: "fst (xs ! (mid - 1)) \<noteq> fst (xs ! mid)"
    and m: "m = (if i < mid then mid - 1 else mid)"
    and x: "x = (if ?n \<noteq> W then exchange m (W - 1) (set_size m (lf_perm l)) else set_size m (lf_perm l))"
    and right: "if i < mid then leaf_ok W r \<and> entries W r = drop mid xs
     else \<exists>r''. finish_insert_leaf W (i - mid) (i - mid) r = Inr r'' \<and> leaf_ok W r'' \<and> entries W r'' = drop mid xs"
    and run: "split_leaf W i ka nr l =
      (if i < mid then rbind (leaf_assign (kp_back W x) ka (l\<lparr>lf_version := v, lf_perm := x\<rparr>)) (\<lambda>l.
        Inr \<lparr>cu_i = i, cu_p = kp_back W x, cu_left = l, cu_new = Some (r, fst (xs ! mid)), cu_right = False\<rparr>)
      else Inr \<lparr>cu_i = i - mid, cu_p = i - mid, cu_left = l\<lparr>lf_version := v, lf_perm := x\<rparr>,
        cu_new = Some (r, fst (xs ! mid)), cu_right = True\<rparr>)"
    unfolding xs_def by (rule split_leaf_cases [OF ok full i nr ka locked diff [unfolded xs_def]])
  have mW: "m \<le> ?n" "m < W \<or> ?n = W" using m mid leaf_size_le [OF ok] by (auto split: if_splits)
  note perm = left_perm_ok [OF ok mW, folded x]
  note left = entries_reperm [OF ok perm(1,2) mW(1) perm(3), of v]
  let ?l = "l\<lparr>lf_version := v, lf_perm := x\<rparr>"
  have ends: "drop mid xs \<noteq> []" "hd (drop mid xs) = xs ! mid" "take mid xs \<noteq> []" "last (take mid xs) = xs ! (mid - 1)"
    using mid len take_drop_hd [of mid xs] last_take [of mid xs] by auto
  show ?thesis
  proof (cases "i < mid")
    case True
    have sz: "leaf_size ?l = mid - 1" using perm(2) m True by (simp add: leaf_size_def)
    have room: "mid - 1 < W" "i \<le> mid - 1" using True mid leaf_size_le [OF ok] by auto
    obtain l' l'' where l': "leaf_assign (kp_back W x) ka ?l = Inr l'" "finish_insert_leaf W i (kp_back W x) l' = Inr l''"
      "leaf_ok W l''" "entries W l'' = ins i (key_entry ka) (entries W ?l)"
      using insert_free_ok [OF left(1) _ _ ka, of i] sz room by (simp add: leaf_size_def) blast
    have "take mid xs = ins i (key_entry ka) (take (mid - 1) (entries W l))"
      unfolding xs_def using True mid ok i by (intro take_ins_beyond) simp_all
    then have l'': "entries W l'' = take mid xs" using l'(4) left(2) m True by simp
    have "finish_insert W \<lparr>cu_i = i, cu_p = kp_back W x, cu_left = l', cu_new = Some (r, fst (xs ! mid)), cu_right = False\<rparr> =
        Inr \<lparr>cu_i = i, cu_p = kp_back W x, cu_left = l'', cu_new = Some (r, fst (xs ! mid)), cu_right = False\<rparr>"
      using l'(2) by (simp add: finish_insert_def)
    moreover have "insert_done W xs \<lparr>cu_i = i, cu_p = kp_back W x, cu_left = l'', cu_new = Some (r, fst (xs ! mid)), cu_right = False\<rparr>"
      using True right l'(3) ends sep unfolding insert_done_def cursor.simps option.case prod.case l'' by simp
    ultimately show ?thesis using run True l'(1) by simp
  next
    case False
    then obtain r'' where r'': "finish_insert_leaf W (i - mid) (i - mid) r = Inr r''" "leaf_ok W r''" "entries W r'' = drop mid xs"
      using right by auto
    have "take mid xs = take mid (entries W l)" unfolding xs_def using False ok i by (intro take_ins) simp_all
    then have "entries W ?l = take mid xs" using left(2) m False by simp
    with run False r'' left(1) ends sep show ?thesis by (auto simp: finish_insert_def insert_done_def)
  qed
qed

text \<open>
  A leaf holds, for one slice, at most one key of each length from 0 to 8 and one slot for all longer
  keys (with a suffix, or with a next layer).  So more than ten keys never have all the same slice.
\<close>

definition slot_id :: "'v lentry \<Rightarrow> u64 \<times> nat" where
  "slot_id e = (fst e, min 9 (fst (snd e)))"

lemma slices_differ:
  assumes "distinct (map slot_id xs)" and "10 < length xs"
  shows "\<exists>i < length xs. \<exists>j < length xs. fst (xs ! i) \<noteq> fst (xs ! j)"
proof (rule ccontr)
  assume no: "\<not> ?thesis"
  have "set (map slot_id xs) \<subseteq> {fst (xs ! 0)} \<times> {0..9}"
  proof
    fix y
    assume "y \<in> set (map slot_id xs)"
    then obtain i where "i < length xs" "y = slot_id (xs ! i)" by (auto simp: in_set_conv_nth)
    moreover have "0 < length xs" using assms(2) by (rule le_less_trans [rotated]) simp
    with no \<open>i < length xs\<close> have "fst (xs ! i) = fst (xs ! 0)" by blast
    ultimately show "y \<in> {fst (xs ! 0)} \<times> {0..9}" by (simp add: slot_id_def)
  qed
  then have "card (set (map slot_id xs)) \<le> card ({fst (xs ! 0)} \<times> {0..9 :: nat})" by (intro card_mono) auto
  with assms distinct_card [OF assms(1)] show False by simp
qed

lemma split_only_if_full:
  assumes "leaf_ok W l" and free: "leaf_size l < W \<Longrightarrow> kp_back W (lf_perm l) = 0"
    and no: "leaf_size l < W \<Longrightarrow> kp_back W (exchange (leaf_size l) (W - 1) (lf_perm l)) = 0"
  shows "W - 1 \<le> leaf_size l"
proof (rule ccontr)
  let ?n = "leaf_size l"
  have perm: "permuter_ok W (lf_perm l)" using assms(1) by (simp add: leaf_ok_def)
  assume *: "\<not> W - 1 \<le> ?n"
  then have "elt (lf_perm l) ?n = 0" using no exchange_ok(4) [OF perm, of ?n] by simp
  moreover have "elt (lf_perm l) (W - 1) = 0" using free * by (simp add: kp_back_def)
  ultimately have "elems W (lf_perm l) ! ?n = elems W (lf_perm l) ! (W - 1)" using * by (simp add: elt_nib)
  with * perm show False by (subst (asm) nth_eq_iff_index_eq) (auto simp: permuter_ok_def)
qed

lemma make_split_ok:
  fixes ka :: key
  assumes ok: "leaf_ok W l" and "11 \<le> W" and i: "i \<le> leaf_size l" and nr: "arrays_ok W nr"
    and ka: "key_ok ka" and locked: "nv_locked (lf_version l)"
    and last: "leaf_size l < W \<Longrightarrow> kp_back W (lf_perm l) = 0"
  defines "xs \<equiv> ins i (key_entry ka) (entries W l)"
  assumes ids: "distinct (map slot_id xs)"
  shows "\<exists>c c'. make_split W i ka nr l = Inr c \<and> finish_insert W c = Inr c' \<and> insert_done W xs c'"
proof -
  let ?n = "leaf_size l" and ?x = "exchange (leaf_size l) (W - 1) (lf_perm l)"
  have perm: "permuter_ok W (lf_perm l)" using ok by (simp add: leaf_ok_def)
  show ?thesis
  proof (cases "?n < W \<and> kp_back W ?x \<noteq> 0")
    case True
    note x = exchange_ok [OF perm, of ?n]
    have "leaf_ok W (l\<lparr>lf_version := lf_version l, lf_perm := ?x\<rparr>)"
      "entries W (l\<lparr>lf_version := lf_version l, lf_perm := ?x\<rparr>) = take ?n (entries W l)"
      by (rule entries_reperm [OF ok, where n = ?n]; use True x in \<open>simp add: leaf_size_def\<close>)+
    then have l: "leaf_ok W (l\<lparr>lf_perm := ?x\<rparr>)" "entries W (l\<lparr>lf_perm := ?x\<rparr>) = entries W l" using ok by simp_all
    have sz: "leaf_size (l\<lparr>lf_perm := ?x\<rparr>) = ?n" using x(2) True by (simp add: leaf_size_def)
    from insert_free_ok [OF l(1), of i ka] sz True i ka l(2) show ?thesis
      unfolding make_split_def Let_def xs_def by (auto simp: leaf_size_def [symmetric] finish_insert_def insert_done_def)
  next
    case False
    have full: "W - 1 \<le> ?n" by (rule split_only_if_full [OF ok last]) (use False in auto)
    have "length xs = Suc ?n" using ok i by (simp add: xs_def)
    with slices_differ [OF ids] full assms(2) have "\<exists>i \<le> ?n. \<exists>j \<le> ?n. fst (xs ! i) \<noteq> fst (xs ! j)"
      by (auto simp: less_Suc_eq_le)
    from split_leaf_ok [OF ok full i nr ka locked this [unfolded xs_def]] False show ?thesis
      unfolding make_split_def Let_def xs_def leaf_size_def [symmetric] by auto
  qed
qed

lemma find_insert_cases:
  assumes "leaf_ok W l" and "nv_locked (lf_version l)"
    and "lf_modstate l = modstate_insert \<or> lf_modstate l = modstate_remove"
  obtains l1 where "leaf_ok W l1" "leaf_size l1 = leaf_size l" "nv_locked (lf_version l1)" "entries W l1 = entries W l"
    "lf_perm l1 = lf_perm l" "lf_prev l1 = lf_prev l" "lf_ikey0 l1 = lf_ikey0 l"
    "find_insert W i ka nr l =
      (if leaf_size l < W \<and> (kp_back W (lf_perm l) \<noteq> 0 \<or> lf_prev l = None \<or> lf_ikey0 l ! 0 = ikey0 ka) then
        rbind (leaf_assign (kp_back W (lf_perm l)) ka l1) (\<lambda>l'.
        Inr \<lparr>cu_i = i, cu_p = kp_back W (lf_perm l), cu_left = l', cu_new = None, cu_right = False\<rparr>)
      else make_split W i ka nr l1)"
proof -
  obtain v where v: "mark_insert (lf_version l) = Inr v" "nv_locked v"
    using assms(2) by (simp add: mark_insert_def nv_locked_def bit_or_iff)
  define l1 where "l1 = (if lf_modstate l \<noteq> modstate_insert then l\<lparr>lf_version := v, lf_modstate := modstate_insert\<rparr> else l)"
  have run: "(if lf_modstate l \<noteq> modstate_insert then
      rbind (rassert (lf_modstate l = modstate_remove)) (\<lambda>_. rbind (mark_insert (lf_version l)) (\<lambda>v.
      Inr (l\<lparr>lf_version := v, lf_modstate := modstate_insert\<rparr>))) else Inr l) = Inr l1"
    using assms(3) v(1) by (auto simp: l1_def)
  have entry: "entry l1 = entry l" by (rule ext) (simp add: l1_def entry_def)
  have l1: "leaf_ok W l1" "leaf_size l1 = leaf_size l" "nv_locked (lf_version l1)" "entries W l1 = entries W l"
    "lf_perm l1 = lf_perm l" "lf_prev l1 = lf_prev l" "lf_ikey0 l1 = lf_ikey0 l"
    using assms(1,2) v(2) entry by (auto simp: l1_def leaf_ok_def arrays_ok_def leaf_size_def entries_def)
  have "0 < length (lf_ikey0 l)" using assms(1) by (auto simp: leaf_ok_def arrays_ok_def permuter_ok_def)
  then have reuse: "(if kp_back W (lf_perm l1) \<noteq> 0 \<or> lf_prev l1 = None then Inr True
      else rbind (ikey_bound l1) (\<lambda>b. Inr (b = ikey0 ka))) =
      Inr (kp_back W (lf_perm l) \<noteq> 0 \<or> lf_prev l = None \<or> lf_ikey0 l ! 0 = ikey0 ka)"
    by (auto simp: ikey_bound_def l1)
  have "find_insert W i ka nr l =
      (if leaf_size l < W \<and> (kp_back W (lf_perm l) \<noteq> 0 \<or> lf_prev l = None \<or> lf_ikey0 l ! 0 = ikey0 ka) then
        rbind (leaf_assign (kp_back W (lf_perm l)) ka l1) (\<lambda>l'.
        Inr \<lparr>cu_i = i, cu_p = kp_back W (lf_perm l), cu_left = l', cu_new = None, cu_right = False\<rparr>)
      else make_split W i ka nr l1)"
    unfolding find_insert_def run rbind_simps Let_def l1(2) l1(5) reuse [unfolded l1(5)] by simp
  with l1 show thesis by (rule that)
qed

text \<open>
  C13.  Inserting a key that is not in a leaf of at least eleven slots (the leaves have 15) always comes
  to an end, and leaves the entries of the leaf with the new one put in at the position of the key: in the
  same leaf, or in two leaves one after the other.  After a split neither is empty, the key that the
  parent gets is the first slice of the second one, and the last slice of the first one differs from it, so
  keys with the same slice stay together.  The slices and lengths of the keys have to differ, and
  the leaf has to be locked; the contents of the new leaf's arrays do not matter.
\<close>

theorem leaf_insert_correct:
  assumes "leaf_ok W l" and "11 \<le> W" and "i \<le> leaf_size l" and "arrays_ok W nr" and "key_ok ka"
    and "nv_locked (lf_version l)" and "lf_modstate l = modstate_insert \<or> lf_modstate l = modstate_remove"
    and "distinct (map slot_id (ins i (key_entry ka) (entries W l)))"
  shows "\<exists>c c'. find_insert W i ka nr l = Inr c \<and> finish_insert W c = Inr c' \<and>
    insert_done W (ins i (key_entry ka) (entries W l)) c'"
proof -
  let ?reuse = "leaf_size l < W \<and> (kp_back W (lf_perm l) \<noteq> 0 \<or> lf_prev l = None \<or> lf_ikey0 l ! 0 = ikey0 ka)"
  obtain l1 where l1: "leaf_ok W l1" "leaf_size l1 = leaf_size l" "nv_locked (lf_version l1)" "entries W l1 = entries W l"
    "lf_perm l1 = lf_perm l"
    and find: "find_insert W i ka nr l = (if ?reuse then rbind (leaf_assign (kp_back W (lf_perm l)) ka l1) (\<lambda>l'.
        Inr \<lparr>cu_i = i, cu_p = kp_back W (lf_perm l), cu_left = l', cu_new = None, cu_right = False\<rparr>)
      else make_split W i ka nr l1)"
    by (rule find_insert_cases [OF assms(1,6,7)])
  show ?thesis
  proof (cases ?reuse)
    case True
    with insert_free_ok [OF l1(1), of i ka] assms(3,5) l1(2,4,5) show ?thesis
      unfolding trans [OF find if_P [OF True]] by (auto simp: finish_insert_def insert_done_def)
  next
    case False
    then have "leaf_size l1 < W \<Longrightarrow> kp_back W (lf_perm l1) = 0" using l1(2,5) by simp
    with make_split_ok [OF l1(1) assms(2) _ assms(4,5) l1(3)] assms(3,8) l1(2,4) show ?thesis
      unfolding trans [OF find if_not_P [OF False]] by simp
  qed
qed

text \<open>A full leaf of eleven slots, and a key that goes to its middle.\<close>

definition demo_leaf :: "nat \<Rightarrow> u64 \<Rightarrow> unit leaf" where
  "demo_leaf W step = \<lparr>lf_version = 1, lf_modstate = modstate_remove, lf_keylenx = [0..<W], lf_perm = make_sorted W W,
     lf_ikey0 = map (\<lambda>j. step * word_of_nat j) [0..<W], lf_lv = replicate W (Some ()), lf_ksuf = replicate W [],
     lf_next = None, lf_prev = Some 7\<rparr>"

definition demo_key :: "u64 \<Rightarrow> key" where
  "demo_key x = \<lparr>ikey0 = x, klen = 8, kbuf = [], koff = 0\<rparr>"

lemma demo_leaf_ok:
  assumes "8 \<le> W" and "W \<le> 15"
  shows "leaf_ok W (demo_leaf W step)" "arrays_ok W (demo_leaf W step)" "leaf_size (demo_leaf W step) = W"
    "nv_locked (lf_version (demo_leaf W step))"
    "map fst (entries W (demo_leaf W step)) = map (\<lambda>j. step * word_of_nat j) [0..<W]"
    "map (fst \<circ> snd) (entries W (demo_leaf W step)) = [0..<W]"
proof -
  let ?l = "demo_leaf W step"
  have es: "elems W (make_sorted W W) = [0..<W]" using assms by (simp add: elems_make_sorted)
  show arr: "arrays_ok W ?l" by (simp add: arrays_ok_def demo_leaf_def)
  show ok: "leaf_ok W ?l" using arr assms permuter_ok_make_sorted [of W W] by (simp add: leaf_ok_def demo_leaf_def)
  show sz: "leaf_size ?l = W" using assms by (simp add: leaf_size_def demo_leaf_def kp_size_nib nib_make_sorted unat_of_nat)
  show "nv_locked (lf_version ?l)" by (simp add: demo_leaf_def nv_locked_def)
  have "entries W ?l = map (entry ?l) [0..<W]" unfolding entries_def sz using es by (simp add: demo_leaf_def)
  then show "map fst (entries W ?l) = map (\<lambda>j. step * word_of_nat j) [0..<W]"
    "map (fst \<circ> snd) (entries W ?l) = [0..<W]"
    by (auto simp: entry_def demo_leaf_def intro: nth_equalityI)
qed

lemma demo_key_ok: "key_ok (demo_key x)" "fst (key_entry (demo_key x)) = x"
  by (simp_all add: key_ok_def demo_key_def has_suffix_def ikey_size_def)

lemma demo_slices:
  "map fst (ins 5 (key_entry (demo_key 45)) (entries 11 (demo_leaf 11 10))) = [0, 10, 20, 30, 40, 45, 50, 60, 70, 80, 90, 100]"
proof -
  have upt: "[0..<11] = [0, 1, 2, 3, 4, 5, 6, 7, 8, 9, 10 :: nat]" by code_simp
  show ?thesis
    by (simp add: map_ins demo_leaf_ok demo_key_ok del: fst_key_entry) (simp add: upt ins_def)
qed

lemma demo_ids: "distinct (map slot_id (ins 5 (key_entry (demo_key 45)) (entries 11 (demo_leaf 11 10))))"
proof -
  let ?xs = "ins 5 (key_entry (demo_key 45)) (entries 11 (demo_leaf 11 10))"
  have "map fst (map slot_id ?xs) = map fst ?xs" by (simp add: slot_id_def)
  then have "distinct (map fst (map slot_id ?xs))" unfolding demo_slices by simp
  then show ?thesis by (simp only: distinct_map)
qed

theorem leaf_insert_correct_witness:
  "\<exists>c c'. find_insert 11 5 (demo_key 45) (demo_leaf 11 0) (demo_leaf 11 10) = Inr c \<and> finish_insert 11 c = Inr c' \<and>
    insert_done 11 (ins 5 (key_entry (demo_key 45)) (entries 11 (demo_leaf 11 10))) c'"
  by (rule leaf_insert_correct) (simp_all add: demo_leaf_ok demo_key_ok demo_ids, simp add: demo_leaf_def)

section \<open>The bound of a leaf\<close>

lemma leaf_assign_ikey0: "leaf_assign p ka l = Inr l' \<Longrightarrow> lf_ikey0 l' = (lf_ikey0 l)[p := ikey0 ka]"
  by (auto simp: leaf_assign_def vec_put_def assign_ksuf_def Let_def rbind_eq_Inr_iff split: if_splits)

lemma finish_insert_ikey0: "finish_insert W c = Inr c' \<Longrightarrow> lf_ikey0 (cu_left c') = lf_ikey0 (cu_left c)"
  by (auto simp: finish_insert_def finish_insert_leaf_def rbind_eq_Inr_iff split: if_splits option.splits prod.splits)

lemma nth_list_update': "xs[p := x] ! 0 = (if p = 0 \<and> xs \<noteq> [] then x else xs ! 0)"
  by (cases xs; cases p) simp_all

lemma sorted_equal:
  fixes b :: "'a :: linorder"
  assumes "sorted xs" and "\<forall>x \<in> set xs. b \<le> x" and "j < length xs" and "last xs = b"
  shows "xs ! j = b"
proof -
  have "xs \<noteq> []" using assms(3) by auto
  then have "xs ! j \<le> last xs" using assms(1,3) by (auto simp: last_conv_nth intro!: sorted_nth_mono)
  then show ?thesis using assms(2,4) nth_mem [OF assms(3)] by auto
qed

lemma split_keeps_slot_0:
  fixes ka :: key
  assumes ok: "leaf_ok W l" and i: "i \<le> leaf_size l" and i_mid: "i < mid" and mid: "0 < mid" "mid \<le> leaf_size l"
    and free: "leaf_size l < W \<Longrightarrow> kp_back W (lf_perm l) = 0"
    and x: "x = (if leaf_size l \<noteq> W then exchange (mid - 1) (W - 1) (set_size (mid - 1) (lf_perm l)) else set_size (mid - 1) (lf_perm l))"
  defines "ks \<equiv> map fst (ins i (key_entry ka) (entries W l))"
  assumes sorted: "sorted ks" and bound: "\<forall>k \<in> set ks. lf_ikey0 l ! 0 \<le> k" and sep: "ks ! (mid - 1) \<noteq> ks ! mid"
  shows "kp_back W x \<noteq> 0"
proof
  let ?n = "leaf_size l" and ?es = "elems W (lf_perm l)"
  have perm: "permuter_ok W (lf_perm l)" and n: "?n \<le> W" and W: "8 \<le> W" "W \<le> 15"
    using ok leaf_size_le by (auto simp: leaf_ok_def permuter_ok_def)
  have m: "mid - 1 \<le> W" using mid n by simp
  note s = set_size_ok [OF perm m]
  have elt: "elt (set_size (mid - 1) (lf_perm l)) j = elt (lf_perm l) j" if "j < W" for j
    unfolding elt_nib using arg_cong [OF s(3), of "\<lambda>es. es ! j"] unfolding nth_elems [OF that] .
  assume 0: "kp_back W x = 0"
  show False
  proof (cases "?n = W")
    case False
    then have "elt (lf_perm l) (mid - 1) = 0"
      using 0 exchange_ok(4) [OF s(1), of "mid - 1"] elt [of "mid - 1"] mid n by (simp add: x)
    moreover have "elt (lf_perm l) (W - 1) = 0" using free False n by (simp add: kp_back_def)
    ultimately have "?es ! (mid - 1) = ?es ! (W - 1)" using mid n W by (simp add: elt_nib)
    moreover have "mid - 1 < W - 1" "mid - 1 < W" using mid False n by simp_all
    ultimately show False using perm nth_eq_iff_index_eq [of ?es "mid - 1" "W - 1"] by (simp add: permuter_ok_def)
  next
    case True
    have len: "length ks = Suc ?n" using ok i by (simp add: ks_def)
    have "elt (lf_perm l) (W - 1) = 0" using 0 True elt [of "W - 1"] W by (simp add: x kp_back_def)
    then have "fst (entries W l ! (W - 1)) = lf_ikey0 l ! 0" using nth_entries [OF ok, of "W - 1"] True W by simp
    moreover have "last ks = fst (entries W l ! (W - 1))"
    proof -
      have "ks \<noteq> []" using len by auto
      then have "last ks = ks ! W" using len True by (simp add: last_conv_nth)
      also have "\<dots> = fst (ins i (key_entry ka) (entries W l) ! W)" using len True by (simp add: ks_def)
      also have "\<dots> = fst (entries W l ! (W - 1))" using ok i i_mid mid True by (simp add: nth_ins)
      finally show ?thesis .
    qed
    ultimately have "last ks = lf_ikey0 l ! 0" by simp
    from sorted_equal [OF sorted bound _ this] sep len mid show False by simp
  qed
qed

lemma make_split_bound:
  fixes ka :: key
  assumes ok: "leaf_ok W l" and "11 \<le> W" and i: "i \<le> leaf_size l" and nr: "arrays_ok W nr"
    and ka: "key_ok ka" and locked: "nv_locked (lf_version l)"
    and free: "leaf_size l < W \<Longrightarrow> kp_back W (lf_perm l) = 0"
  defines "xs \<equiv> ins i (key_entry ka) (entries W l)"
  assumes ids: "distinct (map slot_id xs)" and sorted: "sorted (map fst xs)" and bound: "\<forall>k \<in> set (map fst xs). lf_ikey0 l ! 0 \<le> k"
    and c: "make_split W i ka nr l = Inr c"
  shows "\<exists>p. lf_ikey0 (cu_left c) = lf_ikey0 l \<or> p \<noteq> 0 \<and> lf_ikey0 (cu_left c) = (lf_ikey0 l)[p := ikey0 ka]"
proof (cases "leaf_size l < W \<and> kp_back W (exchange (leaf_size l) (W - 1) (lf_perm l)) \<noteq> 0")
  case True
  let ?x = "exchange (leaf_size l) (W - 1) (lf_perm l)"
  obtain l' where "leaf_assign (kp_back W ?x) ka (l\<lparr>lf_perm := ?x\<rparr>) = Inr l'" "cu_left c = l'"
    using c True unfolding make_split_def Let_def leaf_size_def [symmetric] by (auto simp: rbind_eq_Inr_iff)
  from leaf_assign_ikey0 [OF this(1)] this(2) True show ?thesis by (intro exI [of _ "kp_back W ?x"]) simp
next
  case False
  have full: "W - 1 \<le> leaf_size l" by (rule split_only_if_full [OF ok free]) (use False in auto)
  have len: "length xs = Suc (leaf_size l)" using ok i by (simp add: xs_def)
  with slices_differ [OF ids] full assms(2) have diff: "\<exists>i \<le> leaf_size l. \<exists>j \<le> leaf_size l. fst (xs ! i) \<noteq> fst (xs ! j)"
    by (auto simp: less_Suc_eq_le)
  obtain mid r v x m where mid: "0 < mid" "mid \<le> leaf_size l" "fst (xs ! (mid - 1)) \<noteq> fst (xs ! mid)"
    and m: "m = (if i < mid then mid - 1 else mid)"
    and x: "x = (if leaf_size l \<noteq> W then exchange m (W - 1) (set_size m (lf_perm l)) else set_size m (lf_perm l))"
    and run: "split_leaf W i ka nr l =
      (if i < mid then rbind (leaf_assign (kp_back W x) ka (l\<lparr>lf_version := v, lf_perm := x\<rparr>)) (\<lambda>l.
        Inr \<lparr>cu_i = i, cu_p = kp_back W x, cu_left = l, cu_new = Some (r, fst (xs ! mid)), cu_right = False\<rparr>)
      else Inr \<lparr>cu_i = i - mid, cu_p = i - mid, cu_left = l\<lparr>lf_version := v, lf_perm := x\<rparr>,
        cu_new = Some (r, fst (xs ! mid)), cu_right = True\<rparr>)"
    unfolding xs_def by (rule split_leaf_cases [OF ok full i nr ka locked diff [unfolded xs_def]])
  have split: "split_leaf W i ka nr l = Inr c"
    using c False unfolding make_split_def Let_def leaf_size_def [symmetric] by (auto split: if_splits)
  show ?thesis
  proof (cases "i < mid")
    case True
    have "kp_back W x \<noteq> 0"
    proof (rule split_keeps_slot_0 [OF ok i True mid(1,2) free _ sorted [unfolded xs_def] bound [unfolded xs_def]])
      show "x = (if leaf_size l \<noteq> W then exchange (mid - 1) (W - 1) (set_size (mid - 1) (lf_perm l)) else set_size (mid - 1) (lf_perm l))"
        using x m True by simp
      show "map fst (ins i (key_entry ka) (entries W l)) ! (mid - 1) \<noteq> map fst (ins i (key_entry ka) (entries W l)) ! mid"
        using mid len by (simp add: xs_def)
    qed
    moreover have "lf_ikey0 (cu_left c) = (lf_ikey0 l)[kp_back W x := ikey0 ka]"
      using split run True by (auto simp: rbind_eq_Inr_iff dest!: leaf_assign_ikey0)
    ultimately show ?thesis by blast
  next
    case False
    with split run show ?thesis by auto
  qed
qed

text \<open>
  The slice in slot 0 is the lower bound of a leaf, by which a reader that walks along the leaves
  decides whether a key is in the next one.  In a leaf that has a predecessor, an insertion never changes it,
  not even when the key that was in slot 0 is gone and the slot is free, or when the leaf is split.
\<close>

theorem leaf_insert_keeps_bound:
  assumes "leaf_ok W l" and "11 \<le> W" and "i \<le> leaf_size l" and "arrays_ok W nr" and "key_ok ka"
    and "nv_locked (lf_version l)" and "lf_modstate l = modstate_insert \<or> lf_modstate l = modstate_remove"
    and "distinct (map slot_id (ins i (key_entry ka) (entries W l)))"
    and "lf_prev l \<noteq> None" and "sorted (map fst (ins i (key_entry ka) (entries W l)))"
    and "\<forall>k \<in> set (map fst (ins i (key_entry ka) (entries W l))). lf_ikey0 l ! 0 \<le> k"
    and "find_insert W i ka nr l = Inr c" and "finish_insert W c = Inr c'"
  shows "ikey_bound (cu_left c') = ikey_bound l"
proof -
  let ?reuse = "leaf_size l < W \<and> (kp_back W (lf_perm l) \<noteq> 0 \<or> lf_prev l = None \<or> lf_ikey0 l ! 0 = ikey0 ka)"
  obtain l1 where l1: "leaf_ok W l1" "leaf_size l1 = leaf_size l" "nv_locked (lf_version l1)" "entries W l1 = entries W l"
    "lf_perm l1 = lf_perm l" "lf_prev l1 = lf_prev l" "lf_ikey0 l1 = lf_ikey0 l"
    and find: "find_insert W i ka nr l = (if ?reuse then rbind (leaf_assign (kp_back W (lf_perm l)) ka l1) (\<lambda>l'.
        Inr \<lparr>cu_i = i, cu_p = kp_back W (lf_perm l), cu_left = l', cu_new = None, cu_right = False\<rparr>)
      else make_split W i ka nr l1)"
    by (rule find_insert_cases [OF assms(1,6,7)])
  have "\<exists>p. lf_ikey0 (cu_left c) = lf_ikey0 l \<or> (p \<noteq> 0 \<or> lf_ikey0 l ! 0 = ikey0 ka) \<and> lf_ikey0 (cu_left c) = (lf_ikey0 l)[p := ikey0 ka]"
  proof (cases ?reuse)
    case True
    obtain l' where "leaf_assign (kp_back W (lf_perm l)) ka l1 = Inr l'" "cu_left c = l'"
      using assms(12) unfolding trans [OF find if_P [OF True]] by (auto simp: rbind_eq_Inr_iff)
    from leaf_assign_ikey0 [OF this(1)] this(2) True assms(9) l1(7) show ?thesis
      by (intro exI [of _ "kp_back W (lf_perm l)"]) auto
  next
    case False
    then have "leaf_size l1 < W \<Longrightarrow> kp_back W (lf_perm l1) = 0" using l1(2,5) by simp
    moreover have "make_split W i ka nr l1 = Inr c" using assms(12) unfolding trans [OF find if_not_P [OF False]] .
    ultimately have "\<exists>p. lf_ikey0 (cu_left c) = lf_ikey0 l1 \<or> p \<noteq> 0 \<and> lf_ikey0 (cu_left c) = (lf_ikey0 l1)[p := ikey0 ka]"
      using assms(3,8,10,11) unfolding l1(2,4,7) [symmetric] by (intro make_split_bound [OF l1(1) assms(2) _ assms(4,5) l1(3)])
    then show ?thesis unfolding l1(7) by blast
  qed
  moreover have nonempty: "0 < length (lf_ikey0 l)" using assms(1,2) by (auto simp: leaf_ok_def arrays_ok_def)
  ultimately have "lf_ikey0 (cu_left c) ! 0 = lf_ikey0 l ! 0" "length (lf_ikey0 (cu_left c)) = length (lf_ikey0 l)"
    by (auto simp: nth_list_update' simp flip: length_greater_0_conv)
  then show ?thesis by (simp add: ikey_bound_def vec_at_def finish_insert_ikey0 [OF assms(13)])
qed

theorem leaf_insert_keeps_bound_witness:
  "\<exists>c c'. find_insert 11 5 (demo_key 45) (demo_leaf 11 0) (demo_leaf 11 10) = Inr c \<and> finish_insert 11 c = Inr c' \<and>
    ikey_bound (cu_left c') = Inr 0"
proof -
  let ?l = "demo_leaf 11 10"
  obtain l1 where l1: "leaf_ok 11 l1" "leaf_size l1 = 11" "nv_locked (lf_version l1)" "entries 11 l1 = entries 11 ?l"
    and find: "find_insert 11 5 (demo_key 45) (demo_leaf 11 0) ?l = make_split 11 5 (demo_key 45) (demo_leaf 11 0) l1"
    by (rule find_insert_cases [of 11 ?l 5 "demo_key 45" "demo_leaf 11 0"])
      (simp_all add: demo_leaf_ok, simp add: demo_leaf_def)
  obtain c c' where c: "find_insert 11 5 (demo_key 45) (demo_leaf 11 0) ?l = Inr c" "finish_insert 11 c = Inr c'"
    using make_split_ok [OF l1(1) _ _ demo_leaf_ok(2) demo_key_ok(1) l1(3), of 5 45 0] demo_ids l1(2,4) find by auto
  have "ikey_bound (cu_left c') = ikey_bound ?l"
    by (rule leaf_insert_keeps_bound [OF _ _ _ _ _ _ _ _ _ _ _ c])
      (simp_all only: demo_slices demo_ids, simp_all add: demo_leaf_ok demo_key_ok, simp_all add: demo_leaf_def)
  moreover have "ikey_bound ?l = Inr 0" by (simp add: ikey_bound_def demo_leaf_def)
  ultimately show ?thesis using c by auto
qed

section \<open>Leaves that cannot be split\<close>

lemma mid_loop_spins:
  assumes "\<And>i. i \<le> width \<Longrightarrow> key_at i = Inr k" and "midl \<le> int width"
  shows "mid_loop fuel key_at width k midl midr = Inl Spins"
  using assms(2)
proof (induction fuel arbitrary: midl midr)
  case (Suc fuel)
  have "mid_loop (Suc fuel) key_at width k midl midr = mid_loop fuel key_at width k (midl - 1) (midr + 1)"
    using assms(1) [of midr] assms(1) [of "nat midl"] Suc.prems by auto
  with Suc show ?case by simp
qed simp

text \<open>
  The search for the place to split has no end of its own: in a leaf whose keys and new key all have
  the same slice, it never stops, however long it runs, and neither does the split.  A leaf of
  fewer than eleven slots can be in this state.
\<close>

theorem equal_slices_split_never_ends:
  assumes "leaf_ok W l" and "W - 1 \<le> leaf_size l" and "p \<le> leaf_size l"
    and "nv_locked (lf_version l)" and "nv_locked (lf_version nr)"
    and "\<forall>k \<in> set (map fst (ins p (key_entry ka) (entries W l))). k = k0"
  shows "split_into W nr p ka l = Inl Spins \<and>
    (\<forall>fuel mid. mid \<le> leaf_size l \<longrightarrow>
      mid_loop fuel (\<lambda>i. ikey_after_insert (lf_perm l) i ka p l) (leaf_size l) k0 (int mid - 2) (mid + 1) = Inl Spins)"
proof -
  let ?n = "leaf_size l" and ?key_at = "\<lambda>i. ikey_after_insert (lf_perm l) i ka p l"
  have key_at: "?key_at i = Inr k0" if "i \<le> ?n" for i
  proof -
    have "map fst (ins p (key_entry ka) (entries W l)) ! i \<in> set (map fst (ins p (key_entry ka) (entries W l)))"
      using that assms(1,3) by (intro nth_mem) simp
    then show ?thesis
      using ikey_after_insert_ok [OF assms(1,3) that, of ka] assms(6) by (auto simp: map_ins)
  qed
  have spins: "mid_loop fuel ?key_at ?n k0 (int mid - 2) (mid + 1) = Inl Spins" if "mid \<le> ?n" for fuel mid
    by (rule mid_loop_spins [OF key_at]) (use that in auto)
  define mid where "mid = (if p = 0 \<and> lf_prev l = None then 1 else if p = ?n \<and> lf_next l = None then ?n else W div 2 + 1)"
  have "8 \<le> W" using assms(1) by (simp add: leaf_ok_def permuter_ok_def)
  then have mid: "mid \<le> ?n" "mid - 1 \<le> ?n" using assms(2) by (auto simp: mid_def)
  have "split_mid W p ka l = Inl Spins"
    unfolding split_mid_def Let_def mid_def [symmetric] key_at [OF mid(1)] key_at [OF mid(2)] rbind_simps if_P [OF refl]
      spins [OF mid(1)] ..
  then show ?thesis using assms(2,4,5) spins by (simp add: split_into_def Let_def)
qed

theorem equal_slices_split_never_ends_witness:
  "split_into 8 (demo_leaf 8 0) 8 (demo_key 0) (demo_leaf 8 0) = Inl Spins"
proof -
  have "fst (key_entry (demo_key 0)) = 0" by (simp add: demo_key_ok del: fst_key_entry)
  then have "set (map fst (ins 8 (key_entry (demo_key 0)) (entries 8 (demo_leaf 8 0)))) \<subseteq> {0}"
    by (auto simp: map_ins demo_leaf_ok ins_def take_map drop_map simp del: fst_key_entry dest: in_set_takeD in_set_dropD)
  then show ?thesis
    using equal_slices_split_never_ends [of 8 "demo_leaf 8 0" 8 "demo_leaf 8 0" "demo_key 0" 0]
    by (auto simp: demo_leaf_ok)
qed

end
