(* ===== verification/Masstree_Internode.thy ===== *)
theory Masstree_Internode
  imports Masstree_Leaf
begin

text \<open>
  The inner nodes of Masstree (\<^verbatim>\<open>internode\<close> in \<^verbatim>\<open>masstree/masstree_struct.hh\<close>), and the loop of
  \<^verbatim>\<open>make_split\<close> (\<^verbatim>\<open>masstree_split.hh\<close>) that enters the second half of a split node into its parent, splits
  the parent if it is full, and so on up to a new root.  Nodes are addresses in a heap; a node has a
  version word and a parent pointer, an inner node its keys and children too.  The arrays of a fresh inner
  node are null until they are written.  One thread runs: a lock held by another is \<open>Spins\<close>.

  The abstract view of a tree is its list of leaves with the separators between them.
\<close>

section \<open>Nodes\<close>

record inode =
  in_nkeys :: nat
  in_ikey0 :: "u64 list"
  in_child :: "nat option list"

record tree =
  tr_inode :: "nat \<rightharpoonup> inode"
  tr_parent :: "nat \<rightharpoonup> nat"
  tr_version :: "nat \<Rightarrow> u32"
  tr_next :: nat

definition node_at :: "nat \<Rightarrow> tree \<Rightarrow> inode result" where
  "node_at a t = (case tr_inode t a of None \<Rightarrow> Inl Out_Of_Bounds | Some n \<Rightarrow> Inr n)"

definition put_node :: "nat \<Rightarrow> inode \<Rightarrow> tree \<Rightarrow> tree" where
  "put_node a n t = t\<lparr>tr_inode := (tr_inode t)(a \<mapsto> n)\<rparr>"

definition put_version :: "nat \<Rightarrow> u32 \<Rightarrow> tree \<Rightarrow> tree" where
  "put_version a v t = t\<lparr>tr_version := (tr_version t)(a := v)\<rparr>"

definition set_parent :: "nat \<Rightarrow> nat option \<Rightarrow> tree \<Rightarrow> tree" where
  "set_parent a p t = t\<lparr>tr_parent := (tr_parent t)(a := p)\<rparr>"

definition make_layer_root :: "nat \<Rightarrow> tree \<Rightarrow> tree" where
  "make_layer_root a t = (let t = set_parent a None t in put_version a (mark_root (tr_version t a)) t)"

definition internode_make :: "nat \<Rightarrow> tree \<Rightarrow> nat \<times> tree" where
  "internode_make W t = (let a = tr_next t;
       t = put_node a \<lparr>in_nkeys = 0, in_ikey0 = replicate W 0, in_child = replicate (W + 1) None\<rparr> t
     in (a, set_parent a None (put_version a (nodeversion False) (t\<lparr>tr_next := a + 1\<rparr>))))"

definition internode_compare_key :: "u64 \<Rightarrow> inode \<Rightarrow> nat \<Rightarrow> int" where
  "internode_compare_key a n bp = (if a < in_ikey0 n ! bp then - 1 else if a = in_ikey0 n ! bp then 0 else 1)"

definition internode_upper :: "nat \<Rightarrow> u64 \<Rightarrow> inode \<Rightarrow> nat" where
  "internode_upper W a n = key_bound_upper W (internode_compare_key a n) [0..<in_nkeys n]"

definition mem_move :: "'a list \<Rightarrow> nat \<Rightarrow> 'a list \<Rightarrow> nat \<Rightarrow> nat \<Rightarrow> 'a list result" where
  "mem_move dst p src xp n =
     (if n = 0 then Inr dst
      else if p + n \<le> length dst \<and> xp + n \<le> length src then Inr (take p dst @ take n (drop xp src) @ drop (p + n) dst)
      else Inl Out_Of_Bounds)"

definition internode_put :: "nat \<Rightarrow> u64 \<Rightarrow> nat \<Rightarrow> inode \<Rightarrow> inode result" where
  "internode_put p ikey child n = rbind (vec_put (in_child n) (p + 1) (Some child)) (\<lambda>cs.
     rbind (vec_put (in_ikey0 n) p ikey) (\<lambda>ks. Inr (n\<lparr>in_child := cs, in_ikey0 := ks\<rparr>)))"

definition internode_assign :: "nat \<Rightarrow> nat \<Rightarrow> u64 \<Rightarrow> nat \<Rightarrow> tree \<Rightarrow> tree result" where
  "internode_assign a p ikey child t = (let t = set_parent child (Some a) t
     in rbind (node_at a t) (\<lambda>n. rbind (internode_put p ikey child n) (\<lambda>n. Inr (put_node a n t))))"

definition shift_from :: "nat \<Rightarrow> inode \<Rightarrow> nat \<Rightarrow> nat \<Rightarrow> inode \<Rightarrow> inode result" where
  "shift_from p x xp k n =
     (if k = 0 then Inr n
      else rbind (mem_move (in_ikey0 n) p (in_ikey0 x) xp k) (\<lambda>ks.
        rbind (mem_move (in_child n) (p + 1) (in_child x) (xp + 1) k) (\<lambda>cs. Inr (n\<lparr>in_ikey0 := ks, in_child := cs\<rparr>))))"

primrec shift_up_loop :: "nat \<Rightarrow> nat \<Rightarrow> nat \<Rightarrow> 'a list \<Rightarrow> 'a list result" where
  "shift_up_loop p xp 0 cs = Inr cs"
| "shift_up_loop p xp (Suc k) cs =
     rbind (vec_at cs (xp + Suc k)) (\<lambda>b. rbind (vec_put cs (p + Suc k) b) (shift_up_loop p xp k))"

definition shift_up :: "nat \<Rightarrow> nat \<Rightarrow> nat \<Rightarrow> inode \<Rightarrow> inode result" where
  "shift_up p xp k n = rbind (mem_move (in_ikey0 n) p (in_ikey0 n) xp k) (\<lambda>ks.
     rbind (shift_up_loop p xp k (in_child n)) (\<lambda>cs. Inr (n\<lparr>in_ikey0 := ks, in_child := cs\<rparr>)))"

definition shift_down :: "nat \<Rightarrow> nat \<Rightarrow> nat \<Rightarrow> inode \<Rightarrow> inode result" where
  "shift_down p xp k n = rbind (mem_move (in_ikey0 n) p (in_ikey0 n) xp k) (\<lambda>ks.
     rbind (for_each (\<lambda>j cs. rbind (vec_at cs (xp + 1 + j)) (vec_put cs (p + 1 + j))) [0..<k] (in_child n)) (\<lambda>cs.
     Inr (n\<lparr>in_ikey0 := ks, in_child := cs\<rparr>)))"

section \<open>Splitting an inner node\<close>

text \<open>
  The arrays of the new node \<open>r\<close> of a split of \<open>n\<close>, and the key that goes up.  The three cases are those of
  \<^verbatim>\<open>internode::split_into\<close>.
\<close>

definition split_arrays :: "nat \<Rightarrow> nat \<Rightarrow> nat \<Rightarrow> u64 \<Rightarrow> nat \<Rightarrow> inode \<Rightarrow> inode \<Rightarrow> (inode \<times> u64) result" where
  "split_arrays W mid p ka value n r =
     (let r = r\<lparr>in_nkeys := W + 1 - (mid + 1)\<rparr>
      in if p < mid then
           rbind (vec_at (in_child n) mid) (\<lambda>c. rbind (vec_put (in_child r) 0 c) (\<lambda>cs.
           rbind (shift_from 0 n mid (W - mid) (r\<lparr>in_child := cs\<rparr>)) (\<lambda>r.
           rbind (vec_at (in_ikey0 n) (mid - 1)) (\<lambda>k. Inr (r, k)))))
         else if p = mid then
           rbind (vec_put (in_child r) 0 (Some value)) (\<lambda>cs.
           rbind (shift_from 0 n mid (W - mid) (r\<lparr>in_child := cs\<rparr>)) (\<lambda>r. Inr (r, ka)))
         else
           rbind (vec_at (in_child n) (mid + 1)) (\<lambda>c. rbind (vec_put (in_child r) 0 c) (\<lambda>cs.
           rbind (shift_from 0 n (mid + 1) (p - (mid + 1)) (r\<lparr>in_child := cs\<rparr>)) (\<lambda>r.
           rbind (internode_put (p - (mid + 1)) ka value r) (\<lambda>r.
           rbind (shift_from (p + 1 - (mid + 1)) n p (W - p) r) (\<lambda>r.
           rbind (vec_at (in_ikey0 n) mid) (\<lambda>k. Inr (r, k))))))))"

definition adopt :: "nat \<Rightarrow> inode \<Rightarrow> nat \<Rightarrow> tree \<Rightarrow> tree result" where
  "adopt a n i t = rbind (vec_at (in_child n) i) (\<lambda>c.
     case c of None \<Rightarrow> Inl Out_Of_Bounds | Some c \<Rightarrow> Inr (set_parent c (Some a) t))"

definition internode_split_into ::
    "nat \<Rightarrow> nat \<Rightarrow> nat \<Rightarrow> nat \<Rightarrow> u64 \<Rightarrow> nat \<Rightarrow> nat \<Rightarrow> tree \<Rightarrow> (tree \<times> u64 \<times> nat option) result" where
  "internode_split_into W a nr p ka value split_type t =
     rbind (rassert (nv_locked (tr_version t a) \<and> nv_locked (tr_version t nr))) (\<lambda>_.
     let mid = (if split_type = 2 then W else (W + 1) div 2)
     in rbind (node_at a t) (\<lambda>n. rbind (node_at nr t) (\<lambda>r.
        rbind (split_arrays W mid p ka value n r) (\<lambda>(r, split_ikey).
        rbind (for_each (adopt nr r) [0..<in_nkeys r + 1] (put_node nr r t)) (\<lambda>t.
        rbind (mark_split (tr_version t a)) (\<lambda>v. let t = put_version a v t
        in if p < mid then Inr (put_node a (n\<lparr>in_nkeys := mid - 1\<rparr>) t, split_ikey, Some p)
           else Inr (put_node a (n\<lparr>in_nkeys := mid\<rparr>) t, split_ikey, None)))))))"

section \<open>The way up\<close>

definition unlock_node :: "nat \<Rightarrow> tree \<Rightarrow> tree result" where
  "unlock_node a t = rbind (nv_unlock (tr_version t a) (tr_version t a)) (\<lambda>v. Inr (put_version a v t))"

definition locked_parent :: "nat \<Rightarrow> tree \<Rightarrow> (nat option \<times> tree) result" where
  "locked_parent n t = rbind (rassert (nv_locked (tr_version t n))) (\<lambda>_.
     case tr_parent t n of None \<Rightarrow> Inr (None, t)
     | Some p \<Rightarrow> (case nv_try_lock (tr_version t p) (tr_version t p) of None \<Rightarrow> Inl Spins
        | Some r \<Rightarrow> rbind r (\<lambda>v. rbind (rassert (\<not> nv_isleaf v)) (\<lambda>_. Inr (Some p, put_version p v t)))))"

definition new_layer_root :: "nat \<Rightarrow> nat \<Rightarrow> u64 \<Rightarrow> nat \<Rightarrow> tree \<Rightarrow> tree result" where
  "new_layer_root W n xikey child t = (let (nn, t) = internode_make W t
     in rbind (node_at nn t) (\<lambda>r. rbind (vec_put (in_child r) 0 (Some n)) (\<lambda>cs.
        rbind (internode_assign nn 0 xikey child (put_node nn (r\<lparr>in_child := cs\<rparr>) t)) (\<lambda>t.
        rbind (node_at nn t) (\<lambda>r.
        Inr (set_parent n (Some nn) (make_layer_root nn (put_node nn (r\<lparr>in_nkeys := 1\<rparr>) t))))))))"

text \<open>Entering \<open>child\<close> at position \<open>kp\<close> of a node that has room.\<close>

definition enter_child :: "nat \<Rightarrow> nat \<Rightarrow> u64 \<Rightarrow> nat \<Rightarrow> tree \<Rightarrow> tree result" where
  "enter_child p kp xikey child t = rbind (node_at p t) (\<lambda>n. rbind (shift_up (kp + 1) kp (in_nkeys n - kp) n) (\<lambda>n.
     rbind (internode_assign p kp xikey child (put_node p n t)) (\<lambda>t. rbind (node_at p t) (\<lambda>n.
     Inr (put_node p (n\<lparr>in_nkeys := in_nkeys n + 1\<rparr>) t)))))"

text \<open>
  One round of the loop, up to the unlocking: the tree, the parent, and the new sibling of the parent with
  its separator if the parent was split.
\<close>

definition enter_parent ::
    "nat \<Rightarrow> nat \<Rightarrow> nat \<Rightarrow> u64 \<Rightarrow> nat \<Rightarrow> tree \<Rightarrow> (tree \<times> nat option \<times> (nat \<times> u64) option) result" where
  "enter_parent W n child xikey split_type t =
     rbind (rassert (nv_locked (tr_version t n) \<and> nv_locked (tr_version t child) \<and>
       (nv_isleaf (tr_version t n) \<or> splitting (tr_version t n)))) (\<lambda>_.
     rbind (locked_parent n t) (\<lambda>(p, t). case p of
       None \<Rightarrow> rbind (new_layer_root W n xikey child t) (\<lambda>t. Inr (t, None, None))
     | Some p \<Rightarrow> rbind (node_at p t) (\<lambda>pn.
         let kp = internode_upper W xikey pn
         in if in_nkeys pn < W then
              rbind (mark_insert (tr_version t p)) (\<lambda>v.
              rbind (enter_child p kp xikey child (put_version p v t)) (\<lambda>t. Inr (t, Some p, None)))
            else
              let (nc, t) = internode_make W t;
                  t = put_version nc (mark_nonroot (tr_version t p)) t
              in rbind (internode_split_into W p nc kp xikey child split_type t) (\<lambda>(t, xikey', kp).
                 case kp of None \<Rightarrow> Inr (t, Some p, Some (nc, xikey'))
                 | Some kp \<Rightarrow> rbind (enter_child p kp xikey child t) (\<lambda>t. Inr (t, Some p, Some (nc, xikey')))))))"

text \<open>What the loop does to the version of a leaf; the rest of that part is \<open>split_leaf\<close> of \<open>Masstree_Leaf\<close>.\<close>

definition mark_leaf :: "nat \<Rightarrow> tree \<Rightarrow> tree result" where
  "mark_leaf n t = (if nv_isleaf (tr_version t n)
     then rbind (mark_split (tr_version t n)) (\<lambda>v. Inr (put_version n v t)) else Inr t)"

text \<open>
  The loop.  \<open>keep\<close> is the node that the cursor keeps locked.  Each round goes one level up, so the height of
  the tree plus one is enough fuel.
\<close>

fun split_up :: "nat \<Rightarrow> nat \<Rightarrow> nat \<Rightarrow> nat \<Rightarrow> nat \<Rightarrow> u64 \<Rightarrow> nat \<Rightarrow> tree \<Rightarrow> tree result" where
  "split_up 0 W keep n child xikey split_type t = Inl Spins"
| "split_up (Suc fuel) W keep n child xikey split_type t =
     rbind (enter_parent W n child xikey split_type t) (\<lambda>(t, p, next_child).
     rbind (mark_leaf n t) (\<lambda>t.
     rbind (if n \<noteq> keep then unlock_node n t else Inr t) (\<lambda>t.
     rbind (if child \<noteq> keep then unlock_node child t else Inr t) (\<lambda>t.
     case next_child of
       Some (nc, xikey) \<Rightarrow> (case p of None \<Rightarrow> Inl Out_Of_Bounds | Some p \<Rightarrow> split_up fuel W keep p nc xikey split_type t)
     | None \<Rightarrow> (case p of None \<Rightarrow> Inr t | Some p \<Rightarrow> unlock_node p t)))))"

section \<open>The way down\<close>

text \<open>
  \<^verbatim>\<open>reach_leaf\<close>: first up from a node that may be stale to the root, then down to the leaf.  With one thread no
  version changes between two looks at it, so the code for that case is left out; a node that a writer
  has marked, or a null child, makes the search wait.
\<close>

fun reach_root :: "nat \<Rightarrow> tree \<Rightarrow> nat \<Rightarrow> (nat \<times> u32) result" where
  "reach_root 0 t n = Inl Spins"
| "reach_root (Suc fuel) t n = (case nv_stable (tr_version t n) of None \<Rightarrow> Inl Spins
     | Some v \<Rightarrow> if is_root v then Inr (n, v)
       else reach_root fuel t (case tr_parent t n of None \<Rightarrow> n | Some p \<Rightarrow> p))"

fun reach_down :: "nat \<Rightarrow> nat \<Rightarrow> u64 \<Rightarrow> tree \<Rightarrow> nat \<Rightarrow> u32 \<Rightarrow> (nat \<times> u32) result" where
  "reach_down 0 W ka t n v = Inl Spins"
| "reach_down (Suc fuel) W ka t n v =
     (if nv_isleaf v then Inr (n, v)
      else rbind (node_at n t) (\<lambda>m. rbind (vec_at (in_child m) (internode_upper W ka m)) (\<lambda>c. case c of None \<Rightarrow> Inl Spins
        | Some c \<Rightarrow> (case nv_stable (tr_version t c) of None \<Rightarrow> Inl Spins | Some v \<Rightarrow> reach_down fuel W ka t c v))))"

definition reach_leaf :: "nat \<Rightarrow> nat \<Rightarrow> u64 \<Rightarrow> tree \<Rightarrow> nat \<Rightarrow> (nat \<times> u32) result" where
  "reach_leaf fuel W ka t n = rbind (reach_root fuel t n) (\<lambda>(n, v). reach_down fuel W ka t n v)"

section \<open>The arrays\<close>

lemma mem_move_ok:
  assumes "p + k \<le> length dst" and "xp + k \<le> length src"
  obtains l where "mem_move dst p src xp k = Inr l" "length l = length dst"
    "\<And>j. j < length dst \<Longrightarrow> l ! j = (if p \<le> j \<and> j < p + k then src ! (xp + (j - p)) else dst ! j)"
proof (cases "k = 0")
  case True
  then show thesis by (intro that [of dst]) (auto simp: mem_move_def)
next
  case False
  have "min (length src - xp) k = k" "min (length dst) p = p" using assms by simp_all
  with False show thesis using assms
    by (intro that [of "take p dst @ take k (drop xp src) @ drop (p + k) dst"])
      (auto simp: mem_move_def nth_append)
qed

lemma shift_up_loop_ok:
  assumes "p + k < length cs" and "xp < p"
  obtains l where "shift_up_loop p xp k cs = Inr l" "length l = length cs"
    "\<And>j. j < length cs \<Longrightarrow> l ! j = (if p < j \<and> j \<le> p + k then cs ! (j - (p - xp)) else cs ! j)"
  using assms
proof (induction k arbitrary: cs thesis)
  case 0
  then show ?case by auto
next
  case (Suc k)
  let ?cs = "cs[p + Suc k := cs ! (xp + Suc k)]"
  obtain l where l: "shift_up_loop p xp k ?cs = Inr l" "length l = length ?cs"
    "\<And>j. j < length ?cs \<Longrightarrow> l ! j = (if p < j \<and> j \<le> p + k then ?cs ! (j - (p - xp)) else ?cs ! j)"
    using Suc.IH [of ?cs] Suc.prems by auto
  show ?case
  proof (rule Suc.prems(1))
    show "shift_up_loop p xp (Suc k) cs = Inr l" using l(1) Suc.prems by (simp add: vec_put_def)
    show "length l = length cs" using l(2) by simp
    fix j assume "j < length cs"
    moreover have "p + Suc k - (p - xp) = xp + Suc k" using Suc.prems(3) by simp
    ultimately show "l ! j = (if p < j \<and> j \<le> p + Suc k then cs ! (j - (p - xp)) else cs ! j)"
      using l(3) [of j] Suc.prems(2,3) by (auto simp: nth_list_update le_Suc_eq add.commute)
  qed
qed

definition keys :: "inode \<Rightarrow> u64 list" where
  "keys n = take (in_nkeys n) (in_ikey0 n)"

definition kids :: "inode \<Rightarrow> nat option list" where
  "kids n = take (in_nkeys n + 1) (in_child n)"

definition sizes_ok :: "nat \<Rightarrow> inode \<Rightarrow> bool" where
  "sizes_ok W n \<longleftrightarrow> length (in_ikey0 n) = W \<and> length (in_child n) = W + 1"

definition inode_ok :: "nat \<Rightarrow> inode \<Rightarrow> bool" where
  "inode_ok W n \<longleftrightarrow> sizes_ok W n \<and> in_nkeys n \<le> W \<and> None \<notin> set (kids n)"

lemma length_keys [simp]: "inode_ok W n \<Longrightarrow> length (keys n) = in_nkeys n"
  by (simp add: keys_def inode_ok_def sizes_ok_def)

lemma length_kids [simp]: "inode_ok W n \<Longrightarrow> length (kids n) = Suc (in_nkeys n)"
  by (simp add: kids_def inode_ok_def sizes_ok_def)

lemma set_ins: "set (ins i x xs) = insert x (set xs)"
proof -
  have "set (take i xs) \<union> set (drop i xs) = set xs" by (metis append_take_drop_id set_append)
  then show ?thesis by (auto simp: ins_def)
qed

lemma enter_arrays:
  assumes ok: "inode_ok W n" and room: "in_nkeys n < W" and kp: "kp \<le> in_nkeys n"
  obtains n1 n2 where "shift_up (kp + 1) kp (in_nkeys n - kp) n = Inr n1" "in_nkeys n1 = in_nkeys n"
    "internode_put kp x c n1 = Inr n2" "in_nkeys n2 = in_nkeys n"
    "inode_ok W (n2\<lparr>in_nkeys := in_nkeys n + 1\<rparr>)"
    "keys (n2\<lparr>in_nkeys := in_nkeys n + 1\<rparr>) = ins kp x (keys n)"
    "kids (n2\<lparr>in_nkeys := in_nkeys n + 1\<rparr>) = ins (kp + 1) (Some c) (kids n)"
proof -
  have len: "length (in_ikey0 n) = W" "length (in_child n) = W + 1" using ok by (simp_all add: inode_ok_def sizes_ok_def)
  obtain ks where ks: "mem_move (in_ikey0 n) (kp + 1) (in_ikey0 n) kp (in_nkeys n - kp) = Inr ks" "length ks = W"
    "\<And>j. j < W \<Longrightarrow> ks ! j = (if kp + 1 \<le> j \<and> j < kp + 1 + (in_nkeys n - kp) then in_ikey0 n ! (kp + (j - (kp + 1))) else in_ikey0 n ! j)"
    by (rule mem_move_ok [of "kp + 1" "in_nkeys n - kp" "in_ikey0 n" kp "in_ikey0 n"]) (use len room kp in auto)
  obtain cs where cs: "shift_up_loop (kp + 1) kp (in_nkeys n - kp) (in_child n) = Inr cs" "length cs = W + 1"
    "\<And>j. j < W + 1 \<Longrightarrow> cs ! j = (if kp + 1 < j \<and> j \<le> kp + 1 + (in_nkeys n - kp) then in_child n ! (j - 1) else in_child n ! j)"
    by (rule shift_up_loop_ok [of "kp + 1" "in_nkeys n - kp" "in_child n" kp]) (use len room kp in auto)
  let ?n1 = "n\<lparr>in_ikey0 := ks, in_child := cs\<rparr>"
  let ?n2 = "n\<lparr>in_ikey0 := ks[kp := x], in_child := cs[kp + 1 := Some c]\<rparr>"
  let ?n3 = "?n2\<lparr>in_nkeys := in_nkeys n + 1\<rparr>"
  have keys: "keys ?n3 = ins kp x (keys n)"
    by (rule nth_equalityI) (use ks len room kp ok in \<open>auto simp: keys_def nth_ins nth_list_update\<close>)
  have kids: "kids ?n3 = ins (kp + 1) (Some c) (kids n)"
    by (rule nth_equalityI) (use cs len room kp ok in \<open>auto simp: kids_def nth_ins nth_list_update\<close>)
  show thesis
  proof (rule that [of ?n1 ?n2])
    show "inode_ok W ?n3" using ok room ks(2) cs(2) kids by (simp add: inode_ok_def sizes_ok_def set_ins)
    show "shift_up (kp + 1) kp (in_nkeys n - kp) n = Inr ?n1" using ks(1) cs(1) by (simp add: shift_up_def)
    show "internode_put kp x c ?n1 = Inr ?n2" using ks(2) cs(2) room kp by (simp add: internode_put_def vec_put_def)
  qed (use keys kids in simp_all)
qed

lemma shift_from_ok:
  assumes "sizes_ok W n" and "sizes_ok W x" and "p + k \<le> W" and "xp + k \<le> W"
  obtains n' where "shift_from p x xp k n = Inr n'" "sizes_ok W n'" "in_nkeys n' = in_nkeys n"
    "\<And>j. j < W \<Longrightarrow> in_ikey0 n' ! j = (if p \<le> j \<and> j < p + k then in_ikey0 x ! (xp + (j - p)) else in_ikey0 n ! j)"
    "\<And>j. j \<le> W \<Longrightarrow> in_child n' ! j = (if p < j \<and> j \<le> p + k then in_child x ! (xp + (j - p)) else in_child n ! j)"
proof (cases "k = 0")
  case True
  with assms show thesis by (intro that [of n]) (auto simp: shift_from_def)
next
  case False
  obtain ks where ks: "mem_move (in_ikey0 n) p (in_ikey0 x) xp k = Inr ks" "length ks = W"
    "\<And>j. j < W \<Longrightarrow> ks ! j = (if p \<le> j \<and> j < p + k then in_ikey0 x ! (xp + (j - p)) else in_ikey0 n ! j)"
    by (rule mem_move_ok [of p k "in_ikey0 n" xp "in_ikey0 x"]) (use assms in \<open>auto simp: sizes_ok_def\<close>)
  obtain cs where cs: "mem_move (in_child n) (p + 1) (in_child x) (xp + 1) k = Inr cs" "length cs = W + 1"
    "\<And>j. j < W + 1 \<Longrightarrow> cs ! j = (if p + 1 \<le> j \<and> j < p + 1 + k then in_child x ! (xp + 1 + (j - (p + 1))) else in_child n ! j)"
    by (rule mem_move_ok [of "p + 1" k "in_child n" "xp + 1" "in_child x"]) (use assms in \<open>auto simp: sizes_ok_def\<close>)
  have "xp + 1 + (j - (p + 1)) = xp + (j - p)" if "p < j" for j using that by simp
  with ks cs False show thesis
    by (intro that [of "n\<lparr>in_ikey0 := ks, in_child := cs\<rparr>"]) (auto simp: shift_from_def sizes_ok_def)
qed

lemma take_nth_eqI: "length xs = n \<Longrightarrow> n \<le> length ys \<Longrightarrow> (\<And>j. j < n \<Longrightarrow> ys ! j = xs ! j) \<Longrightarrow> take n ys = xs"
  by (rule nth_equalityI) simp_all

text \<open>What a split makes of a full node: with the new key and child put in, the keys and children from some place on.\<close>

lemma split_arrays_ok:
  fixes ka :: u64 and child :: nat
  assumes ok: "inode_ok W n" and full: "in_nkeys n = W" and r: "sizes_ok W r" and p: "p \<le> W" and mid: "0 < mid" "mid \<le> W"
  defines "ks \<equiv> ins p ka (keys n)" and "cs \<equiv> ins (p + 1) (Some child) (kids n)"
  obtains r' where "split_arrays W mid p ka child n r = Inr (r', ks ! mid)" "inode_ok W r'" "in_nkeys r' = W - mid"
    "keys r' = drop (mid + 1) ks" "kids r' = drop (mid + 1) cs"
proof -
  have n: "sizes_ok W n" "keys n = in_ikey0 n" "kids n = in_child n"
    using ok full by (auto simp: inode_ok_def sizes_ok_def keys_def kids_def)
  have len: "length (in_ikey0 n) = W" "length (in_child n) = W + 1" "length ks = W + 1" "length cs = W + 2"
    using n ok full p by (auto simp: sizes_ok_def ks_def cs_def)
  have lr: "length (in_ikey0 r) = W" "length (in_child r) = W + 1" using r by (auto simp: sizes_ok_def)
  then have ne: "in_child r \<noteq> []" by auto
  have ks: "ks ! j = (if j < p then in_ikey0 n ! j else if j = p then ka else in_ikey0 n ! (j - 1))" if "j \<le> W" for j
    using that len p by (simp add: ks_def n(2) nth_ins)
  have cs: "cs ! j = (if j \<le> p then in_child n ! j else if j = p + 1 then Some child else in_child n ! (j - 1))" if "j \<le> W + 1" for j
    using that len p by (simp add: cs_def n(3) nth_ins)
  have "\<exists>r'. split_arrays W mid p ka child n r = Inr (r', ks ! mid) \<and> sizes_ok W r' \<and> in_nkeys r' = W - mid \<and>
      (\<forall>j < W - mid. in_ikey0 r' ! j = ks ! (mid + 1 + j)) \<and> (\<forall>j \<le> W - mid. in_child r' ! j = cs ! (mid + 1 + j))"
  proof -
    consider "p < mid" | "p = mid" | "mid < p" by linarith
    then show ?thesis
    proof cases
      case 1
      let ?r = "r\<lparr>in_nkeys := W - mid, in_child := (in_child r)[0 := in_child n ! mid]\<rparr>"
      obtain r' where r': "shift_from 0 n mid (W - mid) ?r = Inr r'" "sizes_ok W r'" "in_nkeys r' = W - mid"
        "\<And>j. j < W \<Longrightarrow> in_ikey0 r' ! j = (if j < W - mid then in_ikey0 n ! (mid + j) else in_ikey0 ?r ! j)"
        "\<And>j. j \<le> W \<Longrightarrow> in_child r' ! j = (if 0 < j \<and> j \<le> W - mid then in_child n ! (mid + j) else in_child ?r ! j)"
        by (rule shift_from_ok [of W ?r n 0 "W - mid" mid]) (use r n mid in \<open>auto simp: sizes_ok_def\<close>)
      show ?thesis using 1 r' len lr mid
        by (intro exI [of _ r']) (auto simp: split_arrays_def Let_def vec_put_def ks cs)
    next
      case 2
      let ?r = "r\<lparr>in_nkeys := W - mid, in_child := (in_child r)[0 := Some child]\<rparr>"
      obtain r' where r': "shift_from 0 n mid (W - mid) ?r = Inr r'" "sizes_ok W r'" "in_nkeys r' = W - mid"
        "\<And>j. j < W \<Longrightarrow> in_ikey0 r' ! j = (if j < W - mid then in_ikey0 n ! (mid + j) else in_ikey0 ?r ! j)"
        "\<And>j. j \<le> W \<Longrightarrow> in_child r' ! j = (if 0 < j \<and> j \<le> W - mid then in_child n ! (mid + j) else in_child ?r ! j)"
        by (rule shift_from_ok [of W ?r n 0 "W - mid" mid]) (use r n mid in \<open>auto simp: sizes_ok_def\<close>)
      show ?thesis using 2 r' len lr mid
        by (intro exI [of _ r']) (auto simp: split_arrays_def Let_def vec_put_def ks cs)
    next
      case 3
      let ?r = "r\<lparr>in_nkeys := W - mid, in_child := (in_child r)[0 := in_child n ! (mid + 1)]\<rparr>"
      obtain r1 where r1: "shift_from 0 n (mid + 1) (p - (mid + 1)) ?r = Inr r1" "sizes_ok W r1" "in_nkeys r1 = W - mid"
        "\<And>j. j < W \<Longrightarrow> in_ikey0 r1 ! j = (if j < p - (mid + 1) then in_ikey0 n ! (mid + 1 + j) else in_ikey0 ?r ! j)"
        "\<And>j. j \<le> W \<Longrightarrow> in_child r1 ! j = (if 0 < j \<and> j \<le> p - (mid + 1) then in_child n ! (mid + 1 + j) else in_child ?r ! j)"
        by (rule shift_from_ok [of W ?r n 0 "p - (mid + 1)" "mid + 1"]) (use r n mid 3 p in \<open>auto simp: sizes_ok_def\<close>)
      let ?q = "p - (mid + 1)"
      let ?r2 = "r1\<lparr>in_child := (in_child r1)[?q + 1 := Some child], in_ikey0 := (in_ikey0 r1)[?q := ka]\<rparr>"
      have l1: "length (in_ikey0 r1) = W" "length (in_child r1) = W + 1" using r1(2) by (auto simp: sizes_ok_def)
      have r2: "internode_put ?q ka child r1 = Inr ?r2" "sizes_ok W ?r2"
        using l1 3 p by (auto simp: internode_put_def vec_put_def sizes_ok_def)
      obtain r' where r': "shift_from (p + 1 - (mid + 1)) n p (W - p) ?r2 = Inr r'" "sizes_ok W r'" "in_nkeys r' = W - mid"
        "\<And>j. j < W \<Longrightarrow> in_ikey0 r' ! j = (if p - mid \<le> j \<and> j < p - mid + (W - p) then in_ikey0 n ! (p + (j - (p - mid))) else in_ikey0 ?r2 ! j)"
        "\<And>j. j \<le> W \<Longrightarrow> in_child r' ! j = (if p - mid < j \<and> j \<le> p - mid + (W - p) then in_child n ! (p + (j - (p - mid))) else in_child ?r2 ! j)"
        by (rule shift_from_ok [of W ?r2 n "p - mid" "W - p" p]) (use r2(2) n r1(3) p 3 in \<open>auto simp: sizes_ok_def\<close>)
      have "split_arrays W mid p ka child n r = Inr (r', ks ! mid)"
        using 3 p mid r1(1) r2(1) r'(1) len lr ne by (simp add: split_arrays_def Let_def vec_put_def ks)
      moreover have "in_ikey0 r' ! j = ks ! (mid + 1 + j)" if "j < W - mid" for j
        using that 3 p l1 r'(4) [of j] r1(4) [of j] by (auto simp: ks nth_list_update add.commute)
      moreover have "in_child r' ! j = cs ! (mid + 1 + j)" if "j \<le> W - mid" for j
        using that 3 p l1 lr r'(5) [of j] r1(5) [of j] by (auto simp: cs nth_list_update add.commute)
      ultimately show ?thesis using r'(2,3) by blast
    qed
  qed
  then obtain r' where r': "split_arrays W mid p ka child n r = Inr (r', ks ! mid)" "sizes_ok W r'" "in_nkeys r' = W - mid"
    "\<And>j. j < W - mid \<Longrightarrow> in_ikey0 r' ! j = ks ! (mid + 1 + j)" "\<And>j. j \<le> W - mid \<Longrightarrow> in_child r' ! j = cs ! (mid + 1 + j)"
    by blast
  have keys: "keys r' = drop (mid + 1) ks" unfolding keys_def r'(3)
    by (rule take_nth_eqI) (use r' len mid in \<open>auto simp: sizes_ok_def\<close>)
  have kids: "kids r' = drop (mid + 1) cs" unfolding kids_def r'(3)
    by (rule take_nth_eqI) (use r' len mid in \<open>auto simp: sizes_ok_def\<close>)
  have "None \<notin> set cs" using ok by (simp add: cs_def set_ins inode_ok_def)
  then have "inode_ok W r'" using r'(2,3) kids by (auto simp: inode_ok_def dest: in_set_dropD)
  from that [OF r'(1) this r'(3) keys kids] show thesis .
qed

section \<open>Version words on the way up\<close>

text \<open>The version of an inner node that no writer works on.\<close>

definition idle :: "u32 \<Rightarrow> bool" where
  "idle v \<longleftrightarrow> \<not> nv_locked v \<and> \<not> inserting v \<and> \<not> splitting v \<and> \<not> bit v 28 \<and> \<not> nv_isleaf v"

lemmas nv_bit_defs = nv_locked_def inserting_def splitting_def nv_isleaf_def nv_tests

lemma add_low_keeps_high:
  assumes "\<not> bit v 28" and "unat c \<le> 512" and "29 \<le> n"
  shows "bit (v + c :: u32) n = bit v n"
proof -
  define q r where "q = unat v div 2 ^ 29" and "r = unat v mod 2 ^ 29"
  have v: "unat v = r + 2 ^ 29 * q" by (simp add: q_def r_def)
  have r: "r < 2 ^ 28"
  proof -
    have "unat v mod 2 ^ 29 = 2 ^ 28 * (unat v div 2 ^ 28 mod 2) + unat v mod 2 ^ 28"
      using mod_mult2_eq [of "unat v" "2 ^ 28" 2] by simp
    moreover have "\<not> bit (unat v) 28" using assms(1) by (simp add: bit_unsigned_iff)
    then have "even (unat v div 2 ^ 28)" unfolding bit_iff_odd by simp
    ultimately show ?thesis by (simp add: r_def)
  qed
  moreover have "q < 8" using unsigned_less [of v] by (simp add: q_def div_less_iff_less_mult)
  ultimately have "unat v + unat c < 2 ^ 32" unfolding v using assms(2) by simp
  moreover have "(unat v + unat c) div 2 ^ 29 = unat v div 2 ^ 29"
  proof -
    have "(unat v + unat c) div 2 ^ 29 = (r + unat c + 2 ^ 29 * q) div 2 ^ 29" by (simp add: v)
    also have "\<dots> = q" unfolding div_mult_self2 [OF power_not_zero [OF zero_neq_numeral [symmetric]]] using r assms(2) by simp
    finally show ?thesis by (simp add: q_def)
  qed
  ultimately have "unat (v + c) div 2 ^ 29 = unat v div 2 ^ 29" by (simp add: unat_word_ariths)
  then have "unat (v + c) div 2 ^ (29 + (n - 29)) = unat v div 2 ^ (29 + (n - 29))" unfolding power_add div_mult2_eq by simp
  then have "bit (unat (v + c)) n = bit (unat v) n" using assms(3) by (simp add: bit_iff_odd)
  then show ?thesis by (simp add: bit_unsigned_iff bit_imp_le_length)
qed

lemma unlock_idle:
  assumes "nv_locked v" and "\<not> bit v 28" and "\<not> nv_isleaf v" and "nv_unlock v v = Inr w"
  shows "idle w"
proof -
  have "\<not> bit (v + vsplit_lowbit) 31" using add_low_keeps_high [of v vsplit_lowbit 31] assms(2,3)
    by (simp add: vsplit_lowbit_def nv_bit_defs)
  moreover have "unat (push_bit 2 (v AND inserting_bit)) \<le> 512"
  proof -
    have "v AND inserting_bit = 0 \<or> v AND inserting_bit = inserting_bit"
      by (cases "bit v 1") (auto intro!: bit_word_eqI simp: bit_and_iff)
    then show ?thesis by (elim disjE) (simp_all only: push_bit_of_0 unat_0, simp_all add: inserting_bit_def push_bit_eq_mult)
  qed
  then have "\<not> bit (v + push_bit 2 (v AND inserting_bit)) 31" using add_low_keeps_high [of v _ 31] assms(2,3)
    by (simp add: nv_bit_defs)
  ultimately show ?thesis
    using assms(4) by (auto simp: nv_unlock_def idle_def nv_bit_defs bit_and_iff rbind_eq_Inr_iff split: if_splits)
qed

end
