(* ===== verification/Masstree_Tree.thy ===== *)
theory Masstree_Tree
  imports Masstree_Internode
begin

text \<open>
  What the way up of a split (\<open>Masstree_Internode\<close>) does to the tree.  A tree is seen as a list of levels, from the
  leaves up to the root, each with the separators between its nodes: the nodes of a level are the children
  of the next one in order, and its separators are the keys of the next one with that one's separators
  between them.  Entering a node is then an insertion into the list of leaves and the list of separators.
\<close>

section \<open>Effects on the heap\<close>

lemma node_at_simps [simp]:
  "tr_inode t a = Some n \<Longrightarrow> node_at a t = Inr n"
  by (simp add: node_at_def)

lemmas tree_defs = put_node_def put_version_def set_parent_def

lemma tree_update_simps [simp]:
  "tr_inode (put_node a n t) = (tr_inode t)(a \<mapsto> n)" "tr_parent (put_node a n t) = tr_parent t"
  "tr_version (put_node a n t) = tr_version t" "tr_next (put_node a n t) = tr_next t"
  "tr_inode (put_version a v t) = tr_inode t" "tr_parent (put_version a v t) = tr_parent t"
  "tr_version (put_version a v t) = (tr_version t)(a := v)" "tr_next (put_version a v t) = tr_next t"
  "tr_inode (set_parent a p t) = tr_inode t" "tr_parent (set_parent a p t) = (tr_parent t)(a := p)"
  "tr_version (set_parent a p t) = tr_version t" "tr_next (set_parent a p t) = tr_next t"
  by (simp_all add: tree_defs)

lemma enter_child_effect:
  assumes "tr_inode t p = Some n" and "inode_ok W n" and "in_nkeys n < W" and "kp \<le> in_nkeys n"
  obtains n' where "enter_child p kp x c t = Inr (put_node p n' (set_parent c (Some p) t))" "inode_ok W n'"
    "keys n' = ins kp x (keys n)" "kids n' = ins (kp + 1) (Some c) (kids n)"
proof -
  obtain n1 n2 where a: "shift_up (kp + 1) kp (in_nkeys n - kp) n = Inr n1"
    "internode_put kp x c n1 = Inr n2" "in_nkeys n2 = in_nkeys n"
    and n': "inode_ok W (n2\<lparr>in_nkeys := in_nkeys n + 1\<rparr>)" "keys (n2\<lparr>in_nkeys := in_nkeys n + 1\<rparr>) = ins kp x (keys n)"
    "kids (n2\<lparr>in_nkeys := in_nkeys n + 1\<rparr>) = ins (kp + 1) (Some c) (kids n)"
    by (rule enter_arrays [OF assms(2-4), of x c])
  have "enter_child p kp x c t = Inr (put_node p (n2\<lparr>in_nkeys := in_nkeys n + 1\<rparr>) (set_parent c (Some p) t))"
    using assms(1) a by (simp add: enter_child_def internode_assign_def Let_def tree_defs)
  from that [OF this n'] show thesis .
qed

lemma adopt_loop:
  assumes "None \<notin> set (take k (in_child r))" and "k \<le> length (in_child r)"
  shows "for_each (adopt a r) [0..<k] t =
    Inr (t\<lparr>tr_parent := \<lambda>c. if Some c \<in> set (take k (in_child r)) then Some a else tr_parent t c\<rparr>)"
  using assms
proof (induction k)
  case 0
  then show ?case by simp
next
  case (Suc k)
  then have take: "take (Suc k) (in_child r) = take k (in_child r) @ [in_child r ! k]" by (simp add: take_Suc_conv_app_nth)
  with Suc.prems obtain c where c: "in_child r ! k = Some c" by (cases "in_child r ! k") auto
  have "for_each (adopt a r) [0..<k] t =
      Inr (t\<lparr>tr_parent := \<lambda>c. if Some c \<in> set (take k (in_child r)) then Some a else tr_parent t c\<rparr>)"
    using Suc.prems take by (intro Suc.IH) auto
  moreover have "adopt a r k u = Inr (u\<lparr>tr_parent := (tr_parent u)(c := Some a)\<rparr>)" for u
    using Suc.prems(2) c by (simp add: adopt_def set_parent_def)
  moreover have "(\<lambda>c. if Some c \<in> set (take k (in_child r)) then Some a else tr_parent t c)(c := Some a) =
      (\<lambda>c. if Some c \<in> set (take (Suc k) (in_child r)) then Some a else tr_parent t c)"
    by (auto simp: take c)
  ultimately show ?case by (simp add: for_each_append)
qed

lemma split_effect:
  assumes a: "tr_inode t a = Some n" and r: "tr_inode t nr = Some r" and ne: "a \<noteq> nr"
    and ok: "inode_ok W n" "in_nkeys n = W" "0 < W" and sizes: "sizes_ok W r" and p: "p \<le> W"
    and locked: "nv_locked (tr_version t a)" "nv_locked (tr_version t nr)"
  obtains mid r' where "0 < mid" "mid \<le> W" "inode_ok W r'" "keys r' = drop (mid + 1) (ins p x (keys n))"
    "kids r' = drop (mid + 1) (ins (p + 1) (Some c) (kids n))"
    "internode_split_into W a nr p x c ty t =
      Inr (put_node a (n\<lparr>in_nkeys := if p < mid then mid - 1 else mid\<rparr>) (put_version a (tr_version t a OR splitting_bit)
        ((put_node nr r' t)\<lparr>tr_parent := \<lambda>c. if Some c \<in> set (kids r') then Some nr else tr_parent t c\<rparr>)),
        ins p x (keys n) ! mid, if p < mid then Some p else None)"
proof -
  define mid where "mid = (if ty = 2 then W else (W + 1) div 2)"
  have mid: "0 < mid" "mid \<le> W" using ok(3) by (auto simp: mid_def)
  obtain r' where r': "split_arrays W mid p x c n r = Inr (r', ins p x (keys n) ! mid)" "inode_ok W r'" "in_nkeys r' = W - mid"
    "keys r' = drop (mid + 1) (ins p x (keys n))" "kids r' = drop (mid + 1) (ins (p + 1) (Some c) (kids n))"
    by (rule split_arrays_ok [OF ok(1,2) sizes p mid])
  have "for_each (adopt nr r') [0..<in_nkeys r' + 1] (put_node nr r' t) =
      Inr ((put_node nr r' t)\<lparr>tr_parent := \<lambda>c. if Some c \<in> set (kids r') then Some nr else tr_parent t c\<rparr>)"
    using r'(2) adopt_loop [of "in_nkeys r' + 1" r' nr "put_node nr r' t"] by (simp add: inode_ok_def sizes_ok_def kids_def cong: if_cong)
  then have "internode_split_into W a nr p x c ty t =
      Inr (put_node a (n\<lparr>in_nkeys := if p < mid then mid - 1 else mid\<rparr>) (put_version a (tr_version t a OR splitting_bit)
        ((put_node nr r' t)\<lparr>tr_parent := \<lambda>c. if Some c \<in> set (kids r') then Some nr else tr_parent t c\<rparr>)),
        ins p x (keys n) ! mid, if p < mid then Some p else None)"
    using a r locked r'(1) by (simp add: internode_split_into_def mid_def [symmetric] Let_def mark_split_def)
  from that [OF mid r'(2,4,5) this] show thesis .
qed

lemma nv_bits_nonzero [simp]: "nv_lock_bit \<noteq> 0" "root_bit \<noteq> 0" "isleaf_bit \<noteq> 0"
  by (simp_all add: nv_lock_bit_def root_bit_def isleaf_bit_def push_bit_eq_mult)

definition may_split :: "tree \<Rightarrow> nat \<Rightarrow> nat \<Rightarrow> bool" where
  "may_split t n child \<longleftrightarrow> nv_locked (tr_version t n) \<and> nv_locked (tr_version t child) \<and>
     (nv_isleaf (tr_version t n) \<or> splitting (tr_version t n))"

lemma enter_parent_root:
  assumes "may_split t n child" and "tr_parent t n = None" and "n \<noteq> tr_next t" and "child \<noteq> tr_next t" and "0 < W"
  obtains t' r where "enter_parent W n child x ty t = Inr (t', None, None)"
    "tr_inode t' = (tr_inode t)(tr_next t \<mapsto> r)" "inode_ok W r" "keys r = [x]" "kids r = [Some n, Some child]"
    "tr_parent t' = (tr_parent t)(tr_next t := None, child \<mapsto> tr_next t, n \<mapsto> tr_next t)"
    "tr_version t' = (tr_version t)(tr_next t := root_bit)" "tr_next t' = tr_next t + 1"
proof -
  obtain W' where W: "W = Suc W'" using assms(5) by (cases W) auto
  let ?r = "\<lparr>in_nkeys = 1, in_ikey0 = x # replicate W' 0, in_child = Some n # Some child # replicate W' None\<rparr>"
  have "\<exists>t'. enter_parent W n child x ty t = Inr (t', None, None) \<and> tr_inode t' = (tr_inode t)(tr_next t \<mapsto> ?r) \<and>
    tr_parent t' = (tr_parent t)(tr_next t := None, child \<mapsto> tr_next t, n \<mapsto> tr_next t) \<and>
    tr_version t' = (tr_version t)(tr_next t := root_bit) \<and> tr_next t' = tr_next t + 1"
    using assms(1-4)
    by (auto simp: enter_parent_def may_split_def locked_parent_def new_layer_root_def internode_make_def Let_def W vec_put_def
        internode_assign_def internode_put_def make_layer_root_def nodeversion_def mark_root_def fun_upd_twist)
  moreover have "inode_ok W ?r" "keys ?r = [x]" "kids ?r = [Some n, Some child]"
    by (simp_all add: inode_ok_def sizes_ok_def keys_def kids_def W)
  ultimately show thesis using that by blast
qed

lemma locked_parent_effect:
  assumes "nv_locked (tr_version t n)" and "tr_parent t n = Some p" and "idle (tr_version t p)"
  shows "locked_parent n t = Inr (Some p, put_version p (tr_version t p OR nv_lock_bit) t)"
  using assms by (simp add: locked_parent_def nv_try_lock_def idle_def nv_bit_defs bit_or_iff)

lemma enter_parent_room:
  assumes "may_split t n child" and "tr_parent t n = Some p" and "idle (tr_version t p)" and "tr_inode t p = Some pn"
    and "inode_ok W pn" and "in_nkeys pn < W" and "internode_upper W x pn \<le> in_nkeys pn"
  obtains t' pn' where "enter_parent W n child x ty t = Inr (t', Some p, None)"
    "tr_inode t' = (tr_inode t)(p \<mapsto> pn')" "inode_ok W pn'" "keys pn' = ins (internode_upper W x pn) x (keys pn)"
    "kids pn' = ins (internode_upper W x pn + 1) (Some child) (kids pn)"
    "tr_parent t' = (tr_parent t)(child \<mapsto> p)"
    "tr_version t' = (tr_version t)(p := tr_version t p OR nv_lock_bit OR inserting_bit)" "tr_next t' = tr_next t"
proof -
  let ?t = "put_version p (tr_version t p OR nv_lock_bit OR inserting_bit) (put_version p (tr_version t p OR nv_lock_bit) t)"
  have "tr_inode ?t p = Some pn" using assms(4) by simp
  from enter_child_effect [OF this assms(5-7), of x child] obtain pn' where
    pn': "enter_child p (internode_upper W x pn) x child ?t = Inr (put_node p pn' (set_parent child (Some p) ?t))"
    "inode_ok W pn'" "keys pn' = ins (internode_upper W x pn) x (keys pn)"
    "kids pn' = ins (internode_upper W x pn + 1) (Some child) (kids pn)" by blast
  have "enter_parent W n child x ty t = Inr (put_node p pn' (set_parent child (Some p) ?t), Some p, None)"
    using assms(1,4,6) pn'(1) locked_parent_effect [of t n p, OF _ assms(2,3)]
    by (simp add: enter_parent_def may_split_def mark_insert_def nv_bit_defs bit_or_iff Let_def or.assoc)
  from that [OF this _ pn'(2-4)] show thesis by simp
qed

lemma take_append_nth_drop: "i < length xs \<Longrightarrow> take i xs @ xs ! i # drop (i + 1) xs = xs"
  by (simp add: id_take_nth_drop [symmetric])

lemma enter_parent_split:
  assumes "may_split t n child" and "tr_parent t n = Some p" and "idle (tr_version t p)" and p: "tr_inode t p = Some pn"
    and ok: "inode_ok W pn" "in_nkeys pn = W" "0 < W" and kp: "internode_upper W x pn \<le> W" and "p \<noteq> tr_next t"
    and new: "Some child \<notin> set (kids pn)"
  obtains t' pn' r s where "enter_parent W n child x ty t = Inr (t', Some p, Some (tr_next t, s))"
    "tr_inode t' = (tr_inode t)(p \<mapsto> pn', tr_next t \<mapsto> r)" "inode_ok W pn'" "inode_ok W r"
    "keys pn' @ s # keys r = ins (internode_upper W x pn) x (keys pn)"
    "kids pn' @ kids r = ins (internode_upper W x pn + 1) (Some child) (kids pn)"
    "\<And>c. tr_parent t' c = (if Some c \<in> set (kids r) then Some (tr_next t)
       else if c = child \<and> Some c \<in> set (kids pn') then Some p else if c = tr_next t then None else tr_parent t c)"
    "tr_version t' = (tr_version t)(p := tr_version t p OR nv_lock_bit OR splitting_bit,
       tr_next t := mark_nonroot (tr_version t p OR nv_lock_bit))" "tr_next t' = tr_next t + 1"
proof -
  let ?kp = "internode_upper W x pn" and ?nc = "tr_next t"
  let ?K = "ins ?kp x (keys pn)" and ?C = "ins (?kp + 1) (Some child) (kids pn)"
  let ?t0 = "put_version p (tr_version t p OR nv_lock_bit) t"
  define t1 where "t1 = put_version ?nc (mark_nonroot (tr_version t p OR nv_lock_bit)) (snd (internode_make W ?t0))"
  have t1: "tr_inode t1 = (tr_inode t)(?nc \<mapsto> \<lparr>in_nkeys = 0, in_ikey0 = replicate W 0, in_child = replicate (W + 1) None\<rparr>)"
    "tr_parent t1 = (tr_parent t)(?nc := None)" "tr_next t1 = ?nc + 1"
    "tr_version t1 = (tr_version t)(p := tr_version t p OR nv_lock_bit, ?nc := mark_nonroot (tr_version t p OR nv_lock_bit))"
    using assms(9) by (simp_all add: t1_def internode_make_def Let_def)
  have len: "length ?K = W + 1" "length ?C = W + 2" using ok kp by simp_all
  let ?r0 = "\<lparr>in_nkeys = 0, in_ikey0 = replicate W 0, in_child = replicate (W + 1) None\<rparr>"
  have locked: "nv_locked (tr_version t1 p)" "nv_locked (tr_version t1 ?nc)"
    using assms(9) by (simp_all add: t1 nv_bit_defs mark_nonroot_def bit_and_iff bit_or_iff bit_not_iff)
  have nodes: "tr_inode t1 p = Some pn" "tr_inode t1 ?nc = Some ?r0" "sizes_ok W ?r0"
    using assms(9) p by (simp_all add: t1 sizes_ok_def)
  obtain mid r where mid: "0 < mid" "mid \<le> W" and r: "inode_ok W r" "keys r = drop (mid + 1) ?K" "kids r = drop (mid + 1) ?C"
    and split: "internode_split_into W p ?nc ?kp x child ty t1 =
      Inr (put_node p (pn\<lparr>in_nkeys := if ?kp < mid then mid - 1 else mid\<rparr>) (put_version p (tr_version t1 p OR splitting_bit)
        ((put_node ?nc r t1)\<lparr>tr_parent := \<lambda>c. if Some c \<in> set (kids r) then Some ?nc else tr_parent t1 c\<rparr>)),
        ?K ! mid, if ?kp < mid then Some ?kp else None)"
    by (rule split_effect [OF nodes(1,2) assms(9) ok nodes(3) kp locked])
  have start: "enter_parent W n child x ty t =
      rbind (internode_split_into W p ?nc ?kp x child ty t1) (\<lambda>(t, xikey', kp).
        case kp of None \<Rightarrow> Inr (t, Some p, Some (?nc, xikey'))
        | Some kp \<Rightarrow> rbind (enter_child p kp x child t) (\<lambda>t. Inr (t, Some p, Some (?nc, xikey'))))"
    using assms(1,9) p ok(2) locked_parent_effect [of t n p, OF _ assms(2,3)]
    by (simp add: enter_parent_def may_split_def Let_def t1_def internode_make_def)
  let ?t2 = "put_node p (pn\<lparr>in_nkeys := if ?kp < mid then mid - 1 else mid\<rparr>) (put_version p (tr_version t1 p OR splitting_bit)
        ((put_node ?nc r t1)\<lparr>tr_parent := \<lambda>c. if Some c \<in> set (kids r) then Some ?nc else tr_parent t1 c\<rparr>))"
  have K: "take mid ?K @ ?K ! mid # keys r = ?K" using r(2) mid(2) len(1) by (simp add: take_append_nth_drop [of mid ?K, simplified])
  have C: "take (mid + 1) ?C @ kids r = ?C" using r(3) by simp
  have pn: "sizes_ok W pn" "keys pn = in_ikey0 pn" "kids pn = in_child pn"
    using ok by (auto simp: inode_ok_def sizes_ok_def keys_def kids_def)
  show thesis
  proof (cases "?kp < mid")
    case True
    let ?pm = "pn\<lparr>in_nkeys := mid - 1\<rparr>"
    have m: "inode_ok W ?pm" "keys ?pm = take (mid - 1) (keys pn)" "kids ?pm = take mid (kids pn)"
      using ok(1) mid pn by (auto simp: inode_ok_def sizes_ok_def keys_def kids_def dest: in_set_takeD)
    obtain pn' where pn': "enter_child p ?kp x child ?t2 = Inr (put_node p pn' (set_parent child (Some p) ?t2))" "inode_ok W pn'"
      "keys pn' = ins ?kp x (keys ?pm)" "kids pn' = ins (?kp + 1) (Some child) (kids ?pm)"
      by (rule enter_child_effect [of ?t2 p ?pm W ?kp x child]) (use True mid m in simp_all)
    have keys: "keys pn' = take mid ?K"
      unfolding pn'(3) m(2) using True mid ok kp by (subst take_ins_beyond) simp_all
    have kids: "kids pn' = take (mid + 1) ?C"
      unfolding pn'(4) m(3) using True mid ok kp by (subst take_ins_beyond) simp_all
    have child: "Some child \<in> set (kids pn')" by (simp add: pn'(4) set_ins)
    have "Some child \<notin> set (kids r)"
    proof -
      have "kids r = drop mid (kids pn)" unfolding r(3) using True ok kp mid by (simp add: ins_def drop_Cons')
      then show ?thesis using new by (auto dest: in_set_dropD)
    qed
    then show thesis
      by (intro that [of "put_node p pn' (set_parent child (Some p) ?t2)" "?K ! mid" pn' r])
        (use True start split pn'(1,2) r(1) K C keys kids child assms(9) in \<open>auto simp: t1 or.assoc fun_upd_twist\<close>)
  next
    case False
    let ?pm = "pn\<lparr>in_nkeys := mid\<rparr>"
    have "inode_ok W ?pm" using ok(1) mid pn by (auto simp: inode_ok_def sizes_ok_def kids_def dest: in_set_takeD)
    moreover have keys: "keys ?pm = take mid ?K" using False ok kp pn by (subst take_ins) (simp_all add: keys_def sizes_ok_def)
    moreover have kids: "kids ?pm = take (mid + 1) ?C" using False ok kp pn by (subst take_ins) (simp_all add: kids_def sizes_ok_def)
    moreover have "Some child \<notin> set (kids ?pm)"
    proof -
      have "kids ?pm = take (mid + 1) (kids pn)" using pn by (simp add: kids_def)
      then show ?thesis using new by (auto dest: in_set_takeD)
    qed
    ultimately show thesis
      by (intro that [of ?t2 "?K ! mid" ?pm r])
        (use False start split r(1) K C assms(9) in \<open>auto simp: t1 or.assoc fun_upd_twist\<close>)
  qed
qed

section \<open>Where a separator goes\<close>

text \<open>
  All that the tree needs of the search in a node: in a sorted node it returns the upper bound.  The position
  it returns is then the one at which the key can be put in without destroying the order.
\<close>

locale upper_search =
  fixes search :: "(nat \<Rightarrow> int) \<Rightarrow> nat list \<Rightarrow> nat"
  assumes finds_upper: "sorted_slots cmp perm \<Longrightarrow> upper_spec cmp perm (search cmp perm)"
begin

lemma finds_insert_position:
  assumes "sorted_wrt (<) (ins kp x (keys n))" and "inode_ok W n" and "kp \<le> in_nkeys n"
  shows "search (internode_compare_key x n) [0..<in_nkeys n] = kp"
proof -
  let ?cmp = "internode_compare_key x n" and ?perm = "[0..<in_nkeys n]"
  have len: "length (keys n) = in_nkeys n" using assms(2) by simp
  have ord: "ins kp x (keys n) ! i < ins kp x (keys n) ! j" if "i < j" "j \<le> in_nkeys n" for i j
    using sorted_wrt_nth_less [OF assms(1), of i j] that assms(3) len by simp
  have key: "keys n ! j = in_ikey0 n ! j" if "j < in_nkeys n" for j using that by (simp add: keys_def)
  have below: "in_ikey0 n ! j < x" if "j < kp" for j
    using ord [of j kp] that assms(3) len key [of j] by (simp add: nth_ins)
  have above: "x < in_ikey0 n ! j" if "kp \<le> j" "j < in_nkeys n" for j
    using ord [of kp "Suc j"] that assms(3) len key [of j] by (simp add: nth_ins)
  have cmp: "?cmp j = (if j < kp then 1 else - 1)" if "j < in_nkeys n" for j
    using below [of j] above [of j] that by (auto simp: internode_compare_key_def)
  have "sorted_slots ?cmp ?perm" by (auto simp: sorted_slots_def cmp)
  from finds_upper [OF this] have "upper_spec ?cmp ?perm (search ?cmp ?perm)" .
  moreover have "upper_spec ?cmp ?perm kp" using assms(3) by (auto simp: upper_spec_def cmp)
  ultimately show ?thesis by (rule upper_spec_unique)
qed

lemma finds_child:
  assumes "sorted_wrt (<) (keys n)" and "inode_ok W n"
  shows "search (internode_compare_key x n) [0..<in_nkeys n] = length (takeWhile (\<lambda>k. k \<le> x) (keys n))"
proof -
  let ?cmp = "internode_compare_key x n" and ?perm = "[0..<in_nkeys n]" and ?u = "length (takeWhile (\<lambda>k. k \<le> x) (keys n))"
  have len: "length (keys n) = in_nkeys n" using assms(2) by simp
  have key: "in_ikey0 n ! j = keys n ! j" if "j < in_nkeys n" for j using that by (simp add: keys_def)
  have ord: "keys n ! i < keys n ! j" if "i < j" "j < in_nkeys n" for i j
    using sorted_wrt_nth_less [OF assms(1), of i j] that len by simp
  have "sorted_slots ?cmp ?perm"
    using ord by (fastforce simp: sorted_slots_def internode_compare_key_def key split: if_splits)
  from finds_upper [OF this] have "upper_spec ?cmp ?perm (search ?cmp ?perm)" .
  moreover have "upper_spec ?cmp ?perm ?u"
  proof -
    have u: "?u \<le> in_nkeys n" using length_takeWhile_le [of "\<lambda>k. k \<le> x" "keys n"] len by simp
    have "\<not> x < keys n ! j" if "j < ?u" for j using nth_mem [OF that] takeWhile_nth [OF that] by (auto dest: set_takeWhileD)
    moreover have "x < keys n ! ?u" if "?u < in_nkeys n" using nth_length_takeWhile [of "\<lambda>k. k \<le> x" "keys n"] that len by simp
    ultimately show ?thesis using u by (auto simp: upper_spec_def internode_compare_key_def key)
  qed
  ultimately show ?thesis by (rule upper_spec_unique)
qed

end

interpretation linear: upper_search key_find_upper_bound_by
  by unfold_locales (simp add: key_find_upper_bound_by_def find_upper_ok)

interpretation bisect: upper_search key_upper_bound_by
  by unfold_locales (simp add: key_upper_bound_by_def upper_ok)

interpretation chosen: upper_search "key_bound_upper W" for W
  by unfold_locales (simp add: key_bound_upper_def linear.finds_upper bisect.finds_upper)

section \<open>Levels\<close>

definition children :: "tree \<Rightarrow> nat \<Rightarrow> nat list" where
  "children t p = (case tr_inode t p of None \<Rightarrow> [] | Some n \<Rightarrow> map the (kids n))"

definition separators :: "tree \<Rightarrow> nat \<Rightarrow> u64 list" where
  "separators t p = (case tr_inode t p of None \<Rightarrow> [] | Some n \<Rightarrow> keys n)"

definition inner_ok :: "nat \<Rightarrow> tree \<Rightarrow> nat \<Rightarrow> bool" where
  "inner_ok W t p \<longleftrightarrow> (case tr_inode t p of None \<Rightarrow> False | Some n \<Rightarrow> inode_ok W n) \<and> idle (tr_version t p) \<and>
     (\<forall>c \<in> set (children t p). tr_parent t c = Some p)"

fun weave :: "'a list list \<Rightarrow> 'a list \<Rightarrow> 'a list" where
  "weave [] ss = []"
| "weave (ks # kss) [] = ks"
| "weave (ks # kss) (s # ss) = ks @ s # weave kss ss"

type_synonym level = "nat list \<times> u64 list"

fun levels_ok :: "nat \<Rightarrow> tree \<Rightarrow> level \<Rightarrow> level list \<Rightarrow> bool" where
  "levels_ok W t (ns, ss) [] \<longleftrightarrow> length ns = 1 \<and> ss = [] \<and> tr_parent t (hd ns) = None"
| "levels_ok W t (ns, ss) ((ps, ts) # ls) \<longleftrightarrow> ns = concat (map (children t) ps) \<and> ss = weave (map (separators t) ps) ts \<and>
     (\<forall>p \<in> set ps. inner_ok W t p) \<and> levels_ok W t (ps, ts) ls"

abbreviation inner_nodes :: "level list \<Rightarrow> nat list" where
  "inner_nodes ls \<equiv> concat (map fst ls)"

definition tree_ok :: "nat \<Rightarrow> tree \<Rightarrow> level \<Rightarrow> level list \<Rightarrow> bool" where
  "tree_ok W t l ls \<longleftrightarrow> levels_ok W t l ls \<and> distinct (fst l @ inner_nodes ls) \<and> (\<forall>a \<in> set (fst l @ inner_nodes ls). a < tr_next t)"

lemma concat_split_at:
  "concat (map f ps) = as @ n # bs \<Longrightarrow>
    \<exists>A p B c d. ps = A @ p # B \<and> f p = c @ n # d \<and> as = concat (map f A) @ c \<and> bs = d @ concat (map f B)"
proof (induction ps arbitrary: as)
  case (Cons p ps)
  then consider us where "f p = as @ n # us" "bs = us @ concat (map f ps)" | us where "as = f p @ us" "concat (map f ps) = us @ n # bs"
    by (auto simp: append_eq_append_conv2 append_eq_Cons_conv Cons_eq_append_conv)
  then show ?case
  proof cases
    case 1
    then show ?thesis by (intro exI [of _ "[]"] exI [of _ p] exI [of _ ps] exI [of _ as] exI [of _ us]) simp
  next
    case 2
    with Cons.IH obtain A q B c d where "ps = A @ q # B" "f q = c @ n # d" "us = concat (map f A) @ c" "bs = d @ concat (map f B)"
      by blast
    with 2 show ?thesis by (intro exI [of _ "p # A"] exI [of _ q] exI [of _ B] exI [of _ c] exI [of _ d]) simp
  qed
qed simp

text \<open>The separators of a level before and after those of one node of the next level.\<close>

definition weave_before :: "'a list list \<Rightarrow> 'a list \<Rightarrow> 'a list" where
  "weave_before kss ss = concat (map (\<lambda>(ks, s). ks @ [s]) (zip kss ss))"

fun weave_after :: "'a list list \<Rightarrow> 'a list \<Rightarrow> 'a list" where
  "weave_after kss [] = []"
| "weave_after kss (s # ss) = s # weave kss ss"

lemma weave_split:
  assumes "length A = length S"
  shows "weave (A @ ks # B) (S @ T) = weave_before A S @ ks @ weave_after B T"
  using assms
proof (induction A S rule: list_induct2)
  case Nil
  then show ?case by (cases T) (simp_all add: weave_before_def)
qed (simp add: weave_before_def)

lemma length_weave: "length ss + 1 = length kss \<Longrightarrow> length (weave kss ss) + 1 = length (concat kss) + length kss"
  by (induction kss ss rule: weave.induct) (auto simp: Suc_le_eq)

lemma length_weave_before: "length A = length S \<Longrightarrow> length (weave_before A S) = length (concat A) + length A"
  by (induction A S rule: list_induct2) (simp_all add: weave_before_def)

lemma inner_lengths: "inner_ok W t p \<Longrightarrow> length (children t p) = Suc (length (separators t p))"
  by (auto simp: inner_ok_def children_def separators_def split: option.splits)

lemma concat_lengths:
  "(\<And>p. p \<in> set ps \<Longrightarrow> inner_ok W t p) \<Longrightarrow>
    length (concat (map (children t) ps)) = length (concat (map (separators t) ps)) + length ps"
proof (induction ps)
  case (Cons p ps)
  then show ?case using inner_lengths [of W t p] by simp
qed simp

lemma levels_length: "levels_ok W t (ns, ss) ls \<Longrightarrow> length ns = Suc (length ss)"
proof (induction ls arbitrary: ns ss)
  case (Cons l ls)
  obtain ps ts where l: "l = (ps, ts)" by fastforce
  with Cons have "length ps = Suc (length ts)" by auto
  with Cons.prems length_weave [of ts "map (separators t) ps"] concat_lengths [of ps W t] show ?case by (auto simp: l)
qed auto

lemma levels_frame:
  assumes "levels_ok W t (ns, ss) ls"
    and "\<And>a. a \<in> set (inner_nodes ls) \<Longrightarrow> tr_inode t' a = tr_inode t a \<and> tr_version t' a = tr_version t a"
    and "\<And>a. a \<in> set (ns @ inner_nodes ls) \<Longrightarrow> tr_parent t' a = tr_parent t a"
  shows "levels_ok W t' (ns, ss) ls"
  using assms
proof (induction ls arbitrary: ns ss)
  case Nil
  then show ?case by (cases ns) auto
next
  case (Cons l ls)
  obtain ps ts where l: "l = (ps, ts)" by fastforce
  have same: "children t' p = children t p" "separators t' p = separators t p" if "p \<in> set ps" for p
    using Cons.prems(2) [of p] that by (auto simp: l children_def separators_def)
  have "inner_ok W t' p" if "p \<in> set ps" for p
  proof -
    have "tr_parent t' c = tr_parent t c" if "c \<in> set (children t p)" for c
      using Cons.prems(3) [of c] Cons.prems(1) that \<open>p \<in> set ps\<close> by (auto simp: l)
    with that Cons.prems(1) Cons.prems(2) [of p] same(1) [OF that] show ?thesis by (auto simp: l inner_ok_def)
  qed
  moreover have "map (children t') ps = map (children t) ps" "map (separators t') ps = map (separators t) ps"
    using same by auto
  moreover have "levels_ok W t' (ps, ts) ls" by (rule Cons.IH) (use Cons.prems in \<open>auto simp: l\<close>)
  ultimately show ?case using Cons.prems(1) by (simp add: l del: map_eq_conv)
qed

lemma set_weave: "length ss < length kss \<Longrightarrow> set ss \<subseteq> set (weave kss ss)"
  by (induction kss ss rule: weave.induct) auto

lemma sorted_weave: "sorted_wrt (<) (weave kss ss) \<Longrightarrow> length ss < length kss \<Longrightarrow> sorted_wrt (<) (ss :: 'a :: linorder list)"
  by (induction kss ss rule: weave.induct) (use set_weave in \<open>fastforce simp: sorted_wrt_append\<close>)+

text \<open>The parent of a node of a level: which separators are its keys, and where a new separator goes.\<close>

lemma parent_split:
  assumes lev: "levels_ok W t (as @ n # bs, ss) ((ps, ts) # ls)"
    and sorted: "sorted_wrt (<) (ins (length as) x ss)"
  obtains A p B c d pn T1 T2 where "ps = A @ p # B" "children t p = c @ n # d" "as = concat (map (children t) A) @ c"
    "bs = d @ concat (map (children t) B)" "ts = T1 @ T2" "length T1 = length A" "length T2 = length B"
    "tr_inode t p = Some pn" "inode_ok W pn" "kids pn = map Some (c @ n # d)" "tr_parent t n = Some p" "inner_ok W t p"
    "length c \<le> in_nkeys pn" "internode_upper W x pn = length c"
    "ins (length as) x ss = weave_before (map (separators t) A) T1 @ ins (length c) x (keys pn) @ weave_after (map (separators t) B) T2"
proof -
  obtain A p B c d where ps: "ps = A @ p # B" "children t p = c @ n # d" "as = concat (map (children t) A) @ c"
    "bs = d @ concat (map (children t) B)"
    using lev concat_split_at [of "children t" ps as n bs] by auto
  have inner: "\<And>q. q \<in> set ps \<Longrightarrow> inner_ok W t q" using lev by auto
  then have p: "inner_ok W t p" using ps(1) by auto
  then obtain pn where pn: "tr_inode t p = Some pn" "inode_ok W pn" by (auto simp: inner_ok_def split: option.splits)
  have "map (Some \<circ> the) (kids pn) = kids pn"
  proof (rule map_idI)
    fix k assume "k \<in> set (kids pn)"
    with pn(2) have "k \<noteq> None" by (cases k) (auto simp: inode_ok_def)
    then show "(Some \<circ> the) k = k" by simp
  qed
  then have kids: "kids pn = map Some (c @ n # d)" using pn(1) ps(2) by (simp add: children_def flip: map_map)
  have "length ps = Suc (length ts)" using lev by (auto dest: levels_length)
  then have T: "ts = take (length A) ts @ drop (length A) ts" "length (take (length A) ts) = length A"
    "length (drop (length A) ts) = length B" using ps(1) by simp_all
  define T1 T2 where "T1 = take (length A) ts" and "T2 = drop (length A) ts"
  note T = T [folded T1_def T2_def]
  have n: "tr_parent t n = Some p" using p ps(2) by (auto simp: inner_ok_def)
  have c: "length c \<le> in_nkeys pn" using kids length_kids [OF pn(2)] by simp
  have keys: "separators t p = keys pn" using pn(1) by (simp add: separators_def)
  let ?b = "weave_before (map (separators t) A) T1" and ?a = "weave_after (map (separators t) B) T2"
  have "ss = ?b @ keys pn @ ?a"
    using lev T(2) by (simp add: ps(1) T(1) keys weave_split)
  moreover have "length as = length ?b + length c"
    using concat_lengths [of A W t] inner ps T(2) by (simp add: length_weave_before)
  ultimately have ins: "ins (length as) x ss = ?b @ ins (length c) x (keys pn) @ ?a"
    using c pn(2) by (simp add: ins_def)
  with sorted have "sorted_wrt (<) (ins (length c) x (keys pn))" by (simp add: sorted_wrt_append)
  from chosen.finds_insert_position [OF this pn(2) c] have "internode_upper W x pn = length c" by (simp add: internode_upper_def)
  from that [OF ps T pn kids n p c this ins] show thesis .
qed

lemma level_children: "levels_ok W t (ns, ss) ((ps, ts) # ls) \<Longrightarrow> a \<in> set ps \<Longrightarrow> set (children t a) \<subseteq> set ns"
  by auto

section \<open>One round\<close>

definition split_mark :: "u32 \<Rightarrow> u32" where
  "split_mark v = (if nv_isleaf v then v OR splitting_bit else v)"

definition unlocked_from :: "nat \<Rightarrow> u32 \<Rightarrow> nat \<Rightarrow> tree \<Rightarrow> bool" where
  "unlocked_from keep v a t' \<longleftrightarrow> (if a = keep then tr_version t' a = v else nv_unlock v v = Inr (tr_version t' a))"

lemma unlock_defined: "nv_locked v \<Longrightarrow> \<exists>w. nv_unlock v v = Inr w"
  by (simp add: nv_unlock_def nv_locked_def)

lemma unlock_both:
  assumes "nv_locked (tr_version u n)" and "nv_locked (tr_version u child)" and "n \<noteq> child"
  obtains u0 u1 u' where "mark_leaf n u = Inr u0" "(if n \<noteq> keep then unlock_node n u0 else Inr u0) = Inr u1"
    "(if child \<noteq> keep then unlock_node child u1 else Inr u1) = Inr u'"
    "tr_inode u' = tr_inode u" "tr_parent u' = tr_parent u" "tr_next u' = tr_next u"
    "\<And>a. a \<noteq> n \<Longrightarrow> a \<noteq> child \<Longrightarrow> tr_version u' a = tr_version u a"
    "unlocked_from keep (split_mark (tr_version u n)) n u'" "unlocked_from keep (tr_version u child) child u'"
proof -
  let ?m = "split_mark (tr_version u n)"
  have "nv_locked ?m" using assms(1) by (simp add: split_mark_def nv_bit_defs bit_or_iff)
  then obtain v w where vw: "nv_unlock ?m ?m = Inr v" "nv_unlock (tr_version u child) (tr_version u child) = Inr w"
    using assms(2) unlock_defined by metis
  define u0 where "u0 = put_version n ?m u"
  define u1 where "u1 = (if n \<noteq> keep then put_version n v u0 else u0)"
  define u2 where "u2 = (if child \<noteq> keep then put_version child w u1 else u1)"
  have m: "mark_leaf n u = Inr u0"
    using assms(1) by (auto simp: mark_leaf_def mark_split_def split_mark_def u0_def put_version_def)
  have "tr_version u1 child = tr_version u child" using assms(3) by (simp add: u1_def u0_def)
  then have "(if n \<noteq> keep then unlock_node n u0 else Inr u0) = Inr u1" "(if child \<noteq> keep then unlock_node child u1 else Inr u1) = Inr u2"
    using vw by (simp_all add: unlock_node_def u0_def u1_def u2_def)
  from m this show thesis
    by (rule that) (use vw assms(3) in \<open>simp_all add: unlocked_from_def u0_def u1_def u2_def\<close>)
qed

text \<open>
  What the loop leaves behind when it has entered \<open>child\<close> next to \<open>n\<close> (the list of nodes of the level is
  \<open>as @ n # bs\<close> at first), and what it does not touch.
\<close>

definition entered :: "nat \<Rightarrow> nat \<Rightarrow> nat list \<Rightarrow> nat \<Rightarrow> nat \<Rightarrow> nat list \<Rightarrow> u64 list \<Rightarrow> level list \<Rightarrow> tree \<Rightarrow> level list \<Rightarrow> tree \<Rightarrow> bool" where
  "entered W keep as n child bs ss ls t ls' t' \<longleftrightarrow>
     levels_ok W t' (as @ n # child # bs, ss) ls' \<and> distinct (inner_nodes ls') \<and> tr_next t \<le> tr_next t' \<and>
     set (inner_nodes ls') \<subseteq> set (inner_nodes ls) \<union> {tr_next t..<tr_next t'} \<and>
     (\<forall>a < tr_next t. a \<notin> set (inner_nodes ls) \<longrightarrow> tr_inode t' a = tr_inode t a) \<and>
     (\<forall>a < tr_next t. a \<notin> set (child # as @ n # bs @ inner_nodes ls) \<longrightarrow> tr_parent t' a = tr_parent t a) \<and>
     (\<forall>a < tr_next t. a \<notin> set (n # child # inner_nodes ls) \<longrightarrow> tr_version t' a = tr_version t a) \<and>
     unlocked_from keep (split_mark (tr_version t n)) n t' \<and> unlocked_from keep (tr_version t child) child t'"

lemma idle_root: "idle root_bit"
  by (simp add: idle_def nv_bit_defs)

lemma split_up_root:
  assumes ok: "tree_ok W t (as @ n # bs, ss) []" and ms: "may_split t n child" and child: "child \<notin> set (as @ n # bs)" "child < tr_next t"
    and W: "0 < W"
  shows "\<exists>t' ls'. split_up (Suc fuel) W keep n child x ty t = Inr t' \<and> entered W keep as n child bs (ins (length as) x ss) [] t ls' t'"
proof -
  have e: "as = []" "bs = []" "ss = []" "tr_parent t n = None" "n < tr_next t" "n \<noteq> child"
    using ok child by (auto simp: tree_ok_def)
  let ?nn = "tr_next t"
  obtain t1 r where t1: "enter_parent W n child x ty t = Inr (t1, None, None)"
    "tr_inode t1 = (tr_inode t)(?nn \<mapsto> r)" "inode_ok W r" "keys r = [x]" "kids r = [Some n, Some child]"
    "tr_parent t1 = (tr_parent t)(?nn := None, child \<mapsto> ?nn, n \<mapsto> ?nn)"
    "tr_version t1 = (tr_version t)(?nn := root_bit)" "tr_next t1 = ?nn + 1"
    by (rule enter_parent_root [OF ms e(4) _ _ W, of x ty]) (use e(5) child(2) in auto)
  have locked: "nv_locked (tr_version t1 n)" "nv_locked (tr_version t1 child)"
    using ms e(5) child(2) by (simp_all add: t1 may_split_def)
  obtain u0 u1 t' where u: "mark_leaf n t1 = Inr u0" "(if n \<noteq> keep then unlock_node n u0 else Inr u0) = Inr u1"
    "(if child \<noteq> keep then unlock_node child u1 else Inr u1) = Inr t'"
    and t': "tr_inode t' = tr_inode t1" "tr_parent t' = tr_parent t1" "tr_next t' = tr_next t1"
    "\<And>a. a \<noteq> n \<Longrightarrow> a \<noteq> child \<Longrightarrow> tr_version t' a = tr_version t1 a"
    "unlocked_from keep (split_mark (tr_version t1 n)) n t'" "unlocked_from keep (tr_version t1 child) child t'"
    by (rule unlock_both [OF locked e(6), of keep]) blast
  have run: "split_up (Suc fuel) W keep n child x ty t = Inr t'"
    unfolding split_up.simps t1(1) rbind_simps prod.case u by simp
  have node: "children t' ?nn = [n, child]" "separators t' ?nn = [x]"
    using t'(1) t1(2,4,5) by (simp_all add: children_def separators_def)
  have "inner_ok W t' ?nn"
    using t'(1,2,4) t1 e child(2) idle_root node by (auto simp: inner_ok_def)
  then have "levels_ok W t' ([n, child], [x]) [([?nn], [])]"
    using t'(2) t1(6) e(5) child(2) node by simp
  moreover have "unlocked_from keep (split_mark (tr_version t n)) n t'" "unlocked_from keep (tr_version t child) child t'"
    using t'(5,6) t1(7) e(5) child(2) by (auto simp: unlocked_from_def)
  moreover have "tr_version t' a = tr_version t a" if "a < ?nn" "a \<noteq> n" "a \<noteq> child" for a
    using t'(4) [of a] t1(7) that by simp
  ultimately have "entered W keep as n child bs (ins (length as) x ss) [] t [([?nn], [])] t'"
    using t'(1-3) t1(2,6,8) e(1-3) by (auto simp: entered_def ins_def simp del: levels_ok.simps)
  with run show ?thesis by blast
qed

lemma split_up_room:
  assumes ok: "tree_ok W t (as @ n # bs, ss) ((ps, ts) # ls)" and sorted: "sorted_wrt (<) (ins (length as) x ss)"
    and ms: "may_split t n child" and child: "child \<notin> set (as @ n # bs @ inner_nodes ((ps, ts) # ls))" "child < tr_next t"
    and keep: "keep \<notin> set (inner_nodes ((ps, ts) # ls))"
    and p: "tr_parent t n = Some p" "tr_inode t p = Some pn" "in_nkeys pn < W"
  shows "\<exists>t' ls'. split_up (Suc fuel) W keep n child x ty t = Inr t' \<and>
    entered W keep as n child bs (ins (length as) x ss) ((ps, ts) # ls) t ls' t'"
proof -
  have lev: "levels_ok W t (as @ n # bs, ss) ((ps, ts) # ls)" and dist: "distinct (as @ n # bs @ ps @ inner_nodes ls)"
    and bound: "\<And>a. a \<in> set (as @ n # bs @ ps @ inner_nodes ls) \<Longrightarrow> a < tr_next t"
    using ok by (auto simp: tree_ok_def)
  obtain A q B c d qn T1 T2 where ps: "ps = A @ q # B" and cq: "children t q = c @ n # d" and as: "as = concat (map (children t) A) @ c"
    and bs: "bs = d @ concat (map (children t) B)" and T: "ts = T1 @ T2" "length T1 = length A" "length T2 = length B"
    and qn: "tr_inode t q = Some qn" "inode_ok W qn" "kids qn = map Some (c @ n # d)" "tr_parent t n = Some q" "inner_ok W t q"
    and kp: "length c \<le> in_nkeys qn" "internode_upper W x qn = length c"
    and ins: "ins (length as) x ss = weave_before (map (separators t) A) T1 @ ins (length c) x (keys qn) @ weave_after (map (separators t) B) T2"
    by (rule parent_split [OF lev sorted]) blast
  have pq: "p = q" "pn = qn" using p qn by simp_all
  obtain t1 pn' where t1: "enter_parent W n child x ty t = Inr (t1, Some p, None)"
    "tr_inode t1 = (tr_inode t)(p \<mapsto> pn')" "inode_ok W pn'" "keys pn' = ins (length c) x (keys pn)"
    "kids pn' = map Some (c @ n # child # d)" "tr_parent t1 = (tr_parent t)(child \<mapsto> p)"
    "tr_version t1 = (tr_version t)(p := tr_version t p OR nv_lock_bit OR inserting_bit)" "tr_next t1 = tr_next t"
  proof (rule enter_parent_room [OF ms p(1) _ p(2), of W x ty])
    show "idle (tr_version t p)" using qn(5) pq by (simp add: inner_ok_def)
  qed (use that p(3) pq qn(2,3) kp in \<open>simp_all add: ins_def\<close>)
  have ne: "n \<noteq> p" "child \<noteq> p" "n \<noteq> child" using dist child ps pq by auto
  have locked: "nv_locked (tr_version t1 n)" "nv_locked (tr_version t1 child)"
    using ms ne by (simp_all add: t1 may_split_def)
  obtain u0 u1 t2 where u: "mark_leaf n t1 = Inr u0" "(if n \<noteq> keep then unlock_node n u0 else Inr u0) = Inr u1"
    "(if child \<noteq> keep then unlock_node child u1 else Inr u1) = Inr t2"
    and t2: "tr_inode t2 = tr_inode t1" "tr_parent t2 = tr_parent t1" "tr_next t2 = tr_next t1"
    "\<And>a. a \<noteq> n \<Longrightarrow> a \<noteq> child \<Longrightarrow> tr_version t2 a = tr_version t1 a"
    "unlocked_from keep (split_mark (tr_version t1 n)) n t2" "unlocked_from keep (tr_version t1 child) child t2"
    by (rule unlock_both [OF locked ne(3), of keep]) blast
  have v2: "tr_version t2 p = tr_version t p OR nv_lock_bit OR inserting_bit" using t2(4) [of p] ne t1(7) by simp
  then have lp: "nv_locked (tr_version t2 p)" by (simp add: nv_bit_defs bit_or_iff)
  then obtain w where w: "nv_unlock (tr_version t2 p) (tr_version t2 p) = Inr w" using unlock_defined by blast
  have "idle (tr_version t p)" using qn(5) pq by (simp add: inner_ok_def)
  then have "\<not> bit (tr_version t2 p) 28" "\<not> nv_isleaf (tr_version t2 p)"
    unfolding v2 by (simp_all add: idle_def nv_bit_defs bit_or_iff)
  from unlock_idle [OF lp this w] have "idle w" .
  define t' where "t' = put_version p w t2"
  have run: "split_up (Suc fuel) W keep n child x ty t = Inr t'"
    unfolding split_up.simps t1(1) rbind_simps prod.case u using w by (simp add: unlock_node_def t'_def)
  have p': "children t' p = c @ n # child # d" "separators t' p = ins (length c) x (keys pn)"
    using t1(2,4,5) by (simp_all add: t'_def t2 children_def separators_def)
  have other: "children t' a = children t a" "separators t' a = separators t a" if "a \<noteq> p" for a
    using that t1(2) by (simp_all add: t'_def t2 children_def separators_def)
  have AB: "map (children t') A = map (children t) A" "map (children t') B = map (children t) B"
    "map (separators t') A = map (separators t) A" "map (separators t') B = map (separators t) B"
    using dist ps pq by (auto intro!: other)
  have par: "tr_parent t' a = tr_parent t a" if "a \<noteq> child" for a using that t1(6) by (simp add: t'_def t2)
  have ver: "tr_version t' a = tr_version t a" if "a \<noteq> n" "a \<noteq> child" "a \<noteq> p" for a
    using that t2(4) [of a] t1(7) by (simp add: t'_def)
  have inner: "inner_ok W t' a" if "a \<in> set ps" for a
  proof (cases "a = p")
    case True
    have "tr_parent t' k = Some p" if "k \<in> set (c @ n # child # d)" for k
      using that qn(5) pq cq t1(6) by (auto simp: inner_ok_def t'_def t2)
    with True p' t1(2,3) \<open>idle w\<close> show ?thesis by (simp add: inner_ok_def t'_def t2)
  next
    case False
    have "k \<noteq> child" if "k \<in> set (children t a)" for k
      using that level_children [OF lev \<open>a \<in> set ps\<close>] child(1) by auto
    moreover have "inner_ok W t a" using lev that by simp
    moreover have "a \<noteq> n" "a \<noteq> child" using that dist child(1) by auto
    ultimately show ?thesis using False other [OF False] par ver t1(2) by (simp add: inner_ok_def t'_def t2)
  qed
  have "levels_ok W t' (ps, ts) ls"
  proof (rule levels_frame)
    show "levels_ok W t (ps, ts) ls" using lev by simp
    fix a assume "a \<in> set (inner_nodes ls)"
    then have "a \<noteq> p" "a \<noteq> n" "a \<noteq> child" using dist child(1) ps pq by auto
    then show "tr_inode t' a = tr_inode t a \<and> tr_version t' a = tr_version t a" using ver t1(2) by (simp add: t'_def t2)
  next
    fix a assume "a \<in> set (ps @ inner_nodes ls)"
    then have "a \<noteq> child" using child(1) by auto
    then show "tr_parent t' a = tr_parent t a" by (rule par)
  qed
  moreover have "concat (map (children t') ps) = as @ n # child # bs" by (simp add: ps as bs AB p' pq [symmetric])
  moreover have "weave (map (separators t') ps) ts = ins (length as) x ss"
    using T(2) by (simp add: ps ins T(1) weave_split AB p' pq [symmetric])
  ultimately have "levels_ok W t' (as @ n # child # bs, ins (length as) x ss) ((ps, ts) # ls)" using inner by simp
  moreover have "unlocked_from keep (split_mark (tr_version t n)) n t'" "unlocked_from keep (tr_version t child) child t'"
    using t2(5,6) t1(7) ne by (auto simp: unlocked_from_def t'_def)
  moreover have "tr_inode t' a = tr_inode t a" if "a \<notin> set ps" for a using that ps pq t1(2) by (auto simp: t'_def t2)
  moreover have "tr_next t' = tr_next t" by (simp add: t'_def t2 t1)
  ultimately have "entered W keep as n child bs (ins (length as) x ss) ((ps, ts) # ls) t ((ps, ts) # ls) t'"
    using par ver dist ps pq by (auto simp: entered_def simp del: levels_ok.simps)
  with run show ?thesis by blast
qed

text \<open>
  A round that splits the parent \<open>p\<close>: the rest of the loop enters the new node next to \<open>p\<close>, one level up, and if it
  does that right the round has done its part.
\<close>

lemma weave_cons: "weave (ks # kss) ss = ks @ weave_after kss ss"
  by (cases ss) simp_all

lemma ins_at: "length xs = i \<Longrightarrow> ins i x (xs @ ys) = xs @ x # ys"
  by (simp add: ins_def)

lemma entered_lift:
  assumes E: "entered W keep A p q B (T1 @ s # T2) ls t2 ls' t'"
    and dist: "distinct (as @ n # bs @ A @ p # B @ inner_nodes ls)"
    and bound: "\<And>a. a \<in> set (child # as @ n # bs @ A @ p # B @ inner_nodes ls) \<Longrightarrow> a < q"
    and child: "child \<notin> set (as @ n # bs @ A @ p # B @ inner_nodes ls)" and keep: "keep \<notin> {p, q}"
    and q: "q = tr_next t" "tr_next t2 = q + 1"
    and kids: "concat (map (children t2) (A @ p # q # B)) = as @ n # child # bs"
    and seps: "weave (map (separators t2) (A @ p # q # B)) (T1 @ s # T2) = ss'"
    and nodes: "\<And>a. a \<in> set (A @ p # q # B) \<Longrightarrow> case tr_inode t2 a of None \<Rightarrow> False | Some m \<Rightarrow> inode_ok W m"
    and par: "\<And>a k. a \<in> set (A @ p # q # B) \<Longrightarrow> k \<in> set (children t2 a) \<Longrightarrow> tr_parent t2 k = Some a"
    and idle: "\<And>a. a \<in> set (A @ B) \<Longrightarrow> idle (tr_version t2 a)"
    and pq: "\<And>a. a \<in> {p, q} \<Longrightarrow> nv_locked (tr_version t2 a) \<and> \<not> bit (tr_version t2 a) 28 \<and> \<not> nv_isleaf (tr_version t2 a)"
    and inode: "\<And>a. a < q \<Longrightarrow> a \<noteq> p \<Longrightarrow> tr_inode t2 a = tr_inode t a"
    and parent: "\<And>a. a < q \<Longrightarrow> a \<notin> set (child # as @ n # bs) \<Longrightarrow> tr_parent t2 a = tr_parent t a"
    and version: "\<And>a. a < q \<Longrightarrow> a \<notin> {n, child, p} \<Longrightarrow> tr_version t2 a = tr_version t a"
    and un: "unlocked_from keep (split_mark (tr_version t n)) n t2" "unlocked_from keep (tr_version t child) child t2"
  shows "entered W keep as n child bs ss' ((A @ p # B, T1 @ T2) # ls) t ((A @ p # q # B, T1 @ s # T2) # ls') t'"
proof -
  let ?N = "A @ p # q # B"
  have lev: "levels_ok W t' (?N, T1 @ s # T2) ls'" and dist': "distinct (inner_nodes ls')" and next': "q + 1 \<le> tr_next t'"
    and sub: "set (inner_nodes ls') \<subseteq> set (inner_nodes ls) \<union> {q + 1..<tr_next t'}"
    and fi: "\<And>a. a < q + 1 \<Longrightarrow> a \<notin> set (inner_nodes ls) \<Longrightarrow> tr_inode t' a = tr_inode t2 a"
    and fp: "\<And>a. a < q + 1 \<Longrightarrow> a \<notin> set (q # A @ p # B @ inner_nodes ls) \<Longrightarrow> tr_parent t' a = tr_parent t2 a"
    and fv: "\<And>a. a < q + 1 \<Longrightarrow> a \<notin> set (p # q # inner_nodes ls) \<Longrightarrow> tr_version t' a = tr_version t2 a"
    and u: "unlocked_from keep (split_mark (tr_version t2 p)) p t'" "unlocked_from keep (tr_version t2 q) q t'"
    using E by (auto simp: entered_def q(2))
  have N: "a < q + 1" "a \<notin> set (inner_nodes ls)" if "a \<in> set ?N" for a
    using that dist bound [of a] bound [of q] by auto
  have leaf: "k < q" "k \<notin> set (q # A @ p # B @ inner_nodes ls)" if "k \<in> set (as @ n # child # bs)" for k
    using that dist child bound [of k] bound [of q] by auto
  have same: "children t' a = children t2 a" "separators t' a = separators t2 a" if "a \<in> set ?N" for a
    using fi [OF N [OF that]] by (simp_all add: children_def separators_def)
  have "inner_ok W t' a" if a: "a \<in> set ?N" for a
  proof -
    have "tr_parent t' k = Some a" if k: "k \<in> set (children t2 a)" for k
    proof -
      have "k \<in> set (as @ n # child # bs)" unfolding kids [symmetric] using a k by auto
      from leaf [OF this] have "tr_parent t' k = tr_parent t2 k" by (intro fp) auto
      then show ?thesis using par [OF a k] by simp
    qed
    moreover have "idle (tr_version t' a)"
    proof (cases "a = p \<or> a = q")
      case True
      then have "nv_unlock (tr_version t2 a) (tr_version t2 a) = Inr (tr_version t' a)" using u keep pq by (auto simp: unlocked_from_def split_mark_def)
      then show ?thesis using unlock_idle pq [of a] True by blast
    next
      case False
      with a have AB: "a \<in> set (A @ B)" by auto
      have "tr_version t' a = tr_version t2 a" using False N [OF a] by (intro fv) auto
      then show ?thesis using idle [OF AB] by simp
    qed
    ultimately show ?thesis using nodes [OF a] same(1) [OF a] fi [OF N [OF a]] by (simp add: inner_ok_def)
  qed
  moreover have "map (children t') ?N = map (children t2) ?N" "map (separators t') ?N = map (separators t2) ?N"
    by (rule map_cong [OF refl], erule same)+
  ultimately have "levels_ok W t' (as @ n # child # bs, ss') ((?N, T1 @ s # T2) # ls')"
    using lev kids seps by (simp only: levels_ok.simps) simp
  moreover have "distinct (inner_nodes ((?N, T1 @ s # T2) # ls'))"
  proof -
    have "distinct ?N" using dist bound [of q] by auto
    moreover have "a \<notin> set (inner_nodes ls')" if "a \<in> set ?N" for a using N [OF that] sub by auto
    ultimately show ?thesis using dist' by auto
  qed
  moreover have "unlocked_from keep (split_mark (tr_version t n)) n t'" "unlocked_from keep (tr_version t child) child t'"
    using un fv [of n] fv [of child] leaf [of n] leaf [of child] by (auto simp: unlocked_from_def split: if_splits)
  moreover have "tr_inode t' a = tr_inode t a" if "a < q" "a \<notin> set (inner_nodes ((A @ p # B, T1 @ T2) # ls))" for a
    using that fi [of a] inode [of a] by auto
  moreover have "tr_parent t' a = tr_parent t a" if "a < q" "a \<notin> set (child # as @ n # bs @ inner_nodes ((A @ p # B, T1 @ T2) # ls))" for a
    using that fp [of a] parent [of a] by auto
  moreover have "tr_version t' a = tr_version t a" if "a < q" "a \<notin> set (n # child # inner_nodes ((A @ p # B, T1 @ T2) # ls))" for a
    using that fv [of a] version [of a] by auto
  moreover have "set (inner_nodes ((?N, T1 @ s # T2) # ls')) \<subseteq> set (inner_nodes ((A @ p # B, T1 @ T2) # ls)) \<union> {q..<tr_next t'}"
    using sub next' by auto
  ultimately show ?thesis using next' unfolding entered_def q(1) [symmetric] by simp
qed

lemma split_up_split:
  assumes ok: "tree_ok W t (as @ n # bs, ss) ((ps, ts) # ls)" and sorted: "sorted_wrt (<) (ins (length as) x ss)"
    and ms: "may_split t n child" and child: "child \<notin> set (as @ n # bs @ inner_nodes ((ps, ts) # ls))" "child < tr_next t"
    and keep: "keep \<notin> set (inner_nodes ((ps, ts) # ls))" "keep < tr_next t" and W: "0 < W"
    and full: "tr_parent t n = Some p'" "tr_inode t p' = Some pn" "in_nkeys pn = W"
  obtains t2 A p B T1 T2 s where "split_up (Suc fuel) W keep n child x ty t = split_up fuel W keep p (tr_next t) s ty t2"
    "ps = A @ p # B" "ts = T1 @ T2" "length T1 = length A" "tree_ok W t2 (A @ p # B, T1 @ T2) ls"
    "sorted_wrt (<) (T1 @ s # T2)" "may_split t2 p (tr_next t)" "tr_next t2 = tr_next t + 1"
    "\<And>ls' t'. entered W keep A p (tr_next t) B (T1 @ s # T2) ls t2 ls' t' \<Longrightarrow>
      entered W keep as n child bs (ins (length as) x ss) ((A @ p # B, T1 @ T2) # ls) t ((A @ p # tr_next t # B, T1 @ s # T2) # ls') t'"
proof -
  let ?q = "tr_next t"
  have lev: "levels_ok W t (as @ n # bs, ss) ((ps, ts) # ls)" and dist: "distinct (as @ n # bs @ ps @ inner_nodes ls)"
    and bound: "\<And>a. a \<in> set (as @ n # bs @ ps @ inner_nodes ls) \<Longrightarrow> a < ?q"
    using ok by (auto simp: tree_ok_def)
  obtain A p B c d qn T1 T2 where ps: "ps = A @ p # B" and cq: "children t p = c @ n # d" and as: "as = concat (map (children t) A) @ c"
    and bs: "bs = d @ concat (map (children t) B)" and T: "ts = T1 @ T2" "length T1 = length A" "length T2 = length B"
    and qn: "tr_inode t p = Some qn" "inode_ok W qn" "kids qn = map Some (c @ n # d)" "tr_parent t n = Some p" "inner_ok W t p"
    and kp: "length c \<le> in_nkeys qn" "internode_upper W x qn = length c"
    and ins: "ins (length as) x ss = weave_before (map (separators t) A) T1 @ ins (length c) x (keys qn) @ weave_after (map (separators t) B) T2"
    by (rule parent_split [OF lev sorted]) blast
  have full': "in_nkeys qn = W" using full qn by simp
  have new: "Some child \<notin> set (kids qn)" using child(1) as bs qn(3) by auto
  have pq: "p \<noteq> ?q" using bound [of p] ps by auto
  have idle_p: "idle (tr_version t p)" using qn(5) by (simp add: inner_ok_def)
  obtain t1 pn' r s where t1: "enter_parent W n child x ty t = Inr (t1, Some p, Some (?q, s))"
    "tr_inode t1 = (tr_inode t)(p \<mapsto> pn', ?q \<mapsto> r)" "inode_ok W pn'" "inode_ok W r"
    "keys pn' @ s # keys r = ins (length c) x (keys qn)" "kids pn' @ kids r = ins (length c + 1) (Some child) (kids qn)"
    "\<And>c. tr_parent t1 c = (if Some c \<in> set (kids r) then Some ?q
       else if c = child \<and> Some c \<in> set (kids pn') then Some p else if c = ?q then None else tr_parent t c)"
    "tr_version t1 = (tr_version t)(p := tr_version t p OR nv_lock_bit OR splitting_bit, ?q := mark_nonroot (tr_version t p OR nv_lock_bit))"
    "tr_next t1 = ?q + 1"
    by (rule enter_parent_split [OF ms qn(4) idle_p qn(1,2) full' W _ pq new, of x ty]) (use kp full' in \<open>auto simp del: fun_upd_apply\<close>)
  have ne: "n \<noteq> p" "child \<noteq> p" "n \<noteq> child" "n < ?q" "p < ?q" using dist child(1) ps bound by auto
  have locked: "nv_locked (tr_version t1 n)" "nv_locked (tr_version t1 child)"
    using ms ne child(2) by (simp_all add: t1 may_split_def)
  obtain u0 u1 t2 where u: "mark_leaf n t1 = Inr u0" "(if n \<noteq> keep then unlock_node n u0 else Inr u0) = Inr u1"
    "(if child \<noteq> keep then unlock_node child u1 else Inr u1) = Inr t2"
    and t2: "tr_inode t2 = tr_inode t1" "tr_parent t2 = tr_parent t1" "tr_next t2 = tr_next t1"
    "\<And>a. a \<noteq> n \<Longrightarrow> a \<noteq> child \<Longrightarrow> tr_version t2 a = tr_version t1 a"
    "unlocked_from keep (split_mark (tr_version t1 n)) n t2" "unlocked_from keep (tr_version t1 child) child t2"
    by (rule unlock_both [OF locked ne(3), of keep]) blast
  have run: "split_up (Suc fuel) W keep n child x ty t = split_up fuel W keep p ?q s ty t2"
    unfolding split_up.simps t1(1) rbind_simps prod.case u by simp
  have v: "tr_version t2 p = tr_version t p OR nv_lock_bit OR splitting_bit" "tr_version t2 ?q = mark_nonroot (tr_version t p OR nv_lock_bit)"
    using t2(4) [of p] t2(4) [of ?q] ne child(2) t1(8) by auto
  have pq_version: "nv_locked (tr_version t2 a) \<and> \<not> bit (tr_version t2 a) 28 \<and> \<not> nv_isleaf (tr_version t2 a)" if "a \<in> {p, ?q}" for a
    using that idle_p by (auto simp: v idle_def mark_nonroot_def nv_bit_defs bit_or_iff bit_and_iff bit_not_iff)
  have ms2: "may_split t2 p ?q" using pq_version by (auto simp: may_split_def) (simp add: v nv_bit_defs bit_or_iff)
  have ver: "tr_version t2 a = tr_version t a" if "a \<notin> {n, child, p, ?q}" for a
    using that t2(4) [of a] t1(8) by simp
  have PR: "kids pn' @ kids r = map Some (c @ n # child # d)" using t1(6) qn(3) by (simp add: ins_def)
  let ?P = "children t2 p" and ?R = "children t2 ?q"
  have node_p: "tr_inode t2 p = Some pn'" and node_q: "tr_inode t2 ?q = Some r" using t1(2) pq by (simp_all add: t2(1))
  have P: "?P = map the (kids pn')" and R: "?R = map the (kids r)" using node_p node_q by (simp_all add: children_def)
  have PR': "?P @ ?R = c @ n # child # d" using arg_cong [OF PR, of "map the"] by (simp add: P R)
  have some: "Some k \<in> set (kids r) \<longleftrightarrow> k \<in> set ?R" "Some k \<in> set (kids pn') \<longleftrightarrow> k \<in> set ?P" for k
  proof -
    have "set (kids pn') \<subseteq> Some ` UNIV" "set (kids r) \<subseteq> Some ` UNIV" using arg_cong [OF PR, of set] by auto
    then show "Some k \<in> set (kids r) \<longleftrightarrow> k \<in> set ?R" "Some k \<in> set (kids pn') \<longleftrightarrow> k \<in> set ?P"
      unfolding P R by force+
  qed
  have other: "tr_inode t2 a = tr_inode t a" "children t2 a = children t a" "separators t2 a = separators t a" if "a \<noteq> p" "a \<noteq> ?q" for a
    using that t1(2) by (simp_all add: t2(1) children_def separators_def)
  have AB: "a \<noteq> p" "a \<noteq> ?q" "a \<noteq> n" "a \<noteq> child" "inner_ok W t a" if "a \<in> set (A @ B)" for a
    using that dist child(1) ps bound [of a] lev by auto
  have maps: "map (children t2) A = map (children t) A" "map (children t2) B = map (children t) B"
    "map (separators t2) A = map (separators t) A" "map (separators t2) B = map (separators t) B"
    using AB other by auto
  have kids2: "concat (map (children t2) (A @ p # ?q # B)) = as @ n # child # bs"
    using PR' by (simp add: maps as bs)
  have "separators t2 p = keys pn'" "separators t2 ?q = keys r" using node_p node_q by (simp_all add: separators_def)
  then have seps2: "weave (map (separators t2) (A @ p # ?q # B)) (T1 @ s # T2) = ins (length as) x ss"
    using T(2) arg_cong [OF t1(5), of "\<lambda>l. l @ weave_after (map (separators t) B) T2"]
    by (simp add: maps weave_split weave_cons ins)
  have distPR: "distinct (?P @ ?R)" unfolding PR' using dist child(1) by (auto simp: as bs)
  have par: "tr_parent t2 k = Some a" if a: "a \<in> set (A @ p # ?q # B)" and k: "k \<in> set (children t2 a)" for a k
  proof (cases "a = ?q")
    case True
    then show ?thesis using k some(1) [of k] t1(7) [of k] by (simp add: t2(2))
  next
    case False
    have kb: "k \<in> set (as @ n # child # bs)" unfolding kids2 [symmetric] using a k by auto
    then have "k \<noteq> ?q" using bound [of k] child(2) by auto
    moreover have "k \<notin> set ?R \<and> (if k = child then a = p else tr_parent t k = Some a)"
    proof (cases "a = p")
      case True
      then have "k \<notin> set ?R" using k distPR by auto
      moreover have "k \<in> set (c @ n # child # d)" unfolding PR' [symmetric] using k True by simp
      then have "k \<noteq> child \<Longrightarrow> k \<in> set (children t p)" by (auto simp: cq)
      ultimately show ?thesis using True qn(5) by (auto simp: inner_ok_def)
    next
      case False
      with a \<open>a \<noteq> ?q\<close> have aAB: "a \<in> set (A @ B)" by auto
      then have kt: "k \<in> set (children t a)" using k other(2) [of a] AB by auto
      have "k \<notin> set (c @ n # d)" using kt aAB dist by (auto simp: as bs)
      moreover have "k \<noteq> child" using kt aAB child(1) by (auto simp: as bs)
      moreover have "set ?R \<subseteq> set (c @ n # child # d)" unfolding PR' [symmetric] by simp
      ultimately show ?thesis using kt AB(5) [OF aAB] by (auto simp: inner_ok_def)
    qed
    ultimately show ?thesis using k some [of k] t1(7) [of k] by (cases "k = child") (auto simp: t2(2))
  qed
  have parent: "tr_parent t2 a = tr_parent t a" if "a < ?q" "a \<notin> set (child # as @ n # bs)" for a
  proof -
    have "set ?R \<subseteq> set (c @ n # child # d)" unfolding PR' [symmetric] by simp
    then have "a \<notin> set ?R" using that as bs by auto
    then show ?thesis using that some(1) [of a] t1(7) [of a] by (simp add: t2(2))
  qed
  have "levels_ok W t2 (A @ p # B, T1 @ T2) ls"
  proof (rule levels_frame)
    show "levels_ok W t (A @ p # B, T1 @ T2) ls" using lev by (simp add: ps T(1))
    fix a assume a: "a \<in> set (inner_nodes ls)"
    then have "a \<noteq> p" "a \<noteq> n" "a \<noteq> child" "a \<noteq> ?q" using dist child(1) ps bound [of a] by auto
    then show "tr_inode t2 a = tr_inode t a \<and> tr_version t2 a = tr_version t a" using ver other(1) by simp
  next
    fix a assume a: "a \<in> set ((A @ p # B) @ inner_nodes ls)"
    then have "a \<notin> set (child # as @ n # bs)" "a < ?q" using dist child(1) ps bound [of a] by auto
    then show "tr_parent t2 a = tr_parent t a" using parent by blast
  qed
  then have tree: "tree_ok W t2 (A @ p # B, T1 @ T2) ls"
    using dist bound by (auto simp: tree_ok_def ps t2(3) t1(9) less_SucI)
  have sorted2: "sorted_wrt (<) (T1 @ s # T2)"
    by (rule sorted_weave [of "map (separators t2) (A @ p # ?q # B)"]) (use seps2 sorted T in simp_all)
  show thesis
  proof (rule that [OF run ps T(1,2) tree sorted2 ms2])
    show "tr_next t2 = ?q + 1" by (simp add: t2(3) t1(9))
    fix ls' t'
    assume "entered W keep A p ?q B (T1 @ s # T2) ls t2 ls' t'"
    then show "entered W keep as n child bs (ins (length as) x ss) ((A @ p # B, T1 @ T2) # ls) t ((A @ p # ?q # B, T1 @ s # T2) # ls') t'"
    proof (rule entered_lift [OF _ _ _ _ _ refl _ kids2 seps2 _ par _ pq_version _ parent])
      show "distinct (as @ n # bs @ A @ p # B @ inner_nodes ls)" using dist by (simp add: ps)
      show "child \<notin> set (as @ n # bs @ A @ p # B @ inner_nodes ls)" using child(1) by (simp add: ps)
      show "keep \<notin> {p, ?q}" using keep ps by auto
      show "tr_next t2 = ?q + 1" by (simp add: t2(3) t1(9))
      show "unlocked_from keep (split_mark (tr_version t n)) n t2" "unlocked_from keep (tr_version t child) child t2"
        using t2(5,6) t1(8) ne child(2) by (auto simp: unlocked_from_def)
    next
      fix a assume "a \<in> set (child # as @ n # bs @ A @ p # B @ inner_nodes ls)"
      then show "a < ?q" using bound [of a] child(2) by (auto simp: ps)
    next
      fix a assume "a \<in> set (A @ p # ?q # B)"
      then consider "a = p" | "a = ?q" | "a \<in> set (A @ B)" by auto
      then show "case tr_inode t2 a of None \<Rightarrow> False | Some m \<Rightarrow> inode_ok W m"
        using node_p node_q t1(3,4) AB(5) [of a] other(1) [of a] AB(1,2) [of a] by cases (simp_all add: inner_ok_def)
    next
      fix a assume "a \<in> set (A @ B)"
      then show "idle (tr_version t2 a)" using AB [of a] ver [of a] by (auto simp: inner_ok_def)
    next
      fix a assume "a < ?q" "a \<noteq> p"
      then show "tr_inode t2 a = tr_inode t a" using other(1) [of a] by simp
    next
      fix a assume "a < ?q" "a \<notin> {n, child, p}"
      then show "tr_version t2 a = tr_version t a" using ver [of a] by simp
    qed
  qed
qed

lemma tree_okI:
  assumes "levels_ok W t (ns, ss) ls" and "distinct ns" and "distinct (inner_nodes ls)"
    and "\<And>a. a \<in> set ns \<Longrightarrow> a \<notin> set (inner_nodes ls)" and "\<And>a. a \<in> set ns \<or> a \<in> set (inner_nodes ls) \<Longrightarrow> a < tr_next t"
  shows "tree_ok W t (ns, ss) ls"
  using assms(1-3,5) assms(4) unfolding tree_ok_def by (auto simp del: levels_ok.simps)

section \<open>The whole way up\<close>

lemma split_up_levels:
  assumes "tree_ok W t (as @ n # bs, ss) ls" and "sorted_wrt (<) (ins (length as) x ss)" and "may_split t n child"
    and "child \<notin> set (as @ n # bs @ inner_nodes ls)" and "child < tr_next t"
    and "keep \<notin> set (inner_nodes ls)" and "keep < tr_next t" and "0 < W" and "length ls < fuel"
  shows "\<exists>t' ls'. split_up fuel W keep n child x ty t = Inr t' \<and> entered W keep as n child bs (ins (length as) x ss) ls t ls' t'"
  using assms
proof (induction ls arbitrary: t as n bs ss x child fuel)
  case Nil
  then obtain f where "fuel = Suc f" by (cases fuel) auto
  then show ?case using split_up_root [OF Nil.prems(1,3) _ Nil.prems(5,8)] Nil.prems(4) by simp
next
  case (Cons l ls)
  obtain ps ts where l: "l = (ps, ts)" by fastforce
  obtain f where fuel: "fuel = Suc f" "length ls < f" using Cons.prems(9) by (cases fuel) auto
  note prems = Cons.prems(1-7) [unfolded l]
  have lev: "levels_ok W t (as @ n # bs, ss) ((ps, ts) # ls)" using prems(1) by (simp add: tree_ok_def)
  obtain p pn where p: "tr_parent t n = Some p" "tr_inode t p = Some pn" "inode_ok W pn"
    by (rule parent_split [OF lev prems(2)]) blast
  show ?case
  proof (cases "in_nkeys pn < W")
    case True
    then show ?thesis using split_up_room [OF prems(1-6) p(1,2)] by (simp add: fuel(1) l)
  next
    case False
    then have full: "in_nkeys pn = W" using p(3) by (simp add: inode_ok_def)
    obtain t2 A p' B T1 T2 s where run: "split_up (Suc f) W keep n child x ty t = split_up f W keep p' (tr_next t) s ty t2"
      and ps: "ps = A @ p' # B" "ts = T1 @ T2" "length T1 = length A" and t2: "tree_ok W t2 (A @ p' # B, T1 @ T2) ls"
      "sorted_wrt (<) (T1 @ s # T2)" "may_split t2 p' (tr_next t)" "tr_next t2 = tr_next t + 1"
      and lift: "\<And>ls' t'. entered W keep A p' (tr_next t) B (T1 @ s # T2) ls t2 ls' t' \<Longrightarrow>
        entered W keep as n child bs (ins (length as) x ss) ((A @ p' # B, T1 @ T2) # ls) t ((A @ p' # tr_next t # B, T1 @ s # T2) # ls') t'"
      by (rule split_up_split [OF prems Cons.prems(8) p(1,2) full, of f ty]) blast
    have i: "ins (length A) s (T1 @ T2) = T1 @ s # T2" using ps(3) by (simp add: ins_at)
    have "\<exists>t' ls'. split_up f W keep p' (tr_next t) s ty t2 = Inr t' \<and>
        entered W keep A p' (tr_next t) B (ins (length A) s (T1 @ T2)) ls t2 ls' t'"
    proof (rule Cons.IH)
      show "tr_next t \<notin> set (A @ p' # B @ inner_nodes ls)"
        using prems(1) ps(1) by (auto simp: tree_ok_def)
      show "keep \<notin> set (inner_nodes ls)" using prems(6) by simp
    qed (use t2 i prems(7) Cons.prems(8) fuel(2) in simp_all)
    then obtain t' ls' where "split_up f W keep p' (tr_next t) s ty t2 = Inr t'" "entered W keep A p' (tr_next t) B (T1 @ s # T2) ls t2 ls' t'"
      unfolding i by blast
    with lift run show ?thesis by (auto simp: fuel(1) l ps(1,2))
  qed
qed

text \<open>
  C12.  The loop of \<^verbatim>\<open>make_split\<close> comes to an end after at most one round for each level of the tree and one for a new
  root, and it puts the new node into the tree next to the node that was split: the list of leaves gets it as
  the next one, the list of separators gets the key between the two, every node is again the child of its
  parent and none is left locked or marked, however many inner nodes had to be split on the way.
\<close>

theorem split_up_correct:
  assumes "tree_ok W t (as @ n # bs, ss) ls" and "sorted_wrt (<) (ins (length as) x ss)" and "may_split t n child"
    and "child \<notin> set (as @ n # bs @ inner_nodes ls)" and "child < tr_next t"
    and "keep = n \<or> keep = child" and "0 < W" and "length ls < fuel"
  shows "\<exists>t' ls'. split_up fuel W keep n child x ty t = Inr t' \<and> tree_ok W t' (as @ n # child # bs, ins (length as) x ss) ls'"
proof -
  have dist: "distinct (as @ n # bs @ inner_nodes ls)" and bound: "\<And>a. a \<in> set (as @ n # bs @ inner_nodes ls) \<Longrightarrow> a < tr_next t"
    using assms(1) by (auto simp: tree_ok_def)
  have keep: "keep \<notin> set (inner_nodes ls)" "keep < tr_next t" using assms(4-6) dist bound by auto
  from split_up_levels [OF assms(1-5) keep assms(7,8), of ty] obtain t' ls' where
    t': "split_up fuel W keep n child x ty t = Inr t'" "entered W keep as n child bs (ins (length as) x ss) ls t ls' t'" by blast
  have sub: "set (inner_nodes ls') \<subseteq> set (inner_nodes ls) \<union> {tr_next t..<tr_next t'}" and "tr_next t \<le> tr_next t'"
    and lev: "distinct (inner_nodes ls')" "levels_ok W t' (as @ n # child # bs, ins (length as) x ss) ls'"
    using t'(2) by (simp_all add: entered_def)
  have leaf: "a < tr_next t" "a \<notin> set (inner_nodes ls)" if "a \<in> set (as @ n # child # bs)" for a
    using that dist assms(4,5) bound [of a] by auto
  have "a < tr_next t'" if "a \<in> set (as @ n # child # bs) \<or> a \<in> set (inner_nodes ls')" for a
  proof -
    have "a < tr_next t \<or> a \<in> {tr_next t..<tr_next t'}"
      using that leaf(1) [of a] subsetD [OF sub, of a] bound [of a] by auto
    then show ?thesis using \<open>tr_next t \<le> tr_next t'\<close> by auto
  qed
  moreover have "a \<notin> set (inner_nodes ls')" if "a \<in> set (as @ n # child # bs)" for a
    using leaf [OF that] subsetD [OF sub, of a] by auto
  moreover have "distinct (as @ n # child # bs)" using dist assms(4) by auto
  ultimately have "tree_ok W t' (as @ n # child # bs, ins (length as) x ss) ls'"
    using lev by (intro tree_okI)
  with t'(1) show ?thesis by blast
qed

section \<open>The way down\<close>

definition rank :: "u64 \<Rightarrow> u64 list \<Rightarrow> nat" where
  "rank x ss = length (takeWhile (\<lambda>s. s \<le> x) ss)"

lemma takeWhile_middle:
  assumes "\<forall>x \<in> set a. P x" and "b \<noteq> [] \<longrightarrow> \<not> P (hd b)"
  shows "length (takeWhile P (a @ ks @ b)) = length a + length (takeWhile P ks)"
proof -
  have "takeWhile P b = []" using assms(2) by (cases b) auto
  then have "takeWhile P (ks @ b) = takeWhile P ks"
    by (cases "\<forall>k \<in> set ks. P k") (auto simp: takeWhile_append takeWhile_eq_all_conv [THEN iffD2])
  then show ?thesis using assms(1) by (simp add: takeWhile_append2)
qed

lemma last_weave_before: "length A = length S \<Longrightarrow> S \<noteq> [] \<Longrightarrow> weave_before A S \<noteq> [] \<and> last (weave_before A S) = last S"
  by (induction A S rule: list_induct2) (auto simp: weave_before_def)

lemma sorted_last: "sorted_wrt (<) xs \<Longrightarrow> k \<in> set xs \<Longrightarrow> k \<le> last (xs :: 'a :: linorder list)"
proof (induction xs)
  case (Cons x xs)
  then show ?case by (cases xs) (auto intro: less_imp_le)
qed simp

text \<open>The child a search goes to, in terms of the whole level below.\<close>

lemma weave_rank:
  assumes "length kss = Suc (length ts)" and "sorted_wrt (<) (weave kss ts)" and "i = rank x ts"
  shows "rank x (weave kss ts) = length (concat (take i kss)) + i + rank x (kss ! i)"
proof -
  have i: "i \<le> length ts" using assms(3) by (simp add: rank_def length_takeWhile_le)
  define A B where "A = take i kss" and "B = drop (Suc i) kss"
  have kss: "kss = A @ kss ! i # B" using i assms(1) by (simp add: A_def B_def id_take_nth_drop [symmetric])
  have len: "length A = length (take i ts)" using i assms(1) by (simp add: A_def)
  let ?b = "weave_before A (take i ts)" and ?a = "weave_after B (drop i ts)"
  have w: "weave kss ts = ?b @ kss ! i @ ?a"
    by (subst kss, subst append_take_drop_id [of i ts, symmetric]) (rule weave_split [OF len])
  have "\<forall>k \<in> set ?b. k \<le> x"
  proof (cases "i = 0")
    case True
    then show ?thesis using len by (simp add: weave_before_def)
  next
    case False
    have "take i ts = takeWhile (\<lambda>s. s \<le> x) ts" unfolding assms(3) rank_def by (rule takeWhile_eq_take [symmetric])
    then have "last (take i ts) \<le> x" using False i assms(1) by (metis last_in_set length_0_conv length_take min.absorb2 set_takeWhileD)
    moreover have "take i ts \<noteq> []" using False i by auto
    from last_weave_before [OF len this] have "?b \<noteq> []" "last ?b = last (take i ts)" by auto
    moreover have "sorted_wrt (<) ?b" using assms(2) unfolding w by (simp add: sorted_wrt_append)
    ultimately show ?thesis
      using sorted_last [of ?b] by fastforce
  qed
  moreover have "?a \<noteq> [] \<longrightarrow> \<not> hd ?a \<le> x"
  proof (cases "i < length ts")
    case True
    then have "\<not> ts ! i \<le> x" unfolding assms(3) rank_def by (rule nth_length_takeWhile)
    then show ?thesis using True by (simp add: Cons_nth_drop_Suc [symmetric])
  qed simp
  ultimately have "rank x (weave kss ts) = length ?b + rank x (kss ! i)" unfolding w rank_def by (rule takeWhile_middle)
  then show ?thesis using length_weave_before [OF len] len i by (simp add: A_def)
qed

definition root_of :: "level \<Rightarrow> level list \<Rightarrow> nat" where
  "root_of l ls = hd (fst (last (l # ls)))"

lemma idle_stable: "idle v \<Longrightarrow> nv_stable v = Some v"
  by (simp add: idle_def nv_stable_def nv_bit_defs)

lemma concat_nth:
  assumes "i < length xss" and "j < length (xss ! i)"
  shows "concat xss ! (length (concat (take i xss)) + j) = xss ! i ! j"
proof -
  have "concat xss = concat (take i xss) @ xss ! i @ concat (drop (Suc i) xss)"
    using id_take_nth_drop [OF assms(1)] by (metis concat.simps(2) concat_append)
  then show ?thesis using assms(2) by (simp add: nth_append)
qed

lemma reach_child:
  fixes ka :: u64
  assumes lev: "levels_ok W t (ns, ss) ((ps, ts) # ls)" and sorted: "sorted_wrt (<) ss"
  defines "p \<equiv> ps ! rank ka ts"
  obtains m where "p \<in> set ps" "tr_inode t p = Some m" "inode_ok W m" "internode_upper W ka m < length (kids m)"
    "kids m ! internode_upper W ka m = Some (ns ! rank ka ss)" "ns ! rank ka ss \<in> set ns"
proof -
  let ?i = "rank ka ts" and ?kss = "map (separators t) ps"
  have len: "length ps = Suc (length ts)" using lev by (auto dest: levels_length)
  then have i: "?i < length ps" using length_takeWhile_le [of "\<lambda>s. s \<le> ka" ts] by (simp add: rank_def)
  then have p: "p \<in> set ps" by (simp add: p_def)
  have inner: "\<And>q. q \<in> set ps \<Longrightarrow> inner_ok W t q" using lev by auto
  obtain m where m: "tr_inode t p = Some m" "inode_ok W m" using inner [OF p] by (auto simp: inner_ok_def split: option.splits)
  have ss: "ss = weave ?kss ts" and ns: "ns = concat (map (children t) ps)" using lev by auto
  have keys: "?kss ! ?i = keys m" using i m(1) by (simp add: p_def separators_def)
  have "rank ka ss = length (concat (take ?i ?kss)) + ?i + rank ka (keys m)"
    unfolding keys [symmetric] ss by (rule weave_rank) (use len sorted ss in simp_all)
  also have "length (concat (take ?i ?kss)) + ?i = length (concat (take ?i (map (children t) ps)))"
    using concat_lengths [of "take ?i ps" W t, OF inner [OF in_set_takeD]] i by (simp add: take_map)
  finally have r: "rank ka ss = length (concat (take ?i (map (children t) ps))) + rank ka (keys m)" .
  have "sorted_wrt (<) (keys m)"
  proof -
    have T: "ts = take ?i ts @ drop ?i ts" by simp
    have ps: "ps = take ?i ps @ p # drop (Suc ?i) ps" using i by (simp add: p_def id_take_nth_drop [symmetric])
    have l: "length (map (separators t) (take ?i ps)) = length (take ?i ts)" using i len by simp
    have "sorted_wrt (<) (weave (map (separators t) (take ?i ps) @ keys m # map (separators t) (drop (Suc ?i) ps)) (take ?i ts @ drop ?i ts))"
      using sorted unfolding ss by (subst (asm) ps) (use m(1) in \<open>simp add: separators_def\<close>)
    then show ?thesis unfolding weave_split [OF l] by (simp add: sorted_wrt_append)
  qed
  from chosen.finds_child [OF this m(2)] have u: "internode_upper W ka m = rank ka (keys m)"
    by (simp add: internode_upper_def rank_def)
  have child: "map (children t) ps ! ?i = map the (kids m)" using i m(1) by (simp add: p_def children_def)
  have l: "rank ka (keys m) < length (kids m)"
    using length_takeWhile_le [of "\<lambda>s. s \<le> ka" "keys m"] m(2) by (simp add: rank_def)
  have c: "ns ! rank ka ss = the (kids m ! rank ka (keys m))"
    unfolding ns r using concat_nth [of ?i "map (children t) ps" "rank ka (keys m)"] i child l by simp
  have "kids m ! rank ka (keys m) \<noteq> None" using m(2) nth_mem [OF l] by (metis inode_ok_def)
  then have some: "kids m ! rank ka (keys m) = Some (ns ! rank ka ss)" using c by simp
  have "ns ! rank ka ss \<in> set (children t p)" using c l m(1) by (simp add: children_def)
  then have "ns ! rank ka ss \<in> set ns" using level_children [OF lev p] by blast
  from that [OF p m, unfolded u, OF l some this] show thesis .
qed

lemma reach_down_levels:
  assumes "levels_ok W t (ns, ss) ls" and "sorted_wrt (<) ss" and "\<And>a. a \<in> set ns \<Longrightarrow> nv_stable (tr_version t a) = Some (tr_version t a)"
  shows "reach_down (length ls + fuel) W ka t (root_of (ns, ss) ls) (tr_version t (root_of (ns, ss) ls)) =
    reach_down fuel W ka t (ns ! rank ka ss) (tr_version t (ns ! rank ka ss))"
  using assms
proof (induction ls arbitrary: ns ss fuel)
  case Nil
  then show ?case by (cases ns) (auto simp: root_of_def rank_def)
next
  case (Cons l ls)
  obtain ps ts where l: "l = (ps, ts)" by fastforce
  have lev: "levels_ok W t (ns, ss) ((ps, ts) # ls)" using Cons.prems(1) l by simp
  have len: "length ps = Suc (length ts)" using lev by (auto dest: levels_length)
  have "sorted_wrt (<) (weave (map (separators t) ps) ts)" using Cons.prems(2) lev by simp
  then have "sorted_wrt (<) ts" by (rule sorted_weave) (simp add: len)
  then have "reach_down (length ls + Suc fuel) W ka t (root_of (ps, ts) ls) (tr_version t (root_of (ps, ts) ls)) =
      reach_down (Suc fuel) W ka t (ps ! rank ka ts) (tr_version t (ps ! rank ka ts))"
    using lev by (intro Cons.IH) (auto simp: inner_ok_def intro: idle_stable)
  moreover have "root_of (ns, ss) (l # ls) = root_of (ps, ts) ls" by (simp add: root_of_def l)
  moreover obtain m where m: "ps ! rank ka ts \<in> set ps" "tr_inode t (ps ! rank ka ts) = Some m" "inode_ok W m"
    "internode_upper W ka m < length (kids m)" "kids m ! internode_upper W ka m = Some (ns ! rank ka ss)" "ns ! rank ka ss \<in> set ns"
    by (rule reach_child [OF lev Cons.prems(2)])
  moreover have "\<not> nv_isleaf (tr_version t (ps ! rank ka ts))" using m(1) lev by (auto simp: inner_ok_def idle_def)
  moreover have "vec_at (in_child m) (internode_upper W ka m) = Inr (Some (ns ! rank ka ss))"
    using m(4,5) by (simp add: kids_def)
  ultimately show ?case using Cons.prems(3) [OF m(6)] by simp
qed

lemma root_stable:
  "levels_ok W t (ns, ss) ls \<Longrightarrow> (\<And>a. a \<in> set ns \<Longrightarrow> nv_stable (tr_version t a) = Some (tr_version t a)) \<Longrightarrow>
    nv_stable (tr_version t (root_of (ns, ss) ls)) = Some (tr_version t (root_of (ns, ss) ls))"
proof (induction ls arbitrary: ns ss)
  case Nil
  then show ?case by (cases ns) (auto simp: root_of_def)
next
  case (Cons l ls)
  obtain ps ts where l: "l = (ps, ts)" by fastforce
  have "nv_stable (tr_version t (root_of (ps, ts) ls)) = Some (tr_version t (root_of (ps, ts) ls))"
    using Cons.prems(1) by (intro Cons.IH) (auto simp: l inner_ok_def intro: idle_stable)
  then show ?case by (simp add: root_of_def l)
qed

text \<open>
  C26.  A search for a key goes from the root to the leaf that is responsible for it: the one before the first separator
  that is greater than the slice of the key.  It takes one step for each level.
\<close>

theorem reach_leaf_correct:
  assumes "tree_ok W t (ns, ss) ls" and "sorted_wrt (<) ss" and "is_root (tr_version t (root_of (ns, ss) ls))"
    and "\<forall>a \<in> set ns. nv_isleaf (tr_version t a) \<and> nv_stable (tr_version t a) = Some (tr_version t a)" and "length ls < fuel"
  shows "reach_leaf fuel W ka t (root_of (ns, ss) ls) = Inr (ns ! rank ka ss, tr_version t (ns ! rank ka ss)) \<and> rank ka ss < length ns"
proof -
  let ?r = "root_of (ns, ss) ls"
  have lev: "levels_ok W t (ns, ss) ls" using assms(1) by (simp add: tree_ok_def)
  have rank: "rank ka ss < length ns"
    using levels_length [OF lev] length_takeWhile_le [of "\<lambda>s. s \<le> ka" ss] by (simp add: rank_def)
  then have leaf: "nv_isleaf (tr_version t (ns ! rank ka ss))" using assms(4) by auto
  obtain f where f: "fuel = length ls + Suc f" using less_imp_Suc_add [OF assms(5)] by auto
  have down: "reach_down fuel W ka t ?r (tr_version t ?r) = Inr (ns ! rank ka ss, tr_version t (ns ! rank ka ss))"
    using reach_down_levels [OF lev assms(2), of "Suc f" ka] assms(4) leaf by (simp add: f)
  have "nv_stable (tr_version t ?r) = Some (tr_version t ?r)"
    using root_stable [OF lev] assms(4) by blast
  then have "reach_root fuel t ?r = Inr (?r, tr_version t ?r)" using assms(3) by (simp add: f)
  then show ?thesis using down rank by (simp add: reach_leaf_def)
qed

section \<open>A small tree\<close>

text \<open>A full root with two leaves, and a third leaf that has been split off from the first one.\<close>

definition demo_tree :: tree where
  "demo_tree = \<lparr>tr_inode = [10 \<mapsto> \<lparr>in_nkeys = 1, in_ikey0 = [50], in_child = [Some 0, Some 1]\<rparr>],
     tr_parent = [0 \<mapsto> 10, 1 \<mapsto> 10], tr_version = (\<lambda>a. if a = 10 then root_bit else isleaf_bit OR nv_lock_bit), tr_next = 11\<rparr>"

lemma demo_tree_ok: "tree_ok 1 demo_tree ([0, 1], [50]) [([10], [])]"
  by (simp add: tree_ok_def demo_tree_def children_def separators_def inner_ok_def kids_def keys_def inode_ok_def sizes_ok_def
      idle_root)

theorem split_up_correct_witness:
  "\<exists>t' ls'. split_up 2 1 0 0 2 30 0 demo_tree = Inr t' \<and> tree_ok 1 t' ([0, 2, 1], [30, 50]) ls'"
  using split_up_correct [of 1 demo_tree "[]" 0 "[1]" "[50]" "[([10], [])]" 30 2 0 2 0] demo_tree_ok
  by (simp add: ins_def may_split_def) (simp add: demo_tree_def nv_bit_defs bit_or_iff)

theorem reach_leaf_correct_witness:
  "reach_leaf 2 1 70 demo_tree 10 = Inr (1, isleaf_bit OR nv_lock_bit) \<and> reach_leaf 2 1 20 demo_tree 10 = Inr (0, isleaf_bit OR nv_lock_bit)"
proof -
  have "is_root root_bit" "nv_isleaf (isleaf_bit OR nv_lock_bit)" "nv_stable (isleaf_bit OR nv_lock_bit) = Some (isleaf_bit OR nv_lock_bit)"
    by (simp_all add: is_root_def nv_isleaf_def nv_stable_def bit_or_iff)
  then show ?thesis
    using reach_leaf_correct [OF demo_tree_ok, of 2 70] reach_leaf_correct [OF demo_tree_ok, of 2 20]
    by (simp add: root_of_def rank_def demo_tree_def)
qed

end
