(* ===== verification/Masstree_Links.thy ===== *)
theory Masstree_Links
  imports Rolis_Prelude
begin

text \<open>
  The doubly linked list of the leaves of a Masstree layer (\<^verbatim>\<open>masstree/btree_leaflink.hh\<close>).  The version for
  concurrent trees marks a next pointer (in its lowest bit) while it works on it; here the mark is a field of
  its own.  The spinning of \<^verbatim>\<open>lock_next\<close> and \<^verbatim>\<open>unlink\<close> on a pointer that another thread has marked is
  \<open>Spins\<close>.  The version for single threaded trees has no marks.
\<close>

section \<open>The code\<close>

record link =
  lk_next :: "nat option"
  lk_mark :: bool
  lk_prev :: "nat option"

type_synonym links = "nat \<rightharpoonup> link"

definition link_at :: "nat \<Rightarrow> links \<Rightarrow> link result" where
  "link_at a h = (case h a of None \<Rightarrow> Inl Out_Of_Bounds | Some l \<Rightarrow> Inr l)"

definition set_next :: "nat \<Rightarrow> nat option \<Rightarrow> bool \<Rightarrow> links \<Rightarrow> links result" where
  "set_next a x m h = rbind (link_at a h) (\<lambda>l. Inr (h(a \<mapsto> l\<lparr>lk_next := x, lk_mark := m\<rparr>)))"

definition set_prev :: "nat \<Rightarrow> nat option \<Rightarrow> links \<Rightarrow> links result" where
  "set_prev a x h = rbind (link_at a h) (\<lambda>l. Inr (h(a \<mapsto> l\<lparr>lk_prev := x\<rparr>)))"

definition lock_next :: "nat \<Rightarrow> links \<Rightarrow> (nat option \<times> links) result" where
  "lock_next n h = rbind (link_at n h) (\<lambda>l.
     if lk_next l = None then Inr (None, h)
     else if lk_mark l then Inl Spins
     else rbind (set_next n (lk_next l) True h) (\<lambda>h. Inr (lk_next l, h)))"

definition link_split :: "nat \<Rightarrow> nat \<Rightarrow> links \<Rightarrow> links result" where
  "link_split n nr h =
     rbind (set_prev nr (Some n) h) (\<lambda>h. rbind (lock_next n h) (\<lambda>(nx, h).
     rbind (set_next nr nx False h) (\<lambda>h.
     rbind (case nx of None \<Rightarrow> Inr h | Some x \<Rightarrow> set_prev x (Some nr) h) (set_next n (Some nr) False))))"

definition unlink :: "nat \<Rightarrow> links \<Rightarrow> links result" where
  "unlink n h = rbind (lock_next n h) (\<lambda>(nx, h). rbind (link_at n h) (\<lambda>l.
     case lk_prev l of None \<Rightarrow> Inl Out_Of_Bounds
     | Some p \<Rightarrow> rbind (link_at p h) (\<lambda>pl.
         if lk_next pl = Some n \<and> \<not> lk_mark pl then
           rbind (set_next p (Some n) True h) (\<lambda>h.
           rbind (case nx of None \<Rightarrow> Inr h | Some x \<Rightarrow> set_prev x (Some p) h) (set_next p nx False))
         else Inl Spins)))"

definition link_split_st :: "nat \<Rightarrow> nat \<Rightarrow> links \<Rightarrow> links result" where
  "link_split_st n nr h =
     rbind (set_prev nr (Some n) h) (\<lambda>h. rbind (link_at n h) (\<lambda>l. rbind (set_next nr (lk_next l) False h) (\<lambda>h.
     rbind (set_next n (Some nr) False h) (\<lambda>h.
     case lk_next l of None \<Rightarrow> Inr h | Some x \<Rightarrow> set_prev x (Some nr) h))))"

definition unlink_st :: "nat \<Rightarrow> links \<Rightarrow> links result" where
  "unlink_st n h = rbind (link_at n h) (\<lambda>l.
     rbind (case lk_next l of None \<Rightarrow> Inr h | Some x \<Rightarrow> set_prev x (lk_prev l) h) (\<lambda>h.
     case lk_prev l of None \<Rightarrow> Inl Out_Of_Bounds | Some p \<Rightarrow> set_next p (lk_next l) False h))"

section \<open>The list on the heap\<close>

definition head :: "nat list \<Rightarrow> nat option" where
  "head xs = (case xs of [] \<Rightarrow> None | x # _ \<Rightarrow> Some x)"

lemma head_simps [simp]: "head [] = None" "head (x # xs) = Some x"
  by (simp_all add: head_def)

text \<open>
  \<open>seg h p xs q\<close>: the leaves \<open>xs\<close> hang together, with \<open>p\<close> before the first and \<open>q\<close> after the last, and
  no pointer is marked.
\<close>

fun seg :: "links \<Rightarrow> nat option \<Rightarrow> nat list \<Rightarrow> nat option \<Rightarrow> bool" where
  "seg h p [] q \<longleftrightarrow> True"
| "seg h p (x # xs) q \<longleftrightarrow>
     h x = Some \<lparr>lk_next = (if xs = [] then q else head xs), lk_mark = False, lk_prev = p\<rparr> \<and> seg h (Some x) xs q"

definition leaf_list :: "links \<Rightarrow> nat list \<Rightarrow> bool" where
  "leaf_list h xs \<longleftrightarrow> distinct xs \<and> seg h None xs None"

definition last_or :: "nat option \<Rightarrow> nat list \<Rightarrow> nat option" where
  "last_or p xs = (if xs = [] then p else Some (last xs))"

definition first_or :: "nat list \<Rightarrow> nat option \<Rightarrow> nat option" where
  "first_or xs q = (if xs = [] then q else head xs)"

lemma seg_append: "seg h p (xs @ ys) q \<longleftrightarrow> seg h p xs (first_or ys q) \<and> seg h (last_or p xs) ys q"
  by (induction xs arbitrary: p) (auto simp: last_or_def first_or_def head_def split: list.splits)

lemma seg_frame [simp]: "x \<notin> set xs \<Longrightarrow> seg (h(x := v)) p xs q = seg h p xs q"
  by (induction xs arbitrary: p) auto

section \<open>What the operations do\<close>

lemmas link_defs = link_at_def set_next_def set_prev_def lock_next_def

text \<open>
  C27.  \<^verbatim>\<open>link_split\<close> puts the new leaf into the list right behind the leaf that was split, and \<^verbatim>\<open>unlink\<close> takes a leaf
  that has a predecessor out of it; the pointers in both directions fit again and no mark is left.  The versions for
  concurrent and for single threaded trees give the same list.
\<close>

theorem leaf_links_correct:
  assumes "leaf_list h (as @ n # bs)" and "nr \<notin> set (as @ n # bs)" and "h nr = Some l0"
  shows "\<exists>h1 h2. link_split n nr h = Inr h1 \<and> link_split_st n nr h = Inr h2 \<and>
      leaf_list h1 (as @ n # nr # bs) \<and> leaf_list h2 (as @ n # nr # bs) \<and>
    (as \<noteq> [] \<longrightarrow> (\<exists>h3 h4. unlink n h = Inr h3 \<and> unlink_st n h = Inr h4 \<and> leaf_list h3 (as @ bs) \<and> leaf_list h4 (as @ bs)))"
proof -
  have dist: "distinct (as @ n # bs)" and nr: "nr \<notin> set as" "nr \<noteq> n" "nr \<notin> set bs" using assms(1,2) by (auto simp: leaf_list_def)
  have sa: "seg h None as (Some n)" and hn: "h n = Some \<lparr>lk_next = head bs, lk_mark = False, lk_prev = last_or None as\<rparr>"
    and sb: "seg h (Some n) bs None"
    using assms(1) by (auto simp: leaf_list_def seg_append first_or_def)
  have split: "\<exists>h1 h2. link_split n nr h = Inr h1 \<and> link_split_st n nr h = Inr h2 \<and>
      leaf_list h1 (as @ n # nr # bs) \<and> leaf_list h2 (as @ n # nr # bs)"
  proof (cases bs)
    case Nil
    then show ?thesis
      using dist nr hn sa assms(3) by (simp add: link_split_def link_split_st_def link_defs leaf_list_def seg_append first_or_def fun_upd_twist)
  next
    case (Cons b cs)
    then show ?thesis
      using dist nr hn sa sb assms(3)
      by (auto simp: link_split_def link_split_st_def link_defs leaf_list_def seg_append first_or_def)
  qed
  have unlink: "\<exists>h3 h4. unlink n h = Inr h3 \<and> unlink_st n h = Inr h4 \<and> leaf_list h3 (as @ bs) \<and> leaf_list h4 (as @ bs)"
    if ne: "as \<noteq> []"
  proof -
    obtain cs p where as: "as = cs @ [p]" using ne by (cases as rule: rev_cases) auto
    have hp: "h p = Some \<lparr>lk_next = Some n, lk_mark = False, lk_prev = last_or None cs\<rparr>" and sc: "seg h None cs (Some p)"
      using sa by (auto simp: as seg_append first_or_def)
    show ?thesis
    proof (cases bs)
      case Nil
      then show ?thesis
        using dist hn hp sc by (simp add: as unlink_def unlink_st_def link_defs leaf_list_def seg_append first_or_def last_or_def)
    next
      case (Cons b ds)
      then show ?thesis
        using dist hn hp sc sb
        by (auto simp: as unlink_def unlink_st_def link_defs leaf_list_def seg_append first_or_def last_or_def)
    qed
  qed
  from split unlink show ?thesis by blast
qed

theorem leaf_links_correct_witness:
  "\<exists>h1. link_split 2 9 [1 \<mapsto> \<lparr>lk_next = Some 2, lk_mark = False, lk_prev = None\<rparr>, 2 \<mapsto> \<lparr>lk_next = Some 3, lk_mark = False, lk_prev = Some 1\<rparr>,
      3 \<mapsto> \<lparr>lk_next = None, lk_mark = False, lk_prev = Some 2\<rparr>, 9 \<mapsto> \<lparr>lk_next = None, lk_mark = True, lk_prev = None\<rparr>] = Inr h1 \<and>
    leaf_list h1 [1, 2, 9, 3]"
  using leaf_links_correct [of "[1 \<mapsto> \<lparr>lk_next = Some 2, lk_mark = False, lk_prev = None\<rparr>, 2 \<mapsto> \<lparr>lk_next = Some 3, lk_mark = False, lk_prev = Some 1\<rparr>,
      3 \<mapsto> \<lparr>lk_next = None, lk_mark = False, lk_prev = Some 2\<rparr>, 9 \<mapsto> \<lparr>lk_next = None, lk_mark = True, lk_prev = None\<rparr>]" "[1]" 2 "[3]" 9]
  by (auto simp: leaf_list_def)

end
