(* ===== verification/Masstree_Stringbag.thy ===== *)
theory Masstree_Stringbag
  imports Rolis_Prelude
begin

text \<open>
  \<^verbatim>\<open>stringbag<T>\<close> (\<^verbatim>\<open>masstree/stringbag.hh\<close>): the key suffixes of a leaf in one piece of memory, with the place and the
  length of the suffix of each slot.  \<open>w\<close> is the width of the offset type, 8 bits for the bag inside a leaf and 16
  for one outside.  The header lies at the start of the memory; a copy that would run over it is an error.
\<close>

section \<open>The code\<close>

record bag =
  bg_size :: nat
  bg_capacity :: nat
  bg_info :: "(nat \<times> nat) list"
  bg_mem :: bytes

definition bag_slice :: nat where "bag_slice = 8"

definition bag_max_size :: "nat \<Rightarrow> nat" where
  "bag_max_size w = (2 ^ w - 1) + 1"

definition bag_overhead :: "nat \<Rightarrow> nat \<Rightarrow> nat" where
  "bag_overhead w width = 2 * (w div 8) + width * (2 * (w div 8))"

definition bag_safe_size :: "nat \<Rightarrow> nat \<Rightarrow> nat \<Rightarrow> nat" where
  "bag_safe_size w width len = bag_overhead w width + len + bag_slice - 1"

text \<open>The memory of a new bag is an argument, with anything in it.\<close>

definition bag_new :: "nat \<Rightarrow> nat \<Rightarrow> bytes \<Rightarrow> bag result" where
  "bag_new w width mem = (let capacity = length mem; firstpos = bag_overhead w width
     in rbind (rassert (firstpos \<le> capacity \<and> capacity \<le> bag_max_size w)) (\<lambda>_.
        Inr \<lparr>bg_size = firstpos mod 2 ^ w, bg_capacity = (capacity - 1) mod 2 ^ w, bg_info = replicate width (0, 0), bg_mem = mem\<rparr>))"

definition capacity :: "bag \<Rightarrow> nat" where "capacity b = bg_capacity b + 1"

definition used_capacity :: "bag \<Rightarrow> nat" where "used_capacity b = bg_size b"

definition bag_get :: "bag \<Rightarrow> nat \<Rightarrow> bytes result" where
  "bag_get b p = rbind (vec_at (bg_info b) p) (\<lambda>(pos, len). mem_read (bg_mem b) pos len)"

definition bag_store :: "nat \<Rightarrow> nat \<Rightarrow> nat \<Rightarrow> bytes \<Rightarrow> bag \<Rightarrow> bag result" where
  "bag_store w p pos s b =
     rbind (if s = [] then Inr (bg_mem b)
            else if bag_overhead w (length (bg_info b)) \<le> pos then mem_write (bg_mem b) pos s else Inl Out_Of_Bounds) (\<lambda>m.
     Inr (b\<lparr>bg_mem := m, bg_info := (bg_info b)[p := (pos mod 2 ^ w, length s mod 2 ^ w)]\<rparr>))"

definition bag_assign :: "nat \<Rightarrow> nat \<Rightarrow> bytes \<Rightarrow> bag \<Rightarrow> (bool \<times> bag) result" where
  "bag_assign w p s b = rbind (vec_at (bg_info b) p) (\<lambda>(mypos, mylen).
     if length s \<le> mylen then rbind (bag_store w p mypos s b) (\<lambda>b. Inr (True, b))
     else if bg_size b + max (length s) bag_slice \<le> capacity b then
       rbind (bag_store w p (bg_size b) s (b\<lparr>bg_size := (bg_size b + length s) mod 2 ^ w\<rparr>)) (\<lambda>b. Inr (True, b))
     else Inr (False, b))"

section \<open>What a bag holds\<close>

definition inside :: "nat \<Rightarrow> nat \<Rightarrow> nat \<times> nat \<Rightarrow> bool" where
  "inside lo hi i \<longleftrightarrow> snd i = 0 \<and> fst i \<le> hi \<or> lo \<le> fst i \<and> fst i + snd i \<le> hi"

definition apart :: "nat \<times> nat \<Rightarrow> nat \<times> nat \<Rightarrow> bool" where
  "apart i j \<longleftrightarrow> snd i = 0 \<or> snd j = 0 \<or> fst i + snd i \<le> fst j \<or> fst j + snd j \<le> fst i"

definition bag_ok :: "nat \<Rightarrow> bag \<Rightarrow> bool" where
  "bag_ok w b \<longleftrightarrow> bag_overhead w (length (bg_info b)) \<le> bg_size b \<and> bg_size b \<le> capacity b \<and> capacity b < 2 ^ w \<and>
     length (bg_mem b) = capacity b \<and>
     (\<forall>p < length (bg_info b). inside (bag_overhead w (length (bg_info b))) (bg_size b) (bg_info b ! p)) \<and>
     (\<forall>p < length (bg_info b). \<forall>q < length (bg_info b). p \<noteq> q \<longrightarrow> apart (bg_info b ! p) (bg_info b ! q))"

lemma mem_write_apart:
  assumes "mem_write m pos s = Inr m'" and "apart (pos, length s) (a, n)" and "a + n \<le> length m"
  shows "mem_read m' a n = mem_read m a n"
proof -
  have m': "m' = take pos m @ s @ drop (pos + length s) m" "pos + length s \<le> length m"
    using assms(1) by (auto simp: mem_write_def split: if_splits)
  consider "s = []" | "n = 0" | "a + n \<le> pos" | "pos + length s \<le> a" using assms(2) by (auto simp: apart_def)
  then have "take n (drop a m') = take n (drop a m)"
  proof cases
    case 3
    then show ?thesis using m'(2) by (simp add: m'(1) drop_take)
  next
    case 4
    then show ?thesis using m'(2) by (simp add: m'(1))
  qed (simp_all add: m'(1))
  then show ?thesis using m' assms(3) by (simp add: mem_read_def)
qed

lemma bag_store_ok:
  assumes ok: "bag_ok w b" and p: "p < length (bg_info b)" and sz: "bg_size b \<le> z" "z \<le> capacity b"
    and i: "inside (bag_overhead w (length (bg_info b))) z (pos, length s)"
    and free: "\<And>q. q < length (bg_info b) \<Longrightarrow> q \<noteq> p \<Longrightarrow> apart (pos, length s) (bg_info b ! q)"
  obtains b' where "bag_store w p pos s (b\<lparr>bg_size := z\<rparr>) = Inr b'" "bag_ok w b'" "bag_get b' p = Inr s"
    "\<And>q. q \<noteq> p \<Longrightarrow> bag_get b' q = bag_get b q" "bg_size b' = z" "capacity b' = capacity b" "length (bg_info b') = length (bg_info b)"
proof -
  let ?lo = "bag_overhead w (length (bg_info b))"
  have cap: "capacity b < 2 ^ w" and mem: "length (bg_mem b) = capacity b" using ok by (simp_all add: bag_ok_def)
  have pos: "pos + length s \<le> z" using i by (auto simp: inside_def)
  define m where "m = (if s = [] then bg_mem b else take pos (bg_mem b) @ s @ drop (pos + length s) (bg_mem b))"
  have m: "(if s = [] then Inr (bg_mem b) else if ?lo \<le> pos then mem_write (bg_mem b) pos s else Inl Out_Of_Bounds) = Inr m"
    "length m = capacity b"
    using i pos sz mem by (auto simp: m_def inside_def mem_write_def)
  define b' where "b' = b\<lparr>bg_size := z, bg_mem := m, bg_info := (bg_info b)[p := (pos, length s)]\<rparr>"
  have run: "bag_store w p pos s (b\<lparr>bg_size := z\<rparr>) = Inr b'"
  proof -
    let ?b = "b\<lparr>bg_size := z\<rparr>"
    have "(if s = [] then Inr (bg_mem ?b) else if bag_overhead w (length (bg_info ?b)) \<le> pos
        then mem_write (bg_mem ?b) pos s else Inl Out_Of_Bounds) = Inr m" using m(1) by (simp split: if_splits)
    from this show ?thesis unfolding bag_store_def using pos sz cap by (simp only: rbind_simps) (simp add: b'_def)
  qed
  have cap': "capacity b' = capacity b" by (simp add: b'_def capacity_def)
  have info: "bg_info b' ! q = (if q = p then (pos, length s) else bg_info b ! q)" if "q < length (bg_info b)" for q
    using that by (simp add: b'_def nth_list_update)
  have ok': "bag_ok w b'"
    unfolding bag_ok_def cap'
  proof (intro conjI allI impI)
    fix q assume "q < length (bg_info b')"
    then have q: "q < length (bg_info b)" by (simp add: b'_def)
    have "inside ?lo (bg_size b) (bg_info b ! q)" using ok q by (simp add: bag_ok_def)
    then have "inside ?lo z (bg_info b ! q)" using sz(1) by (auto simp: inside_def)
    then show "inside (bag_overhead w (length (bg_info b'))) (bg_size b') (bg_info b' ! q)"
      using i info [OF q] by (simp add: b'_def)
  next
    fix q r assume "q < length (bg_info b')" "r < length (bg_info b')" "q \<noteq> r"
    then have q: "q < length (bg_info b)" and r: "r < length (bg_info b)" by (simp_all add: b'_def)
    have "apart (bg_info b ! q) (bg_info b ! r)" using ok q r \<open>q \<noteq> r\<close> by (simp add: bag_ok_def)
    then show "apart (bg_info b' ! q) (bg_info b' ! r)"
      using info [OF q] info [OF r] free [OF q] free [OF r] \<open>q \<noteq> r\<close> by (auto simp: apart_def)
  qed (use ok sz m(2) in \<open>auto simp: bag_ok_def b'_def capacity_def\<close>)
  have get: "bag_get b' p = Inr s"
    using info [OF p] p pos sz mem m(2) by (auto simp: bag_get_def b'_def mem_read_def m_def)
  have others: "bag_get b' q = bag_get b q" if "q \<noteq> p" for q
  proof (cases "q < length (bg_info b)")
    case True
    obtain a n where an: "bg_info b ! q = (a, n)" by fastforce
    have "a + n \<le> length (bg_mem b)" using ok True an by (fastforce simp: bag_ok_def inside_def)
    moreover have "apart (pos, length s) (a, n)" using free [OF True that] an by simp
    ultimately have "mem_read m a n = mem_read (bg_mem b) a n"
      using m(1) mem_write_apart [of "bg_mem b" pos s m a n] by (auto split: if_splits)
    then show ?thesis using True that an by (simp add: bag_get_def b'_def)
  qed (simp add: bag_get_def b'_def vec_at_def)
  have "bg_size b' = z" "length (bg_info b') = length (bg_info b)" by (simp_all add: b'_def)
  from that [OF run ok' get others this(1) cap' this(2)] show thesis .
qed

lemma bag_assign_ok:
  assumes ok: "bag_ok w b" and p: "p < length (bg_info b)"
  obtains (stored) b' where "bag_assign w p s b = Inr (True, b')" "bag_ok w b'" "bag_get b' p = Inr s"
    "\<And>q. q \<noteq> p \<Longrightarrow> bag_get b' q = bag_get b q" "bg_size b' \<le> bg_size b + length s" "capacity b' = capacity b"
    "length (bg_info b') = length (bg_info b)"
  | (full) "bag_assign w p s b = Inr (False, b)" "capacity b < bg_size b + max (length s) bag_slice" "s \<noteq> []"
proof -
  obtain mypos mylen where my: "bg_info b ! p = (mypos, mylen)" by fastforce
  let ?lo = "bag_overhead w (length (bg_info b))"
  have in_p: "inside ?lo (bg_size b) (mypos, mylen)" using ok p my by (auto simp: bag_ok_def)
  have apart_p: "apart (mypos, mylen) (bg_info b ! q)" if "q < length (bg_info b)" "q \<noteq> p" for q
    using ok p that my by (metis bag_ok_def)
  consider (reuse) "length s \<le> mylen" | (append) "mylen < length s" "bg_size b + max (length s) bag_slice \<le> capacity b"
    | (no) "mylen < length s" "capacity b < bg_size b + max (length s) bag_slice" by linarith
  then show thesis
  proof cases
    case reuse
    have "inside ?lo (bg_size b) (mypos, length s)" using in_p reuse by (auto simp: inside_def)
    moreover have "apart (mypos, length s) (bg_info b ! q)" if "q < length (bg_info b)" "q \<noteq> p" for q
      using apart_p [OF that] reuse by (auto simp: apart_def)
    ultimately obtain b' where b': "bag_store w p mypos s (b\<lparr>bg_size := bg_size b\<rparr>) = Inr b'" "bag_ok w b'" "bag_get b' p = Inr s"
      "\<And>q. q \<noteq> p \<Longrightarrow> bag_get b' q = bag_get b q" "bg_size b' = bg_size b" "capacity b' = capacity b" "length (bg_info b') = length (bg_info b)"
      using ok by (elim bag_store_ok [OF ok p order_refl, rotated]) (auto simp: bag_ok_def)
    from b' reuse p my show thesis by (intro stored [of b']) (simp_all add: bag_assign_def)
  next
    case append
    have len: "bg_size b + length s \<le> capacity b" using append(2) by simp
    have wrap: "(bg_size b + length s) mod 2 ^ w = bg_size b + length s" using ok len by (simp add: bag_ok_def)
    have "inside ?lo (bg_size b + length s) (bg_size b, length s)" using ok by (simp add: inside_def bag_ok_def)
    moreover have "apart (bg_size b, length s) (bg_info b ! q)" if "q < length (bg_info b)" "q \<noteq> p" for q
    proof -
      have "inside ?lo (bg_size b) (bg_info b ! q)" using ok that by (simp add: bag_ok_def)
      then show ?thesis by (auto simp: inside_def apart_def)
    qed
    ultimately obtain b' where b': "bag_store w p (bg_size b) s (b\<lparr>bg_size := bg_size b + length s\<rparr>) = Inr b'" "bag_ok w b'" "bag_get b' p = Inr s"
      "\<And>q. q \<noteq> p \<Longrightarrow> bag_get b' q = bag_get b q" "bg_size b' = bg_size b + length s" "capacity b' = capacity b" "length (bg_info b') = length (bg_info b)"
      using len by (elim bag_store_ok [OF ok p le_add1, rotated]) auto
    from b' append p my wrap show thesis by (intro stored [of b']) (simp_all add: bag_assign_def)
  next
    case no
    then show thesis using p my by (intro full) (auto simp: bag_assign_def)
  qed
qed

lemma bag_new_ok:
  assumes "bag_overhead w width \<le> length mem" and "length mem < 2 ^ w" and "0 < length mem"
  obtains b where "bag_new w width mem = Inr b" "bag_ok w b" "length (bg_info b) = width" "bg_size b = bag_overhead w width"
    "capacity b = length mem" "\<And>p. p < width \<Longrightarrow> bag_get b p = Inr []"
  using assms
  by (intro that [of "\<lparr>bg_size = bag_overhead w width, bg_capacity = length mem - 1, bg_info = replicate width (0, 0), bg_mem = mem\<rparr>"])
    (auto simp: bag_new_def bag_max_size_def bag_ok_def capacity_def inside_def apart_def bag_get_def mem_read_def)

section \<open>The interface of a leaf's suffixes\<close>

text \<open>
  What a leaf needs of a bag: a suffix that is put in is read back, the others stay, and there is room as long as
  the capacity is not used up.  Filling an empty bag of the size that \<^verbatim>\<open>safe_size\<close> computes then never fails.
\<close>

locale suffix_store =
  fixes valid :: "'b \<Rightarrow> bool" and get :: "'b \<Rightarrow> nat \<Rightarrow> bytes result" and put :: "nat \<Rightarrow> bytes \<Rightarrow> 'b \<Rightarrow> (bool \<times> 'b) result"
    and width :: "'b \<Rightarrow> nat" and used :: "'b \<Rightarrow> nat" and total :: "'b \<Rightarrow> nat"
  assumes put_cases: "valid b \<Longrightarrow> p < width b \<Longrightarrow>
      (\<exists>b'. put p s b = Inr (True, b') \<and> valid b' \<and> width b' = width b \<and> total b' = total b \<and> used b' \<le> used b + length s \<and>
        get b' p = Inr s \<and> (\<forall>q. q \<noteq> p \<longrightarrow> get b' q = get b q)) \<or>
      (put p s b = Inr (False, b) \<and> s \<noteq> [] \<and> total b < used b + max (length s) bag_slice)"
begin

lemma put_all:
  assumes "valid b" and "\<And>p. p \<in> set ps \<Longrightarrow> p < width b" and "distinct ps"
    and "used b + sum_list (map (length \<circ> f) ps) + bag_slice - 1 \<le> total b"
  shows "\<exists>b'. for_each (\<lambda>p b. rbind (put p (f p) b) (\<lambda>(ok, b). rbind (rassert ok) (\<lambda>_. Inr b))) ps b = Inr b' \<and> valid b' \<and>
    width b' = width b \<and> total b' = total b \<and> used b' \<le> used b + sum_list (map (length \<circ> f) ps) \<and>
    (\<forall>p \<in> set ps. get b' p = Inr (f p)) \<and> (\<forall>q. q \<notin> set ps \<longrightarrow> get b' q = get b q)"
  using assms
proof (induction ps arbitrary: b)
  case Nil
  then show ?case by simp
next
  case (Cons p ps)
  have "\<not> total b < used b + max (length (f p)) bag_slice \<or> f p = []"
    using Cons.prems(4) by (cases "f p") (auto simp: bag_slice_def)
  then obtain b1 where b1: "put p (f p) b = Inr (True, b1)" "valid b1" "width b1 = width b" "total b1 = total b"
    "used b1 \<le> used b + length (f p)" "get b1 p = Inr (f p)" "\<And>q. q \<noteq> p \<Longrightarrow> get b1 q = get b q"
    using put_cases [OF Cons.prems(1), of p "f p"] Cons.prems(2) by auto
  have room: "used b1 + sum_list (map (length \<circ> f) ps) + bag_slice - 1 \<le> total b1"
    using Cons.prems(4) b1(4,5) by (simp add: comp_def bag_slice_def)
  obtain b' where b': "for_each (\<lambda>p b. rbind (put p (f p) b) (\<lambda>(ok, b). rbind (rassert ok) (\<lambda>_. Inr b))) ps b1 = Inr b'"
    "valid b'" "width b' = width b1" "total b' = total b1" "used b' \<le> used b1 + sum_list (map (length \<circ> f) ps)"
    "\<forall>p \<in> set ps. get b' p = Inr (f p)" "\<forall>q. q \<notin> set ps \<longrightarrow> get b' q = get b1 q"
    using Cons.IH [OF b1(2) _ _ room] Cons.prems(2,3) b1(3) by (simp add: comp_def) blast
  have "get b' p = Inr (f p)" using b'(7) b1(6) Cons.prems(3) by simp
  with b' b1 show ?case by (auto simp: comp_def)
qed

end

interpretation bags: suffix_store "bag_ok w" bag_get "bag_assign w" "\<lambda>b. length (bg_info b)" bg_size capacity for w
proof unfold_locales
  fix b :: bag and p :: nat and s :: bytes
  assume b: "bag_ok w b" "p < length (bg_info b)"
  show "(\<exists>b'. bag_assign w p s b = Inr (True, b') \<and> bag_ok w b' \<and> length (bg_info b') = length (bg_info b) \<and> capacity b' = capacity b \<and>
      bg_size b' \<le> bg_size b + length s \<and> bag_get b' p = Inr s \<and> (\<forall>q. q \<noteq> p \<longrightarrow> bag_get b' q = bag_get b q)) \<or>
    (bag_assign w p s b = Inr (False, b) \<and> s \<noteq> [] \<and> capacity b < bg_size b + max (length s) bag_slice)"
    by (cases rule: bag_assign_ok [OF b, of s]) blast+
qed

section \<open>What a bag holds and its limits\<close>

text \<open>
  C40.  A bag of the capacity that \<^verbatim>\<open>safe_size\<close> gives for its width and the total length of the strings takes all of them,
  one for each of the given slots: no assignment fails, every string is read back from its slot, and the other slots are
  still empty.
\<close>

theorem safe_size_bag_holds_all:
  assumes "distinct ps" and "\<And>p. p \<in> set ps \<Longrightarrow> p < width"
    and "length mem = bag_safe_size w width (sum_list (map (length \<circ> f) ps))" and "length mem < 2 ^ w"
  shows "\<exists>b b'. bag_new w width mem = Inr b \<and>
    for_each (\<lambda>p b. rbind (bag_assign w p (f p) b) (\<lambda>(ok, b). rbind (rassert ok) (\<lambda>_. Inr b))) ps b = Inr b' \<and>
    (\<forall>p \<in> set ps. bag_get b' p = Inr (f p)) \<and> (\<forall>q < width. q \<notin> set ps \<longrightarrow> bag_get b' q = Inr [])"
proof -
  obtain b where b: "bag_new w width mem = Inr b" "bag_ok w b" "length (bg_info b) = width" "bg_size b = bag_overhead w width"
    "capacity b = length mem" "\<And>p. p < width \<Longrightarrow> bag_get b p = Inr []"
    using assms(3,4) by (elim bag_new_ok [of w width mem, rotated -1]) (simp_all add: bag_safe_size_def bag_slice_def)
  have "bg_size b + sum_list (map (length \<circ> f) ps) + bag_slice - 1 \<le> capacity b"
    using b(4,5) assms(3) by (simp add: bag_safe_size_def)
  from bags.put_all [OF b(2) _ assms(1) this] assms(2) b(1,3,6) show ?thesis by fastforce
qed

theorem safe_size_bag_holds_all_witness:
  "\<exists>b b'. bag_new 8 3 (replicate 31 0) = Inr b \<and>
    for_each (\<lambda>p b. rbind (bag_assign 8 p [1, 2, 3, of_nat p, 4, 5, 6, 7] b) (\<lambda>(ok, b). rbind (rassert ok) (\<lambda>_. Inr b))) [2, 0] b = Inr b' \<and>
    (\<forall>p \<in> set [2, 0]. bag_get b' p = Inr [1, 2, 3, of_nat p, 4, 5, 6, 7]) \<and> (\<forall>q < 3. q \<notin> set [2, 0] \<longrightarrow> bag_get b' q = Inr [])"
  by (rule safe_size_bag_holds_all) (auto simp: bag_safe_size_def bag_overhead_def bag_slice_def)

text \<open>
  The constructor accepts a capacity of \<open>2 ^ w\<close> bytes, one more than the offset type can count.  A string that fills
  such a bag makes the size wrap to zero, and the next string is copied over the header.
\<close>

theorem full_size_bag_wraps:
  fixes x :: u8 and mem :: bytes
  assumes "length mem = 256"
  shows "\<exists>b b'. bag_new 8 2 mem = Inr b \<and> bag_assign 8 0 (replicate 250 x) b = Inr (True, b') \<and> used_capacity b' = 0 \<and>
    bag_assign 8 1 [x] b' = Inl Out_Of_Bounds"
  using assms
  by (simp add: bag_new_def bag_max_size_def bag_overhead_def bag_assign_def bag_store_def capacity_def bag_slice_def used_capacity_def
      mem_write_def Let_def)

theorem full_size_bag_wraps_witness:
  "\<exists>b b'. bag_new 8 2 (replicate 256 0) = Inr b \<and> bag_assign 8 0 (replicate 250 7) b = Inr (True, b') \<and> used_capacity b' = 0 \<and>
    bag_assign 8 1 [7] b' = Inl Out_Of_Bounds"
  by (rule full_size_bag_wraps) simp

end
