(* ===== verification/Silo_Serializer.thy ===== *)
theory Silo_Serializer
  imports Rolis_Prelude
begin

text \<open>
  Integers in records and logs: the variable-length integers of \<^verbatim>\<open>varint.h\<close> and the serializers of
  \<^verbatim>\<open>record/serializer.h\<close>, fixed-width, compressed unsigned and compressed signed.

  A buffer is the list of the bytes from the current position on.  A writer gives the bytes it
  stores; a reader gives the value and what is left of the buffer, and reading past its end is an
  error.  A failsafe reader is also told how many bytes it may touch; \<open>None\<close> is its \<^verbatim>\<open>nullptr\<close>.

  The contract of a serializer is the locale \<open>serializer_contract\<close>; it is interpreted for each of
  the three, and its consequences (sequences of values, see \<open>read_seq_write_seq\<close>) are what the record
  encoders and the logger rest on.
\<close>

section \<open>Variable-length integers\<close>

text \<open>
  The five unrolled rounds of \<^verbatim>\<open>read_uvint32_slow\<close>: round \<open>i\<close> shifts its seven bits by \<open>7 * i\<close>, and only
  the last one takes the whole byte.
\<close>

definition uv_part :: "nat \<Rightarrow> u8 \<Rightarrow> u32" where
  "uv_part s b = push_bit s (if s = 28 then ucast b else ucast b AND 0x7F)"

fun read_uvint32_rounds :: "nat list \<Rightarrow> u32 \<Rightarrow> bytes \<Rightarrow> (u32 \<times> bytes) result" where
  "read_uvint32_rounds [] result p = Inl Assert_Fail"
| "read_uvint32_rounds (s # ss) result [] = Inl Out_Of_Bounds"
| "read_uvint32_rounds (s # ss) result (b # p) =
     (let result = result OR uv_part s b
      in if b < 0x80 then Inr (result, p) else read_uvint32_rounds ss result p)"

definition read_uvint32_slow :: "bytes \<Rightarrow> (u32 \<times> bytes) result" where
  "read_uvint32_slow buf = read_uvint32_rounds [0, 7, 14, 21, 28] 0 buf"

definition read_uvint32 :: "bytes \<Rightarrow> (u32 \<times> bytes) result" where
  "read_uvint32 buf = (case buf of [] \<Rightarrow> Inl Out_Of_Bounds
     | b # p \<Rightarrow> if b < 0x80 then Inr (ucast b, p) else read_uvint32_slow buf)"

fun failsafe_read_uvint32_rounds ::
    "nat list \<Rightarrow> u32 \<Rightarrow> bytes \<Rightarrow> nat \<Rightarrow> (u32 \<times> bytes) option result" where
  "failsafe_read_uvint32_rounds [] result p nbytes = Inr (Some (result, p))"
| "failsafe_read_uvint32_rounds (s # ss) result p 0 = Inr None"
| "failsafe_read_uvint32_rounds (s # ss) result [] (Suc nbytes) = Inl Out_Of_Bounds"
| "failsafe_read_uvint32_rounds (s # ss) result (b # p) (Suc nbytes) =
     (let result = result OR uv_part s b
      in if b < 0x80 then Inr (Some (result, p)) else failsafe_read_uvint32_rounds ss result p nbytes)"

definition failsafe_read_uvint32_slow :: "bytes \<Rightarrow> nat \<Rightarrow> (u32 \<times> bytes) option result" where
  "failsafe_read_uvint32_slow buf nbytes = failsafe_read_uvint32_rounds [0, 7, 14, 21, 28] 0 buf nbytes"

definition failsafe_read_uvint32 :: "bytes \<Rightarrow> nat \<Rightarrow> (u32 \<times> bytes) option result" where
  "failsafe_read_uvint32 buf nbytes =
     (if nbytes = 0 then Inr None
      else case buf of [] \<Rightarrow> Inl Out_Of_Bounds
        | b # p \<Rightarrow> if b < 0x80 then Inr (Some (ucast b, p)) else failsafe_read_uvint32_slow buf nbytes)"

text \<open>
  Skipping: the number of bytes of the integer and, for a caller that passes a buffer \<^verbatim>\<open>rawv\<close>, the
  bytes copied to it.
\<close>

fun skip_uvint32_rounds :: "nat \<Rightarrow> nat \<Rightarrow> bytes \<Rightarrow> nat result" where
  "skip_uvint32_rounds 0 n stream = Inl Assert_Fail"
| "skip_uvint32_rounds (Suc k) n [] = Inl Out_Of_Bounds"
| "skip_uvint32_rounds (Suc k) n (b # stream) =
     (if b < 0x80 then Inr (Suc n) else skip_uvint32_rounds k (Suc n) stream)"

definition skip_uvint32 :: "bool \<Rightarrow> bytes \<Rightarrow> (nat \<times> bytes) result" where
  "skip_uvint32 rawv stream = rbind (skip_uvint32_rounds 5 0 stream) (\<lambda>n.
     Inr (n, if rawv then take n stream else []))"

fun failsafe_skip_uvint32_rounds :: "nat \<Rightarrow> nat \<Rightarrow> bytes \<Rightarrow> nat \<Rightarrow> nat result" where
  "failsafe_skip_uvint32_rounds 0 n stream nbytes = Inl Assert_Fail"
| "failsafe_skip_uvint32_rounds (Suc k) n stream 0 = Inr 0"
| "failsafe_skip_uvint32_rounds (Suc k) n [] (Suc nbytes) = Inl Out_Of_Bounds"
| "failsafe_skip_uvint32_rounds (Suc k) n (b # stream) (Suc nbytes) =
     (if b < 0x80 then Inr (Suc n) else failsafe_skip_uvint32_rounds k (Suc n) stream nbytes)"

definition failsafe_skip_uvint32 :: "bool \<Rightarrow> bytes \<Rightarrow> nat \<Rightarrow> (nat \<times> bytes) result" where
  "failsafe_skip_uvint32 rawv stream nbytes =
     rbind (failsafe_skip_uvint32_rounds 5 0 stream nbytes) (\<lambda>n.
       Inr (n, if \<not> rawv then [] else if n = 0 then take nbytes stream else take n stream))"

function write_uvint32 :: "u32 \<Rightarrow> bytes" where
  "write_uvint32 value =
     (if 0x7F < value then ((ucast value AND 0x7F) OR 0x80) # write_uvint32 (drop_bit 7 value)
      else [ucast value AND 0x7F])"
  by pat_completeness auto

lemma unat_drop_bit_less: "(0x7F :: u32) < w \<Longrightarrow> unat (drop_bit 7 w) < unat w"
  by (simp add: drop_bit_eq_div unat_div word_less_nat_alt)

termination write_uvint32
  by (relation "measure unat") (simp_all add: unat_drop_bit_less)

declare write_uvint32.simps [simp del]

definition size_uvint32 :: "u32 \<Rightarrow> nat" where
  "size_uvint32 value =
     (if value \<le> 0x7F then 1
      else if value \<le> (push_bit 7 0x7F OR 0x7F) then 2
      else if value \<le> (push_bit 14 0x7F OR push_bit 7 0x7F OR 0x7F) then 3
      else if value \<le> (push_bit 21 0x7F OR push_bit 14 0x7F OR push_bit 7 0x7F OR 0x7F) then 4
      else 5)"

section \<open>Serializers\<close>

text \<open>The general serializer of a type \<^verbatim>\<open>T\<close> stores the memory image of the value.\<close>

definition ser_write :: "'a::len word \<Rightarrow> bytes" where
  "ser_write obj = le_bytes (LENGTH('a) div 8) obj"

definition ser_read :: "bytes \<Rightarrow> ('a::len word \<times> bytes) result" where
  "ser_read buf = rbind (mem_read buf 0 (LENGTH('a) div 8)) (\<lambda>bs.
     Inr (le_word bs, drop (LENGTH('a) div 8) buf))"

definition ser_failsafe_read :: "bytes \<Rightarrow> nat \<Rightarrow> ('a::len word \<times> bytes) option result" where
  "ser_failsafe_read buf nbytes =
     (if nbytes < LENGTH('a) div 8 then Inr None
      else rbind (ser_read buf) (\<lambda>x. Inr (Some x)))"

definition ser_nbytes :: "'a::len word \<Rightarrow> nat" where
  "ser_nbytes obj = LENGTH('a) div 8"

definition ser_skip :: "'a::len word itself \<Rightarrow> bool \<Rightarrow> bytes \<Rightarrow> (nat \<times> bytes) result" where
  "ser_skip T rawv stream =
     (if rawv then rbind (mem_read stream 0 (LENGTH('a) div 8)) (\<lambda>bs. Inr (LENGTH('a) div 8, bs))
      else Inr (LENGTH('a) div 8, []))"

definition ser_failsafe_skip :: "'a::len word itself \<Rightarrow> bool \<Rightarrow> bytes \<Rightarrow> nat \<Rightarrow> (nat \<times> bytes) result" where
  "ser_failsafe_skip T rawv stream nbytes =
     (if nbytes < LENGTH('a) div 8 then Inr (0, []) else ser_skip T rawv stream)"

definition ser_max_nbytes :: "'a::len word itself \<Rightarrow> nat" where
  "ser_max_nbytes T = LENGTH('a) div 8"

text \<open>\<^verbatim>\<open>serializer<uint32_t, true>\<close> is the variable-length integer.\<close>

definition vs_write :: "u32 \<Rightarrow> bytes" where
  "vs_write obj = write_uvint32 obj"

definition vs_read :: "bytes \<Rightarrow> (u32 \<times> bytes) result" where
  "vs_read buf = read_uvint32 buf"

definition vs_failsafe_read :: "bytes \<Rightarrow> nat \<Rightarrow> (u32 \<times> bytes) option result" where
  "vs_failsafe_read buf nbytes = failsafe_read_uvint32 buf nbytes"

definition vs_nbytes :: "u32 \<Rightarrow> nat" where
  "vs_nbytes obj = size_uvint32 obj"

definition vs_skip :: "bool \<Rightarrow> bytes \<Rightarrow> (nat \<times> bytes) result" where
  "vs_skip rawv stream = skip_uvint32 rawv stream"

definition vs_failsafe_skip :: "bool \<Rightarrow> bytes \<Rightarrow> nat \<Rightarrow> (nat \<times> bytes) result" where
  "vs_failsafe_skip rawv stream nbytes = failsafe_skip_uvint32 rawv stream nbytes"

definition vs_max_nbytes :: nat where "vs_max_nbytes = 5"

text \<open>
  \<^verbatim>\<open>serializer<int32_t, true>\<close>: a signed integer, here the word of its two's complement, is folded into
  an unsigned one (zig-zag), so that small absolute values stay short.
\<close>

definition zz_encode :: "u32 \<Rightarrow> u32" where
  "zz_encode value = push_bit 1 value XOR signed_drop_bit 31 value"

definition zz_decode :: "u32 \<Rightarrow> u32" where
  "zz_decode value = drop_bit 1 value XOR - (value AND 1)"

definition zz_write :: "u32 \<Rightarrow> bytes" where
  "zz_write obj = vs_write (zz_encode obj)"

definition zz_read :: "bytes \<Rightarrow> (u32 \<times> bytes) result" where
  "zz_read buf = rbind (vs_read buf) (\<lambda>(v, p). Inr (zz_decode v, p))"

definition zz_failsafe_read :: "bytes \<Rightarrow> nat \<Rightarrow> (u32 \<times> bytes) option result" where
  "zz_failsafe_read buf nbytes = rbind (vs_failsafe_read buf nbytes) (\<lambda>r.
     case r of None \<Rightarrow> Inr None | Some (v, p) \<Rightarrow> Inr (Some (zz_decode v, p)))"

definition zz_nbytes :: "u32 \<Rightarrow> nat" where
  "zz_nbytes obj = vs_nbytes (zz_encode obj)"

definition zz_skip :: "bool \<Rightarrow> bytes \<Rightarrow> (nat \<times> bytes) result" where
  "zz_skip rawv stream = skip_uvint32 rawv stream"

definition zz_failsafe_skip :: "bool \<Rightarrow> bytes \<Rightarrow> nat \<Rightarrow> (nat \<times> bytes) result" where
  "zz_failsafe_skip rawv stream nbytes = failsafe_skip_uvint32 rawv stream nbytes"

definition zz_max_nbytes :: nat where "zz_max_nbytes = 5"

section \<open>The contract\<close>

primrec read_seq :: "(bytes \<Rightarrow> ('v \<times> bytes) result) \<Rightarrow> nat \<Rightarrow> bytes \<Rightarrow> ('v list \<times> bytes) result" where
  "read_seq rd 0 p = Inr ([], p)"
| "read_seq rd (Suc n) p = rbind (rd p) (\<lambda>(x, p). rbind (read_seq rd n p) (\<lambda>(xs, p). Inr (x # xs, p)))"

text \<open>
  What every serializer promises: the image of a value has the announced length, within the
  announced bound; reading and skipping undo writing, whatever follows; the failsafe forms do so
  with enough bytes, and refuse with fewer.
\<close>

locale serializer_contract =
  fixes wr :: "'v \<Rightarrow> bytes"
    and rd :: "bytes \<Rightarrow> ('v \<times> bytes) result"
    and frd :: "bytes \<Rightarrow> nat \<Rightarrow> ('v \<times> bytes) option result"
    and nb :: "'v \<Rightarrow> nat"
    and sk :: "bool \<Rightarrow> bytes \<Rightarrow> (nat \<times> bytes) result"
    and fsk :: "bool \<Rightarrow> bytes \<Rightarrow> nat \<Rightarrow> (nat \<times> bytes) result"
    and mx :: nat
  assumes length_wr: "length (wr x) = nb x"
    and nb_pos: "0 < nb x"
    and nb_max: "nb x \<le> mx"
    and rd_wr: "rd (wr x @ p) = Inr (x, p)"
    and frd_wr: "nb x \<le> n \<Longrightarrow> frd (wr x @ p) n = Inr (Some (x, p))"
    and frd_short: "n < nb x \<Longrightarrow> frd (wr x @ p) n = Inr None"
    and sk_wr: "sk r (wr x @ p) = Inr (nb x, if r then wr x else [])"
    and fsk_wr: "nb x \<le> n \<Longrightarrow> fsk r (wr x @ p) n = Inr (nb x, if r then wr x else [])"
begin

lemma wr_prefix_free:
  assumes "wr x @ p = wr y @ q"
  shows "x = y \<and> p = q"
proof -
  have "Inr (x, p) = (Inr (y, q) :: ('v \<times> bytes) result)"
    unfolding rd_wr [symmetric] assms ..
  then show ?thesis by simp
qed

lemma read_seq_write_seq: "read_seq rd (length xs) (concat (map wr xs) @ p) = Inr (xs, p)"
  by (induction xs) (simp_all add: rd_wr)

lemma length_write_seq: "length (concat (map wr xs)) = sum_list (map nb xs)"
  by (induction xs) (simp_all add: length_wr)

end

subsection \<open>Variable-length integers satisfy it\<close>

lemma write_uvint32_small: "v \<le> 0x7F \<Longrightarrow> write_uvint32 v = [ucast v AND 0x7F]"
  by (subst write_uvint32.simps) (simp add: leD)

lemma write_uvint32_large:
  "0x7F < v \<Longrightarrow> write_uvint32 v = ((ucast v AND 0x7F) OR 0x80) # write_uvint32 (drop_bit 7 v)"
  by (subst write_uvint32.simps) simp

lemma mask7: "(0x7F :: 'a::len word) = mask 7"
  by (simp add: mask_eq_exp_minus_1)

lemma byte_less_iff: "(b :: u8) < 0x80 \<longleftrightarrow> \<not> bit b 7"
proof -
  have "unat b < 256" using unsigned_less [of b] by simp
  then have "unat b div 128 = (if 128 \<le> unat b then 1 else 0)" by (auto intro: div_nat_eqI)
  then have "odd (unat b div 128) \<longleftrightarrow> 128 \<le> unat b" by simp
  moreover have "bit b 7 = odd (unat b div 128)" using bit_iff_odd [of "unat b" 7] by (simp add: bit_unsigned_iff)
  ultimately show ?thesis by (simp add: word_less_nat_alt not_le)
qed

lemma byte_low_less: "(b AND 0x7F :: u8) < 0x80"
  by (simp add: byte_less_iff bit_and_iff mask7 bit_mask_iff)

lemma bit_0x80: "bit (0x80 :: u8) n \<longleftrightarrow> n = 7" "bit (0x80 :: u32) n \<longleftrightarrow> n = 7"
proof -
  have "(0x80 :: u8) = push_bit 7 1" "(0x80 :: u32) = push_bit 7 1" by simp_all
  then show "bit (0x80 :: u8) n \<longleftrightarrow> n = 7" "bit (0x80 :: u32) n \<longleftrightarrow> n = 7"
    by (simp_all only: bit_push_bit_iff) (auto simp: bit_1_iff)
qed

lemma byte_high_not_less: "\<not> ((b AND 0x7F) OR 0x80 :: u8) < 0x80"
  by (simp add: byte_less_iff bit_or_iff bit_0x80)

lemma small_take_bit: "v \<le> 0x7F \<Longrightarrow> take_bit 7 v = (v :: u32)"
  by (simp add: take_bit_eq_mod word_mod_less_divisor le_less_trans mod_word_less)

lemma ucast_low7: "ucast ((ucast v AND 0x7F) :: u8) = take_bit 7 (v :: u32)"
  by (rule bit_word_eqI) (auto simp: bit_ucast_iff bit_and_iff bit_take_bit_iff mask7 bit_mask_iff)

lemma ucast_high7: "ucast ((ucast v AND 0x7F) OR 0x80 :: u8) AND 0x7F = take_bit 7 (v :: u32)"
proof (rule bit_word_eqI)
  fix n
  show "bit (ucast ((ucast v AND 0x7F) OR 0x80 :: u8) AND 0x7F :: u32) n = bit (take_bit 7 v) n"
    unfolding mask7 bit_and_iff bit_ucast_iff bit_or_iff bit_0x80 bit_mask_iff bit_take_bit_iff by auto
qed

lemma uv_part_last: "v \<le> 0x7F \<Longrightarrow> uv_part s (ucast v AND 0x7F) = push_bit s (v :: u32)"
  using ucast_low7 [of v] small_take_bit [of v] by (simp add: uv_part_def mask7 flip: take_bit_eq_mask)

lemma uv_part_more:
  assumes "s \<le> 21"
  shows "uv_part s ((ucast v AND 0x7F) OR 0x80) OR push_bit (s + 7) (drop_bit 7 v) = push_bit s (v :: u32)"
proof -
  have "uv_part s ((ucast v AND 0x7F) OR 0x80) = push_bit s (take_bit 7 v)"
    using assms ucast_high7 [of v] by (simp only: uv_part_def) simp
  then show ?thesis
    by (auto intro!: bit_word_eqI simp: bit_or_iff bit_push_bit_iff bit_take_bit_iff bit_drop_bit_eq)
qed


lemma read_rounds_step:
  assumes "s \<le> 21"
    and "\<And>r w. unat w < 2 ^ (25 - s) \<Longrightarrow>
      read_uvint32_rounds ss r (write_uvint32 w @ p) = Inr (r OR push_bit (s + 7) w, p)"
    and "unat v < 2 ^ (32 - s)"
  shows "read_uvint32_rounds (s # ss) r (write_uvint32 v @ p) = Inr (r OR push_bit s v, p)"
proof (cases "v \<le> 0x7F")
  case True
  then show ?thesis by (simp add: write_uvint32_small byte_low_less uv_part_last)
next
  case False
  have "32 - s = (25 - s) + 7" using assms(1) by simp
  then have "unat v < 2 ^ (25 - s) * 2 ^ 7" using assms(3) by (simp only: power_add)
  then have "unat v div 2 ^ 7 < 2 ^ (25 - s)" by (rule less_mult_imp_div_less)
  then have "unat (drop_bit 7 v) < 2 ^ (25 - s)" by (simp add: drop_bit_eq_div unat_div)
  from assms(2) [OF this] False show ?thesis
    by (simp add: write_uvint32_large not_le byte_high_not_less uv_part_more [OF assms(1), of v, symmetric] or.assoc)
qed

lemma read_uvint32_slow_write: "read_uvint32_slow (write_uvint32 v @ p) = Inr (v, p)"
proof -
  have 28: "read_uvint32_rounds [28] r (write_uvint32 w @ p) = Inr (r OR push_bit 28 w, p)" if "unat w < 2 ^ 4" for r w
  proof -
    from that have "w \<le> 0x7F" by (simp add: word_less_nat_alt word_le_nat_alt)
    then show ?thesis by (simp add: write_uvint32_small byte_low_less uv_part_last)
  qed
  have 21: "read_uvint32_rounds [21, 28] r (write_uvint32 w @ p) = Inr (r OR push_bit 21 w, p)" if "unat w < 2 ^ 11" for r w
    by (rule read_rounds_step) (use 28 that in simp_all)
  have 14: "read_uvint32_rounds [14, 21, 28] r (write_uvint32 w @ p) = Inr (r OR push_bit 14 w, p)" if "unat w < 2 ^ 18" for r w
    by (rule read_rounds_step) (use 21 that in simp_all)
  have 7: "read_uvint32_rounds [7, 14, 21, 28] r (write_uvint32 w @ p) = Inr (r OR push_bit 7 w, p)" if "unat w < 2 ^ 25" for r w
    by (rule read_rounds_step) (use 14 that in simp_all)
  show ?thesis unfolding read_uvint32_slow_def
    by (subst read_rounds_step) (use 7 unsigned_less [of v] in simp_all)
qed


lemma read_uvint32_write: "read_uvint32 (write_uvint32 v @ p) = Inr (v, p)"
proof (cases "v \<le> 0x7F")
  case True
  then have "ucast ((ucast v :: u8) AND 0x7F) = v" using ucast_low7 [of v] small_take_bit [of v] by (simp only:)
  with True show ?thesis by (simp add: read_uvint32_def write_uvint32_small byte_low_less)
next
  case False
  then show ?thesis using read_uvint32_slow_write [of v p]
    by (simp add: read_uvint32_def write_uvint32_large not_le byte_high_not_less)
qed

text \<open>Where the plain reader succeeds, the failsafe reader and the skippers consume the same bytes.\<close>

lemma read_rounds_length: "read_uvint32_rounds ss r q = Inr (x, p) \<Longrightarrow> length p < length q"
  by (induction ss r q rule: read_uvint32_rounds.induct) (auto simp: Let_def split: if_splits)

lemma failsafe_rounds:
  assumes "read_uvint32_rounds ss r q = Inr (x, p)"
  shows "failsafe_read_uvint32_rounds ss r q n = Inr (if length q - length p \<le> n then Some (x, p) else None)"
  using assms
proof (induction ss r q arbitrary: n rule: read_uvint32_rounds.induct)
  case (3 s ss r b q)
  show ?case
  proof (cases "b < 0x80")
    case True
    with 3 show ?thesis by (cases n) auto
  next
    case False
    with 3 have "read_uvint32_rounds ss (r OR uv_part s b) q = Inr (x, p)" by simp
    with False 3 read_rounds_length [OF this] show ?thesis by (cases n) (auto simp: Suc_diff_le)
  qed
qed auto

lemma skip_rounds:
  assumes "read_uvint32_rounds ss r q = Inr (x, p)"
  shows "skip_uvint32_rounds (length ss) k q = Inr (k + (length q - length p))"
  using assms
proof (induction ss r q arbitrary: k rule: read_uvint32_rounds.induct)
  case (3 s ss r b q)
  show ?case
  proof (cases "b < 0x80")
    case True
    with 3 show ?thesis by auto
  next
    case False
    with 3 have "read_uvint32_rounds ss (r OR uv_part s b) q = Inr (x, p)" by simp
    with False 3 read_rounds_length [OF this] show ?thesis by auto
  qed
qed auto

lemma failsafe_skip_rounds:
  assumes "skip_uvint32_rounds m k q = Inr j" and "j - k \<le> n"
  shows "failsafe_skip_uvint32_rounds m k q n = Inr j"
proof -
  have "k < j" if "skip_uvint32_rounds m k q = Inr j" for m k q
    using that by (induction m k q rule: skip_uvint32_rounds.induct) (auto split: if_splits)
  with assms show ?thesis
    by (induction m k q arbitrary: n rule: skip_uvint32_rounds.induct)
      (force split: if_splits simp: gr0_conv_Suc diff_le_eq Suc_le_eq elim: less_natE)+
qed

lemma length_write_uvint32_bounds:
  "unat v < 2 ^ (7 * Suc k) \<Longrightarrow> k = 0 \<or> 2 ^ (7 * k) \<le> unat v \<Longrightarrow> length (write_uvint32 v) = Suc k"
proof (induction k arbitrary: v)
  case 0
  then have "v \<le> 0x7F" by (simp add: word_le_nat_alt)
  then show ?case by (simp add: write_uvint32_small)
next
  case (Suc k)
  have p: "(2 :: nat) ^ (7 * Suc j) = 2 ^ (7 * j) * 2 ^ 7" for j by (simp add: power_add)
  from Suc.prems(2) have "2 ^ (7 * k) * 2 ^ 7 \<le> unat v" by (simp only: p) simp
  then have lo: "2 ^ (7 * k) \<le> unat v div 2 ^ 7" by (simp add: less_eq_div_iff_mult_less_eq)
  have "unat v < 2 ^ (7 * Suc k) * 2 ^ 7" using Suc.prems(1) by (simp only: p)
  then have hi: "unat v div 2 ^ 7 < 2 ^ (7 * Suc k)" by (rule less_mult_imp_div_less)
  have "unat (drop_bit 7 v) = unat v div 2 ^ 7" by (simp add: drop_bit_eq_div unat_div)
  with Suc.IH [of "drop_bit 7 v"] lo hi have "length (write_uvint32 (drop_bit 7 v)) = Suc k" by simp
  moreover from lo have "(0x7F :: u32) < v"
    by (simp add: word_less_nat_alt Suc_le_eq [symmetric] less_eq_div_iff_mult_less_eq) (metis le_trans mult_le_mono1 one_le_numeral one_le_power mult_1)
  ultimately show ?case by (simp add: write_uvint32_large)
qed

lemma length_write_uvint32: "length (write_uvint32 v) = size_uvint32 v"
proof -
  have "unat v < 2 ^ LENGTH(32)" by (rule unsigned_less)
  then have u: "unat v < 2 ^ 35" by simp
  consider "unat v < 2 ^ 7" | "2 ^ 7 \<le> unat v" "unat v < 2 ^ 14" | "2 ^ 14 \<le> unat v" "unat v < 2 ^ 21"
    | "2 ^ 21 \<le> unat v" "unat v < 2 ^ 28" | "2 ^ 28 \<le> unat v" "unat v < 2 ^ 35"
    using u by linarith
  then show ?thesis
  proof cases
    case 1
    then show ?thesis using length_write_uvint32_bounds [of v 0] by (simp add: size_uvint32_def word_le_nat_alt)
  next
    case 2
    then show ?thesis using length_write_uvint32_bounds [of v 1] by (simp add: size_uvint32_def word_le_nat_alt)
  next
    case 3
    then show ?thesis using length_write_uvint32_bounds [of v 2] by (simp add: size_uvint32_def word_le_nat_alt)
  next
    case 4
    then show ?thesis using length_write_uvint32_bounds [of v 3] by (simp add: size_uvint32_def word_le_nat_alt)
  next
    case 5
    then show ?thesis using length_write_uvint32_bounds [of v 4] by (simp add: size_uvint32_def word_le_nat_alt)
  qed
qed


lemma failsafe_read_uvint32_write:
  "failsafe_read_uvint32 (write_uvint32 v @ p) n = Inr (if size_uvint32 v \<le> n then Some (v, p) else None)"
proof (cases "v \<le> 0x7F")
  case True
  then have "ucast ((ucast v :: u8) AND 0x7F) = v" using ucast_low7 [of v] small_take_bit [of v] by (simp only:)
  with True show ?thesis
    by (auto simp: failsafe_read_uvint32_def write_uvint32_small byte_low_less size_uvint32_def)
next
  case False
  have "failsafe_read_uvint32 (write_uvint32 v @ p) n = failsafe_read_uvint32_slow (write_uvint32 v @ p) n"
    using False by (cases n) (auto simp: failsafe_read_uvint32_def failsafe_read_uvint32_slow_def write_uvint32_large
        not_le byte_high_not_less)
  then show ?thesis
    using failsafe_rounds [OF read_uvint32_slow_write [unfolded read_uvint32_slow_def], of v p n]
    by (simp add: failsafe_read_uvint32_slow_def length_write_uvint32)
qed

lemma skip_rounds_write: "skip_uvint32_rounds 5 0 (write_uvint32 v @ p) = Inr (size_uvint32 v)"
  using skip_rounds [OF read_uvint32_slow_write [unfolded read_uvint32_slow_def], of 0 v p]
  by (simp add: length_write_uvint32 eval_nat_numeral)

lemma size_uvint32_bounds: "0 < size_uvint32 v" "size_uvint32 v \<le> 5"
  by (simp_all add: size_uvint32_def)

interpretation uv: serializer_contract
  write_uvint32 read_uvint32 failsafe_read_uvint32 size_uvint32 skip_uvint32 failsafe_skip_uvint32 vs_max_nbytes
proof
  fix x n r p
  show "length (write_uvint32 x) = size_uvint32 x" by (rule length_write_uvint32)
  show "0 < size_uvint32 x" "size_uvint32 x \<le> vs_max_nbytes"
    using size_uvint32_bounds [of x] by (simp_all add: vs_max_nbytes_def)
  show "read_uvint32 (write_uvint32 x @ p) = Inr (x, p)" by (rule read_uvint32_write)
  show "size_uvint32 x \<le> n \<Longrightarrow> failsafe_read_uvint32 (write_uvint32 x @ p) n = Inr (Some (x, p))"
    "n < size_uvint32 x \<Longrightarrow> failsafe_read_uvint32 (write_uvint32 x @ p) n = Inr None"
    by (simp_all add: failsafe_read_uvint32_write)
  show "skip_uvint32 r (write_uvint32 x @ p) = Inr (size_uvint32 x, if r then write_uvint32 x else [])"
    by (simp add: skip_uvint32_def skip_rounds_write length_write_uvint32)
  show "size_uvint32 x \<le> n \<Longrightarrow>
      failsafe_skip_uvint32 r (write_uvint32 x @ p) n = Inr (size_uvint32 x, if r then write_uvint32 x else [])"
    using failsafe_skip_rounds [OF skip_rounds_write, of x n p] size_uvint32_bounds [of x]
    by (simp add: failsafe_skip_uvint32_def length_write_uvint32)
qed

lemma zz_decode_encode: "zz_decode (zz_encode v) = v"
proof (rule bit_word_eqI)
  fix n
  assume n: "n < LENGTH(32)"
  have b: "bit (zz_encode v) m \<longleftrightarrow> m < 32 \<and> ((m \<noteq> 0 \<and> bit v (m - 1)) \<noteq> bit v 31)" for m
    unfolding zz_encode_def bit_xor_iff bit_push_bit_iff bit_signed_drop_bit_iff
    by (cases "m < 32"; cases m) (auto dest: bit_imp_le_length)
  have "zz_encode v AND 1 = (if bit v 31 then 1 else 0)"
    using b [of 0] by (simp add: and_one_eq mod_2_eq_odd bit_0)
  then have m: "bit (- (zz_encode v AND 1)) n \<longleftrightarrow> bit v 31" using n by simp
  show "bit (zz_decode (zz_encode v)) n = bit v n"
    using n unfolding zz_decode_def bit_xor_iff m bit_drop_bit_eq b by (cases "n = 31") auto
qed

interpretation vs: serializer_contract
  vs_write vs_read vs_failsafe_read vs_nbytes vs_skip vs_failsafe_skip vs_max_nbytes
  unfolding vs_write_def vs_read_def vs_failsafe_read_def vs_nbytes_def vs_skip_def vs_failsafe_skip_def
  by (rule uv.serializer_contract_axioms)

interpretation zz: serializer_contract
  zz_write zz_read zz_failsafe_read zz_nbytes zz_skip zz_failsafe_skip zz_max_nbytes
  using uv.nb_max
  by unfold_locales
    (simp_all add: zz_write_def zz_read_def zz_failsafe_read_def zz_nbytes_def zz_skip_def zz_failsafe_skip_def
      zz_max_nbytes_def vs_max_nbytes_def vs_write_def vs_read_def vs_failsafe_read_def vs_nbytes_def zz_decode_encode
      uv.length_wr uv.nb_pos uv.rd_wr uv.frd_wr uv.frd_short uv.sk_wr uv.fsk_wr)

lemma ser_read_write:
  "8 dvd LENGTH('a) \<Longrightarrow> ser_read (ser_write (x :: 'a::len word) @ p) = Inr (x, p)"
  by (simp add: ser_read_def ser_write_def mem_read_def le_word_le_bytes)

lemma ser_contract:
  assumes "8 dvd LENGTH('a::len)"
  shows "serializer_contract (ser_write :: 'a word \<Rightarrow> bytes) ser_read ser_failsafe_read ser_nbytes (ser_skip TYPE('a word))
    (ser_failsafe_skip TYPE('a word)) (ser_max_nbytes TYPE('a word))"
proof
  fix x :: "'a word" and n r p
  have "0 < LENGTH('a) div 8" using assms len_gt_0 [where 'a = 'a] by (auto simp: dvd_def simp del: len_gt_0)
  then show "0 < ser_nbytes x" by (simp add: ser_nbytes_def)
  show "ser_read (ser_write x @ p) = Inr (x, p)" by (rule ser_read_write [OF assms])
  then show "ser_nbytes x \<le> n \<Longrightarrow> ser_failsafe_read (ser_write x @ p) n = Inr (Some (x, p))"
    by (simp add: ser_failsafe_read_def ser_nbytes_def)
qed (simp_all add: ser_write_def ser_nbytes_def ser_max_nbytes_def ser_failsafe_read_def ser_skip_def
    ser_failsafe_skip_def mem_read_def)

interpretation s8: serializer_contract "ser_write :: u8 \<Rightarrow> bytes" ser_read ser_failsafe_read ser_nbytes
  "ser_skip TYPE(u8)" "ser_failsafe_skip TYPE(u8)" "ser_max_nbytes TYPE(u8)"
  by (rule ser_contract) simp

interpretation s16: serializer_contract "ser_write :: u16 \<Rightarrow> bytes" ser_read ser_failsafe_read ser_nbytes
  "ser_skip TYPE(u16)" "ser_failsafe_skip TYPE(u16)" "ser_max_nbytes TYPE(u16)"
  by (rule ser_contract) simp

interpretation s32: serializer_contract "ser_write :: u32 \<Rightarrow> bytes" ser_read ser_failsafe_read ser_nbytes
  "ser_skip TYPE(u32)" "ser_failsafe_skip TYPE(u32)" "ser_max_nbytes TYPE(u32)"
  by (rule ser_contract) simp

interpretation s64: serializer_contract "ser_write :: u64 \<Rightarrow> bytes" ser_read ser_failsafe_read ser_nbytes
  "ser_skip TYPE(u64)" "ser_failsafe_skip TYPE(u64)" "ser_max_nbytes TYPE(u64)"
  by (rule ser_contract) simp

section \<open>Properties\<close>

text \<open>
  C31.  Variable-length integers survive the round trip in all three forms of the reader: the bytes
  of \<open>v\<close>, which are \<^verbatim>\<open>size_uvint32(v)\<close> and at most five, are read back as \<open>v\<close> with the rest of the
  buffer untouched; a reader that may touch fewer bytes gives up; the skipper counts them; and the
  same holds of a signed integer after folding.
\<close>

theorem uvint32_roundtrip:
  "length (write_uvint32 v) = size_uvint32 v \<and> size_uvint32 v \<le> 5 \<and>
   read_uvint32 (write_uvint32 v @ p) = Inr (v, p) \<and>
   failsafe_read_uvint32 (write_uvint32 v @ p) n = Inr (if size_uvint32 v \<le> n then Some (v, p) else None) \<and>
   skip_uvint32 True (write_uvint32 v @ p) = Inr (size_uvint32 v, write_uvint32 v) \<and>
   zz_read (zz_write s @ p) = Inr (s, p) \<and> length (zz_write s) = zz_nbytes s"
  using uv.length_wr uv.nb_max [of v] uv.rd_wr failsafe_read_uvint32_write uv.sk_wr [of True v p] zz.rd_wr zz.length_wr
  by (simp add: vs_max_nbytes_def)

text \<open>
  An improper encoding, five bytes with their top bit set, stops the plain reader at its
  assertion, but the failsafe reader, which is there for bytes that cannot be trusted, accepts it and
  returns a number.
\<close>

theorem failsafe_read_accepts_improper:
  assumes "\<forall>b \<in> set bs. 0x80 \<le> b" and "length bs = 5"
  shows "read_uvint32 (bs @ p) = Inl Assert_Fail \<and> (\<exists>v. failsafe_read_uvint32 (bs @ p) 5 = Inr (Some (v, p)))"
proof -
  from assms(2) obtain a b c d e where bs: "bs = [a, b, c, d, e]"
    by (auto simp: length_Suc_conv eval_nat_numeral)
  with assms(1) have "\<not> a < 0x80" "\<not> b < 0x80" "\<not> c < 0x80" "\<not> d < 0x80" "\<not> e < 0x80" by auto
  with bs show ?thesis
    by (simp add: read_uvint32_def read_uvint32_slow_def failsafe_read_uvint32_def failsafe_read_uvint32_slow_def
        eval_nat_numeral)
qed

theorem failsafe_read_accepts_improper_witness:
  "read_uvint32 (replicate 5 0xFF) = Inl Assert_Fail \<and> (\<exists>v. failsafe_read_uvint32 (replicate 5 0xFF) 5 = Inr (Some (v, [])))"
  using failsafe_read_accepts_improper [of "replicate 5 0xFF" "[]"] by simp

end
