(* ===== verification/Silo_Tid.thy ===== *)
theory Silo_Tid
  imports Rolis_Prelude
begin

text \<open>
  The transaction identifiers of Silo's protocol (\<^verbatim>\<open>transaction_proto2_static\<close> in
  \<^verbatim>\<open>txn_proto2_impl.h\<close>): a 64-bit word that holds the core, a number and the epoch of a commit, and
  what the protocol computes from it.  \<^verbatim>\<open>CHECK_INVARIANTS\<close> is on, so \<^verbatim>\<open>INVARIANT\<close> is an assertion and
  a read-only epoch spans ten ticks.
\<close>

section \<open>Layout\<close>

definition ReadOnlyEpochMultiplier :: u64 where "ReadOnlyEpochMultiplier = 10"

definition to_read_only_tick :: "u64 \<Rightarrow> u64" where
  "to_read_only_tick epoch_tick = epoch_tick div ReadOnlyEpochMultiplier"

definition NBitsNumber :: nat where "NBitsNumber = 24"

definition CoreBits :: nat where "CoreBits = 9"

definition NMaxCores :: u64 where "NMaxCores = push_bit CoreBits 1"

definition CoreMask :: u64 where "CoreMask = NMaxCores - 1"

definition NumIdShift :: nat where "NumIdShift = CoreBits"

definition NumIdMask :: u64 where "NumIdMask = push_bit NumIdShift (push_bit NBitsNumber 1 - 1)"

definition EpochShift :: nat where "EpochShift = CoreBits + NBitsNumber"

definition EpochMask :: u64 where "EpochMask = push_bit EpochShift (- 1)"

definition CoreId :: "u64 \<Rightarrow> u64" where "CoreId v = v AND CoreMask"

definition NumId :: "u64 \<Rightarrow> u64" where "NumId v = drop_bit NumIdShift (v AND NumIdMask)"

definition EpochId :: "u64 \<Rightarrow> u64" where "EpochId v = drop_bit EpochShift (v AND EpochMask)"

definition MakeTid :: "u64 \<Rightarrow> u64 \<Rightarrow> u64 \<Rightarrow> u64" where
  "MakeTid core_id num_id epoch_id = core_id OR push_bit NumIdShift num_id OR push_bit EpochShift epoch_id"

definition ComputeReadOnlyTid :: "u64 \<Rightarrow> u64" where
  "ComputeReadOnlyTid global_tick_ex =
     (let a = global_tick_ex div ReadOnlyEpochMultiplier; b = a * ReadOnlyEpochMultiplier
      in if b = 0 then MakeTid 0 0 0 else MakeTid CoreMask (drop_bit NumIdShift NumIdMask) (b - 1))"

definition MIN_TID :: u64 where "MIN_TID = 0"

definition MAX_TID :: u64 where "MAX_TID = - 1"

definition can_overwrite_record_tid :: "u64 \<Rightarrow> u64 \<Rightarrow> bool result" where
  "can_overwrite_record_tid prev cur = rbind (rassert (prev \<le> cur)) (\<lambda>_.
     Inr (to_read_only_tick (EpochId prev) = to_read_only_tick (EpochId cur) \<or> prev = 0))"

definition can_read_tid :: "u64 \<Rightarrow> bool" where "can_read_tid t = True"

lemmas tid_layout_defs = NBitsNumber_def CoreBits_def NMaxCores_def CoreMask_def NumIdShift_def NumIdMask_def
  EpochShift_def EpochMask_def

section \<open>Fields as numbers\<close>

lemma CoreMask_mask: "CoreMask = mask 9"
  by (simp add: tid_layout_defs mask_eq_exp_minus_1)

lemma NumIdMask_mask: "NumIdMask = push_bit 9 (mask 24)"
  by (simp add: tid_layout_defs mask_eq_exp_minus_1)

lemma bit_EpochMask: "bit EpochMask n \<longleftrightarrow> 33 \<le> n \<and> n < 64"
  unfolding EpochMask_def EpochShift_def CoreBits_def NBitsNumber_def bit_push_bit_iff by auto

lemma CoreId_take_bit: "CoreId v = take_bit 9 v"
  by (simp add: CoreId_def CoreMask_mask take_bit_eq_mask)

lemma NumId_take_bit: "NumId v = take_bit 24 (drop_bit 9 v)"
  unfolding NumId_def NumIdMask_mask NumIdShift_def CoreBits_def
  by (rule bit_word_eqI)
    (auto simp: bit_drop_bit_eq bit_and_iff bit_push_bit_iff bit_mask_iff bit_take_bit_iff dest: bit_imp_le_length)

lemma EpochId_drop_bit: "EpochId v = drop_bit 33 v"
  unfolding EpochId_def EpochShift_def CoreBits_def NBitsNumber_def
  by (rule bit_word_eqI) (auto simp: bit_drop_bit_eq bit_and_iff bit_EpochMask dest: bit_imp_le_length)

lemma unat_CoreId: "unat (CoreId v) = unat v mod 2 ^ 9"
  by (simp add: CoreId_take_bit take_bit_eq_mod unat_mod)

lemma unat_NumId: "unat (NumId v) = unat v div 2 ^ 9 mod 2 ^ 24"
  by (simp add: NumId_take_bit take_bit_eq_mod drop_bit_eq_div unat_mod unat_div)

lemma unat_EpochId: "unat (EpochId v) = unat v div 2 ^ 33"
  by (simp add: EpochId_drop_bit drop_bit_eq_div unat_div)

lemma unat_fields: "unat v = unat (EpochId v) * 2 ^ 33 + unat (NumId v) * 2 ^ 9 + unat (CoreId v)"
proof -
  define q where "q = unat v div 2 ^ 9"
  have "unat v = q * 512 + unat v mod 512" by (simp add: q_def)
  moreover have "q = q div 16777216 * 16777216 + q mod 16777216" by (rule div_mult_mod_eq [symmetric])
  ultimately have "unat v = q div 16777216 * 8589934592 + q mod 16777216 * 512 + unat v mod 512" by linarith
  then have "unat v = q div 2 ^ 24 * 2 ^ 33 + q mod 2 ^ 24 * 2 ^ 9 + unat v mod 2 ^ 9" by simp
  moreover have "q div 2 ^ 24 = unat v div 2 ^ 33" by (simp add: q_def div_mult2_eq [symmetric])
  ultimately show ?thesis unfolding unat_CoreId unat_NumId unat_EpochId by (simp only: q_def)
qed

lemma MakeTid_fields:
  assumes "c < 2 ^ 9" "n < 2 ^ 24" "e < 2 ^ 31"
  shows "CoreId (MakeTid c n e) = c" "NumId (MakeTid c n e) = n" "EpochId (MakeTid c n e) = e"
proof -
  have t: "c = take_bit 9 c" "n = take_bit 24 n" "e = take_bit 31 e"
    using assms by (simp_all add: take_bit_eq_mod mod_word_less)
  have b: "bit c i \<Longrightarrow> i < 9" "bit n i \<Longrightarrow> i < 24" "bit e i \<Longrightarrow> i < 31" for i
    using t by (metis bit_take_bit_iff)+
  have m: "bit (MakeTid c n e) i \<longleftrightarrow> bit c i \<or> (9 \<le> i \<and> bit n (i - 9)) \<or> (33 \<le> i \<and> bit e (i - 33))" for i
    unfolding MakeTid_def bit_or_iff bit_push_bit_iff NumIdShift_def EpochShift_def CoreBits_def NBitsNumber_def
    using b(2) [of "i - 9"] b(3) [of "i - 33"] by auto
  show "CoreId (MakeTid c n e) = c" unfolding CoreId_take_bit
    by (rule bit_word_eqI) (use b in \<open>auto simp: bit_take_bit_iff m\<close>)
  show "NumId (MakeTid c n e) = n" unfolding NumId_take_bit
    by (rule bit_word_eqI) (use b(1) b(2) in \<open>force simp: bit_take_bit_iff bit_drop_bit_eq m\<close>)
  show "EpochId (MakeTid c n e) = e" unfolding EpochId_drop_bit
    by (rule bit_word_eqI) (use b(1) b(2) in \<open>force simp: bit_drop_bit_eq m\<close>)
qed


lemma MakeTid_unat:
  assumes "c < 2 ^ 9" "n < 2 ^ 24" "e < 2 ^ 31"
  shows "unat (MakeTid c n e) = unat e * 2 ^ 33 + unat n * 2 ^ 9 + unat c"
  using unat_fields [of "MakeTid c n e"] unfolding MakeTid_fields [OF assms] .

lemma field_bounds: "CoreId v < 2 ^ 9" "NumId v < 2 ^ 24" "EpochId v < 2 ^ 31"
proof -
  have "unat v < 2 ^ LENGTH(64)" by (rule unsigned_less)
  then have "unat v < 2 ^ 31 * 2 ^ 33" by simp
  then have "unat v div 2 ^ 33 < 2 ^ 31" by (rule less_mult_imp_div_less)
  then show "EpochId v < 2 ^ 31" by (simp only: word_less_nat_alt unat_EpochId) simp
qed (simp_all add: word_less_nat_alt unat_CoreId unat_NumId)

lemma MakeTid_of_fields: "MakeTid (CoreId v) (NumId v) (EpochId v) = v"
  by (simp only: word_unat_eq_iff MakeTid_unat [OF field_bounds] unat_fields [of v, symmetric])

text \<open>Identifiers are ordered by epoch first, then by number, then by core.\<close>

lemma tid_less_iff:
  "t < t' \<longleftrightarrow> EpochId t < EpochId t' \<or> EpochId t = EpochId t' \<and>
     (NumId t < NumId t' \<or> NumId t = NumId t' \<and> CoreId t < CoreId t')"
proof -
  have b: "unat (CoreId v) < 2 ^ 9" "unat (NumId v) < 2 ^ 24" for v
    using field_bounds [of v] by (simp_all add: word_less_nat_alt)
  have "unat t < unat t' \<longleftrightarrow> unat (EpochId t) < unat (EpochId t') \<or> unat (EpochId t) = unat (EpochId t') \<and>
     (unat (NumId t) < unat (NumId t') \<or> unat (NumId t) = unat (NumId t') \<and> unat (CoreId t) < unat (CoreId t'))"
    using b [of t] b [of t'] unat_fields [of t] unat_fields [of t'] by auto
  then show ?thesis by (simp add: word_less_nat_alt word_unat_eq_iff)
qed

lemma tid_lessI_epoch: "EpochId t < EpochId t' \<Longrightarrow> t < t'"
  by (subst tid_less_iff) (rule disjI1)

lemma tid_lessI_num: "EpochId t = EpochId t' \<Longrightarrow> NumId t < NumId t' \<Longrightarrow> t < t'"
  by (subst tid_less_iff) (intro disjI2 conjI disjI1)

lemma tid_epoch_mono: "t \<le> t' \<Longrightarrow> EpochId t \<le> EpochId t'"
  by (simp add: word_le_nat_alt unat_EpochId div_le_mono)

section \<open>Snapshots\<close>

text \<open>
  The tids below the last one of an epoch are those of this and the earlier epochs.
\<close>

lemma last_tid_of_epoch:
  assumes "e < 2 ^ 31"
  shows "t \<le> MakeTid CoreMask (drop_bit NumIdShift NumIdMask) e \<longleftrightarrow> EpochId t \<le> e"
proof -
  have "drop_bit NumIdShift NumIdMask = (mask 24 :: u64)" unfolding NumIdShift_def CoreBits_def NumIdMask_mask
    by (rule bit_word_eqI) (auto simp: bit_drop_bit_eq bit_push_bit_iff bit_mask_iff)
  then have e: "MakeTid CoreMask (drop_bit NumIdShift NumIdMask) e = MakeTid (mask 9) (mask 24) e"
    by (simp only: CoreMask_mask)
  have m: "(mask 9 :: u64) < 2 ^ 9" "(mask 24 :: u64) < 2 ^ 24" by (simp_all add: mask_eq_exp_minus_1)
  have u: "unat (mask 9 :: u64) = 511" "unat (mask 24 :: u64) = 16777215" by (simp_all add: mask_eq_exp_minus_1)
  have b: "unat (CoreId t) < 2 ^ 9" "unat (NumId t) < 2 ^ 24"
    using field_bounds [of t] by (simp_all add: word_less_nat_alt)
  have "unat t \<le> unat e * 2 ^ 33 + 16777215 * 2 ^ 9 + 511 \<longleftrightarrow> unat (EpochId t) \<le> unat e"
    using b unat_fields [of t] by auto
  then show ?thesis unfolding e word_le_nat_alt MakeTid_unat [OF m assms] u .
qed

lemma ComputeReadOnlyTid_le_iff:
  assumes "g < 2 ^ 31" and "to_read_only_tick g \<noteq> 0"
  shows "t \<le> ComputeReadOnlyTid g \<longleftrightarrow> to_read_only_tick (EpochId t) < to_read_only_tick g"
proof -
  define b where "b = g div 10 * 10"
  have ub: "unat b = unat g div 10 * 10"
  proof -
    have "unat g div 10 * 10 \<le> unat g" by (simp add: div_times_less_eq_dividend)
    also have "unat g < 2 ^ 64" using unsigned_less [of g] by simp
    finally show ?thesis by (simp add: b_def unat_word_ariths(2) unat_div)
  qed
  have g0: "0 < unat g div 10" using assms(2)
    by (simp add: to_read_only_tick_def ReadOnlyEpochMultiplier_def word_unat_eq_iff unat_div)
  then have b0: "b \<noteq> 0" using ub by (simp add: word_unat_eq_iff)
  then have ub1: "unat (b - 1) = unat g div 10 * 10 - 1" using ub by (simp add: unat_minus_one)
  have gl: "unat g < 2 ^ 31" using assms(1) by (simp add: word_less_nat_alt)
  then have "b - 1 < 2 ^ 31" using ub1 by (simp add: word_less_nat_alt)
  from last_tid_of_epoch [OF this] b0
  have "t \<le> ComputeReadOnlyTid g \<longleftrightarrow> EpochId t \<le> b - 1"
    by (simp add: ComputeReadOnlyTid_def b_def ReadOnlyEpochMultiplier_def Let_def)
  also have "\<dots> \<longleftrightarrow> unat (EpochId t) < unat g div 10 * 10" using ub1 g0 by (simp add: word_le_nat_alt) linarith
  also have "\<dots> \<longleftrightarrow> unat (EpochId t) div 10 < unat g div 10" by (simp add: div_less_iff_less_mult)
  finally show ?thesis
    by (simp add: to_read_only_tick_def ReadOnlyEpochMultiplier_def word_less_nat_alt unat_div)
qed

end
