(* ===== verification/Silo_Tuple.thy ===== *)
theory Silo_Tuple
  imports Silo_Tid
begin

text \<open>
  The records of Silo (\<^verbatim>\<open>dbtuple\<close> in \<^verbatim>\<open>tuple.h\<close> and \<^verbatim>\<open>tuple.cc\<close>): a header word with lock bits and a
  version counter, a transaction identifier, the bytes of the value, and a link to the previous
  version of the record.

  Tuples live in a heap of cells; a pointer is an address, a null pointer \<open>None\<close>.  The values are the
  strings of \<^verbatim>\<open>txn_btree_\<close> (\<^verbatim>\<open>txn_btree.h\<close>), so the tuple writer and the value reader are the ones
  defined there.  The build has \<^verbatim>\<open>CHECK_INVARIANTS\<close>; without \<^verbatim>\<open>TUPLE_LOCK_OWNERSHIP_CHECKING\<close>,
  \<^verbatim>\<open>is_lock_owner()\<close> is constantly true.  A wait for a bit another thread has to clear is the error
  \<open>Spins\<close>.  Event counters are left out.
\<close>

section \<open>The header word\<close>

definition HDR_LOCKED_MASK :: u32 where "HDR_LOCKED_MASK = 1"

definition HDR_DELETING_MASK :: u32 where "HDR_DELETING_MASK = push_bit 1 1"

definition HDR_WRITE_INTENT_MASK :: u32 where "HDR_WRITE_INTENT_MASK = push_bit 2 1"

definition HDR_MODIFYING_MASK :: u32 where "HDR_MODIFYING_MASK = push_bit 3 1"

definition HDR_LATEST_MASK :: u32 where "HDR_LATEST_MASK = push_bit 4 1"

definition HDR_VERSION_SHIFT :: nat where "HDR_VERSION_SHIFT = 5"

definition HDR_VERSION_MASK :: u32 where "HDR_VERSION_MASK = push_bit HDR_VERSION_SHIFT (- 1)"

definition IsLocked :: "u32 \<Rightarrow> bool" where "IsLocked v \<longleftrightarrow> v AND HDR_LOCKED_MASK \<noteq> 0"

definition IsDeleting :: "u32 \<Rightarrow> bool" where "IsDeleting v \<longleftrightarrow> v AND HDR_DELETING_MASK \<noteq> 0"

definition IsModifying :: "u32 \<Rightarrow> bool" where "IsModifying v \<longleftrightarrow> v AND HDR_MODIFYING_MASK \<noteq> 0"

definition IsWriteIntent :: "u32 \<Rightarrow> bool" where "IsWriteIntent v \<longleftrightarrow> v AND HDR_WRITE_INTENT_MASK \<noteq> 0"

definition IsLatest :: "u32 \<Rightarrow> bool" where "IsLatest v \<longleftrightarrow> v AND HDR_LATEST_MASK \<noteq> 0"

definition hdr_Version :: "u32 \<Rightarrow> u32" where
  "hdr_Version v = drop_bit HDR_VERSION_SHIFT (v AND HDR_VERSION_MASK)"

definition reader_check_version :: "u32 \<Rightarrow> u32 \<Rightarrow> bool" where
  "reader_check_version hdr version =
     (let MODULO_BITS = HDR_LOCKED_MASK OR HDR_WRITE_INTENT_MASK OR HDR_LATEST_MASK
      in hdr AND NOT MODULO_BITS = version AND NOT MODULO_BITS)"

definition writer_check_version :: "u32 \<Rightarrow> u32 \<Rightarrow> bool" where
  "writer_check_version hdr version \<longleftrightarrow> hdr = version"

text \<open>The header after \<^verbatim>\<open>lock(write_intent)\<close>, which waits while the lock is taken, and after \<^verbatim>\<open>unlock()\<close>.\<close>

definition hdr_lock :: "bool \<Rightarrow> u32 \<Rightarrow> u32 result" where
  "hdr_lock write_intent v =
     (let lockmask = (if write_intent then HDR_LOCKED_MASK OR HDR_WRITE_INTENT_MASK else HDR_LOCKED_MASK)
      in if IsLocked v then Inl Spins
         else let hdr = v OR lockmask
           in rbind (rassert (IsLocked hdr)) (\<lambda>_.
              rbind (rassert (\<not> write_intent \<or> IsWriteIntent hdr)) (\<lambda>_.
              rbind (rassert (\<not> IsModifying hdr)) (\<lambda>_. Inr hdr))))"

definition hdr_unlock :: "u32 \<Rightarrow> u32 result" where
  "hdr_unlock hdr = rbind (rassert (IsLocked hdr)) (\<lambda>_.
     let newv = IsModifying hdr \<or> IsWriteIntent hdr;
         v = (if newv
              then (hdr AND NOT HDR_VERSION_MASK) OR
                (push_bit HDR_VERSION_SHIFT (hdr_Version hdr + 1) AND HDR_VERSION_MASK)
              else hdr);
         v = v AND NOT (HDR_LOCKED_MASK OR HDR_MODIFYING_MASK OR HDR_WRITE_INTENT_MASK)
     in rbind (rassert (\<not> newv \<or> \<not> reader_check_version hdr v \<and> \<not> writer_check_version hdr v)) (\<lambda>_.
        rbind (rassert (\<not> IsLocked v \<and> \<not> IsModifying v \<and> \<not> IsWriteIntent v)) (\<lambda>_. Inr v)))"

definition hdr_mark_deleting :: "u32 \<Rightarrow> u32 result" where
  "hdr_mark_deleting hdr = rbind (rassert (\<not> IsLatest hdr \<or> IsLocked hdr)) (\<lambda>_.
     rbind (rassert (\<not> IsDeleting hdr)) (\<lambda>_. Inr (hdr OR HDR_DELETING_MASK)))"

definition hdr_clear_deleting :: "u32 \<Rightarrow> u32 result" where
  "hdr_clear_deleting hdr = rbind (rassert (IsLocked hdr)) (\<lambda>_.
     rbind (rassert (IsDeleting hdr)) (\<lambda>_. Inr (hdr AND NOT HDR_DELETING_MASK)))"

definition hdr_mark_modifying :: "u32 \<Rightarrow> u32 result" where
  "hdr_mark_modifying hdr = rbind (rassert (IsLocked hdr)) (\<lambda>_. Inr (hdr OR HDR_MODIFYING_MASK))"

definition hdr_clear_latest :: "u32 \<Rightarrow> u32 result" where
  "hdr_clear_latest hdr = rbind (rassert (IsLocked hdr)) (\<lambda>_.
     rbind (rassert (IsLatest hdr)) (\<lambda>_. Inr (hdr AND NOT HDR_LATEST_MASK)))"

definition reader_stable_version :: "bool \<Rightarrow> u32 \<Rightarrow> u32 result" where
  "reader_stable_version allow_write_intent v =
     (if IsModifying v \<or> \<not> allow_write_intent \<and> IsWriteIntent v then Inl Spins else Inr v)"

text \<open>
  \<^verbatim>\<open>try_writer_stable_version(v, spins)\<close> reads the header again and again; the list are the values it
  would see, the current one first.
\<close>

fun try_writer_stable_version :: "nat \<Rightarrow> u32 list \<Rightarrow> (bool \<times> u32) result" where
  "try_writer_stable_version spins [] = Inl Out_Of_Bounds"
| "try_writer_stable_version spins [v] =
     rbind (rassert (IsWriteIntent v \<longrightarrow> IsLocked v)) (\<lambda>_.
     rbind (rassert (IsWriteIntent v \<or> \<not> IsModifying v)) (\<lambda>_. Inr (\<not> IsWriteIntent v, v)))"
| "try_writer_stable_version spins (v # v' # vs) =
     (if IsWriteIntent v \<and> 0 < spins
      then rbind (rassert (IsLocked v)) (\<lambda>_. try_writer_stable_version (spins - 1) (v' # vs))
      else rbind (rassert (IsWriteIntent v \<longrightarrow> IsLocked v)) (\<lambda>_.
           rbind (rassert (IsWriteIntent v \<or> \<not> IsModifying v)) (\<lambda>_. Inr (\<not> IsWriteIntent v, v))))"

section \<open>Tuples and the heap\<close>

type_synonym addr = nat

record dbtuple =
  hdr :: u32
  tver :: u64
  tsize :: nat
  talloc :: nat
  tnext :: "addr option"
  tval :: bytes

record tuple_heap =
  cells :: "addr \<rightharpoonup> dbtuple"
  brk :: addr
  rcu_freed :: "addr list"

definition tget :: "addr \<Rightarrow> tuple_heap \<Rightarrow> dbtuple result" where
  "tget p h = (case cells h p of None \<Rightarrow> Inl Out_Of_Bounds | Some d \<Rightarrow> Inr d)"

definition tput :: "addr \<Rightarrow> dbtuple \<Rightarrow> tuple_heap \<Rightarrow> tuple_heap" where
  "tput p d h = h\<lparr>cells := (cells h)(p \<mapsto> d)\<rparr>"

text \<open>Run an operation of the header on the tuple at an address.\<close>

definition on_hdr :: "(u32 \<Rightarrow> u32 result) \<Rightarrow> addr \<Rightarrow> tuple_heap \<Rightarrow> tuple_heap result" where
  "on_hdr f p h = rbind (tget p h) (\<lambda>d. rbind (f (hdr d)) (\<lambda>v. Inr (tput p (d\<lparr>hdr := v\<rparr>) h)))"

definition is_not_behind :: "dbtuple \<Rightarrow> u64 \<Rightarrow> bool" where
  "is_not_behind d t \<longleftrightarrow> tver d \<le> t"

definition is_latest_version :: "dbtuple \<Rightarrow> u64 \<Rightarrow> bool" where
  "is_latest_version d t \<longleftrightarrow> IsLatest (hdr d) \<and> is_not_behind d t"

definition stable_is_latest_version :: "dbtuple \<Rightarrow> u64 \<Rightarrow> bool result" where
  "stable_is_latest_version d t = rbind (try_writer_stable_version 16 [hdr d]) (\<lambda>(ok, v).
     if \<not> ok then Inr False
     else rbind (rassert (\<not> IsWriteIntent v \<and> \<not> IsModifying v)) (\<lambda>_.
          let ret = IsLatest v \<and> is_not_behind d t
          in Inr (ret \<and> writer_check_version (hdr d) v)))"

definition latest_value_is_nil :: "dbtuple \<Rightarrow> bool" where
  "latest_value_is_nil d \<longleftrightarrow> IsLatest (hdr d) \<and> tsize d = 0"

definition stable_latest_value_is_nil :: "dbtuple \<Rightarrow> bool result" where
  "stable_latest_value_is_nil d = rbind (try_writer_stable_version 16 [hdr d]) (\<lambda>(ok, v).
     if \<not> ok then Inr False
     else rbind (rassert (\<not> IsWriteIntent v \<and> \<not> IsModifying v)) (\<lambda>_.
          let ret = IsLatest v \<and> tsize d = 0
          in Inr (ret \<and> writer_check_version (hdr d) v)))"

section \<open>Allocation\<close>

definition max_node_size :: nat where "max_node_size = 65535"

definition sizeof_dbtuple :: nat where "sizeof_dbtuple = 40"

definition LgAllocAlignment :: nat where "LgAllocAlignment = 4"

text \<open>\<^verbatim>\<open>round_up<T, lgbase>\<close>: add the mask and clear its bits.\<close>

definition round_up :: "nat \<Rightarrow> nat \<Rightarrow> nat" where
  "round_up lgbase t = (t + (2 ^ lgbase - 1)) div 2 ^ lgbase * 2 ^ lgbase"

definition alloc_room :: "nat \<Rightarrow> nat" where
  "alloc_room sz = min (round_up LgAllocAlignment (sizeof_dbtuple + sz)) (max_node_size + sizeof_dbtuple) - sizeof_dbtuple"

definition CheckBounds :: "nat \<Rightarrow> nat result" where
  "CheckBounds s = rbind (rassert (s \<le> max_node_size)) (\<lambda>_. Inr s)"

text \<open>
  Fresh memory is not initialised by the code; the zeros here stand for bytes nobody reads, since a
  reader stops at \<^verbatim>\<open>size\<close>.
\<close>

definition new_cell :: "dbtuple \<Rightarrow> tuple_heap \<Rightarrow> addr \<times> tuple_heap" where
  "new_cell d h = (brk h, h\<lparr>cells := (cells h)(brk h \<mapsto> d), brk := brk h + 1\<rparr>)"

definition dbtuple_new :: "nat \<Rightarrow> nat \<Rightarrow> bool \<Rightarrow> dbtuple result" where
  "dbtuple_new sz alloc_size acquire_lock = rbind (CheckBounds sz) (\<lambda>sz. rbind (CheckBounds alloc_size) (\<lambda>alloc_size.
     let v = HDR_LATEST_MASK OR (if acquire_lock then HDR_LOCKED_MASK OR HDR_WRITE_INTENT_MASK else 0) OR
             (if sz = 0 then HDR_DELETING_MASK else 0)
     in rbind (rassert (IsLatest v)) (\<lambda>_. rbind (rassert (sz \<noteq> 0 \<or> IsDeleting v)) (\<lambda>_.
        Inr \<lparr>hdr = v, tver = MAX_TID, tsize = sz, talloc = alloc_size, tnext = None, tval = replicate alloc_size 0\<rparr>))))"

definition dbtuple_copy :: "u64 \<Rightarrow> dbtuple \<Rightarrow> nat \<Rightarrow> bool \<Rightarrow> dbtuple result" where
  "dbtuple_copy version base alloc_size set_latest = rbind (CheckBounds alloc_size) (\<lambda>alloc_size.
     let v = (if set_latest then HDR_LATEST_MASK else 0)
     in rbind (rassert (tsize base \<le> alloc_size)) (\<lambda>_. rbind (rassert (set_latest = IsLatest v)) (\<lambda>_.
        rbind (if IsDeleting (hdr base) then hdr_mark_deleting v else Inr v) (\<lambda>v.
        Inr \<lparr>hdr = v, tver = version, tsize = tsize base, talloc = alloc_size, tnext = tnext base,
             tval = take (tsize base) (tval base) @ replicate (alloc_size - tsize base) 0\<rparr>))))"

definition dbtuple_spill ::
  "u64 \<Rightarrow> bytes \<Rightarrow> nat \<Rightarrow> nat \<Rightarrow> nat \<Rightarrow> addr option \<Rightarrow> bool \<Rightarrow> bool \<Rightarrow> dbtuple result" where
  "dbtuple_spill version r old_size new_size alloc_size next set_latest needs_old_value =
     rbind (CheckBounds new_size) (\<lambda>new_size. rbind (CheckBounds alloc_size) (\<lambda>alloc_size.
     let v = (if set_latest then HDR_LATEST_MASK else 0) OR (if new_size = 0 then HDR_DELETING_MASK else 0)
     in rbind (rassert (\<not> needs_old_value \<or> old_size \<le> alloc_size)) (\<lambda>_. rbind (rassert (new_size \<le> alloc_size)) (\<lambda>_.
        rbind (rassert (set_latest = IsLatest v)) (\<lambda>_. rbind (rassert (new_size \<noteq> 0 \<or> IsDeleting v)) (\<lambda>_.
        Inr \<lparr>hdr = v, tver = version, tsize = new_size, talloc = alloc_size, tnext = next,
             tval = (if needs_old_value then take old_size r @ replicate (alloc_size - old_size) 0
                     else replicate alloc_size 0)\<rparr>))))))"

definition alloc_first :: "nat \<Rightarrow> bool \<Rightarrow> tuple_heap \<Rightarrow> (addr \<times> tuple_heap) result" where
  "alloc_first sz acquire_lock h = rbind (rassert (sz \<le> max_node_size)) (\<lambda>_.
     rbind (rassert (sz \<le> alloc_room sz)) (\<lambda>_.
     rbind (dbtuple_new sz (alloc_room sz) acquire_lock) (\<lambda>d. Inr (new_cell d h))))"

definition alloc_copy :: "u64 \<Rightarrow> addr \<Rightarrow> bool \<Rightarrow> tuple_heap \<Rightarrow> (addr \<times> tuple_heap) result" where
  "alloc_copy version base set_latest h = rbind (tget base h) (\<lambda>b.
     rbind (dbtuple_copy version b (alloc_room (tsize b)) set_latest) (\<lambda>d. Inr (new_cell d h)))"

definition alloc_spill ::
  "u64 \<Rightarrow> bytes \<Rightarrow> nat \<Rightarrow> nat \<Rightarrow> addr option \<Rightarrow> bool \<Rightarrow> bool \<Rightarrow> tuple_heap \<Rightarrow> (addr \<times> tuple_heap) result" where
  "alloc_spill version val oldsz newsz next set_latest copy_old_value h =
     rbind (rassert (oldsz \<le> max_node_size)) (\<lambda>_. rbind (rassert (newsz \<le> max_node_size)) (\<lambda>_.
     let needed_sz = (if copy_old_value then max newsz oldsz else newsz)
     in rbind (dbtuple_spill version val oldsz newsz (alloc_room needed_sz) next set_latest copy_old_value) (\<lambda>d.
        Inr (new_cell d h))))"

definition destruct_and_free :: "addr \<Rightarrow> tuple_heap \<Rightarrow> tuple_heap result" where
  "destruct_and_free p h = rbind (tget p h) (\<lambda>d.
     rbind (rassert (\<not> IsLocked (hdr d) \<and> \<not> IsLatest (hdr d) \<and> \<not> IsWriteIntent (hdr d) \<and> \<not> IsModifying (hdr d))) (\<lambda>_.
     Inr (h\<lparr>cells := (cells h)(p := None)\<rparr>)))"

definition deleter :: "addr \<Rightarrow> tuple_heap \<Rightarrow> tuple_heap result" where
  "deleter p h = rbind (tget p h) (\<lambda>d.
     rbind (rassert (\<not> IsLatest (hdr d) \<and> \<not> IsLocked (hdr d) \<and> \<not> IsModifying (hdr d))) (\<lambda>_. destruct_and_free p h))"

text \<open>\<^verbatim>\<open>release\<close> hands the tuple to the RCU collector, which runs \<^verbatim>\<open>deleter\<close> after a grace period.\<close>

definition release :: "addr \<Rightarrow> tuple_heap \<Rightarrow> tuple_heap result" where
  "release p h = rbind (tget p h) (\<lambda>d. rbind (rassert (IsLocked (hdr d))) (\<lambda>_.
     rbind (rassert (\<not> IsLatest (hdr d))) (\<lambda>_. Inr (h\<lparr>rcu_freed := rcu_freed h @ [p]\<rparr>))))"

definition release_no_rcu :: "addr \<Rightarrow> tuple_heap \<Rightarrow> tuple_heap result" where
  "release_no_rcu p h = rbind (tget p h) (\<lambda>d.
     rbind (rassert (\<not> IsLatest (hdr d))) (\<lambda>_. destruct_and_free p h))"

definition gc_this :: "addr \<Rightarrow> tuple_heap \<Rightarrow> tuple_heap result" where
  "gc_this p h = rbind (tget p h) (\<lambda>d. rbind (rassert (\<not> IsLatest (hdr d))) (\<lambda>_. release p h))"

section \<open>Reading\<close>

datatype ReadStatus = READ_FAILED | READ_EMPTY | READ_RECORD

text \<open>
  The value reader of \<^verbatim>\<open>txn_btree_\<close> copies at most \<^verbatim>\<open>max_bytes_read\<close> bytes and always succeeds.
\<close>

definition value_reader :: "nat \<Rightarrow> bytes \<Rightarrow> nat \<Rightarrow> bytes result" where
  "value_reader max_bytes_read data sz = mem_read data 0 (min sz max_bytes_read)"

definition read_tuple :: "nat \<Rightarrow> dbtuple \<Rightarrow> u32 \<Rightarrow> (ReadStatus \<times> u64 \<times> bytes) result" where
  "read_tuple max_bytes_read d v =
     (let read_sz = (if IsDeleting v then 0 else tsize d)
      in rbind (if read_sz \<noteq> 0 then value_reader max_bytes_read (tval d) read_sz else Inr []) (\<lambda>bs.
         if \<not> reader_check_version (hdr d) v then Inl Spins
         else Inr (if read_sz \<noteq> 0 then READ_RECORD else READ_EMPTY, tver d, bs)))"

text \<open>
  The loop over the chain of versions.  The first argument bounds the number of its rounds; the
  length of the chain is enough.
\<close>

fun record_at_chain ::
  "nat \<Rightarrow> nat \<Rightarrow> bool \<Rightarrow> u64 \<Rightarrow> addr \<Rightarrow> tuple_heap \<Rightarrow> (ReadStatus \<times> u64 \<times> bytes) result" where
  "record_at_chain 0 mx allow t p h = Inl Spins"
| "record_at_chain (Suc n) mx allow t p h = rbind (tget p h) (\<lambda>d.
     rbind (rassert (tver d \<noteq> MAX_TID)) (\<lambda>_.
     rbind (reader_stable_version allow (hdr d)) (\<lambda>v.
     if is_not_behind d t then read_tuple mx d v
     else if \<not> reader_check_version (hdr d) v then Inl Spins
     else case tnext d of Some q \<Rightarrow> record_at_chain n mx allow t q h
       | None \<Rightarrow> Inr (READ_EMPTY, MIN_TID, []))))"

definition record_at ::
  "nat \<Rightarrow> nat \<Rightarrow> bool \<Rightarrow> u64 \<Rightarrow> addr \<Rightarrow> tuple_heap \<Rightarrow> (ReadStatus \<times> u64 \<times> bytes) result" where
  "record_at n mx allow t p h = rbind (tget p h) (\<lambda>d.
     if tver d = MAX_TID then Inr (READ_EMPTY, MIN_TID, [])
     else rbind (reader_stable_version allow (hdr d)) (\<lambda>v.
       if is_not_behind d t then read_tuple mx d v
       else if \<not> reader_check_version (hdr d) v then Inl Spins
       else case tnext d of Some q \<Rightarrow> record_at_chain n mx allow t q h
         | None \<Rightarrow> Inr (READ_EMPTY, MIN_TID, [])))"

definition stable_read ::
  "nat \<Rightarrow> nat \<Rightarrow> bool \<Rightarrow> u64 \<Rightarrow> addr \<Rightarrow> tuple_heap \<Rightarrow> (ReadStatus \<times> u64 \<times> bytes) result" where
  "stable_read n mx allow t p h = record_at n mx allow t p h"

section \<open>Writing\<close>

text \<open>The writer of \<^verbatim>\<open>txn_btree_\<close>, by mode.\<close>

definition writer_needs_old_value :: bool where "writer_needs_old_value = False"

definition writer_compute_needed :: "bytes \<Rightarrow> nat" where "writer_compute_needed v = length v"

definition writer_do_write :: "bytes \<Rightarrow> bytes \<Rightarrow> bytes result" where
  "writer_do_write v buf = mem_write buf 0 v"

definition write_val :: "bytes option \<Rightarrow> bytes \<Rightarrow> bytes result" where
  "write_val v buf = (case v of None \<Rightarrow> Inr buf | Some x \<Rightarrow> writer_do_write x buf)"

type_synonym write_record_ret = "addr \<times> addr option \<times> bool"

text \<open>The tuple is modified in place: new bytes, identifier and size, and the mark of a deletion.\<close>

definition modify_tuple :: "u64 \<Rightarrow> bytes option \<Rightarrow> nat \<Rightarrow> addr option \<Rightarrow> dbtuple \<Rightarrow> dbtuple result" where
  "modify_tuple t v new_sz next d = rbind (hdr_mark_modifying (hdr d)) (\<lambda>w.
     rbind (write_val v (tval d)) (\<lambda>buf.
     rbind (if new_sz = 0 then hdr_mark_deleting w else Inr w) (\<lambda>w.
     Inr (d\<lparr>hdr := w, tnext := next, tval := buf, tver := t, tsize := new_sz\<rparr>))))"

text \<open>A new tuple takes the place of the old one, which stays behind it in the chain.\<close>

definition replace_tuple ::
  "u64 \<Rightarrow> bytes option \<Rightarrow> nat \<Rightarrow> nat \<Rightarrow> bool \<Rightarrow> addr \<Rightarrow> dbtuple \<Rightarrow> tuple_heap \<Rightarrow> (write_record_ret \<times> tuple_heap) result" where
  "replace_tuple t v old_sz new_sz forced p d h =
     rbind (alloc_spill t (tval d) old_sz new_sz (Some p) True writer_needs_old_value h) (\<lambda>(rep, h).
     rbind (tget rep h) (\<lambda>r. rbind (write_val v (tval r)) (\<lambda>buf.
     let h = tput rep (r\<lparr>tval := buf\<rparr>) h
     in rbind (rassert (IsLatest (hdr r) \<and> tsize r = new_sz \<and> (new_sz \<noteq> 0 \<or> IsDeleting (hdr r)))) (\<lambda>_.
        rbind (on_hdr hdr_clear_latest p h) (\<lambda>h. Inr ((rep, Some p, forced), h))))))"

definition write_record_at ::
  "u64 \<Rightarrow> bytes option \<Rightarrow> addr \<Rightarrow> tuple_heap \<Rightarrow> (write_record_ret \<times> tuple_heap) result" where
  "write_record_at t v p h = rbind (tget p h) (\<lambda>d.
     rbind (rassert (IsLocked (hdr d) \<and> IsLatest (hdr d) \<and> IsWriteIntent (hdr d))) (\<lambda>_.
     let new_sz = (case v of None \<Rightarrow> 0 | Some x \<Rightarrow> writer_compute_needed x)
     in rbind (rassert (v = None \<or> new_sz \<noteq> 0)) (\<lambda>_.
        rbind (rassert (IsDeleting (hdr d) \<or> tsize d \<noteq> 0)) (\<lambda>_.
        let old_sz = (if IsDeleting (hdr d) then 0 else tsize d)
        in rbind (can_overwrite_record_tid (tver d) t) (\<lambda>can.
           if can \<and> old_sz \<noteq> 0 then
             if new_sz \<le> talloc d then
               rbind (modify_tuple t v new_sz (tnext d) d) (\<lambda>d. Inr ((p, None, False), tput p d h))
             else rbind (rassert (new_sz \<noteq> 0 \<and> v \<noteq> None)) (\<lambda>_. replace_tuple t v old_sz new_sz False p d h)
           else if new_sz \<le> talloc d \<and> old_sz \<noteq> 0 then
             rbind (alloc_copy (tver d) p False h) (\<lambda>(spill, h).
             rbind (modify_tuple t v new_sz (Some spill) d) (\<lambda>d. Inr ((p, Some spill, True), tput p d h)))
           else replace_tuple t v old_sz new_sz True p d h)))))"

section \<open>Bits of the header\<close>

named_theorems hdr_bits "the bits of the header word"

lemma flag_bits [hdr_bits]:
  "IsLocked v \<longleftrightarrow> bit v 0" "IsDeleting v \<longleftrightarrow> bit v 1" "IsWriteIntent v \<longleftrightarrow> bit v 2"
  "IsModifying v \<longleftrightarrow> bit v 3" "IsLatest v \<longleftrightarrow> bit v 4"
  unfolding IsLocked_def IsDeleting_def IsWriteIntent_def IsModifying_def IsLatest_def HDR_LOCKED_MASK_def
    HDR_DELETING_MASK_def HDR_WRITE_INTENT_MASK_def HDR_MODIFYING_MASK_def HDR_LATEST_MASK_def
    bit_iff_and_push_bit_not_eq_0 by simp_all

lemma bit_flag_masks [hdr_bits]:
  "bit HDR_LOCKED_MASK n \<longleftrightarrow> n = 0" "bit HDR_DELETING_MASK n \<longleftrightarrow> n = 1" "bit HDR_WRITE_INTENT_MASK n \<longleftrightarrow> n = 2"
  "bit HDR_MODIFYING_MASK n \<longleftrightarrow> n = 3" "bit HDR_LATEST_MASK n \<longleftrightarrow> n = 4"
  unfolding HDR_LOCKED_MASK_def HDR_DELETING_MASK_def HDR_WRITE_INTENT_MASK_def HDR_MODIFYING_MASK_def
    HDR_LATEST_MASK_def bit_push_bit_iff by (auto simp: bit_1_iff)

lemma bit_version_mask [hdr_bits]: "bit HDR_VERSION_MASK n \<longleftrightarrow> 5 \<le> n \<and> n < 32"
  unfolding HDR_VERSION_MASK_def HDR_VERSION_SHIFT_def bit_push_bit_iff by auto

lemma hdr_Version_drop_bit: "hdr_Version v = drop_bit 5 v"
  unfolding hdr_Version_def HDR_VERSION_SHIFT_def
  by (rule bit_word_eqI) (auto simp: bit_drop_bit_eq bit_and_iff hdr_bits dest: bit_imp_le_length)

lemma hdr_Version_less: "unat (hdr_Version v) < 2 ^ 27"
proof -
  have "unat v < 2 ^ LENGTH(32)" by (rule unsigned_less)
  then have "unat v < 2 ^ 27 * 2 ^ 5" by simp
  then have "unat v div 2 ^ 5 < 2 ^ 27" by (rule less_mult_imp_div_less)
  then show ?thesis by (simp add: hdr_Version_drop_bit drop_bit_eq_div unat_div)
qed

lemma reader_check_version_bits:
  "reader_check_version h v \<longleftrightarrow> (\<forall>n. n \<notin> {0, 2, 4} \<longrightarrow> bit h n = bit v n)" (is "_ \<longleftrightarrow> ?R")
proof
  assume l: "reader_check_version h v"
  show ?R
  proof (intro allI impI)
    fix n :: nat
    assume n: "n \<notin> {0, 2, 4}"
    show "bit h n = bit v n"
    proof (cases "n < 32")
      case True
      let ?M = "NOT (HDR_LOCKED_MASK OR HDR_WRITE_INTENT_MASK OR HDR_LATEST_MASK)"
      from l have "bit (h AND ?M) n = bit (v AND ?M) n" by (simp only: reader_check_version_def Let_def)
      with True n show ?thesis by (simp add: hdr_bits bit_simps)
    qed (auto dest: bit_imp_le_length)
  qed
next
  assume ?R
  then show "reader_check_version h v" unfolding reader_check_version_def Let_def
    by (intro bit_word_eqI) (auto simp: hdr_bits bit_simps)
qed

text \<open>What the operations leave of the header, bit by bit.\<close>

definition hdr_newv :: "u32 \<Rightarrow> bool" where
  "hdr_newv v \<longleftrightarrow> IsModifying v \<or> IsWriteIntent v"

lemma hdr_unlock_cases:
  assumes "hdr_unlock v = Inr v'"
  shows "IsLocked v" "bit v' n \<longleftrightarrow> n \<notin> {0, 2, 3} \<and>
      (if hdr_newv v \<and> 5 \<le> n then n < 32 \<and> bit (hdr_Version v + 1) (n - 5) else bit v n)"
proof -
  show "IsLocked v" using assms by (auto simp: hdr_unlock_def rbind_eq_Inr_iff)
  have "v' = (if hdr_newv v then (v AND NOT HDR_VERSION_MASK) OR
        (push_bit HDR_VERSION_SHIFT (hdr_Version v + 1) AND HDR_VERSION_MASK) else v)
      AND NOT (HDR_LOCKED_MASK OR HDR_MODIFYING_MASK OR HDR_WRITE_INTENT_MASK)"
    using assms by (auto simp: hdr_unlock_def rbind_eq_Inr_iff Let_def hdr_newv_def)
  then show "bit v' n \<longleftrightarrow> n \<notin> {0, 2, 3} \<and>
      (if hdr_newv v \<and> 5 \<le> n then n < 32 \<and> bit (hdr_Version v + 1) (n - 5) else bit v n)"
    unfolding HDR_VERSION_SHIFT_def
    by (auto simp: hdr_bits bit_and_iff bit_or_iff bit_not_iff bit_push_bit_iff dest: bit_imp_le_length)
qed

lemma hdr_Version_unlock:
  assumes "hdr_unlock v = Inr v'"
  shows "hdr_Version v' = (if hdr_newv v then take_bit 27 (hdr_Version v + 1) else hdr_Version v)"
  unfolding hdr_Version_drop_bit [of v']
  by (rule bit_word_eqI)
    (auto simp: bit_drop_bit_eq bit_take_bit_iff hdr_unlock_cases(2) [OF assms] hdr_Version_drop_bit [of v])

lemma hdr_Version_eqI:
  assumes "\<And>n. 5 \<le> n \<Longrightarrow> n < 32 \<Longrightarrow> bit v n = bit w n"
  shows "hdr_Version v = hdr_Version w"
proof -
  have "bit v n = bit w n" if "5 \<le> n" for n
    using assms [OF that] by (cases "n < 32") (auto dest: bit_imp_le_length)
  then show ?thesis unfolding hdr_Version_drop_bit by (intro bit_word_eqI) (simp add: bit_drop_bit_eq)
qed

lemma unat_next_version: "unat (take_bit 27 (hdr_Version v + 1)) = (unat (hdr_Version v) + 1) mod 2 ^ 27"
  using hdr_Version_less [of v] by (simp add: unat_word_ariths(1) take_bit_eq_mod unat_mod)

lemma next_version_differs: "take_bit 27 (hdr_Version v + 1) \<noteq> hdr_Version v"
proof
  assume "take_bit 27 (hdr_Version v + 1) = hdr_Version v"
  then have "(unat (hdr_Version v) + 1) mod 2 ^ 27 = unat (hdr_Version v)" using unat_next_version [of v] by simp
  with hdr_Version_less [of v] show False by (cases "unat (hdr_Version v) + 1 = 2 ^ 27") auto
qed

text \<open>The assertions in \<^verbatim>\<open>unlock\<close> cannot fail for the holder of the lock.\<close>

lemma hdr_unlock_defined:
  assumes "IsLocked v"
  shows "\<exists>v'. hdr_unlock v = Inr v'"
proof -
  define w where "w = (if hdr_newv v then (v AND NOT HDR_VERSION_MASK) OR
        (push_bit HDR_VERSION_SHIFT (hdr_Version v + 1) AND HDR_VERSION_MASK) else v)
      AND NOT (HDR_LOCKED_MASK OR HDR_MODIFYING_MASK OR HDR_WRITE_INTENT_MASK)"
  have b: "bit w n \<longleftrightarrow> n \<notin> {0, 2, 3} \<and>
      (if hdr_newv v \<and> 5 \<le> n then n < 32 \<and> bit (hdr_Version v + 1) (n - 5) else bit v n)" for n
    unfolding w_def HDR_VERSION_SHIFT_def
    by (auto simp: hdr_bits bit_and_iff bit_or_iff bit_not_iff bit_push_bit_iff dest: bit_imp_le_length)
  have "\<not> reader_check_version v w" if "hdr_newv v"
  proof
    assume "reader_check_version v w"
    then have "hdr_Version v = hdr_Version w" by (intro hdr_Version_eqI) (auto simp: reader_check_version_bits)
    moreover have "hdr_Version w = take_bit 27 (hdr_Version v + 1)" unfolding hdr_Version_drop_bit [of w]
      by (rule bit_word_eqI) (use that in \<open>auto simp: bit_drop_bit_eq bit_take_bit_iff b\<close>)
    ultimately show False using next_version_differs [of v] by simp
  qed
  moreover from this have "\<not> writer_check_version v w" if "hdr_newv v"
    using that by (auto simp: writer_check_version_def reader_check_version_def)
  moreover have "\<not> IsLocked w \<and> \<not> IsModifying w \<and> \<not> IsWriteIntent w" by (simp add: hdr_bits b)
  ultimately have "hdr_unlock v = Inr w" using assms
    unfolding hdr_unlock_def Let_def hdr_newv_def [symmetric] w_def [symmetric] by auto
  then show ?thesis by blast
qed

section \<open>Readers and writers of one tuple\<close>

text \<open>
  A run of the header of one tuple: threads lock it (with or without write intent), mark it as being
  modified or deleted, and unlock it.  The number counts the write sections that are over, that is, the
  unlocks of a holder that had announced a write or was modifying the tuple.
\<close>

inductive hdr_run :: "u32 \<Rightarrow> nat \<Rightarrow> u32 \<Rightarrow> bool" for v0 :: u32 where
  start: "hdr_run v0 0 v0"
| lock: "hdr_run v0 k v \<Longrightarrow> hdr_lock wi v = Inr v' \<Longrightarrow> hdr_run v0 k v'"
| mark_modifying: "hdr_run v0 k v \<Longrightarrow> hdr_mark_modifying v = Inr v' \<Longrightarrow> hdr_run v0 k v'"
| mark_deleting: "hdr_run v0 k v \<Longrightarrow> hdr_mark_deleting v = Inr v' \<Longrightarrow> hdr_run v0 k v'"
| clear_deleting: "hdr_run v0 k v \<Longrightarrow> hdr_clear_deleting v = Inr v' \<Longrightarrow> hdr_run v0 k v'"
| clear_latest: "hdr_run v0 k v \<Longrightarrow> hdr_clear_latest v = Inr v' \<Longrightarrow> hdr_run v0 k v'"
| unlock: "hdr_run v0 k v \<Longrightarrow> hdr_unlock v = Inr v' \<Longrightarrow> hdr_run v0 (if hdr_newv v then Suc k else k) v'"

lemma hdr_marks:
  "hdr_lock wi v = Inr v' \<Longrightarrow> hdr_Version v' = hdr_Version v \<and> (IsModifying v' \<longleftrightarrow> IsModifying v)"
  "hdr_mark_modifying v = Inr v' \<Longrightarrow> hdr_Version v' = hdr_Version v \<and> IsModifying v'"
  "hdr_mark_deleting v = Inr v' \<Longrightarrow> hdr_Version v' = hdr_Version v \<and> (IsModifying v' \<longleftrightarrow> IsModifying v)"
  "hdr_clear_deleting v = Inr v' \<Longrightarrow> hdr_Version v' = hdr_Version v \<and> (IsModifying v' \<longleftrightarrow> IsModifying v)"
  "hdr_clear_latest v = Inr v' \<Longrightarrow> hdr_Version v' = hdr_Version v \<and> (IsModifying v' \<longleftrightarrow> IsModifying v)"
  by (auto simp: hdr_lock_def hdr_mark_modifying_def hdr_mark_deleting_def hdr_clear_deleting_def hdr_clear_latest_def
      rbind_eq_Inr_iff Let_def hdr_bits bit_or_iff bit_and_iff bit_not_iff
      intro!: hdr_Version_eqI dest: bit_imp_le_length split: if_splits)

lemma hdr_run_version:
  assumes "hdr_run v0 k v"
  shows "unat (hdr_Version v) = (unat (hdr_Version v0) + k) mod 2 ^ 27"
  using assms
proof (induction rule: hdr_run.induct)
  case start
  show ?case using hdr_Version_less [of v0] by simp
next
  case (unlock k v v')
  then show ?case using hdr_Version_unlock [OF unlock.hyps(2)] unat_next_version [of v] by (simp add: mod_Suc_eq)
next
  case (lock k v wi v')
  with hdr_marks(1) [OF lock.hyps(2)] show ?case by simp
next
  case (mark_modifying k v v')
  with hdr_marks(2) [OF mark_modifying.hyps(2)] show ?case by simp
next
  case (mark_deleting k v v')
  with hdr_marks(3) [OF mark_deleting.hyps(2)] show ?case by simp
next
  case (clear_deleting k v v')
  with hdr_marks(4) [OF clear_deleting.hyps(2)] show ?case by simp
next
  case (clear_latest k v v')
  with hdr_marks(5) [OF clear_latest.hyps(2)] show ?case by simp
qed

lemma version_back_to_start:
  assumes "(unat (hdr_Version v0) + k) mod 2 ^ 27 = unat (hdr_Version v0)" and "k < 2 ^ 27"
  shows "k = 0"
  using hdr_Version_less [of v0] assms
  by (cases "unat (hdr_Version v0) + k < 2 ^ 27") (auto simp: le_mod_geq not_less)

lemma hdr_Version_bits: "hdr_Version v = hdr_Version w \<Longrightarrow> 5 \<le> n \<Longrightarrow> bit v n = bit w n"
proof -
  assume "hdr_Version v = hdr_Version w" and n: "5 \<le> n"
  then have "bit (drop_bit 5 v) (n - 5) = bit (drop_bit 5 w) (n - 5)" by (simp add: hdr_Version_drop_bit)
  with n show ?thesis by (simp add: bit_drop_bit_eq)
qed

text \<open>
  C17.  What a reader notices.  A reader takes a version with \<^verbatim>\<open>reader_stable_version\<close>, copies the contents
  and calls \<^verbatim>\<open>reader_check_version\<close>.  Whatever the writers did to the header in between, as long as the
  27-bit counter did not go all the way round, the check passes exactly when no write section has
  ended since, the tuple is not marked as being modified, and its deletion mark is as before: every
  write that was completed or has reached its marked part makes it fail, and a lock, a write
  intent or the loss of the \<^verbatim>\<open>latest\<close> mark alone does not.
\<close>

theorem reader_notices_completed_writes:
  assumes "reader_stable_version allow v0 = Inr v0" and "hdr_run v0 k v" and "k < 2 ^ 27"
  shows "reader_check_version v v0 \<longleftrightarrow> k = 0 \<and> \<not> IsModifying v \<and> (IsDeleting v \<longleftrightarrow> IsDeleting v0)"
proof
  have nm: "\<not> IsModifying v0" using assms(1) by (auto simp: reader_stable_version_def split: if_splits)
  note ver = hdr_run_version [OF assms(2)]
  assume "reader_check_version v v0"
  then have b: "bit v n = bit v0 n" if "n \<notin> {0, 2, 4}" for n
    using that by (simp add: reader_check_version_bits)
  then have "hdr_Version v = hdr_Version v0" by (intro hdr_Version_eqI) simp
  then have "(unat (hdr_Version v0) + k) mod 2 ^ 27 = unat (hdr_Version v0)" using ver by simp
  then have "k = 0" using assms(3) by (rule version_back_to_start)
  moreover have "\<not> IsModifying v" using nm b [of 3] by (simp add: hdr_bits)
  moreover have "IsDeleting v \<longleftrightarrow> IsDeleting v0" using b [of 1] by (simp add: hdr_bits)
  ultimately show "k = 0 \<and> \<not> IsModifying v \<and> (IsDeleting v \<longleftrightarrow> IsDeleting v0)" by blast
next
  have nm: "\<not> IsModifying v0" using assms(1) by (auto simp: reader_stable_version_def split: if_splits)
  assume a: "k = 0 \<and> \<not> IsModifying v \<and> (IsDeleting v \<longleftrightarrow> IsDeleting v0)"
  have "unat (hdr_Version v) = unat (hdr_Version v0)"
    using a hdr_run_version [OF assms(2)] hdr_Version_less [of v0] by simp
  then have e: "hdr_Version v = hdr_Version v0" by (simp add: word_unat_eq_iff)
  have "bit v n = bit v0 n" if "n \<notin> {0, 2, 4}" for n
  proof (cases "5 \<le> n")
    case False
    with that have "n = 1 \<or> n = 3" by auto
    with a nm show ?thesis by (auto simp: hdr_bits)
  qed (rule hdr_Version_bits [OF e])
  then show "reader_check_version v v0" by (simp add: reader_check_version_bits)
qed

text \<open>A writer that locks the tuple but does not modify it yet does not disturb the reader; one that has unlocked it does.\<close>

theorem reader_notices_completed_writes_witness:
  "reader_check_version (HDR_LATEST_MASK OR (HDR_LOCKED_MASK OR HDR_WRITE_INTENT_MASK)) HDR_LATEST_MASK \<and>
   (\<exists>v. hdr_unlock (HDR_LATEST_MASK OR (HDR_LOCKED_MASK OR HDR_WRITE_INTENT_MASK)) = Inr v \<and>
      \<not> reader_check_version v HDR_LATEST_MASK)"
proof -
  let ?v = "HDR_LATEST_MASK OR (HDR_LOCKED_MASK OR HDR_WRITE_INTENT_MASK)"
  have "hdr_lock True HDR_LATEST_MASK = Inr ?v" by (simp add: hdr_lock_def hdr_bits bit_or_iff)
  then have r: "hdr_run HDR_LATEST_MASK 0 ?v" by (rule hdr_run.lock [OF hdr_run.start])
  have s: "reader_stable_version False HDR_LATEST_MASK = Inr HDR_LATEST_MASK"
    by (simp add: reader_stable_version_def hdr_bits)
  obtain v where v: "hdr_unlock ?v = Inr v" using hdr_unlock_defined [of ?v] by (auto simp: hdr_bits bit_or_iff)
  have "hdr_newv ?v" by (simp add: hdr_newv_def hdr_bits bit_or_iff)
  with hdr_run.unlock [OF r v] have r1: "hdr_run HDR_LATEST_MASK 1 v" by simp
  from reader_notices_completed_writes [OF s r] reader_notices_completed_writes [OF s r1] v show ?thesis
    by (simp add: hdr_bits bit_or_iff)
qed

section \<open>Chains of versions\<close>

text \<open>
  The addresses on the chain that starts at a link, and the version of the record a reader at \<open>t\<close> is
  meant to see: the newest one that is not younger than \<open>t\<close>, with no bytes for a deleted record.
\<close>

fun chain :: "tuple_heap \<Rightarrow> addr option \<Rightarrow> addr list \<Rightarrow> bool" where
  "chain h None ps \<longleftrightarrow> ps = []"
| "chain h (Some p) [] \<longleftrightarrow> False"
| "chain h (Some p) (q # ps) \<longleftrightarrow> p = q \<and> p \<notin> set ps \<and>
     (case cells h p of None \<Rightarrow> False | Some d \<Rightarrow> chain h (tnext d) ps)"

definition tuple_bytes :: "dbtuple \<Rightarrow> bytes" where
  "tuple_bytes d = (if IsDeleting (hdr d) then [] else take (tsize d) (tval d))"

primrec version_at :: "tuple_heap \<Rightarrow> u64 \<Rightarrow> addr list \<Rightarrow> u64 \<times> bytes" where
  "version_at h t [] = (MIN_TID, [])"
| "version_at h t (p # ps) = (case cells h p of None \<Rightarrow> (MIN_TID, [])
     | Some d \<Rightarrow> if tver d \<le> t then (tver d, tuple_bytes d) else version_at h t ps)"

text \<open>Tuples keep their value within their allocation, and new cells are beyond all others.\<close>

definition tuple_ok :: "dbtuple \<Rightarrow> bool" where
  "tuple_ok d \<longleftrightarrow> length (tval d) = talloc d \<and> tsize d \<le> talloc d \<and> talloc d \<le> max_node_size \<and> (IsDeleting (hdr d) \<or> tsize d \<noteq> 0)"

definition heap_ok :: "tuple_heap \<Rightarrow> bool" where
  "heap_ok h \<longleftrightarrow> (\<forall>p d. cells h p = Some d \<longrightarrow> p < brk h \<and> tuple_ok d)"

definition quiet :: "bool \<Rightarrow> dbtuple \<Rightarrow> bool" where
  "quiet allow d \<longleftrightarrow> tver d \<noteq> MAX_TID \<and> \<not> IsModifying (hdr d) \<and> (allow \<or> \<not> IsWriteIntent (hdr d))"

lemma cells_tput [simp]: "cells (tput p d h) = (cells h)(p \<mapsto> d)"
  by (simp add: tput_def)

lemma brk_tput [simp]: "brk (tput p d h) = brk h"
  by (simp add: tput_def)

lemma tget_eq_Inr_iff [simp]: "tget p h = Inr d \<longleftrightarrow> cells h p = Some d"
  by (auto simp: tget_def split: option.splits)

lemma tget_Some [simp]: "cells h p = Some d \<Longrightarrow> tget p h = Inr d"
  by simp

lemma reader_check_refl [simp]: "reader_check_version v v"
  by (simp add: reader_check_version_def)

lemma chain_frame:
  "chain h q ps \<Longrightarrow> (\<And>p. p \<in> set ps \<Longrightarrow> cells h' p = cells h p) \<Longrightarrow> chain h' q ps"
  by (induction h q ps rule: chain.induct) (auto split: option.splits)

lemma version_at_frame:
  "(\<And>p. p \<in> set ps \<Longrightarrow> cells h' p = cells h p) \<Longrightarrow> version_at h' t ps = version_at h t ps"
  by (induction ps) (auto split: option.splits)

lemma chain_cells: "chain h q ps \<Longrightarrow> p \<in> set ps \<Longrightarrow> \<exists>d. cells h p = Some d"
  by (induction h q ps rule: chain.induct) (auto split: option.splits)

lemma chain_below_brk: "heap_ok h \<Longrightarrow> chain h q ps \<Longrightarrow> p \<in> set ps \<Longrightarrow> p < brk h"
  using chain_cells [of h q ps p] by (auto simp: heap_ok_def)

text \<open>What a read gives, from the version it finds.\<close>

definition read_result :: "nat \<Rightarrow> u64 \<times> bytes \<Rightarrow> ReadStatus \<times> u64 \<times> bytes" where
  "read_result mx v = (if snd v = [] then READ_EMPTY else READ_RECORD, fst v, take mx (snd v))"

lemma read_tuple_quiet:
  assumes "tuple_ok d"
  shows "read_tuple mx d (hdr d) = Inr (read_result mx (tver d, tuple_bytes d))"
proof (cases "IsDeleting (hdr d)")
  case True
  then show ?thesis by (simp add: read_tuple_def read_result_def tuple_bytes_def)
next
  case False
  with assms have s: "tsize d \<noteq> 0" "tsize d \<le> length (tval d)" by (simp_all add: tuple_ok_def)
  then have "value_reader mx (tval d) (tsize d) = Inr (take mx (take (tsize d) (tval d)))"
    by (simp add: value_reader_def mem_read_def min.coboundedI1 min.commute)
  moreover from s have "take (tsize d) (tval d) \<noteq> []" by auto
  ultimately show ?thesis using False s by (simp add: read_tuple_def read_result_def tuple_bytes_def)
qed

lemma record_at_chain_correct:
  assumes "chain h (Some p) ps" and "length ps \<le> n" and "heap_ok h"
    and "\<And>q d. q \<in> set ps \<Longrightarrow> cells h q = Some d \<Longrightarrow> quiet allow d"
  shows "record_at_chain n mx allow t p h = Inr (read_result mx (version_at h t ps))"
  using assms
proof (induction ps arbitrary: p n)
  case (Cons q ps)
  then obtain d m where d: "q = p" "cells h p = Some d" "chain h (tnext d) ps" "n = Suc m" "length ps \<le> m" "quiet allow d"
    by (cases n) (auto split: option.splits)
  have ok: "tuple_ok d" using Cons.prems(3) d(2) by (auto simp: heap_ok_def)
  from d(6) have st: "reader_stable_version allow (hdr d) = Inr (hdr d)" "tver d \<noteq> MAX_TID"
    by (auto simp: quiet_def reader_stable_version_def)
  show ?case
  proof (cases "tnext d")
    case None
    with d have "ps = []" by simp
    with d None st ok show ?thesis
      by (auto simp: is_not_behind_def read_tuple_quiet read_result_def MIN_TID_def)
  next
    case (Some r)
    with d have "chain h (Some r) ps" by simp
    from Cons.IH [OF this d(5) Cons.prems(3)] Cons.prems(4) d Some st ok show ?thesis
      by (auto simp: is_not_behind_def read_tuple_quiet)
  qed
qed simp

text \<open>
  C16.  Reading a record.  On a chain of committed versions that no writer is modifying, \<^verbatim>\<open>stable_read\<close>
  at \<open>t\<close> ends and returns the newest version not younger than \<open>t\<close>: its identifier, its bytes up to the
  reader's limit, \<^verbatim>\<open>READ_EMPTY\<close> for a deleted record and beyond the end of the chain.
\<close>

theorem stable_read_correct:
  assumes "chain h (Some p) ps" and "length ps \<le> n" and "heap_ok h"
    and "\<forall>q \<in> set ps. \<forall>d. cells h q = Some d \<longrightarrow> quiet allow d"
  shows "stable_read n mx allow t p h = Inr (read_result mx (version_at h t ps))"
proof -
  obtain d ps' where d: "ps = p # ps'" "cells h p = Some d" "chain h (tnext d) ps'"
    using assms(1) by (cases ps) (auto split: option.splits)
  have "stable_read n mx allow t p h = record_at_chain (Suc n) mx allow t p h"
    using d assms(4) by (auto simp: stable_read_def record_at_def quiet_def)
  also have "\<dots> = Inr (read_result mx (version_at h t ps))"
    by (rule record_at_chain_correct) (use assms in auto)
  finally show ?thesis .
qed

theorem stable_read_correct_witness:
  "let d1 = \<lparr>hdr = HDR_LATEST_MASK, tver = 7, tsize = 1, talloc = 1, tnext = Some 0, tval = [5]\<rparr>;
       d0 = \<lparr>hdr = 0, tver = 3, tsize = 1, talloc = 1, tnext = None, tval = [4]\<rparr>;
       h = \<lparr>cells = [0 \<mapsto> d0, 1 \<mapsto> d1], brk = 2, rcu_freed = []\<rparr>
   in stable_read 2 10 False 6 1 h = Inr (READ_RECORD, 3, [4]) \<and> stable_read 2 10 False 7 1 h = Inr (READ_RECORD, 7, [5])"
proof -
  let ?d1 = "\<lparr>hdr = HDR_LATEST_MASK, tver = 7, tsize = 1, talloc = 1, tnext = Some 0, tval = [5]\<rparr>"
  let ?d0 = "\<lparr>hdr = 0, tver = 3, tsize = 1, talloc = 1, tnext = None, tval = [4]\<rparr>"
  let ?h = "\<lparr>cells = [0 \<mapsto> ?d0, 1 \<mapsto> ?d1], brk = 2, rcu_freed = []\<rparr>"
  have h: "heap_ok ?h" by (simp add: heap_ok_def tuple_ok_def max_node_size_def)
  have c: "chain ?h (Some 1) [1, 0]" by simp
  have q: "\<forall>q \<in> set [1, 0]. \<forall>d. cells ?h q = Some d \<longrightarrow> quiet False d"
    by (simp add: quiet_def hdr_bits MAX_TID_def)
  show ?thesis unfolding Let_def
    using stable_read_correct [OF c _ h q, of 2 10 6] stable_read_correct [OF c _ h q, of 2 10 7]
    by (simp add: read_result_def tuple_bytes_def hdr_bits)
qed

section \<open>Writes keep the history\<close>

definition val_bytes :: "bytes option \<Rightarrow> bytes" where
  "val_bytes v = (case v of None \<Rightarrow> [] | Some x \<Rightarrow> x)"

definition val_ok :: "bytes option \<Rightarrow> bool" where
  "val_ok v \<longleftrightarrow> (case v of None \<Rightarrow> True | Some x \<Rightarrow> x \<noteq> [] \<and> length x \<le> max_node_size)"

lemma alloc_room_bounds:
  assumes "sz \<le> max_node_size"
  shows "sz \<le> alloc_room sz" "alloc_room sz \<le> max_node_size"
proof -
  have "x \<le> (x + 15) div 16 * 16" for x :: nat
    using div_mult_mod_eq [of "x + 15" 16] mod_less_divisor [of 16 "x + 15"] by linarith
  then have "40 + sz \<le> round_up 4 (40 + sz)" by (simp add: round_up_def)
  with assms show "sz \<le> alloc_room sz" "alloc_room sz \<le> max_node_size"
    by (simp_all add: alloc_room_def LgAllocAlignment_def sizeof_dbtuple_def)
qed

lemma write_val_spec:
  assumes "length (val_bytes v) \<le> length buf"
  shows "\<exists>buf'. write_val v buf = Inr buf' \<and> length buf' = length buf \<and> take (length (val_bytes v)) buf' = val_bytes v"
  using assms by (cases v) (simp_all add: write_val_def val_bytes_def writer_do_write_def mem_write_def)

lemma modify_tuple_spec:
  assumes "IsLocked (hdr d)" "\<not> IsDeleting (hdr d)" "tuple_ok d" "val_ok v" "length (val_bytes v) \<le> talloc d"
  shows "\<exists>d'. modify_tuple t v (length (val_bytes v)) nx d = Inr d' \<and> tver d' = t \<and> tnext d' = nx \<and>
    tuple_ok d' \<and> tuple_bytes d' = val_bytes v"
proof -
  from assms(3,5) obtain buf where buf: "write_val v (tval d) = Inr buf" "length buf = talloc d"
    "take (length (val_bytes v)) buf = val_bytes v"
    using write_val_spec [of v "tval d"] by (auto simp: tuple_ok_def)
  let ?w = "hdr d OR HDR_MODIFYING_MASK"
  have w: "hdr_mark_modifying (hdr d) = Inr ?w" "\<not> IsDeleting ?w" "IsLocked ?w"
    using assms(1,2) by (simp_all add: hdr_mark_modifying_def hdr_bits bit_or_iff)
  show ?thesis
  proof (cases "val_bytes v")
    case Nil
    with w buf assms(3) show ?thesis
      by (simp add: modify_tuple_def hdr_mark_deleting_def tuple_ok_def tuple_bytes_def hdr_bits bit_or_iff)
  next
    case Cons
    then have "val_bytes v \<noteq> []" by simp
    with w buf assms(3,5) show ?thesis by (simp add: modify_tuple_def tuple_ok_def tuple_bytes_def)
  qed
qed

text \<open>Losing the \<^verbatim>\<open>latest\<close> mark changes nothing that a version consists of.\<close>

lemma clear_latest_same:
  assumes "IsLocked (hdr d)" "IsLatest (hdr d)"
  shows "\<exists>w. hdr_clear_latest (hdr d) = Inr w \<and> tuple_bytes (d\<lparr>hdr := w\<rparr>) = tuple_bytes d \<and>
    (tuple_ok (d\<lparr>hdr := w\<rparr>) \<longleftrightarrow> tuple_ok d)"
proof -
  let ?w = "hdr d AND NOT HDR_LATEST_MASK"
  have "IsDeleting ?w = IsDeleting (hdr d)" by (simp add: hdr_bits bit_and_iff bit_not_iff)
  moreover have "hdr_clear_latest (hdr d) = Inr ?w" using assms by (simp add: hdr_clear_latest_def)
  ultimately show ?thesis by (simp add: tuple_bytes_def tuple_ok_def)
qed

lemma dbtuple_spill_spec:
  assumes "n \<le> max_node_size"
  shows "\<exists>r. dbtuple_spill t val old n (alloc_room n) nx True False = Inr r \<and> tver r = t \<and> tnext r = nx \<and>
    tsize r = n \<and> IsLatest (hdr r) \<and> (IsDeleting (hdr r) \<longleftrightarrow> n = 0) \<and> tval r = replicate (alloc_room n) 0 \<and> talloc r = alloc_room n"
  using alloc_room_bounds [OF assms] assms
  by (simp add: dbtuple_spill_def CheckBounds_def Let_def hdr_bits bit_or_iff)

lemma replace_tuple_spec:
  assumes "cells h p = Some d" "heap_ok h" "val_ok v" "IsLocked (hdr d)" "IsLatest (hdr d)" "old \<le> max_node_size"
  shows "\<exists>r w h'. replace_tuple t v old (length (val_bytes v)) forced p d h = Inr ((brk h, Some p, forced), h') \<and>
    cells h' = (cells h)(brk h \<mapsto> r, p \<mapsto> d\<lparr>hdr := w\<rparr>) \<and> brk h' = brk h + 1 \<and>
    tver r = t \<and> tnext r = Some p \<and> tuple_ok r \<and> tuple_bytes r = val_bytes v \<and>
    tuple_bytes (d\<lparr>hdr := w\<rparr>) = tuple_bytes d \<and> tuple_ok (d\<lparr>hdr := w\<rparr>)"
proof -
  let ?n = "length (val_bytes v)"
  have n: "?n \<le> max_node_size" using assms(3) by (cases v) (auto simp: val_ok_def val_bytes_def)
  obtain r where r: "dbtuple_spill t (tval d) old ?n (alloc_room ?n) (Some p) True False = Inr r" "tver r = t"
    "tnext r = Some p" "tsize r = ?n" "IsLatest (hdr r)" "IsDeleting (hdr r) \<longleftrightarrow> ?n = 0"
    "length (tval r) = alloc_room ?n" "talloc r = alloc_room ?n"
    using dbtuple_spill_spec [OF n, of t "tval d" old "Some p"] by auto
  obtain buf where buf: "write_val v (tval r) = Inr buf" "length buf = alloc_room ?n" "take ?n buf = val_bytes v"
    using write_val_spec [of v "tval r"] alloc_room_bounds [OF n] r(7) by auto
  obtain w where w: "hdr_clear_latest (hdr d) = Inr w" "tuple_bytes (d\<lparr>hdr := w\<rparr>) = tuple_bytes d"
    "tuple_ok (d\<lparr>hdr := w\<rparr>) \<longleftrightarrow> tuple_ok d" using clear_latest_same [OF assms(4,5)] by auto
  have ok: "p < brk h" "tuple_ok d" using assms(1,2) by (auto simp: heap_ok_def)
  let ?r = "r\<lparr>tval := buf\<rparr>"
  have "tuple_ok ?r" using r buf(2) alloc_room_bounds [OF n] by (auto simp: tuple_ok_def)
  moreover have "tuple_bytes ?r = val_bytes v" using r buf(3) by (auto simp: tuple_bytes_def)
  moreover let ?h = "tput p (d\<lparr>hdr := w\<rparr>) (tput (brk h) ?r (snd (new_cell r h)))"
  have "replace_tuple t v old ?n forced p d h = Inr ((brk h, Some p, forced), ?h)"
    using r buf w n ok assms(1,6)
    by (simp add: replace_tuple_def alloc_spill_def writer_needs_old_value_def new_cell_def on_hdr_def)
  ultimately show ?thesis using r(2,3) w(2,3) ok(2)
    by (intro exI [of _ ?r] exI [of _ w] exI [of _ ?h]) (simp add: new_cell_def)
qed

lemma alloc_copy_spec:
  assumes "cells h p = Some d" "heap_ok h" "\<not> IsDeleting (hdr d)"
  shows "\<exists>s. alloc_copy (tver d) p False h = Inr (brk h, h\<lparr>cells := (cells h)(brk h \<mapsto> s), brk := brk h + 1\<rparr>) \<and>
    tver s = tver d \<and> tnext s = tnext d \<and> tuple_ok s \<and> tuple_bytes s = tuple_bytes d"
proof -
  have ok: "tuple_ok d" using assms(1,2) by (auto simp: heap_ok_def)
  then have "tsize d \<le> max_node_size" by (simp add: tuple_ok_def)
  note room = alloc_room_bounds [OF this]
  let ?s = "\<lparr>hdr = 0, tver = tver d, tsize = tsize d, talloc = alloc_room (tsize d), tnext = tnext d,
      tval = take (tsize d) (tval d) @ replicate (alloc_room (tsize d) - tsize d) 0\<rparr>"
  have "dbtuple_copy (tver d) d (alloc_room (tsize d)) False = Inr ?s"
    using assms(3) room by (simp add: dbtuple_copy_def CheckBounds_def flag_bits)
  then have "alloc_copy (tver d) p False h = Inr (brk h, h\<lparr>cells := (cells h)(brk h \<mapsto> ?s), brk := brk h + 1\<rparr>)"
    using assms(1) by (simp add: alloc_copy_def new_cell_def)
  moreover have "tuple_ok ?s" using ok assms(3) room by (simp add: tuple_ok_def)
  moreover have "tuple_bytes ?s = tuple_bytes d" using ok assms(3) by (simp add: tuple_bytes_def tuple_ok_def flag_bits)
  ultimately show ?thesis by (intro exI [of _ ?s]) simp
qed

text \<open>
  The three ways a version is added: in place, with a new head, and in place with the old version
  copied behind the head.
\<close>

lemma history_in_place:
  assumes "chain h (Some p) (p # ps)" "cells h p = Some d" "cells h' = (cells h)(p \<mapsto> d')"
    "tver d' = t" "tnext d' = tnext d"
  shows "chain h' (Some p) (p # ps)" "t \<le> t' \<Longrightarrow> version_at h' t' (p # ps) = (t, tuple_bytes d')"
    "t' < t \<Longrightarrow> t' < tver d \<Longrightarrow> version_at h' t' (p # ps) = version_at h t' (p # ps)"
proof -
  have f: "\<And>q. q \<in> set ps \<Longrightarrow> cells h' q = cells h q" using assms(1,3) by auto
  then show "chain h' (Some p) (p # ps)" using assms chain_frame [of h "tnext d" ps h'] by simp
  show "t \<le> t' \<Longrightarrow> version_at h' t' (p # ps) = (t, tuple_bytes d')" using assms by simp
  show "t' < t \<Longrightarrow> t' < tver d \<Longrightarrow> version_at h' t' (p # ps) = version_at h t' (p # ps)"
    using assms version_at_frame [OF f, of ps t'] by (simp add: not_le [symmetric])
qed

lemma history_new_head:
  assumes "chain h (Some p) (p # ps)" "heap_ok h" "cells h p = Some d"
    "cells h' = (cells h)(brk h \<mapsto> r, p \<mapsto> d')" "tver r = t" "tnext r = Some p"
    "tver d' = tver d" "tnext d' = tnext d" "tuple_bytes d' = tuple_bytes d"
  shows "chain h' (Some (brk h)) (brk h # p # ps)" "t \<le> t' \<Longrightarrow> version_at h' t' (brk h # p # ps) = (t, tuple_bytes r)"
    "t' < t \<Longrightarrow> version_at h' t' (brk h # p # ps) = version_at h t' (p # ps)"
proof -
  have fresh: "brk h \<notin> set (p # ps)" using chain_below_brk [OF assms(2,1)] by auto
  then have f: "\<And>q. q \<in> set ps \<Longrightarrow> cells h' q = cells h q" using assms(1,4) by auto
  show "chain h' (Some (brk h)) (brk h # p # ps)" using assms fresh chain_frame [OF _ f, of "tnext d"] by auto
  show "t \<le> t' \<Longrightarrow> version_at h' t' (brk h # p # ps) = (t, tuple_bytes r)" using assms fresh by simp
  show "t' < t \<Longrightarrow> version_at h' t' (brk h # p # ps) = version_at h t' (p # ps)"
    using assms fresh version_at_frame [OF f, of ps t'] by (simp add: not_le [symmetric])
qed

lemma history_spilled:
  assumes "chain h (Some p) (p # ps)" "heap_ok h" "cells h p = Some d"
    "cells h' = (cells h)(brk h \<mapsto> s, p \<mapsto> d')" "tver d' = t" "tnext d' = Some (brk h)"
    "tver s = tver d" "tnext s = tnext d" "tuple_bytes s = tuple_bytes d"
  shows "chain h' (Some p) (p # brk h # ps)" "t \<le> t' \<Longrightarrow> version_at h' t' (p # brk h # ps) = (t, tuple_bytes d')"
    "t' < t \<Longrightarrow> version_at h' t' (p # brk h # ps) = version_at h t' (p # ps)"
proof -
  have fresh: "brk h \<notin> set (p # ps)" using chain_below_brk [OF assms(2,1)] by auto
  then have f: "\<And>q. q \<in> set ps \<Longrightarrow> cells h' q = cells h q" using assms(1,4) by auto
  show "chain h' (Some p) (p # brk h # ps)" using assms fresh chain_frame [OF _ f, of "tnext d"] by auto
  show "t \<le> t' \<Longrightarrow> version_at h' t' (p # brk h # ps) = (t, tuple_bytes d')" using assms by simp
  show "t' < t \<Longrightarrow> version_at h' t' (p # brk h # ps) = version_at h t' (p # ps)"
    using assms fresh version_at_frame [OF f, of ps t'] by (simp add: not_le [symmetric])
qed

definition written :: "tuple_heap \<Rightarrow> addr list \<Rightarrow> dbtuple \<Rightarrow> u64 \<Rightarrow> bytes option \<Rightarrow> write_record_ret \<Rightarrow> tuple_heap \<Rightarrow> addr list \<Rightarrow> bool" where
  "written h ps d t v ret h' qs \<longleftrightarrow> (case ret of (head, rest, forced) \<Rightarrow>
     chain h' (Some head) qs \<and> heap_ok h' \<and>
     (\<forall>t'. t \<le> t' \<longrightarrow> version_at h' t' qs = (t, val_bytes v)) \<and>
     (\<forall>t'. t' < t \<and> (rest \<noteq> None \<or> t' < tver d) \<longrightarrow> version_at h' t' qs = version_at h t' ps) \<and>
     (rest = None \<longrightarrow> can_overwrite_record_tid (tver d) t = Inr True))"

lemma write_record_at_written:
  assumes c: "chain h (Some p) (p # ps)" and h: "heap_ok h" and d: "cells h p = Some d"
    and l: "IsLocked (hdr d)" "IsLatest (hdr d)" "IsWriteIntent (hdr d)" and t: "tver d \<le> t" and v: "val_ok v"
  shows "\<exists>ret h' qs. write_record_at t v p h = Inr (ret, h') \<and> written h (p # ps) d t v ret h' qs"
proof -
  let ?n = "length (val_bytes v)" and ?old = "if IsDeleting (hdr d) then 0 else tsize d"
  have ok: "tuple_ok d" "p < brk h" using h d by (auto simp: heap_ok_def)
  have n: "(case v of None \<Rightarrow> 0 | Some x \<Rightarrow> writer_compute_needed x) = ?n"
    by (simp add: val_bytes_def writer_compute_needed_def split: option.splits)
  have pre: "v = None \<or> ?n \<noteq> 0" "IsDeleting (hdr d) \<or> tsize d \<noteq> 0"
    using v ok by (auto simp: val_ok_def val_bytes_def tuple_ok_def split: option.splits)
  obtain can where can: "can_overwrite_record_tid (tver d) t = Inr can" using t by (simp add: can_overwrite_record_tid_def)
  have w: "write_record_at t v p h =
    (if can \<and> ?old \<noteq> 0 then
       if ?n \<le> talloc d then rbind (modify_tuple t v ?n (tnext d) d) (\<lambda>d. Inr ((p, None, False), tput p d h))
       else replace_tuple t v ?old ?n False p d h
     else if ?n \<le> talloc d \<and> ?old \<noteq> 0 then
       rbind (alloc_copy (tver d) p False h) (\<lambda>(spill, h).
       rbind (modify_tuple t v ?n (Some spill) d) (\<lambda>d. Inr ((p, Some spill, True), tput p d h)))
     else replace_tuple t v ?old ?n True p d h)"
    using l pre d can by (cases v) (simp_all add: write_record_at_def n [simplified] Let_def val_bytes_def writer_compute_needed_def)
  have put: "heap_ok (tput p d' h)" if "tuple_ok d'" for d' using h that ok by (auto simp: heap_ok_def)
  have repl: "\<exists>ret h' qs. replace_tuple t v ?old ?n forced p d h = Inr (ret, h') \<and> written h (p # ps) d t v ret h' qs" for forced
  proof -
    have "?old \<le> max_node_size" using ok(1) by (auto simp: tuple_ok_def)
    from replace_tuple_spec [OF d h v l(1,2) this, of t forced] obtain r x h' where
      r: "replace_tuple t v ?old ?n forced p d h = Inr ((brk h, Some p, forced), h')"
        "cells h' = (cells h)(brk h \<mapsto> r, p \<mapsto> d\<lparr>hdr := x\<rparr>)" "brk h' = brk h + 1" "tver r = t" "tnext r = Some p"
        "tuple_ok r" "tuple_bytes r = val_bytes v" "tuple_bytes (d\<lparr>hdr := x\<rparr>) = tuple_bytes d" "tuple_ok (d\<lparr>hdr := x\<rparr>)"
      by blast
    note hist = history_new_head [OF c h d r(2,4,5), simplified, OF r(8)]
    have "heap_ok h'" using h ok(2) r(2,3,6,9) by (auto simp: heap_ok_def less_Suc_eq)
    then have "written h (p # ps) d t v (brk h, Some p, forced) h' (brk h # p # ps)"
      using hist r(7) unfolding written_def by auto
    with r(1) show ?thesis by blast
  qed
  show ?thesis
  proof (cases "?old \<noteq> 0 \<and> ?n \<le> talloc d")
    case False
    then show ?thesis using repl [of False] repl [of True] unfolding w by (cases "can \<and> ?old \<noteq> 0") auto
  next
    case True
    then have del: "\<not> IsDeleting (hdr d)" by (auto split: if_splits)
    show ?thesis
    proof (cases can)
      case can': True
      obtain d' where d': "modify_tuple t v ?n (tnext d) d = Inr d'" "tver d' = t" "tnext d' = tnext d" "tuple_ok d'"
        "tuple_bytes d' = val_bytes v" using modify_tuple_spec [OF l(1) del ok(1) v] True by blast
      note hist = history_in_place [OF c d cells_tput d'(2,3)]
      have "written h (p # ps) d t v (p, None, False) (tput p d' h) (p # ps)"
        using hist put [OF d'(4)] d'(5) can can' unfolding written_def by auto
      with True can' d'(1) show ?thesis unfolding w by auto
    next
      case can': False
      obtain s where s: "alloc_copy (tver d) p False h = Inr (brk h, h\<lparr>cells := (cells h)(brk h \<mapsto> s), brk := brk h + 1\<rparr>)"
        "tver s = tver d" "tnext s = tnext d" "tuple_ok s" "tuple_bytes s = tuple_bytes d"
        using alloc_copy_spec [OF d h del] by blast
      obtain d' where d': "modify_tuple t v ?n (Some (brk h)) d = Inr d'" "tver d' = t" "tnext d' = Some (brk h)" "tuple_ok d'"
        "tuple_bytes d' = val_bytes v" using modify_tuple_spec [OF l(1) del ok(1) v] True by blast
      let ?h = "tput p d' (h\<lparr>cells := (cells h)(brk h \<mapsto> s), brk := brk h + 1\<rparr>)"
      have cs: "cells ?h = (cells h)(brk h \<mapsto> s, p \<mapsto> d')" by simp
      note hist = history_spilled [OF c h d cs d'(2,3) s(2,3,5)]
      have "heap_ok ?h" using h ok(2) s(4) d'(4) by (auto simp: heap_ok_def less_Suc_eq)
      then have "written h (p # ps) d t v (p, Some (brk h), True) ?h (p # brk h # ps)"
        using hist d'(5) unfolding written_def by auto
      with True can' d'(1) s(1) show ?thesis unfolding w by auto
    qed
  qed
qed

text \<open>
  C14.  Writing a record adds a version and keeps the others.  With the lock held, a write at \<open>t\<close> of a
  value (or of none: a deletion) never fails an assertion or leaves a buffer; a reader at \<open>t\<close> or later
  then finds the new value; and a reader before \<open>t\<close> finds what it found before, except between the
  old and the new identifier when the write went into the old version's place, which happens only
  where \<^verbatim>\<open>can_overwrite_record_tid\<close> allows it.
\<close>

theorem write_record_at_history:
  assumes "chain h (Some p) (p # ps)" and "heap_ok h" and "cells h p = Some d"
    and "IsLocked (hdr d)" and "IsLatest (hdr d)" and "IsWriteIntent (hdr d)" and "tver d \<le> t" and "val_ok v"
  shows "\<exists>head rest forced h' qs. write_record_at t v p h = Inr ((head, rest, forced), h') \<and>
    chain h' (Some head) qs \<and> heap_ok h' \<and>
    (\<forall>t'. t \<le> t' \<longrightarrow> version_at h' t' qs = (t, val_bytes v)) \<and>
    (\<forall>t'. t' < t \<and> (rest \<noteq> None \<or> t' < tver d) \<longrightarrow> version_at h' t' qs = version_at h t' (p # ps)) \<and>
    (rest = None \<longrightarrow> can_overwrite_record_tid (tver d) t = Inr True)"
  using write_record_at_written [OF assms] unfolding written_def by fastforce

text \<open>A locked tuple with the value \<open>[4]\<close> of identifier 3, for the witnesses.\<close>

definition example_tuple :: dbtuple where
  "example_tuple = \<lparr>hdr = HDR_LATEST_MASK OR (HDR_LOCKED_MASK OR HDR_WRITE_INTENT_MASK), tver = 3, tsize = 1, talloc = 1,
     tnext = None, tval = [4]\<rparr>"

definition example_heap :: tuple_heap where
  "example_heap = \<lparr>cells = [0 \<mapsto> example_tuple], brk = 1, rcu_freed = []\<rparr>"

lemma example_facts:
  "chain example_heap (Some 0) [0]" "heap_ok example_heap" "cells example_heap 0 = Some example_tuple"
  "IsLocked (hdr example_tuple)" "IsLatest (hdr example_tuple)" "IsWriteIntent (hdr example_tuple)"
  "tver example_tuple = 3" "\<not> IsDeleting (hdr example_tuple)"
  by (simp_all add: example_heap_def example_tuple_def heap_ok_def tuple_ok_def max_node_size_def hdr_bits bit_or_iff)

theorem write_record_at_history_witness:
  "\<exists>head rest forced h' qs. write_record_at 9 (Some [5, 6]) 0 example_heap = Inr ((head, rest, forced), h') \<and>
     chain h' (Some head) qs \<and> version_at h' 9 qs = (9, [5, 6])"
proof -
  have "tver example_tuple \<le> 9" "val_ok (Some [5, 6])"
    by (simp_all add: example_facts(7) val_ok_def max_node_size_def)
  from write_record_at_history [OF example_facts(1-6) this] show ?thesis unfolding val_bytes_def by fastforce
qed

text \<open>Two identifiers of one read-only epoch lie on the same side of every snapshot.\<close>

lemma overwrite_same_side:
  assumes "can_overwrite_record_tid prev cur = Inr True" and "prev \<noteq> 0" and "g < 2 ^ 31"
  shows "prev \<le> ComputeReadOnlyTid g \<longleftrightarrow> cur \<le> ComputeReadOnlyTid g"
proof -
  have t: "prev \<le> cur" "to_read_only_tick (EpochId prev) = to_read_only_tick (EpochId cur)"
    using assms(1,2) by (simp_all add: can_overwrite_record_tid_def rbind_eq_Inr_iff)
  show ?thesis
  proof (cases "to_read_only_tick g = 0")
    case True
    then have "ComputeReadOnlyTid g = 0"
      by (simp add: ComputeReadOnlyTid_def to_read_only_tick_def MakeTid_def)
    moreover have "cur \<noteq> 0" using t(1) assms(2) by (auto simp: word_le_nat_alt word_unat_eq_iff)
    ultimately show ?thesis using assms(2) by simp
  next
    case False
    from ComputeReadOnlyTid_le_iff [OF assms(3) this] t(2) show ?thesis by simp
  qed
qed

text \<open>
  C15.  Writers do not disturb snapshots.  A read-only transaction reads at the identifier that
  \<^verbatim>\<open>ComputeReadOnlyTid\<close> gives for a tick.  Whichever way a later write at \<open>t\<close> is carried out, in place or
  not, what this transaction reads of the record stays the same.
\<close>

theorem snapshot_reads_survive_writes:
  assumes "chain h (Some p) (p # ps)" and "heap_ok h" and "cells h p = Some d"
    and "IsLocked (hdr d)" and "IsLatest (hdr d)" and "IsWriteIntent (hdr d)" and "tver d \<le> t" and "val_ok v"
    and "tver d \<noteq> MIN_TID" and "g < 2 ^ 31" and "ComputeReadOnlyTid g < t"
  shows "\<exists>head rest forced h' qs. write_record_at t v p h = Inr ((head, rest, forced), h') \<and>
    chain h' (Some head) qs \<and> version_at h' (ComputeReadOnlyTid g) qs = version_at h (ComputeReadOnlyTid g) (p # ps)"
proof -
  obtain head rest forced h' qs where w: "write_record_at t v p h = Inr ((head, rest, forced), h')"
    "written h (p # ps) d t v (head, rest, forced) h' qs"
    using write_record_at_written [OF assms(1-8)] by auto
  have "rest \<noteq> None \<or> ComputeReadOnlyTid g < tver d"
  proof (cases rest)
    case None
    with w(2) have "can_overwrite_record_tid (tver d) t = Inr True" by (simp add: written_def)
    from overwrite_same_side [OF this _ assms(10)] assms(9,11) have "\<not> tver d \<le> ComputeReadOnlyTid g"
      by (simp add: MIN_TID_def not_le)
    then show ?thesis by (simp add: not_le)
  qed simp
  with w assms(11) show ?thesis unfolding written_def by fastforce
qed

theorem snapshot_reads_survive_writes_witness:
  "\<exists>head rest forced h' qs. write_record_at (MakeTid 1 1 10) None 0 example_heap = Inr ((head, rest, forced), h') \<and>
     chain h' (Some head) qs \<and> version_at h' (ComputeReadOnlyTid 10) qs = (3, [4])"
proof -
  have s: "ComputeReadOnlyTid 10 = MakeTid CoreMask (drop_bit NumIdShift NumIdMask) 9"
    by (simp add: ComputeReadOnlyTid_def ReadOnlyEpochMultiplier_def)
  have "EpochId (MakeTid 1 1 10) = 10" by (rule MakeTid_fields) simp_all
  with last_tid_of_epoch [of 9 "MakeTid 1 1 10"] have lt: "ComputeReadOnlyTid 10 < MakeTid 1 1 10"
    unfolding s by (simp add: not_le [symmetric])
  have e3: "EpochId 3 = 0" by (simp add: EpochId_drop_bit)
  with last_tid_of_epoch [of 9 3] have le: "3 \<le> ComputeReadOnlyTid 10" unfolding s by simp
  with lt have "tver example_tuple \<le> MakeTid 1 1 10" by (simp add: example_facts(7))
  from snapshot_reads_survive_writes [OF example_facts(1-6) this, of None 10] lt le show ?thesis
    by (simp add: example_facts(3,7,8) val_ok_def MIN_TID_def tuple_bytes_def) (simp add: example_tuple_def)
qed

end
