(* ===== verification/Silo_Txn.thy ===== *)
theory Silo_Txn
  imports Silo_Tuple "HOL-Library.Product_Lexorder"
begin

text \<open>
  Transactions of Silo: \<^verbatim>\<open>transaction_base\<close> and \<^verbatim>\<open>transaction\<close> (\<^verbatim>\<open>txn.h\<close>, \<^verbatim>\<open>txn_impl.h\<close>), the commit identifiers
  and the garbage-collection hooks of \<^verbatim>\<open>transaction_proto2\<close> (\<^verbatim>\<open>txn_proto2_impl.h\<close>), and the tree operations that
  fill the sets of a transaction (\<^verbatim>\<open>base_txn_btree.h\<close>).

  The shared state is the record \<open>silo\<close>: the heap of tuples, the indexes, the ticker and the queues.  An
  index is a map from keys to tuple addresses; \<open>leaf_of\<close> says which leaf a key belongs to, and
  \<open>node_ver\<close> is the version of a leaf, which every insertion of a key advances (the interface of
  \<^verbatim>\<open>masstree_btree.h\<close>).  The traits are the default ones (\<^verbatim>\<open>read_own_writes\<close>), values are the strings of
  \<^verbatim>\<open>txn_btree_\<close>, and the log is off (\<^verbatim>\<open>g_persist\<close> is false), so \<^verbatim>\<open>on_tid_finish\<close> does nothing.  The operations run to
  their end with the state of the other threads fixed; where they would wait for another thread they
  stop with \<open>Spins\<close>.
\<close>

section \<open>Data\<close>

datatype silo_txn_state = TXN_EMBRYO | TXN_ACTIVE | TXN_COMMITED | TXN_ABRT

datatype abort_reason =
    ABORT_REASON_NONE | ABORT_REASON_USER | ABORT_REASON_UNSTABLE_READ | ABORT_REASON_FUTURE_TID_READ
  | ABORT_REASON_NODE_SCAN_WRITE_VERSION_CHANGED | ABORT_REASON_NODE_SCAN_READ_VERSION_CHANGED
  | ABORT_REASON_WRITE_NODE_INTERFERENCE | ABORT_REASON_INSERT_NODE_INTERFERENCE
  | ABORT_REASON_READ_NODE_INTEREFERENCE | ABORT_REASON_READ_ABSENCE_INTEREFERENCE

definition TXN_FLAG_READ_ONLY :: u64 where "TXN_FLAG_READ_ONLY = 2"

record read_record_t =
  r_tuple :: addr
  r_tid :: u64

text \<open>The two flags live in the low bits of the marked pointer \<^verbatim>\<open>btr\<close>.\<close>

record write_record_t =
  w_tuple :: addr
  w_key :: bytes
  w_val :: "bytes option"
  w_btr :: nat
  w_insert :: bool
  w_do_write :: bool

text \<open>\<open>wi_pos\<close> is both the position and, as an index into the write set, the pointer \<^verbatim>\<open>entry\<close>.\<close>

record dbtuple_write_info =
  wi_tuple :: addr
  wi_pos :: nat
  wi_insert :: bool
  wi_locked :: bool

record transaction =
  t_state :: silo_txn_state
  t_reason :: abort_reason
  t_flags :: u64
  snapshot_tid :: u64
  read_set :: "read_record_t list"
  write_set :: "write_record_t list"
  absent_set :: "(nat \<times> u64) list"

record delete_entry =
  de_ahead :: "addr option"
  de_trigger :: u64
  de_tuple :: addr
  de_key :: "bytes option"
  de_tick :: u64

record silo =
  theap :: tuple_heap
  trees :: "nat \<Rightarrow> bytes \<rightharpoonup> addr"
  leaf_of :: "nat \<Rightarrow> bytes \<Rightarrow> nat"
  node_ver :: "nat \<Rightarrow> u64"
  cur_tick :: u64
  my_core :: u64
  last_commit_tid :: u64
  gc_queue :: "delete_entry list"

definition new_transaction :: "u64 \<Rightarrow> u64 \<Rightarrow> transaction" where
  "new_transaction flgs last_tick_ex = \<lparr>t_state = TXN_EMBRYO, t_reason = ABORT_REASON_NONE, t_flags = flgs,
     snapshot_tid = (if flgs AND TXN_FLAG_READ_ONLY \<noteq> 0 then ComputeReadOnlyTid last_tick_ex else 0),
     read_set = [], write_set = [], absent_set = []\<rparr>"

definition is_snapshot :: "transaction \<Rightarrow> bool" where
  "is_snapshot tx \<longleftrightarrow> t_flags tx AND TXN_FLAG_READ_ONLY \<noteq> 0"

definition ensure_active :: "transaction \<Rightarrow> transaction result" where
  "ensure_active tx =
     (let tx = (if t_state tx = TXN_EMBRYO then tx\<lparr>t_state := TXN_ACTIVE\<rparr> else tx)
      in rbind (rassert (t_state tx = TXN_ACTIVE)) (\<lambda>_. Inr tx))"

definition set_do_write :: "nat \<Rightarrow> write_record_t list \<Rightarrow> write_record_t list result" where
  "set_do_write pos ws = rbind (vec_at ws pos) (\<lambda>e. rbind (rassert (\<not> w_do_write e)) (\<lambda>_.
     Inr (ws[pos := e\<lparr>w_do_write := True\<rparr>])))"

definition mark_locked :: "dbtuple_write_info \<Rightarrow> dbtuple_write_info result" where
  "mark_locked wi = rbind (rassert (\<not> wi_locked wi)) (\<lambda>_. Inr (wi\<lparr>wi_locked := True\<rparr>))"

text \<open>The order of \<^verbatim>\<open>dbtuple_write_info\<close>: by tuple, inserts first, then by position.\<close>

definition wi_key :: "dbtuple_write_info \<Rightarrow> nat \<times> bool \<times> nat" where
  "wi_key wi = (wi_tuple wi, \<not> wi_insert wi, wi_pos wi)"

definition sorted_dbtuples_contains :: "dbtuple_write_info list \<Rightarrow> addr \<Rightarrow> bool" where
  "sorted_dbtuples_contains dbtuples p \<longleftrightarrow> (\<exists>wi \<in> set dbtuples. wi_tuple wi = p)"

primrec find_write_set :: "addr \<Rightarrow> write_record_t list \<Rightarrow> write_record_t option" where
  "find_write_set p [] = None"
| "find_write_set p (e # ws) = (if w_tuple e = p then Some e else find_write_set p ws)"

primrec find_read_set :: "addr \<Rightarrow> read_record_t list \<Rightarrow> read_record_t option" where
  "find_read_set p [] = None"
| "find_read_set p (r # rs) = (if r_tuple r = p then Some r else find_read_set p rs)"

definition on_heap :: "(tuple_heap \<Rightarrow> tuple_heap result) \<Rightarrow> silo \<Rightarrow> silo result" where
  "on_heap f s = rbind (f (theap s)) (\<lambda>h. Inr (s\<lparr>theap := h\<rparr>))"

section \<open>Aborts\<close>

definition cleanup_inserted_tuple_marker :: "addr \<Rightarrow> bytes \<Rightarrow> nat \<Rightarrow> silo \<Rightarrow> silo result" where
  "cleanup_inserted_tuple_marker marker key btr s = rbind (tget marker (theap s)) (\<lambda>d.
     rbind (rassert (tver d = MAX_TID)) (\<lambda>_. rbind (rassert (IsLocked (hdr d))) (\<lambda>_.
     case trees s btr key of None \<Rightarrow> Inl Assert_Fail
     | Some removed \<Rightarrow>
         let s = s\<lparr>trees := (trees s)(btr := (trees s btr)(key := None))\<rparr>
         in rbind (rassert (removed = marker)) (\<lambda>_. rbind (rassert (IsLatest (hdr d))) (\<lambda>_.
            rbind (on_heap (on_hdr hdr_clear_latest marker) s) (\<lambda>s. on_heap (release marker) s))))))"

definition abort_entry :: "write_record_t \<Rightarrow> silo \<Rightarrow> silo result" where
  "abort_entry e s =
     (if w_insert e then rbind (tget (w_tuple e) (theap s)) (\<lambda>d. rbind (rassert (IsLocked (hdr d))) (\<lambda>_.
        rbind (cleanup_inserted_tuple_marker (w_tuple e) (w_key e) (w_btr e) s) (\<lambda>s.
        on_heap (on_hdr hdr_unlock (w_tuple e)) s)))
      else Inr s)"

definition abort_impl :: "abort_reason \<Rightarrow> transaction \<Rightarrow> silo \<Rightarrow> (transaction \<times> silo) result" where
  "abort_impl r tx s = (case t_state tx of TXN_ABRT \<Rightarrow> Inr (tx, s)
     | TXN_COMMITED \<Rightarrow> Inl Txn_Unusable
     | _ \<Rightarrow> rbind (for_each abort_entry (write_set tx) s) (\<lambda>s.
         Inr (tx\<lparr>t_state := TXN_ABRT, t_reason := r\<rparr>, s)))"

section \<open>Commit identifiers\<close>

text \<open>
  The loop over the tuples to write: each is locked for writing and is the latest version; inserted
  ones do not count.
\<close>

definition tid_of_write :: "u64 \<Rightarrow> tuple_heap \<Rightarrow> dbtuple_write_info \<Rightarrow> u64 \<Rightarrow> u64 result" where
  "tid_of_write commit_epoch h wi ret = rbind (tget (wi_tuple wi) h) (\<lambda>d.
     rbind (rassert (IsLocked (hdr d) \<and> IsWriteIntent (hdr d) \<and> \<not> IsModifying (hdr d) \<and> IsLatest (hdr d))) (\<lambda>_.
     if wi_insert wi then Inr ret
     else let t = tver d
       in rbind (rassert (EpochId t \<le> commit_epoch \<or> t = MAX_TID)) (\<lambda>_.
          Inr (if t \<noteq> MAX_TID \<and> ret < t then t else ret))))"

definition tid_of_read :: "read_record_t \<Rightarrow> u64 \<Rightarrow> u64" where
  "tid_of_read r ret = (if ret < r_tid r then r_tid r else ret)"

definition gen_commit_tid :: "transaction \<Rightarrow> dbtuple_write_info list \<Rightarrow> silo \<Rightarrow> (u64 \<times> silo) result" where
  "gen_commit_tid tx write_tuples s = rbind (rassert (\<not> is_snapshot tx)) (\<lambda>_.
     let commit_epoch = cur_tick s; ret = last_commit_tid s
     in rbind (rassert (ret = MIN_TID \<or> CoreId ret = my_core s)) (\<lambda>_.
        let ret = (if commit_epoch \<noteq> EpochId ret then MakeTid 0 0 commit_epoch else ret);
            ret = fold tid_of_read (read_set tx) ret
        in rbind (for_each (tid_of_write commit_epoch (theap s)) write_tuples ret) (\<lambda>ret.
           rbind (rassert (EpochId ret = commit_epoch)) (\<lambda>_.
           let ret = MakeTid (my_core s) (NumId ret + 1) commit_epoch
           in Inr (ret, s\<lparr>last_commit_tid := ret\<rparr>)))))"

section \<open>Garbage collection\<close>

definition on_dbtuple_spill :: "u64 \<Rightarrow> addr \<Rightarrow> addr \<Rightarrow> silo \<Rightarrow> silo result" where
  "on_dbtuple_spill commit_epoch ahead p s = rbind (tget p (theap s)) (\<lambda>d. rbind (tget ahead (theap s)) (\<lambda>a.
     rbind (rassert (\<not> IsLatest (hdr d))) (\<lambda>_. rbind (rassert (tver d \<le> tver a)) (\<lambda>_.
     if IsDeleting (hdr d) then rbind (rassert (IsLocked (hdr d))) (\<lambda>_. Inr s)
     else let ro_tick = to_read_only_tick commit_epoch
       in rbind (rassert (to_read_only_tick (EpochId (tver d)) \<le> ro_tick)) (\<lambda>_.
          Inr (s\<lparr>gc_queue := gc_queue s @
            [\<lparr>de_ahead = Some ahead, de_trigger = tver a, de_tuple = p, de_key = None, de_tick = ro_tick\<rparr>]\<rparr>))))))"

text \<open>
  The key of a deleted record is kept for the collector: in the space of the value when it fits, in a
  string of its own otherwise.
\<close>

definition on_logical_delete :: "u64 \<Rightarrow> addr \<Rightarrow> bytes \<Rightarrow> silo \<Rightarrow> silo result" where
  "on_logical_delete commit_epoch p key s = rbind (tget p (theap s)) (\<lambda>d.
     rbind (rassert (IsLocked (hdr d) \<and> IsWriteIntent (hdr d) \<and> IsLatest (hdr d) \<and> IsDeleting (hdr d))) (\<lambda>_.
     rbind (rassert (tsize d = 0)) (\<lambda>_.
     let entry = (\<lambda>k. \<lparr>de_ahead = None, de_trigger = tver d, de_tuple = p, de_key = k, de_tick = to_read_only_tick commit_epoch\<rparr>)
     in if length key \<le> talloc d then
          rbind (mem_write (tval d) 0 key) (\<lambda>buf.
          Inr (s\<lparr>theap := tput p (d\<lparr>tval := buf, tsize := length key\<rparr>) (theap s), gc_queue := gc_queue s @ [entry None]\<rparr>))
        else Inr (s\<lparr>gc_queue := gc_queue s @ [entry (Some key)]\<rparr>))))"

section \<open>Commit\<close>

datatype commit_outcome = Committed | Aborted | Throws abort_reason

type_synonym lock_state = "dbtuple_write_info list \<times> write_record_t list \<times> silo"

text \<open>\<open>False\<close> in the result tells the caller to abort.\<close>

definition handle_last_tuple_in_group :: "nat \<Rightarrow> bool \<Rightarrow> lock_state \<Rightarrow> (bool \<times> lock_state) result" where
  "handle_last_tuple_in_group i did_group_insert = (\<lambda>(wis, ws, s). rbind (vec_at wis i) (\<lambda>last.
     if did_group_insert then
       if \<not> wi_insert last then rbind (set_do_write (wi_pos last) ws) (\<lambda>ws. Inr (True, wis, ws, s))
       else Inr (True, wis, ws, s)
     else rbind (tget (wi_tuple last) (theap s)) (\<lambda>d.
       if tver d = MAX_TID then Inr (False, wis, ws, s)
       else rbind (hdr_lock True (hdr d)) (\<lambda>v.
         let s = s\<lparr>theap := tput (wi_tuple last) (d\<lparr>hdr := v\<rparr>) (theap s)\<rparr>
         in rbind (mark_locked last) (\<lambda>last.
            let wis = wis[i := last]
            in if \<not> IsLatest v \<or> \<not> can_read_tid (tver d) then Inr (False, wis, ws, s)
               else rbind (set_do_write (wi_pos last) ws) (\<lambda>ws. Inr (True, wis, ws, s)))))))"

text \<open>
  One round of the locking loop at position \<open>i\<close>; the first two components of the state are the flag
  of a pending abort and \<^verbatim>\<open>inserted_last_run\<close>.
\<close>

definition lock_round :: "nat \<Rightarrow> bool \<times> bool \<times> lock_state \<Rightarrow> (bool \<times> bool \<times> lock_state) result" where
  "lock_round i = (\<lambda>(stop, ilr, wis, ws, s).
     if stop then Inr (stop, ilr, wis, ws, s)
     else rbind (vec_at wis i) (\<lambda>it.
       rbind (if 0 < i \<and> wi_tuple (wis ! (i - 1)) \<noteq> wi_tuple it
              then rbind (handle_last_tuple_in_group (i - 1) ilr (wis, ws, s)) (\<lambda>(ok, st). Inr (ok, False, st))
              else Inr (True, ilr, wis, ws, s)) (\<lambda>(ok, ilr, wis, ws, s).
       if \<not> ok then Inr (True, ilr, wis, ws, s)
       else if wi_insert it then
         rbind (rassert (i = 0 \<or> wi_tuple (wis ! (i - 1)) \<noteq> wi_tuple it)) (\<lambda>_.
         rbind (rassert (wi_locked it)) (\<lambda>_. rbind (tget (wi_tuple it) (theap s)) (\<lambda>d.
         rbind (rassert (IsLocked (hdr d))) (\<lambda>_. rbind (set_do_write (wi_pos it) ws) (\<lambda>ws.
         Inr (False, True, wis, ws, s))))))
       else rbind (rassert (\<not> wi_locked it)) (\<lambda>_. Inr (False, ilr, wis, ws, s)))))"

definition lock_write_nodes :: "lock_state \<Rightarrow> (bool \<times> lock_state) result" where
  "lock_write_nodes = (\<lambda>(wis, ws, s).
     rbind (for_each lock_round [0..<length wis] (False, False, wis, ws, s)) (\<lambda>(stop, ilr, st).
     if stop then Inr (False, st)
     else if length wis = 0 then Inr (True, st)
     else handle_last_tuple_in_group (length wis - 1) ilr st))"

definition validate_read :: "dbtuple_write_info list \<Rightarrow> silo \<Rightarrow> read_record_t \<Rightarrow> bool \<Rightarrow> bool result" where
  "validate_read wis s r ok = (if \<not> ok then Inr False
     else rbind (tget (r_tuple r) (theap s)) (\<lambda>d.
       if sorted_dbtuples_contains wis (r_tuple r) then Inr (is_latest_version d (r_tid r))
       else stable_is_latest_version d (r_tid r)))"

definition validate_absent :: "silo \<Rightarrow> transaction \<Rightarrow> bool" where
  "validate_absent s tx \<longleftrightarrow> (\<forall>(n, v) \<in> set (absent_set tx). node_ver s n = v)"

definition write_entry :: "u64 \<Rightarrow> u64 \<Rightarrow> write_record_t \<Rightarrow> silo \<Rightarrow> silo result" where
  "write_entry commit_epoch tid e s =
     (if \<not> w_do_write e then Inr s
      else rbind (tget (w_tuple e) (theap s)) (\<lambda>d. rbind (rassert (IsLocked (hdr d))) (\<lambda>_.
        if w_insert e then rbind (rassert (tver d = MAX_TID)) (\<lambda>_.
          Inr (s\<lparr>theap := tput (w_tuple e) (d\<lparr>tver := tid\<rparr>) (theap s)\<rparr>))
        else rbind (write_record_at tid (w_val e) (w_tuple e) (theap s)) (\<lambda>((head, rest, forced), h).
          let s = s\<lparr>theap := h\<rparr>; unlock_head = (head \<noteq> w_tuple e)
          in rbind (if unlock_head then
               rbind (rassert (rest = Some (w_tuple e))) (\<lambda>_.
               rbind (on_heap (on_hdr (hdr_lock True) head) s) (\<lambda>s.
               rbind (rassert (trees s (w_btr e) (w_key e) = Some (w_tuple e))) (\<lambda>_.
               Inr (s\<lparr>trees := (trees s)(w_btr e := (trees s (w_btr e))(w_key e \<mapsto> head))\<rparr>))))
             else Inr s) (\<lambda>s.
             rbind (case rest of Some r \<Rightarrow> on_dbtuple_spill commit_epoch head r s | None \<Rightarrow> Inr s) (\<lambda>s.
             rbind (if w_val e = None then on_logical_delete commit_epoch head (w_key e) s else Inr s) (\<lambda>s.
             if unlock_head then on_heap (on_hdr hdr_unlock head) s else Inr s)))))))"

definition unlock_entry :: "dbtuple_write_info \<Rightarrow> silo \<Rightarrow> silo result" where
  "unlock_entry wi s = (if wi_locked wi then on_heap (on_hdr hdr_unlock (wi_tuple wi)) s
     else rbind (rassert (\<not> wi_insert wi)) (\<lambda>_. Inr s))"

definition abort_locked :: "write_record_t list \<Rightarrow> dbtuple_write_info \<Rightarrow> silo \<Rightarrow> silo result" where
  "abort_locked ws wi s =
     (if wi_locked wi then
        rbind (if wi_insert wi then rbind (vec_at ws (wi_pos wi)) (\<lambda>e.
                 cleanup_inserted_tuple_marker (wi_tuple wi) (w_key e) (w_btr e) s)
               else Inr s) (\<lambda>s. on_heap (on_hdr hdr_unlock (wi_tuple wi)) s)
      else rbind (rassert (\<not> wi_insert wi)) (\<lambda>_. Inr s))"

definition do_abort ::
  "bool \<Rightarrow> abort_reason \<Rightarrow> transaction \<Rightarrow> lock_state \<Rightarrow> (commit_outcome \<times> transaction \<times> silo) result" where
  "do_abort doThrow r tx = (\<lambda>(wis, ws, s). rbind (for_each (abort_locked ws) wis s) (\<lambda>s.
     Inr (if doThrow then Throws r else Aborted, tx\<lparr>t_state := TXN_ABRT, t_reason := r, write_set := ws\<rparr>, s)))"

definition copy_write_set :: "write_record_t list \<Rightarrow> silo \<Rightarrow> dbtuple_write_info list result" where
  "copy_write_set ws s = rbind (for_each (\<lambda>e _. rbind (tget (w_tuple e) (theap s)) (\<lambda>d.
       rassert (\<not> w_insert e \<or> IsLocked (hdr d)))) ws ()) (\<lambda>_.
     Inr (map (\<lambda>(e, pos). \<lparr>wi_tuple = w_tuple e, wi_pos = pos, wi_insert = w_insert e, wi_locked = w_insert e\<rparr>)
            (zip ws [0..<length ws])))"

definition commit_active :: "bool \<Rightarrow> transaction \<Rightarrow> silo \<Rightarrow> (commit_outcome \<times> transaction \<times> silo) result" where
  "commit_active doThrow tx s = rbind (copy_write_set (write_set tx) s) (\<lambda>wis.
     let wis = sort_key wi_key wis
     in rbind (lock_write_nodes (wis, write_set tx, s)) (\<lambda>(ok, wis, ws, s).
        if \<not> ok then do_abort doThrow ABORT_REASON_WRITE_NODE_INTERFERENCE tx (wis, ws, s)
        else rbind (if wis = [] then Inr (0, s) else gen_commit_tid tx wis s) (\<lambda>(tid, s).
          rbind (for_each (validate_read wis s) (read_set tx) True) (\<lambda>valid.
          if \<not> valid then do_abort doThrow ABORT_REASON_READ_NODE_INTEREFERENCE tx (wis, ws, s)
          else if \<not> validate_absent s tx
          then do_abort doThrow ABORT_REASON_NODE_SCAN_READ_VERSION_CHANGED tx (wis, ws, s)
          else rbind (for_each (write_entry (cur_tick s) tid) ws s) (\<lambda>s.
               rbind (for_each unlock_entry wis s) (\<lambda>s.
               Inr (Committed, tx\<lparr>t_state := TXN_COMMITED, write_set := ws\<rparr>, s)))))))"

definition silo_commit :: "bool \<Rightarrow> transaction \<Rightarrow> silo \<Rightarrow> (commit_outcome \<times> transaction \<times> silo) result" where
  "silo_commit doThrow tx s = (case t_state tx of TXN_COMMITED \<Rightarrow> Inr (Committed, tx, s)
     | TXN_ABRT \<Rightarrow> Inr (if doThrow then Throws (t_reason tx) else Aborted, tx, s)
     | _ \<Rightarrow>
       if is_snapshot tx then
         rbind (rassert (write_set tx = [] \<and> read_set tx = [] \<and> absent_set tx = [])) (\<lambda>_.
         Inr (Committed, tx\<lparr>t_state := TXN_COMMITED\<rparr>, s))
       else commit_active doThrow tx s)"

section \<open>Reads and writes of a transaction\<close>

definition insert_if_absent :: "nat \<Rightarrow> bytes \<Rightarrow> addr \<Rightarrow> silo \<Rightarrow> (nat \<times> u64 \<times> u64) option \<times> silo" where
  "insert_if_absent btr key p s = (case trees s btr key of Some _ \<Rightarrow> (None, s)
     | None \<Rightarrow> let n = leaf_of s btr key; v = node_ver s n
       in (Some (n, v, v + 1),
           s\<lparr>trees := (trees s)(btr := (trees s btr)(key \<mapsto> p)), node_ver := (node_ver s)(n := v + 1)\<rparr>))"

primrec bump_absent :: "nat \<Rightarrow> u64 \<Rightarrow> (nat \<times> u64) list \<Rightarrow> (nat \<times> u64) list" where
  "bump_absent n v [] = []"
| "bump_absent n v (x # xs) = (if fst x = n then (n, v) # xs else x # bump_absent n v xs)"

text \<open>The new tuple, if the key was free, and whether the transaction has to abort.\<close>

definition try_insert_new_tuple ::
  "nat \<Rightarrow> bytes \<Rightarrow> bytes option \<Rightarrow> transaction \<Rightarrow> silo \<Rightarrow> ((addr option \<times> bool) \<times> transaction \<times> silo) result" where
  "try_insert_new_tuple btr key v tx s =
     (let sz = (case v of None \<Rightarrow> 0 | Some x \<Rightarrow> writer_compute_needed x)
      in rbind (alloc_first sz True (theap s)) (\<lambda>(p, h).
         rbind (tget p h) (\<lambda>d. rbind (write_val v (tval d)) (\<lambda>buf.
         let h = tput p (d\<lparr>tval := buf\<rparr>) h; s = s\<lparr>theap := h\<rparr>
         in rbind (rassert (find_read_set p (read_set tx) = None)) (\<lambda>_.
            rbind (rassert (IsLatest (hdr d) \<and> tver d = MAX_TID \<and> IsLocked (hdr d) \<and> IsWriteIntent (hdr d))) (\<lambda>_.
            case insert_if_absent btr key p s of
              (None, s) \<Rightarrow>
                rbind (on_heap (on_hdr hdr_clear_latest p) s) (\<lambda>s.
                rbind (on_heap (on_hdr hdr_unlock p) s) (\<lambda>s.
                rbind (on_heap (release_no_rcu p) s) (\<lambda>s. Inr ((None, False), tx, s))))
            | (Some (n, old_version, new_version), s) \<Rightarrow>
                let tx = tx\<lparr>write_set := write_set tx @ [\<lparr>w_tuple = p, w_key = key, w_val = v, w_btr = btr,
                       w_insert = True, w_do_write = False\<rparr>]\<rparr>
                in case map_of (absent_set tx) n of
                     None \<Rightarrow> Inr ((Some p, False), tx, s)
                   | Some version \<Rightarrow>
                       if version \<noteq> old_version
                       then Inr ((Some p, True), tx\<lparr>t_reason := ABORT_REASON_WRITE_NODE_INTERFERENCE\<rparr>, s)
                       else Inr ((Some p, False), tx\<lparr>absent_set := bump_absent n new_version (absent_set tx)\<rparr>, s)))))))"

text \<open>The outcome of an operation that may abort the transaction and throw.\<close>

type_synonym 'a txn_result = "((abort_reason + 'a) \<times> transaction \<times> silo) result"

definition silo_throw_abort :: "abort_reason \<Rightarrow> transaction \<Rightarrow> silo \<Rightarrow> 'a txn_result" where
  "silo_throw_abort r tx s = rbind (abort_impl r tx s) (\<lambda>(tx, s). Inr (Inl r, tx, s))"

text \<open>\<open>n\<close> bounds the length of the chain of versions; \<open>mx\<close> is the reader's limit.\<close>

definition do_tuple_read :: "nat \<Rightarrow> nat \<Rightarrow> addr \<Rightarrow> transaction \<Rightarrow> silo \<Rightarrow> bytes option txn_result" where
  "do_tuple_read n mx p tx s =
     (let t = (if is_snapshot tx then snapshot_tid tx else MAX_TID)
      in case find_write_set p (write_set tx) of
           Some e \<Rightarrow> Inr (Inr (w_val e), tx, s)
         | None \<Rightarrow> rbind (stable_read n mx (is_snapshot tx) t p (theap s)) (\<lambda>(stat, start_t, bs).
             if stat = READ_FAILED then silo_throw_abort ABORT_REASON_UNSTABLE_READ tx s
             else if \<not> can_read_tid start_t then silo_throw_abort ABORT_REASON_FUTURE_TID_READ tx s
             else let tx = (if is_snapshot tx then tx
                            else tx\<lparr>read_set := read_set tx @ [\<lparr>r_tuple = p, r_tid = start_t\<rparr>]\<rparr>)
               in Inr (Inr (if stat = READ_EMPTY then None else Some bs), tx, s)))"

definition do_node_read :: "nat \<Rightarrow> u64 \<Rightarrow> transaction \<Rightarrow> silo \<Rightarrow> unit txn_result" where
  "do_node_read n v tx s =
     (if is_snapshot tx then Inr (Inr (), tx, s)
      else case map_of (absent_set tx) n of
        None \<Rightarrow> Inr (Inr (), tx\<lparr>absent_set := (n, v) # absent_set tx\<rparr>, s)
      | Some v' \<Rightarrow> if v' \<noteq> v then silo_throw_abort ABORT_REASON_NODE_SCAN_READ_VERSION_CHANGED tx s
                   else Inr (Inr (), tx, s))"

definition do_search :: "nat \<Rightarrow> nat \<Rightarrow> nat \<Rightarrow> bytes \<Rightarrow> transaction \<Rightarrow> silo \<Rightarrow> bytes option txn_result" where
  "do_search n mx btr key tx s = rbind (ensure_active tx) (\<lambda>tx.
     case trees s btr key of
       Some p \<Rightarrow> do_tuple_read n mx p tx s
     | None \<Rightarrow> let l = leaf_of s btr key in rbind (do_node_read l (node_ver s l) tx s) (\<lambda>(r, tx, s).
         Inr (case r of Inl e \<Rightarrow> Inl e | Inr _ \<Rightarrow> Inr None, tx, s)))"

text \<open>The \<^verbatim>\<open>retry\<close> loop of \<^verbatim>\<open>do_tree_put\<close>: two rounds are enough when no other thread removes the key.\<close>

fun put_rounds :: "nat \<Rightarrow> nat \<Rightarrow> bytes \<Rightarrow> bytes option \<Rightarrow> bool \<Rightarrow> transaction \<Rightarrow> silo \<Rightarrow> unit txn_result" where
  "put_rounds 0 btr key v expect_new tx s = Inl Spins"
| "put_rounds (Suc n) btr key v expect_new tx s =
     rbind (if expect_new then try_insert_new_tuple btr key v tx s else Inr ((None, False), tx, s)) (\<lambda>((px, conflict), tx, s).
     rbind (rassert (\<not> conflict \<or> px \<noteq> None)) (\<lambda>_.
     if conflict then silo_throw_abort ABORT_REASON_WRITE_NODE_INTERFERENCE tx s
     else case px of Some _ \<Rightarrow> Inr (Inr (), tx, s)
       | None \<Rightarrow> (case trees s btr key of
           None \<Rightarrow> put_rounds n btr key v True tx s
         | Some p \<Rightarrow> Inr (Inr (), tx\<lparr>write_set := write_set tx @ [\<lparr>w_tuple = p, w_key = key, w_val = v, w_btr = btr,
               w_insert = False, w_do_write = False\<rparr>]\<rparr>, s))))"

definition do_tree_put :: "nat \<Rightarrow> bytes \<Rightarrow> bytes option \<Rightarrow> bool \<Rightarrow> transaction \<Rightarrow> silo \<Rightarrow> unit txn_result" where
  "do_tree_put btr key v expect_new tx s = rbind (rassert (\<not> expect_new \<or> v \<noteq> None)) (\<lambda>_.
     rbind (ensure_active tx) (\<lambda>tx.
     if is_snapshot tx then silo_throw_abort ABORT_REASON_USER tx s
     else put_rounds 2 btr key v expect_new tx s))"

section \<open>Commit identifiers grow\<close>

lemma fold_tid_of_read:
  "ret \<le> fold tid_of_read rs ret \<and> (\<forall>r \<in> set rs. r_tid r \<le> fold tid_of_read rs ret)"
proof (induction rs arbitrary: ret)
  case (Cons r rs)
  have "ret \<le> tid_of_read r ret" "r_tid r \<le> tid_of_read r ret" by (auto simp: tid_of_read_def not_less)
  with Cons [of "tid_of_read r ret"] show ?case by (auto intro: order_trans)
qed simp

lemma tids_of_writes:
  assumes "for_each (tid_of_write e h) wis ret = Inr ret'"
  shows "ret \<le> ret' \<and> (\<forall>wi \<in> set wis. \<forall>d. \<not> wi_insert wi \<longrightarrow> cells h (wi_tuple wi) = Some d \<longrightarrow> tver d \<noteq> MAX_TID \<longrightarrow> tver d \<le> ret')"
  using assms
proof (induction wis arbitrary: ret)
  case (Cons wi wis)
  then obtain m where m: "tid_of_write e h wi ret = Inr m" "for_each (tid_of_write e h) wis m = Inr ret'"
    by (auto simp: rbind_eq_Inr_iff)
  from m(1) have "ret \<le> m" "\<forall>d. \<not> wi_insert wi \<longrightarrow> cells h (wi_tuple wi) = Some d \<longrightarrow> tver d \<noteq> MAX_TID \<longrightarrow> tver d \<le> m"
    by (auto simp: tid_of_write_def rbind_eq_Inr_iff Let_def not_less split: if_splits)
  with Cons.IH [OF m(2)] show ?case by (auto intro: order_trans)
qed simp

text \<open>What \<^verbatim>\<open>gen_commit_tid\<close> computes: the successor of a bound on all identifiers the transaction met.\<close>

lemma gen_commit_tid_bound:
  assumes "gen_commit_tid tx wis s = Inr (tid, s')"
  obtains m where "tid = MakeTid (my_core s) (NumId m + 1) (cur_tick s)" "EpochId m = cur_tick s"
    "s' = s\<lparr>last_commit_tid := tid\<rparr>" "EpochId (last_commit_tid s) = cur_tick s \<longrightarrow> last_commit_tid s \<le> m"
    "\<forall>r \<in> set (read_set tx). r_tid r \<le> m"
    "\<forall>wi \<in> set wis. \<forall>d. \<not> wi_insert wi \<longrightarrow> cells (theap s) (wi_tuple wi) = Some d \<longrightarrow> tver d \<noteq> MAX_TID \<longrightarrow> tver d \<le> m"
proof -
  define r0 where "r0 = (if cur_tick s \<noteq> EpochId (last_commit_tid s) then MakeTid 0 0 (cur_tick s) else last_commit_tid s)"
  define r1 where "r1 = fold tid_of_read (read_set tx) r0"
  from assms obtain m where m: "for_each (tid_of_write (cur_tick s) (theap s)) wis r1 = Inr m" "EpochId m = cur_tick s"
    "tid = MakeTid (my_core s) (NumId m + 1) (cur_tick s)" "s' = s\<lparr>last_commit_tid := tid\<rparr>"
    by (auto simp: gen_commit_tid_def rbind_eq_Inr_iff Let_def r1_def r0_def)
  note w = tids_of_writes [OF m(1)] and r = fold_tid_of_read [of r0 "read_set tx", folded r1_def]
  show thesis
  proof (rule that [OF m(3,2,4)])
    show "EpochId (last_commit_tid s) = cur_tick s \<longrightarrow> last_commit_tid s \<le> m"
      using w r by (auto simp: r0_def intro: order_trans)
    show "\<forall>r \<in> set (read_set tx). r_tid r \<le> m" using w r by (auto intro: order_trans)
  qed (use w in blast)
qed

lemma unat_NumId_Suc: "unat (NumId m + 1) = unat (NumId m) + 1"
proof -
  have "unat (NumId m) < 2 ^ 24" using field_bounds(2) [of m] by (simp add: word_less_nat_alt)
  then show ?thesis by (simp add: unat_word_ariths(1))
qed

lemma next_tid_greater:
  assumes "c < 2 ^ 9" "EpochId m < 2 ^ 31" "NumId m + 1 < 2 ^ 24"
  shows "m < MakeTid c (NumId m + 1) (EpochId m)"
proof -
  have "NumId m < NumId m + 1" by (simp only: word_less_nat_alt unat_NumId_Suc)
  with MakeTid_fields [OF assms(1,3,2)] show ?thesis by - (rule tid_lessI_num, simp_all)
qed

text \<open>The number has 24 bits; when it runs over, the identifier shows it by the number zero.\<close>

lemma number_overflow:
  assumes "c < 2 ^ 9" "e < 2 ^ 31" "\<not> NumId m + 1 < 2 ^ 24"
  shows "MakeTid c (NumId m + 1) e = MakeTid c 0 (e OR 1)"
proof -
  have "unat (NumId m) < 2 ^ 24" using field_bounds(2) [of m] by (simp add: word_less_nat_alt)
  moreover have "\<not> unat (NumId m) + 1 < 2 ^ 24" using assms(3) by (simp only: word_less_nat_alt unat_NumId_Suc) simp
  ultimately have "unat (NumId m + 1) = 2 ^ 24" by (simp only: unat_NumId_Suc)
  then have "NumId m + 1 = push_bit 24 1" by (simp add: word_unat_eq_iff)
  then have "push_bit 9 (NumId m + 1) = push_bit 33 (1 :: u64)" by (simp only: push_bit_push_bit) simp
  then show ?thesis unfolding MakeTid_def NumIdShift_def EpochShift_def CoreBits_def NBitsNumber_def
    by (simp only: push_bit_or) (simp add: or.assoc or.commute)
qed

lemma no_overflow:
  assumes "c < 2 ^ 9" "e < 2 ^ 31" "NumId (MakeTid c (NumId m + 1) e) \<noteq> 0"
  shows "NumId m + 1 < 2 ^ 24"
proof (rule ccontr)
  assume o: "\<not> NumId m + 1 < 2 ^ 24"
  have "e OR 1 < 2 ^ 31"
  proof -
    have "take_bit 31 e = e" using assms(2) by (simp add: take_bit_eq_mod mod_word_less)
    then have "take_bit 31 (e OR 1) = e OR 1" by (simp add: take_bit_or)
    then have "e OR 1 = (e OR 1) mod 2 ^ 31" by (simp only: take_bit_eq_mod)
    also have "\<dots> < 2 ^ 31" by (rule word_mod_less_divisor) simp
    finally show ?thesis .
  qed
  from MakeTid_fields(2) [OF assms(1) _ this, of 0] assms(3) number_overflow [OF assms(1,2) o] show False by simp
qed


text \<open>
  C8.  The identifier of a commit is larger than every identifier the transaction read, than those
  of the records it overwrites and than the last one given out on its core in the same or an earlier
  epoch; it carries the core and the epoch of the commit, and becomes the core's last identifier.
  The 24-bit number must not have run over, which shows as the number zero.
\<close>

theorem gen_commit_tid_grows:
  assumes "gen_commit_tid tx wis s = Inr (tid, s')" and "my_core s < 2 ^ 9" and "cur_tick s < 2 ^ 31"
    and "NumId tid \<noteq> 0"
  shows "(\<forall>r \<in> set (read_set tx). r_tid r < tid) \<and>
    (\<forall>wi \<in> set wis. \<forall>d. \<not> wi_insert wi \<longrightarrow> cells (theap s) (wi_tuple wi) = Some d \<longrightarrow> tver d \<noteq> MAX_TID \<longrightarrow> tver d < tid) \<and>
    (EpochId (last_commit_tid s) \<le> cur_tick s \<longrightarrow> last_commit_tid s < tid) \<and>
    CoreId tid = my_core s \<and> EpochId tid = cur_tick s \<and> last_commit_tid s' = tid"
proof -
  obtain m where m: "tid = MakeTid (my_core s) (NumId m + 1) (cur_tick s)" "EpochId m = cur_tick s"
    "s' = s\<lparr>last_commit_tid := tid\<rparr>" "EpochId (last_commit_tid s) = cur_tick s \<longrightarrow> last_commit_tid s \<le> m"
    "\<forall>r \<in> set (read_set tx). r_tid r \<le> m"
    "\<forall>wi \<in> set wis. \<forall>d. \<not> wi_insert wi \<longrightarrow> cells (theap s) (wi_tuple wi) = Some d \<longrightarrow> tver d \<noteq> MAX_TID \<longrightarrow> tver d \<le> m"
    by (rule gen_commit_tid_bound [OF assms(1)])
  have n: "NumId m + 1 < 2 ^ 24" using no_overflow [OF assms(2,3)] assms(4) m(1) by simp
  then have gt: "m < tid" using next_tid_greater [OF assms(2) _ n] assms(3) m(1,2) by simp
  note f = MakeTid_fields [OF assms(2) n assms(3), folded m(1)]
  have "last_commit_tid s < tid" if "EpochId (last_commit_tid s) \<le> cur_tick s"
  proof (cases "EpochId (last_commit_tid s) = cur_tick s")
    case True
    with m(4) gt show ?thesis by (auto intro: le_less_trans)
  next
    case False
    with that have "EpochId (last_commit_tid s) < EpochId tid" using f(3) by (simp add: less_le)
    then show ?thesis by (rule tid_lessI_epoch)
  qed
  with gt m(3,5,6) f show ?thesis by (auto intro: le_less_trans)
qed

text \<open>An empty database at tick 3, core 1, for the witnesses.\<close>

definition empty_silo :: "u64 \<Rightarrow> silo" where
  "empty_silo lt = \<lparr>theap = \<lparr>cells = Map.empty, brk = 0, rcu_freed = []\<rparr>, trees = (\<lambda>_. Map.empty), leaf_of = (\<lambda>_ _. 0),
     node_ver = (\<lambda>_. 0), cur_tick = 3, my_core = 1, last_commit_tid = lt, gc_queue = []\<rparr>"

theorem gen_commit_tid_grows_witness:
  "\<exists>s'. gen_commit_tid (new_transaction 0 0) [] (empty_silo (MakeTid 1 5 3)) = Inr (MakeTid 1 6 3, s') \<and>
     MakeTid 1 5 3 < MakeTid 1 6 3"
proof -
  have f: "CoreId (MakeTid 1 5 3) = 1" "NumId (MakeTid 1 5 3) = 5" "EpochId (MakeTid 1 5 3) = 3"
    "NumId (MakeTid 1 6 3) = 6" by (rule MakeTid_fields; simp)+
  have g: "gen_commit_tid (new_transaction 0 0) [] (empty_silo (MakeTid 1 5 3)) =
      Inr (MakeTid 1 6 3, (empty_silo (MakeTid 1 5 3))\<lparr>last_commit_tid := MakeTid 1 6 3\<rparr>)"
    by (simp add: gen_commit_tid_def new_transaction_def empty_silo_def is_snapshot_def f Let_def)
  from gen_commit_tid_grows [OF g] f g show ?thesis by (simp add: empty_silo_def)
qed

text \<open>
  The number is not checked.  After the last number of an epoch the carry falls into the
  epoch's lowest bit; in an odd epoch the next identifier of a core that meets no other one has the
  number zero again, and is smaller than the one before.
\<close>

theorem commit_tid_number_overflow:
  assumes "gen_commit_tid tx [] s = Inr (tid, s')" and "read_set tx = []" and "my_core s < 2 ^ 9"
    and "EpochId (last_commit_tid s) = cur_tick s" and "cur_tick s AND 1 = 1" and "NumId (last_commit_tid s) = 2 ^ 24 - 1"
  shows "tid = MakeTid (my_core s) 0 (cur_tick s) \<and> tid < last_commit_tid s"
proof -
  let ?l = "last_commit_tid s"
  have e: "cur_tick s < 2 ^ 31" using field_bounds(3) [of ?l] assms(4) by simp
  have tid: "tid = MakeTid (my_core s) (NumId ?l + 1) (cur_tick s)"
    using assms(1,2,4) by (auto simp: gen_commit_tid_def rbind_eq_Inr_iff Let_def)
  have o: "\<not> NumId ?l + 1 < 2 ^ 24" by (simp add: assms(6))
  have "cur_tick s OR 1 = cur_tick s"
    using assms(5) by (metis and.commute or.commute word_ao_absorbs(2))
  with number_overflow [OF assms(3) e o] tid have t: "tid = MakeTid (my_core s) 0 (cur_tick s)" by simp
  have n: "NumId tid < NumId ?l" using MakeTid_fields(2) [OF assms(3) _ e, of 0] t assms(6) by simp
  have "EpochId tid = EpochId ?l" using MakeTid_fields(3) [OF assms(3) _ e, of 0] t assms(4) by simp
  then have "tid < ?l" using n by (rule tid_lessI_num)
  with t show ?thesis by simp
qed

theorem commit_tid_number_overflow_witness:
  "\<exists>tid s'. gen_commit_tid (new_transaction 0 0) [] (empty_silo (MakeTid 1 (2 ^ 24 - 1) 3)) = Inr (tid, s') \<and>
     tid < MakeTid 1 (2 ^ 24 - 1) 3"
proof -
  let ?l = "MakeTid 1 (2 ^ 24 - 1) 3" and ?tx = "new_transaction 0 0"
  have f: "CoreId ?l = 1" "NumId ?l = 2 ^ 24 - 1" "EpochId ?l = 3" by (rule MakeTid_fields; simp)+
  obtain tid s' where g: "gen_commit_tid ?tx [] (empty_silo ?l) = Inr (tid, s')"
    using f(1,3) by (simp add: gen_commit_tid_def new_transaction_def empty_silo_def is_snapshot_def Let_def)
  have "read_set ?tx = []" by (simp add: new_transaction_def)
  then have "tid = MakeTid (my_core (empty_silo ?l)) 0 (cur_tick (empty_silo ?l)) \<and> tid < last_commit_tid (empty_silo ?l)"
    by (rule commit_tid_number_overflow [OF g]) (use f in \<open>simp_all add: empty_silo_def\<close>)
  then have "tid < last_commit_tid (empty_silo ?l)" by (rule conjunct2)
  then have "tid < ?l" by (simp only: empty_silo_def silo.simps)
  with g show ?thesis by blast
qed

section \<open>Reading one's own writes\<close>

text \<open>
  A transaction that writes a key twice and then reads it gets the value of the first write: the
  search through the write set stops at the first entry of the tuple.  (The commit installs the last
  one.)
\<close>

theorem read_own_writes_returns_first:
  assumes "trees s btr key = Some p" and "find_write_set p (write_set tx) = None" and "t_state tx = TXN_ACTIVE"
    and "\<not> is_snapshot tx"
  shows "\<exists>tx1 tx2. do_tree_put btr key (Some v1) False tx s = Inr (Inr (), tx1, s) \<and>
    do_tree_put btr key (Some v2) False tx1 s = Inr (Inr (), tx2, s) \<and>
    do_search n mx btr key tx2 s = Inr (Inr (Some v1), tx2, s)"
proof -
  have f: "find_write_set p (ws @ e # es) = Some e" if "find_write_set p ws = None" "w_tuple e = p" for ws e es
    using that by (induction ws) (auto split: if_splits)
  let ?e = "\<lambda>v. \<lparr>w_tuple = p, w_key = key, w_val = Some v, w_btr = btr, w_insert = False, w_do_write = False\<rparr>"
  let ?tx1 = "tx\<lparr>write_set := write_set tx @ [?e v1]\<rparr>" and ?tx2 = "tx\<lparr>write_set := write_set tx @ [?e v1, ?e v2]\<rparr>"
  have "do_tree_put btr key (Some v1) False tx s = Inr (Inr (), ?tx1, s)"
    using assms by (simp add: do_tree_put_def ensure_active_def eval_nat_numeral)
  moreover have "do_tree_put btr key (Some v2) False ?tx1 s = Inr (Inr (), ?tx2, s)"
    using assms by (simp add: do_tree_put_def ensure_active_def eval_nat_numeral is_snapshot_def)
  moreover have "do_search n mx btr key ?tx2 s = Inr (Inr (Some v1), ?tx2, s)"
    using assms f [OF assms(2), of "?e v1" "[?e v2]"] by (simp add: do_search_def ensure_active_def do_tuple_read_def)
  ultimately show ?thesis by blast
qed

theorem read_own_writes_returns_first_witness:
  "let s = (empty_silo 0)\<lparr>trees := (\<lambda>_. [[1] \<mapsto> 0])\<rparr>; tx = (new_transaction 0 0)\<lparr>t_state := TXN_ACTIVE\<rparr>
   in \<exists>tx1 tx2. do_tree_put 0 [1] (Some [7]) False tx s = Inr (Inr (), tx1, s) \<and>
     do_tree_put 0 [1] (Some [8]) False tx1 s = Inr (Inr (), tx2, s) \<and> do_search 1 9 0 [1] tx2 s = Inr (Inr (Some [7]), tx2, s)"
  unfolding Let_def
  by (rule read_own_writes_returns_first [where p = 0]) (simp_all add: new_transaction_def empty_silo_def is_snapshot_def)

section \<open>What locking leaves alone\<close>

text \<open>The heap without its headers, the \<^verbatim>\<open>latest\<close> marks, and the locked tuples.\<close>

definition contents :: "tuple_heap \<Rightarrow> addr \<Rightarrow> dbtuple option" where
  "contents h p = map_option (\<lambda>d. d\<lparr>hdr := 0\<rparr>) (cells h p)"

definition latest_marks :: "tuple_heap \<Rightarrow> addr \<Rightarrow> bool option" where
  "latest_marks h p = map_option (\<lambda>d. IsLatest (hdr d)) (cells h p)"

definition locked_tuple :: "tuple_heap \<Rightarrow> addr \<Rightarrow> bool" where
  "locked_tuple h p \<longleftrightarrow> (case cells h p of None \<Rightarrow> False | Some d \<Rightarrow> IsLocked (hdr d))"

definition held :: "dbtuple_write_info list \<Rightarrow> addr set" where
  "held wis = {p. \<exists>wi \<in> set wis. wi_locked wi \<and> wi_tuple wi = p}"

lemma contents_tput_hdr: "cells h p = Some d \<Longrightarrow> contents (tput p (d\<lparr>hdr := v\<rparr>) h) = contents h"
  by (auto simp: contents_def)

lemma on_hdr_contents: "on_hdr f p h = Inr h' \<Longrightarrow> contents h' = contents h"
  by (auto simp: on_hdr_def rbind_eq_Inr_iff contents_tput_hdr)

lemma contents_versions:
  assumes "contents h' = contents h" "latest_marks h' = latest_marks h" "cells h' p = Some d'"
  obtains d where "cells h p = Some d" "tver d = tver d'" "IsLatest (hdr d) = IsLatest (hdr d')"
proof -
  from assms(1,2) have "contents h' p = contents h p" "latest_marks h' p = latest_marks h p" by simp_all
  with assms(3) obtain d where d: "cells h p = Some d" "d'\<lparr>hdr := 0\<rparr> = d\<lparr>hdr := 0\<rparr>" "IsLatest (hdr d') = IsLatest (hdr d)"
    by (cases "cells h p") (auto simp: contents_def latest_marks_def)
  have "tver d = tver d'" using arg_cong [OF d(2), of tver] by simp
  from that [OF d(1) this d(3) [symmetric]] show thesis .
qed

text \<open>From one state of the locking loop to a later one.\<close>

definition lock_ext :: "lock_state \<Rightarrow> lock_state \<Rightarrow> bool" where
  "lock_ext st st' \<longleftrightarrow> (case st of (wis, ws, s) \<Rightarrow> case st' of (wis', ws', s') \<Rightarrow>
     s' = s\<lparr>theap := theap s'\<rparr> \<and> contents (theap s') = contents (theap s) \<and>
     latest_marks (theap s') = latest_marks (theap s) \<and>
     map (wi_locked_update (\<lambda>_. False)) wis' = map (wi_locked_update (\<lambda>_. False)) wis \<and>
     map (w_do_write_update (\<lambda>_. False)) ws' = map (w_do_write_update (\<lambda>_. False)) ws \<and>
     held wis \<subseteq> held wis' \<and>
     (\<forall>p. locked_tuple (theap s') p \<longrightarrow> locked_tuple (theap s) p \<or> p \<in> held wis') \<and>
     (\<forall>p. locked_tuple (theap s) p \<longrightarrow> locked_tuple (theap s') p) \<and>
     (\<forall>p \<in> held wis'. p \<in> held wis \<or> \<not> locked_tuple (theap s) p) \<and>
     (\<forall>p. p \<notin> wi_tuple ` set wis \<longrightarrow> cells (theap s') p = cells (theap s) p))"

lemma same_infos_tuples:
  fixes wis wis' :: "dbtuple_write_info list"
  assumes "map (wi_locked_update (\<lambda>_. False)) wis' = map (wi_locked_update (\<lambda>_. False)) wis"
  shows "map wi_tuple wis' = map wi_tuple wis" "map wi_pos wis' = map wi_pos wis" "map wi_insert wis' = map wi_insert wis"
  using arg_cong [OF assms, of "map wi_tuple"] arg_cong [OF assms, of "map wi_pos"] arg_cong [OF assms, of "map wi_insert"]
  by (simp_all add: comp_def)

lemma lock_ext_refl [simp]: "lock_ext st st"
  by (cases st) (simp add: lock_ext_def)

lemma lock_ext_trans:
  assumes "lock_ext st st'" "lock_ext st' st''"
  shows "lock_ext st st''"
proof -
  obtain wis ws s wis' ws' s' wis'' ws'' s'' where
    st: "st = (wis, ws, s)" "st' = (wis', ws', s')" "st'' = (wis'', ws'', s'')" by (metis prod_cases3)
  from assms have "s'' = s\<lparr>theap := theap s''\<rparr>" unfolding lock_ext_def st prod.case by (metis silo.update_convs(1) silo.fold_congs(1) silo.surjective)
  moreover from assms have "map wi_tuple wis' = map wi_tuple wis"
    unfolding lock_ext_def st prod.case by (intro same_infos_tuples(1)) simp
  then have "wi_tuple ` set wis' = wi_tuple ` set wis" by (metis list.set_map)
  ultimately show ?thesis using assms unfolding lock_ext_def st prod.case by (intro conjI) (simp_all, blast+)
qed

lemma hdr_lock_keeps: "hdr_lock wi v = Inr v' \<Longrightarrow> IsLatest v' = IsLatest v"
  by (auto simp: hdr_lock_def rbind_eq_Inr_iff Let_def hdr_bits bit_or_iff split: if_splits)

lemma map_update_same: "i < length xs \<Longrightarrow> f x = f (xs ! i) \<Longrightarrow> map f (xs[i := x]) = map f xs"
  by (simp add: map_update list_update_same_conv)

lemma set_do_write_same:
  assumes "set_do_write pos ws = Inr ws'"
  shows "map (w_do_write_update (\<lambda>_. False)) ws' = map (w_do_write_update (\<lambda>_. False)) ws"
proof -
  from assms obtain e where e: "pos < length ws" "e = ws ! pos" "ws' = ws[pos := e\<lparr>w_do_write := True\<rparr>]"
    by (auto simp: set_do_write_def rbind_eq_Inr_iff)
  then show ?thesis by (simp add: map_update_same)
qed

lemma lock_one_ext:
  assumes "i < length wis" "cells (theap s) (wi_tuple (wis ! i)) = Some d" "hdr_lock True (hdr d) = Inr v"
    and "\<not> wi_locked (wis ! i)"
  shows "lock_ext (wis, ws, s)
    (wis[i := (wis ! i)\<lparr>wi_locked := True\<rparr>], ws, s\<lparr>theap := tput (wi_tuple (wis ! i)) (d\<lparr>hdr := v\<rparr>) (theap s)\<rparr>)"
proof -
  let ?p = "wi_tuple (wis ! i)" and ?w = "(wis ! i)\<lparr>wi_locked := True\<rparr>"
  have "?w \<in> set (wis[i := ?w])" using assms(1) by (rule set_update_memI)
  then have p: "?p \<in> held (wis[i := ?w])" unfolding held_def mem_Collect_eq by (rule bexI [rotated]) simp
  have "held wis \<subseteq> held (wis[i := ?w])"
  proof
    fix q
    assume "q \<in> held wis"
    then obtain j where j: "j < length wis" "wi_locked (wis ! j)" "wi_tuple (wis ! j) = q"
      by (auto simp: held_def in_set_conv_nth)
    with assms(4) have "j \<noteq> i" by auto
    with j have "wis[i := ?w] ! j = wis ! j" by simp
    with j show "q \<in> held (wis[i := ?w])" unfolding held_def
      by (auto simp: in_set_conv_nth intro!: bexI [of _ "wis ! j"] exI [of _ j])
  qed
  moreover have "map (wi_locked_update (\<lambda>_. False)) (wis[i := ?w]) = map (wi_locked_update (\<lambda>_. False)) wis"
    using assms(1) by (simp add: map_update_same)
  moreover have "latest_marks (tput ?p (d\<lparr>hdr := v\<rparr>) (theap s)) = latest_marks (theap s)"
    using assms(2) hdr_lock_keeps [OF assms(3)] by (auto simp: latest_marks_def)
  moreover have l: "\<not> IsLocked (hdr d)" "IsLocked v"
    using assms(3) by (auto simp: hdr_lock_def Let_def rbind_eq_Inr_iff split: if_splits)
  moreover have "q \<in> held wis \<or> \<not> locked_tuple (theap s) q" if q: "q \<in> held (wis[i := ?w])" for q
  proof (cases "q = ?p")
    case True
    with l(1) assms(2) show ?thesis by (simp add: locked_tuple_def)
  next
    case False
    from q obtain j where j: "j < length wis" "wi_locked (wis[i := ?w] ! j)" "wi_tuple (wis[i := ?w] ! j) = q"
      by (auto simp: held_def in_set_conv_nth)
    with False have "j \<noteq> i" by auto
    with j show ?thesis by (auto simp: held_def in_set_conv_nth intro!: bexI [of _ "wis ! j"] exI [of _ j])
  qed
  moreover have "?p \<in> wi_tuple ` set wis" using assms(1) by simp
  ultimately show ?thesis using p assms(2)
    by (auto simp: lock_ext_def contents_tput_hdr) (auto simp: locked_tuple_def split: if_splits)
qed

lemma handle_last_ext:
  assumes "handle_last_tuple_in_group i did st = Inr (ok, st')"
  shows "lock_ext st st'"
proof -
  obtain wis ws s where st: "st = (wis, ws, s)" by (cases st)
  have ws: "lock_ext (wis', ws1, s') (wis', ws2, s')" if "set_do_write k ws1 = Inr ws2" for wis' ws1 ws2 s' k
    using set_do_write_same [OF that] by (simp add: lock_ext_def)
  show ?thesis
  proof (cases did)
    case True
    with assms show ?thesis
      by (auto simp: handle_last_tuple_in_group_def st rbind_eq_Inr_iff split: if_splits intro: ws)
  next
    case False
    with assms obtain d where i: "i < length wis" and d: "cells (theap s) (wi_tuple (wis ! i)) = Some d"
      by (auto simp: handle_last_tuple_in_group_def st rbind_eq_Inr_iff)
    show ?thesis
    proof (cases "tver d = MAX_TID")
      case True
      with assms False i d show ?thesis by (auto simp: handle_last_tuple_in_group_def st)
    next
      case live: False
      with assms False i d obtain v where v: "hdr_lock True (hdr d) = Inr v" "\<not> wi_locked (wis ! i)"
        by (auto simp: handle_last_tuple_in_group_def st rbind_eq_Inr_iff mark_locked_def Let_def)
      note e = lock_one_ext [OF i d v, of ws]
      let ?wis = "wis[i := (wis ! i)\<lparr>wi_locked := True\<rparr>]"
      let ?s = "s\<lparr>theap := tput (wi_tuple (wis ! i)) (d\<lparr>hdr := v\<rparr>) (theap s)\<rparr>"
      from assms False i d live v consider "st' = (?wis, ws, ?s)"
        | ws' k where "set_do_write k ws = Inr ws'" "st' = (?wis, ws', ?s)"
        by (auto simp: handle_last_tuple_in_group_def st rbind_eq_Inr_iff mark_locked_def Let_def split: if_splits)
      then show ?thesis
      proof cases
        case 1
        with e st show ?thesis by simp
      next
        case 2
        from ws [OF 2(1)] e show ?thesis unfolding st 2(2) by (rule lock_ext_trans [rotated])
      qed
    qed
  qed
qed

lemma lock_round_ext:
  assumes "lock_round i (stop, ilr, st) = Inr (stop', ilr', st')"
  shows "lock_ext st st'"
proof (cases stop)
  case True
  with assms show ?thesis by (cases st) (simp add: lock_round_def)
next
  case False
  obtain wis ws s where st: "st = (wis, ws, s)" by (cases st)
  have ws: "lock_ext (wis', ws1, s') (wis', ws2, s')" if "set_do_write k ws1 = Inr ws2" for wis' ws1 ws2 s' k
    using set_do_write_same [OF that] by (simp add: lock_ext_def)
  define A where "A = (if 0 < i \<and> wi_tuple (wis ! (i - 1)) \<noteq> wi_tuple (wis ! i)
         then rbind (handle_last_tuple_in_group (i - 1) ilr (wis, ws, s)) (\<lambda>(ok, st). Inr (ok, False, st))
         else Inr (True, ilr, wis, ws, s))"
  from assms False obtain ok ilr1 wis1 ws1 s1 where A: "A = Inr (ok, ilr1, wis1, ws1, s1)" and i: "i < length wis"
    by (auto simp: lock_round_def st A_def [symmetric] rbind_eq_Inr_iff simp del: One_nat_def)
  have 1: "lock_ext st (wis1, ws1, s1)"
    using A by (auto simp: A_def st rbind_eq_Inr_iff split: if_splits dest: handle_last_ext)
  have "st' = (wis1, ws1, s1) \<or> (\<exists>k ws2. set_do_write k ws1 = Inr ws2 \<and> st' = (wis1, ws2, s1))"
    using assms False i A
    by (auto simp: lock_round_def st A_def [symmetric] rbind_eq_Inr_iff simp del: One_nat_def split: if_splits)
  then show ?thesis using 1 ws lock_ext_trans by blast
qed

lemma lock_write_nodes_ext:
  assumes "lock_write_nodes st = Inr (ok, st')"
  shows "lock_ext st st'"
proof -
  obtain wis ws s where st: "st = (wis, ws, s)" by (cases st)
  from assms obtain stop ilr st1 where
    1: "for_each lock_round [0..<length wis] (False, False, st) = Inr (stop, ilr, st1)"
    and 2: "lock_ext st1 st'"
    by (auto simp: lock_write_nodes_def st rbind_eq_Inr_iff split: if_splits dest: handle_last_ext)
  have "lock_ext st (snd (snd (stop, ilr, st1)))"
  proof (rule for_each_invariant [OF 1, where P = "\<lambda>x. lock_ext st (snd (snd x))"])
    show "lock_ext st (snd (snd y))" if "lock_ext st (snd (snd x))" "lock_round i x = Inr y" for i x y
      using that lock_round_ext [of i "fst x" "fst (snd x)" "snd (snd x)" "fst y" "fst (snd y)" "snd (snd y)"]
      by (auto intro: lock_ext_trans)
  qed simp
  then show ?thesis using 2 by (auto intro: lock_ext_trans)
qed

text \<open>
  A locking loop that does not stop has locked every tuple it went over: before round \<open>i\<close> only the tuple
  of the group that is still open may be missing, and not even that one if the group has an insertion.
\<close>

definition groups_locked :: "nat \<Rightarrow> bool \<Rightarrow> dbtuple_write_info list \<Rightarrow> bool" where
  "groups_locked i ilr wis \<longleftrightarrow> (\<forall>j < i. wi_tuple (wis ! j) \<in> held wis \<or> wi_tuple (wis ! j) = wi_tuple (wis ! (i - 1))) \<and>
     (ilr \<longrightarrow> 0 < i \<and> wi_tuple (wis ! (i - 1)) \<in> held wis)"

lemma held_nth: "j < length wis \<Longrightarrow> wi_locked (wis ! j) \<Longrightarrow> wi_tuple (wis ! j) \<in> held wis"
  by (auto simp: held_def)

lemma handle_last_infos:
  assumes "handle_last_tuple_in_group i did (wis, ws, s) = Inr (True, wis', ws', s')" and "i < length wis"
    and "did \<longrightarrow> wi_tuple (wis ! i) \<in> held wis"
  shows "wi_tuple (wis' ! i) \<in> held wis'" "\<forall>j. j \<noteq> i \<longrightarrow> wis' ! j = wis ! j" "length wis' = length wis"
    "\<forall>j. wi_tuple (wis' ! j) = wi_tuple (wis ! j)" "held wis \<subseteq> held wis'"
proof -
  have h: "held wis \<subseteq> held wis'" using handle_last_ext [OF assms(1)] by (simp add: lock_ext_def)
  then show "held wis \<subseteq> held wis'" .
  let ?w = "(wis ! i)\<lparr>wi_locked := True\<rparr>"
  have "wis' = wis \<and> did \<or> wis' = wis[i := ?w]"
    using assms(1,2) by (auto simp: handle_last_tuple_in_group_def rbind_eq_Inr_iff mark_locked_def Let_def split: if_splits)
  then show "wi_tuple (wis' ! i) \<in> held wis'" "\<forall>j. j \<noteq> i \<longrightarrow> wis' ! j = wis ! j" "length wis' = length wis"
    "\<forall>j. wi_tuple (wis' ! j) = wi_tuple (wis ! j)"
    using assms(2,3) held_nth [of i wis'] by (auto simp: nth_list_update)
qed

lemma lock_round_groups:
  assumes r: "lock_round i (False, ilr, wis, ws, s) = Inr (False, ilr', wis', ws', s')" and g: "groups_locked i ilr wis"
  shows "groups_locked (Suc i) ilr' wis' \<and> length wis' = length wis"
proof -
  define A where "A = (if 0 < i \<and> wi_tuple (wis ! (i - 1)) \<noteq> wi_tuple (wis ! i)
         then rbind (handle_last_tuple_in_group (i - 1) ilr (wis, ws, s)) (\<lambda>(ok, st). Inr (ok, False, st))
         else Inr (True, ilr, wis, ws, s))"
  from r obtain ilr1 wis1 ws1 s1 where A: "A = Inr (True, ilr1, wis1, ws1, s1)" and i: "i < length wis" and w: "wis' = wis1"
    and c: "wi_insert (wis ! i) \<and> wi_locked (wis ! i) \<and> ilr' \<or> \<not> wi_insert (wis ! i) \<and> ilr' = ilr1"
    by (auto simp: lock_round_def A_def [symmetric] rbind_eq_Inr_iff simp del: One_nat_def split: if_splits)
  have 1: "(\<forall>j < i. wi_tuple (wis1 ! j) \<in> held wis1 \<or> wi_tuple (wis1 ! j) = wi_tuple (wis1 ! i)) \<and>
      (ilr1 \<longrightarrow> wi_tuple (wis1 ! i) \<in> held wis1) \<and> wis1 ! i = wis ! i \<and> length wis1 = length wis"
  proof (cases "0 < i \<and> wi_tuple (wis ! (i - 1)) \<noteq> wi_tuple (wis ! i)")
    case True
    with A have h: "handle_last_tuple_in_group (i - 1) ilr (wis, ws, s) = Inr (True, wis1, ws1, s1)" "\<not> ilr1"
      by (auto simp: A_def rbind_eq_Inr_iff)
    have "i - 1 < length wis" "ilr \<longrightarrow> wi_tuple (wis ! (i - 1)) \<in> held wis" using i g by (auto simp: groups_locked_def)
    note f = handle_last_infos [OF h(1) this]
    have "wi_tuple (wis1 ! j) \<in> held wis1" if "j < i" for j
      using that g f by (auto simp: groups_locked_def)
    moreover have "i \<noteq> i - 1" using True by linarith
    then have "wis1 ! i = wis ! i" using f(2) by blast
    ultimately show ?thesis using h(2) f(3) by simp
  next
    case False
    with A have e: "wis1 = wis" "ilr1 = ilr" by (auto simp: A_def split: if_splits)
    show ?thesis
    proof (cases "i = 0")
      case True
      with e g show ?thesis by (simp add: groups_locked_def)
    next
      case False
      with \<open>\<not> (0 < i \<and> _)\<close> have "wi_tuple (wis ! (i - 1)) = wi_tuple (wis ! i)" by simp
      with e g show ?thesis by (auto simp: groups_locked_def)
    qed
  qed
  have "wi_tuple (wis1 ! i) \<in> held wis1" if "ilr'"
    using that c 1 held_nth [of i wis1] i by auto
  with 1 show ?thesis using w by (auto simp: groups_locked_def less_Suc_eq)
qed

lemma lock_rounds_groups:
  assumes "for_each lock_round [k..<n] (False, ilr, wis, ws, s) = Inr (False, ilr', wis', ws', s')" and "groups_locked k ilr wis"
    and "k \<le> n"
  shows "groups_locked n ilr' wis' \<and> length wis' = length wis"
  using assms
proof (induction "n - k" arbitrary: k ilr wis ws s)
  case 0
  then show ?case by simp
next
  case (Suc m)
  then have k: "k < n" by simp
  with Suc.prems(1) obtain stop1 ilr1 wis1 ws1 s1 where
    r: "lock_round k (False, ilr, wis, ws, s) = Inr (stop1, ilr1, wis1, ws1, s1)"
      "for_each lock_round [Suc k..<n] (stop1, ilr1, wis1, ws1, s1) = Inr (False, ilr', wis', ws', s')"
    by (auto simp: upt_conv_Cons rbind_eq_Inr_iff)
  have "for_each lock_round xs (True, y) \<noteq> Inr (False, z)" for xs y z
    by (induction xs arbitrary: y) (auto simp: lock_round_def split: prod.splits)
  with r(2) have "\<not> stop1" by (cases stop1) auto
  with r have r': "lock_round k (False, ilr, wis, ws, s) = Inr (False, ilr1, wis1, ws1, s1)"
    "for_each lock_round [Suc k..<n] (False, ilr1, wis1, ws1, s1) = Inr (False, ilr', wis', ws', s')" by simp_all
  note g = lock_round_groups [OF r'(1) Suc.prems(2)]
  from Suc.hyps(1) [OF _ r'(2)] g Suc.hyps(2) k show ?case by simp
qed

lemma lock_write_nodes_all:
  assumes "lock_write_nodes (wis, ws, s) = Inr (True, wis', ws', s')" and "p \<in> wi_tuple ` set wis"
  shows "p \<in> held wis'"
proof -
  let ?n = "length wis"
  have n: "0 < ?n" using assms(2) by auto
  from assms(1) n obtain ilr1 wis1 ws1 s1 where
    r: "for_each lock_round [0..<?n] (False, False, wis, ws, s) = Inr (False, ilr1, wis1, ws1, s1)"
    and h: "handle_last_tuple_in_group (?n - 1) ilr1 (wis1, ws1, s1) = Inr (True, wis', ws', s')"
    by (auto simp: lock_write_nodes_def rbind_eq_Inr_iff split: if_splits)
  have "groups_locked 0 False wis" by (simp add: groups_locked_def)
  from lock_rounds_groups [OF r this] have g: "groups_locked ?n ilr1 wis1" "length wis1 = ?n" by simp_all
  then have "?n - 1 < length wis1" "ilr1 \<longrightarrow> wi_tuple (wis1 ! (?n - 1)) \<in> held wis1" using n by (auto simp: groups_locked_def)
  note f = handle_last_infos [OF h this]
  have all: "wi_tuple (wis' ! j) \<in> held wis'" if "j < ?n" for j
    using that g f by (auto simp: groups_locked_def)
  have "map wi_tuple wis' = map wi_tuple wis"
    using lock_write_nodes_ext [OF assms(1)] by (intro same_infos_tuples(1)) (simp add: lock_ext_def)
  then have "wi_tuple ` set wis' = wi_tuple ` set wis" by (metis list.set_map)
  with assms(2) obtain j where "j < length wis'" "wi_tuple (wis' ! j) = p" by (metis (no_types, lifting) image_iff in_set_conv_nth)
  with all [of j] f(3) g(2) show ?thesis by simp
qed

section \<open>Validation and aborts\<close>

lemma copy_write_set_infos:
  assumes "copy_write_set ws s = Inr wis"
  shows "wis = map (\<lambda>(e, pos). \<lparr>wi_tuple = w_tuple e, wi_pos = pos, wi_insert = w_insert e, wi_locked = w_insert e\<rparr>)
    (zip ws [0..<length ws])"
  using assms by (auto simp: copy_write_set_def rbind_eq_Inr_iff)

lemma copy_write_set_set:
  assumes "copy_write_set ws s = Inr wis"
  shows "set wis = (\<lambda>i. \<lparr>wi_tuple = w_tuple (ws ! i), wi_pos = i, wi_insert = w_insert (ws ! i), wi_locked = w_insert (ws ! i)\<rparr>) ` {..<length ws}"
proof -
  have "zip ws [0..<length ws] = map (\<lambda>i. (ws ! i, i)) [0..<length ws]" by (rule nth_equalityI) simp_all
  then show ?thesis unfolding copy_write_set_infos [OF assms] by (auto simp: image_image lessThan_atLeast0)
qed

lemma held_copy_write_set:
  assumes "copy_write_set ws s = Inr wis" "e \<in> set ws" "w_insert e"
  shows "w_tuple e \<in> held (sort_key wi_key wis)"
proof -
  from assms(2) obtain i where i: "i < length ws" "ws ! i = e" by (auto simp: in_set_conv_nth)
  then have "(e, i) \<in> set (zip ws [0..<length ws])" by (auto simp: in_set_zip)
  with assms(3) show ?thesis unfolding copy_write_set_infos [OF assms(1)] held_def by force
qed

lemma gen_commit_tid_state: "gen_commit_tid tx wis s = Inr (tid, s') \<Longrightarrow> s' = s\<lparr>last_commit_tid := tid\<rparr>"
  by (auto simp: gen_commit_tid_def rbind_eq_Inr_iff Let_def)

lemma validate_reads:
  assumes "for_each (validate_read wis s) rs ok = Inr True"
  shows "\<forall>r \<in> set rs. \<exists>d. cells (theap s) (r_tuple r) = Some d \<and> IsLatest (hdr d) \<and> tver d \<le> r_tid r \<and>
    (r_tuple r \<in> wi_tuple ` set wis \<or> \<not> IsWriteIntent (hdr d) \<and> \<not> IsModifying (hdr d))"
  using assms
proof (induction rs arbitrary: ok)
  case (Cons r rs)
  then obtain ok' where ok: "validate_read wis s r ok = Inr ok'" "for_each (validate_read wis s) rs ok' = Inr True"
    by (auto simp: rbind_eq_Inr_iff)
  have "for_each (validate_read wis s) rs False = Inr False" for rs
    by (induction rs) (simp_all add: validate_read_def)
  with ok have "ok'" by (cases ok') auto
  with ok(1) have "\<exists>d. cells (theap s) (r_tuple r) = Some d \<and> IsLatest (hdr d) \<and> tver d \<le> r_tid r \<and>
      (r_tuple r \<in> wi_tuple ` set wis \<or> \<not> IsWriteIntent (hdr d) \<and> \<not> IsModifying (hdr d))"
    by (auto simp: validate_read_def image_iff eq_commute [of "r_tuple r"] sorted_dbtuples_contains_def is_latest_version_def is_not_behind_def stable_is_latest_version_def
        writer_check_version_def rbind_eq_Inr_iff split: if_splits)
  with Cons.IH [OF ok(2)] show ?case by simp
qed simp

lemma on_heap_same: "on_heap f s = Inr s' \<Longrightarrow> \<exists>h. f (theap s) = Inr h \<and> s' = s\<lparr>theap := h\<rparr>"
  by (auto simp: on_heap_def rbind_eq_Inr_iff)

lemma on_hdr_locked:
  assumes "on_hdr f p h = Inr h'" and "\<And>v v'. f v = Inr v' \<Longrightarrow> IsLocked v' \<Longrightarrow> IsLocked v"
  shows "locked_tuple h' q \<Longrightarrow> locked_tuple h q"
  using assms by (auto simp: on_hdr_def rbind_eq_Inr_iff locked_tuple_def split: if_splits)

lemma unlock_tuple:
  assumes "on_hdr hdr_unlock p h = Inr h'"
  shows "contents h' = contents h" "locked_tuple h' q \<Longrightarrow> locked_tuple h q \<and> q \<noteq> p"
proof -
  show "contents h' = contents h" using assms by (rule on_hdr_contents)
  have "\<not> IsLocked v'" if "hdr_unlock v = Inr v'" for v v'
    using hdr_unlock_cases(2) [OF that, of 0] by (simp add: hdr_bits)
  with assms show "locked_tuple h' q \<Longrightarrow> locked_tuple h q \<and> q \<noteq> p"
    by (auto simp: on_hdr_def rbind_eq_Inr_iff locked_tuple_def split: if_splits)
qed

text \<open>
  The index after the cleanup of the tentative tuples of a write set: the entry of every insertion was
  that tuple, not yet committed, and is gone; all other entries are as they were.
\<close>

definition trees_cleaned :: "write_record_t list \<Rightarrow> silo \<Rightarrow> silo \<Rightarrow> bool" where
  "trees_cleaned ws s s' \<longleftrightarrow>
     (\<forall>b k. trees s' b k = (if \<exists>e \<in> set ws. w_insert e \<and> w_btr e = b \<and> w_key e = k then None else trees s b k)) \<and>
     (\<forall>e \<in> set ws. w_insert e \<longrightarrow> trees s (w_btr e) (w_key e) = Some (w_tuple e) \<and>
        (\<exists>d. contents (theap s) (w_tuple e) = Some d \<and> tver d = MAX_TID))"

definition abort_ext :: "addr set \<Rightarrow> silo \<Rightarrow> silo \<Rightarrow> bool" where
  "abort_ext A s s' \<longleftrightarrow> contents (theap s') = contents (theap s) \<and>
     (\<forall>p. locked_tuple (theap s') p \<longrightarrow> locked_tuple (theap s) p \<and> p \<notin> A)"

lemma abort_ext_refl: "abort_ext {} s s"
  by (simp add: abort_ext_def)

lemma abort_ext_trans: "abort_ext A s s' \<Longrightarrow> abort_ext B s' s'' \<Longrightarrow> abort_ext (A \<union> B) s s''"
  by (auto simp: abort_ext_def)

lemma cleanup_ext:
  assumes "cleanup_inserted_tuple_marker m key btr s = Inr s'"
  shows "abort_ext {} s s'" "trees s' = (trees s)(btr := (trees s btr)(key := None))" "trees s btr key = Some m"
    "\<exists>d. contents (theap s) m = Some d \<and> tver d = MAX_TID"
proof -
  let ?s = "s\<lparr>trees := (trees s)(btr := (trees s btr)(key := None))\<rparr>"
  from assms obtain d where d: "cells (theap s) m = Some d" "tver d = MAX_TID"
    by (auto simp: cleanup_inserted_tuple_marker_def rbind_eq_Inr_iff)
  from assms d have m: "trees s btr key = Some m"
    by (cases "trees s btr key") (auto simp: cleanup_inserted_tuple_marker_def rbind_eq_Inr_iff Let_def)
  from assms d m have "rbind (on_heap (on_hdr hdr_clear_latest m) ?s) (on_heap (release m)) = Inr s'"
    by (simp add: cleanup_inserted_tuple_marker_def rbind_eq_Inr_iff Let_def)
  then obtain h1 h2 where h: "on_hdr hdr_clear_latest m (theap s) = Inr h1" "release m h1 = Inr h2"
    and s': "s' = ?s\<lparr>theap := h2\<rparr>" by (auto simp: rbind_eq_Inr_iff on_heap_def)
  note d = d m
  have h2: "cells h2 = cells h1" using h(2) by (auto simp: release_def rbind_eq_Inr_iff)
  have "contents h2 = contents (theap s)" using on_hdr_contents [OF h(1)] by (simp add: contents_def [abs_def] h2)
  moreover have "locked_tuple (theap s) p" if "locked_tuple h2 p" for p
  proof (rule on_hdr_locked [OF h(1)])
    show "locked_tuple h1 p" using that by (simp add: locked_tuple_def h2)
    show "IsLocked v" if "hdr_clear_latest v = Inr v'" "IsLocked v'" for v v'
      using that by (auto simp: hdr_clear_latest_def rbind_eq_Inr_iff)
  qed
  ultimately show "abort_ext {} s s'" by (simp add: abort_ext_def s')
  show "trees s' = (trees s)(btr := (trees s btr)(key := None))" "trees s btr key = Some m" using m by (simp_all add: s')
  show "\<exists>d. contents (theap s) m = Some d \<and> tver d = MAX_TID" using d by (simp add: contents_def)
qed

lemma abort_locked_ext:
  assumes "abort_locked ws wi s = Inr s'"
  shows "abort_ext (if wi_locked wi then {wi_tuple wi} else {}) s s'"
proof (cases "wi_locked wi")
  case False
  with assms show ?thesis by (auto simp: abort_locked_def rbind_eq_Inr_iff abort_ext_def)
next
  case True
  with assms obtain s1 h where s1: "s1 = s \<or> (\<exists>k b. cleanup_inserted_tuple_marker (wi_tuple wi) k b s = Inr s1)"
    and h: "on_hdr hdr_unlock (wi_tuple wi) (theap s1) = Inr h" "s' = s1\<lparr>theap := h\<rparr>"
    by (auto simp: abort_locked_def rbind_eq_Inr_iff on_heap_def split: if_splits)
  have "abort_ext {} s s1" using s1 cleanup_ext(1) abort_ext_refl by blast
  moreover have "abort_ext {wi_tuple wi} s1 s'"
    using unlock_tuple [OF h(1)] h(2) by (auto simp: abort_ext_def)
  ultimately show ?thesis using True abort_ext_trans by fastforce
qed

lemma abort_all_ext:
  assumes "for_each (abort_locked ws) wis s = Inr s'"
  shows "abort_ext (held wis) s s'"
  using assms
proof (induction wis arbitrary: s)
  case Nil
  then show ?case by (auto simp: abort_ext_def held_def)
next
  case (Cons wi wis)
  then obtain s1 where s1: "abort_locked ws wi s = Inr s1" "for_each (abort_locked ws) wis s1 = Inr s'"
    by (auto simp: rbind_eq_Inr_iff)
  have "held (wi # wis) = (if wi_locked wi then {wi_tuple wi} else {}) \<union> held wis" by (auto simp: held_def)
  then show ?case using abort_ext_trans [OF abort_locked_ext [OF s1(1)] Cons.IH [OF s1(2)]] by simp
qed

text \<open>What the loop of an abort does to the index.\<close>

lemma abort_locked_trees:
  assumes "abort_locked ws wi s = Inr s'"
  shows "if wi_insert wi then wi_pos wi < length ws \<and>
      trees s' = (trees s)(w_btr (ws ! wi_pos wi) := (trees s (w_btr (ws ! wi_pos wi)))(w_key (ws ! wi_pos wi) := None)) \<and>
      trees s (w_btr (ws ! wi_pos wi)) (w_key (ws ! wi_pos wi)) = Some (wi_tuple wi) \<and>
      (\<exists>d. contents (theap s) (wi_tuple wi) = Some d \<and> tver d = MAX_TID)
    else trees s' = trees s"
proof (cases "wi_insert wi")
  case False
  with assms show ?thesis by (auto simp: abort_locked_def rbind_eq_Inr_iff on_heap_def split: if_splits)
next
  case True
  with assms obtain s1 h where "wi_pos wi < length ws" "s' = s1\<lparr>theap := h\<rparr>"
    "cleanup_inserted_tuple_marker (wi_tuple wi) (w_key (ws ! wi_pos wi)) (w_btr (ws ! wi_pos wi)) s = Inr s1"
    by (auto simp: abort_locked_def rbind_eq_Inr_iff on_heap_def split: if_splits)
  with True cleanup_ext(2-4) [OF this(3)] show ?thesis by simp
qed

lemma abort_all_trees:
  assumes "for_each (abort_locked ws) wis s = Inr s'"
  shows "(\<forall>b k. trees s' b k =
      (if \<exists>wi \<in> set wis. wi_insert wi \<and> w_btr (ws ! wi_pos wi) = b \<and> w_key (ws ! wi_pos wi) = k then None else trees s b k)) \<and>
    (\<forall>wi \<in> set wis. wi_insert wi \<longrightarrow> trees s (w_btr (ws ! wi_pos wi)) (w_key (ws ! wi_pos wi)) = Some (wi_tuple wi) \<and>
      (\<exists>d. contents (theap s) (wi_tuple wi) = Some d \<and> tver d = MAX_TID))"
  using assms
proof (induction wis arbitrary: s)
  case (Cons wi wis)
  then obtain s1 where s1: "abort_locked ws wi s = Inr s1" "for_each (abort_locked ws) wis s1 = Inr s'"
    by (auto simp: rbind_eq_Inr_iff)
  have c: "contents (theap s1) = contents (theap s)" using abort_locked_ext [OF s1(1)] by (simp add: abort_ext_def)
  note t = abort_locked_trees [OF s1(1)] and IH = Cons.IH [OF s1(2), unfolded c]
  show ?case
  proof (cases "wi_insert wi")
    case False
    with t IH show ?thesis by auto
  next
    case True
    then have t': "trees s1 = (trees s)(w_btr (ws ! wi_pos wi) := (trees s (w_btr (ws ! wi_pos wi)))(w_key (ws ! wi_pos wi) := None))"
      "trees s (w_btr (ws ! wi_pos wi)) (w_key (ws ! wi_pos wi)) = Some (wi_tuple wi)"
      "\<exists>d. contents (theap s) (wi_tuple wi) = Some d \<and> tver d = MAX_TID" using t by simp_all
    have m: "trees s b k = Some q" if "trees s1 b k = Some q" for b k q
      using that unfolding t'(1) by (auto split: if_splits)
    show ?thesis
    proof (intro conjI allI ballI impI)
      fix b k
      show "trees s' b k = (if \<exists>w \<in> set (wi # wis). wi_insert w \<and> w_btr (ws ! wi_pos w) = b \<and> w_key (ws ! wi_pos w) = k
          then None else trees s b k)"
        using spec [OF spec [OF conjunct1 [OF IH], of b], of k] True unfolding t'(1) by auto
    next
      fix w assume w: "w \<in> set (wi # wis)" "wi_insert w"
      show "trees s (w_btr (ws ! wi_pos w)) (w_key (ws ! wi_pos w)) = Some (wi_tuple w)"
        using w IH t'(2) m by (cases "w = wi") auto
      show "\<exists>d. contents (theap s) (wi_tuple w) = Some d \<and> tver d = MAX_TID"
        using w IH t'(3) by (cases "w = wi") auto
    qed
  qed
qed simp

lemma commit_active_locked:
  assumes "copy_write_set (write_set tx) s = Inr wis0"
    and "lock_write_nodes (sort_key wi_key wis0, write_set tx, s) = Inr (ok, wis, ws, s1)"
  shows "contents (theap s1) = contents (theap s)" "latest_marks (theap s1) = latest_marks (theap s)" "trees s1 = trees s"
    "node_ver s1 = node_ver s" "locked_tuple (theap s1) p \<Longrightarrow> locked_tuple (theap s) p \<or> p \<in> held wis"
    "e \<in> set (write_set tx) \<Longrightarrow> w_insert e \<Longrightarrow> w_tuple e \<in> held wis"
    "wi_tuple ` set wis = w_tuple ` set (write_set tx)"
    "p \<notin> wi_tuple ` set wis \<Longrightarrow> cells (theap s1) p = cells (theap s) p"
    "p \<in> held wis \<Longrightarrow> p \<in> w_tuple ` {e \<in> set (write_set tx). w_insert e} \<or> \<not> locked_tuple (theap s) p"
proof -
  let ?W = "write_set tx"
  have "set ?W = (\<lambda>i. ?W ! i) ` {..<length ?W}" by (auto simp: set_conv_nth)
  then have t0: "wi_tuple ` set (sort_key wi_key wis0) = w_tuple ` set ?W"
    using copy_write_set_set [OF assms(1)] by (simp add: image_image)
  have t1: "held (sort_key wi_key wis0) \<subseteq> w_tuple ` {e \<in> set ?W. w_insert e}"
  proof
    fix q assume "q \<in> held (sort_key wi_key wis0)"
    then obtain wi where wi: "wi \<in> set wis0" "wi_locked wi" "wi_tuple wi = q" unfolding held_def by auto
    from wi(1) obtain i where "i < length ?W" "wi_tuple wi = w_tuple (?W ! i)" "wi_locked wi = w_insert (?W ! i)"
      unfolding copy_write_set_set [OF assms(1)] by fastforce
    with wi show "q \<in> w_tuple ` {e \<in> set ?W. w_insert e}" by (intro image_eqI [of _ _ "?W ! i"]) simp_all
  qed
  have x1: "lock_ext (sort_key wi_key wis0, write_set tx, s) (wis, ws, s1)" by (rule lock_write_nodes_ext [OF assms(2)])
  have m: "map wi_tuple wis = map wi_tuple (sort_key wi_key wis0)"
    using x1 by (intro same_infos_tuples(1)) (simp add: lock_ext_def)
  then have m': "wi_tuple ` set wis = wi_tuple ` set (sort_key wi_key wis0)" by (metis list.set_map)
  then show "wi_tuple ` set wis = w_tuple ` set (write_set tx)" using t0 by simp
  show "p \<notin> wi_tuple ` set wis \<Longrightarrow> cells (theap s1) p = cells (theap s) p"
    using x1 m' by (simp add: lock_ext_def)
  show "p \<in> held wis \<Longrightarrow> p \<in> w_tuple ` {e \<in> set (write_set tx). w_insert e} \<or> \<not> locked_tuple (theap s) p"
    using x1 t1 unfolding lock_ext_def prod.case by blast
  have x: "lock_ext (sort_key wi_key wis0, write_set tx, s) (wis, ws, s1)" by (rule lock_write_nodes_ext [OF assms(2)])
  then have "s1 = s\<lparr>theap := theap s1\<rparr>" by (simp add: lock_ext_def)
  then show "trees s1 = trees s" "node_ver s1 = node_ver s" by (metis silo.select_convs silo.surjective silo.update_convs(1))+
  show "e \<in> set (write_set tx) \<Longrightarrow> w_insert e \<Longrightarrow> w_tuple e \<in> held wis"
    using held_copy_write_set [OF assms(1)] x by (auto simp: lock_ext_def)
qed (use lock_write_nodes_ext [OF assms(2)] in \<open>auto simp: lock_ext_def\<close>)

text \<open>The infos of the insertions are the insertions of the write set.\<close>

lemma commit_infos:
  assumes "copy_write_set (write_set tx) s = Inr wis0"
    and "lock_write_nodes (sort_key wi_key wis0, write_set tx, s) = Inr (ok, wis, ws, s1)"
  shows "(\<exists>wi \<in> set wis. wi_insert wi \<and> Q (w_btr (ws ! wi_pos wi)) (w_key (ws ! wi_pos wi)) (wi_tuple wi)) \<longleftrightarrow>
    (\<exists>e \<in> set (write_set tx). w_insert e \<and> Q (w_btr e) (w_key e) (w_tuple e))"
proof -
  let ?wis0 = "sort_key wi_key wis0" and ?W = "write_set tx"
  have x: "lock_ext (?wis0, ?W, s) (wis, ws, s1)" by (rule lock_write_nodes_ext [OF assms(2)])
  then have e: "map (wi_locked_update (\<lambda>_. False)) wis = map (wi_locked_update (\<lambda>_. False)) ?wis0"
    "map (w_do_write_update (\<lambda>_. False)) ws = map (w_do_write_update (\<lambda>_. False)) ?W"
    by (simp_all add: lock_ext_def)
  have m: "map w_btr ws = map w_btr ?W" "map w_key ws = map w_key ?W"
    using arg_cong [OF e(2), of "map w_btr"] arg_cong [OF e(2), of "map w_key"] by (simp_all add: comp_def)
  have n: "w_btr (ws ! i) = w_btr (?W ! i)" "w_key (ws ! i) = w_key (?W ! i)" if "i < length ?W" for i
    using that m by (metis length_map nth_map)+
  let ?P = "\<lambda>wi. wi_insert wi \<and> Q (w_btr (ws ! wi_pos wi)) (w_key (ws ! wi_pos wi)) (wi_tuple wi)"
  have "(\<exists>wi \<in> set xs. ?P wi) \<longleftrightarrow> (\<exists>wi \<in> set (map (wi_locked_update (\<lambda>_. False)) xs). ?P wi)" for xs by simp
  then have "(\<exists>wi \<in> set wis. ?P wi) \<longleftrightarrow> (\<exists>wi \<in> set ?wis0. ?P wi)" using e(1) by metis
  also have "\<dots> \<longleftrightarrow> (\<exists>i < length ?W. w_insert (?W ! i) \<and> Q (w_btr (?W ! i)) (w_key (?W ! i)) (w_tuple (?W ! i)))"
    using copy_write_set_set [OF assms(1)] n by auto
  also have "\<dots> \<longleftrightarrow> (\<exists>e \<in> set ?W. w_insert e \<and> Q (w_btr e) (w_key e) (w_tuple e))"
    by (metis in_set_conv_nth)
  finally show ?thesis .
qed

lemma aborted_trees:
  assumes "copy_write_set (write_set tx) s = Inr wis0"
    and "lock_write_nodes (sort_key wi_key wis0, write_set tx, s) = Inr (ok, wis, ws, s1)"
    and "for_each (abort_locked ws) wis s2 = Inr s'" and "trees s2 = trees s" and c: "contents (theap s2) = contents (theap s)"
  shows "trees_cleaned (write_set tx) s s'"
proof -
  note t = abort_all_trees [OF assms(3), unfolded assms(4) c] and i = commit_infos [OF assms(1,2)]
  have "trees s (w_btr e) (w_key e) = Some (w_tuple e) \<and> (\<exists>d. contents (theap s) (w_tuple e) = Some d \<and> tver d = MAX_TID)"
    if e: "e \<in> set (write_set tx)" "w_insert e" for e
  proof -
    have "\<exists>e' \<in> set (write_set tx). w_insert e' \<and> w_btr e' = w_btr e \<and> w_key e' = w_key e \<and> w_tuple e' = w_tuple e"
      using e by blast
    then have "\<exists>wi \<in> set wis. wi_insert wi \<and> w_btr (ws ! wi_pos wi) = w_btr e \<and> w_key (ws ! wi_pos wi) = w_key e \<and> wi_tuple wi = w_tuple e"
      using i [of "\<lambda>b k q. b = w_btr e \<and> k = w_key e \<and> q = w_tuple e"] by simp
    with t show ?thesis by metis
  qed
  moreover have "trees s' b k = (if \<exists>e \<in> set (write_set tx). w_insert e \<and> w_btr e = b \<and> w_key e = k then None else trees s b k)" for b k
    using spec [OF spec [OF conjunct1 [OF t], of b], of k] i [of "\<lambda>b' k' _. b' = b \<and> k' = k"] by simp
  ultimately show ?thesis by (simp add: trees_cleaned_def)
qed

text \<open>
  C6.  Commit-time validation.  A transaction that is not a snapshot commits only if every record it
  read is, in the state it commits in, still the latest version and not newer than what it read, and no
  other writer is on it: a record the transaction does not write shows no write intent and is not being
  modified, and one it writes was not locked when the commit began, unless the transaction had inserted
  it itself; and every leaf it found a key missing in has the version it had.  Otherwise it aborts.
\<close>

theorem commit_validates_reads:
  assumes "silo_commit doThrow tx s = Inr (Committed, tx', s')" and "t_state tx = TXN_ACTIVE" and "\<not> is_snapshot tx"
  shows "(\<forall>r \<in> set (read_set tx). \<exists>d. cells (theap s) (r_tuple r) = Some d \<and> IsLatest (hdr d) \<and> tver d \<le> r_tid r \<and>
      (if r_tuple r \<in> w_tuple ` set (write_set tx)
       then r_tuple r \<in> w_tuple ` {e \<in> set (write_set tx). w_insert e} \<or> \<not> IsLocked (hdr d)
       else \<not> IsWriteIntent (hdr d) \<and> \<not> IsModifying (hdr d))) \<and>
    (\<forall>(n, v) \<in> set (absent_set tx). node_ver s n = v) \<and> t_state tx' = TXN_COMMITED"
proof -
  from assms have c: "commit_active doThrow tx s = Inr (Committed, tx', s')" by (simp add: silo_commit_def)
  then obtain wis0 where w0: "copy_write_set (write_set tx) s = Inr wis0" by (auto simp: commit_active_def rbind_eq_Inr_iff)
  from c w0 obtain ok wis ws s1 where l: "lock_write_nodes (sort_key wi_key wis0, write_set tx, s) = Inr (ok, wis, ws, s1)"
    by (auto simp: commit_active_def rbind_eq_Inr_iff Let_def)
  have na: "do_abort doThrow r tx st \<noteq> Inr (Committed, tx', s')" for r st
    by (cases st) (auto simp: do_abort_def rbind_eq_Inr_iff)
  from c w0 l na have ok by (auto simp: commit_active_def Let_def split: if_splits)
  with c w0 l obtain tid s2 where g: "(if wis = [] then Inr (0, s1) else gen_commit_tid tx wis s1) = Inr (tid, s2)"
    by (auto simp: commit_active_def rbind_eq_Inr_iff Let_def)
  then have s2: "theap s2 = theap s1" "node_ver s2 = node_ver s1"
    by (auto dest: gen_commit_tid_state split: if_splits)
  from c w0 l g \<open>ok\<close> obtain valid where v: "for_each (validate_read wis s2) (read_set tx) True = Inr valid"
    by (auto simp: commit_active_def rbind_eq_Inr_iff Let_def)
  from c w0 l g \<open>ok\<close> v na have ok2: "valid" "validate_absent s2 tx" "t_state tx' = TXN_COMMITED"
    by (auto simp: commit_active_def rbind_eq_Inr_iff Let_def split: if_splits)
  note lk = commit_active_locked [OF w0 l]
  have "\<exists>d. cells (theap s) (r_tuple r) = Some d \<and> IsLatest (hdr d) \<and> tver d \<le> r_tid r \<and>
      (if r_tuple r \<in> w_tuple ` set (write_set tx)
       then r_tuple r \<in> w_tuple ` {e \<in> set (write_set tx). w_insert e} \<or> \<not> IsLocked (hdr d)
       else \<not> IsWriteIntent (hdr d) \<and> \<not> IsModifying (hdr d))" if r: "r \<in> set (read_set tx)" for r
  proof -
    from v ok2(1) have "for_each (validate_read wis s2) (read_set tx) True = Inr True" by simp
    from validate_reads [OF this] r obtain d1 where
      d1: "cells (theap s1) (r_tuple r) = Some d1" "IsLatest (hdr d1)" "tver d1 \<le> r_tid r"
        "r_tuple r \<in> wi_tuple ` set wis \<or> \<not> IsWriteIntent (hdr d1) \<and> \<not> IsModifying (hdr d1)"
      unfolding s2 by blast
    obtain d where d: "cells (theap s) (r_tuple r) = Some d" "tver d = tver d1" "IsLatest (hdr d) = IsLatest (hdr d1)"
      by (rule contents_versions [OF lk(1,2) d1(1)])
    show ?thesis
    proof (cases "r_tuple r \<in> w_tuple ` set (write_set tx)")
      case False
      with d1 d lk(7) lk(8) [of "r_tuple r"] show ?thesis by simp
    next
      case True
      have "map wi_tuple wis = map wi_tuple (sort_key wi_key wis0)"
        using lock_write_nodes_ext [OF l] by (intro same_infos_tuples(1)) (simp add: lock_ext_def)
      from arg_cong [OF this, of set] have "wi_tuple ` set (sort_key wi_key wis0) = wi_tuple ` set wis" by simp
      then have "r_tuple r \<in> wi_tuple ` set (sort_key wi_key wis0)" using True lk(7) by simp
      moreover have "lock_write_nodes (sort_key wi_key wis0, write_set tx, s) = Inr (True, wis, ws, s1)" using l \<open>ok\<close> by simp
      ultimately have "r_tuple r \<in> held wis" by (rule lock_write_nodes_all [rotated])
      with lk(9) [OF this] True d1 d show ?thesis by (auto simp: locked_tuple_def)
    qed
  qed
  with ok2 lk(4) s2 show ?thesis by (auto simp: validate_absent_def)
qed

text \<open>
  C7.  An aborted commit leaves no trace.  When \<^verbatim>\<open>commit\<close> does not commit, no record has changed its
  identifier, bytes or links; every lock it took, and every lock of a tuple it had inserted, is
  released; and the indexes have lost exactly its tentative insertions, none of which was committed.
\<close>

theorem aborted_commit_leaves_no_trace:
  assumes "silo_commit doThrow tx s = Inr (out, tx', s')" and "out \<noteq> Committed" and "t_state tx = TXN_ACTIVE"
  shows "contents (theap s') = contents (theap s) \<and>
    (\<forall>p. locked_tuple (theap s') p \<longrightarrow> locked_tuple (theap s) p) \<and>
    (\<forall>e \<in> set (write_set tx). w_insert e \<longrightarrow> \<not> locked_tuple (theap s') (w_tuple e)) \<and>
    trees_cleaned (write_set tx) s s' \<and> t_state tx' = TXN_ABRT"
proof -
  from assms have c: "commit_active doThrow tx s = Inr (out, tx', s')"
    by (auto simp: silo_commit_def rbind_eq_Inr_iff split: if_splits)
  then obtain wis0 where w0: "copy_write_set (write_set tx) s = Inr wis0" by (auto simp: commit_active_def rbind_eq_Inr_iff)
  from c w0 obtain ok wis ws s1 where l: "lock_write_nodes (sort_key wi_key wis0, write_set tx, s) = Inr (ok, wis, ws, s1)"
    by (auto simp: commit_active_def rbind_eq_Inr_iff Let_def)
  obtain r s2 where s2: "theap s2 = theap s1" "trees s2 = trees s1" and a: "do_abort doThrow r tx (wis, ws, s2) = Inr (out, tx', s')"
  proof (cases ok)
    case False
    with c w0 l that show thesis by (auto simp: commit_active_def Let_def)
  next
    case True
    with c w0 l obtain tid s2 where g: "(if wis = [] then Inr (0, s1) else gen_commit_tid tx wis s1) = Inr (tid, s2)"
      by (auto simp: commit_active_def rbind_eq_Inr_iff Let_def)
    then have e: "theap s2 = theap s1" "trees s2 = trees s1"
      by (auto dest: gen_commit_tid_state split: if_splits)
    from c w0 l g True obtain valid where v: "for_each (validate_read wis s2) (read_set tx) True = Inr valid"
      by (auto simp: commit_active_def rbind_eq_Inr_iff Let_def)
    from c w0 l g True v assms(2) that [OF e] show thesis
      by (auto simp: commit_active_def rbind_eq_Inr_iff Let_def split: if_splits)
  qed
  from a have f: "for_each (abort_locked ws) wis s2 = Inr s'" "t_state tx' = TXN_ABRT"
    by (auto simp: do_abort_def rbind_eq_Inr_iff)
  note x = abort_all_ext [OF f(1)] and lk = commit_active_locked [OF w0 l]
  from x lk(5) s2 have "locked_tuple (theap s) p" if "locked_tuple (theap s') p" for p
    using that unfolding abort_ext_def by fastforce
  moreover have "contents (theap s') = contents (theap s)" using x lk(1) s2 by (simp add: abort_ext_def)
  moreover have "trees_cleaned (write_set tx) s s'"
    using aborted_trees [OF w0 l f(1)] lk(1,3) s2 by simp
  moreover have "\<not> locked_tuple (theap s') (w_tuple e)" if "e \<in> set (write_set tx)" "w_insert e" for e
    using x lk(6) that unfolding abort_ext_def by blast
  ultimately show ?thesis using f(2) by blast
qed


text \<open>One committed record under the key \<open>[1]\<close>, for the witnesses.\<close>

definition one_record :: silo where
  "one_record = (empty_silo 0)\<lparr>theap := \<lparr>cells = [0 \<mapsto> \<lparr>hdr = 16, tver = 5, tsize = 1, talloc = 8, tnext = None,
     tval = [9, 0, 0, 0, 0, 0, 0, 0]\<rparr>], brk = 1, rcu_freed = []\<rparr>, trees := (\<lambda>_. [[1] \<mapsto> 0])\<rparr>"

definition reading_txn :: "u64 \<Rightarrow> transaction" where
  "reading_txn t = (new_transaction 0 0)\<lparr>t_state := TXN_ACTIVE, read_set := [\<lparr>r_tuple = 0, r_tid = t\<rparr>]\<rparr>"

lemmas hdr_mask_defs = HDR_LOCKED_MASK_def HDR_DELETING_MASK_def HDR_WRITE_INTENT_MASK_def HDR_MODIFYING_MASK_def
  HDR_LATEST_MASK_def HDR_VERSION_SHIFT_def HDR_VERSION_MASK_def

lemmas commit_evals = silo_commit_def commit_active_def copy_write_set_def lock_write_nodes_def validate_read_def
  validate_absent_def sorted_dbtuples_contains_def stable_is_latest_version_def is_latest_version_def
  is_not_behind_def writer_check_version_def one_record_def reading_txn_def new_transaction_def empty_silo_def
  is_snapshot_def IsWriteIntent_def IsModifying_def IsLatest_def IsLocked_def hdr_mask_defs do_abort_def Let_def

theorem commit_validates_reads_witness:
  "\<exists>tx'. silo_commit False (reading_txn 5) one_record = Inr (Committed, tx', one_record) \<and> t_state tx' = TXN_COMMITED"
proof -
  obtain tx' where c: "silo_commit False (reading_txn 5) one_record = Inr (Committed, tx', one_record)"
    by (simp add: commit_evals)
  from commit_validates_reads [OF c] c show ?thesis by (simp add: reading_txn_def new_transaction_def is_snapshot_def)
qed

text \<open>
  A transaction that read version 4 and has inserted a record under the key \<open>[2]\<close>: at its commit it finds
  version 5, gives up, and takes its record out of the index.
\<close>

definition two_records :: silo where
  "two_records = one_record\<lparr>theap := (theap one_record)\<lparr>cells := (cells (theap one_record))(1 \<mapsto> \<lparr>hdr = 21, tver = MAX_TID,
     tsize = 1, talloc = 8, tnext = None, tval = [7, 0, 0, 0, 0, 0, 0, 0]\<rparr>), brk := 2\<rparr>, trees := (\<lambda>_. [[1] \<mapsto> 0, [2] \<mapsto> 1])\<rparr>"

definition stale_txn :: transaction where
  "stale_txn = (reading_txn 4)\<lparr>write_set := [\<lparr>w_tuple = 1, w_key = [2], w_val = Some [7], w_btr = 0, w_insert = True,
     w_do_write = False\<rparr>]\<rparr>"

lemma stale_txn_aborts: "\<exists>tx' s'. silo_commit False stale_txn two_records = Inr (Aborted, tx', s')"
proof -
  have c: "hdr_clear_latest 21 = Inr 5"
    by (simp add: hdr_clear_latest_def IsLatest_def IsLocked_def IsWriteIntent_def hdr_mask_defs)
  have "IsLocked 5" by (simp add: IsLocked_def HDR_LOCKED_MASK_def)
  then obtain v where "hdr_unlock 5 = Inr v" using hdr_unlock_defined by blast
  with c show ?thesis
    by (simp add: commit_evals stale_txn_def two_records_def lock_round_def handle_last_tuple_in_group_def
        set_do_write_def gen_commit_tid_def tid_of_write_def tid_of_read_def abort_locked_def on_heap_def on_hdr_def
        cleanup_inserted_tuple_marker_def release_def
        MIN_TID_def MAX_TID_def EpochId_drop_bit can_read_tid_def
        MakeTid_def NumIdShift_def EpochShift_def CoreBits_def NBitsNumber_def wi_key_def)
qed

theorem aborted_commit_leaves_no_trace_witness:
  "\<exists>tx' s'. silo_commit False stale_txn two_records = Inr (Aborted, tx', s') \<and> contents (theap s') = contents (theap two_records) \<and>
     trees s' 0 [2] = None \<and> trees s' 0 [1] = Some 0 \<and> \<not> locked_tuple (theap s') 1"
proof -
  obtain tx' s' where c: "silo_commit False stale_txn two_records = Inr (Aborted, tx', s')" using stale_txn_aborts by blast
  have a: "t_state stale_txn = TXN_ACTIVE" by (simp add: stale_txn_def reading_txn_def)
  from aborted_commit_leaves_no_trace [OF c _ a] c show ?thesis
    by (simp add: trees_cleaned_def stale_txn_def) (simp add: two_records_def)
qed

end
