(* ===== verification/Silo_Vector.thy ===== *)
theory Silo_Vector
  imports Rolis_Prelude
begin

text \<open>
  The vectors of Silo's read and write sets: \<^verbatim>\<open>static_vector\<close> (\<^verbatim>\<open>src/static_vector.h\<close>), an array of
  fixed capacity inside the object, and \<^verbatim>\<open>silo_small_vector\<close> (\<^verbatim>\<open>src/silo_small_vector.h\<close>), which starts
  in such an array and moves to a \<^verbatim>\<open>std::vector\<close> when the array is full.  The array is raw memory, a
  list of options: \<open>None\<close> is memory no element was constructed in.  Reading it, or outside of it, is an
  error.  The parameter \<open>td\<close> is the compile-time constant \<^verbatim>\<open>is_trivially_destructible\<close>: destructors run
  only without it.  Both classes fulfil the contract of a vector; the iterators fulfil the contract of
  a range, which gives the loop \<^verbatim>\<open>for (it = begin(); it != end(); ++it)\<close>.
\<close>

section \<open>Raw memory\<close>

definition raw_at :: "'a option list \<Rightarrow> int \<Rightarrow> 'a result" where
  "raw_at buf i = (if 0 \<le> i \<and> i < int (length buf)
     then case buf ! nat i of None \<Rightarrow> Inl Out_Of_Bounds | Some x \<Rightarrow> Inr x else Inl Out_Of_Bounds)"

definition raw_put :: "'a option list \<Rightarrow> nat \<Rightarrow> 'a option \<Rightarrow> 'a option list result" where
  "raw_put buf i x = (if i < length buf then Inr (buf[i := x]) else Inl Out_Of_Bounds)"

definition raw_take :: "nat \<Rightarrow> 'a option list \<Rightarrow> 'a list result" where
  "raw_take n buf = (if n \<le> length buf \<and> None \<notin> set (take n buf) then Inr (map the (take n buf))
     else Inl Out_Of_Bounds)"

definition raw_store :: "'a list \<Rightarrow> 'a option list \<Rightarrow> 'a option list" where
  "raw_store xs buf = map Some xs @ drop (length xs) buf"

definition raw_destroy :: "bool \<Rightarrow> nat \<Rightarrow> 'a option list \<Rightarrow> 'a option list" where
  "raw_destroy td n buf = (if td then buf else replicate n None @ drop n buf)"

definition std_at :: "'a list \<Rightarrow> int \<Rightarrow> 'a result" where
  "std_at xs i = (if 0 \<le> i then vec_at xs (nat i) else Inl Out_Of_Bounds)"

section \<open>The static vector\<close>

record 'a static_vector =
  st_n :: nat
  st_buf :: "'a option list"

definition st_new :: "nat \<Rightarrow> 'a static_vector" where
  "st_new StaticSize = \<lparr>st_n = 0, st_buf = replicate StaticSize None\<rparr>"

definition st_size :: "'a static_vector \<Rightarrow> nat" where "st_size v = st_n v"

definition st_empty :: "'a static_vector \<Rightarrow> bool" where "st_empty v \<longleftrightarrow> st_n v = 0"

definition st_front :: "'a static_vector \<Rightarrow> 'a result" where
  "st_front v = rbind (rassert (0 < st_n v)) (\<lambda>_. rbind (rassert (st_n v \<le> length (st_buf v))) (\<lambda>_.
     raw_at (st_buf v) 0))"

definition st_back :: "'a static_vector \<Rightarrow> 'a result" where
  "st_back v = rbind (rassert (0 < st_n v)) (\<lambda>_. rbind (rassert (st_n v \<le> length (st_buf v))) (\<lambda>_.
     raw_at (st_buf v) (int (st_n v) - 1)))"

definition st_pop_back :: "bool \<Rightarrow> 'a static_vector \<Rightarrow> 'a static_vector result" where
  "st_pop_back td v = rbind (rassert (0 < st_n v)) (\<lambda>_.
     rbind (if td then Inr (st_buf v) else raw_put (st_buf v) (st_n v - 1) None) (\<lambda>buf.
     Inr \<lparr>st_n = st_n v - 1, st_buf = buf\<rparr>))"

definition st_emplace_back :: "'a \<Rightarrow> 'a static_vector \<Rightarrow> 'a static_vector result" where
  "st_emplace_back x v = rbind (rassert (st_n v < length (st_buf v))) (\<lambda>_.
     rbind (raw_put (st_buf v) (st_n v) (Some x)) (\<lambda>buf. Inr \<lparr>st_n = st_n v + 1, st_buf = buf\<rparr>))"

definition st_of_list :: "nat \<Rightarrow> 'a list \<Rightarrow> 'a static_vector result" where
  "st_of_list StaticSize l = for_each st_emplace_back l (st_new StaticSize)"

definition st_index :: "int \<Rightarrow> 'a static_vector \<Rightarrow> 'a result" where
  "st_index i v = raw_at (st_buf v) i"

definition st_clear :: "bool \<Rightarrow> 'a static_vector \<Rightarrow> 'a static_vector" where
  "st_clear td v = \<lparr>st_n = 0, st_buf = raw_destroy td (st_n v) (st_buf v)\<rparr>"

definition st_resize :: "bool \<Rightarrow> nat \<Rightarrow> 'a \<Rightarrow> 'a static_vector \<Rightarrow> 'a static_vector result" where
  "st_resize td m val v = rbind (rassert (m \<le> length (st_buf v))) (\<lambda>_.
     if st_n v < m then for_each st_emplace_back (replicate (m - st_n v) val) v
     else for_each (\<lambda>_. st_pop_back td) [m..<st_n v] v)"

definition st_sort :: "'a::linorder static_vector \<Rightarrow> 'a static_vector result" where
  "st_sort v = rbind (raw_take (st_n v) (st_buf v)) (\<lambda>xs. Inr (v\<lparr>st_buf := raw_store (sort xs) (st_buf v)\<rparr>))"

definition st_assignFrom :: "bool \<Rightarrow> 'a static_vector \<Rightarrow> 'a static_vector \<Rightarrow> 'a static_vector result" where
  "st_assignFrom td that v = (let v = st_clear td v in
     rbind (rassert (st_n that \<le> length (st_buf v))) (\<lambda>_. rbind (raw_take (st_n that) (st_buf that)) (\<lambda>xs.
     Inr \<lparr>st_n = st_n that, st_buf = raw_store xs (st_buf v)\<rparr>)))"

text \<open>An iterator is a pointer into the array, kept as an offset.\<close>

definition st_begin :: "'a static_vector \<Rightarrow> int" where "st_begin v = 0"

definition st_end :: "'a static_vector \<Rightarrow> int" where "st_end v = int (st_n v)"

definition st_deref :: "'a static_vector \<Rightarrow> int \<Rightarrow> 'a result" where "st_deref v p = raw_at (st_buf v) p"

definition st_incr :: "int \<Rightarrow> int" where "st_incr p = p + 1"

section \<open>The small vector\<close>

record 'a small_vector =
  sm_n :: nat
  sm_buf :: "'a option list"
  large_elems :: "'a list option"

definition sm_new :: "nat \<Rightarrow> 'a small_vector" where
  "sm_new SmallSize = \<lparr>sm_n = 0, sm_buf = replicate SmallSize None, large_elems = None\<rparr>"

definition sm_size :: "'a small_vector \<Rightarrow> nat" where
  "sm_size v = (case large_elems v of Some xs \<Rightarrow> length xs | None \<Rightarrow> sm_n v)"

definition sm_empty :: "'a small_vector \<Rightarrow> bool" where "sm_empty v \<longleftrightarrow> sm_size v = 0"

definition sm_front :: "'a small_vector \<Rightarrow> 'a result" where
  "sm_front v = (case large_elems v of Some xs \<Rightarrow> vec_at xs 0
   | None \<Rightarrow> rbind (rassert (0 < sm_n v)) (\<lambda>_. rbind (rassert (sm_n v \<le> length (sm_buf v))) (\<lambda>_.
       raw_at (sm_buf v) 0)))"

definition sm_back :: "'a small_vector \<Rightarrow> 'a result" where
  "sm_back v = (case large_elems v of Some xs \<Rightarrow> std_at xs (int (length xs) - 1)
   | None \<Rightarrow> rbind (rassert (0 < sm_n v)) (\<lambda>_. rbind (rassert (sm_n v \<le> length (sm_buf v))) (\<lambda>_.
       raw_at (sm_buf v) (int (sm_n v) - 1))))"

definition sm_pop_back :: "bool \<Rightarrow> 'a small_vector \<Rightarrow> 'a small_vector result" where
  "sm_pop_back td v = (case large_elems v of
     Some xs \<Rightarrow> if xs = [] then Inl Out_Of_Bounds else Inr (v\<lparr>large_elems := Some (butlast xs)\<rparr>)
   | None \<Rightarrow> rbind (rassert (0 < sm_n v)) (\<lambda>_.
       rbind (if td then Inr (sm_buf v) else raw_put (sm_buf v) (sm_n v - 1) None) (\<lambda>buf.
       Inr (v\<lparr>sm_n := sm_n v - 1, sm_buf := buf\<rparr>))))"

definition sm_emplace_back :: "'a \<Rightarrow> 'a small_vector \<Rightarrow> 'a small_vector result" where
  "sm_emplace_back x v = (case large_elems v of
     Some xs \<Rightarrow> rbind (rassert (sm_n v = 0)) (\<lambda>_. Inr (v\<lparr>large_elems := Some (xs @ [x])\<rparr>))
   | None \<Rightarrow>
       if sm_n v = length (sm_buf v) then rbind (raw_take (sm_n v) (sm_buf v)) (\<lambda>xs.
         Inr (v\<lparr>large_elems := Some (xs @ [x]), sm_n := 0\<rparr>))
       else rbind (rassert (sm_n v < length (sm_buf v))) (\<lambda>_.
         rbind (raw_put (sm_buf v) (sm_n v) (Some x)) (\<lambda>buf. Inr (v\<lparr>sm_n := sm_n v + 1, sm_buf := buf\<rparr>))))"

definition sm_of_list :: "nat \<Rightarrow> 'a list \<Rightarrow> 'a small_vector result" where
  "sm_of_list SmallSize l = (if SmallSize < length l then Inr ((sm_new SmallSize)\<lparr>large_elems := Some l\<rparr>)
     else for_each sm_emplace_back l (sm_new SmallSize))"

definition sm_index :: "int \<Rightarrow> 'a small_vector \<Rightarrow> 'a result" where
  "sm_index i v = (case large_elems v of Some xs \<Rightarrow> std_at xs i | None \<Rightarrow> raw_at (sm_buf v) i)"

definition sm_clear :: "bool \<Rightarrow> 'a small_vector \<Rightarrow> 'a small_vector result" where
  "sm_clear td v = (case large_elems v of
     Some xs \<Rightarrow> rbind (rassert (sm_n v = 0)) (\<lambda>_. Inr (v\<lparr>large_elems := Some []\<rparr>))
   | None \<Rightarrow> Inr (v\<lparr>sm_n := 0, sm_buf := raw_destroy td (sm_n v) (sm_buf v)\<rparr>))"

definition sm_clearDestructive :: "bool \<Rightarrow> 'a small_vector \<Rightarrow> 'a small_vector result" where
  "sm_clearDestructive td v = (case large_elems v of
     Some xs \<Rightarrow> rbind (rassert (sm_n v = 0)) (\<lambda>_. Inr (v\<lparr>large_elems := None\<rparr>))
   | None \<Rightarrow> Inr (v\<lparr>sm_n := 0, sm_buf := raw_destroy td (sm_n v) (sm_buf v)\<rparr>))"

definition is_small_type :: "'a small_vector \<Rightarrow> bool" where
  "is_small_type v \<longleftrightarrow> large_elems v = None"

definition sm_sort :: "'a::linorder small_vector \<Rightarrow> 'a small_vector result" where
  "sm_sort v = (case large_elems v of Some xs \<Rightarrow> Inr (v\<lparr>large_elems := Some (sort xs)\<rparr>)
   | None \<Rightarrow> rbind (raw_take (sm_n v) (sm_buf v)) (\<lambda>xs. Inr (v\<lparr>sm_buf := raw_store (sort xs) (sm_buf v)\<rparr>)))"

definition sm_assignFrom :: "bool \<Rightarrow> 'a small_vector \<Rightarrow> 'a small_vector \<Rightarrow> 'a small_vector result" where
  "sm_assignFrom td that v = rbind (sm_clearDestructive td v) (\<lambda>v. case large_elems that of
     Some xs \<Rightarrow> Inr (v\<lparr>large_elems := Some xs\<rparr>)
   | None \<Rightarrow> rbind (rassert (sm_n that \<le> length (sm_buf v))) (\<lambda>_.
       rbind (raw_take (sm_n that) (sm_buf that)) (\<lambda>xs.
       Inr (v\<lparr>sm_n := sm_n that, sm_buf := raw_store xs (sm_buf v)\<rparr>))))"

subsection \<open>Its iterators\<close>

text \<open>
  An iterator holds a pointer into the array or an iterator of the \<^verbatim>\<open>std::vector\<close>, both kept as
  offsets; the other one is default-constructed.  An operation that reads a default-constructed iterator
  of the \<^verbatim>\<open>std::vector\<close> is undefined, and so is the order of a pointer and the null pointer.
\<close>

datatype sm_iter = Small_It int | Large_It int

fun sm_it_eq :: "sm_iter \<Rightarrow> sm_iter \<Rightarrow> bool result" where
  "sm_it_eq (Large_It p) (Large_It q) = Inr (p = q)"
| "sm_it_eq (Large_It p) (Small_It q) = Inl Out_Of_Bounds"
| "sm_it_eq (Small_It p) (Small_It q) = Inr (p = q)"
| "sm_it_eq (Small_It p) (Large_It q) = Inr False"

definition sm_it_neq :: "sm_iter \<Rightarrow> sm_iter \<Rightarrow> bool result" where
  "sm_it_neq a b = rbind (sm_it_eq a b) (\<lambda>r. Inr (\<not> r))"

fun sm_it_less :: "sm_iter \<Rightarrow> sm_iter \<Rightarrow> bool result" where
  "sm_it_less (Large_It p) (Large_It q) = Inr (p < q)"
| "sm_it_less (Small_It p) (Small_It q) = Inr (p < q)"
| "sm_it_less _ _ = Inl Out_Of_Bounds"

definition sm_it_ge :: "sm_iter \<Rightarrow> sm_iter \<Rightarrow> bool result" where
  "sm_it_ge a b = rbind (sm_it_less a b) (\<lambda>r. Inr (\<not> r))"

fun sm_it_greater :: "sm_iter \<Rightarrow> sm_iter \<Rightarrow> bool result" where
  "sm_it_greater (Large_It p) (Large_It q) = Inr (q < p)"
| "sm_it_greater (Small_It p) (Small_It q) = Inr (q < p)"
| "sm_it_greater _ _ = Inl Out_Of_Bounds"

definition sm_it_le :: "sm_iter \<Rightarrow> sm_iter \<Rightarrow> bool result" where
  "sm_it_le a b = rbind (sm_it_greater a b) (\<lambda>r. Inr (\<not> r))"

fun sm_it_plus :: "sm_iter \<Rightarrow> int \<Rightarrow> sm_iter" where
  "sm_it_plus (Large_It p) n = Large_It (p + n)"
| "sm_it_plus (Small_It p) n = Small_It (p + n)"

fun sm_it_minus :: "sm_iter \<Rightarrow> int \<Rightarrow> sm_iter" where
  "sm_it_minus (Large_It p) n = Large_It (p - n)"
| "sm_it_minus (Small_It p) n = Small_It (p - n)"

fun sm_it_diff :: "sm_iter \<Rightarrow> sm_iter \<Rightarrow> int result" where
  "sm_it_diff (Large_It p) (Large_It q) = Inr (p - q)"
| "sm_it_diff (Small_It p) (Small_It q) = Inr (p - q)"
| "sm_it_diff _ _ = Inl Out_Of_Bounds"

fun sm_it_incr :: "sm_iter \<Rightarrow> sm_iter" where
  "sm_it_incr (Large_It p) = Large_It (p + 1)"
| "sm_it_incr (Small_It p) = Small_It (p + 1)"

fun sm_it_decr :: "sm_iter \<Rightarrow> sm_iter" where
  "sm_it_decr (Large_It p) = Large_It (p - 1)"
| "sm_it_decr (Small_It p) = Small_It (p - 1)"

fun sm_it_deref :: "'a small_vector \<Rightarrow> sm_iter \<Rightarrow> 'a result" where
  "sm_it_deref v (Large_It p) = (case large_elems v of Some xs \<Rightarrow> std_at xs p | None \<Rightarrow> Inl Out_Of_Bounds)"
| "sm_it_deref v (Small_It p) = raw_at (sm_buf v) p"

definition sm_begin :: "'a small_vector \<Rightarrow> sm_iter" where
  "sm_begin v = (case large_elems v of Some xs \<Rightarrow> Large_It 0 | None \<Rightarrow> Small_It 0)"

definition sm_end :: "'a small_vector \<Rightarrow> sm_iter" where
  "sm_end v = (case large_elems v of Some xs \<Rightarrow> Large_It (int (length xs)) | None \<Rightarrow> Small_It (int (sm_n v)))"

section \<open>The contract of a vector\<close>

text \<open>
  \<open>ok\<close> is the invariant of the class and \<open>elems\<close> the list a vector stands for; \<open>room\<close> says that a push
  may succeed.  A sequence of operations on a vector is then a sequence of operations on that list.
\<close>

datatype 'a vec_op = Push 'a | Pop | Clear

primrec list_op :: "'a vec_op \<Rightarrow> 'a list \<Rightarrow> 'a list result" where
  "list_op (Push x) xs = Inr (xs @ [x])"
| "list_op Pop xs = (if xs = [] then Inl Out_Of_Bounds else Inr (butlast xs))"
| "list_op Clear xs = Inr []"

primrec vec_op_step ::
  "('a \<Rightarrow> 'v \<Rightarrow> 'v result) \<Rightarrow> ('v \<Rightarrow> 'v result) \<Rightarrow> ('v \<Rightarrow> 'v result) \<Rightarrow> 'a vec_op \<Rightarrow> 'v \<Rightarrow> 'v result" where
  "vec_op_step push pop clr (Push x) = push x"
| "vec_op_step push pop clr Pop = pop"
| "vec_op_step push pop clr Clear = clr"

locale vector_contract =
  fixes ok :: "'v \<Rightarrow> bool" and elems :: "'v \<Rightarrow> 'a list" and room :: "'v \<Rightarrow> bool"
    and push :: "'a \<Rightarrow> 'v \<Rightarrow> 'v result" and pop :: "'v \<Rightarrow> 'v result" and clr :: "'v \<Rightarrow> 'v result"
    and index :: "int \<Rightarrow> 'v \<Rightarrow> 'a result" and vsize :: "'v \<Rightarrow> nat"
  assumes push_law: "ok v \<Longrightarrow> room v \<Longrightarrow> \<exists>v'. push x v = Inr v' \<and> ok v' \<and> elems v' = elems v @ [x]"
    and pop_law: "ok v \<Longrightarrow> elems v \<noteq> [] \<Longrightarrow> \<exists>v'. pop v = Inr v' \<and> ok v' \<and> elems v' = butlast (elems v)"
    and clr_law: "ok v \<Longrightarrow> \<exists>v'. clr v = Inr v' \<and> ok v' \<and> elems v' = []"
    and index_law: "ok v \<Longrightarrow> i < length (elems v) \<Longrightarrow> index (int i) v = Inr (elems v ! i)"
    and vsize_law: "ok v \<Longrightarrow> vsize v = length (elems v)"
begin

lemma op_refines:
  assumes "ok v" and "list_op op (elems v) = Inr ys" and "\<And>x. op = Push x \<Longrightarrow> room v"
  shows "\<exists>v'. vec_op_step push pop clr op v = Inr v' \<and> ok v' \<and> elems v' = ys"
  using assms push_law pop_law clr_law by (cases op) (auto split: if_splits)

lemma reads_back:
  assumes "ok v" and "elems v = ys"
  shows "vsize v = length ys \<and> (\<forall>i < length ys. index (int i) v = Inr (ys ! i))"
  using assms index_law vsize_law by auto

end

text \<open>A vector that always has room.\<close>

locale growing_vector = vector_contract +
  assumes room_law: "ok v \<Longrightarrow> room v"
begin

lemma ops_refine:
  assumes "ok v" and "for_each list_op ops (elems v) = Inr ys"
  shows "\<exists>v'. for_each (vec_op_step push pop clr) ops v = Inr v' \<and> ok v' \<and> elems v' = ys"
  using assms
proof (induction ops arbitrary: v)
  case Nil
  then show ?case by simp
next
  case (Cons op ops)
  from Cons.prems obtain zs where z: "list_op op (elems v) = Inr zs" "for_each list_op ops zs = Inr ys"
    by (auto simp: rbind_eq_Inr_iff)
  from op_refines [OF Cons.prems(1) z(1)] room_law [OF Cons.prems(1)] obtain v1
    where "vec_op_step push pop clr op v = Inr v1" "ok v1" "elems v1 = zs" by auto
  with Cons.IH [of v1] z(2) show ?case by simp
qed

lemma push_all:
  assumes "ok v"
  shows "\<exists>v'. for_each push xs v = Inr v' \<and> ok v' \<and> elems v' = elems v @ xs"
  using assms
proof (induction xs arbitrary: v)
  case Nil
  then show ?case by simp
next
  case (Cons x xs)
  from push_law [OF Cons.prems room_law [OF Cons.prems]] obtain v1
    where "push x v = Inr v1" "ok v1" "elems v1 = elems v @ [x]" by blast
  with Cons.IH [of v1] show ?case by simp
qed

end

section \<open>The contract of a range\<close>

text \<open>
  The loop \<^verbatim>\<open>for (it = begin(); it != end(); ++it)\<close> collects what it reads; a loop that has not ended
  after \<open>fuel\<close> rounds is \<open>Spins\<close>.  \<open>at\<close> gives the iterator \<open>k\<close> steps behind the beginning.
\<close>

fun walk :: "nat \<Rightarrow> ('i \<Rightarrow> 'i \<Rightarrow> bool result) \<Rightarrow> ('i \<Rightarrow> 'i) \<Rightarrow> ('i \<Rightarrow> 'a result) \<Rightarrow> 'i \<Rightarrow> 'i \<Rightarrow> 'a list result" where
  "walk 0 eq incr deref cur stop = Inl Spins"
| "walk (Suc fuel) eq incr deref cur stop = rbind (eq cur stop) (\<lambda>e. if e then Inr [] else
     rbind (deref cur) (\<lambda>x. rbind (walk fuel eq incr deref (incr cur) stop) (\<lambda>xs. Inr (x # xs))))"

locale range_contract =
  fixes ok :: "'v \<Rightarrow> bool" and elems :: "'v \<Rightarrow> 'a list" and start :: "'v \<Rightarrow> 'i" and stop :: "'v \<Rightarrow> 'i"
    and eq :: "'i \<Rightarrow> 'i \<Rightarrow> bool result" and incr :: "'v \<Rightarrow> 'i \<Rightarrow> 'i" and deref :: "'v \<Rightarrow> 'i \<Rightarrow> 'a result"
    and at :: "'v \<Rightarrow> nat \<Rightarrow> 'i"
  assumes start_law: "ok v \<Longrightarrow> start v = at v 0"
    and stop_law: "ok v \<Longrightarrow> k \<le> length (elems v) \<Longrightarrow> eq (at v k) (stop v) = Inr (k = length (elems v))"
    and incr_law: "ok v \<Longrightarrow> k < length (elems v) \<Longrightarrow> incr v (at v k) = at v (Suc k)"
    and deref_law: "ok v \<Longrightarrow> k < length (elems v) \<Longrightarrow> deref v (at v k) = Inr (elems v ! k)"
begin

lemma walk_from:
  assumes "ok v" and "k \<le> length (elems v)" and "length (elems v) - k < fuel"
  shows "walk fuel eq (incr v) (deref v) (at v k) (stop v) = Inr (drop k (elems v))"
  using assms
proof (induction fuel arbitrary: k)
  case 0
  then show ?case by simp
next
  case (Suc fuel)
  show ?case
  proof (cases "k = length (elems v)")
    case True
    with Suc.prems(1) show ?thesis by (simp add: stop_law)
  next
    case False
    with Suc.prems have k: "k < length (elems v)" by simp
    with Suc.prems Suc.IH [of "Suc k"] have
      "walk fuel eq (incr v) (deref v) (at v (Suc k)) (stop v) = Inr (drop (Suc k) (elems v))" by simp
    with Suc.prems(1) k show ?thesis
      by (simp add: stop_law incr_law deref_law Cons_nth_drop_Suc)
  qed
qed

lemma walk_all:
  "ok v \<Longrightarrow> length (elems v) < fuel \<Longrightarrow> walk fuel eq (incr v) (deref v) (start v) (stop v) = Inr (elems v)"
  using walk_from [of v 0 fuel] by (simp add: start_law)

end

section \<open>The vectors fulfil the contracts\<close>

definition raw_ok :: "nat \<Rightarrow> 'a option list \<Rightarrow> bool" where
  "raw_ok n buf \<longleftrightarrow> n \<le> length buf \<and> (\<forall>i < n. buf ! i \<noteq> None)"

definition raw_elems :: "nat \<Rightarrow> 'a option list \<Rightarrow> 'a list" where
  "raw_elems n buf = map the (take n buf)"

definition st_ok :: "'a static_vector \<Rightarrow> bool" where "st_ok v \<longleftrightarrow> raw_ok (st_n v) (st_buf v)"

definition st_elems :: "'a static_vector \<Rightarrow> 'a list" where "st_elems v = raw_elems (st_n v) (st_buf v)"

definition sm_ok :: "'a small_vector \<Rightarrow> bool" where
  "sm_ok v \<longleftrightarrow> raw_ok (sm_n v) (sm_buf v) \<and> (large_elems v \<noteq> None \<longrightarrow> sm_n v = 0)"

definition sm_elems :: "'a small_vector \<Rightarrow> 'a list" where
  "sm_elems v = (case large_elems v of Some xs \<Rightarrow> xs | None \<Rightarrow> raw_elems (sm_n v) (sm_buf v))"

lemmas st_defs = st_ok_def st_elems_def
lemmas sm_defs = sm_ok_def sm_elems_def

lemma raw_ok_le: "raw_ok n buf \<Longrightarrow> n \<le> length buf"
  by (simp add: raw_ok_def)

lemma raw_ok_0 [simp]: "raw_ok 0 buf"
  by (simp add: raw_ok_def)

lemma raw_elems_0 [simp]: "raw_elems 0 buf = []"
  by (simp add: raw_elems_def)

lemma length_raw_elems [simp]: "raw_ok n buf \<Longrightarrow> length (raw_elems n buf) = n"
  by (simp add: raw_elems_def raw_ok_def)

lemma raw_take_ok: "raw_ok n buf \<Longrightarrow> raw_take n buf = Inr (raw_elems n buf)"
  by (auto simp: raw_take_def raw_ok_def raw_elems_def in_set_conv_nth)

lemma raw_at_ok: "raw_ok n buf \<Longrightarrow> i < n \<Longrightarrow> raw_at buf (int i) = Inr (raw_elems n buf ! i)"
  by (auto simp: raw_at_def raw_ok_def raw_elems_def)

lemma raw_push:
  assumes "raw_ok n buf" and "n < length buf"
  shows "raw_ok (Suc n) (buf[n := Some x])" and "raw_elems (Suc n) (buf[n := Some x]) = raw_elems n buf @ [x]"
  using assms by (auto simp: raw_ok_def raw_elems_def nth_list_update less_Suc_eq take_Suc_conv_app_nth)

lemma raw_pop:
  assumes "raw_ok n buf" and "0 < n"
  shows "raw_ok (n - 1) buf" and "raw_ok (n - 1) (buf[n - 1 := x])"
    and "raw_elems (n - 1) buf = butlast (raw_elems n buf)"
    and "raw_elems (n - 1) (buf[n - 1 := x]) = butlast (raw_elems n buf)"
  using assms by (auto simp: raw_ok_def raw_elems_def butlast_conv_take take_map [symmetric])

lemma raw_store_ok:
  assumes "length xs \<le> length buf"
  shows "raw_ok (length xs) (raw_store xs buf)" and "raw_elems (length xs) (raw_store xs buf) = xs"
    and "length (raw_store xs buf) = length buf"
  using assms by (auto simp: raw_ok_def raw_elems_def raw_store_def nth_append)

lemma length_raw_destroy [simp]: "n \<le> length buf \<Longrightarrow> length (raw_destroy td n buf) = length buf"
  by (simp add: raw_destroy_def)

interpretation st: vector_contract st_ok st_elems "\<lambda>v. st_n v < length (st_buf v)" st_emplace_back
  "st_pop_back td" "\<lambda>v. Inr (st_clear td v)" st_index st_size for td
proof unfold_locales
  fix v :: "'a static_vector" and x
  assume v: "st_ok v" "st_n v < length (st_buf v)"
  then show "\<exists>v'. st_emplace_back x v = Inr v' \<and> st_ok v' \<and> st_elems v' = st_elems v @ [x]"
    by (simp add: st_emplace_back_def raw_put_def st_defs raw_push)
next
  fix v :: "'a static_vector"
  assume v: "st_ok v" "st_elems v \<noteq> []"
  then have n: "0 < st_n v" by (cases "st_n v") (simp_all add: st_defs)
  moreover from n v have "st_n v - 1 < length (st_buf v)" using raw_ok_le by (fastforce simp: st_defs)
  ultimately show "\<exists>v'. st_pop_back td v = Inr v' \<and> st_ok v' \<and> st_elems v' = butlast (st_elems v)"
    using v by (auto simp: st_pop_back_def raw_put_def st_defs raw_pop simp del: One_nat_def)
qed (simp_all add: st_defs st_clear_def st_index_def st_size_def raw_at_ok)

interpretation sm: growing_vector sm_ok sm_elems "\<lambda>v. True" sm_emplace_back "sm_pop_back td" "sm_clear td"
  sm_index sm_size for td
proof unfold_locales
  fix v :: "'a small_vector" and x
  assume v: "sm_ok v"
  show "\<exists>v'. sm_emplace_back x v = Inr v' \<and> sm_ok v' \<and> sm_elems v' = sm_elems v @ [x]"
  proof (cases "large_elems v")
    case None
    show ?thesis
    proof (cases "sm_n v = length (sm_buf v)")
      case True
      with v None raw_take_ok [of "sm_n v" "sm_buf v"] show ?thesis by (simp add: sm_emplace_back_def sm_defs)
    next
      case False
      with v have "sm_n v < length (sm_buf v)" using raw_ok_le by (fastforce simp: sm_defs)
      with v None show ?thesis by (simp add: sm_emplace_back_def raw_put_def sm_defs raw_push)
    qed
  qed (use v in \<open>simp add: sm_emplace_back_def sm_defs\<close>)
next
  fix v :: "'a small_vector"
  assume v: "sm_ok v" "sm_elems v \<noteq> []"
  show "\<exists>v'. sm_pop_back td v = Inr v' \<and> sm_ok v' \<and> sm_elems v' = butlast (sm_elems v)"
  proof (cases "large_elems v")
    case None
    with v have n: "0 < sm_n v" by (cases "sm_n v") (simp_all add: sm_defs)
    moreover from n v have "sm_n v - 1 < length (sm_buf v)" using raw_ok_le by (fastforce simp: sm_defs)
    ultimately show ?thesis
      using v None by (auto simp: sm_pop_back_def raw_put_def sm_defs raw_pop simp del: One_nat_def)
  qed (use v in \<open>simp add: sm_pop_back_def sm_defs\<close>)
qed (auto simp: sm_defs sm_clear_def sm_index_def sm_size_def std_at_def raw_at_ok split: option.splits)

interpretation stw: range_contract st_ok st_elems st_begin st_end "\<lambda>p q. Inr (p = q)" "\<lambda>v. st_incr" st_deref
  "\<lambda>v k. int k"
  by unfold_locales (auto simp: st_defs st_begin_def st_end_def st_incr_def st_deref_def raw_at_ok)

definition sm_it_at :: "'a small_vector \<Rightarrow> nat \<Rightarrow> sm_iter" where
  "sm_it_at v k = (if is_small_type v then Small_It (int k) else Large_It (int k))"

interpretation smw: range_contract sm_ok sm_elems sm_begin sm_end sm_it_eq "\<lambda>v. sm_it_incr" sm_it_deref sm_it_at
  by unfold_locales (auto simp: sm_defs sm_begin_def sm_end_def sm_it_at_def is_small_type_def std_at_def
      raw_at_ok split: option.splits)

section \<open>Copies, sorting and resizing\<close>

lemma sm_sort_ok: "sm_ok v \<Longrightarrow> \<exists>v'. sm_sort v = Inr v' \<and> sm_ok v' \<and> sm_elems v' = sort (sm_elems v)"
  using raw_store_ok [of "sort (raw_elems (sm_n v) (sm_buf v))" "sm_buf v"] raw_ok_le [of "sm_n v" "sm_buf v"]
  by (auto simp: sm_sort_def sm_defs raw_take_ok split: option.splits)

lemma st_sort_ok: "st_ok v \<Longrightarrow> \<exists>v'. st_sort v = Inr v' \<and> st_ok v' \<and> st_elems v' = sort (st_elems v)"
  using raw_store_ok [of "sort (raw_elems (st_n v) (st_buf v))" "st_buf v"] raw_ok_le [of "st_n v" "st_buf v"]
  by (simp add: st_sort_def st_defs raw_take_ok)

lemma sm_assignFrom_ok:
  assumes "sm_ok v" and "sm_ok that" and "length (sm_buf that) = length (sm_buf v)"
  shows "\<exists>v'. sm_assignFrom td that v = Inr v' \<and> sm_ok v' \<and> sm_elems v' = sm_elems that"
proof -
  have n: "sm_n that \<le> length (sm_buf v)" "sm_n v \<le> length (sm_buf v)"
    using assms raw_ok_le [of "sm_n that" "sm_buf that"] raw_ok_le [of "sm_n v" "sm_buf v"] by (simp_all add: sm_ok_def)
  from assms obtain v1 where v1: "sm_clearDestructive td v = Inr v1" "large_elems v1 = None" "sm_n v1 = 0"
    "length (sm_buf v1) = length (sm_buf v)" using n
    by (cases "large_elems v") (auto simp: sm_clearDestructive_def sm_ok_def)
  show ?thesis
  proof (cases "large_elems that")
    case None
    with assms n v1 raw_store_ok [of "raw_elems (sm_n that) (sm_buf that)" "sm_buf v1"] show ?thesis
      by (simp add: sm_assignFrom_def sm_defs raw_take_ok)
  qed (use v1 in \<open>simp add: sm_assignFrom_def sm_defs\<close>)
qed

lemma st_assignFrom_ok:
  assumes "st_ok v" and "st_ok that" and "length (st_buf that) = length (st_buf v)"
  shows "\<exists>v'. st_assignFrom td that v = Inr v' \<and> st_ok v' \<and> st_elems v' = st_elems that"
proof -
  have n: "st_n that \<le> length (st_buf v)" "st_n v \<le> length (st_buf v)"
    using assms raw_ok_le [of "st_n that" "st_buf that"] raw_ok_le [of "st_n v" "st_buf v"] by (simp_all add: st_ok_def)
  with assms raw_store_ok [of "raw_elems (st_n that) (st_buf that)" "st_buf (st_clear td v)"] show ?thesis
    by (simp add: st_assignFrom_def st_clear_def st_defs raw_take_ok Let_def)
qed

lemma sm_new_ok [simp]: "sm_ok (sm_new N)" "sm_elems (sm_new N) = []"
  by (simp_all add: sm_new_def sm_defs)

lemma st_new_ok [simp]: "st_ok (st_new N)" "st_elems (st_new N) = []" "length (st_buf (st_new N)) = N"
  by (simp_all add: st_new_def st_defs)

lemma sm_of_list_ok: "\<exists>v. sm_of_list N l = Inr v \<and> sm_ok v \<and> sm_elems v = l"
proof (cases "N < length l")
  case True
  then show ?thesis by (simp add: sm_of_list_def sm_defs sm_new_def)
next
  case False
  with sm.push_all [of "sm_new N" l] show ?thesis by (simp add: sm_of_list_def)
qed

text \<open>What a static vector of capacity \<open>N\<close> does, on lists: the errors are its assertions.\<close>

primrec bounded_op :: "nat \<Rightarrow> 'a vec_op \<Rightarrow> 'a list \<Rightarrow> 'a list result" where
  "bounded_op N (Push x) xs = rbind (rassert (length xs < N)) (\<lambda>_. Inr (xs @ [x]))"
| "bounded_op N Pop xs = rbind (rassert (xs \<noteq> [])) (\<lambda>_. Inr (butlast xs))"
| "bounded_op N Clear xs = Inr []"

abbreviation st_step :: "bool \<Rightarrow> 'a vec_op \<Rightarrow> 'a static_vector \<Rightarrow> 'a static_vector result" where
  "st_step td \<equiv> vec_op_step st_emplace_back (st_pop_back td) (\<lambda>v. Inr (st_clear td v))"

abbreviation sm_step :: "bool \<Rightarrow> 'a vec_op \<Rightarrow> 'a small_vector \<Rightarrow> 'a small_vector result" where
  "sm_step td \<equiv> vec_op_step sm_emplace_back (sm_pop_back td) (sm_clear td)"

lemma length_st_elems: "st_ok v \<Longrightarrow> length (st_elems v) = st_n v"
  by (simp add: st_defs)

lemma st_step_capacity: "st_ok v \<Longrightarrow> st_step td op v = Inr v' \<Longrightarrow> length (st_buf v') = length (st_buf v)"
  using raw_ok_le [of "st_n v" "st_buf v"]
  by (cases op) (auto simp: st_defs st_emplace_back_def st_pop_back_def st_clear_def raw_put_def
      rbind_eq_Inr_iff split: if_splits)

lemma st_step_bounded:
  assumes "st_ok v" and "length (st_buf v) = N"
  shows "rbind (st_step td op v) (\<lambda>v. Inr (st_elems v)) = bounded_op N op (st_elems v)"
    and "st_step td op v = Inr v' \<Longrightarrow> st_ok v' \<and> length (st_buf v') = N"
proof -
  have "\<exists>v'. st_step td op v = Inr v' \<and> st_ok v' \<and> bounded_op N op (st_elems v) = Inr (st_elems v')
    \<or> st_step td op v = Inl Assert_Fail \<and> bounded_op N op (st_elems v) = Inl Assert_Fail"
  proof (cases op)
    case (Push x)
    then show ?thesis
    proof (cases "st_n v < N")
      case True
      with st.push_law [OF assms(1), of x] assms Push show ?thesis by (auto simp: length_st_elems)
    next
      case False
      with assms Push show ?thesis by (simp add: st_emplace_back_def length_st_elems)
    qed
  next
    case Pop
    show ?thesis
    proof (cases "st_elems v = []")
      case True
      with length_st_elems [OF assms(1)] Pop show ?thesis by (simp add: st_pop_back_def)
    next
      case False
      from st.pop_law [where td = td, OF assms(1) False] obtain v1 where "st_pop_back td v = Inr v1" "st_ok v1"
        "st_elems v1 = butlast (st_elems v)" by blast
      with False Pop show ?thesis by simp
    qed
  next
    case Clear
    with st.clr_law [OF assms(1)] show ?thesis by auto
  qed
  then show "rbind (st_step td op v) (\<lambda>v. Inr (st_elems v)) = bounded_op N op (st_elems v)"
    and "st_step td op v = Inr v' \<Longrightarrow> st_ok v' \<and> length (st_buf v') = N"
    using st_step_capacity [OF assms(1)] assms(2) by auto
qed

lemma st_steps_bounded:
  assumes "st_ok v" and "length (st_buf v) = N"
  shows "rbind (for_each (st_step td) ops v) (\<lambda>v. Inr (st_elems v)) = for_each (bounded_op N) ops (st_elems v)"
  using assms
proof (induction ops arbitrary: v)
  case Nil
  then show ?case by simp
next
  case (Cons op ops)
  show ?case
  proof (cases "st_step td op v")
    case (Inl e)
    with st_step_bounded(1) [OF Cons.prems, of td op, symmetric] show ?thesis by simp
  next
    case (Inr v1)
    with st_step_bounded(2) [OF Cons.prems, of td op v1] Cons.IH [of v1]
      st_step_bounded(1) [OF Cons.prems, of td op, symmetric] show ?thesis by simp
  qed
qed

lemma st_resize_ok:
  assumes "st_ok v" and "m \<le> length (st_buf v)"
  shows "rbind (st_resize td m val v) (\<lambda>v. Inr (st_elems v)) = Inr (take m (st_elems v @ replicate (m - st_n v) val))"
proof (cases "st_n v < m")
  case True
  have b: "for_each (bounded_op N) (map Push (replicate k val)) xs = Inr (xs @ replicate k val)"
    if "length xs + k \<le> N" for N k xs
    using that by (induction k arbitrary: xs) (simp_all add: replicate_app_Cons_same)
  have f: "for_each st_emplace_back l v = for_each (st_step td) (map Push l) v" for l v
    by (induction l arbitrary: v) (simp_all add: rbind_def split: sum.splits)
  from True assms b [of "st_elems v" "m - st_n v" "length (st_buf v)"] show ?thesis
    by (simp add: st_resize_def f st_steps_bounded length_st_elems)
next
  case False
  have b: "for_each (bounded_op N) (replicate k Pop) xs = Inr (take (length xs - k) xs)" if "k \<le> length xs" for N k xs
    using that
  proof (induction k arbitrary: xs)
    case (Suc k)
    then have "xs \<noteq> []" by auto
    moreover from Suc.prems have "take (length xs - 1 - k) (butlast xs) = take (length xs - Suc k) xs"
      by (simp add: butlast_conv_take)
    ultimately show ?case using Suc.prems Suc.IH [of "butlast xs"] by simp
  qed simp
  have f: "for_each (\<lambda>_. st_pop_back td) is v = for_each (st_step td) (replicate (length is) Pop) v" for "is" :: "nat list" and v
    by (induction "is" arbitrary: v) (simp_all add: rbind_def split: sum.splits)
  from False assms b [of "st_n v - m" "st_elems v" "length (st_buf v)"] show ?thesis
    by (simp add: st_resize_def f st_steps_bounded length_st_elems)
qed

section \<open>Properties\<close>

text \<open>
  C32.  \<^verbatim>\<open>silo_small_vector\<close> implements a list: whatever pushes, pops and clears are done, and whether or
  not they move the elements from the array to the heap, the operations succeed when they do on the list,
  and the size, the elements by index and the elements by iteration are those of the list.
\<close>

theorem small_vector_refines_list:
  assumes "sm_ok v" and "for_each list_op ops (sm_elems v) = Inr ys"
  shows "\<exists>v'. for_each (sm_step td) ops v = Inr v' \<and> sm_ok v' \<and> sm_size v' = length ys \<and>
    (\<forall>i < length ys. sm_index (int i) v' = Inr (ys ! i)) \<and>
    walk (Suc (length ys)) sm_it_eq sm_it_incr (sm_it_deref v') (sm_begin v') (sm_end v') = Inr ys"
proof -
  from sm.ops_refine [OF assms] obtain v' where "for_each (sm_step td) ops v = Inr v'" "sm_ok v'" "sm_elems v' = ys"
    by blast
  with sm.reads_back [of v' ys] smw.walk_all [of v' "Suc (length ys)"] show ?thesis by blast
qed

text \<open>A vector with room for two elements that grows and shrinks.\<close>

theorem small_vector_refines_list_witness:
  "\<exists>v'. for_each (sm_step True) [Push (1::nat), Push 2, Push 3, Pop, Push 4] (sm_new 2) = Inr v' \<and> sm_size v' = 3"
proof -
  have "for_each list_op [Push (1::nat), Push 2, Push 3, Pop, Push 4] (sm_elems (sm_new 2)) = Inr [1, 2, 4]" by simp
  from small_vector_refines_list [OF sm_new_ok(1) this, of True] show ?thesis by auto
qed

text \<open>
  \<^verbatim>\<open>static_vector\<close> implements a list of bounded length exactly: a sequence of operations fails, with
  an assertion, when and only when one of them pushes onto a full vector or pops from an empty one, and
  otherwise leaves the elements the list has.
\<close>

theorem static_vector_exact:
  "rbind (for_each (st_step td) ops (st_new N)) (\<lambda>v. Inr (st_elems v)) = for_each (bounded_op N) ops []"
  using st_steps_bounded [of "st_new N" N td ops] by simp

end
