(* ===== verification/Silo_Map.thy ===== *)
theory Silo_Map
  imports Silo_Vector
begin

text \<open>
  The hash maps of Silo's absent sets: \<^verbatim>\<open>static_unordered_map\<close> (\<^verbatim>\<open>src/static_unordered_map.h\<close>), an array of
  buckets chained from a table of pointers, and \<^verbatim>\<open>small_unordered_map\<close> (\<^verbatim>\<open>src/small_unordered_map.h\<close>), which
  moves to a \<^verbatim>\<open>std::unordered_map\<close> when the array is full; and the powers of two of \<^verbatim>\<open>src/log2.hh\<close>, which size
  the table.  A pointer to a bucket is its index in the array; the memory of a bucket that holds no pair is
  \<open>None\<close>.  The hash function, the constant \<^verbatim>\<open>is_eq_expensive\<close> (\<open>ce\<close>) and \<^verbatim>\<open>is_trivially_destructible\<close> (\<open>td\<close>) are
  parameters, as they are for the templates.  The walk along a chain takes as fuel one more than the number
  of buckets: a longer walk has met a bucket twice and never ends, which is \<open>Spins\<close>.
\<close>

section \<open>Powers of two\<close>

text \<open>\<open>bit_len x\<close> is \<^verbatim>\<open>sizeof(long long) * 8 - __builtin_clzll(x)\<close>, the number of bits of \<open>x\<close>.\<close>

fun bit_len :: "nat \<Rightarrow> nat" where
  "bit_len x = (if x = 0 then 0 else Suc (bit_len (x div 2)))"

definition ceil_log2 :: "nat \<Rightarrow> nat" where
  "ceil_log2 x = (let bits = bit_len x in if x = 2 ^ (bits - 1) then bits - 1 else bits)"

definition round_up_to_pow2 :: "nat \<Rightarrow> nat" where
  "round_up_to_pow2 x = (let bits = bit_len x in if x = 2 ^ (bits - 1) then x else 2 ^ bits)"

text \<open>The recursion of the constant version; \<open>None\<close> is its division by zero.\<close>

fun ceil_log2_const :: "nat \<Rightarrow> bool \<Rightarrow> nat option" where
  "ceil_log2_const x exact = (if x = 0 then None else if x = 1 then Some (if exact then 0 else 1)
     else map_option Suc (ceil_log2_const (x div 2) (if x mod 2 = 1 then False else exact)))"

definition round_up_to_pow2_const :: "nat \<Rightarrow> nat option" where
  "round_up_to_pow2_const x = map_option (\<lambda>n. 2 ^ n) (ceil_log2_const x True)"

definition TableSize :: "nat \<Rightarrow> nat" where
  "TableSize small_size = (case round_up_to_pow2_const small_size of Some n \<Rightarrow> n | None \<Rightarrow> 0)"

text \<open>The hash of a pointer, without \<^verbatim>\<open>USE_TOMMY_HASH\<close>.\<close>

definition myhash :: "u64 \<Rightarrow> u64" where
  "myhash t = (let key = drop_bit 3 t; key = NOT key + push_bit 21 key in key XOR drop_bit 24 key)"

section \<open>Buckets\<close>

record ('k, 'v) bucket =
  bnext :: "nat option"
  bh :: u64
  bkv :: "('k \<times> 'v) option"

record ('k, 'v) bucket_table =
  bt_n :: nat
  bt_elems :: "('k, 'v) bucket list"
  bt_table :: "nat option list"

definition bt_new :: "nat \<Rightarrow> ('k, 'v) bucket_table" where
  "bt_new SmallSize = \<lparr>bt_n = 0, bt_elems = replicate SmallSize \<lparr>bnext = None, bh = 0, bkv = None\<rparr>,
     bt_table = replicate (TableSize SmallSize) None\<rparr>"

fun find_in_chain :: "nat \<Rightarrow> bool \<Rightarrow> u64 \<Rightarrow> 'k \<Rightarrow> ('k, 'v) bucket list \<Rightarrow> nat option \<Rightarrow> nat option result" where
  "find_in_chain fuel ce h k es None = Inr None"
| "find_in_chain 0 ce h k es (Some b) = Inl Spins"
| "find_in_chain (Suc fuel) ce h k es (Some b) = rbind (vec_at es b) (\<lambda>bk.
     if ce \<and> bh bk \<noteq> h then find_in_chain fuel ce h k es (bnext bk)
     else case bkv bk of None \<Rightarrow> Inl Out_Of_Bounds
       | Some (k', v) \<Rightarrow> if k' = k then Inr (Some b) else find_in_chain fuel ce h k es (bnext bk))"

definition find_bucket :: "('k \<Rightarrow> u64) \<Rightarrow> bool \<Rightarrow> 'k \<Rightarrow> ('k, 'v, 'z) bucket_table_scheme \<Rightarrow> nat option result" where
  "find_bucket hash ce k m = rbind (vec_at (bt_table m) (unat (hash k) mod length (bt_table m))) (\<lambda>b.
     find_in_chain (Suc (length (bt_elems m))) ce (hash k) k (bt_elems m) b)"

definition link_bucket :: "u64 \<Rightarrow> 'k \<times> 'v \<Rightarrow> ('k, 'v, 'z) bucket_table_scheme \<Rightarrow> (nat \<times> ('k, 'v, 'z) bucket_table_scheme) result" where
  "link_bucket h kv m = (let b = bt_n m; i = unat h mod length (bt_table m) in
     rbind (vec_at (bt_elems m) b) (\<lambda>_. rbind (vec_at (bt_table m) i) (\<lambda>first.
     Inr (b, m\<lparr>bt_n := b + 1, bt_elems := (bt_elems m)[b := \<lparr>bnext = first, bh = h, bkv = Some kv\<rparr>],
       bt_table := (bt_table m)[i := Some b]\<rparr>))))"

definition destroy_buckets :: "bool \<Rightarrow> nat \<Rightarrow> ('k, 'v) bucket list \<Rightarrow> ('k, 'v) bucket list" where
  "destroy_buckets td n es = (if td then es else map (\<lambda>b. b\<lparr>bkv := None\<rparr>) (take n es) @ drop n es)"

definition bucket_ref :: "nat \<Rightarrow> ('k, 'v, 'z) bucket_table_scheme \<Rightarrow> ('k \<times> 'v) result" where
  "bucket_ref b m = rbind (vec_at (bt_elems m) b) (\<lambda>bk.
     case bkv bk of None \<Rightarrow> Inl Out_Of_Bounds | Some kv \<Rightarrow> Inr kv)"

definition bucket_set :: "nat \<Rightarrow> 'v \<Rightarrow> ('k, 'v, 'z) bucket_table_scheme \<Rightarrow> ('k, 'v, 'z) bucket_table_scheme result" where
  "bucket_set b v m = rbind (bucket_ref b m) (\<lambda>(k, _).
     Inr (m\<lparr>bt_elems := (bt_elems m)[b := (bt_elems m ! b)\<lparr>bkv := Some (k, v)\<rparr>]\<rparr>))"

section \<open>The static map\<close>

type_synonym ('k, 'v) static_map = "('k, 'v) bucket_table"

definition su_index :: "('k \<Rightarrow> u64) \<Rightarrow> bool \<Rightarrow> 'v \<Rightarrow> 'k \<Rightarrow> ('k, 'v) static_map \<Rightarrow> (nat \<times> ('k, 'v) static_map) result" where
  "su_index hash ce dflt k m = rbind (find_bucket hash ce k m) (\<lambda>r. case r of Some b \<Rightarrow> Inr (b, m)
     | None \<Rightarrow> rbind (rassert (bt_n m < length (bt_elems m))) (\<lambda>_. link_bucket (hash k) (k, dflt) m))"

definition su_size :: "('k, 'v) static_map \<Rightarrow> nat" where "su_size m = bt_n m"

definition su_empty :: "('k, 'v) static_map \<Rightarrow> bool" where "su_empty m \<longleftrightarrow> bt_n m = 0"

definition su_begin :: "('k, 'v) static_map \<Rightarrow> nat" where "su_begin m = 0"

definition su_end :: "('k, 'v) static_map \<Rightarrow> nat" where "su_end m = bt_n m"

definition su_find :: "('k \<Rightarrow> u64) \<Rightarrow> bool \<Rightarrow> 'k \<Rightarrow> ('k, 'v) static_map \<Rightarrow> nat result" where
  "su_find hash ce k m = rbind (find_bucket hash ce k m) (\<lambda>r. Inr (case r of Some b \<Rightarrow> b | None \<Rightarrow> su_end m))"

definition su_clear :: "bool \<Rightarrow> ('k, 'v) static_map \<Rightarrow> ('k, 'v) static_map" where
  "su_clear td m = (if bt_n m = 0 then m else
     m\<lparr>bt_table := replicate (length (bt_table m)) None, bt_elems := destroy_buckets td (bt_n m) (bt_elems m), bt_n := 0\<rparr>)"

definition copy_bucket :: "('k, 'v, 'y) bucket_table_scheme \<Rightarrow> nat \<Rightarrow> ('k, 'v, 'z) bucket_table_scheme \<Rightarrow> ('k, 'v, 'z) bucket_table_scheme result" where
  "copy_bucket that i m = rbind (vec_at (bt_elems that) i) (\<lambda>that_b. rbind (bucket_ref i that) (\<lambda>kv.
     rbind (link_bucket (bh that_b) kv m) (\<lambda>(_, m). Inr m)))"

definition su_assignFrom :: "bool \<Rightarrow> ('k, 'v) static_map \<Rightarrow> ('k, 'v) static_map \<Rightarrow> ('k, 'v) static_map result" where
  "su_assignFrom td that m = for_each (copy_bucket that) [0..<bt_n that] (su_clear td m)"

section \<open>The small map\<close>

text \<open>
  The pairs of the \<^verbatim>\<open>std::unordered_map\<close> are kept as a list with different keys; its order is the order of
  iteration, which C++ leaves open.
\<close>

record ('k, 'v) small_map = "('k, 'v) bucket_table" +
  large_table :: "('k \<times> 'v) list option"

datatype um_iter = Small_Pos nat | Large_Pos nat

primrec key_pos :: "'k \<Rightarrow> ('k \<times> 'v) list \<Rightarrow> nat" where
  "key_pos k [] = 0"
| "key_pos k (p # ps) = (if fst p = k then 0 else Suc (key_pos k ps))"

definition std_emplace :: "'k \<times> 'v \<Rightarrow> ('k \<times> 'v) list \<Rightarrow> ('k \<times> 'v) list" where
  "std_emplace kv ps = (if fst kv \<in> fst ` set ps then ps else ps @ [kv])"

definition su_to_small :: "('k, 'v) bucket_table \<Rightarrow> ('k, 'v) small_map" where
  "su_to_small m = bucket_table.extend m (small_map.fields None)"

definition sl_new :: "nat \<Rightarrow> ('k, 'v) small_map" where
  "sl_new SmallSize = su_to_small (bt_new SmallSize)"

definition move_to_large :: "bool \<Rightarrow> ('k, 'v) small_map \<Rightarrow> ('k, 'v) small_map result" where
  "move_to_large td m = rbind (for_each (\<lambda>b ps. rbind (bucket_ref b m) (\<lambda>kv. Inr (std_emplace kv ps)))
       [0..<length (bt_elems m)] []) (\<lambda>ps.
     Inr (m\<lparr>large_table := Some ps, bt_elems := destroy_buckets td (length (bt_elems m)) (bt_elems m), bt_n := 0\<rparr>))"

definition large_index :: "'v \<Rightarrow> 'k \<Rightarrow> ('k \<times> 'v) list \<Rightarrow> ('k, 'v) small_map \<Rightarrow> um_iter \<times> ('k, 'v) small_map" where
  "large_index dflt k ps m = (let ps = std_emplace (k, dflt) ps in (Large_Pos (key_pos k ps), m\<lparr>large_table := Some ps\<rparr>))"

definition sl_index :: "('k \<Rightarrow> u64) \<Rightarrow> bool \<Rightarrow> bool \<Rightarrow> 'v \<Rightarrow> 'k \<Rightarrow> ('k, 'v) small_map \<Rightarrow> (um_iter \<times> ('k, 'v) small_map) result" where
  "sl_index hash ce td dflt k m = (case large_table m of Some ps \<Rightarrow> Inr (large_index dflt k ps m)
   | None \<Rightarrow> rbind (find_bucket hash ce k m) (\<lambda>r. case r of Some b \<Rightarrow> Inr (Small_Pos b, m)
     | None \<Rightarrow>
         if bt_n m = length (bt_elems m) then rbind (move_to_large td m) (\<lambda>m.
           case large_table m of Some ps \<Rightarrow> Inr (large_index dflt k ps m) | None \<Rightarrow> Inl Assert_Fail)
         else rbind (rassert (bt_n m < length (bt_elems m))) (\<lambda>_.
           rbind (link_bucket (hash k) (k, dflt) m) (\<lambda>(b, m). Inr (Small_Pos b, m)))))"

definition sl_size :: "('k, 'v) small_map \<Rightarrow> nat" where
  "sl_size m = (case large_table m of Some ps \<Rightarrow> length ps | None \<Rightarrow> bt_n m)"

definition sl_empty :: "('k, 'v) small_map \<Rightarrow> bool" where "sl_empty m \<longleftrightarrow> sl_size m = 0"

definition sl_begin :: "('k, 'v) small_map \<Rightarrow> um_iter" where
  "sl_begin m = (case large_table m of Some ps \<Rightarrow> Large_Pos 0 | None \<Rightarrow> Small_Pos 0)"

definition sl_end :: "('k, 'v) small_map \<Rightarrow> um_iter" where
  "sl_end m = (case large_table m of Some ps \<Rightarrow> Large_Pos (length ps) | None \<Rightarrow> Small_Pos (bt_n m))"

definition sl_find :: "('k \<Rightarrow> u64) \<Rightarrow> bool \<Rightarrow> 'k \<Rightarrow> ('k, 'v) small_map \<Rightarrow> um_iter result" where
  "sl_find hash ce k m = (case large_table m of Some ps \<Rightarrow> Inr (Large_Pos (key_pos k ps))
   | None \<Rightarrow> rbind (find_bucket hash ce k m) (\<lambda>r. Inr (case r of Some b \<Rightarrow> Small_Pos b | None \<Rightarrow> sl_end m)))"

fun um_it_eq :: "um_iter \<Rightarrow> um_iter \<Rightarrow> bool result" where
  "um_it_eq (Small_Pos a) (Small_Pos b) = Inr (a = b)"
| "um_it_eq (Large_Pos a) (Large_Pos b) = Inr (a = b)"
| "um_it_eq _ _ = Inl Assert_Fail"

fun um_it_incr :: "um_iter \<Rightarrow> um_iter" where
  "um_it_incr (Small_Pos a) = Small_Pos (Suc a)"
| "um_it_incr (Large_Pos a) = Large_Pos (Suc a)"

fun um_it_deref :: "('k, 'v) small_map \<Rightarrow> um_iter \<Rightarrow> ('k \<times> 'v) result" where
  "um_it_deref m (Small_Pos b) = bucket_ref b m"
| "um_it_deref m (Large_Pos i) = (case large_table m of Some ps \<Rightarrow> vec_at ps i | None \<Rightarrow> Inl Out_Of_Bounds)"

fun um_it_set :: "um_iter \<Rightarrow> 'v \<Rightarrow> ('k, 'v) small_map \<Rightarrow> ('k, 'v) small_map result" where
  "um_it_set (Small_Pos b) v m = bucket_set b v m"
| "um_it_set (Large_Pos i) v m = (case large_table m of None \<Rightarrow> Inl Out_Of_Bounds
     | Some ps \<Rightarrow> rbind (vec_at ps i) (\<lambda>(k, _). Inr (m\<lparr>large_table := Some (ps[i := (k, v)])\<rparr>)))"

definition sl_clear :: "bool \<Rightarrow> ('k, 'v) small_map \<Rightarrow> ('k, 'v) small_map result" where
  "sl_clear td m = (case large_table m of
     Some ps \<Rightarrow> rbind (rassert (bt_n m = 0)) (\<lambda>_. Inr (m\<lparr>large_table := None\<rparr>))
   | None \<Rightarrow> if bt_n m = 0 then Inr m else
       Inr (m\<lparr>bt_table := replicate (length (bt_table m)) None,
              bt_elems := destroy_buckets td (bt_n m) (bt_elems m), bt_n := 0\<rparr>))"

definition sl_assignFrom :: "bool \<Rightarrow> ('k, 'v) small_map \<Rightarrow> ('k, 'v) small_map \<Rightarrow> ('k, 'v) small_map result" where
  "sl_assignFrom td that m = rbind (sl_clear td m) (\<lambda>m. case large_table that of
     Some ps \<Rightarrow> rbind (rassert (bt_n that = 0 \<and> bt_n m = 0)) (\<lambda>_. Inr (m\<lparr>large_table := Some ps\<rparr>))
   | None \<Rightarrow> rbind (rassert (large_table m = None)) (\<lambda>_. for_each (copy_bucket that) [0..<bt_n that] m))"

text \<open>What clients write: \<^verbatim>\<open>m[k] = v\<close>, and a lookup by \<^verbatim>\<open>find\<close> and a comparison with \<^verbatim>\<open>end\<close>.\<close>

definition su_put :: "('k \<Rightarrow> u64) \<Rightarrow> bool \<Rightarrow> 'v \<Rightarrow> 'k \<Rightarrow> 'v \<Rightarrow> ('k, 'v) static_map \<Rightarrow> ('k, 'v) static_map result" where
  "su_put hash ce dflt k v m = rbind (su_index hash ce dflt k m) (\<lambda>(b, m). bucket_set b v m)"

definition su_get :: "('k \<Rightarrow> u64) \<Rightarrow> bool \<Rightarrow> 'k \<Rightarrow> ('k, 'v) static_map \<Rightarrow> 'v option result" where
  "su_get hash ce k m = rbind (su_find hash ce k m) (\<lambda>it.
     if it = su_end m then Inr None else rbind (bucket_ref it m) (\<lambda>(_, v). Inr (Some v)))"

definition sl_put :: "('k \<Rightarrow> u64) \<Rightarrow> bool \<Rightarrow> bool \<Rightarrow> 'v \<Rightarrow> 'k \<Rightarrow> 'v \<Rightarrow> ('k, 'v) small_map \<Rightarrow> ('k, 'v) small_map result" where
  "sl_put hash ce td dflt k v m = rbind (sl_index hash ce td dflt k m) (\<lambda>(it, m). um_it_set it v m)"

definition sl_get :: "('k \<Rightarrow> u64) \<Rightarrow> bool \<Rightarrow> 'k \<Rightarrow> ('k, 'v) small_map \<Rightarrow> 'v option result" where
  "sl_get hash ce k m = rbind (sl_find hash ce k m) (\<lambda>it. rbind (um_it_eq it (sl_end m)) (\<lambda>e.
     if e then Inr None else rbind (um_it_deref m it) (\<lambda>(_, v). Inr (Some v))))"

declare bit_len.simps [simp del] ceil_log2_const.simps [simp del]

section \<open>Association lists\<close>

lemma map_of_update:
  "distinct (map fst ps) \<Longrightarrow> i < length ps \<Longrightarrow> map_of (ps[i := (fst (ps ! i), v)]) = (map_of ps)(fst (ps ! i) \<mapsto> v)"
proof (induction ps arbitrary: i)
  case (Cons p ps)
  show ?case
  proof (cases i)
    case (Suc j)
    with Cons.prems have "fst p \<noteq> fst (ps ! j)" by (metis Suc_less_eq distinct.simps(2) length_Cons length_map list.simps(9) nth_map nth_mem)
    with Suc Cons show ?thesis by (simp add: fun_eq_iff)
  qed (simp add: fun_eq_iff)
qed simp

lemma map_fst_update [simp]: "map fst (ps[i := (fst (ps ! i), v)]) = map fst ps"
  by (cases "i < length ps") (auto simp: nth_list_update intro: nth_equalityI)

lemma map_of_snoc: "k \<notin> fst ` set ps \<Longrightarrow> map_of (ps @ [(k, v)]) = (map_of ps)(k \<mapsto> v)"
  by (induction ps) (auto simp: fun_upd_twist)

lemma map_of_nth_distinct: "distinct (map fst ps) \<Longrightarrow> i < length ps \<Longrightarrow> map_of ps (fst (ps ! i)) = Some (snd (ps ! i))"
  by (rule map_of_is_SomeI) simp_all

lemma card_dom_map_of: "distinct (map fst ps) \<Longrightarrow> card (dom (map_of ps)) = length ps"
  by (metis dom_map_of_conv_image_fst distinct_card length_map list.set_map)

lemma key_pos_notin: "k \<notin> fst ` set ps \<Longrightarrow> key_pos k ps = length ps"
  by (induction ps) auto

lemma key_pos_in: "k \<in> fst ` set ps \<Longrightarrow> key_pos k ps < length ps \<and> fst (ps ! key_pos k ps) = k"
  by (induction ps) auto

section \<open>Chains of buckets\<close>

text \<open>
  Buckets are taken in the order of the array and put in front of their chain, so a chain leads from the
  last bucket of its slot to the one before it: \<open>last_with f i n\<close> is the last index below \<open>n\<close> at which \<open>f\<close>
  is \<open>i\<close>.
\<close>

primrec last_with :: "(nat \<Rightarrow> 'i) \<Rightarrow> 'i \<Rightarrow> nat \<Rightarrow> nat option" where
  "last_with f i 0 = None"
| "last_with f i (Suc n) = (if f n = i then Some n else last_with f i n)"

lemma last_with_None: "last_with f i n = None \<longleftrightarrow> (\<forall>b < n. f b \<noteq> i)"
  by (induction n) (auto simp: less_Suc_eq)

lemma last_with_Some: "last_with f i n = Some b \<Longrightarrow> b < n \<and> f b = i"
  by (induction n) (auto split: if_splits)

lemma last_with_cong: "(\<And>b. b < n \<Longrightarrow> f b = g b) \<Longrightarrow> last_with f i n = last_with g i n"
  by (induction n) simp_all

definition slot :: "('k, 'v, 'z) bucket_table_scheme \<Rightarrow> nat \<Rightarrow> nat" where
  "slot m j = unat (bh (bt_elems m ! j)) mod length (bt_table m)"

definition bkey :: "('k, 'v, 'z) bucket_table_scheme \<Rightarrow> nat \<Rightarrow> 'k" where
  "bkey m j = fst (the (bkv (bt_elems m ! j)))"

definition kvs :: "('k, 'v, 'z) bucket_table_scheme \<Rightarrow> ('k \<times> 'v) list" where
  "kvs m = map (the \<circ> bkv) (take (bt_n m) (bt_elems m))"

definition bt_ok :: "('k \<Rightarrow> u64) \<Rightarrow> ('k, 'v, 'z) bucket_table_scheme \<Rightarrow> bool" where
  "bt_ok hash m \<longleftrightarrow> bt_n m \<le> length (bt_elems m) \<and> 0 < length (bt_table m) \<and>
     (\<forall>j < bt_n m. bkv (bt_elems m ! j) \<noteq> None \<and> bh (bt_elems m ! j) = hash (bkey m j) \<and>
        bnext (bt_elems m ! j) = last_with (slot m) (slot m j) j) \<and>
     (\<forall>i < length (bt_table m). bt_table m ! i = last_with (slot m) i (bt_n m)) \<and> distinct (map fst (kvs m))"

lemma length_kvs: "bt_ok hash m \<Longrightarrow> length (kvs m) = bt_n m"
  by (simp add: kvs_def bt_ok_def)

lemma distinct_kvs: "bt_ok hash m \<Longrightarrow> distinct (map fst (kvs m))"
  by (simp add: bt_ok_def)

lemma nth_kvs: "bt_ok hash m \<Longrightarrow> j < bt_n m \<Longrightarrow> kvs m ! j = the (bkv (bt_elems m ! j))"
  by (simp add: kvs_def bt_ok_def)

lemma fst_nth_kvs: "bt_ok hash m \<Longrightarrow> j < bt_n m \<Longrightarrow> fst (kvs m ! j) = bkey m j"
  by (simp add: nth_kvs bkey_def)

lemma walk_chain:
  assumes ok: "bt_ok hash m" and "j \<le> bt_n m" and "j \<le> fuel"
  shows "find_in_chain fuel ce (hash k) k (bt_elems m) (last_with (slot m) (unat (hash k) mod length (bt_table m)) j) =
    Inr (last_with (bkey m) k j)"
  using assms(2,3)
proof (induction j arbitrary: fuel)
  case 0
  then show ?case by simp
next
  case (Suc j)
  from Suc.prems(2) obtain f where f: "fuel = Suc f" "j \<le> f" by (cases fuel) auto
  from Suc.prems(1) ok have "bkv (bt_elems m ! j) \<noteq> None" by (simp add: bt_ok_def)
  then obtain k' v where kv: "bkv (bt_elems m ! j) = Some (k', v)" by auto
  with Suc.prems(1) ok have b: "j < length (bt_elems m)" "bkv (bt_elems m ! j) = Some (k', v)"
    "bh (bt_elems m ! j) = hash k'" "bnext (bt_elems m ! j) = last_with (slot m) (slot m j) j" "bkey m j = k'"
    by (simp_all add: bt_ok_def bkey_def)
  show ?case
  proof (cases "slot m j = unat (hash k) mod length (bt_table m)")
    case True
    with Suc.IH [of f] Suc.prems f b show ?thesis by auto
  next
    case False
    with b(3) have "k' \<noteq> k" by (auto simp: slot_def)
    with False Suc.IH [of fuel] Suc.prems b show ?thesis by simp
  qed
qed

lemma find_bucket_ok: "bt_ok hash m \<Longrightarrow> find_bucket hash ce k m = Inr (last_with (bkey m) k (bt_n m))"
  using walk_chain [of hash m "bt_n m" "Suc (length (bt_elems m))" ce k]
  by (simp add: find_bucket_def bt_ok_def)

lemma found_key:
  assumes "bt_ok hash m" and "last_with (bkey m) k (bt_n m) = Some b"
  shows "b < bt_n m" and "bkey m b = k" and "map_of (kvs m) k = Some (snd (kvs m ! b))"
proof -
  from last_with_Some [OF assms(2)] show b: "b < bt_n m" and k: "bkey m b = k" by auto
  from assms(1) have "distinct (map fst (kvs m))" by (simp add: bt_ok_def)
  then have "map_of (kvs m) (fst (kvs m ! b)) = Some (snd (kvs m ! b))"
    by (rule map_of_nth_distinct) (simp add: length_kvs [OF assms(1)] b)
  with fst_nth_kvs [OF assms(1) b] k show "map_of (kvs m) k = Some (snd (kvs m ! b))" by (simp only:)
qed

lemma missing_key:
  assumes "bt_ok hash m" and "last_with (bkey m) k (bt_n m) = None"
  shows "k \<notin> fst ` set (kvs m)"
proof
  assume "k \<in> fst ` set (kvs m)"
  then obtain i where "i < bt_n m" "fst (kvs m ! i) = k"
    by (metis imageE in_set_conv_nth length_kvs [OF assms(1)])
  with assms(2) fst_nth_kvs [OF assms(1), of i] show False by (auto simp: last_with_None)
qed

lemma present_key:
  assumes "bt_ok hash m" and "j < bt_n m"
  shows "last_with (bkey m) (bkey m j) (bt_n m) = Some j"
proof -
  have "last_with (bkey m) (bkey m j) (bt_n m) \<noteq> None" using assms(2) by (auto simp: last_with_None)
  then obtain b where l: "last_with (bkey m) (bkey m j) (bt_n m) = Some b" by blast
  note b = last_with_Some [OF l]
  have "map fst (kvs m) ! b = map fst (kvs m) ! j"
    using b assms(2) length_kvs [OF assms(1)] fst_nth_kvs [OF assms(1)] by simp
  with nth_eq_iff_index_eq [OF distinct_kvs [OF assms(1)], of b j] b assms(2) length_kvs [OF assms(1)] l
  show ?thesis by simp
qed

lemma absent_key:
  assumes "bt_ok hash m" and "k \<notin> fst ` set (kvs m)"
  shows "last_with (bkey m) k (bt_n m) = None"
proof (rule ccontr)
  assume "last_with (bkey m) k (bt_n m) \<noteq> None"
  then obtain b where b: "b < bt_n m" "bkey m b = k" using found_key(1,2) [OF assms(1)] by blast
  then have "kvs m ! b \<in> set (kvs m)" using length_kvs [OF assms(1)] by simp
  then have "fst (kvs m ! b) \<in> fst ` set (kvs m)" by (rule imageI)
  with fst_nth_kvs [OF assms(1) b(1)] b(2) assms(2) show False by simp
qed

lemma bucket_ref_ok: "bt_ok hash m \<Longrightarrow> b < bt_n m \<Longrightarrow> bucket_ref b m = Inr (kvs m ! b)"
  using nth_kvs [of hash m b] by (auto simp: bucket_ref_def bt_ok_def)

lemma link_bucket_ok:
  assumes ok: "bt_ok hash m" and "bt_n m < length (bt_elems m)" and "k \<notin> fst ` set (kvs m)"
  shows "\<exists>m'. link_bucket (hash k) (k, v) m = Inr (bt_n m, m') \<and> bt_ok hash m' \<and> kvs m' = kvs m @ [(k, v)] \<and> bt_n m' = Suc (bt_n m)"
proof -
  let ?i = "unat (hash k) mod length (bt_table m)" and ?n = "bt_n m"
  let ?b = "\<lparr>bnext = bt_table m ! ?i, bh = hash k, bkv = Some (k, v)\<rparr>"
  define m' where "m' = m\<lparr>bt_n := ?n + 1, bt_elems := (bt_elems m)[?n := ?b], bt_table := (bt_table m)[?i := Some ?n]\<rparr>"
  have i: "?i < length (bt_table m)" using ok by (simp add: bt_ok_def)
  have old: "slot m' j = slot m j" "bkey m' j = bkey m j" "bt_elems m' ! j = bt_elems m ! j" if "j < ?n" for j
    using that by (simp_all add: m'_def slot_def bkey_def)
  have new: "slot m' ?n = ?i" "bkey m' ?n = k" "bt_elems m' ! ?n = ?b"
    using assms(2) by (simp_all add: m'_def slot_def bkey_def)
  have lw: "last_with (slot m') s j = last_with (slot m) s j" if "j \<le> ?n" for s j
    using that old by (intro last_with_cong) simp
  have kv: "kvs m' = kvs m @ [(k, v)]"
    using assms(2) by (simp add: kvs_def m'_def take_Suc_conv_app_nth)
  have "bt_ok hash m'" unfolding bt_ok_def
  proof (intro conjI allI impI)
    fix j assume "j < bt_n m'"
    then consider "j < ?n" | "j = ?n" by (auto simp: m'_def less_Suc_eq)
    then show "bkv (bt_elems m' ! j) \<noteq> None" and "bh (bt_elems m' ! j) = hash (bkey m' j)"
      and "bnext (bt_elems m' ! j) = last_with (slot m') (slot m' j) j"
      using ok old new i lw by (cases; auto simp: bt_ok_def)+
  next
    fix i' assume "i' < length (bt_table m')"
    with ok lw new show "bt_table m' ! i' = last_with (slot m') i' (bt_n m')"
      by (auto simp: m'_def bt_ok_def nth_list_update)
  qed (use ok assms in \<open>auto simp: bt_ok_def kv, simp_all add: m'_def\<close>)
  with kv i assms(2) show ?thesis by (simp add: link_bucket_def Let_def m'_def)
qed

lemma bucket_set_ok:
  assumes ok: "bt_ok hash m" and b: "b < bt_n m"
  shows "\<exists>m'. bucket_set b v m = Inr m' \<and> bt_ok hash m' \<and> kvs m' = (kvs m)[b := (fst (kvs m ! b), v)] \<and> bt_n m' = bt_n m"
proof -
  let ?k = "fst (kvs m ! b)"
  define m' where "m' = m\<lparr>bt_elems := (bt_elems m)[b := (bt_elems m ! b)\<lparr>bkv := Some (?k, v)\<rparr>]\<rparr>"
  have lb: "b < length (bt_elems m)" using ok b by (simp add: bt_ok_def)
  have same: "slot m' = slot m" "bkey m' = bkey m"
    using lb fst_nth_kvs [OF ok b] by (auto simp: m'_def slot_def bkey_def fun_eq_iff nth_list_update)
  have kv: "kvs m' = (kvs m)[b := (?k, v)]"
    by (simp add: kvs_def m'_def take_update_swap map_update)
  have "bt_ok hash m'"
    using ok lb by (auto simp: bt_ok_def same kv) (auto simp: m'_def nth_list_update)
  with kv lb bucket_ref_ok [OF ok b] show ?thesis
    by (cases "kvs m ! b") (simp add: bucket_set_def m'_def)
qed

lemma bt_new_ok [simp]: "0 < TableSize N \<Longrightarrow> bt_ok hash (bt_new N)" "kvs (bt_new N) = []"
  by (simp_all add: bt_ok_def bt_new_def kvs_def)

lemma cleared_ok:
  "bt_ok hash m \<Longrightarrow> length es = length (bt_elems m) \<Longrightarrow>
   bt_ok hash (m\<lparr>bt_table := replicate (length (bt_table m)) None, bt_elems := es, bt_n := 0\<rparr>)"
  by (simp add: bt_ok_def kvs_def)

lemma length_destroy_buckets [simp]: "n \<le> length es \<Longrightarrow> length (destroy_buckets td n es) = length es"
  by (simp add: destroy_buckets_def)

section \<open>The contract of a map\<close>

text \<open>
  \<open>lookup\<close> is the partial function a map stands for, \<open>room k\<close> says that an entry for \<open>k\<close> may be made.  Only
  some maps can be cleared and used again.
\<close>

locale index_map =
  fixes ok :: "'m \<Rightarrow> bool" and lookup :: "'m \<Rightarrow> 'k \<Rightarrow> 'v option" and room :: "'k \<Rightarrow> 'm \<Rightarrow> bool"
    and put :: "'k \<Rightarrow> 'v \<Rightarrow> 'm \<Rightarrow> 'm result" and get :: "'k \<Rightarrow> 'm \<Rightarrow> 'v option result" and msize :: "'m \<Rightarrow> nat"
  assumes put_law: "ok m \<Longrightarrow> room k m \<Longrightarrow> \<exists>m'. put k v m = Inr m' \<and> ok m' \<and> lookup m' = (lookup m)(k \<mapsto> v)"
    and get_law: "ok m \<Longrightarrow> get k m = Inr (lookup m k)"
    and msize_law: "ok m \<Longrightarrow> msize m = card (dom (lookup m))"
begin

lemma puts_refine:
  assumes "ok m" and "\<And>m k. ok m \<Longrightarrow> room k m"
  shows "\<exists>m'. for_each (\<lambda>(k, v). put k v) ps m = Inr m' \<and> ok m' \<and>
    lookup m' = fold (\<lambda>(k, v) f. f(k \<mapsto> v)) ps (lookup m)"
  using assms(1)
proof (induction ps arbitrary: m)
  case Nil
  then show ?case by simp
next
  case (Cons p ps)
  obtain k v where p: "p = (k, v)" by fastforce
  from put_law [OF Cons.prems assms(2) [OF Cons.prems], of k v] obtain m1 where "put k v m = Inr m1" "ok m1"
    "lookup m1 = (lookup m)(k \<mapsto> v)" by blast
  with Cons.IH [of m1] p show ?case by simp
qed

end

locale clearable_map = index_map +
  fixes clr :: "'a \<Rightarrow> 'a"
  assumes clr_law: "ok m \<Longrightarrow> ok (clr m) \<and> lookup (clr m) = Map.empty"
begin

lemma put_after_clear:
  assumes "ok m" and "room k (clr m)"
  shows "\<exists>m'. put k v (clr m) = Inr m' \<and> ok m' \<and> get k m' = Inr (Some v) \<and> msize m' = 1"
  using clr_law [OF assms(1)] put_law [of "clr m" k v] assms(2) get_law msize_law by fastforce

end

section \<open>The maps fulfil the contract\<close>

definition su_lookup :: "('k, 'v) static_map \<Rightarrow> 'k \<Rightarrow> 'v option" where "su_lookup m = map_of (kvs m)"

lemma bucket_put:
  assumes "bt_ok hash m" and "last_with (bkey m) k (bt_n m) = Some b"
  shows "\<exists>m'. bucket_set b v m = Inr m' \<and> bt_ok hash m' \<and> map_of (kvs m') = (map_of (kvs m))(k \<mapsto> v)"
proof -
  note b = found_key [OF assms]
  from bucket_set_ok [OF assms(1) b(1), of v] obtain m' where m': "bucket_set b v m = Inr m'" "bt_ok hash m'"
    "kvs m' = (kvs m)[b := (fst (kvs m ! b), v)]" by blast
  have "map_of (kvs m') = (map_of (kvs m))(fst (kvs m ! b) \<mapsto> v)"
    unfolding m'(3) using assms(1) b(1) by (intro map_of_update) (simp_all add: bt_ok_def length_kvs [OF assms(1)])
  with m' b(2) fst_nth_kvs [OF assms(1) b(1)] show ?thesis by (intro exI [of _ m']) (simp only:)
qed

lemma link_put:
  assumes "bt_ok hash m" and "bt_n m < length (bt_elems m)" and "last_with (bkey m) k (bt_n m) = None"
  shows "\<exists>m1 m'. link_bucket (hash k) (k, d) m = Inr (bt_n m, m1) \<and> bucket_set (bt_n m) v m1 = Inr m' \<and>
    bt_ok hash m' \<and> map_of (kvs m') = (map_of (kvs m))(k \<mapsto> v)"
proof -
  note new = missing_key [OF assms(1,3)]
  from link_bucket_ok [OF assms(1,2) new, of d] obtain m1 where m1: "link_bucket (hash k) (k, d) m = Inr (bt_n m, m1)"
    "bt_ok hash m1" "kvs m1 = kvs m @ [(k, d)]" "bt_n m1 = Suc (bt_n m)" by blast
  from bucket_set_ok [OF m1(2), of "bt_n m" v] m1(4) obtain m' where m': "bucket_set (bt_n m) v m1 = Inr m'"
    "bt_ok hash m'" "kvs m' = (kvs m1)[bt_n m := (fst (kvs m1 ! bt_n m), v)]" by auto
  have "kvs m' = kvs m @ [(k, v)]" using m'(3) m1(3) by (simp add: length_kvs [OF assms(1), symmetric])
  with new have "map_of (kvs m') = (map_of (kvs m))(k \<mapsto> v)" by (simp add: map_of_snoc del: map_of_append)
  with m1(1) m'(1,2) show ?thesis by blast
qed

lemma static_put:
  assumes ok: "bt_ok hash m" and room: "su_lookup m k \<noteq> None \<or> bt_n m < length (bt_elems m)"
  shows "\<exists>m'. su_put hash ce dflt k v m = Inr m' \<and> bt_ok hash m' \<and> su_lookup m' = (su_lookup m)(k \<mapsto> v)"
proof (cases "last_with (bkey m) k (bt_n m)")
  case None
  with missing_key [OF ok] have "su_lookup m k = None" by (simp add: su_lookup_def map_of_eq_None_iff)
  with room link_put [OF ok _ None, of dflt v] show ?thesis
    by (auto simp: su_put_def su_index_def find_bucket_ok [OF ok] None su_lookup_def)
next
  case (Some b)
  with bucket_put [OF ok Some, of v] show ?thesis
    by (auto simp: su_put_def su_index_def find_bucket_ok [OF ok] su_lookup_def)
qed

lemma static_get:
  assumes ok: "bt_ok hash m"
  shows "su_get hash ce k m = Inr (su_lookup m k)"
proof (cases "last_with (bkey m) k (bt_n m)")
  case None
  with missing_key [OF ok] have "su_lookup m k = None" by (simp add: su_lookup_def map_of_eq_None_iff)
  with None show ?thesis by (simp add: su_get_def su_find_def find_bucket_ok [OF ok])
next
  case (Some b)
  note b = found_key [OF ok Some]
  from b(3) have "su_lookup m k = Some (snd (kvs m ! b))" unfolding su_lookup_def .
  with Some b(1) show ?thesis
    by (simp add: su_get_def su_find_def su_end_def find_bucket_ok [OF ok] bucket_ref_ok [OF ok] case_prod_unfold)
qed

lemma static_size: "bt_ok hash m \<Longrightarrow> su_size m = card (dom (su_lookup m))"
  by (simp add: su_size_def su_lookup_def card_dom_map_of length_kvs distinct_kvs)

lemma static_clear:
  assumes "bt_ok hash m"
  shows "bt_ok hash (su_clear td m) \<and> su_lookup (su_clear td m) = Map.empty"
  using assms cleared_ok [OF assms, of "destroy_buckets td (bt_n m) (bt_elems m)"]
  by (cases "bt_n m = 0") (simp_all add: su_clear_def su_lookup_def bt_ok_def kvs_def)

interpretation su: clearable_map "bt_ok hash" su_lookup "\<lambda>k m. su_lookup m k \<noteq> None \<or> bt_n m < length (bt_elems m)"
  "su_put hash ce dflt" "su_get hash ce" su_size "su_clear td" for hash ce dflt td
  by unfold_locales (rule static_put static_get static_size static_clear; assumption)+

definition sl_pairs :: "('k, 'v) small_map \<Rightarrow> ('k \<times> 'v) list" where
  "sl_pairs m = (case large_table m of Some ps \<Rightarrow> ps | None \<Rightarrow> kvs m)"

definition sl_lookup :: "('k, 'v) small_map \<Rightarrow> 'k \<Rightarrow> 'v option" where "sl_lookup m = map_of (sl_pairs m)"

definition sl_ok :: "('k \<Rightarrow> u64) \<Rightarrow> ('k, 'v) small_map \<Rightarrow> bool" where
  "sl_ok hash m \<longleftrightarrow> (case large_table m of Some ps \<Rightarrow> bt_n m = 0 \<and> distinct (map fst ps) | None \<Rightarrow> bt_ok hash m)"

lemma bucket_set_large: "bucket_set b v m = Inr m' \<Longrightarrow> large_table m' = large_table (m :: ('k, 'v) small_map)"
  by (auto simp: bucket_set_def rbind_eq_Inr_iff split: prod.splits)

lemma link_bucket_large: "link_bucket h kv m = Inr (b, m') \<Longrightarrow> large_table m' = large_table (m :: ('k, 'v) small_map)"
  by (auto simp: link_bucket_def Let_def rbind_eq_Inr_iff)

lemma move_pairs:
  assumes ok: "bt_ok hash m" and "j \<le> bt_n m"
  shows "for_each (\<lambda>b ps. rbind (bucket_ref b m) (\<lambda>kv. Inr (std_emplace kv ps))) [0..<j] [] = Inr (take j (kvs m))"
  using assms(2)
proof (induction j)
  case (Suc j)
  have l: "j < length (kvs m)" using Suc.prems length_kvs [OF ok] by simp
  have "distinct (map fst (take (Suc j) (kvs m)))"
    using ok by (metis bt_ok_def distinct_take take_map)
  then have "fst (kvs m ! j) \<notin> fst ` set (take j (kvs m))" using l by (simp add: take_Suc_conv_app_nth)
  with Suc l bucket_ref_ok [OF ok, of j] show ?case
    by (simp add: for_each_append std_emplace_def take_Suc_conv_app_nth)
qed simp

lemma move_to_large_ok:
  assumes "bt_ok hash m" and "bt_n m = length (bt_elems m)"
  shows "\<exists>m'. move_to_large td m = Inr m' \<and> large_table m' = Some (kvs m) \<and> bt_n m' = 0"
  using move_pairs [OF assms(1), of "bt_n m"] assms(2) length_kvs [OF assms(1)] by (simp add: move_to_large_def)

lemma emplaced:
  fixes k :: 'k and d v :: 'v
  assumes "distinct (map fst ps)"
  defines "qs \<equiv> std_emplace (k, d) ps"
  shows "distinct (map fst qs)" and "key_pos k qs < length qs" and "fst (qs ! key_pos k qs) = k"
    and "map_of (qs[key_pos k qs := (k, v)]) = (map_of ps)(k \<mapsto> v)"
proof -
  show d: "distinct (map fst qs)" using assms(1) by (auto simp: qs_def std_emplace_def)
  have "k \<in> fst ` set qs" by (auto simp: qs_def std_emplace_def)
  from key_pos_in [OF this] show p: "key_pos k qs < length qs" "fst (qs ! key_pos k qs) = k" by auto
  have "(map_of qs)(k \<mapsto> v) = (map_of ps)(k \<mapsto> v)" by (simp add: qs_def std_emplace_def map_of_snoc del: map_of_append)
  with map_of_update [OF d p(1), of v] p(2) show "map_of (qs[key_pos k qs := (k, v)]) = (map_of ps)(k \<mapsto> v)" by simp
qed

lemma large_put:
  assumes "distinct (map fst ps)" and "bt_n m = 0"
  shows "\<exists>m'. (case large_index d k ps m of (it, m) \<Rightarrow> um_it_set it v m) = Inr m' \<and> sl_ok hash m' \<and>
    sl_lookup m' = (map_of ps)(k \<mapsto> v)"
proof -
  note e = emplaced [OF assms(1), where k = k and d = d]
  let ?qs = "std_emplace (k, d) ps"
  have "distinct (map fst (?qs[key_pos k ?qs := (k, v)]))"
    using map_fst_update [of ?qs "key_pos k ?qs" v] e(1,3) by simp
  with e(2,3) e(4) [where v = v] assms(2) show ?thesis
    by (cases "?qs ! key_pos k ?qs") (simp add: large_index_def Let_def sl_ok_def sl_lookup_def sl_pairs_def)
qed

lemma small_put:
  assumes ok: "sl_ok hash m"
  shows "\<exists>m'. sl_put hash ce td dflt k v m = Inr m' \<and> sl_ok hash m' \<and> sl_lookup m' = (sl_lookup m)(k \<mapsto> v)"
proof (cases "large_table m")
  case (Some ps)
  with ok large_put [where ps = ps and m = m and d = dflt and k = k and v = v and hash = hash] show ?thesis
    by (simp add: sl_put_def sl_index_def sl_ok_def sl_lookup_def sl_pairs_def)
next
  case None
  with ok have bt: "bt_ok hash m" by (simp add: sl_ok_def)
  have look: "sl_lookup m = map_of (kvs m)" using None by (simp add: sl_lookup_def sl_pairs_def)
  have small: "sl_ok hash m' \<and> sl_lookup m' = map_of (kvs m')" if "large_table m' = None" "bt_ok hash m'" for m'
    using that by (simp add: sl_ok_def sl_lookup_def sl_pairs_def)
  show ?thesis
  proof (cases "last_with (bkey m) k (bt_n m)")
    case (Some b)
    with bucket_put [OF bt Some, of v] obtain m' where m': "bucket_set b v m = Inr m'" "bt_ok hash m'"
      "map_of (kvs m') = (map_of (kvs m))(k \<mapsto> v)" by blast
    with small [of m'] bucket_set_large [OF m'(1)] None Some look show ?thesis
      by (simp add: sl_put_def sl_index_def find_bucket_ok [OF bt])
  next
    case new: None
    show ?thesis
    proof (cases "bt_n m = length (bt_elems m)")
      case True
      from move_to_large_ok [OF bt True, of td] obtain m1 where m1: "move_to_large td m = Inr m1"
        "large_table m1 = Some (kvs m)" "bt_n m1 = 0" by blast
      have "distinct (map fst (kvs m))" using bt by (simp add: bt_ok_def)
      from large_put [OF this m1(3), where d = dflt and k = k and v = v and hash = hash] m1 None new True look show ?thesis
        by (simp add: sl_put_def sl_index_def find_bucket_ok [OF bt])
    next
      case False
      with bt have lt: "bt_n m < length (bt_elems m)" by (simp add: bt_ok_def)
      from link_put [OF bt lt new, of dflt v] obtain m1 m' where m': "link_bucket (hash k) (k, dflt) m = Inr (bt_n m, m1)"
        "bucket_set (bt_n m) v m1 = Inr m'" "bt_ok hash m'" "map_of (kvs m') = (map_of (kvs m))(k \<mapsto> v)" by blast
      with small [of m'] bucket_set_large [OF m'(2)] link_bucket_large [OF m'(1)] None new False lt look show ?thesis
        by (simp add: sl_put_def sl_index_def find_bucket_ok [OF bt])
    qed
  qed
qed

lemma small_get:
  assumes ok: "sl_ok hash m"
  shows "sl_get hash ce k m = Inr (sl_lookup m k)"
proof (cases "large_table m")
  case (Some ps)
  show ?thesis
  proof (cases "k \<in> fst ` set ps")
    case True
    note p = key_pos_in [OF True]
    have "map_of ps (fst (ps ! key_pos k ps)) = Some (snd (ps ! key_pos k ps))"
      by (rule map_of_nth_distinct) (use ok Some p in \<open>simp_all add: sl_ok_def\<close>)
    with p have "sl_lookup m k = Some (snd (ps ! key_pos k ps))"
      by (simp only: sl_lookup_def sl_pairs_def Some option.case)
    with p Some show ?thesis by (simp add: sl_get_def sl_find_def sl_end_def case_prod_unfold)
  next
    case False
    then have "sl_lookup m k = None" by (simp add: sl_lookup_def sl_pairs_def Some map_of_eq_None_iff)
    with Some key_pos_notin [OF False] show ?thesis by (simp add: sl_get_def sl_find_def sl_end_def)
  qed
next
  case None
  with ok have bt: "bt_ok hash m" by (simp add: sl_ok_def)
  show ?thesis
  proof (cases "last_with (bkey m) k (bt_n m)")
    case (Some b)
    note b = found_key [OF bt Some]
    from b(3) have "sl_lookup m k = Some (snd (kvs m ! b))" by (simp only: sl_lookup_def sl_pairs_def None option.case)
    with Some b(1) None show ?thesis
      by (simp add: sl_get_def sl_find_def sl_end_def find_bucket_ok [OF bt] bucket_ref_ok [OF bt] case_prod_unfold)
  next
    case new: None
    with missing_key [OF bt] have "sl_lookup m k = None" by (simp add: sl_lookup_def sl_pairs_def None map_of_eq_None_iff)
    with new None show ?thesis by (simp add: sl_get_def sl_find_def sl_end_def find_bucket_ok [OF bt])
  qed
qed

lemma small_size: "sl_ok hash m \<Longrightarrow> sl_size m = card (dom (sl_lookup m))"
  by (cases "large_table m") (simp_all add: sl_size_def sl_lookup_def sl_pairs_def sl_ok_def card_dom_map_of
      length_kvs distinct_kvs)

interpretation sl: index_map "sl_ok hash" sl_lookup "\<lambda>k m. True" "sl_put hash ce td dflt" "sl_get hash ce" sl_size
  for hash ce td dflt
  by unfold_locales (erule small_put small_get small_size)+

definition um_at :: "('k, 'v) small_map \<Rightarrow> nat \<Rightarrow> um_iter" where
  "um_at m k = (if large_table m = None then Small_Pos k else Large_Pos k)"

interpretation slw: range_contract "sl_ok hash" sl_pairs sl_begin sl_end um_it_eq "\<lambda>m. um_it_incr" um_it_deref um_at
  for hash
  by unfold_locales (auto simp: sl_ok_def sl_pairs_def sl_begin_def sl_end_def um_at_def length_kvs bucket_ref_ok
      split: option.splits)

section \<open>Copies\<close>

lemma copy_buckets:
  assumes that: "bt_ok hash that" and m0: "bt_ok hash m0" "kvs m0 = []" "length (bt_elems m0) = length (bt_elems that)"
    and "j \<le> bt_n that"
  shows "\<exists>m'. for_each (copy_bucket that) [0..<j] m0 = Inr m' \<and> bt_ok hash m' \<and> kvs m' = take j (kvs that) \<and>
    length (bt_elems m') = length (bt_elems that)"
  using assms(5)
proof (induction j)
  case 0
  with m0 show ?case by simp
next
  case (Suc j)
  then obtain m where m: "for_each (copy_bucket that) [0..<j] m0 = Inr m" "bt_ok hash m" "kvs m = take j (kvs that)"
    "length (bt_elems m) = length (bt_elems that)" by auto
  have j: "j < length (kvs that)" "j < bt_n that" using Suc.prems length_kvs [OF that] by simp_all
  have n: "bt_n m = j" using length_kvs [OF m(2)] m(3) j(1) by simp
  obtain k v where kv: "kvs that ! j = (k, v)" by fastforce
  have le: "j < length (bt_elems that)" and h: "bh (bt_elems that ! j) = hash k"
    using that j kv fst_nth_kvs [OF that j(2)] by (auto simp: bt_ok_def)
  have "distinct (map fst (take (Suc j) (kvs that)))" using distinct_kvs [OF that] by (metis distinct_take take_map)
  then have "k \<notin> fst ` set (kvs m)" using m(3) j kv by (simp add: take_Suc_conv_app_nth)
  from link_bucket_ok [OF m(2) _ this, of v] n m(4) le obtain m' where m':
    "link_bucket (hash k) (k, v) m = Inr (j, m')" "bt_ok hash m'" "kvs m' = kvs m @ [(k, v)]" by auto
  have "length (bt_elems m') = length (bt_elems m)"
    using m'(1) by (auto simp: link_bucket_def Let_def rbind_eq_Inr_iff)
  moreover have "copy_bucket that j m = Inr m'" using m'(1) kv h le bucket_ref_ok [OF that j(2)] by (simp add: copy_bucket_def)
  ultimately show ?case using m m' j kv by (simp add: for_each_append take_Suc_conv_app_nth)
qed

lemma su_assignFrom_ok:
  assumes "bt_ok hash that" and "bt_ok hash m" and "length (bt_elems m) = length (bt_elems that)"
  shows "\<exists>m'. su_assignFrom td that m = Inr m' \<and> bt_ok hash m' \<and> su_lookup m' = su_lookup that"
proof -
  have "kvs (su_clear td m) = []" "length (bt_elems (su_clear td m)) = length (bt_elems that)"
    using assms(2,3) by (auto simp: su_clear_def kvs_def bt_ok_def)
  from copy_buckets [OF assms(1) conjunct1 [OF static_clear [OF assms(2)]] this order_refl] length_kvs [OF assms(1)]
  show ?thesis by (auto simp: su_assignFrom_def su_lookup_def)
qed

section \<open>Powers of two\<close>

lemma bit_len_bounds: "0 < x \<Longrightarrow> 0 < bit_len x \<and> 2 ^ (bit_len x - 1) \<le> x \<and> x < 2 ^ bit_len x"
proof (induction x rule: bit_len.induct)
  case (1 x)
  show ?case
  proof (cases "x = 1")
    case False
    with 1 have "0 < x div 2" by auto
    with 1 have IH: "0 < bit_len (x div 2)" "2 ^ (bit_len (x div 2) - 1) \<le> x div 2" "x div 2 < 2 ^ bit_len (x div 2)" by auto
    then have "2 ^ bit_len (x div 2) = 2 * (2::nat) ^ (bit_len (x div 2) - 1)" by (cases "bit_len (x div 2)") auto
    moreover have "bit_len x = Suc (bit_len (x div 2))" using 1(2) by (simp add: bit_len.simps [of x])
    moreover obtain y where "x div 2 = y" "2 * y \<le> x" "x < 2 * y + 2" by (rule that [of "x div 2"]) presburger+
    ultimately show ?thesis using IH by simp
  qed (simp add: bit_len.simps)
qed

lemma ceil_log2_const_False: "0 < x \<Longrightarrow> ceil_log2_const x False = Some (bit_len x)"
proof (induction x rule: bit_len.induct)
  case (1 x)
  show ?case
  proof (cases "x = 1")
    case True
    then show ?thesis by (simp add: ceil_log2_const.simps bit_len.simps)
  next
    case False
    with 1 show ?thesis by (simp add: ceil_log2_const.simps [of x] bit_len.simps [of x])
  qed
qed

lemma ceil_log2_step:
  assumes "1 < x"
  shows "ceil_log2 x = Suc (if odd x then bit_len (x div 2) else ceil_log2 (x div 2))"
proof -
  have b: "bit_len x = Suc (bit_len (x div 2))" using assms by (simp add: bit_len.simps [of x])
  have p: "0 < bit_len (x div 2)" using assms bit_len_bounds [of "x div 2"] by simp
  then have e: "2 ^ bit_len (x div 2) = 2 * (2::nat) ^ (bit_len (x div 2) - 1)" by (cases "bit_len (x div 2)") auto
  have "x = 2 ^ bit_len (x div 2) \<longleftrightarrow> even x \<and> x div 2 = 2 ^ (bit_len (x div 2) - 1)"
    unfolding e by (metis dvd_triv_left nonzero_mult_div_cancel_left dvd_mult_div_cancel zero_neq_numeral)
  with b p show ?thesis by (auto simp: ceil_log2_def Let_def)
qed

lemma ceil_log2_const_eq: "0 < x \<Longrightarrow> ceil_log2_const x True = Some (ceil_log2 x)"
proof (induction x rule: bit_len.induct)
  case (1 x)
  show ?case
  proof (cases "x = 1")
    case True
    then show ?thesis by (simp add: ceil_log2_const.simps ceil_log2_def bit_len.simps)
  next
    case False
    with 1 show ?thesis
      by (auto simp: ceil_log2_const.simps [of x] ceil_log2_step ceil_log2_const_False odd_iff_mod_2_eq_one)
  qed
qed

lemma round_up_ceil: "0 < x \<Longrightarrow> round_up_to_pow2 x = 2 ^ ceil_log2 x"
  by (auto simp: round_up_to_pow2_def ceil_log2_def Let_def)

lemma ceil_log2_bounds: "0 < x \<Longrightarrow> x \<le> 2 ^ ceil_log2 x \<and> 2 ^ ceil_log2 x < 2 * x"
  using bit_len_bounds [of x] by (cases "bit_len x") (auto simp: ceil_log2_def Let_def)

lemma TableSize_eq: "0 < N \<Longrightarrow> TableSize N = 2 ^ ceil_log2 N"
  by (simp add: TableSize_def round_up_to_pow2_const_def ceil_log2_const_eq)

lemma TableSize_pos [simp]: "0 < N \<Longrightarrow> 0 < TableSize N"
  by (simp add: TableSize_eq)

text \<open>
  The constant versions that size the tables at compile time compute the same numbers as the ones on
  \<^verbatim>\<open>__builtin_clzll\<close>: the exponent and the smallest power of two that is not below the argument, which fits
  into 64 bits for arguments up to \<open>2 ^ 63\<close>.
\<close>

theorem round_up_to_pow2_versions_agree:
  assumes "0 < x" and "x \<le> 2 ^ 63"
  shows "ceil_log2_const x True = Some (ceil_log2 x) \<and> round_up_to_pow2_const x = Some (round_up_to_pow2 x) \<and>
    x \<le> round_up_to_pow2 x \<and> round_up_to_pow2 x < 2 * x \<and> (\<exists>n \<le> 63. round_up_to_pow2 x = 2 ^ n)"
proof -
  have "(2::nat) ^ ceil_log2 x < 2 ^ 64" using ceil_log2_bounds [OF assms(1)] assms(2) by simp
  then have "ceil_log2 x < 64" by (rule power_less_imp_less_exp [rotated]) simp
  with ceil_log2_bounds [OF assms(1)] show ?thesis
    by (auto simp: round_up_to_pow2_const_def ceil_log2_const_eq [OF assms(1)] round_up_ceil [OF assms(1)]
        intro!: exI [of _ "ceil_log2 x"])
qed

theorem round_up_to_pow2_versions_agree_witness:
  "round_up_to_pow2_const 100 = Some (round_up_to_pow2 100) \<and> (100::nat) \<le> round_up_to_pow2 100"
  using round_up_to_pow2_versions_agree [of 100] by simp

section \<open>Properties of the maps\<close>

lemma fold_upd_map_of: "fold (\<lambda>(k, v) f. f(k \<mapsto> v)) ps Map.empty = map_of (rev ps)"
  by (induction ps rule: rev_induct) auto

lemma sl_new_ok [simp]: "0 < N \<Longrightarrow> sl_ok hash (sl_new N)" "sl_lookup (sl_new N) = Map.empty"
  by (simp_all add: sl_ok_def sl_lookup_def sl_pairs_def sl_new_def su_to_small_def bt_new_def bt_ok_def kvs_def
      bucket_table.defs small_map.defs)

text \<open>
  C33.  \<^verbatim>\<open>small_unordered_map\<close> implements a partial function: after any sequence of assignments \<^verbatim>\<open>m[k] = v\<close> to
  a new map, whatever the hash function and whether or not they outgrow the array, every lookup ends and
  gives the value assigned last, and the size is the number of keys.
\<close>

theorem small_map_refines_map:
  assumes "0 < N"
  shows "\<exists>m. for_each (\<lambda>(k, v). sl_put hash ce td dflt k v) ps (sl_new N) = Inr m \<and>
    (\<forall>k. sl_get hash ce k m = Inr (map_of (rev ps) k)) \<and> sl_size m = card (fst ` set ps)"
proof -
  from sl.puts_refine [OF sl_new_ok(1) [OF assms], of hash ce td dflt ps] obtain m where m:
    "for_each (\<lambda>(k, v). sl_put hash ce td dflt k v) ps (sl_new N) = Inr m" "sl_ok hash m"
    "sl_lookup m = map_of (rev ps)" by (auto simp: fold_upd_map_of)
  have "dom (sl_lookup m) = fst ` set ps" by (simp add: m(3) dom_map_of_conv_image_fst)
  with m sl.get_law [OF m(2)] sl.msize_law [OF m(2)] show ?thesis by (intro exI [of _ m]) simp
qed

theorem small_map_refines_map_witness:
  "\<exists>m. for_each (\<lambda>(k, v). sl_put myhash True True 0 k v) [(8, 1), (16, 2), (8, 3), (24, 4)] (sl_new 2) = Inr m \<and>
    sl_get myhash True 8 m = Inr (Some (3::nat))"
proof -
  from small_map_refines_map [of 2 myhash True True 0 "[(8, 1), (16, 2), (8, 3), (24, 4::nat)]"] obtain m
    where "for_each (\<lambda>(k, v). sl_put myhash True True 0 k v) [(8, 1), (16, 2), (8, 3), (24, 4)] (sl_new 2) = Inr m"
      "\<forall>k. sl_get myhash True k m = Inr (map_of (rev [(8, 1), (16, 2), (8, 3), (24, 4::nat)]) k)" by auto
  then show ?thesis by simp
qed

subsection \<open>Clearing a map that has grown\<close>

lemma small_put_new:
  assumes "large_table m = None" and bt: "bt_ok hash m" and lt: "bt_n m < length (bt_elems m)" and "k \<notin> fst ` set (kvs m)"
  shows "\<exists>m'. sl_put hash ce td dflt k v m = Inr m' \<and> large_table m' = None \<and> bt_ok hash m' \<and>
    kvs m' = kvs m @ [(k, v)] \<and> length (bt_elems m') = length (bt_elems m)"
proof -
  note new = absent_key [OF bt assms(4)]
  from link_bucket_ok [OF bt lt assms(4), of dflt] obtain m1 where m1:
    "link_bucket (hash k) (k, dflt) m = Inr (bt_n m, m1)" "bt_ok hash m1" "kvs m1 = kvs m @ [(k, dflt)]"
    "bt_n m1 = Suc (bt_n m)" by blast
  from bucket_set_ok [OF m1(2), of "bt_n m" v] m1(4) obtain m' where m': "bucket_set (bt_n m) v m1 = Inr m'"
    "bt_ok hash m'" "kvs m' = (kvs m1)[bt_n m := (fst (kvs m1 ! bt_n m), v)]" by auto
  have "kvs m' = kvs m @ [(k, v)]" using m'(3) m1(3) by (simp add: length_kvs [OF bt, symmetric])
  moreover have "length (bt_elems m') = length (bt_elems m)"
    using m1(1) m'(1) by (auto simp: link_bucket_def bucket_set_def Let_def rbind_eq_Inr_iff split: prod.splits)
  ultimately show ?thesis
    using m1(1) m' link_bucket_large [OF m1(1)] bucket_set_large [OF m'(1)] assms(1) lt new
    by (simp add: sl_put_def sl_index_def find_bucket_ok [OF bt])
qed

lemma small_puts_fill:
  assumes "large_table m = None" and "bt_ok hash m" and "bt_n m + length ps \<le> length (bt_elems m)"
    and "distinct (map fst (kvs m @ ps))"
  shows "\<exists>m'. for_each (\<lambda>(k, v). sl_put hash ce td dflt k v) ps m = Inr m' \<and> large_table m' = None \<and> bt_ok hash m' \<and>
    kvs m' = kvs m @ ps \<and> length (bt_elems m') = length (bt_elems m)"
  using assms
proof (induction ps arbitrary: m)
  case (Cons p ps)
  obtain k v where p: "p = (k, v)" by fastforce
  from small_put_new [OF Cons.prems(1,2), of k ce td dflt v] Cons.prems(3,4) p obtain m1 where m1:
    "sl_put hash ce td dflt k v m = Inr m1" "large_table m1 = None" "bt_ok hash m1" "kvs m1 = kvs m @ [(k, v)]"
    "length (bt_elems m1) = length (bt_elems m)" by auto
  moreover have "bt_n m1 = Suc (bt_n m)" using length_kvs [OF m1(3)] length_kvs [OF Cons.prems(2)] m1(4) by simp
  ultimately show ?case using Cons.IH [of m1] Cons.prems p by auto
qed simp

lemma grow_and_clear:
  assumes "large_table m = None" and bt: "bt_ok hash m" and full: "bt_n m = length (bt_elems m)" and "k \<notin> fst ` set (kvs m)"
  shows "\<exists>m'. sl_put hash ce True dflt k v m = Inr m' \<and> sl_clear True m' = Inr (m\<lparr>bt_n := 0\<rparr>)"
proof -
  note new = absent_key [OF bt assms(4)]
  let ?qs = "kvs m @ [(k, dflt)]"
  have mv: "move_to_large True m = Inr (m\<lparr>large_table := Some (kvs m), bt_n := 0\<rparr>)"
    using move_pairs [OF bt, of "bt_n m"] full length_kvs [OF bt] by (simp add: move_to_large_def destroy_buckets_def)
  have e: "std_emplace (k, dflt) (kvs m) = ?qs" using assms(4) by (auto simp: std_emplace_def)
  have kp: "key_pos k ?qs < length ?qs" using key_pos_in [of k ?qs] by simp
  show ?thesis
    using assms(1) new full kp
    by (cases "?qs ! key_pos k ?qs")
      (simp add: sl_put_def sl_index_def find_bucket_ok [OF bt] mv large_index_def e, simp add: Let_def sl_clear_def)
qed

text \<open>
  Clearing a map that has moved to the heap brings its old array back to life: \<^verbatim>\<open>clear\<close> deletes the
  large table but never empties the table of pointers, so a map of size zero still finds the keys it held
  before it grew (all but the first, whose bucket lies where \<^verbatim>\<open>end()\<close> points).
\<close>

theorem cleared_map_finds_old_keys:
  assumes "length ps = Suc N" and "distinct (map fst ps)" and "0 < j" and "j < N"
  shows "\<exists>m. rbind (for_each (\<lambda>(k, v). sl_put hash ce True dflt k v) ps (sl_new N)) (sl_clear True) = Inr m \<and>
    sl_size m = 0 \<and> sl_get hash ce (fst (ps ! j)) m = Inr (Some (snd (ps ! j)))"
proof -
  obtain qs k v where ps: "ps = qs @ [(k, v)]" and lq: "length qs = N"
    using assms(1) by (metis length_Suc_conv_rev prod.exhaust)
  have new: "large_table (sl_new N :: ('a, 'b) small_map) = None" "bt_ok hash (sl_new N :: ('a, 'b) small_map)"
    "bt_n (sl_new N :: ('a, 'b) small_map) = 0" "length (bt_elems (sl_new N :: ('a, 'b) small_map)) = N"
    "kvs (sl_new N :: ('a, 'b) small_map) = []" using assms(3,4)
    by (simp_all add: sl_new_def su_to_small_def bt_new_def bt_ok_def kvs_def bucket_table.defs small_map.defs)
  from small_puts_fill [OF new(1,2), of qs ce True dflt] new lq assms(2) ps obtain m where m:
    "for_each (\<lambda>(k, v). sl_put hash ce True dflt k v) qs (sl_new N) = Inr m" "large_table m = None" "bt_ok hash m"
    "kvs m = qs" "length (bt_elems m) = N" by auto
  have n: "bt_n m = N" using length_kvs [OF m(3)] m(4) lq by simp
  from grow_and_clear [OF m(2,3), of k ce dflt v] m n assms(2) ps obtain m1 where m1:
    "sl_put hash ce True dflt k v m = Inr m1" "sl_clear True m1 = Inr (m\<lparr>bt_n := 0\<rparr>)" by auto
  have j: "ps ! j = kvs m ! j" "fst (kvs m ! j) = bkey m j"
    using ps lq assms(4) m(4) fst_nth_kvs [OF m(3)] n by (simp_all add: nth_append)
  have f: "find_bucket hash ce (bkey m j) m = Inr (Some j)"
    using find_bucket_ok [OF m(3)] present_key [OF m(3), of j] n assms(4) by simp
  then have "find_bucket hash ce (bkey m j) (m\<lparr>bt_n := 0\<rparr>) = Inr (Some j)" by (simp add: find_bucket_def)
  moreover have "bucket_ref j (m\<lparr>bt_n := 0\<rparr>) = Inr (kvs m ! j)"
    using bucket_ref_ok [OF m(3), of j] n assms(4) by (simp add: bucket_ref_def)
  ultimately have "sl_get hash ce (fst (ps ! j)) (m\<lparr>bt_n := 0\<rparr>) = Inr (Some (snd (ps ! j)))"
    using j m(2) assms(3) by (simp add: sl_get_def sl_find_def sl_end_def case_prod_unfold)
  with m(1,2) m1 ps show ?thesis by (simp add: for_each_append sl_size_def)
qed

theorem cleared_map_finds_old_keys_witness:
  "\<exists>m. rbind (for_each (\<lambda>(k, v). sl_put myhash True True 0 k v) [(8, 1), (16, 2), (24, 3)] (sl_new 2)) (sl_clear True) = Inr m \<and>
    sl_size m = 0 \<and> sl_get myhash True 16 m = Inr (Some (2::nat))"
  using cleared_map_finds_old_keys [of "[(8, 1), (16, 2), (24, 3::nat)]" 2 1 myhash True 0] by simp

lemma TableSize_2: "TableSize 2 = 2"
  by (simp add: TableSize_eq ceil_log2_def Let_def bit_len.simps)

lemmas sl_evals = sl_put_def sl_index_def sl_get_def sl_find_def sl_end_def sl_clear_def find_bucket_def link_bucket_def
  bucket_set_def bucket_ref_def move_to_large_def large_index_def std_emplace_def destroy_buckets_def
  sl_new_def su_to_small_def bt_new_def bucket_table.defs small_map.defs

text \<open>
  Using such a map again may never end: the next assignment takes the first bucket of the array and
  puts it in front of the stale chain, which already contains that bucket.  The chain is then a cycle, and
  the lookup of a key that is not in it runs forever (three colliding keys in a map of small size two, then
  \<^verbatim>\<open>clear\<close>, one assignment, one lookup).
\<close>

theorem reused_map_lookup_never_ends:
  "rbind (for_each (\<lambda>(k, v). sl_put (\<lambda>_. 0) ce True (0::nat) k v) [(1::nat, 1), (2, 2), (3, 3)] (sl_new 2)) (\<lambda>m.
   rbind (sl_clear True m) (\<lambda>m. rbind (sl_put (\<lambda>_. 0) ce True 0 4 4 m) (sl_get (\<lambda>_. 0) ce 5))) = Inl Spins"
  by (simp add: sl_evals TableSize_2 eval_nat_numeral Let_def)

end
