(* ===== verification/Silo_Ticker.thy ===== *)
theory Silo_Ticker
  imports Rolis_Prelude
begin

text \<open>
  The system-wide ticker (\<^verbatim>\<open>ticker.h\<close>, with \<^verbatim>\<open>spinlock.h\<close>): a thread that advances the tick, and the guards with which the
  other threads, one per core, pin the tick they started in.  The accesses of the ticker and of a starting guard to shared
  memory are steps of their own, the end of a guard is one step, and the threads interleave in any order; the memory is sequentially consistent.  The code is the one with
  \<^verbatim>\<open>CHECK_INVARIANTS\<close>: a false \<^verbatim>\<open>INVARIANT\<close> is the error \<open>Assert_Fail\<close>, and a lock that is taken the value \<open>Spins\<close>.
  Ticks and depths are 64-bit numbers with their wrap-around written out.
\<close>

section \<open>The code\<close>

definition u64_inc :: "nat \<Rightarrow> nat" where "u64_inc x = (x + 1) mod 2 ^ 64"

definition u64_dec :: "nat \<Rightarrow> nat" where "u64_dec x = (x + 2 ^ 64 - 1) mod 2 ^ 64"

text \<open>\<^verbatim>\<open>spinlock\<close>: the value is the state of the lock.\<close>

definition spin_new :: u32 where "spin_new = 0"

definition spin_try_lock :: "u32 \<Rightarrow> bool \<times> u32" where
  "spin_try_lock v = (if v = 0 then (True, 1) else (False, v))"

definition spin_lock :: "u32 \<Rightarrow> u32 result" where
  "spin_lock v = (if v \<noteq> 0 then Inl Spins else case spin_try_lock v of (ok, v) \<Rightarrow> if ok then Inr v else Inl Spins)"

definition spin_unlock :: "u32 \<Rightarrow> u32 result" where
  "spin_unlock v = rbind (rassert (v \<noteq> 0)) (\<lambda>_. Inr 0)"

definition spin_is_locked :: "u32 \<Rightarrow> bool" where "spin_is_locked v \<longleftrightarrow> v \<noteq> 0"

record tickinfo =
  ti_lock :: u32
  ti_current_tick :: nat
  ti_depth :: nat
  ti_start_us :: nat

definition tickinfo_new :: tickinfo where
  "tickinfo_new = \<lparr>ti_lock = spin_new, ti_current_tick = 1, ti_depth = 0, ti_start_us = 0\<rparr>"

record guard =
  gd_core :: nat
  gd_tick :: nat
  gd_depth :: nat
  gd_start_us :: nat

text \<open>Where a thread is in the constructor of its outermost guard, and where the ticker is in its loop.\<close>

datatype guard_pc = G_None | G_Lock | G_Read | G_Store nat

datatype ticker_pc = T_Sleep | T_Scan nat nat | T_Lock nat nat | T_Store nat nat | T_Unlock nat nat

record worker =
  wk_pc :: guard_pc
  wk_guards :: "guard list"

record ticker =
  tk_ticks :: "tickinfo list"
  tk_current_tick :: nat
  tk_last_tick_inclusive :: nat
  tk_pc :: ticker_pc
  tk_workers :: "worker list"

definition ticker_new :: "nat \<Rightarrow> ticker" where
  "ticker_new n = \<lparr>tk_ticks = replicate n tickinfo_new, tk_current_tick = 1, tk_last_tick_inclusive = 0, tk_pc = T_Sleep,
     tk_workers = replicate n \<lparr>wk_pc = G_None, wk_guards = []\<rparr>\<rparr>"

definition global_current_tick :: "ticker \<Rightarrow> nat" where "global_current_tick s = tk_current_tick s"

definition global_last_tick_inclusive :: "ticker \<Rightarrow> nat" where "global_last_tick_inclusive s = tk_last_tick_inclusive s"

definition global_last_tick_exclusive :: "ticker \<Rightarrow> nat" where
  "global_last_tick_exclusive s = u64_inc (global_last_tick_inclusive s)"

definition compute_global_last_tick_exclusive :: "ticker \<Rightarrow> nat result" where
  "compute_global_last_tick_exclusive s = rbind (vec_at (tk_ticks s) 0) (\<lambda>t0.
     Inr (fold (\<lambda>i e. min e (ti_current_tick (tk_ticks s ! i))) [1..<length (tk_ticks s)] (ti_current_tick t0)))"

definition is_locally_guarded :: "nat \<Rightarrow> ticker \<Rightarrow> nat option result" where
  "is_locally_guarded c s = rbind (vec_at (tk_ticks s) c) (\<lambda>ti.
     Inr (if ti_depth ti \<noteq> 0 then Some (ti_current_tick ti) else None))"

definition lock_for :: "nat \<Rightarrow> ticker \<Rightarrow> u32 result" where
  "lock_for c s = rbind (rassert (c < length (tk_ticks s))) (\<lambda>_. Inr (ti_lock (tk_ticks s ! c)))"

definition upd_core :: "nat \<Rightarrow> tickinfo \<Rightarrow> worker \<Rightarrow> ticker \<Rightarrow> ticker" where
  "upd_core c ti w s = s\<lparr>tk_ticks := (tk_ticks s)[c := ti], tk_workers := (tk_workers s)[c := w]\<rparr>"

text \<open>The constructor of a guard on core \<open>c\<close>, up to the lock, and its steps behind it.\<close>

definition guard_begin :: "nat \<Rightarrow> ticker \<Rightarrow> ticker result" where
  "guard_begin c s = rbind (vec_at (tk_ticks s) c) (\<lambda>ti. rbind (vec_at (tk_workers s) c) (\<lambda>w.
     let prev_depth = ti_depth ti; ti' = ti\<lparr>ti_depth := u64_inc prev_depth\<rparr>
     in if prev_depth = 0 then Inr (upd_core c ti' (w\<lparr>wk_pc := G_Lock\<rparr>) s)
        else rbind (rassert (spin_is_locked (ti_lock ti))) (\<lambda>_.
          Inr (upd_core c ti' (w\<lparr>wk_guards := \<lparr>gd_core = c, gd_tick = ti_current_tick ti, gd_depth = u64_inc prev_depth,
            gd_start_us = ti_start_us ti\<rparr> # wk_guards w\<rparr>) s))))"

definition guard_go :: "nat \<Rightarrow> nat \<Rightarrow> ticker \<Rightarrow> ticker result" where
  "guard_go c now s = rbind (vec_at (tk_ticks s) c) (\<lambda>ti. rbind (vec_at (tk_workers s) c) (\<lambda>w. case wk_pc w of
     G_None \<Rightarrow> Inl Spins
   | G_Lock \<Rightarrow> rbind (spin_lock (ti_lock ti)) (\<lambda>v. Inr (upd_core c (ti\<lparr>ti_lock := v\<rparr>) (w\<lparr>wk_pc := G_Read\<rparr>) s))
   | G_Read \<Rightarrow> Inr (upd_core c ti (w\<lparr>wk_pc := G_Store (global_current_tick s)\<rparr>) s)
   | G_Store tick \<Rightarrow> rbind (rassert (ti_current_tick ti \<le> tick)) (\<lambda>_. rbind (rassert (spin_is_locked (ti_lock ti))) (\<lambda>_.
       Inr (upd_core c (ti\<lparr>ti_current_tick := tick, ti_start_us := now\<rparr>)
         (w\<lparr>wk_pc := G_None, wk_guards := \<lparr>gd_core = c, gd_tick = tick, gd_depth = 1, gd_start_us = now\<rparr> # wk_guards w\<rparr>) s)))))"

text \<open>The destructor of the innermost guard of core \<open>c\<close>.\<close>

definition guard_end :: "nat \<Rightarrow> ticker \<Rightarrow> ticker result" where
  "guard_end c s = rbind (vec_at (tk_ticks s) c) (\<lambda>ti. rbind (vec_at (tk_workers s) c) (\<lambda>w. case wk_guards w of
     [] \<Rightarrow> Inl Spins
   | g # gs \<Rightarrow> rbind (rassert (gd_core g = c)) (\<lambda>_. rbind (rassert (spin_is_locked (ti_lock ti))) (\<lambda>_.
       rbind (rassert (global_last_tick_inclusive s < gd_tick g)) (\<lambda>_.
       let prev_depth = ti_depth ti; ti' = ti\<lparr>ti_depth := u64_dec prev_depth\<rparr>; w' = w\<lparr>wk_guards := gs\<rparr>
       in rbind (rassert (prev_depth \<noteq> 0)) (\<lambda>_.
          if prev_depth = 1 then rbind (spin_unlock (ti_lock ti)) (\<lambda>v. Inr (upd_core c (ti'\<lparr>ti_start_us := 0, ti_lock := v\<rparr>) w' s))
          else Inr (upd_core c ti' w' s)))))))"

text \<open>One step of \<^verbatim>\<open>tickerloop\<close>; the nap at the head of the loop is part of the first one.\<close>

definition ticker_tick :: "ticker \<Rightarrow> ticker result" where
  "ticker_tick s = (case tk_pc s of
     T_Sleep \<Rightarrow> let last_tick = tk_current_tick s in Inr (s\<lparr>tk_current_tick := u64_inc last_tick, tk_pc := T_Scan last_tick 0\<rparr>)
   | T_Scan last_tick i \<Rightarrow>
       if i < length (tk_ticks s) then
         let t = ti_current_tick (tk_ticks s ! i)
         in rbind (rassert (t = last_tick \<or> t = u64_inc last_tick)) (\<lambda>_.
            Inr (s\<lparr>tk_pc := if t = u64_inc last_tick then T_Scan last_tick (i + 1) else T_Lock last_tick i\<rparr>))
       else Inr (s\<lparr>tk_last_tick_inclusive := last_tick, tk_pc := T_Sleep\<rparr>)
   | T_Lock last_tick i \<Rightarrow> rbind (vec_at (tk_ticks s) i) (\<lambda>ti. rbind (spin_lock (ti_lock ti)) (\<lambda>v.
       Inr (s\<lparr>tk_ticks := (tk_ticks s)[i := ti\<lparr>ti_lock := v\<rparr>], tk_pc := T_Store last_tick i\<rparr>)))
   | T_Store last_tick i \<Rightarrow> rbind (vec_at (tk_ticks s) i) (\<lambda>ti.
       Inr (s\<lparr>tk_ticks := (tk_ticks s)[i := ti\<lparr>ti_current_tick := u64_inc last_tick\<rparr>], tk_pc := T_Unlock last_tick i\<rparr>))
   | T_Unlock last_tick i \<Rightarrow> rbind (vec_at (tk_ticks s) i) (\<lambda>ti. rbind (spin_unlock (ti_lock ti)) (\<lambda>v.
       Inr (s\<lparr>tk_ticks := (tk_ticks s)[i := ti\<lparr>ti_lock := v\<rparr>], tk_pc := T_Scan last_tick (i + 1)\<rparr>))))"

text \<open>The steps of the system: a step of the ticker, the start of a guard, its next step, and the end of a guard.\<close>

datatype tick_action = Tick | Guard nat | Go nat nat | Unguard nat

fun tick_exec :: "tick_action \<Rightarrow> ticker \<Rightarrow> ticker result" where
  "tick_exec Tick s = ticker_tick s"
| "tick_exec (Guard c) s = (if c < length (tk_workers s) \<and> wk_pc (tk_workers s ! c) = G_None then guard_begin c s else Inl Spins)"
| "tick_exec (Go c now) s = (if c < length (tk_workers s) then guard_go c now s else Inl Spins)"
| "tick_exec (Unguard c) s = (if c < length (tk_workers s) \<and> wk_pc (tk_workers s ! c) = G_None then guard_end c s else Inl Spins)"

text \<open>
  The counters do not wrap in a run of interest: a tick takes 40 milliseconds, and a nesting of guards lives on the
  stack.
\<close>

fun no_wrap :: "tick_action \<Rightarrow> ticker \<Rightarrow> bool" where
  "no_wrap Tick s \<longleftrightarrow> (tk_pc s = T_Sleep \<longrightarrow> tk_current_tick s + 1 < 2 ^ 64)"
| "no_wrap (Guard c) s \<longleftrightarrow> (c < length (tk_ticks s) \<longrightarrow> ti_depth (tk_ticks s ! c) + 1 < 2 ^ 64)"
| "no_wrap _ s \<longleftrightarrow> True"

inductive ticker_reach :: "nat \<Rightarrow> ticker \<Rightarrow> bool" for n where
  start: "ticker_reach n (ticker_new n)"
| step: "ticker_reach n s \<Longrightarrow> no_wrap a s \<Longrightarrow> tick_exec a s = Inr s' \<Longrightarrow> ticker_reach n s'"

section \<open>The invariant\<close>

text \<open>
  \<open>phase_ok\<close> relates the ticks of the cores to the place of the ticker in its loop: cores before it have the new tick,
  the others the last or the new one.  \<open>core_ok\<close> relates the lock, the depth and the tick of a core to its thread; the
  lock is held by the thread or by the ticker, never by both.
\<close>

fun phase_ok :: "ticker_pc \<Rightarrow> nat \<Rightarrow> nat \<Rightarrow> nat list \<Rightarrow> bool" where
  "phase_ok T_Sleep cur l ts \<longleftrightarrow> l + 1 = cur \<and> (\<forall>t \<in> set ts. t = cur)"
| "phase_ok (T_Scan last_tick i) cur l ts \<longleftrightarrow> l + 1 = last_tick \<and> last_tick + 1 = cur \<and> i \<le> length ts \<and>
     (\<forall>j < i. ts ! j = cur) \<and> (\<forall>t \<in> set ts. t = last_tick \<or> t = cur)"
| "phase_ok (T_Lock last_tick i) cur l ts \<longleftrightarrow> l + 1 = last_tick \<and> last_tick + 1 = cur \<and> i < length ts \<and>
     (\<forall>j < i. ts ! j = cur) \<and> (\<forall>t \<in> set ts. t = last_tick \<or> t = cur)"
| "phase_ok (T_Store last_tick i) cur l ts \<longleftrightarrow> l + 1 = last_tick \<and> last_tick + 1 = cur \<and> i < length ts \<and>
     (\<forall>j < i. ts ! j = cur) \<and> (\<forall>t \<in> set ts. t = last_tick \<or> t = cur)"
| "phase_ok (T_Unlock last_tick i) cur l ts \<longleftrightarrow> l + 1 = last_tick \<and> last_tick + 1 = cur \<and> i < length ts \<and>
     (\<forall>j \<le> i. ts ! j = cur) \<and> (\<forall>t \<in> set ts. t = last_tick \<or> t = cur)"

fun ticker_holds :: "ticker_pc \<Rightarrow> nat \<Rightarrow> bool" where
  "ticker_holds (T_Store last_tick i) c \<longleftrightarrow> c = i"
| "ticker_holds (T_Unlock last_tick i) c \<longleftrightarrow> c = i"
| "ticker_holds _ c \<longleftrightarrow> False"

fun pc_holds :: "guard_pc \<Rightarrow> bool" where
  "pc_holds G_Read \<longleftrightarrow> True"
| "pc_holds (G_Store t) \<longleftrightarrow> True"
| "pc_holds _ \<longleftrightarrow> False"

definition core_ok :: "nat \<Rightarrow> nat \<Rightarrow> bool \<Rightarrow> tickinfo \<Rightarrow> worker \<Rightarrow> bool" where
  "core_ok c cur th ti w \<longleftrightarrow>
     (wk_pc w \<noteq> G_None \<longrightarrow> wk_guards w = []) \<and>
     ti_depth ti = length (wk_guards w) + (if wk_pc w = G_None then 0 else 1) \<and> ti_depth ti < 2 ^ 64 \<and>
     (th \<longrightarrow> \<not> pc_holds (wk_pc w) \<and> wk_guards w = []) \<and>
     (ti_lock ti \<noteq> 0 \<longleftrightarrow> th \<or> pc_holds (wk_pc w) \<or> wk_guards w \<noteq> []) \<and>
     (\<forall>g \<in> set (wk_guards w). gd_tick g = ti_current_tick ti \<and> gd_core g = c) \<and>
     (\<forall>t. wk_pc w = G_Store t \<longrightarrow> ti_current_tick ti \<le> t \<and> t \<le> cur)"

definition ticker_inv :: "ticker \<Rightarrow> bool" where
  "ticker_inv s \<longleftrightarrow> length (tk_workers s) = length (tk_ticks s) \<and> tk_current_tick s < 2 ^ 64 \<and>
     phase_ok (tk_pc s) (tk_current_tick s) (tk_last_tick_inclusive s) (map ti_current_tick (tk_ticks s)) \<and>
     (\<forall>c < length (tk_ticks s). core_ok c (tk_current_tick s) (ticker_holds (tk_pc s) c) (tk_ticks s ! c) (tk_workers s ! c))"

named_theorems ticker_defs "the steps of the ticker and of its guards"

lemmas ticker_step_defs [ticker_defs] =
  guard_begin_def guard_go_def guard_end_def ticker_tick_def spin_lock_def spin_try_lock_def spin_unlock_def spin_is_locked_def
  global_current_tick_def global_last_tick_inclusive_def

lemma u64_inc_small [simp]: "x + 1 < 2 ^ 64 \<Longrightarrow> u64_inc x = x + 1"
  by (simp add: u64_inc_def)

lemma u64_dec_small [simp]: "0 < x \<Longrightarrow> x < 2 ^ 64 \<Longrightarrow> u64_dec x = x - 1"
proof -
  assume x: "0 < x" "x < 2 ^ 64"
  then have "x + 2 ^ 64 - 1 = (x - 1) + 2 ^ 64" by simp
  then show ?thesis unfolding u64_dec_def using x by (metis less_imp_diff_less mod_add_self2 mod_less)
qed

lemma phase_bounds:
  assumes "phase_ok pc cur l ts" and "t \<in> set ts"
  shows "l < t" and "t \<le> cur" and "cur \<le> t + 1"
proof -
  have "l < t \<and> t \<le> cur \<and> cur \<le> t + 1" using assms by (cases pc) auto
  then show "l < t" "t \<le> cur" "cur \<le> t + 1" by simp_all
qed

lemma phase_advance:
  assumes "phase_ok pc cur l ts" and "c < length ts" and "ts ! c \<le> t" and "t \<le> cur"
  shows "phase_ok pc cur l (ts[c := t])"
proof -
  have "ts ! c \<in> set ts" using assms(2) by simp
  from phase_bounds [OF assms(1) this] assms(3,4) have "t = ts ! c \<or> t = cur" by linarith
  moreover have "phase_ok pc cur l (ts[c := cur])"
    using assms(1,2) by (cases pc) (auto simp: nth_list_update dest!: set_update_subset_insert [THEN subsetD])
  ultimately show ?thesis using assms(1) by auto
qed

lemma inv_coreD:
  assumes "ticker_inv s" and "c < length (tk_ticks s)"
  shows "core_ok c (tk_current_tick s) (ticker_holds (tk_pc s) c) (tk_ticks s ! c) (tk_workers s ! c)"
    and "tk_last_tick_inclusive s < ti_current_tick (tk_ticks s ! c)" and "ti_current_tick (tk_ticks s ! c) \<le> tk_current_tick s"
    and "tk_current_tick s \<le> ti_current_tick (tk_ticks s ! c) + 1"
proof -
  show "core_ok c (tk_current_tick s) (ticker_holds (tk_pc s) c) (tk_ticks s ! c) (tk_workers s ! c)"
    using assms by (simp add: ticker_inv_def)
  have "phase_ok (tk_pc s) (tk_current_tick s) (tk_last_tick_inclusive s) (map ti_current_tick (tk_ticks s))"
    and "ti_current_tick (tk_ticks s ! c) \<in> set (map ti_current_tick (tk_ticks s))" using assms by (simp_all add: ticker_inv_def)
  from phase_bounds [OF this] show "tk_last_tick_inclusive s < ti_current_tick (tk_ticks s ! c)"
    "ti_current_tick (tk_ticks s ! c) \<le> tk_current_tick s" "tk_current_tick s \<le> ti_current_tick (tk_ticks s ! c) + 1" .
qed

lemma inv_upd_core:
  assumes inv: "ticker_inv s" and c: "c < length (tk_ticks s)"
    and ok: "core_ok c (tk_current_tick s) (ticker_holds (tk_pc s) c) ti w"
    and tick: "ti_current_tick (tk_ticks s ! c) \<le> ti_current_tick ti" "ti_current_tick ti \<le> tk_current_tick s"
  shows "ticker_inv (upd_core c ti w s)"
proof -
  have "phase_ok (tk_pc s) (tk_current_tick s) (tk_last_tick_inclusive s)
      ((map ti_current_tick (tk_ticks s))[c := ti_current_tick ti])"
    using inv c tick by (intro phase_advance) (simp_all add: ticker_inv_def)
  then show ?thesis using inv c ok by (auto simp: ticker_inv_def upd_core_def nth_list_update map_update)
qed

lemma inv_new: "ticker_inv (ticker_new n)"
  by (auto simp: ticker_inv_def ticker_new_def tickinfo_new_def core_ok_def spin_new_def)

text \<open>No step fails an \<^verbatim>\<open>INVARIANT\<close> of the code, and every step keeps the invariant.\<close>

lemma guard_begin_ok:
  assumes inv: "ticker_inv s" and c: "c < length (tk_ticks s)" and idle: "wk_pc (tk_workers s ! c) = G_None"
    and wrap: "ti_depth (tk_ticks s ! c) + 1 < 2 ^ 64"
  shows "step_ok ticker_inv (guard_begin c s)"
proof -
  have len: "length (tk_workers s) = length (tk_ticks s)" using inv by (simp add: ticker_inv_def)
  note C = inv_coreD [OF inv c]
  show ?thesis
  proof (cases "ti_depth (tk_ticks s ! c) = 0")
    case True
    have "ticker_inv (upd_core c ((tk_ticks s ! c)\<lparr>ti_depth := 1\<rparr>) ((tk_workers s ! c)\<lparr>wk_pc := G_Lock\<rparr>) s)"
      using C True idle by (intro inv_upd_core [OF inv c]) (auto simp: core_ok_def)
    then show ?thesis using True c len by (simp add: guard_begin_def)
  next
    case False
    have "spin_is_locked (ti_lock (tk_ticks s ! c))" using C(1) False idle by (auto simp: core_ok_def spin_is_locked_def)
    moreover have "ticker_inv (upd_core c ((tk_ticks s ! c)\<lparr>ti_depth := ti_depth (tk_ticks s ! c) + 1\<rparr>)
      ((tk_workers s ! c)\<lparr>wk_guards := \<lparr>gd_core = c, gd_tick = ti_current_tick (tk_ticks s ! c), gd_depth = ti_depth (tk_ticks s ! c) + 1,
            gd_start_us = ti_start_us (tk_ticks s ! c)\<rparr> # wk_guards (tk_workers s ! c)\<rparr>) s)"
      using C False idle wrap by (intro inv_upd_core [OF inv c]) (auto simp: core_ok_def)
    ultimately show ?thesis using False c len wrap by (simp add: guard_begin_def Let_def)
  qed
qed

lemma guard_go_ok:
  assumes inv: "ticker_inv s" and c: "c < length (tk_ticks s)"
  shows "step_ok ticker_inv (guard_go c now s)"
proof -
  have len: "length (tk_workers s) = length (tk_ticks s)" using inv by (simp add: ticker_inv_def)
  note C = inv_coreD [OF inv c]
  show ?thesis
  proof (cases "wk_pc (tk_workers s ! c)")
    case G_Lock
    show ?thesis
    proof (cases "ti_lock (tk_ticks s ! c) = 0")
      case True
      have "ticker_inv (upd_core c ((tk_ticks s ! c)\<lparr>ti_lock := 1\<rparr>) ((tk_workers s ! c)\<lparr>wk_pc := G_Read\<rparr>) s)"
        using C G_Lock True by (intro inv_upd_core [OF inv c]) (auto simp: core_ok_def)
      then show ?thesis using G_Lock True c len by (simp add: ticker_defs)
    qed (use G_Lock c len in \<open>simp add: ticker_defs\<close>)
  next
    case G_Read
    have "ticker_inv (upd_core c (tk_ticks s ! c) ((tk_workers s ! c)\<lparr>wk_pc := G_Store (tk_current_tick s)\<rparr>) s)"
      using C G_Read by (intro inv_upd_core [OF inv c]) (auto simp: core_ok_def)
    then show ?thesis using G_Read c len by (simp add: ticker_defs)
  next
    case (G_Store t)
    have "ti_current_tick (tk_ticks s ! c) \<le> t" "t \<le> tk_current_tick s" "ti_lock (tk_ticks s ! c) \<noteq> 0" "wk_guards (tk_workers s ! c) = []"
      using C(1) G_Store by (simp_all add: core_ok_def)
    moreover from this have "ticker_inv (upd_core c ((tk_ticks s ! c)\<lparr>ti_current_tick := t, ti_start_us := now\<rparr>)
         ((tk_workers s ! c)\<lparr>wk_pc := G_None, wk_guards := [\<lparr>gd_core = c, gd_tick = t, gd_depth = 1, gd_start_us = now\<rparr>]\<rparr>) s)"
      using C G_Store by (intro inv_upd_core [OF inv c]) (auto simp: core_ok_def)
    ultimately show ?thesis using G_Store c len by (simp add: ticker_defs)
  qed (use c len in \<open>simp add: guard_go_def\<close>)
qed

lemma guard_end_ok:
  assumes inv: "ticker_inv s" and c: "c < length (tk_ticks s)" and idle: "wk_pc (tk_workers s ! c) = G_None"
  shows "step_ok ticker_inv (guard_end c s)"
proof (cases "wk_guards (tk_workers s ! c)")
  case Nil
  then show ?thesis using c inv by (simp add: guard_end_def ticker_inv_def)
next
  case (Cons g gs)
  have len: "length (tk_workers s) = length (tk_ticks s)" using inv by (simp add: ticker_inv_def)
  note C = inv_coreD [OF inv c]
  let ?ti = "tk_ticks s ! c" and ?w = "tk_workers s ! c"
  have g: "gd_core g = c" "gd_tick g = ti_current_tick ?ti" "ti_lock ?ti \<noteq> 0" "ti_depth ?ti = Suc (length gs)" "ti_depth ?ti < 2 ^ 64"
    "\<not> ticker_holds (tk_pc s) c"
    using C(1) Cons idle by (auto simp: core_ok_def)
  show ?thesis
  proof (cases "gs = []")
    case True
    have "ticker_inv (upd_core c (?ti\<lparr>ti_depth := 0, ti_start_us := 0, ti_lock := 0\<rparr>) (?w\<lparr>wk_guards := []\<rparr>) s)"
      using C g idle by (intro inv_upd_core [OF inv c]) (auto simp: core_ok_def)
    then show ?thesis using True Cons g C(2) c len by (simp add: ticker_defs Let_def)
  next
    case False
    have "ticker_inv (upd_core c (?ti\<lparr>ti_depth := length gs\<rparr>) (?w\<lparr>wk_guards := gs\<rparr>) s)"
      using C g idle False Cons by (intro inv_upd_core [OF inv c]) (auto simp: core_ok_def)
    then show ?thesis using False Cons g C(2) c len by (simp add: ticker_defs Let_def)
  qed
qed

lemma inv_upd_ticker:
  assumes inv: "ticker_inv s" and i: "i < length (tk_ticks s)"
    and ok: "core_ok i (tk_current_tick s) (ticker_holds pc i) ti (tk_workers s ! i)"
    and phase: "phase_ok pc (tk_current_tick s) (tk_last_tick_inclusive s) ((map ti_current_tick (tk_ticks s))[i := ti_current_tick ti])"
    and holds: "\<And>c. c \<noteq> i \<Longrightarrow> ticker_holds pc c = ticker_holds (tk_pc s) c"
  shows "ticker_inv (s\<lparr>tk_ticks := (tk_ticks s)[i := ti], tk_pc := pc\<rparr>)"
  using assms by (auto simp: ticker_inv_def nth_list_update map_update)

lemma ticker_tick_ok:
  assumes inv: "ticker_inv s" and wrap: "tk_pc s = T_Sleep \<Longrightarrow> tk_current_tick s + 1 < 2 ^ 64"
  shows "step_ok ticker_inv (ticker_tick s)"
proof -
  have small: "tk_current_tick s < 2 ^ 64" using inv by (simp add: ticker_inv_def)
  let ?ph = "\<lambda>pc. phase_ok pc (tk_current_tick s) (tk_last_tick_inclusive s) (map ti_current_tick (tk_ticks s))"
  have ph: "?ph (tk_pc s)" using inv by (simp add: ticker_inv_def)
  show ?thesis
  proof (cases "tk_pc s")
    case T_Sleep
    have "core_ok c (tk_current_tick s + 1) False (tk_ticks s ! c) (tk_workers s ! c)" if "c < length (tk_ticks s)" for c
      using inv_coreD(1) [OF inv that] T_Sleep by (auto simp: core_ok_def)
    then show ?thesis using inv T_Sleep wrap by (auto simp: ticker_tick_def ticker_inv_def Let_def)
  next
    case (T_Scan lt i)
    have lt: "u64_inc lt = lt + 1" "tk_current_tick s = lt + 1" using ph small T_Scan by auto
    show ?thesis
    proof (cases "i < length (tk_ticks s)")
      case True
      let ?t = "ti_current_tick (tk_ticks s ! i)"
      have t: "?t = lt \<or> ?t = lt + 1" using ph T_Scan True by simp
      let ?pc = "if ?t = lt + 1 then T_Scan lt (i + 1) else T_Lock lt i"
      have "?ph ?pc" using ph T_Scan True lt by (auto simp: less_Suc_eq)
      then have "ticker_inv (s\<lparr>tk_pc := ?pc\<rparr>)" using inv T_Scan by (auto simp: ticker_inv_def)
      then show ?thesis using T_Scan True t lt(1) by (auto simp: ticker_tick_def Let_def)
    next
      case False
      then have i: "i = length (tk_ticks s)" using ph T_Scan by simp
      have "phase_ok T_Sleep (tk_current_tick s) lt (map ti_current_tick (tk_ticks s))"
        using ph T_Scan i lt(2) by (auto simp: in_set_conv_nth)
      then show ?thesis using inv T_Scan False by (auto simp: ticker_tick_def ticker_inv_def)
    qed
  next
    case (T_Lock lt i)
    then have i: "i < length (tk_ticks s)" using ph by simp
    note C = inv_coreD [OF inv i]
    show ?thesis
    proof (cases "ti_lock (tk_ticks s ! i) = 0")
      case True
      have "ticker_inv (s\<lparr>tk_ticks := (tk_ticks s)[i := (tk_ticks s ! i)\<lparr>ti_lock := 1\<rparr>], tk_pc := T_Store lt i\<rparr>)"
        using C(1) ph T_Lock True i by (intro inv_upd_ticker [OF inv i]) (auto simp: core_ok_def map_update [symmetric] list_update_same_conv)
      then show ?thesis using T_Lock True i by (simp add: ticker_defs)
    qed (use T_Lock i in \<open>simp add: ticker_defs\<close>)
  next
    case (T_Store lt i)
    then have i: "i < length (tk_ticks s)" and lt: "u64_inc lt = lt + 1" "tk_current_tick s = lt + 1" using ph small by auto
    note C = inv_coreD [OF inv i]
    have "ticker_inv (s\<lparr>tk_ticks := (tk_ticks s)[i := (tk_ticks s ! i)\<lparr>ti_current_tick := lt + 1\<rparr>], tk_pc := T_Unlock lt i\<rparr>)"
      using C(1) ph T_Store i lt(2)
      by (intro inv_upd_ticker [OF inv i]) (auto simp: core_ok_def nth_list_update dest!: set_update_subset_insert [THEN subsetD])
    then show ?thesis using T_Store i lt by (simp add: ticker_defs)
  next
    case (T_Unlock lt i)
    then have i: "i < length (tk_ticks s)" using ph by simp
    note C = inv_coreD [OF inv i]
    have "ti_lock (tk_ticks s ! i) \<noteq> 0" using C(1) T_Unlock by (simp add: core_ok_def)
    moreover have "ticker_inv (s\<lparr>tk_ticks := (tk_ticks s)[i := (tk_ticks s ! i)\<lparr>ti_lock := 0\<rparr>], tk_pc := T_Scan lt (i + 1)\<rparr>)"
    proof (intro inv_upd_ticker [OF inv i])
      show "core_ok i (tk_current_tick s) (ticker_holds (T_Scan lt (i + 1)) i) ((tk_ticks s ! i)\<lparr>ti_lock := 0\<rparr>) (tk_workers s ! i)"
        using C(1) T_Unlock by (auto simp: core_ok_def)
      have "?ph (T_Scan lt (i + 1))" using ph T_Unlock by (auto simp: less_Suc_eq_le)
      then show "phase_ok (T_Scan lt (i + 1)) (tk_current_tick s) (tk_last_tick_inclusive s)
        ((map ti_current_tick (tk_ticks s))[i := ti_current_tick ((tk_ticks s ! i)\<lparr>ti_lock := 0\<rparr>)])"
        using i by (simp add: map_update [symmetric] del: phase_ok.simps)
    qed (use T_Unlock in auto)
    ultimately show ?thesis using T_Unlock i by (simp add: ticker_defs)
  qed
qed

lemma tick_exec_ok:
  assumes "ticker_inv s" and "no_wrap a s"
  shows "step_ok ticker_inv (tick_exec a s)"
proof -
  have "length (tk_workers s) = length (tk_ticks s)" using assms(1) by (simp add: ticker_inv_def)
  then show ?thesis
    using assms guard_begin_ok guard_go_ok guard_end_ok ticker_tick_ok by (cases a) simp_all
qed

lemma tick_exec_inv: "ticker_inv s \<Longrightarrow> no_wrap a s \<Longrightarrow> tick_exec a s = Inr s' \<Longrightarrow> ticker_inv s'"
  using tick_exec_ok by fastforce

lemma ticker_reach_inv: "ticker_reach n s \<Longrightarrow> ticker_inv s"
  by (induction rule: ticker_reach.induct) (auto intro: inv_new tick_exec_inv)

lemma tick_exec_lengths:
  "tick_exec a s = Inr s' \<Longrightarrow> length (tk_ticks s') = length (tk_ticks s) \<and> length (tk_workers s') = length (tk_workers s)"
  by (cases a) (auto simp: ticker_defs upd_core_def Let_def result_simps split: if_splits guard_pc.splits ticker_pc.splits list.splits)

lemma ticker_reach_lengths: "ticker_reach n s \<Longrightarrow> length (tk_ticks s) = n \<and> length (tk_workers s) = n"
  by (induction rule: ticker_reach.induct) (auto simp: ticker_new_def dest: tick_exec_lengths)

section \<open>The effect of a step\<close>

text \<open>
  What other components see of a step: the thread of another core is left alone, ticks only grow, and the tick of a core
  whose thread is guarded does not move.
\<close>

fun action_core :: "tick_action \<Rightarrow> nat option" where
  "action_core Tick = None"
| "action_core (Guard c) = Some c"
| "action_core (Go c now) = Some c"
| "action_core (Unguard c) = Some c"

lemma guard_effect:
  assumes inv: "ticker_inv s" and run: "tick_exec (Guard c) s = Inr s'"
  obtains ti w where "s' = upd_core c ti w s" "ti_current_tick ti = ti_current_tick (tk_ticks s ! c)" "c < length (tk_ticks s)"
    "wk_pc w = (if wk_guards (tk_workers s ! c) = [] then G_Lock else G_None)"
    "length (wk_guards w) = (if wk_guards (tk_workers s ! c) = [] then 0 else Suc (length (wk_guards (tk_workers s ! c))))"
proof -
  have c: "c < length (tk_ticks s)" "wk_pc (tk_workers s ! c) = G_None" "length (tk_workers s) = length (tk_ticks s)"
    using run inv by (auto simp: ticker_inv_def split: if_splits)
  have "ti_depth (tk_ticks s ! c) = 0 \<longleftrightarrow> wk_guards (tk_workers s ! c) = []"
    using inv_coreD(1) [OF inv c(1)] c(2) by (simp add: core_ok_def)
  then show thesis using that run c by (auto simp: guard_begin_def Let_def result_simps split: if_splits)
qed

lemma go_effect:
  assumes inv: "ticker_inv s" and run: "tick_exec (Go c now) s = Inr s'"
  obtains ti w where "s' = upd_core c ti w s" "ti_current_tick (tk_ticks s ! c) \<le> ti_current_tick ti" "c < length (tk_ticks s)"
    "wk_pc (tk_workers s ! c) \<noteq> G_None" "wk_guards (tk_workers s ! c) = []" "length (wk_guards w) = (if wk_pc w = G_None then 1 else 0)"
proof -
  have c: "c < length (tk_ticks s)" "length (tk_workers s) = length (tk_ticks s)"
    using run inv by (auto simp: ticker_inv_def split: if_splits)
  have pc: "wk_pc (tk_workers s ! c) \<noteq> G_None" using run c by (auto simp: guard_go_def)
  then have "wk_guards (tk_workers s ! c) = []" using inv_coreD(1) [OF inv c(1)] by (simp add: core_ok_def)
  then show thesis using that run c pc by (cases "wk_pc (tk_workers s ! c)") (auto simp: guard_go_def result_simps)
qed

lemma unguard_effect:
  assumes inv: "ticker_inv s" and run: "tick_exec (Unguard c) s = Inr s'"
  obtains ti w where "s' = upd_core c ti w s" "ti_current_tick ti = ti_current_tick (tk_ticks s ! c)" "c < length (tk_ticks s)"
    "wk_pc w = G_None" "wk_guards (tk_workers s ! c) \<noteq> []" "wk_guards w = tl (wk_guards (tk_workers s ! c))"
proof -
  have c: "c < length (tk_ticks s)" "wk_pc (tk_workers s ! c) = G_None" "length (tk_workers s) = length (tk_ticks s)"
    using run inv by (auto simp: ticker_inv_def split: if_splits)
  then show thesis using that run
    by (cases "wk_guards (tk_workers s ! c)") (auto simp: guard_end_def Let_def result_simps split: if_splits)
qed

lemma tick_effect:
  assumes inv: "ticker_inv s" and run: "tick_exec Tick s = Inr s'"
  shows "tk_workers s' = tk_workers s" and "tk_last_tick_inclusive s \<le> tk_last_tick_inclusive s'"
    and "r < length (tk_ticks s) \<Longrightarrow> ti_current_tick (tk_ticks s ! r) \<le> ti_current_tick (tk_ticks s' ! r)"
    and "r < length (tk_ticks s) \<Longrightarrow> wk_guards (tk_workers s ! r) \<noteq> [] \<Longrightarrow> ti_current_tick (tk_ticks s' ! r) = ti_current_tick (tk_ticks s ! r)"
proof -
  have ph: "phase_ok (tk_pc s) (tk_current_tick s) (tk_last_tick_inclusive s) (map ti_current_tick (tk_ticks s))"
    and small: "tk_current_tick s < 2 ^ 64" using inv by (simp_all add: ticker_inv_def)
  show "tk_workers s' = tk_workers s" using run
    by (auto simp: ticker_tick_def Let_def result_simps split: ticker_pc.splits if_splits)
  show "tk_last_tick_inclusive s \<le> tk_last_tick_inclusive s'" using run ph
    by (cases "tk_pc s") (auto simp: ticker_tick_def Let_def result_simps split: if_splits)
  { assume r: "r < length (tk_ticks s)"
    note C = inv_coreD [OF inv r]
    have "(\<exists>lt. tk_pc s = T_Store lt r \<and> ti_current_tick (tk_ticks s' ! r) = u64_inc lt) \<or> ti_current_tick (tk_ticks s' ! r) = ti_current_tick (tk_ticks s ! r)"
      using run r by (cases "tk_pc s") (auto simp: ticker_tick_def Let_def result_simps nth_list_update split: if_splits)
    then consider lt where "tk_pc s = T_Store lt r" "ti_current_tick (tk_ticks s' ! r) = u64_inc lt"
      | "ti_current_tick (tk_ticks s' ! r) = ti_current_tick (tk_ticks s ! r)" by blast
    then have "ti_current_tick (tk_ticks s ! r) \<le> ti_current_tick (tk_ticks s' ! r) \<and>
        (wk_guards (tk_workers s ! r) \<noteq> [] \<longrightarrow> ti_current_tick (tk_ticks s' ! r) = ti_current_tick (tk_ticks s ! r))"
    proof cases
      case (1 lt)
      have "u64_inc lt = tk_current_tick s" using ph small 1(1) by auto
      then show ?thesis using C(1,3) 1 by (simp add: core_ok_def)
    qed simp }
  then show "r < length (tk_ticks s) \<Longrightarrow> ti_current_tick (tk_ticks s ! r) \<le> ti_current_tick (tk_ticks s' ! r)"
    "r < length (tk_ticks s) \<Longrightarrow> wk_guards (tk_workers s ! r) \<noteq> [] \<Longrightarrow> ti_current_tick (tk_ticks s' ! r) = ti_current_tick (tk_ticks s ! r)"
    by simp_all
qed

lemma upd_core_simps [simp]:
  "length (tk_ticks (upd_core c ti w s)) = length (tk_ticks s)" "length (tk_workers (upd_core c ti w s)) = length (tk_workers s)"
  "tk_last_tick_inclusive (upd_core c ti w s) = tk_last_tick_inclusive s" "tk_current_tick (upd_core c ti w s) = tk_current_tick s"
  "c < length (tk_ticks s) \<Longrightarrow> tk_ticks (upd_core c ti w s) ! r = (if r = c then ti else tk_ticks s ! r)"
  "c < length (tk_workers s) \<Longrightarrow> tk_workers (upd_core c ti w s) ! r = (if r = c then w else tk_workers s ! r)"
  by (simp_all add: upd_core_def)

lemma tick_exec_effects:
  assumes inv: "ticker_inv s" and run: "tick_exec a s = Inr s'" and r: "r < length (tk_ticks s)"
  shows "tk_last_tick_inclusive s \<le> tk_last_tick_inclusive s'" and "ti_current_tick (tk_ticks s ! r) \<le> ti_current_tick (tk_ticks s' ! r)"
    and "wk_guards (tk_workers s ! r) \<noteq> [] \<Longrightarrow> ti_current_tick (tk_ticks s' ! r) = ti_current_tick (tk_ticks s ! r)"
    and "action_core a \<noteq> Some r \<Longrightarrow> tk_workers s' ! r = tk_workers s ! r"
proof -
  have len: "length (tk_workers s) = length (tk_ticks s)" using inv by (simp add: ticker_inv_def)
  have "tk_last_tick_inclusive s \<le> tk_last_tick_inclusive s' \<and> ti_current_tick (tk_ticks s ! r) \<le> ti_current_tick (tk_ticks s' ! r) \<and>
    (wk_guards (tk_workers s ! r) \<noteq> [] \<longrightarrow> ti_current_tick (tk_ticks s' ! r) = ti_current_tick (tk_ticks s ! r)) \<and>
    (action_core a \<noteq> Some r \<longrightarrow> tk_workers s' ! r = tk_workers s ! r)"
  proof (cases a)
    case Tick
    then show ?thesis using tick_effect [OF inv] run r by simp
  next
    case (Guard c)
    show ?thesis by (rule guard_effect [OF inv, of c s']) (use run Guard len in auto)
  next
    case (Go c now)
    show ?thesis by (rule go_effect [OF inv, of c now s']) (use run Go len in auto)
  next
    case (Unguard c)
    show ?thesis by (rule unguard_effect [OF inv, of c s']) (use run Unguard len in auto)
  qed
  then show "tk_last_tick_inclusive s \<le> tk_last_tick_inclusive s'" "ti_current_tick (tk_ticks s ! r) \<le> ti_current_tick (tk_ticks s' ! r)"
    "wk_guards (tk_workers s ! r) \<noteq> [] \<Longrightarrow> ti_current_tick (tk_ticks s' ! r) = ti_current_tick (tk_ticks s ! r)"
    "action_core a \<noteq> Some r \<Longrightarrow> tk_workers s' ! r = tk_workers s ! r" by simp_all
qed

section \<open>What the ticker promises\<close>

text \<open>
  However the ticker and the guards of the cores interleave, no \<^verbatim>\<open>INVARIANT\<close> of the code fails and no access is out
  of bounds: a step either succeeds or waits for a lock or a thread.
\<close>

theorem ticker_asserts_hold:
  assumes "ticker_reach n s" and "no_wrap a s" and "tick_exec a s = Inl e"
  shows "e = Spins"
  using tick_exec_ok [OF ticker_reach_inv [OF assms(1)] assms(2)] assms(3) by simp

lemma fold_min_le: "l \<le> m \<Longrightarrow> (\<And>i. i \<in> set is \<Longrightarrow> l \<le> f i) \<Longrightarrow> l \<le> fold (\<lambda>i e. min e (f i)) is (m :: nat)"
  by (induction "is" arbitrary: m) auto

lemma fold_min_le_start: "fold (\<lambda>i e. min e (f i)) is m \<le> (m :: nat)"
proof (induction "is" arbitrary: m)
  case (Cons j "is")
  then show ?case using min.cobounded1 [of m "f j"] by (simp del: min.cobounded1) (meson order_trans)
qed simp

lemma fold_min_le_elem: "i \<in> set is \<Longrightarrow> fold (\<lambda>i e. min e (f i)) is m \<le> (f i :: nat)"
proof (induction "is" arbitrary: m)
  case (Cons j "is")
  then show ?case using fold_min_le_start [of f "is" "min m (f j)"] by (auto simp: min_def split: if_splits)
qed simp

text \<open>
  C35.  A guard keeps the tick it started in from completing: as long as it lives, its tick is larger than the last
  completed tick, and it is the current tick or the one before.  The ticks of two guards differ by at most one, and the
  minimum that \<^verbatim>\<open>compute_global_last_tick_exclusive\<close> finds is never below \<^verbatim>\<open>global_last_tick_exclusive\<close>.
\<close>

theorem guards_pin_their_tick:
  assumes "ticker_reach n s" and "c < n" and "g \<in> set (wk_guards (tk_workers s ! c))"
  shows "global_last_tick_inclusive s < gd_tick g \<and> gd_tick g \<le> global_current_tick s \<and> global_current_tick s \<le> gd_tick g + 1 \<and>
    (\<exists>e. compute_global_last_tick_exclusive s = Inr e \<and> global_last_tick_exclusive s \<le> e \<and> e \<le> gd_tick g)"
proof -
  have inv: "ticker_inv s" and n: "length (tk_ticks s) = n"
    using assms(1) ticker_reach_inv ticker_reach_lengths by blast+
  note C = inv_coreD [OF inv, unfolded n]
  have g: "gd_tick g = ti_current_tick (tk_ticks s ! c)" using C(1) [OF assms(2)] assms(3) by (simp add: core_ok_def)
  let ?e = "fold (\<lambda>i e. min e (ti_current_tick (tk_ticks s ! i))) [1..<n] (ti_current_tick (tk_ticks s ! 0))"
  have lower: "tk_last_tick_inclusive s + 1 \<le> ?e"
    using C(2) assms(2) by (intro fold_min_le) (auto simp: Suc_le_eq)
  have "?e \<le> ti_current_tick (tk_ticks s ! c)" 
    using assms(2) by (cases c) (auto intro: fold_min_le_start fold_min_le_elem)
  moreover have "global_last_tick_exclusive s = tk_last_tick_inclusive s + 1"
    using C(2,3) [OF assms(2)] inv by (simp add: global_last_tick_exclusive_def global_last_tick_inclusive_def ticker_inv_def)
  ultimately show ?thesis
    using C [OF assms(2)] g lower n assms(2)
    by (simp add: global_last_tick_inclusive_def global_current_tick_def compute_global_last_tick_exclusive_def)
qed

text \<open>One core: its thread enters a guard, and the ticker starts a round behind it.\<close>

definition guarded_ticker :: ticker where
  "guarded_ticker = \<lparr>tk_ticks = [\<lparr>ti_lock = 1, ti_current_tick = 1, ti_depth = 1, ti_start_us = 7\<rparr>], tk_current_tick = 2,
     tk_last_tick_inclusive = 0, tk_pc = T_Scan 1 0,
     tk_workers = [\<lparr>wk_pc = G_None, wk_guards = [\<lparr>gd_core = 0, gd_tick = 1, gd_depth = 1, gd_start_us = 7\<rparr>]\<rparr>]\<rparr>"

lemma tick_run_reach:
  "for_each tick_exec as s = Inr s' \<Longrightarrow> ticker_reach n s \<Longrightarrow>
    (\<And>k s1. k < length as \<Longrightarrow> for_each tick_exec (take k as) s = Inr s1 \<Longrightarrow> no_wrap (as ! k) s1) \<Longrightarrow> ticker_reach n s'"
proof (induction as arbitrary: s)
  case Nil
  then show ?case by simp
next
  case (Cons a as)
  from Cons.prems(1) obtain s1 where s1: "tick_exec a s = Inr s1" "for_each tick_exec as s1 = Inr s'" by (auto simp: result_simps)
  have "no_wrap a s" using Cons.prems(3) [of 0 s] by simp
  from ticker_reach.step [OF Cons.prems(2) this s1(1)] show ?case
  proof (rule Cons.IH [OF s1(2)])
    fix k s2 assume "k < length as" "for_each tick_exec (take k as) s1 = Inr s2"
    then show "no_wrap (as ! k) s2" using Cons.prems(3) [of "Suc k" s2] s1(1) by simp
  qed
qed

lemma guarded_ticker_reach: "ticker_reach 1 guarded_ticker"
proof (rule tick_run_reach [OF _ ticker_reach.start, of "[Guard 0, Go 0 0, Go 0 0, Go 0 7, Tick]"])
  show "for_each tick_exec [Guard 0, Go 0 0, Go 0 0, Go 0 7, Tick] (ticker_new 1) = Inr guarded_ticker"
    by (simp add: ticker_defs ticker_new_def tickinfo_new_def spin_new_def guarded_ticker_def upd_core_def Let_def)
next
  fix k s1
  assume "k < length [Guard 0, Go 0 0, Go 0 0, Go 0 7, Tick]" "for_each tick_exec (take k [Guard 0, Go 0 0, Go 0 0, Go 0 7, Tick]) (ticker_new 1) = Inr s1"
  then show "no_wrap ([Guard 0, Go 0 0, Go 0 0, Go 0 7, Tick] ! k) s1"
    by (auto simp: less_Suc_eq nth_Cons' ticker_defs ticker_new_def tickinfo_new_def spin_new_def upd_core_def Let_def)
qed

theorem guards_pin_their_tick_witness:
  "global_last_tick_inclusive guarded_ticker < 1 \<and> 1 \<le> global_current_tick guarded_ticker \<and> global_current_tick guarded_ticker \<le> 1 + 1 \<and>
    (\<exists>e. compute_global_last_tick_exclusive guarded_ticker = Inr e \<and> global_last_tick_exclusive guarded_ticker \<le> e \<and> e \<le> 1)"
  using guards_pin_their_tick [OF guarded_ticker_reach, of 0 "\<lparr>gd_core = 0, gd_tick = 1, gd_depth = 1, gd_start_us = 7\<rparr>"]
  by (simp add: guarded_ticker_def)

section \<open>A round of the ticker ends\<close>

text \<open>The steps that are left of a round, when no thread starts another guard.\<close>

fun ticker_left :: "nat \<Rightarrow> ticker_pc \<Rightarrow> nat" where
  "ticker_left n T_Sleep = 0"
| "ticker_left n (T_Scan last_tick i) = 4 * (n - i) + 1"
| "ticker_left n (T_Lock last_tick i) = 4 * (n - i)"
| "ticker_left n (T_Store last_tick i) = 4 * (n - i) - 1"
| "ticker_left n (T_Unlock last_tick i) = 4 * (n - i) - 2"

fun pc_left :: "guard_pc \<Rightarrow> nat" where
  "pc_left G_None = 0"
| "pc_left G_Lock = 4"
| "pc_left G_Read = 3"
| "pc_left (G_Store t) = 2"

definition worker_left :: "worker \<Rightarrow> nat" where
  "worker_left w = pc_left (wk_pc w) + length (wk_guards w)"

definition round_left :: "ticker \<Rightarrow> nat" where
  "round_left s = ticker_left (length (tk_ticks s)) (tk_pc s) + sum_list (map worker_left (tk_workers s))"

fun new_guard :: "tick_action \<Rightarrow> bool" where
  "new_guard (Guard c) \<longleftrightarrow> True"
| "new_guard _ \<longleftrightarrow> False"

lemma sum_list_update_less:
  "c < length xs \<Longrightarrow> f y < f (xs ! c) \<Longrightarrow> sum_list (map f (xs[c := y])) < (sum_list (map f xs) :: nat)"
  by (induction xs arbitrary: c) (auto split: nat.splits)

lemma round_left_upd_core:
  assumes "c < length (tk_workers s)" and "worker_left w < worker_left (tk_workers s ! c)"
  shows "round_left (upd_core c ti w s) < round_left s"
  using sum_list_update_less [OF assms(1), of worker_left w] assms(2) by (simp add: round_left_def upd_core_def)

lemma tick_exec_round:
  assumes inv: "ticker_inv s" and awake: "tk_pc s \<noteq> T_Sleep" and a: "\<not> new_guard a" and run: "tick_exec a s = Inr s'"
  shows "round_left s' < round_left s \<and>
    tk_last_tick_inclusive s' = (if tk_pc s' = T_Sleep then tk_last_tick_inclusive s + 1 else tk_last_tick_inclusive s)"
proof (cases a)
  case Tick
  have "phase_ok (tk_pc s) (tk_current_tick s) (tk_last_tick_inclusive s) (map ti_current_tick (tk_ticks s))"
    using inv by (simp add: ticker_inv_def)
  then show ?thesis using run awake Tick
    by (cases "tk_pc s") (auto simp: ticker_tick_def Let_def result_simps round_left_def split: if_splits)
next
  case (Go c now)
  then have "length (tk_workers s) = length (tk_ticks s)" "c < length (tk_workers s)"
    using inv run by (auto simp: ticker_inv_def split: if_splits)
  then show ?thesis using run Go awake
    by (cases "wk_pc (tk_workers s ! c)")
      (auto simp: guard_go_def result_simps upd_core_def [of c _ _ s, symmetric] worker_left_def intro!: round_left_upd_core,
       auto simp: upd_core_def)
next
  case (Unguard c)
  then have "length (tk_workers s) = length (tk_ticks s)" "c < length (tk_workers s)"
    using inv run by (auto simp: ticker_inv_def split: if_splits)
  then show ?thesis using run Unguard awake
    by (cases "wk_guards (tk_workers s ! c)")
      (auto simp: guard_end_def result_simps Let_def worker_left_def split: if_splits intro!: round_left_upd_core, auto simp: upd_core_def)
qed (use a in simp)

lemma ticker_progress:
  assumes inv: "ticker_inv s" and awake: "tk_pc s \<noteq> T_Sleep"
  shows "\<exists>a s'. \<not> new_guard a \<and> no_wrap a s \<and> tick_exec a s = Inr s'"
proof (cases "\<exists>s'. tick_exec Tick s = Inr s'")
  case True
  then show ?thesis using awake by (intro exI [of _ Tick]) simp
next
  case False
  have ok: "step_ok ticker_inv (tick_exec Tick s)" using tick_exec_ok [OF inv, of Tick] awake by simp
  then have spin: "tick_exec Tick s = Inl Spins" using False by (cases "tick_exec Tick s") auto
  have ph: "phase_ok (tk_pc s) (tk_current_tick s) (tk_last_tick_inclusive s) (map ti_current_tick (tk_ticks s))"
    and len: "length (tk_workers s) = length (tk_ticks s)" using inv by (simp_all add: ticker_inv_def)
  obtain lt i where pc: "tk_pc s = T_Lock lt i"
    using spin ph awake by (cases "tk_pc s") (auto simp: ticker_defs Let_def rassert_def split: if_splits)
  then have i: "i < length (tk_ticks s)" using ph by simp
  note C = inv_coreD(1) [OF inv i]
  have locked: "ti_lock (tk_ticks s ! i) \<noteq> 0" using spin pc i by (auto simp: ticker_defs)
  let ?w = "tk_workers s ! i"
  consider "wk_pc ?w = G_Read" | t where "wk_pc ?w = G_Store t" | "wk_pc ?w = G_None" "wk_guards ?w \<noteq> []"
    using C locked pc by (cases "wk_pc ?w") (auto simp: core_ok_def)
  then show ?thesis
  proof cases
    case 3
    have "tick_exec (Unguard i) s \<noteq> Inl Spins"
      using 3 i len by (auto simp: guard_end_def neq_Nil_conv rbind_eq_Inl_iff rassert_eq_Inl_iff spin_unlock_def Let_def split: if_splits)
    then show ?thesis using step_ok_runs [OF tick_exec_ok [OF inv, of "Unguard i"]] by (intro exI [of _ "Unguard i"]) (simp del: tick_exec.simps)
  next
    case 1
    then show ?thesis using i len by (intro exI [of _ "Go i 0"]) (simp add: guard_go_def)
  next
    case 2
    have "tick_exec (Go i 0) s \<noteq> Inl Spins" using 2 i len by (auto simp: guard_go_def rbind_eq_Inl_iff rassert_eq_Inl_iff)
    then show ?thesis using step_ok_runs [OF tick_exec_ok [OF inv, of "Go i 0"]] by (intro exI [of _ "Go i 0"]) (simp del: tick_exec.simps)
  qed
qed

lemma round_left_awake: "ticker_inv s \<Longrightarrow> tk_pc s \<noteq> T_Sleep \<Longrightarrow> 0 < round_left s"
  by (cases "tk_pc s") (auto simp: round_left_def ticker_inv_def)

lemma not_new_guard_no_wrap: "\<not> new_guard a \<Longrightarrow> tk_pc s \<noteq> T_Sleep \<Longrightarrow> no_wrap a s"
  by (cases a) simp_all

lemma round_can_end:
  assumes "ticker_inv s" and "tk_pc s \<noteq> T_Sleep"
  shows "\<exists>as s'. length as \<le> round_left s \<and> (\<forall>a \<in> set as. \<not> new_guard a) \<and> for_each tick_exec as s = Inr s' \<and>
    tk_pc s' = T_Sleep \<and> tk_last_tick_inclusive s' = tk_last_tick_inclusive s + 1"
  using assms
proof (induction "round_left s" arbitrary: s rule: less_induct)
  case less
  obtain a s1 where a: "\<not> new_guard a" "no_wrap a s" "tick_exec a s = Inr s1" using ticker_progress [OF less.prems] by blast
  note d = tick_exec_round [OF less.prems a(1,3)]
  show ?case
  proof (cases "tk_pc s1 = T_Sleep")
    case True
    then show ?thesis using d a round_left_awake [OF less.prems] by (intro exI [of _ "[a]"]) auto
  next
    case False
    from less.hyps [OF _ tick_exec_inv [OF less.prems(1) a(2,3)] False] d obtain as s' where
      "length as \<le> round_left s1" "\<forall>a \<in> set as. \<not> new_guard a" "for_each tick_exec as s1 = Inr s'" "tk_pc s' = T_Sleep"
      "tk_last_tick_inclusive s' = tk_last_tick_inclusive s + 1"
      using False by auto
    then show ?thesis using d a by (intro exI [of _ "a # as"]) auto
  qed
qed

lemma round_must_end:
  assumes "ticker_inv s" and "tk_pc s \<noteq> T_Sleep" and "for_each tick_exec as s = Inr s'" and "\<forall>a \<in> set as. \<not> new_guard a"
    and "round_left s \<le> length as"
  shows "\<exists>k \<le> length as. \<exists>s1. for_each tick_exec (take k as) s = Inr s1 \<and> tk_pc s1 = T_Sleep \<and>
    tk_last_tick_inclusive s1 = tk_last_tick_inclusive s + 1"
  using assms
proof (induction as arbitrary: s)
  case Nil
  then show ?case using round_left_awake by fastforce
next
  case (Cons a as)
  from Cons.prems(3) obtain s1 where s1: "tick_exec a s = Inr s1" "for_each tick_exec as s1 = Inr s'" by (auto simp: result_simps)
  have a: "\<not> new_guard a" using Cons.prems(4) by simp
  note d = tick_exec_round [OF Cons.prems(1,2) a s1(1)]
  have inv1: "ticker_inv s1" using tick_exec_inv [OF Cons.prems(1) not_new_guard_no_wrap [OF a Cons.prems(2)] s1(1)] .
  show ?case
  proof (cases "tk_pc s1 = T_Sleep")
    case True
    then show ?thesis using d s1(1) by (intro exI [of _ 1]) simp
  next
    case False
    from Cons.IH [OF inv1 False s1(2)] Cons.prems(4,5) d False obtain k s2 where "k \<le> length as" "for_each tick_exec (take k as) s1 = Inr s2"
      "tk_pc s2 = T_Sleep" "tk_last_tick_inclusive s2 = tk_last_tick_inclusive s + 1" by auto
    then show ?thesis using s1(1) by (intro exI [of _ "Suc k"]) simp
  qed
qed

text \<open>
  C34.  The ticker does not get stuck.  From every state in which a round has begun, the threads can finish their guards and
  the ticker its round, in at most \<open>round_left\<close> steps; and every run of that many steps in which no thread starts a
  new guard does complete the round and moves the last completed tick by one.
\<close>

theorem ticker_round_ends:
  assumes "ticker_reach n s" and "tk_pc s \<noteq> T_Sleep"
  shows "(\<exists>as s'. length as \<le> round_left s \<and> (\<forall>a \<in> set as. \<not> new_guard a) \<and> for_each tick_exec as s = Inr s' \<and>
      tk_pc s' = T_Sleep \<and> global_last_tick_inclusive s' = global_last_tick_inclusive s + 1) \<and>
    (\<forall>as s'. for_each tick_exec as s = Inr s' \<and> (\<forall>a \<in> set as. \<not> new_guard a) \<and> round_left s \<le> length as \<longrightarrow>
      (\<exists>k \<le> length as. \<exists>s1. for_each tick_exec (take k as) s = Inr s1 \<and> tk_pc s1 = T_Sleep \<and>
        global_last_tick_inclusive s1 = global_last_tick_inclusive s + 1))"
  using round_can_end [OF ticker_reach_inv [OF assms(1)] assms(2)] round_must_end [OF ticker_reach_inv [OF assms(1)] assms(2)]
  unfolding global_last_tick_inclusive_def by blast

theorem ticker_round_ends_witness:
  "\<exists>as s'. length as \<le> 6 \<and> (\<forall>a \<in> set as. \<not> new_guard a) \<and> for_each tick_exec as guarded_ticker = Inr s' \<and>
      tk_pc s' = T_Sleep \<and> global_last_tick_inclusive s' = global_last_tick_inclusive guarded_ticker + 1"
proof -
  have "tk_pc guarded_ticker \<noteq> T_Sleep" "round_left guarded_ticker = 6"
    by (simp_all add: guarded_ticker_def round_left_def worker_left_def)
  with ticker_round_ends [OF guarded_ticker_reach] show ?thesis by metis
qed

end
