(* ===== verification/Silo_Pxqueue.thy ===== *)
theory Silo_Pxqueue
  imports Rolis_Prelude
begin

text \<open>
  The queue behind the deferred deletions of Silo (\<^verbatim>\<open>pxqueue.h\<close>): elements are kept in groups of at most \<open>N\<close>, all of one
  tick, and the groups are chained on a heap.  A queue also owns a chain of free groups.  Following a null pointer or
  one to a deleted group is the error \<open>Out_Of_Bounds\<close>; a false \<^verbatim>\<open>INVARIANT\<close> is \<open>Assert_Fail\<close>.  A loop along a chain
  gets one round per group that was ever allocated and one more; \<open>Spins\<close> stands for a loop that needs more rounds, and
  it is shown not to happen.
\<close>

section \<open>The code\<close>

record 'a px_group =
  pg_next :: "nat option"
  pg_pxs :: "'a list"
  pg_tick :: nat

record 'a px_mem =
  pm_heap :: "nat \<rightharpoonup> 'a px_group"
  pm_fresh :: nat

record px_queue =
  pq_head :: "nat option"
  pq_tail :: "nat option"
  pq_fhead :: "nat option"
  pq_ftail :: "nat option"
  pq_ngroups :: nat

definition px_group_new :: "'a px_group" where
  "px_group_new = \<lparr>pg_next = None, pg_pxs = [], pg_tick = 0\<rparr>"

definition px_mem_new :: "'a px_mem" where
  "px_mem_new = \<lparr>pm_heap = Map.empty, pm_fresh = 0\<rparr>"

definition px_queue_new :: px_queue where
  "px_queue_new = \<lparr>pq_head = None, pq_tail = None, pq_fhead = None, pq_ftail = None, pq_ngroups = 0\<rparr>"

definition px_deref :: "'a px_mem \<Rightarrow> nat option \<Rightarrow> (nat \<times> 'a px_group) result" where
  "px_deref m p = (case p of None \<Rightarrow> Inl Out_Of_Bounds | Some a \<Rightarrow>
     (case pm_heap m a of None \<Rightarrow> Inl Out_Of_Bounds | Some g \<Rightarrow> Inr (a, g)))"

definition px_store :: "nat \<Rightarrow> 'a px_group \<Rightarrow> 'a px_mem \<Rightarrow> 'a px_mem" where
  "px_store a g m = m\<lparr>pm_heap := (pm_heap m)(a \<mapsto> g)\<rparr>"

definition px_fuel :: "'a px_mem \<Rightarrow> nat" where "px_fuel m = Suc (pm_fresh m)"

text \<open>\<^verbatim>\<open>alloc_freelist\<close>: a new group goes to the front of the free groups.\<close>

definition alloc_group :: "'a px_mem \<times> px_queue \<Rightarrow> 'a px_mem \<times> px_queue" where
  "alloc_group = (\<lambda>(m, q). let p = pm_fresh m
     in (m\<lparr>pm_heap := (pm_heap m)(p \<mapsto> px_group_new\<lparr>pg_next := pq_fhead q\<rparr>), pm_fresh := Suc p\<rparr>,
         q\<lparr>pq_ftail := (if pq_ftail q = None then Some p else pq_ftail q), pq_fhead := Some p\<rparr>))"

definition alloc_freelist :: "nat \<Rightarrow> 'a px_mem \<times> px_queue \<Rightarrow> 'a px_mem \<times> px_queue" where
  "alloc_freelist n = (alloc_group ^^ n)"

definition ensure_freelist :: "'a px_mem \<times> px_queue \<Rightarrow> ('a px_mem \<times> px_queue) result" where
  "ensure_freelist = (\<lambda>(m, q). rbind (rassert ((pq_fhead q = None) = (pq_ftail q = None))) (\<lambda>_.
     if pq_fhead q \<noteq> None then Inr (m, q) else Inr (alloc_freelist 16 (m, q))))"

definition px_empty :: "px_queue \<Rightarrow> bool" where "px_empty q \<longleftrightarrow> pq_head q = None"

definition get_ngroups :: "px_queue \<Rightarrow> nat" where "get_ngroups q = pq_ngroups q"

definition get_latest_epoch :: "'a px_mem \<Rightarrow> px_queue \<Rightarrow> nat option result" where
  "get_latest_epoch m q = (if pq_tail q = None then Inr None else rbind (px_deref m (pq_tail q)) (\<lambda>(_, g). Inr (Some (pg_tick g))))"

text \<open>
  \<^verbatim>\<open>sanity_check\<close>: the walk along the groups gives their number and the last one; the one along the free groups only the
  last one.
\<close>

fun check_groups :: "nat \<Rightarrow> nat \<Rightarrow> 'a px_mem \<Rightarrow> nat option \<Rightarrow> nat option \<Rightarrow> nat \<Rightarrow> nat \<Rightarrow> (nat option \<times> nat) result" where
  "check_groups 0 N m p pprev n prev_tick = Inl Spins"
| "check_groups (Suc k) N m p pprev n prev_tick = (if p = None then Inr (pprev, n) else
     rbind (px_deref m p) (\<lambda>(a, g). rbind (rassert (pg_pxs g \<noteq> [])) (\<lambda>_. rbind (rassert (length (pg_pxs g) \<le> N)) (\<lambda>_.
     rbind (rassert (prev_tick \<le> pg_tick g)) (\<lambda>_. check_groups k N m (pg_next g) (Some a) (n + 1) (pg_tick g))))))"

fun walk_chain :: "nat \<Rightarrow> 'a px_mem \<Rightarrow> nat option \<Rightarrow> nat option \<Rightarrow> nat option result" where
  "walk_chain 0 m p pprev = Inl Spins"
| "walk_chain (Suc k) m p pprev = (if p = None then Inr pprev else rbind (px_deref m p) (\<lambda>(a, g). walk_chain k m (pg_next g) (Some a)))"

definition no_next :: "'a px_mem \<Rightarrow> nat option \<Rightarrow> unit result" where
  "no_next m p = (if p = None then Inr () else rbind (px_deref m p) (\<lambda>(_, g). rassert (pg_next g = None)))"

definition sanity_check :: "nat \<Rightarrow> 'a px_mem \<Rightarrow> px_queue \<Rightarrow> unit result" where
  "sanity_check N m q =
     rbind (rassert ((pq_head q = None) = (pq_tail q = None))) (\<lambda>_.
     rbind (rassert (pq_tail q = None \<or> pq_ngroups q \<noteq> 0)) (\<lambda>_.
     rbind (no_next m (pq_tail q)) (\<lambda>_.
     rbind (rassert ((pq_fhead q = None) = (pq_ftail q = None))) (\<lambda>_.
     rbind (no_next m (pq_ftail q)) (\<lambda>_.
     rbind (check_groups (px_fuel m) N m (pq_head q) None 0 0) (\<lambda>(pprev, n).
     rbind (rassert (n = pq_ngroups q)) (\<lambda>_.
     rbind (rassert (pprev = None \<or> pq_tail q = pprev)) (\<lambda>_.
     rbind (walk_chain (px_fuel m) m (pq_fhead q) None) (\<lambda>pprev.
     rassert (pprev = None \<or> pq_ftail q = pprev))))))))))"

text \<open>\<^verbatim>\<open>enqueue\<close>: the group of the tail takes the element, or a free group that becomes the tail.\<close>

definition pop_free :: "nat \<Rightarrow> 'a px_mem \<times> px_queue \<Rightarrow> ('a px_mem \<times> px_queue) result" where
  "pop_free tick s = rbind (ensure_freelist s) (\<lambda>(m, q). rbind (px_deref m (pq_fhead q)) (\<lambda>(a, g).
     let q = q\<lparr>pq_fhead := pg_next g, pq_ftail := (if pq_ftail q = Some a then None else pq_ftail q), pq_ngroups := pq_ngroups q + 1\<rparr>;
         m = px_store a \<lparr>pg_next = None, pg_pxs = [], pg_tick = tick\<rparr> m
     in if pq_head q = None then Inr (m, q\<lparr>pq_head := Some a, pq_tail := Some a\<rparr>)
        else rbind (px_deref m (pq_tail q)) (\<lambda>(b, h). Inr (px_store b (h\<lparr>pg_next := Some a\<rparr>) m, q\<lparr>pq_tail := Some a\<rparr>))))"

definition tail_full :: "nat \<Rightarrow> nat \<Rightarrow> 'a px_mem \<Rightarrow> px_queue \<Rightarrow> bool result" where
  "tail_full N tick m q = (if pq_tail q = None then Inr True else
     rbind (px_deref m (pq_tail q)) (\<lambda>(_, g). rbind (rassert (length (pg_pxs g) \<le> N)) (\<lambda>_. rbind (rassert (pg_tick g \<le> tick)) (\<lambda>_.
     Inr (length (pg_pxs g) = N \<or> pg_tick g \<noteq> tick)))))"

definition enqueue :: "nat \<Rightarrow> 'a \<Rightarrow> nat \<Rightarrow> 'a px_mem \<times> px_queue \<Rightarrow> ('a px_mem \<times> px_queue) result" where
  "enqueue N t tick = (\<lambda>(m, q).
     rbind (rassert ((pq_head q = None) = (pq_tail q = None))) (\<lambda>_.
     rbind (rassert ((pq_head q = None) = (pq_ngroups q = 0))) (\<lambda>_.
     rbind (tail_full N tick m q) (\<lambda>full.
     rbind (if full then pop_free tick (m, q) else Inr (m, q)) (\<lambda>(m, q).
     rbind (px_deref m (pq_tail q)) (\<lambda>(a, g).
     rbind (rassert (length (pg_pxs g) < N)) (\<lambda>_.
     rbind (rassert (pg_tick g = tick)) (\<lambda>_.
     rbind (rassert (pg_next g = None)) (\<lambda>_.
     let m = px_store a (g\<lparr>pg_pxs := pg_pxs g @ [t]\<rparr>) m
     in rbind (sanity_check N m q) (\<lambda>_. Inr (m, q)))))))))))"

text \<open>\<^verbatim>\<open>empty_accept_from\<close>: the groups of the source up to a tick move to an empty queue.\<close>

fun accept_loop :: "nat \<Rightarrow> nat \<Rightarrow> nat option \<Rightarrow> 'a px_mem \<times> px_queue \<times> px_queue \<Rightarrow> ('a px_mem \<times> px_queue \<times> px_queue) result" where
  "accept_loop 0 tick p s = Inl Spins"
| "accept_loop (Suc k) tick p (m, d, q) = (if p = None then Inr (m, d, q) else
     rbind (px_deref m p) (\<lambda>(a, g). if \<not> pg_tick g \<le> tick then Inr (m, d, q) else
     let m = px_store a (g\<lparr>pg_next := None\<rparr>) m
     in rbind (if pq_head d = None then Inr (m, d\<lparr>pq_head := Some a, pq_tail := Some a\<rparr>)
               else rbind (px_deref m (pq_tail d)) (\<lambda>(b, h). Inr (px_store b (h\<lparr>pg_next := Some a\<rparr>) m, d\<lparr>pq_tail := Some a\<rparr>))) (\<lambda>(m, d).
        accept_loop k tick (pg_next g) (m, d\<lparr>pq_ngroups := pq_ngroups d + 1\<rparr>,
          q\<lparr>pq_ngroups := pq_ngroups q - 1, pq_head := pg_next g, pq_tail := (if pg_next g = None then None else pq_tail q)\<rparr>))))"

definition empty_accept_from :: "nat \<Rightarrow> nat \<Rightarrow> 'a px_mem \<times> px_queue \<times> px_queue \<Rightarrow> ('a px_mem \<times> px_queue \<times> px_queue) result" where
  "empty_accept_from N tick = (\<lambda>(m, d, q).
     rbind (rassert (px_empty d)) (\<lambda>_. rbind (rassert (pq_tail d = None)) (\<lambda>_.
     rbind (accept_loop (px_fuel m) tick (pq_head q) (m, d, q)) (\<lambda>(m, d, q).
     rbind (sanity_check N m d) (\<lambda>_. rbind (sanity_check N m q) (\<lambda>_. Inr (m, d, q)))))))"

text \<open>\<^verbatim>\<open>transfer_freelist\<close> of \<open>q\<close> to \<open>d\<close>, of all groups (\<open>None\<close>) or of \<open>n\<close> of them.\<close>

fun transfer_loop :: "nat \<Rightarrow> nat option \<Rightarrow> 'a px_mem \<times> px_queue \<times> px_queue \<Rightarrow> ('a px_mem \<times> px_queue \<times> px_queue) result" where
  "transfer_loop 0 p s = Inr s"
| "transfer_loop (Suc n) p (m, q, d) = (if p = None then Inr (m, q, d) else
     rbind (px_deref m p) (\<lambda>(a, g).
     transfer_loop n (pg_next g) (px_store a (g\<lparr>pg_next := pq_fhead d\<rparr>) m,
       q\<lparr>pq_ftail := (if pq_ftail q = Some a then None else pq_ftail q), pq_fhead := pg_next g\<rparr>,
       d\<lparr>pq_fhead := Some a, pq_ftail := (if pq_ftail d = None then Some a else pq_ftail d)\<rparr>)))"

definition transfer_freelist :: "nat \<Rightarrow> nat option \<Rightarrow> 'a px_mem \<times> px_queue \<times> px_queue \<Rightarrow> ('a px_mem \<times> px_queue \<times> px_queue) result" where
  "transfer_freelist N n = (\<lambda>(m, q, d). if pq_fhead q = None then Inr (m, q, d) else
     rbind (case n of
         None \<Rightarrow> rbind (px_deref m (pq_ftail q)) (\<lambda>(a, g). Inr (px_store a (g\<lparr>pg_next := pq_fhead d\<rparr>) m,
           q\<lparr>pq_fhead := None, pq_ftail := None\<rparr>,
           d\<lparr>pq_ftail := (if pq_ftail d = None then pq_ftail q else pq_ftail d), pq_fhead := pq_fhead q\<rparr>))
       | Some n \<Rightarrow> transfer_loop n (pq_fhead q) (m, q, d)) (\<lambda>(m, q, d).
     rbind (sanity_check N m q) (\<lambda>_. Inr (m, q, d))))"

definition px_clear :: "'a px_mem \<times> px_queue \<Rightarrow> ('a px_mem \<times> px_queue) result" where
  "px_clear = (\<lambda>(m, q). if pq_head q = None then Inr (m, q) else
     rbind (px_deref m (pq_tail q)) (\<lambda>(a, g). Inr (px_store a (g\<lparr>pg_next := pq_fhead q\<rparr>) m,
       q\<lparr>pq_ftail := (if pq_ftail q = None then pq_tail q else pq_ftail q), pq_fhead := pq_head q,
         pq_head := None, pq_tail := None, pq_ngroups := 0\<rparr>)))"

fun reap_chain :: "nat \<Rightarrow> nat option \<Rightarrow> 'a px_mem \<Rightarrow> 'a px_mem result" where
  "reap_chain 0 p m = Inl Spins"
| "reap_chain (Suc k) p m = (if p = None then Inr m else
     rbind (px_deref m p) (\<lambda>(a, g). reap_chain k (pg_next g) (m\<lparr>pm_heap := (pm_heap m)(a := None)\<rparr>)))"

definition px_destroy :: "'a px_mem \<times> px_queue \<Rightarrow> 'a px_mem result" where
  "px_destroy = (\<lambda>(m, q). rbind (reap_chain (px_fuel m) (pq_head q) m) (\<lambda>m. reap_chain (px_fuel m) (pq_fhead q) m))"

definition px_swap :: "px_queue \<times> px_queue \<Rightarrow> px_queue \<times> px_queue" where
  "px_swap = (\<lambda>(q, r). (q\<lparr>pq_head := pq_head r, pq_tail := pq_tail r, pq_fhead := pq_fhead r, pq_ftail := pq_ftail r, pq_ngroups := pq_ngroups r\<rparr>,
     r\<lparr>pq_head := pq_head q, pq_tail := pq_tail q, pq_fhead := pq_fhead q, pq_ftail := pq_ftail q, pq_ngroups := pq_ngroups q\<rparr>))"

text \<open>
  The iterators: a group and an index in it.  \<open>px_elems\<close> is the loop from \<^verbatim>\<open>begin()\<close> to \<^verbatim>\<open>end()\<close>, with the element and the
  tick at every place; it has a round for every element the groups can hold.
\<close>

type_synonym px_iter = "nat option \<times> nat"

definition px_begin :: "px_queue \<Rightarrow> px_iter" where "px_begin q = (pq_head q, 0)"

definition px_end :: px_iter where "px_end = (None, 0)"

definition iter_get :: "'a px_mem \<Rightarrow> px_iter \<Rightarrow> 'a result" where
  "iter_get m it = rbind (px_deref m (fst it)) (\<lambda>(_, g). vec_at (pg_pxs g) (snd it))"

definition iter_tick :: "'a px_mem \<Rightarrow> px_iter \<Rightarrow> nat result" where
  "iter_tick m it = rbind (px_deref m (fst it)) (\<lambda>(_, g). Inr (pg_tick g))"

definition iter_next :: "'a px_mem \<Rightarrow> px_iter \<Rightarrow> px_iter result" where
  "iter_next m it = rbind (px_deref m (fst it)) (\<lambda>(_, g).
     Inr (if snd it + 1 = length (pg_pxs g) then (pg_next g, 0) else (fst it, snd it + 1)))"

fun iter_loop :: "nat \<Rightarrow> 'a px_mem \<Rightarrow> px_iter \<Rightarrow> ('a \<times> nat) list result" where
  "iter_loop 0 m it = Inl Spins"
| "iter_loop (Suc k) m it = (if it = px_end then Inr [] else
     rbind (iter_get m it) (\<lambda>x. rbind (iter_tick m it) (\<lambda>t. rbind (iter_next m it) (\<lambda>it. rbind (iter_loop k m it) (\<lambda>xs. Inr ((x, t) # xs))))))"

definition px_elems :: "nat \<Rightarrow> 'a px_mem \<Rightarrow> px_queue \<Rightarrow> ('a \<times> nat) list result" where
  "px_elems N m q = iter_loop (Suc (N * pm_fresh m)) m (px_begin q)"

section \<open>Chains of groups\<close>

primrec px_path :: "(nat \<rightharpoonup> 'a px_group) \<Rightarrow> nat option \<Rightarrow> nat list \<Rightarrow> nat option \<Rightarrow> bool" where
  "px_path h p [] q \<longleftrightarrow> p = q"
| "px_path h p (a # as) q \<longleftrightarrow> p = Some a \<and> (\<exists>g. h a = Some g \<and> px_path h (pg_next g) as q)"

definition last_opt :: "nat list \<Rightarrow> nat option" where "last_opt as = (if as = [] then None else Some (last as))"

definition pxs_of :: "(nat \<rightharpoonup> 'a px_group) \<Rightarrow> nat \<Rightarrow> 'a list" where "pxs_of h a = pg_pxs (the (h a))"

definition tick_of :: "(nat \<rightharpoonup> 'a px_group) \<Rightarrow> nat \<Rightarrow> nat" where "tick_of h a = pg_tick (the (h a))"

definition elems_of :: "(nat \<rightharpoonup> 'a px_group) \<Rightarrow> nat list \<Rightarrow> ('a \<times> nat) list" where
  "elems_of h as = concat (map (\<lambda>a. map (\<lambda>x. (x, tick_of h a)) (pxs_of h a)) as)"

text \<open>\<open>as\<close> are the groups of the queue and \<open>fs\<close> its free groups.\<close>

definition px_rep :: "nat \<Rightarrow> 'a px_mem \<Rightarrow> px_queue \<Rightarrow> nat list \<Rightarrow> nat list \<Rightarrow> bool" where
  "px_rep N m q as fs \<longleftrightarrow> px_path (pm_heap m) (pq_head q) as None \<and> px_path (pm_heap m) (pq_fhead q) fs None \<and>
     distinct (as @ fs) \<and> pq_tail q = last_opt as \<and> pq_ftail q = last_opt fs \<and> pq_ngroups q = length as \<and>
     set (as @ fs) \<subseteq> {..<pm_fresh m} \<and> (\<forall>a \<in> set as. pxs_of (pm_heap m) a \<noteq> [] \<and> length (pxs_of (pm_heap m) a) \<le> N) \<and>
     sorted (map (tick_of (pm_heap m)) as)"

lemma last_opt_simps [simp]: "last_opt [] = None" "last_opt (as @ [a]) = Some a" "last_opt as = None \<longleftrightarrow> as = []"
  by (simp_all add: last_opt_def)

lemma last_opt_Cons: "last_opt (a # as) = (if as = [] then Some a else last_opt as)"
  by (simp add: last_opt_def)

lemma elems_of_simps [simp]:
  "elems_of h [] = []" "elems_of h (a # as) = map (\<lambda>x. (x, tick_of h a)) (pxs_of h a) @ elems_of h as"
  "elems_of h (as @ bs) = elems_of h as @ elems_of h bs"
  by (simp_all add: elems_of_def)

lemma px_path_append [simp]: "px_path h p (as @ bs) q \<longleftrightarrow> (\<exists>r. px_path h p as r \<and> px_path h r bs q)"
  by (induction as arbitrary: p) auto

lemma px_path_frame: "px_path h p as q \<Longrightarrow> (\<And>a. a \<in> set as \<Longrightarrow> h' a = h a) \<Longrightarrow> px_path h' p as q"
  by (induction as arbitrary: p) auto

lemma px_path_upd [simp]: "a \<notin> set as \<Longrightarrow> px_path (h(a := v)) p as q \<longleftrightarrow> px_path h p as q"
  by (induction as arbitrary: p) auto

lemma px_path_in_heap: "px_path h p as q \<Longrightarrow> a \<in> set as \<Longrightarrow> \<exists>g. h a = Some g"
  by (induction as arbitrary: p) auto

lemma px_path_None: "px_path h None as q \<longleftrightarrow> as = [] \<and> q = None"
  by (cases as) auto

lemma px_path_Some: "px_path h (Some a) as None \<longleftrightarrow> (\<exists>g bs. as = a # bs \<and> h a = Some g \<and> px_path h (pg_next g) bs None)"
  by (cases as) auto

lemma px_path_link:
  assumes "px_path h p (as @ [b]) q" and "h b = Some g" and "b \<notin> set as"
  shows "px_path (h(b \<mapsto> g\<lparr>pg_next := r, pg_pxs := xs, pg_tick := t\<rparr>)) p (as @ [b]) r"
  using assms by auto

lemma px_deref_simps [simp]:
  "px_deref m None = Inl Out_Of_Bounds" "pm_heap m a = Some g \<Longrightarrow> px_deref m (Some a) = Inr (a, g)"
  by (simp_all add: px_deref_def)

lemma px_store_simps [simp]: "pm_heap (px_store a g m) = (pm_heap m)(a \<mapsto> g)" "pm_fresh (px_store a g m) = pm_fresh m"
  by (simp_all add: px_store_def)

lemma of_upd [simp]:
  "pxs_of (h(a \<mapsto> g)) b = (if b = a then pg_pxs g else pxs_of h b)" "tick_of (h(a \<mapsto> g)) b = (if b = a then pg_tick g else tick_of h b)"
  by (simp_all add: pxs_of_def tick_of_def)

lemma elems_of_frame: "(\<And>a. a \<in> set as \<Longrightarrow> pxs_of h' a = pxs_of h a \<and> tick_of h' a = tick_of h a) \<Longrightarrow> elems_of h' as = elems_of h as"
  by (induction as) auto

lemma px_rep_length: "px_rep N m q as fs \<Longrightarrow> length as + length fs \<le> pm_fresh m"
proof -
  assume r: "px_rep N m q as fs"
  then have "length (as @ fs) = card (set (as @ fs))" by (simp only: px_rep_def distinct_card)
  also have "\<dots> \<le> card {..<pm_fresh m}" using r by (intro card_mono) (simp_all add: px_rep_def)
  finally show ?thesis by simp
qed

lemma px_rep_frame:
  assumes "px_rep N m q as fs" and "\<And>a. a \<in> set as \<union> set fs \<Longrightarrow> pm_heap m' a = pm_heap m a" and "pm_fresh m \<le> pm_fresh m'"
  shows "px_rep N m' q as fs" and "elems_of (pm_heap m') as = elems_of (pm_heap m) as"
proof -
  have same: "pxs_of (pm_heap m') a = pxs_of (pm_heap m) a" "tick_of (pm_heap m') a = tick_of (pm_heap m) a" if "a \<in> set as" for a
    using assms(2) that by (simp_all add: pxs_of_def tick_of_def)
  then have ticks: "map (tick_of (pm_heap m')) as = map (tick_of (pm_heap m)) as" by simp
  have "sorted (map (tick_of (pm_heap m')) as)" unfolding ticks using assms(1) by (simp add: px_rep_def)
  moreover have "px_path (pm_heap m') (pq_head q) as None" "px_path (pm_heap m') (pq_fhead q) fs None"
    using assms(1,2) by (auto simp: px_rep_def intro: px_path_frame)
  ultimately show "px_rep N m' q as fs" using assms(1,3) same(1) unfolding px_rep_def by auto
  show "elems_of (pm_heap m') as = elems_of (pm_heap m) as" using same by (intro elems_of_frame) simp
qed

section \<open>Walks along the chains\<close>

lemma check_groups_ok:
  assumes "px_path (pm_heap m) p as None" and "\<forall>a \<in> set as. pxs_of (pm_heap m) a \<noteq> [] \<and> length (pxs_of (pm_heap m) a) \<le> N"
    and "sorted (prev # map (tick_of (pm_heap m)) as)" and "length as < k"
  shows "check_groups k N m p pprev n prev = Inr (if as = [] then pprev else last_opt as, n + length as)"
  using assms
proof (induction as arbitrary: k p pprev n prev)
  case Nil
  then show ?case by (cases k) simp_all
next
  case (Cons a as)
  then obtain k' g where k: "k = Suc k'" "p = Some a" "pm_heap m a = Some g" "px_path (pm_heap m) (pg_next g) as None"
    by (cases k) auto
  then show ?case using Cons.prems Cons.IH [OF k(4), of "pg_tick g" k' "Some a" "n + 1"]
    by (auto simp: pxs_of_def tick_of_def last_opt_Cons)
qed

lemma walk_chain_ok:
  "px_path (pm_heap m) p fs None \<Longrightarrow> length fs < k \<Longrightarrow> walk_chain k m p pprev = Inr (if fs = [] then pprev else last_opt fs)"
proof (induction fs arbitrary: k p pprev)
  case Nil
  then show ?case by (cases k) simp_all
next
  case (Cons a fs)
  then show ?case by (cases k) (auto simp: last_opt_Cons)
qed

lemma no_next_ok: "px_path (pm_heap m) p as None \<Longrightarrow> no_next m (last_opt as) = Inr ()"
  by (cases as rule: rev_cases) (auto simp: no_next_def)

lemma sanity_ok: "px_rep N m q as fs \<Longrightarrow> sanity_check N m q = Inr ()"
proof -
  assume r: "px_rep N m q as fs"
  then have paths: "px_path (pm_heap m) (pq_head q) as None" "px_path (pm_heap m) (pq_fhead q) fs None" by (simp_all add: px_rep_def)
  have "check_groups (px_fuel m) N m (pq_head q) None 0 0 = Inr (last_opt as, length as)"
    using r px_rep_length [OF r] check_groups_ok [OF paths(1), of N 0 "px_fuel m" None 0]
    by (auto simp: px_rep_def px_fuel_def)
  moreover have "walk_chain (px_fuel m) m (pq_fhead q) None = Inr (last_opt fs)"
    using px_rep_length [OF r] walk_chain_ok [OF paths(2), of "px_fuel m" None] by (auto simp: px_fuel_def)
  moreover have "(pq_head q = None) = (as = [])" "(pq_fhead q = None) = (fs = [])" using paths by (cases as; cases fs; auto)+
  ultimately show ?thesis using r no_next_ok [OF paths(1)] no_next_ok [OF paths(2)]
    by (auto simp: sanity_check_def px_rep_def)
qed

lemma iter_loop_group:
  assumes "pm_heap m a = Some g" and "i < length (pg_pxs g)" and "length (pg_pxs g) - i \<le> k"
  shows "iter_loop k m (Some a, i) =
    rbind (iter_loop (k - (length (pg_pxs g) - i)) m (pg_next g, 0)) (\<lambda>xs. Inr (map (\<lambda>x. (x, pg_tick g)) (drop i (pg_pxs g)) @ xs))"
  using assms(2,3)
proof (induction "length (pg_pxs g) - i" arbitrary: i k)
  case 0
  then show ?case by simp
next
  case (Suc l)
  then obtain k' where k: "k = Suc k'" by (cases k) auto
  have dr: "drop i (pg_pxs g) = pg_pxs g ! i # drop (Suc i) (pg_pxs g)" using Suc.prems(1) by (simp add: Cons_nth_drop_Suc)
  show ?case
  proof (cases "Suc i = length (pg_pxs g)")
    case True
    then have "k - (length (pg_pxs g) - i) = k'" using k by simp
    then show ?thesis using assms(1) Suc.prems k dr True
      by (cases "iter_loop k' m (pg_next g, 0)") (simp_all add: px_end_def iter_get_def iter_tick_def iter_next_def)
  next
    case False
    then have "iter_loop k' m (Some a, Suc i) = rbind (iter_loop (k' - (length (pg_pxs g) - Suc i)) m (pg_next g, 0))
       (\<lambda>xs. Inr (map (\<lambda>x. (x, pg_tick g)) (drop (Suc i) (pg_pxs g)) @ xs))"
      using Suc.hyps(2) Suc.prems k by (intro Suc.hyps(1)) auto
    moreover have "k - (length (pg_pxs g) - i) = k' - (length (pg_pxs g) - Suc i)" using k Suc.prems(1) by simp
    ultimately show ?thesis using assms(1) Suc.prems k dr False
      by (cases "iter_loop (k' - (length (pg_pxs g) - Suc i)) m (pg_next g, 0)")
        (simp_all add: px_end_def iter_get_def iter_tick_def iter_next_def)
  qed
qed

lemma iter_loop_ok:
  assumes "px_path (pm_heap m) p as None" and "\<forall>a \<in> set as. pxs_of (pm_heap m) a \<noteq> []"
    and "length (elems_of (pm_heap m) as) < k"
  shows "iter_loop k m (p, 0) = Inr (elems_of (pm_heap m) as)"
  using assms
proof (induction as arbitrary: k p)
  case Nil
  then show ?case by (cases k) (simp_all add: px_end_def)
next
  case (Cons a as)
  then obtain g where g: "p = Some a" "pm_heap m a = Some g" "px_path (pm_heap m) (pg_next g) as None" by auto
  have el: "pxs_of (pm_heap m) a = pg_pxs g" "tick_of (pm_heap m) a = pg_tick g" using g(2) by (simp_all add: pxs_of_def tick_of_def)
  have "iter_loop (k - length (pg_pxs g)) m (pg_next g, 0) = Inr (elems_of (pm_heap m) as)"
    using Cons.prems el by (intro Cons.IH [OF g(3)]) auto
  then show ?case using iter_loop_group [OF g(2), of 0 k] Cons.prems el g(1) by simp
qed

lemma elems_of_length:
  "\<forall>a \<in> set as. length (pxs_of h a) \<le> N \<Longrightarrow> length (elems_of h as) \<le> N * length as"
  by (induction as) auto

lemma px_elems_ok: "px_rep N m q as fs \<Longrightarrow> px_elems N m q = Inr (elems_of (pm_heap m) as)"
proof -
  assume r: "px_rep N m q as fs"
  have "length (elems_of (pm_heap m) as) \<le> N * length as" using r by (intro elems_of_length) (simp add: px_rep_def)
  also have "\<dots> \<le> N * pm_fresh m" using px_rep_length [OF r] by simp
  finally show ?thesis using r unfolding px_elems_def px_begin_def by (intro iter_loop_ok) (auto simp: px_rep_def)
qed
section \<open>The operations on chains\<close>

text \<open>\<open>px_frame A m m'\<close>: only groups in \<open>A\<close> and new ones differ.\<close>

definition px_frame :: "nat set \<Rightarrow> 'a px_mem \<Rightarrow> 'a px_mem \<Rightarrow> bool" where
  "px_frame A m m' \<longleftrightarrow> pm_fresh m \<le> pm_fresh m' \<and> (\<forall>a < pm_fresh m. a \<notin> A \<longrightarrow> pm_heap m' a = pm_heap m a)"

lemma px_frame_refl [simp]: "px_frame A m m"
  by (simp add: px_frame_def)

lemma px_frame_trans: "px_frame A m m1 \<Longrightarrow> px_frame B m1 m2 \<Longrightarrow> (\<And>b. b \<in> B \<Longrightarrow> b \<in> A \<or> pm_fresh m \<le> b) \<Longrightarrow> px_frame A m m2"
  unfolding px_frame_def
proof (intro conjI allI impI)
  fix a assume a: "a < pm_fresh m" "a \<notin> A" and B: "\<And>b. b \<in> B \<Longrightarrow> b \<in> A \<or> pm_fresh m \<le> b"
    and f: "pm_fresh m \<le> pm_fresh m1 \<and> (\<forall>a<pm_fresh m. a \<notin> A \<longrightarrow> pm_heap m1 a = pm_heap m a)"
      "pm_fresh m1 \<le> pm_fresh m2 \<and> (\<forall>a<pm_fresh m1. a \<notin> B \<longrightarrow> pm_heap m2 a = pm_heap m1 a)"
  have "a \<notin> B" using B [of a] a by auto
  then show "pm_heap m2 a = pm_heap m a" using f a by simp
qed auto

lemma px_frame_mono: "px_frame {} m m' \<Longrightarrow> px_frame A m m'"
  by (simp add: px_frame_def)

lemma px_frame_store: "a \<in> A \<Longrightarrow> px_frame A m (px_store a g m)"
  by (auto simp: px_frame_def)

lemma px_rep_other:
  assumes "px_rep N m q as fs" and "px_frame A m m'" and "(set as \<union> set fs) \<inter> A = {}"
  shows "px_rep N m' q as fs" and "elems_of (pm_heap m') as = elems_of (pm_heap m) as"
proof -
  have "pm_heap m' a = pm_heap m a" if "a \<in> set as \<union> set fs" for a
    using assms that by (auto simp: px_frame_def px_rep_def subset_iff)
  moreover have "pm_fresh m \<le> pm_fresh m'" using assms(2) by (simp add: px_frame_def)
  ultimately show "px_rep N m' q as fs" "elems_of (pm_heap m') as = elems_of (pm_heap m) as"
    using px_rep_frame [OF assms(1)] by blast+
qed

lemma alloc_group_rep:
  assumes "px_rep N m q as fs"
  obtains m' q' where "alloc_group (m, q) = (m', q')" "px_rep N m' q' as (pm_fresh m # fs)" "px_frame {} m m'"
    "elems_of (pm_heap m') as = elems_of (pm_heap m) as" "pm_fresh m' = Suc (pm_fresh m)"
proof -
  define m' where "m' = m\<lparr>pm_heap := (pm_heap m)(pm_fresh m \<mapsto> px_group_new\<lparr>pg_next := pq_fhead q\<rparr>), pm_fresh := Suc (pm_fresh m)\<rparr>"
  define q' where "q' = q\<lparr>pq_ftail := (if pq_ftail q = None then Some (pm_fresh m) else pq_ftail q), pq_fhead := Some (pm_fresh m)\<rparr>"
  have fresh: "pm_fresh m \<notin> set as" "pm_fresh m \<notin> set fs" using assms by (auto simp: px_rep_def)
  have frame: "px_frame {} m m'" by (simp add: px_frame_def m'_def)
  note rep = px_rep_other [OF assms frame]
  have "px_rep N m' q' as (pm_fresh m # fs)"
    using rep(1) fresh by (auto simp: px_rep_def m'_def q'_def last_opt_Cons)
  moreover have "alloc_group (m, q) = (m', q')" by (simp add: alloc_group_def m'_def q'_def Let_def)
  ultimately show thesis using that frame rep(2) by (simp add: m'_def)
qed

lemma alloc_freelist_rep:
  assumes "px_rep N m q as fs"
  obtains m' q' fs' where "alloc_freelist n (m, q) = (m', q')" "px_rep N m' q' as fs'" "px_frame {} m m'" "length fs' = n + length fs"
    "elems_of (pm_heap m') as = elems_of (pm_heap m) as" "set fs' \<subseteq> set fs \<union> {pm_fresh m..<pm_fresh m'}"
proof -
  have "\<exists>m' q' fs'. (alloc_group ^^ n) (m, q) = (m', q') \<and> px_rep N m' q' as fs' \<and> px_frame {} m m' \<and> length fs' = n + length fs \<and>
    elems_of (pm_heap m') as = elems_of (pm_heap m) as \<and> set fs' \<subseteq> set fs \<union> {pm_fresh m..<pm_fresh m'}"
  proof (induction n)
    case 0
    then show ?case using assms by (intro exI [of _ m] exI [of _ q] exI [of _ fs]) simp
  next
    case (Suc n)
    then obtain m1 q1 fs1 where 1: "(alloc_group ^^ n) (m, q) = (m1, q1)" "px_rep N m1 q1 as fs1" "px_frame {} m m1" "length fs1 = n + length fs"
      "elems_of (pm_heap m1) as = elems_of (pm_heap m) as" "set fs1 \<subseteq> set fs \<union> {pm_fresh m..<pm_fresh m1}" by blast
    obtain m2 q2 where 2: "alloc_group (m1, q1) = (m2, q2)" "px_rep N m2 q2 as (pm_fresh m1 # fs1)" "px_frame {} m1 m2"
      "elems_of (pm_heap m2) as = elems_of (pm_heap m1) as" "pm_fresh m2 = Suc (pm_fresh m1)" by (rule alloc_group_rep [OF 1(2)])
    have "pm_fresh m \<le> pm_fresh m1" using 1(3) by (simp add: px_frame_def)
    then have "set (pm_fresh m1 # fs1) \<subseteq> set fs \<union> {pm_fresh m..<pm_fresh m2}" using 1(6) 2(5) by auto
    moreover have "px_frame {} m m2" using px_frame_trans [OF 1(3) 2(3)] by simp
    moreover have "(alloc_group ^^ Suc n) (m, q) = (m2, q2)" using 1(1) 2(1) by simp
    ultimately show ?case using 1(4,5) 2(2,4)
      by (intro exI [of _ m2] exI [of _ q2] exI [of _ "pm_fresh m1 # fs1"]) (simp del: funpow.simps)
  qed
  then show thesis using that unfolding alloc_freelist_def by blast
qed

lemma px_rep_null:
  assumes "px_rep N m q as fs"
  shows "pq_head q = None \<longleftrightarrow> as = []" "pq_fhead q = None \<longleftrightarrow> fs = []" "pq_ftail q = None \<longleftrightarrow> fs = []" "pq_tail q = None \<longleftrightarrow> as = []"
  using assms by (cases as; cases fs; auto simp: px_rep_def)+

lemma ensure_freelist_rep:
  assumes "px_rep N m q as fs"
  obtains m' q' b fs' where "ensure_freelist (m, q) = Inr (m', q')" "px_rep N m' q' as (b # fs')" "px_frame {} m m'"
    "elems_of (pm_heap m') as = elems_of (pm_heap m) as" "set (b # fs') \<subseteq> set fs \<union> {pm_fresh m..<pm_fresh m'}"
proof (cases fs)
  case Nil
  obtain m' q' fs' where 1: "alloc_freelist 16 (m, q) = (m', q')" "px_rep N m' q' as fs'" "px_frame {} m m'" "length fs' = 16 + length fs"
    "elems_of (pm_heap m') as = elems_of (pm_heap m) as" "set fs' \<subseteq> set fs \<union> {pm_fresh m..<pm_fresh m'}"
    by (rule alloc_freelist_rep [OF assms])
  then obtain b fs'' where "fs' = b # fs''" by (cases fs') auto
  then show thesis using that [of m' q' b fs''] 1 px_rep_null [OF assms] Nil by (simp add: ensure_freelist_def)
next
  case (Cons b fs')
  then show thesis using that [of m q b fs'] assms px_rep_null [OF assms] by (auto simp: ensure_freelist_def)
qed

lemma pop_free_run:
  assumes "px_rep N m q as fs"
  obtains m1 q1 b fs' g where "px_rep N m1 q1 as (b # fs')" "px_frame {} m m1" "elems_of (pm_heap m1) as = elems_of (pm_heap m) as"
    "set (b # fs') \<subseteq> set fs \<union> {pm_fresh m..<pm_fresh m1}"
    "pop_free tick (m, q) = Inr (let m2 = px_store b \<lparr>pg_next = None, pg_pxs = [], pg_tick = tick\<rparr> m1
       in if as = [] then m2 else px_store (last as) ((the (pm_heap m1 (last as)))\<lparr>pg_next := Some b\<rparr>) m2,
      q1\<lparr>pq_fhead := g, pq_ftail := last_opt fs', pq_ngroups := length as + 1, pq_head := (if as = [] then Some b else pq_head q1), pq_tail := Some b\<rparr>)"
    "px_path (pm_heap m1) g fs' None"
proof -
  obtain m1 q1 b fs' where 1: "ensure_freelist (m, q) = Inr (m1, q1)" "px_rep N m1 q1 as (b # fs')" "px_frame {} m m1"
    "elems_of (pm_heap m1) as = elems_of (pm_heap m) as" "set (b # fs') \<subseteq> set fs \<union> {pm_fresh m..<pm_fresh m1}"
    by (rule ensure_freelist_rep [OF assms])
  then obtain g where g: "pq_fhead q1 = Some b" "pm_heap m1 b = Some g" "px_path (pm_heap m1) (pg_next g) fs' None"
    by (auto simp: px_rep_def)
  have ft: "(if pq_ftail q1 = Some b then None else pq_ftail q1) = last_opt fs'"
    using 1(2) by (auto simp: px_rep_def last_opt_Cons last_opt_def split: if_splits)
  have n: "pq_ngroups q1 = length as" "pq_tail q1 = last_opt as" using 1(2) by (simp_all add: px_rep_def)
  show thesis
  proof (rule that [OF 1(2,3,4,5) _ g(3)], cases "as = []")
    case True
    then show "pop_free tick (m, q) = Inr (let m2 = px_store b \<lparr>pg_next = None, pg_pxs = [], pg_tick = tick\<rparr> m1
       in if as = [] then m2 else px_store (last as) ((the (pm_heap m1 (last as)))\<lparr>pg_next := Some b\<rparr>) m2,
      q1\<lparr>pq_fhead := pg_next g, pq_ftail := last_opt fs', pq_ngroups := length as + 1, pq_head := (if as = [] then Some b else pq_head q1), pq_tail := Some b\<rparr>)"
      using 1(1) g n ft px_rep_null [OF 1(2)] by (simp add: pop_free_def Let_def)
  next
    case False
    then have l: "last as \<in> set as" "last as \<noteq> b" using 1(2) by (auto simp: px_rep_def)
    have "\<exists>gl. pm_heap m1 (last as) = Some gl" using 1(2) l(1) by (auto simp: px_rep_def dest: px_path_in_heap)
    then show "pop_free tick (m, q) = Inr (let m2 = px_store b \<lparr>pg_next = None, pg_pxs = [], pg_tick = tick\<rparr> m1
       in if as = [] then m2 else px_store (last as) ((the (pm_heap m1 (last as)))\<lparr>pg_next := Some b\<rparr>) m2,
      q1\<lparr>pq_fhead := pg_next g, pq_ftail := last_opt fs', pq_ngroups := length as + 1, pq_head := (if as = [] then Some b else pq_head q1), pq_tail := Some b\<rparr>)"
      using 1(1) g n ft px_rep_null [OF 1(2)] False l(2) by (auto simp: pop_free_def Let_def last_opt_def)
  qed
qed

lemma tail_full_ok:
  assumes r: "px_rep N m q as fs" and "\<forall>a \<in> set as. tick_of (pm_heap m) a \<le> tick"
  shows "tail_full N tick m q = Inr (as = [] \<or> length (pxs_of (pm_heap m) (last as)) = N \<or> tick_of (pm_heap m) (last as) \<noteq> tick)"
proof (cases "as = []")
  case True
  then show ?thesis using px_rep_null [OF r] by (simp add: tail_full_def)
next
  case False
  obtain g where g: "pm_heap m (last as) = Some g" using r False by (auto simp: px_rep_def dest: px_path_in_heap [of _ _ as _ "last as"])
  have "pq_tail q = Some (last as)" using r False by (simp add: px_rep_def last_opt_def)
  moreover have "length (pg_pxs g) \<le> N" "pg_tick g \<le> tick"
    using r g False assms(2) by (auto simp: px_rep_def pxs_of_def tick_of_def dest!: bspec [of _ _ "last as"])
  ultimately show ?thesis using g False by (simp add: tail_full_def pxs_of_def tick_of_def)
qed

lemma sorted_snoc: "sorted (xs @ [x]) \<longleftrightarrow> sorted xs \<and> (\<forall>y \<in> set xs. y \<le> (x :: nat))"
  by (auto simp: sorted_append)

lemma rep_append_group:
  assumes r: "px_rep N m q as fs0" and gb: "pg_next gb = None" "pg_pxs gb \<noteq> []" "length (pg_pxs gb) \<le> N"
    and ticks: "\<forall>a \<in> set as. tick_of (pm_heap m) a \<le> pg_tick gb"
    and m': "pm_heap m' = (if as = [] then pm_heap m else (pm_heap m)(last as \<mapsto> (the (pm_heap m (last as)))\<lparr>pg_next := Some b\<rparr>))(b \<mapsto> gb)"
      "pm_fresh m' = pm_fresh m"
    and q': "q' = q\<lparr>pq_fhead := g, pq_ftail := last_opt fs, pq_ngroups := length as + 1, pq_head := (if as = [] then Some b else pq_head q), pq_tail := Some b\<rparr>"
    and path: "px_path (pm_heap m) g fs None" and fs: "set fs \<subseteq> set fs0" "distinct fs" and b: "b \<notin> set as" "b \<notin> set fs" "b < pm_fresh m"
  shows "px_rep N m' q' (as @ [b]) fs" and "elems_of (pm_heap m') (as @ [b]) = elems_of (pm_heap m) as @ map (\<lambda>x. (x, pg_tick gb)) (pg_pxs gb)"
proof -
  have d: "distinct as" "set as \<inter> set fs = {}" "set fs \<subseteq> {..<pm_fresh m}" using r fs by (auto simp: px_rep_def)
  have same: "pxs_of (pm_heap m') a = pxs_of (pm_heap m) a \<and> tick_of (pm_heap m') a = tick_of (pm_heap m) a" if "a \<in> set as" for a
    using that b(1) by (auto simp: m'(1)) (simp_all add: pxs_of_def tick_of_def)
  have ticks': "map (tick_of (pm_heap m')) as = map (tick_of (pm_heap m)) as" using same by simp
  have last_fs: "as \<noteq> [] \<Longrightarrow> last as \<notin> set fs" using d(2) by (meson disjoint_iff last_in_set)
  have p1: "px_path (pm_heap m') (if as = [] then Some b else pq_head q) (as @ [b]) None"
  proof (cases as rule: rev_cases)
    case Nil
    then show ?thesis by (simp add: m'(1) gb(1))
  next
    case (snoc as0 l)
    then show ?thesis using r b d by (auto simp: px_rep_def m'(1) gb(1))
  qed
  have p2: "px_path (pm_heap m') g fs None" using path b last_fs by (auto simp: m'(1))
  have "sorted (map (tick_of (pm_heap m')) (as @ [b]))"
    using r ticks unfolding map_append ticks' by (simp add: sorted_snoc m'(1) px_rep_def)
  then show "px_rep N m' q' (as @ [b]) fs"
    using r p1 p2 same b d fs(2) gb unfolding px_rep_def by (auto simp: q' m'(2) m'(1))
  have "elems_of (pm_heap m') as = elems_of (pm_heap m) as" using same by (rule elems_of_frame)
  then show "elems_of (pm_heap m') (as @ [b]) = elems_of (pm_heap m) as @ map (\<lambda>x. (x, pg_tick gb)) (pg_pxs gb)" by (simp add: m'(1))
qed

lemma rep_append_elem:
  fixes t :: 'a and m :: "'a px_mem"
  assumes r: "px_rep N m q (as @ [l]) fs" and g: "pm_heap m l = Some g" and room: "length (pg_pxs g) < N"
  defines "m' \<equiv> px_store l (g\<lparr>pg_pxs := pg_pxs g @ [t]\<rparr>) m"
  shows "px_rep N m' q (as @ [l]) fs" and "elems_of (pm_heap m') (as @ [l]) = elems_of (pm_heap m) (as @ [l]) @ [(t, pg_tick g)]"
proof -
  have l: "l \<notin> set as" "l \<notin> set fs" using r by (auto simp: px_rep_def)
  have tick: "tick_of (pm_heap m') = tick_of (pm_heap m)" using g by (auto simp: m'_def fun_eq_iff) (simp add: tick_of_def)
  have "sorted (map (tick_of (pm_heap m')) (as @ [l]))" unfolding tick using r by (simp add: px_rep_def)
  then show "px_rep N m' q (as @ [l]) fs"
    using r g room l unfolding px_rep_def by (auto simp: m'_def)
  have "elems_of (pm_heap m') as = elems_of (pm_heap m) as" using l by (intro elems_of_frame) (auto simp: m'_def)
  then show "elems_of (pm_heap m') (as @ [l]) = elems_of (pm_heap m) (as @ [l]) @ [(t, pg_tick g)]"
    using g by (simp add: tick) (simp add: m'_def pxs_of_def tick_of_def)
qed

lemma enqueue_rep:
  assumes r: "px_rep N m q as fs" and N: "0 < N" and ticks: "\<forall>a \<in> set as. tick_of (pm_heap m) a \<le> tick"
  obtains m' q' as' fs' where "enqueue N t tick (m, q) = Inr (m', q')" "px_rep N m' q' as' fs'"
    "elems_of (pm_heap m') as' = elems_of (pm_heap m) as @ [(t, tick)]" "px_frame (set as \<union> set fs) m m'"
    "set as' \<union> set fs' \<subseteq> set as \<union> set fs \<union> {pm_fresh m..<pm_fresh m'}"
proof -
  have head: "(pq_head q = None) = (pq_tail q = None)" "(pq_head q = None) = (pq_ngroups q = 0)"
    using px_rep_null [OF r] r by (simp_all add: px_rep_def)
  note tf = tail_full_ok [OF r ticks]
  show thesis
  proof (cases "as = [] \<or> length (pxs_of (pm_heap m) (last as)) = N \<or> tick_of (pm_heap m) (last as) \<noteq> tick")
    case True
    obtain m1 q1 b fs' g where 1: "px_rep N m1 q1 as (b # fs')" "px_frame {} m m1" "elems_of (pm_heap m1) as = elems_of (pm_heap m) as"
      "set (b # fs') \<subseteq> set fs \<union> {pm_fresh m..<pm_fresh m1}"
      and pop: "pop_free tick (m, q) = Inr (let m2 = px_store b \<lparr>pg_next = None, pg_pxs = [], pg_tick = tick\<rparr> m1
       in if as = [] then m2 else px_store (last as) ((the (pm_heap m1 (last as)))\<lparr>pg_next := Some b\<rparr>) m2,
      q1\<lparr>pq_fhead := g, pq_ftail := last_opt fs', pq_ngroups := length as + 1, pq_head := (if as = [] then Some b else pq_head q1), pq_tail := Some b\<rparr>)"
      and g: "px_path (pm_heap m1) g fs' None" by (rule pop_free_run [OF r])
    define m2 where "m2 = (let m2 = px_store b \<lparr>pg_next = None, pg_pxs = [], pg_tick = tick\<rparr> m1
       in if as = [] then m2 else px_store (last as) ((the (pm_heap m1 (last as)))\<lparr>pg_next := Some b\<rparr>) m2)"
    define q2 where "q2 = q1\<lparr>pq_fhead := g, pq_ftail := last_opt fs', pq_ngroups := length as + 1,
      pq_head := (if as = [] then Some b else pq_head q1), pq_tail := Some b\<rparr>"
    define m' where "m' = px_store b \<lparr>pg_next = None, pg_pxs = [t], pg_tick = tick\<rparr> m2"
    have b: "b \<notin> set as" using 1(1) by (auto simp: px_rep_def)
    then have lb: "as \<noteq> [] \<Longrightarrow> last as \<noteq> b" by auto
    have hb: "pm_heap m2 b = Some \<lparr>pg_next = None, pg_pxs = [], pg_tick = tick\<rparr>" using lb by (auto simp: m2_def Let_def)
    have ticks1: "\<forall>a \<in> set as. tick_of (pm_heap m1) a \<le> tick"
    proof
      fix a assume a: "a \<in> set as"
      then have "a < pm_fresh m" using r by (auto simp: px_rep_def)
      then have "pm_heap m1 a = pm_heap m a" using 1(2) by (simp add: px_frame_def)
      then show "tick_of (pm_heap m1) a \<le> tick" using ticks a by (simp add: tick_of_def)
    qed
    have heap': "pm_heap m' = (if as = [] then pm_heap m1 else (pm_heap m1)(last as \<mapsto> (the (pm_heap m1 (last as)))\<lparr>pg_next := Some b\<rparr>))
        (b \<mapsto> \<lparr>pg_next = None, pg_pxs = [t], pg_tick = tick\<rparr>)" "pm_fresh m' = pm_fresh m1"
      using lb by (auto simp: m'_def m2_def Let_def fun_upd_twist)
    have rep: "px_rep N m' q2 (as @ [b]) fs'" "elems_of (pm_heap m') (as @ [b]) = elems_of (pm_heap m1) as @ [(t, tick)]"
      using rep_append_group [OF 1(1) _ _ _ _ heap' q2_def g] 1(1) N ticks1 by (auto simp: px_rep_def)
    have run: "enqueue N t tick (m, q) = Inr (m', q2)"
    proof -
      have "pop_free tick (m, q) = Inr (m2, q2)" unfolding m2_def q2_def by (rule pop)
      moreover have "pq_tail q2 = Some b" by (simp add: q2_def)
      moreover have "tail_full N tick m q = Inr True" using tf True by simp
      ultimately show ?thesis using head hb N sanity_ok [OF rep(1)] by (simp add: enqueue_def m'_def Let_def)
    qed
    have "px_frame (set as \<union> {b}) m1 m'" using heap' by (auto simp: px_frame_def)
    with px_frame_mono [OF 1(2)] have "px_frame (set as \<union> set fs) m m'" by (rule px_frame_trans) (use 1(4) in auto)
    moreover have "set (as @ [b]) \<union> set fs' \<subseteq> set as \<union> set fs \<union> {pm_fresh m..<pm_fresh m'}" using 1(4) heap'(2) by auto
    ultimately show thesis using that [OF run rep(1)] rep(2) 1(3) by simp
  next
    case False
    then obtain as0 l where as: "as = as0 @ [l]" by (cases as rule: rev_cases) auto
    obtain g where g: "pm_heap m l = Some g" using r as by (auto simp: px_rep_def)
    have "length (pg_pxs g) \<le> N" using r g as by (simp add: px_rep_def pxs_of_def)
    then have room: "length (pg_pxs g) < N" "pg_tick g = tick" using False as g by (simp_all add: pxs_of_def tick_of_def)
    have tail: "pq_tail q = Some l" "pg_next g = None" using r as g by (auto simp: px_rep_def)
    note rep = rep_append_elem [OF r [unfolded as] g room(1), of t]
    have "enqueue N t tick (m, q) = Inr (px_store l (g\<lparr>pg_pxs := pg_pxs g @ [t]\<rparr>) m, q)"
      using head tf False tail g room sanity_ok [OF rep(1)] by (simp add: enqueue_def Let_def)
    from that [OF this rep(1)] rep(2) room(2) as show thesis by (auto simp: px_frame_def)
  qed
qed

lemma clear_rep:
  assumes r: "px_rep N m q as fs"
  obtains m' q' where "px_clear (m, q) = Inr (m', q')" "px_rep N m' q' [] (as @ fs)" "px_frame (set as) m m'" "pm_fresh m' = pm_fresh m"
proof (cases as rule: rev_cases)
  case Nil
  then show thesis using that [of m q] r px_rep_null [OF r] by (simp add: px_clear_def)
next
  case (snoc as0 l)
  obtain g where g: "pm_heap m l = Some g" using r snoc by (auto simp: px_rep_def)
  define m' where "m' = px_store l (g\<lparr>pg_next := pq_fhead q\<rparr>) m"
  define q' where "q' = q\<lparr>pq_ftail := (if pq_ftail q = None then pq_tail q else pq_ftail q), pq_fhead := pq_head q,
         pq_head := None, pq_tail := None, pq_ngroups := 0\<rparr>"
  have "px_clear (m, q) = Inr (m', q')"
    using r snoc g px_rep_null [OF r] by (auto simp: px_clear_def m'_def q'_def px_rep_def)
  moreover have "px_rep N m' q' [] (as @ fs)"
    using r snoc g px_rep_null [OF r] by (auto simp: px_rep_def m'_def q'_def last_opt_def)
  ultimately show thesis using that snoc by (auto simp: m'_def px_frame_def)
qed

text \<open>A step of the loop of \<^verbatim>\<open>empty_accept_from\<close> moves the first group of the source to the end of the destination.\<close>

lemma of_next:
  assumes "h a = Some g"
  shows "pxs_of (h(a \<mapsto> g\<lparr>pg_next := n\<rparr>)) = pxs_of h" and "tick_of (h(a \<mapsto> g\<lparr>pg_next := n\<rparr>)) = tick_of h"
  using assms by (auto simp: fun_eq_iff) (simp_all add: pxs_of_def tick_of_def)

lemma accept_step:
  assumes d: "px_rep N m d bs gs" and q: "px_rep N m q (a # as) fs" and dis: "(set bs \<union> set gs) \<inter> (set (a # as) \<union> set fs) = {}"
    and g: "pm_heap m a = Some g" and ticks: "\<forall>b \<in> set bs. tick_of (pm_heap m) b \<le> pg_tick g"
  obtains m' d' where "(let m = px_store a (g\<lparr>pg_next := None\<rparr>) m
     in if pq_head d = None then Inr (m, d\<lparr>pq_head := Some a, pq_tail := Some a\<rparr>)
        else rbind (px_deref m (pq_tail d)) (\<lambda>(b, h). Inr (px_store b (h\<lparr>pg_next := Some a\<rparr>) m, d\<lparr>pq_tail := Some a\<rparr>))) = Inr (m', d')"
    "px_rep N m' (d'\<lparr>pq_ngroups := pq_ngroups d' + 1\<rparr>) (bs @ [a]) gs"
    "px_rep N m' (q\<lparr>pq_ngroups := pq_ngroups q - 1, pq_head := pg_next g, pq_tail := (if pg_next g = None then None else pq_tail q)\<rparr>) as fs"
    "pxs_of (pm_heap m') = pxs_of (pm_heap m)" "tick_of (pm_heap m') = tick_of (pm_heap m)" "pm_fresh m' = pm_fresh m"
    "px_frame (set bs \<union> {a}) m m'"
proof -
  define m1 where "m1 = px_store a (g\<lparr>pg_next := None\<rparr>) m"
  define m' where "m' = (if bs = [] then m1 else px_store (last bs) ((the (pm_heap m (last bs)))\<lparr>pg_next := Some a\<rparr>) m1)"
  define d' where "d' = d\<lparr>pq_head := (if bs = [] then Some a else pq_head d), pq_tail := Some a\<rparr>"
  have ab: "a \<notin> set bs" "a \<notin> set gs" "a < pm_fresh m" "a \<notin> set as" "a \<notin> set fs" using dis q by (auto simp: px_rep_def)
  have lb: "bs \<noteq> [] \<Longrightarrow> last bs \<noteq> a \<and> last bs \<in> set bs \<and> (\<exists>gl. pm_heap m (last bs) = Some gl)"
    using ab d by (metis last_in_set px_path_in_heap px_rep_def)
  have run: "(let m = px_store a (g\<lparr>pg_next := None\<rparr>) m
     in if pq_head d = None then Inr (m, d\<lparr>pq_head := Some a, pq_tail := Some a\<rparr>)
        else rbind (px_deref m (pq_tail d)) (\<lambda>(b, h). Inr (px_store b (h\<lparr>pg_next := Some a\<rparr>) m, d\<lparr>pq_tail := Some a\<rparr>))) = Inr (m', d')"
  proof (cases "bs = []")
    case True
    then show ?thesis using px_rep_null [OF d] by (simp add: m'_def m1_def d'_def)
  next
    case False
    then obtain gl where gl: "last bs \<noteq> a" "pm_heap m (last bs) = Some gl" using lb by blast
    have "pq_tail d = Some (last bs)" using d False by (simp add: px_rep_def last_opt_def)
    then show ?thesis using False gl px_rep_null [OF d] by (auto simp: m'_def m1_def d'_def Let_def)
  qed
  have heap': "pm_heap m' = (if bs = [] then pm_heap m else (pm_heap m)(last bs \<mapsto> (the (pm_heap m (last bs)))\<lparr>pg_next := Some a\<rparr>))
      (a \<mapsto> g\<lparr>pg_next := None\<rparr>)" "pm_fresh m' = pm_fresh m"
    using lb by (auto simp: m'_def m1_def fun_upd_twist)
  have cont: "pxs_of (pm_heap m') = pxs_of (pm_heap m)" "tick_of (pm_heap m') = tick_of (pm_heap m)"
    using lb g by (auto simp: heap' of_next split: if_splits)
  have qg: "px_path (pm_heap m) (pg_next g) as None" "pxs_of (pm_heap m) a \<noteq> []" "length (pxs_of (pm_heap m) a) \<le> N"
    using q g by (auto simp: px_rep_def)
  have dg: "px_path (pm_heap m) (pq_fhead d) gs None" "distinct gs" "pq_ngroups d = length bs" "pq_ftail d = last_opt gs" using d by (simp_all add: px_rep_def)
  have "px_rep N m' (d\<lparr>pq_fhead := pq_fhead d, pq_ftail := last_opt gs, pq_ngroups := length bs + 1,
      pq_head := (if bs = [] then Some a else pq_head d), pq_tail := Some a\<rparr>) (bs @ [a]) gs"
    using rep_append_group(1) [OF d _ _ _ _ heap' refl dg(1) order_refl dg(2) ab(1-3)] qg(2,3) ticks g by (simp add: pxs_of_def)
  moreover have "d\<lparr>pq_fhead := pq_fhead d, pq_ftail := last_opt gs, pq_ngroups := length bs + 1,
      pq_head := (if bs = [] then Some a else pq_head d), pq_tail := Some a\<rparr> = d'\<lparr>pq_ngroups := pq_ngroups d' + 1\<rparr>"
    using dg by (simp add: d'_def)
  ultimately have rd: "px_rep N m' (d'\<lparr>pq_ngroups := pq_ngroups d' + 1\<rparr>) (bs @ [a]) gs" by simp
  have frame: "px_frame (set bs \<union> {a}) m m'" using lb by (auto simp: heap' px_frame_def)
  have "pg_next g = None \<longleftrightarrow> as = []" using qg(1) by (cases as) auto
  then have "px_rep N m (q\<lparr>pq_ngroups := pq_ngroups q - 1, pq_head := pg_next g, pq_tail := (if pg_next g = None then None else pq_tail q)\<rparr>) as fs"
    using q qg(1) by (auto simp: px_rep_def last_opt_Cons)
  moreover have "(set as \<union> set fs) \<inter> (set bs \<union> {a}) = {}" using dis ab by auto
  ultimately have "px_rep N m' (q\<lparr>pq_ngroups := pq_ngroups q - 1, pq_head := pg_next g, pq_tail := (if pg_next g = None then None else pq_tail q)\<rparr>) as fs"
    using px_rep_other(1) [OF _ frame] by blast
  from that [OF run rd this cont heap'(2) frame] show thesis .
qed

lemma accept_loop_rep:
  assumes "px_rep N m d bs gs" and "px_rep N m q as fs" and "(set bs \<union> set gs) \<inter> (set as \<union> set fs) = {}"
    and "sorted (map (tick_of (pm_heap m)) (bs @ as))" and "length as < k"
  shows "\<exists>m' d' q'. accept_loop k tick (pq_head q) (m, d, q) = Inr (m', d', q') \<and>
    px_rep N m' d' (bs @ takeWhile (\<lambda>a. tick_of (pm_heap m) a \<le> tick) as) gs \<and>
    px_rep N m' q' (dropWhile (\<lambda>a. tick_of (pm_heap m) a \<le> tick) as) fs \<and> pxs_of (pm_heap m') = pxs_of (pm_heap m) \<and>
    tick_of (pm_heap m') = tick_of (pm_heap m) \<and> pm_fresh m' = pm_fresh m \<and> px_frame (set bs \<union> set as) m m'"
  using assms
proof (induction as arbitrary: k m d q bs)
  case Nil
  then show ?case using px_rep_null [OF Nil.prems(2)] by (cases k) simp_all
next
  case (Cons a as)
  obtain k' where k: "k = Suc k'" using Cons.prems(5) by (cases k) auto
  obtain g where g: "pq_head q = Some a" "pm_heap m a = Some g" using Cons.prems(2) by (auto simp: px_rep_def)
  have ga: "tick_of (pm_heap m) a = pg_tick g" using g by (simp add: tick_of_def)
  show ?case
  proof (cases "pg_tick g \<le> tick")
    case False
    then show ?thesis using Cons.prems(1,2) g k ga by simp
  next
    case True
    have "\<forall>b \<in> set bs. tick_of (pm_heap m) b \<le> pg_tick g" using Cons.prems(4) ga by (simp add: sorted_append)
    from accept_step [OF Cons.prems(1,2,3) g(2) this] obtain m1 d1 where 1: "(let m = px_store a (g\<lparr>pg_next := None\<rparr>) m
     in if pq_head d = None then Inr (m, d\<lparr>pq_head := Some a, pq_tail := Some a\<rparr>)
        else rbind (px_deref m (pq_tail d)) (\<lambda>(b, h). Inr (px_store b (h\<lparr>pg_next := Some a\<rparr>) m, d\<lparr>pq_tail := Some a\<rparr>))) = Inr (m1, d1)"
      "px_rep N m1 (d1\<lparr>pq_ngroups := pq_ngroups d1 + 1\<rparr>) (bs @ [a]) gs"
      "px_rep N m1 (q\<lparr>pq_ngroups := pq_ngroups q - 1, pq_head := pg_next g, pq_tail := (if pg_next g = None then None else pq_tail q)\<rparr>) as fs"
      and cont: "pxs_of (pm_heap m1) = pxs_of (pm_heap m)" "tick_of (pm_heap m1) = tick_of (pm_heap m)" "pm_fresh m1 = pm_fresh m"
      and frame: "px_frame (set bs \<union> {a}) m m1" by blast
    have dis: "(set (bs @ [a]) \<union> set gs) \<inter> (set as \<union> set fs) = {}" using Cons.prems(2,3) by (auto simp: px_rep_def)
    have "sorted (map (tick_of (pm_heap m1)) ((bs @ [a]) @ as))" using Cons.prems(4) by (simp add: cont(2))
    from Cons.IH [OF 1(2,3) dis this, of k'] Cons.prems(5) k obtain m' d' q' where
      2: "accept_loop k' tick (pg_next g) (m1, d1\<lparr>pq_ngroups := pq_ngroups d1 + 1\<rparr>,
          q\<lparr>pq_ngroups := pq_ngroups q - 1, pq_head := pg_next g, pq_tail := (if pg_next g = None then None else pq_tail q)\<rparr>) = Inr (m', d', q')"
      "px_rep N m' d' ((bs @ [a]) @ takeWhile (\<lambda>a. tick_of (pm_heap m) a \<le> tick) as) gs"
      "px_rep N m' q' (dropWhile (\<lambda>a. tick_of (pm_heap m) a \<le> tick) as) fs" "pxs_of (pm_heap m') = pxs_of (pm_heap m)"
      "tick_of (pm_heap m') = tick_of (pm_heap m)" "pm_fresh m' = pm_fresh m" "px_frame (set (bs @ [a]) \<union> set as) m1 m'"
      unfolding cont by auto
    have "accept_loop k tick (pq_head q) (m, d, q) = Inr (m', d', q')"
      using 1(1) 2(1) True unfolding k g(1) by (simp add: g(2) Let_def)
    moreover have "px_frame (set bs \<union> set (a # as)) m m'" using frame 2(7) cont(3) by (auto simp: px_frame_def)
    ultimately show ?thesis using 2(2-6) True ga by (intro exI [of _ m'] exI [of _ d'] exI [of _ q']) simp
  qed
qed

lemma elems_takeWhile:
  assumes "\<forall>a \<in> set as. pxs_of h a \<noteq> []"
  shows "elems_of h (takeWhile (\<lambda>a. tick_of h a \<le> tick) as) = takeWhile (\<lambda>e. snd e \<le> tick) (elems_of h as)"
    and "elems_of h (dropWhile (\<lambda>a. tick_of h a \<le> tick) as) = dropWhile (\<lambda>e. snd e \<le> tick) (elems_of h as)"
proof -
  have "elems_of h (takeWhile (\<lambda>a. tick_of h a \<le> tick) as) = takeWhile (\<lambda>e. snd e \<le> tick) (elems_of h as) \<and>
    elems_of h (dropWhile (\<lambda>a. tick_of h a \<le> tick) as) = dropWhile (\<lambda>e. snd e \<le> tick) (elems_of h as)"
    using assms
  proof (induction as)
    case (Cons a as)
    obtain x xs where x: "pxs_of h a = x # xs" using Cons.prems by (cases "pxs_of h a") auto
    show ?case
    proof (cases "tick_of h a \<le> tick")
      case True
      have "takeWhile (\<lambda>e. snd e \<le> tick) (map (\<lambda>x. (x, tick_of h a)) (pxs_of h a) @ elems_of h as) =
          map (\<lambda>x. (x, tick_of h a)) (pxs_of h a) @ takeWhile (\<lambda>e. snd e \<le> tick) (elems_of h as)"
        using True by (intro takeWhile_append2) auto
      moreover have "dropWhile (\<lambda>e. snd e \<le> tick) (map (\<lambda>x. (x, tick_of h a)) (pxs_of h a) @ elems_of h as) =
          dropWhile (\<lambda>e. snd e \<le> tick) (elems_of h as)"
        using True by (intro dropWhile_append2) auto
      ultimately
      show ?thesis using Cons True by simp
    qed (simp add: x)
  qed simp
  then show "elems_of h (takeWhile (\<lambda>a. tick_of h a \<le> tick) as) = takeWhile (\<lambda>e. snd e \<le> tick) (elems_of h as)"
    "elems_of h (dropWhile (\<lambda>a. tick_of h a \<le> tick) as) = dropWhile (\<lambda>e. snd e \<le> tick) (elems_of h as)" by simp_all
qed

lemma empty_accept_rep:
  assumes d: "px_rep N m d [] gs" and q: "px_rep N m q as fs" and dis: "set gs \<inter> (set as \<union> set fs) = {}"
  obtains m' d' q' as1 as2 where "empty_accept_from N tick (m, d, q) = Inr (m', d', q')" "px_rep N m' d' as1 gs" "px_rep N m' q' as2 fs"
    "as = as1 @ as2" "elems_of (pm_heap m') as1 = takeWhile (\<lambda>e. snd e \<le> tick) (elems_of (pm_heap m) as)"
    "elems_of (pm_heap m') as2 = dropWhile (\<lambda>e. snd e \<le> tick) (elems_of (pm_heap m) as)" "pm_fresh m' = pm_fresh m" "px_frame (set as) m m'"
proof -
  have srt: "sorted (map (tick_of (pm_heap m)) as)" and ne: "\<forall>a \<in> set as. pxs_of (pm_heap m) a \<noteq> []" using q by (simp_all add: px_rep_def)
  let ?P = "\<lambda>a. tick_of (pm_heap m) a \<le> tick"
  obtain m' d' q' where 1: "accept_loop (px_fuel m) tick (pq_head q) (m, d, q) = Inr (m', d', q')"
    "px_rep N m' d' (takeWhile ?P as) gs" "px_rep N m' q' (dropWhile ?P as) fs" "pxs_of (pm_heap m') = pxs_of (pm_heap m)"
    "tick_of (pm_heap m') = tick_of (pm_heap m)" "pm_fresh m' = pm_fresh m" "px_frame (set as) m m'"
    using accept_loop_rep [OF d q, of "px_fuel m" tick] px_rep_length [OF q] dis srt by (auto simp: px_fuel_def)
  have "elems_of (pm_heap m') xs = elems_of (pm_heap m) xs" for xs using 1(4,5) by (simp add: elems_of_def)
  then show thesis
    using that [of m' d' q', OF _ 1(2,3) _ _ _ 1(6,7)] 1(1) elems_takeWhile [OF ne] px_rep_null [OF d] sanity_ok [OF 1(2)] sanity_ok [OF 1(3)]
    by (simp add: empty_accept_from_def px_empty_def)
qed

lemma transfer_step:
  assumes q: "px_rep N m q as (a # fs)" and d: "px_rep N m d bs gs" and dis: "(set as \<union> set (a # fs)) \<inter> (set bs \<union> set gs) = {}"
    and g: "pm_heap m a = Some g"
  defines "m' \<equiv> px_store a (g\<lparr>pg_next := pq_fhead d\<rparr>) m"
  shows "px_rep N m' (q\<lparr>pq_ftail := (if pq_ftail q = Some a then None else pq_ftail q), pq_fhead := pg_next g\<rparr>) as fs"
    and "px_rep N m' (d\<lparr>pq_fhead := Some a, pq_ftail := (if pq_ftail d = None then Some a else pq_ftail d)\<rparr>) bs (a # gs)"
    and "pxs_of (pm_heap m') = pxs_of (pm_heap m)" and "tick_of (pm_heap m') = tick_of (pm_heap m)"
proof -
  have frame: "px_frame {a} m m'" by (simp add: m'_def px_frame_store)
  have a: "a \<notin> set as" "a \<notin> set fs" "a \<notin> set bs" "a \<notin> set gs" using q dis by (auto simp: px_rep_def)
  have "(if pq_ftail q = Some a then None else pq_ftail q) = last_opt fs"
    using q a by (auto simp: px_rep_def last_opt_Cons last_opt_def split: if_splits)
  then have "px_rep N m (q\<lparr>pq_ftail := (if pq_ftail q = Some a then None else pq_ftail q), pq_fhead := pg_next g\<rparr>) as fs"
    using q g by (auto simp: px_rep_def)
  then show "px_rep N m' (q\<lparr>pq_ftail := (if pq_ftail q = Some a then None else pq_ftail q), pq_fhead := pg_next g\<rparr>) as fs"
    using px_rep_other(1) [OF _ frame] a by blast
  have "px_rep N m' d bs gs" using px_rep_other(1) [OF d frame] a by blast
  moreover have "pm_heap m' a = Some (g\<lparr>pg_next := pq_fhead d\<rparr>)" "a < pm_fresh m'" using q by (auto simp: m'_def px_rep_def)
  ultimately show "px_rep N m' (d\<lparr>pq_fhead := Some a, pq_ftail := (if pq_ftail d = None then Some a else pq_ftail d)\<rparr>) bs (a # gs)"
    using a by (auto simp: px_rep_def last_opt_Cons)
  show "pxs_of (pm_heap m') = pxs_of (pm_heap m)" "tick_of (pm_heap m') = tick_of (pm_heap m)" using g by (simp_all add: m'_def of_next del: of_upd)
qed

lemma transfer_loop_rep:
  assumes "px_rep N m q as fs" and "px_rep N m d bs gs" and "(set as \<union> set fs) \<inter> (set bs \<union> set gs) = {}"
  shows "\<exists>m' q' d'. transfer_loop n (pq_fhead q) (m, q, d) = Inr (m', q', d') \<and> px_rep N m' q' as (drop n fs) \<and>
    px_rep N m' d' bs (rev (take n fs) @ gs) \<and> pxs_of (pm_heap m') = pxs_of (pm_heap m) \<and> tick_of (pm_heap m') = tick_of (pm_heap m)"
  using assms
proof (induction n arbitrary: m q d fs gs)
  case 0
  then show ?case by simp
next
  case (Suc n)
  show ?case
  proof (cases fs)
    case Nil
    then show ?thesis using Suc.prems px_rep_null [OF Suc.prems(1)] by simp
  next
    case (Cons a fs')
    obtain g where g: "pq_fhead q = Some a" "pm_heap m a = Some g" using Suc.prems(1) Cons by (auto simp: px_rep_def)
    note s = transfer_step [OF Suc.prems(1) [unfolded Cons] Suc.prems(2) Suc.prems(3) [unfolded Cons] g(2)]
    have dis: "(set as \<union> set fs') \<inter> (set bs \<union> set (a # gs)) = {}" using Suc.prems(1,3) Cons by (auto simp: px_rep_def)
    have "transfer_loop (Suc n) (pq_fhead q) (m, q, d) = transfer_loop n (pg_next g) (px_store a (g\<lparr>pg_next := pq_fhead d\<rparr>) m,
       q\<lparr>pq_ftail := (if pq_ftail q = Some a then None else pq_ftail q), pq_fhead := pg_next g\<rparr>,
       d\<lparr>pq_fhead := Some a, pq_ftail := (if pq_ftail d = None then Some a else pq_ftail d)\<rparr>)"
      using g by (simp cong: if_cong)
    with Suc.IH [OF s(1,2) dis, unfolded s(3,4)] show ?thesis
      unfolding Cons by (simp del: transfer_loop.simps px_store_simps cong: if_cong)
  qed
qed

lemma transfer_all_rep:
  assumes q: "px_rep N m q as fs" and d: "px_rep N m d bs gs" and dis: "(set as \<union> set fs) \<inter> (set bs \<union> set gs) = {}"
  obtains m' q' d' where "transfer_freelist N None (m, q, d) = Inr (m', q', d')" "px_rep N m' q' as []" "px_rep N m' d' bs (fs @ gs)"
    "pxs_of (pm_heap m') = pxs_of (pm_heap m)" "tick_of (pm_heap m') = tick_of (pm_heap m)"
proof (cases fs rule: rev_cases)
  case Nil
  then show thesis using that [of m q d] q d px_rep_null [OF q] by (simp add: transfer_freelist_def)
next
  case (snoc fs0 l)
  obtain g where g: "pm_heap m l = Some g" "pq_ftail q = Some l" using q snoc by (auto simp: px_rep_def)
  define m' where "m' = px_store l (g\<lparr>pg_next := pq_fhead d\<rparr>) m"
  define q' where "q' = q\<lparr>pq_fhead := None, pq_ftail := None\<rparr>"
  define d' where "d' = d\<lparr>pq_ftail := (if pq_ftail d = None then pq_ftail q else pq_ftail d), pq_fhead := pq_fhead q\<rparr>"
  have l: "l \<notin> set as" "l \<notin> set fs0" "l \<notin> set bs" "l \<notin> set gs" using q dis snoc by (auto simp: px_rep_def)
  have frame: "px_frame {l} m m'" by (simp add: m'_def px_frame_store)
  have "px_rep N m q' as []" using q by (auto simp: px_rep_def q'_def)
  then have rq: "px_rep N m' q' as []" using px_rep_other(1) [OF _ frame] l by auto
  have "px_rep N m' d bs gs" using px_rep_other(1) [OF d frame] l by blast
  moreover have "px_path (pm_heap m') (pq_fhead q) (fs @ gs) None" "set fs \<subseteq> {..<pm_fresh m'}" "distinct fs"
    using q d snoc g l by (auto simp: m'_def px_rep_def)
  moreover have "set fs \<inter> (set bs \<union> set gs) = {}" using dis by auto
  ultimately have rd: "px_rep N m' d' bs (fs @ gs)" using q snoc by (auto simp: px_rep_def d'_def last_opt_def)
  have "transfer_freelist N None (m, q, d) = Inr (m', q', d')"
    using px_rep_null [OF q] snoc g sanity_ok [OF rq] by (auto simp: transfer_freelist_def m'_def q'_def d'_def)
  from that [OF this rq rd] show thesis using g by (simp add: m'_def of_next del: of_upd)
qed

section \<open>A queue and its scratch queue\<close>

text \<open>
  The deferred deletions of a core use two queues on the same groups: elements are enqueued in the second one, and those of
  old ticks move to the first.  The state is the heap, the scratch queue and the queue, in the order of the calls.
\<close>

type_synonym 'a px_pair = "'a px_mem \<times> px_queue \<times> px_queue"

definition px_pair_new :: "nat \<Rightarrow> 'a px_pair" where
  "px_pair_new n = (case alloc_freelist n (px_mem_new, px_queue_new) of (m, q) \<Rightarrow>
     case alloc_freelist n (m, px_queue_new) of (m, d) \<Rightarrow> (m, d, q))"

definition pair_enqueue :: "nat \<Rightarrow> 'a \<Rightarrow> nat \<Rightarrow> 'a px_pair \<Rightarrow> 'a px_pair result" where
  "pair_enqueue N t tick = (\<lambda>(m, d, q). rbind (enqueue N t tick (m, q)) (\<lambda>(m, q). Inr (m, d, q)))"

definition pair_accept :: "nat \<Rightarrow> nat \<Rightarrow> 'a px_pair \<Rightarrow> 'a px_pair result" where
  "pair_accept N tick s = rbind (empty_accept_from N tick s) (\<lambda>s. transfer_freelist N None s)"

definition pair_clear :: "'a px_pair \<Rightarrow> 'a px_pair result" where
  "pair_clear = (\<lambda>(m, d, q). rbind (px_clear (m, d)) (\<lambda>(m, d). Inr (m, d, q)))"

definition pair_ok :: "nat \<Rightarrow> 'a px_pair \<Rightarrow> bool" where
  "pair_ok N s \<longleftrightarrow> (case s of (m, d, q) \<Rightarrow> \<exists>as fs bs gs. px_rep N m q as fs \<and> px_rep N m d bs gs \<and>
     (set as \<union> set fs) \<inter> (set bs \<union> set gs) = {})"

definition px_list :: "nat \<Rightarrow> 'a px_mem \<Rightarrow> px_queue \<Rightarrow> ('a \<times> nat) list" where
  "px_list N m q = (case px_elems N m q of Inl e \<Rightarrow> [] | Inr xs \<Rightarrow> xs)"

definition pair_main :: "nat \<Rightarrow> 'a px_pair \<Rightarrow> ('a \<times> nat) list" where
  "pair_main N = (\<lambda>(m, d, q). px_list N m q)"

definition pair_scratch :: "nat \<Rightarrow> 'a px_pair \<Rightarrow> ('a \<times> nat) list" where
  "pair_scratch N = (\<lambda>(m, d, q). px_list N m d)"

lemma px_list_rep: "px_rep N m q as fs \<Longrightarrow> px_list N m q = elems_of (pm_heap m) as"
  by (simp add: px_list_def px_elems_ok)

lemma px_list_Nil: "px_rep N m q as fs \<Longrightarrow> elems_of (pm_heap m) as = [] \<longleftrightarrow> as = []"
  by (cases as) (auto simp: px_rep_def)

lemma elems_ticks: "px_rep N m q as fs \<Longrightarrow> \<forall>e \<in> set (elems_of (pm_heap m) as). snd e \<le> tick \<Longrightarrow> \<forall>a \<in> set as. tick_of (pm_heap m) a \<le> tick"
proof
  fix a assume r: "px_rep N m q as fs" "\<forall>e \<in> set (elems_of (pm_heap m) as). snd e \<le> tick" "a \<in> set as"
  then obtain x xs where "pxs_of (pm_heap m) a = x # xs" by (cases "pxs_of (pm_heap m) a") (auto simp: px_rep_def)
  then have "(x, tick_of (pm_heap m) a) \<in> set (elems_of (pm_heap m) as)" using r(3) by (force simp: elems_of_def)
  then show "tick_of (pm_heap m) a \<le> tick" using r(2) by fastforce
qed

lemma px_rep_new [simp]: "px_rep N m px_queue_new [] []"
  by (simp add: px_rep_def px_queue_new_def)

lemma px_pair_new_ok:
  shows pair_new_ok: "pair_ok N (px_pair_new n :: 'a px_pair)" and pair_new_main: "pair_main N (px_pair_new n :: 'a px_pair) = []"
    and pair_new_scratch: "pair_scratch N (px_pair_new n :: 'a px_pair) = []"
proof -
  obtain m1 :: "'a px_mem" and q fs where 1: "alloc_freelist n (px_mem_new, px_queue_new) = (m1, q)" "px_rep N m1 q [] fs"
    by (rule alloc_freelist_rep [OF px_rep_new])
  obtain m2 d gs where 2: "alloc_freelist n (m1, px_queue_new) = (m2, d)" "px_rep N m2 d [] gs" "px_frame {} m1 m2"
    "set gs \<subseteq> set [] \<union> {pm_fresh m1..<pm_fresh m2}"
    by (rule alloc_freelist_rep [OF px_rep_new])
  have q: "px_rep N m2 q [] fs" using px_rep_other(1) [OF 1(2) 2(3)] by simp
  have "set fs \<inter> set gs = {}" using 1(2) 2(4) by (fastforce simp: px_rep_def)
  then have "pair_ok N (m2, d, q)" using q 2(2) unfolding pair_ok_def by fastforce
  moreover have "px_pair_new n = (m2, d, q)" by (simp add: px_pair_new_def 1(1) 2(1))
  ultimately show "pair_ok N (px_pair_new n :: 'a px_pair)" "pair_main N (px_pair_new n :: 'a px_pair) = []"
    "pair_scratch N (px_pair_new n :: 'a px_pair) = []"
    using px_list_rep [OF q] px_list_rep [OF 2(2)] by (simp_all add: pair_main_def pair_scratch_def)
qed

lemma pair_enqueue_ok:
  assumes "pair_ok N s" and "0 < N" and "\<forall>e \<in> set (pair_main N s). snd e \<le> tick"
  shows "\<exists>s'. pair_enqueue N t tick s = Inr s' \<and> pair_ok N s' \<and> pair_main N s' = pair_main N s @ [(t, tick)] \<and> pair_scratch N s' = pair_scratch N s"
proof -
  obtain m d q where s: "s = (m, d, q)" by (cases s)
  obtain as fs bs gs where r: "px_rep N m q as fs" "px_rep N m d bs gs" "(set as \<union> set fs) \<inter> (set bs \<union> set gs) = {}"
    using assms(1) by (auto simp: pair_ok_def s)
  have "\<forall>a \<in> set as. tick_of (pm_heap m) a \<le> tick"
    using elems_ticks [OF r(1)] assms(3) px_list_rep [OF r(1)] by (simp add: pair_main_def s)
  then obtain m' q' as' fs' where e: "enqueue N t tick (m, q) = Inr (m', q')" "px_rep N m' q' as' fs'"
    "elems_of (pm_heap m') as' = elems_of (pm_heap m) as @ [(t, tick)]" "px_frame (set as \<union> set fs) m m'"
    "set as' \<union> set fs' \<subseteq> set as \<union> set fs \<union> {pm_fresh m..<pm_fresh m'}"
    by (rule enqueue_rep [OF r(1) assms(2)])
  have d: "px_rep N m' d bs gs" "elems_of (pm_heap m') bs = elems_of (pm_heap m) bs"
    using px_rep_other [OF r(2) e(4)] r(3) by blast+
  have "set bs \<union> set gs \<subseteq> {..<pm_fresh m}" using r(2) by (simp add: px_rep_def)
  then have "(set as' \<union> set fs') \<inter> (set bs \<union> set gs) = {}" using e(5) r(3) by fastforce
  then have "pair_ok N (m', d, q')" using e(2) d(1) by (auto simp: pair_ok_def)
  then show ?thesis using e(1,3) px_list_rep [OF e(2)] px_list_rep [OF r(1)] px_list_rep [OF d(1)] px_list_rep [OF r(2)] d(2)
    by (simp add: pair_enqueue_def s pair_main_def pair_scratch_def)
qed

lemma pair_accept_ok:
  assumes "pair_ok N s" and "pair_scratch N s = []"
  shows "\<exists>s'. pair_accept N tick s = Inr s' \<and> pair_ok N s' \<and> pair_scratch N s' = takeWhile (\<lambda>e. snd e \<le> tick) (pair_main N s) \<and>
    pair_main N s' = dropWhile (\<lambda>e. snd e \<le> tick) (pair_main N s)"
proof -
  obtain m d q where s: "s = (m, d, q)" by (cases s)
  obtain as fs bs gs where r: "px_rep N m q as fs" "px_rep N m d bs gs" "(set as \<union> set fs) \<inter> (set bs \<union> set gs) = {}"
    using assms(1) by (auto simp: pair_ok_def s)
  have bs: "bs = []" using assms(2) px_list_rep [OF r(2)] px_list_Nil [OF r(2)] by (simp add: pair_scratch_def s)
  have dis: "set gs \<inter> (set as \<union> set fs) = {}" using r(3) by auto
  obtain m1 d1 q1 as1 as2 where a: "empty_accept_from N tick (m, d, q) = Inr (m1, d1, q1)" "px_rep N m1 d1 as1 gs" "px_rep N m1 q1 as2 fs"
    "as = as1 @ as2" "elems_of (pm_heap m1) as1 = takeWhile (\<lambda>e. snd e \<le> tick) (elems_of (pm_heap m) as)"
    "elems_of (pm_heap m1) as2 = dropWhile (\<lambda>e. snd e \<le> tick) (elems_of (pm_heap m) as)"
    by (rule empty_accept_rep [OF r(2) [unfolded bs] r(1) dis])
  have dis1: "(set as1 \<union> set gs) \<inter> (set as2 \<union> set fs) = {}" using r(1) dis a(4) by (auto simp: px_rep_def)
  obtain m2 d2 q2 where b: "transfer_freelist N None (m1, d1, q1) = Inr (m2, d2, q2)" "px_rep N m2 d2 as1 []" "px_rep N m2 q2 as2 (gs @ fs)"
    "pxs_of (pm_heap m2) = pxs_of (pm_heap m1)" "tick_of (pm_heap m2) = tick_of (pm_heap m1)"
    by (rule transfer_all_rep [OF a(2,3) dis1])
  have "(set as2 \<union> set (gs @ fs)) \<inter> (set as1 \<union> set []) = {}" using dis1 a(2) r(1) a(4) by (auto simp: px_rep_def)
  then have "pair_ok N (m2, d2, q2)" using b(2,3) unfolding pair_ok_def by blast
  moreover have "elems_of (pm_heap m2) xs = elems_of (pm_heap m1) xs" for xs using b(4,5) by (simp add: elems_of_def)
  ultimately show ?thesis using a(1,5,6) b(1) px_list_rep [OF b(2)] px_list_rep [OF b(3)] px_list_rep [OF r(1)]
    by (simp add: pair_accept_def s pair_main_def pair_scratch_def)
qed

lemma pair_clear_ok:
  assumes "pair_ok N s"
  shows "\<exists>s'. pair_clear s = Inr s' \<and> pair_ok N s' \<and> pair_scratch N s' = [] \<and> pair_main N s' = pair_main N s"
proof -
  obtain m d q where s: "s = (m, d, q)" by (cases s)
  obtain as fs bs gs where r: "px_rep N m q as fs" "px_rep N m d bs gs" "(set as \<union> set fs) \<inter> (set bs \<union> set gs) = {}"
    using assms(1) by (auto simp: pair_ok_def s)
  obtain m' d' where c: "px_clear (m, d) = Inr (m', d')" "px_rep N m' d' [] (bs @ gs)" "px_frame (set bs) m m'"
    by (rule clear_rep [OF r(2)])
  have q: "px_rep N m' q as fs" "elems_of (pm_heap m') as = elems_of (pm_heap m) as" using px_rep_other [OF r(1) c(3)] r(3) by blast+
  have "pair_ok N (m', d', q)" using q(1) c(2) r(3) unfolding pair_ok_def by fastforce
  then show ?thesis using c(1) q(2) px_list_rep [OF q(1)] px_list_rep [OF r(1)] px_list_rep [OF c(2)]
    by (simp add: pair_clear_def s pair_main_def pair_scratch_def)
qed

text \<open>
  An iterator into the scratch queue: it stays valid when elements are enqueued in the other queue, and moves on to the
  next element or to the end.
\<close>

definition pair_iter_ok :: "nat \<Rightarrow> 'a px_pair \<Rightarrow> px_iter \<Rightarrow> bool" where
  "pair_iter_ok N s it \<longleftrightarrow> (case s of (m, d, q) \<Rightarrow> \<exists>as fs bs gs. px_rep N m q as fs \<and> px_rep N m d bs gs \<and>
     (set as \<union> set fs) \<inter> (set bs \<union> set gs) = {} \<and>
     (it = px_end \<or> (\<exists>a i. it = (Some a, i) \<and> a \<in> set bs \<and> i < length (pxs_of (pm_heap m) a))))"

lemma px_path_next:
  assumes "px_path h p bs None" and "a \<in> set bs" and "h a = Some g"
  shows "pg_next g = None \<or> (\<exists>b \<in> set bs. pg_next g = Some b)"
  using assms
proof (induction bs arbitrary: p)
  case (Cons b bs)
  then show ?case by (cases bs) auto
qed simp

lemma pair_iter_begin: "pair_ok N (m, d, q) \<Longrightarrow> pair_iter_ok N (m, d, q) (px_begin d)"
proof -
  assume "pair_ok N (m, d, q)"
  then obtain as fs bs gs where r: "px_rep N m q as fs" "px_rep N m d bs gs" "(set as \<union> set fs) \<inter> (set bs \<union> set gs) = {}"
    by (auto simp: pair_ok_def)
  have "px_begin d = px_end \<or> (\<exists>a i. px_begin d = (Some a, i) \<and> a \<in> set bs \<and> i < length (pxs_of (pm_heap m) a))"
    using r(2) by (cases bs) (auto simp: px_begin_def px_end_def px_rep_def)
  with r show ?thesis unfolding pair_iter_ok_def by blast
qed

lemma pair_iter_next:
  assumes "pair_iter_ok N (m, d, q) it" and "it \<noteq> px_end"
  shows "\<exists>e it'. iter_get m it = Inr e \<and> iter_next m it = Inr it' \<and> pair_iter_ok N (m, d, q) it'"
proof -
  obtain as fs bs gs a i where r: "px_rep N m q as fs" "px_rep N m d bs gs" "(set as \<union> set fs) \<inter> (set bs \<union> set gs) = {}"
    and it: "it = (Some a, i)" "a \<in> set bs" "i < length (pxs_of (pm_heap m) a)" using assms by (auto simp: pair_iter_ok_def)
  have path: "px_path (pm_heap m) (pq_head d) bs None" and ne: "\<And>b. b \<in> set bs \<Longrightarrow> pxs_of (pm_heap m) b \<noteq> []"
    using r(2) by (simp_all add: px_rep_def)
  obtain g where g: "pm_heap m a = Some g" using px_path_in_heap [OF path it(2)] by blast
  let ?it = "if i + 1 = length (pg_pxs g) then (pg_next g, 0) else (Some a, i + 1)"
  have "?it = px_end \<or> (\<exists>a i. ?it = (Some a, i) \<and> a \<in> set bs \<and> i < length (pxs_of (pm_heap m) a))"
    using px_path_next [OF path it(2) g] it ne g by (auto simp: px_end_def pxs_of_def)
  with r have "pair_iter_ok N (m, d, q) ?it" unfolding pair_iter_ok_def by blast
  then show ?thesis using g it(1,3) by (auto simp: iter_get_def iter_next_def pxs_of_def)
qed

lemma pair_enqueue_iter:
  assumes "pair_iter_ok N s it" and "0 < N" and "\<forall>e \<in> set (pair_main N s). snd e \<le> tick" and "pair_enqueue N t tick s = Inr s'"
  shows "pair_iter_ok N s' it"
proof -
  obtain m d q where s: "s = (m, d, q)" by (cases s)
  obtain as fs bs gs where r: "px_rep N m q as fs" "px_rep N m d bs gs" "(set as \<union> set fs) \<inter> (set bs \<union> set gs) = {}"
    and it: "it = px_end \<or> (\<exists>a i. it = (Some a, i) \<and> a \<in> set bs \<and> i < length (pxs_of (pm_heap m) a))"
    using assms(1) by (auto simp: pair_iter_ok_def s)
  have "\<forall>a \<in> set as. tick_of (pm_heap m) a \<le> tick"
    using elems_ticks [OF r(1)] assms(3) px_list_rep [OF r(1)] by (simp add: pair_main_def s)
  then obtain m' q' as' fs' where e: "enqueue N t tick (m, q) = Inr (m', q')" "px_rep N m' q' as' fs'"
    "px_frame (set as \<union> set fs) m m'" "set as' \<union> set fs' \<subseteq> set as \<union> set fs \<union> {pm_fresh m..<pm_fresh m'}"
    by (rule enqueue_rep [OF r(1) assms(2)])
  have d: "px_rep N m' d bs gs" using px_rep_other [OF r(2) e(3)] r(3) by blast
  have sub: "set bs \<union> set gs \<subseteq> {..<pm_fresh m}" using r(2) by (simp add: px_rep_def)
  then have dis: "(set as' \<union> set fs') \<inter> (set bs \<union> set gs) = {}" using e(4) r(3) by fastforce
  have "pxs_of (pm_heap m') a = pxs_of (pm_heap m) a" if "a \<in> set bs" for a
  proof -
    have "a < pm_fresh m" "a \<notin> set as \<union> set fs" using that r(3) sub by auto
    then show ?thesis using e(3) by (simp add: px_frame_def pxs_of_def)
  qed
  then have "it = px_end \<or> (\<exists>a i. it = (Some a, i) \<and> a \<in> set bs \<and> i < length (pxs_of (pm_heap m') a))" using it by auto
  then have "pair_iter_ok N (m', d, q') it" unfolding pair_iter_ok_def using e(2) d dis by blast
  moreover have "s' = (m', d, q')" using assms(4) e(1) by (simp add: pair_enqueue_def s)
  ultimately show ?thesis by simp
qed

lemma pair_iter_pair: "pair_iter_ok N s it \<Longrightarrow> pair_ok N s"
  unfolding pair_iter_ok_def pair_ok_def by blast

lemma pair_scratch_empty: "pair_ok N (m, d, q) \<Longrightarrow> px_empty d \<longleftrightarrow> pair_scratch N (m, d, q) = []"
  by (auto simp: pair_ok_def pair_scratch_def px_list_rep px_empty_def px_rep_null px_list_Nil)

section \<open>The interface of the deferred deletions\<close>

text \<open>
  What the clients of the two queues rely on: an element is put behind the others, the elements up to a tick move to
  the scratch list, and the scratch list is emptied.  Any sequence of these calls keeps the ticks in order, and an
  element leaves the queue only through a call with its tick or a later one.
\<close>

locale tick_queue =
  fixes valid :: "'s \<Rightarrow> bool" and main :: "'s \<Rightarrow> ('e \<times> nat) list" and scratch :: "'s \<Rightarrow> ('e \<times> nat) list"
    and put :: "'e \<Rightarrow> nat \<Rightarrow> 's \<Rightarrow> 's result" and accept :: "nat \<Rightarrow> 's \<Rightarrow> 's result" and clear :: "'s \<Rightarrow> 's result"
  assumes put: "valid s \<Longrightarrow> \<forall>e \<in> set (main s). snd e \<le> tick \<Longrightarrow>
      \<exists>s'. put x tick s = Inr s' \<and> valid s' \<and> main s' = main s @ [(x, tick)] \<and> scratch s' = scratch s"
    and accept: "valid s \<Longrightarrow> scratch s = [] \<Longrightarrow> \<exists>s'. accept tick s = Inr s' \<and> valid s' \<and>
      scratch s' = takeWhile (\<lambda>e. snd e \<le> tick) (main s) \<and> main s' = dropWhile (\<lambda>e. snd e \<le> tick) (main s)"
    and clear: "valid s \<Longrightarrow> \<exists>s'. clear s = Inr s' \<and> valid s' \<and> scratch s' = [] \<and> main s' = main s"
begin

lemma put_facts:
  assumes "valid s" and "\<forall>e \<in> set (main s). snd e \<le> tick" and "put x tick s = Inr s'"
  shows "valid s'" "main s' = main s @ [(x, tick)]" "scratch s' = scratch s"
  using put [OF assms(1,2), of x] assms(3) by auto

lemma accept_facts:
  assumes "valid s" and "scratch s = []" and "accept tick s = Inr s'"
  shows "valid s'" "scratch s' = takeWhile (\<lambda>e. snd e \<le> tick) (main s)" "main s' = dropWhile (\<lambda>e. snd e \<le> tick) (main s)"
  using accept [OF assms(1,2), of tick] assms(3) by auto

lemma clear_facts:
  assumes "valid s" and "clear s = Inr s'"
  shows "valid s'" "scratch s' = []" "main s' = main s"
  using clear [OF assms(1)] assms(2) by auto

lemma accept_keeps_later:
  assumes "valid s" and "scratch s = []" and "accept tick s = Inr s'" and "(x, t) \<in> set (main s)" and "tick < t"
  shows "(x, t) \<in> set (main s')"
proof -
  have "main s = scratch s' @ main s'" using accept_facts [OF assms(1-3)] by simp
  moreover have "(x, t) \<notin> set (scratch s')" using accept_facts [OF assms(1-3)] assms(5) by (auto dest: set_takeWhileD)
  ultimately show ?thesis using assms(4) by (metis Un_iff set_append)
qed

lemma accept_takes_earlier:
  assumes "valid s" and "scratch s = []" and "accept tick s = Inr s'" and "(x, t) \<in> set (scratch s')"
  shows "t \<le> tick"
  using accept_facts(2) [OF assms(1-3)] assms(4) by (auto dest: set_takeWhileD)

lemma accept_sorted:
  assumes "valid s" and "scratch s = []" and "accept tick s = Inr s'" and "sorted (map snd (main s))"
  shows "sorted (map snd (main s'))" "\<forall>e \<in> set (main s'). tick < snd e"
proof -
  have eq: "main s = scratch s' @ main s'" using accept_facts [OF assms(1-3)] by simp
  show srt: "sorted (map snd (main s'))" using assms(4) unfolding eq by (simp add: sorted_append)
  have "main s' = [] \<or> tick < snd (hd (main s'))"
    using accept_facts(3) [OF assms(1-3)] hd_dropWhile [of "\<lambda>e. snd e \<le> tick" "main s"] by (metis not_le_imp_less)
  then show "\<forall>e \<in> set (main s'). tick < snd e" using srt by (cases "main s'") auto
qed

end

interpretation pxq: tick_queue "pair_ok (Suc n)" "pair_main (Suc n)" "pair_scratch (Suc n)" "pair_enqueue (Suc n)" "pair_accept (Suc n)" pair_clear for n
proof unfold_locales
  show "\<exists>s'. pair_enqueue (Suc n) x tick s = Inr s' \<and> pair_ok (Suc n) s' \<and> pair_main (Suc n) s' = pair_main (Suc n) s @ [(x, tick)] \<and>
      pair_scratch (Suc n) s' = pair_scratch (Suc n) s" if "pair_ok (Suc n) s" "\<forall>e \<in> set (pair_main (Suc n) s). snd e \<le> tick"
    for s :: "'a px_pair" and tick x
    using pair_enqueue_ok [OF that(1) zero_less_Suc that(2)] .
qed (rule pair_accept_ok pair_clear_ok, assumption+)+

section \<open>The queue is a queue\<close>

text \<open>The abstract machine: two lists of elements with their ticks.\<close>

datatype 'a px_op = Px_Enqueue 'a nat | Px_Accept nat | Px_Clear

fun px_exec :: "nat \<Rightarrow> 'a px_op \<Rightarrow> 'a px_pair \<Rightarrow> 'a px_pair result" where
  "px_exec N (Px_Enqueue x t) s = pair_enqueue N x t s"
| "px_exec N (Px_Accept t) s = pair_accept N t s"
| "px_exec N Px_Clear s = pair_clear s"

fun spec_exec :: "'a px_op \<Rightarrow> ('a \<times> nat) list \<times> ('a \<times> nat) list \<Rightarrow> ('a \<times> nat) list \<times> ('a \<times> nat) list" where
  "spec_exec (Px_Enqueue x t) (d, q) = (d, q @ [(x, t)])"
| "spec_exec (Px_Accept t) (d, q) = (takeWhile (\<lambda>e. snd e \<le> t) q, dropWhile (\<lambda>e. snd e \<le> t) q)"
| "spec_exec Px_Clear (d, q) = ([], q)"

text \<open>The conditions the code states: ticks only go up, and elements are accepted into an empty queue.\<close>

fun px_legal :: "'a px_op list \<Rightarrow> ('a \<times> nat) list \<times> ('a \<times> nat) list \<Rightarrow> bool" where
  "px_legal [] s \<longleftrightarrow> True"
| "px_legal (a # as) (d, q) \<longleftrightarrow>
     (case a of Px_Enqueue x t \<Rightarrow> \<forall>e \<in> set q. snd e \<le> t | Px_Accept t \<Rightarrow> d = [] | Px_Clear \<Rightarrow> True) \<and> px_legal as (spec_exec a (d, q))"

lemma px_exec_refines:
  assumes "pair_ok (Suc n) s" and "px_legal ops (pair_scratch (Suc n) s, pair_main (Suc n) s)"
  shows "\<exists>s'. for_each (px_exec (Suc n)) ops s = Inr s' \<and> pair_ok (Suc n) s' \<and>
    (pair_scratch (Suc n) s', pair_main (Suc n) s') = fold spec_exec ops (pair_scratch (Suc n) s, pair_main (Suc n) s)"
  using assms
proof (induction ops arbitrary: s)
  case Nil
  then show ?case by simp
next
  case (Cons a ops)
  have "\<exists>s1. px_exec (Suc n) a s = Inr s1 \<and> pair_ok (Suc n) s1 \<and>
    (pair_scratch (Suc n) s1, pair_main (Suc n) s1) = spec_exec a (pair_scratch (Suc n) s, pair_main (Suc n) s)"
  proof (cases a)
    case (Px_Enqueue x t)
    then show ?thesis using pxq.put [OF Cons.prems(1), of t x] Cons.prems(2) by auto
  next
    case (Px_Accept t)
    then show ?thesis using pxq.accept [OF Cons.prems(1), of t] Cons.prems(2) by auto
  next
    case Px_Clear
    then show ?thesis using pxq.clear [OF Cons.prems(1)] by auto
  qed
  then obtain s1 where s1: "px_exec (Suc n) a s = Inr s1" "pair_ok (Suc n) s1"
    "(pair_scratch (Suc n) s1, pair_main (Suc n) s1) = spec_exec a (pair_scratch (Suc n) s, pair_main (Suc n) s)" by blast
  have "px_legal ops (pair_scratch (Suc n) s1, pair_main (Suc n) s1)" using Cons.prems(2) s1(3) by simp
  from Cons.IH [OF s1(2) this] show ?case using s1(1,3) by simp
qed

lemma pair_lists: "pair_ok N (m, d, q) \<Longrightarrow> px_elems N m d = Inr (pair_scratch N (m, d, q)) \<and> px_elems N m q = Inr (pair_main N (m, d, q))"
  by (auto simp: pair_ok_def pair_scratch_def pair_main_def px_list_rep px_elems_ok)

text \<open>
  C36.  The queue with its groups, free groups and sanity checks implements a queue of elements with ticks.  After any
  sequence of enqueues with ticks that do not go down, moves of the elements up to a tick into the empty
  scratch queue and clearings of it, no \<^verbatim>\<open>INVARIANT\<close> has failed, and iterating over the two queues ends and yields
  exactly the elements of the two lists, in order and with their ticks.
\<close>

theorem px_queue_refines:
  assumes "0 < N" and "px_legal ops ([], [])"
  shows "\<exists>m d q. for_each (px_exec N) ops (px_pair_new k) = Inr (m, d, q) \<and>
    px_elems N m d = Inr (fst (fold spec_exec ops ([], []))) \<and> px_elems N m q = Inr (snd (fold spec_exec ops ([], [])))"
proof -
  obtain n where N: "N = Suc n" using assms(1) by (cases N) auto
  have "px_legal ops (pair_scratch (Suc n) (px_pair_new k), pair_main (Suc n) (px_pair_new k))"
    using assms(2) by (simp add: pair_new_main pair_new_scratch)
  from px_exec_refines [OF pair_new_ok this] obtain m d q where s: "for_each (px_exec (Suc n)) ops (px_pair_new k) = Inr (m, d, q)"
    "pair_ok (Suc n) (m, d, q)" "(pair_scratch (Suc n) (m, d, q), pair_main (Suc n) (m, d, q)) = fold spec_exec ops ([], [])"
    by (auto simp: pair_new_main pair_new_scratch)
  then show ?thesis using pair_lists [OF s(2)] by (metis N fst_conv snd_conv)
qed

theorem px_queue_refines_witness:
  "\<exists>m d q. for_each (px_exec 2) [Px_Enqueue 11 1, Px_Enqueue 12 1, Px_Enqueue 13 1, Px_Enqueue 21 2, Px_Accept 1] (px_pair_new 1) = Inr (m, d, q) \<and>
    px_elems 2 m d = Inr [(11 :: nat, 1), (12, 1), (13, 1)] \<and> px_elems 2 m q = Inr [(21, 2)]"
  using px_queue_refines [of 2 "[Px_Enqueue (11 :: nat) 1, Px_Enqueue 12 1, Px_Enqueue 13 1, Px_Enqueue 21 2, Px_Accept 1]" 1] by simp

end
