(* ===== verification/Silo_Rcu.thy ===== *)
theory Silo_Rcu
  imports Silo_Ticker Silo_Pxqueue
begin

text \<open>
  Deferred deletion (\<^verbatim>\<open>rcu.h\<close>, \<^verbatim>\<open>rcu.cc\<close>) on top of the ticker and of the queues of deletions.  Every core has a thread
  with its \<^verbatim>\<open>sync\<close>.  A thread opens and closes regions, hands over memory to be deleted later, and deletes what is old
  enough when it closes its outermost region.  The threads and the ticker interleave; the steps of a thread between two
  accesses to the ticker are one step.  What a deleter does to the memory is an entry of a log here.  As in the ticker,
  the code is the one with \<^verbatim>\<open>CHECK_INVARIANTS\<close>.
\<close>

section \<open>The code\<close>

text \<open>A deletion: a negative action is the size of a block to be given back, a positive one the address of a function.\<close>

datatype rcu_entry = Rcu_Entry (de_ptr: u64) (de_action: int)

definition entry_of_size :: "u64 \<Rightarrow> u64 \<Rightarrow> rcu_entry result" where
  "entry_of_size ptr sz = (let action = sint (- sz) in rbind (rassert (action < 0)) (\<lambda>_. Inr (Rcu_Entry ptr action)))"

definition entry_of_fn :: "u64 \<Rightarrow> u64 \<Rightarrow> rcu_entry result" where
  "entry_of_fn ptr fn = (let action = sint fn in rbind (rassert (0 < action)) (\<lambda>_. Inr (Rcu_Entry ptr action)))"

datatype effect = Dealloc u64 u64 | Call_Fn u64 u64

definition run_entry :: "rcu_entry \<Rightarrow> effect" where
  "run_entry e = (if de_action e < 0 then Dealloc (de_ptr e) (word_of_int (- de_action e)) else Call_Fn (word_of_int (de_action e)) (de_ptr e))"

text \<open>The order of the entries, \<^verbatim>\<open>operator<\<close>.\<close>

instantiation rcu_entry :: linorder
begin

definition less_rcu_entry :: "rcu_entry \<Rightarrow> rcu_entry \<Rightarrow> bool" where
  "less_rcu_entry x y \<longleftrightarrow> de_ptr x < de_ptr y \<or> (de_ptr x = de_ptr y \<and> de_action x < de_action y)"

definition less_eq_rcu_entry :: "rcu_entry \<Rightarrow> rcu_entry \<Rightarrow> bool" where
  "less_eq_rcu_entry x y \<longleftrightarrow> x < y \<or> x = (y :: rcu_entry)"

instance
  by standard (auto simp: less_rcu_entry_def less_eq_rcu_entry_def intro: rcu_entry.expand)

end

definition px_group_size :: nat where "px_group_size = 4096"

definition epoch_time_multiplier :: nat where "epoch_time_multiplier = 10"

definition nqueue_groups :: nat where "nqueue_groups = 32"

definition to_rcu_ticks :: "nat \<Rightarrow> nat" where "to_rcu_ticks ticks = ticks div epoch_time_multiplier"

text \<open>
  Where a thread is: in its own code, in the constructor of a region (of its own or of the cleaner), at the start of
  \<^verbatim>\<open>do_cleanup\<close>, or in the loop over the deletions, at an iterator.
\<close>

datatype rcu_pc = R_User | R_Enter bool | R_Clean | R_Run px_iter

record sync =
  sy_pair :: "rcu_entry px_pair"
  sy_depth :: nat
  sy_last_reaped :: nat
  sy_pc :: rcu_pc
  sy_log :: "effect list"

record rcu =
  rc_ticker :: ticker
  rc_syncs :: "sync list"

definition sync_new :: sync where
  "sync_new = \<lparr>sy_pair = px_pair_new nqueue_groups, sy_depth = 0, sy_last_reaped = 0, sy_pc = R_User, sy_log = []\<rparr>"

definition rcu_new :: "nat \<Rightarrow> rcu" where
  "rcu_new n = \<lparr>rc_ticker = ticker_new n, rc_syncs = replicate n sync_new\<rparr>"

definition set_core :: "nat \<Rightarrow> ticker \<Rightarrow> sync \<Rightarrow> rcu \<Rightarrow> rcu" where
  "set_core c t sy s = s\<lparr>rc_ticker := t, rc_syncs := (rc_syncs s)[c := sy]\<rparr>"

definition cleaning_rcu_tick_exclusive :: "rcu \<Rightarrow> nat" where
  "cleaning_rcu_tick_exclusive s = to_rcu_ticks (global_last_tick_exclusive (rc_ticker s))"

definition in_rcu_region :: "nat \<Rightarrow> rcu \<Rightarrow> (bool \<times> nat) result" where
  "in_rcu_region c s = rbind (vec_at (rc_syncs s) c) (\<lambda>sy. rbind (is_locally_guarded c (rc_ticker s)) (\<lambda>g.
     rbind (rassert (sy_depth sy = 0 \<or> g \<noteq> None)) (\<lambda>_.
     Inr (sy_depth sy \<noteq> 0, case g of None \<Rightarrow> 0 | Some t \<Rightarrow> to_rcu_ticks t))))"

text \<open>\<^verbatim>\<open>scoped_rcu_base\<close>: the depth goes up when the guard is complete, which a nested guard is at once.\<close>

definition region_opened :: "nat \<Rightarrow> ticker \<Rightarrow> sync \<Rightarrow> sync" where
  "region_opened c t sy = (if wk_pc (tk_workers t ! c) \<noteq> G_None then sy else
     case sy_pc sy of
       R_Enter clean \<Rightarrow> sy\<lparr>sy_depth := (sy_depth sy + 1) mod 2 ^ 32, sy_pc := (if clean then R_Run (px_begin (fst (snd (sy_pair sy)))) else R_User)\<rparr>
     | _ \<Rightarrow> sy)"

definition region_begin :: "nat \<Rightarrow> bool \<Rightarrow> sync \<Rightarrow> rcu \<Rightarrow> rcu result" where
  "region_begin c clean sy s = rbind (guard_begin c (rc_ticker s)) (\<lambda>t.
     Inr (set_core c t (region_opened c t (sy\<lparr>sy_pc := R_Enter clean\<rparr>)) s))"

definition region_go :: "nat \<Rightarrow> nat \<Rightarrow> sync \<Rightarrow> rcu \<Rightarrow> rcu result" where
  "region_go c now sy s = rbind (guard_go c now (rc_ticker s)) (\<lambda>t. Inr (set_core c t (region_opened c t sy) s))"

definition region_end :: "nat \<Rightarrow> sync \<Rightarrow> rcu \<Rightarrow> rcu result" where
  "region_end c sy s = rbind (rassert (sy_depth sy \<noteq> 0)) (\<lambda>_. let new_depth = sy_depth sy - 1
     in rbind (guard_end c (rc_ticker s)) (\<lambda>t.
        Inr (set_core c t (sy\<lparr>sy_depth := new_depth, sy_pc := (if new_depth \<noteq> 0 then R_User else R_Clean)\<rparr>) s)))"

text \<open>\<^verbatim>\<open>free_with_fn\<close> and \<^verbatim>\<open>dealloc_rcu\<close>: the deletion waits for the system to move beyond the next tick.\<close>

definition rcu_defer :: "nat \<Rightarrow> rcu_entry \<Rightarrow> sync \<Rightarrow> rcu \<Rightarrow> rcu result" where
  "rcu_defer c e sy s = rbind (is_locally_guarded c (rc_ticker s)) (\<lambda>g. case g of
       None \<Rightarrow> Inl Assert_Fail
     | Some cur_tick \<Rightarrow> rbind (rassert (sy_depth sy \<noteq> 0)) (\<lambda>_.
         rbind (pair_enqueue px_group_size e (to_rcu_ticks (u64_inc cur_tick)) (sy_pair sy)) (\<lambda>p.
         Inr (set_core c (rc_ticker s) (sy\<lparr>sy_pair := p\<rparr>) s))))"

definition free_with_fn :: "nat \<Rightarrow> u64 \<Rightarrow> u64 \<Rightarrow> sync \<Rightarrow> rcu \<Rightarrow> rcu result" where
  "free_with_fn c p fn sy s = rbind (entry_of_fn p fn) (\<lambda>e. rcu_defer c e sy s)"

definition dealloc_rcu :: "nat \<Rightarrow> u64 \<Rightarrow> u64 \<Rightarrow> sync \<Rightarrow> rcu \<Rightarrow> rcu result" where
  "dealloc_rcu c p sz sy s = rbind (entry_of_size p sz) (\<lambda>e. rcu_defer c e sy s)"

text \<open>\<^verbatim>\<open>do_cleanup\<close>: up to the region it opens, one round of its loop, and what follows the loop.\<close>

definition cleanup_begin :: "nat \<Rightarrow> sync \<Rightarrow> rcu \<Rightarrow> rcu result" where
  "cleanup_begin c sy s = (let clean_tick_exclusive = cleaning_rcu_tick_exclusive s; stop = (\<lambda>sy. Inr (set_core c (rc_ticker s) (sy\<lparr>sy_pc := R_User\<rparr>) s))
     in if clean_tick_exclusive = 0 then stop sy else
        let clean_tick = clean_tick_exclusive - 1
        in rbind (rassert (sy_last_reaped sy \<le> clean_tick)) (\<lambda>_. rbind (rassert (px_empty (fst (snd (sy_pair sy))))) (\<lambda>_.
           if sy_last_reaped sy = clean_tick then stop sy else
           rbind (pair_accept px_group_size clean_tick (sy_pair sy)) (\<lambda>p.
           let sy = sy\<lparr>sy_last_reaped := clean_tick mod 2 ^ 32, sy_pair := p\<rparr>
           in if px_empty (fst (snd p)) then stop sy else region_begin c True sy s))))"

definition cleanup_run :: "nat \<Rightarrow> px_iter \<Rightarrow> sync \<Rightarrow> rcu \<Rightarrow> rcu result" where
  "cleanup_run c it sy s = (case sy_pair sy of (m, d, q) \<Rightarrow>
     if it \<noteq> px_end then
       rbind (iter_get m it) (\<lambda>e. rbind (iter_next m it) (\<lambda>it.
       Inr (set_core c (rc_ticker s) (sy\<lparr>sy_log := sy_log sy @ [run_entry e], sy_pc := R_Run it\<rparr>) s)))
     else rbind (pair_clear (sy_pair sy)) (\<lambda>p. region_end c (sy\<lparr>sy_pair := p\<rparr>) s))"

text \<open>
  The steps: of the ticker, and of the thread of a core.  A deleter may itself hand over memory (\<open>Free\<close> while the loop
  runs), and \<open>Cleanup\<close> is a call of \<^verbatim>\<open>do_cleanup\<close> from the code of the thread.
\<close>

datatype rcu_action = Rcu_Tick | Enter nat | Continue nat nat | Leave nat | Free nat u64 u64 | Free_Size nat u64 u64 | Cleanup nat

definition in_code :: "sync \<Rightarrow> bool" where
  "in_code sy \<longleftrightarrow> (case sy_pc sy of R_User \<Rightarrow> True | R_Run it \<Rightarrow> it \<noteq> px_end | _ \<Rightarrow> False)"

definition on_core :: "nat \<Rightarrow> rcu \<Rightarrow> (sync \<Rightarrow> bool) \<Rightarrow> (sync \<Rightarrow> rcu result) \<Rightarrow> rcu result" where
  "on_core c s enabled f = (if c < length (rc_syncs s) \<and> enabled (rc_syncs s ! c) then f (rc_syncs s ! c) else Inl Spins)"

fun rcu_exec :: "rcu_action \<Rightarrow> rcu \<Rightarrow> rcu result" where
  "rcu_exec Rcu_Tick s = rbind (ticker_tick (rc_ticker s)) (\<lambda>t. Inr (s\<lparr>rc_ticker := t\<rparr>))"
| "rcu_exec (Enter c) s = on_core c s (\<lambda>sy. sy_pc sy = R_User) (\<lambda>sy. region_begin c False sy s)"
| "rcu_exec (Continue c now) s = on_core c s (\<lambda>sy. sy_pc sy \<noteq> R_User) (\<lambda>sy. case sy_pc sy of
     R_User \<Rightarrow> Inl Spins | R_Enter clean \<Rightarrow> region_go c now sy s | R_Clean \<Rightarrow> cleanup_begin c sy s | R_Run it \<Rightarrow> cleanup_run c it sy s)"
| "rcu_exec (Leave c) s = on_core c s (\<lambda>sy. sy_pc sy = R_User \<and> sy_depth sy \<noteq> 0) (\<lambda>sy. region_end c sy s)"
| "rcu_exec (Free c p fn) s = on_core c s in_code (\<lambda>sy. free_with_fn c p fn sy s)"
| "rcu_exec (Free_Size c p sz) s = on_core c s in_code (\<lambda>sy. dealloc_rcu c p sz sy s)"
| "rcu_exec (Cleanup c) s = on_core c s (\<lambda>sy. sy_pc sy = R_User) (\<lambda>sy. Inr (set_core c (rc_ticker s) (sy\<lparr>sy_pc := R_Clean\<rparr>) s))"

text \<open>
  The conditions of the code on its callers: memory is handed over inside a region, with a size or a function.  The
  counters do not wrap in a run of interest.
\<close>

fun rcu_legal :: "rcu_action \<Rightarrow> rcu \<Rightarrow> bool" where
  "rcu_legal (Free c p fn) s \<longleftrightarrow> 0 < sint fn \<and> (c < length (rc_syncs s) \<longrightarrow> sy_depth (rc_syncs s ! c) \<noteq> 0)"
| "rcu_legal (Free_Size c p sz) s \<longleftrightarrow> sint (- sz) < 0 \<and> (c < length (rc_syncs s) \<longrightarrow> sy_depth (rc_syncs s ! c) \<noteq> 0)"
| "rcu_legal _ s \<longleftrightarrow> True"

definition rcu_small :: "rcu \<Rightarrow> bool" where
  "rcu_small s \<longleftrightarrow> tk_current_tick (rc_ticker s) + 1 < 2 ^ 64 \<and> (\<forall>ti \<in> set (tk_ticks (rc_ticker s)). ti_depth ti + 1 < 2 ^ 64) \<and>
     (\<forall>sy \<in> set (rc_syncs s). sy_depth sy + 1 < 2 ^ 32)"

inductive rcu_reach :: "nat \<Rightarrow> rcu \<Rightarrow> bool" for n where
  start: "rcu_reach n (rcu_new n)"
| step: "rcu_reach n s \<Longrightarrow> rcu_small s \<Longrightarrow> rcu_legal a s \<Longrightarrow> rcu_exec a s = Inr s' \<Longrightarrow> rcu_reach n s'"

section \<open>The invariant\<close>

lemma group_size: "Suc 4095 = px_group_size"
  by (simp add: px_group_size_def)

interpretation rcuq: tick_queue "pair_ok px_group_size" "pair_main px_group_size" "pair_scratch px_group_size"
  "pair_enqueue px_group_size" "pair_accept px_group_size" pair_clear
  using pxq.tick_queue_axioms [of 4095] unfolding group_size .

fun pc_ok :: "rcu_pc \<Rightarrow> worker \<Rightarrow> rcu_entry px_pair \<Rightarrow> bool" where
  "pc_ok R_User w p \<longleftrightarrow> wk_pc w = G_None \<and> pair_scratch px_group_size p = []"
| "pc_ok (R_Enter clean) w p \<longleftrightarrow> wk_pc w \<noteq> G_None \<and> wk_guards w = [] \<and> (\<not> clean \<longrightarrow> pair_scratch px_group_size p = [])"
| "pc_ok R_Clean w p \<longleftrightarrow> wk_pc w = G_None \<and> pair_scratch px_group_size p = []"
| "pc_ok (R_Run it) w p \<longleftrightarrow> wk_pc w = G_None \<and> wk_guards w \<noteq> [] \<and> pair_iter_ok px_group_size p it"

definition sync_base :: "nat \<Rightarrow> nat \<Rightarrow> worker \<Rightarrow> sync \<Rightarrow> bool" where
  "sync_base l cur w sy \<longleftrightarrow> pair_ok px_group_size (sy_pair sy) \<and>
     (\<forall>e \<in> set (pair_main px_group_size (sy_pair sy)). snd e \<le> to_rcu_ticks (cur + 1)) \<and>
     sy_depth sy = length (wk_guards w) \<and> (sy_last_reaped sy = 0 \<or> sy_last_reaped sy < to_rcu_ticks (l + 1))"

definition sync_ok :: "nat \<Rightarrow> nat \<Rightarrow> worker \<Rightarrow> sync \<Rightarrow> bool" where
  "sync_ok l cur w sy \<longleftrightarrow> sync_base l cur w sy \<and> pc_ok (sy_pc sy) w (sy_pair sy)"

definition rcu_inv :: "rcu \<Rightarrow> bool" where
  "rcu_inv s \<longleftrightarrow> ticker_inv (rc_ticker s) \<and> length (rc_syncs s) = length (tk_ticks (rc_ticker s)) \<and>
     (\<forall>c < length (rc_syncs s). sync_ok (tk_last_tick_inclusive (rc_ticker s)) (ti_current_tick (tk_ticks (rc_ticker s) ! c))
        (tk_workers (rc_ticker s) ! c) (rc_syncs s ! c))"

lemma to_rcu_ticks_mono: "a \<le> b \<Longrightarrow> to_rcu_ticks a \<le> to_rcu_ticks b"
  by (simp add: to_rcu_ticks_def div_le_mono)

lemma sync_ok_mono: "sync_ok l cur w sy \<Longrightarrow> l \<le> l' \<Longrightarrow> cur \<le> cur' \<Longrightarrow> sync_ok l' cur' w sy"
  using to_rcu_ticks_mono [of "cur + 1" "cur' + 1"] to_rcu_ticks_mono [of "l + 1" "l' + 1"]
  unfolding sync_ok_def sync_base_def by fastforce

lemma rcu_new_inv: "rcu_inv (rcu_new n)"
  using inv_new [of n]
  by (auto simp: rcu_inv_def rcu_new_def ticker_new_def sync_new_def sync_ok_def sync_base_def pair_new_ok pair_new_main pair_new_scratch)

lemma rcu_inv_tick:
  assumes "rcu_inv s" and "tick_exec a (rc_ticker s) = Inr t" and "no_wrap a (rc_ticker s)" and "action_core a = Some c \<or> action_core a = None"
    and "c < length (rc_syncs s)"
    and "sync_ok (tk_last_tick_inclusive t) (ti_current_tick (tk_ticks t ! c)) (tk_workers t ! c) sy"
  shows "rcu_inv (set_core c t sy s)"
proof -
  have inv: "ticker_inv (rc_ticker s)" using assms(1) by (simp add: rcu_inv_def)
  have len: "length (tk_ticks t) = length (rc_syncs s)" using assms(1) tick_exec_lengths [OF assms(2)] by (simp add: rcu_inv_def)
  have other: "sync_ok (tk_last_tick_inclusive t) (ti_current_tick (tk_ticks t ! r)) (tk_workers t ! r) (rc_syncs s ! r)"
    if "r < length (rc_syncs s)" "r \<noteq> c" for r
  proof -
    have r: "r < length (tk_ticks (rc_ticker s))" using that(1) assms(1) by (simp add: rcu_inv_def)
    note e = tick_exec_effects [OF inv assms(2) r]
    have "tk_workers t ! r = tk_workers (rc_ticker s) ! r" using e(4) assms(4) that(2) by auto
    moreover have "sync_ok (tk_last_tick_inclusive (rc_ticker s)) (ti_current_tick (tk_ticks (rc_ticker s) ! r)) (tk_workers (rc_ticker s) ! r) (rc_syncs s ! r)"
      using assms(1) that(1) by (simp add: rcu_inv_def)
    ultimately show ?thesis using sync_ok_mono e(1,2) by simp
  qed
  show ?thesis using tick_exec_inv [OF inv assms(3,2)] len other assms(5,6)
    by (auto simp: rcu_inv_def set_core_def nth_list_update)
qed

lemma rcu_inv_local:
  assumes "rcu_inv s" and "c < length (rc_syncs s)"
    and "sync_ok (tk_last_tick_inclusive (rc_ticker s)) (ti_current_tick (tk_ticks (rc_ticker s) ! c)) (tk_workers (rc_ticker s) ! c) sy"
  shows "rcu_inv (set_core c (rc_ticker s) sy s)"
  using assms by (auto simp: rcu_inv_def set_core_def nth_list_update)

lemma rcu_inv_coreD:
  assumes "rcu_inv s" and "c < length (rc_syncs s)"
  shows "ticker_inv (rc_ticker s)" and "c < length (tk_ticks (rc_ticker s))" and "c < length (tk_workers (rc_ticker s))"
    and "sync_ok (tk_last_tick_inclusive (rc_ticker s)) (ti_current_tick (tk_ticks (rc_ticker s) ! c)) (tk_workers (rc_ticker s) ! c) (rc_syncs s ! c)"
  using assms by (auto simp: rcu_inv_def ticker_inv_def)

lemma rcu_small_no_wrap: "rcu_small s \<Longrightarrow> no_wrap a (rc_ticker s)"
  by (cases a) (auto simp: rcu_small_def)

section \<open>Every step keeps the invariant\<close>

lemma rcu_inv_result:
  assumes inv: "rcu_inv s" and c: "c < length (rc_syncs s)" and small: "rcu_small s" and core: "action_core a = Some c"
    and ok: "\<And>t. tick_exec a (rc_ticker s) = Inr t \<Longrightarrow>
      sync_ok (tk_last_tick_inclusive t) (ti_current_tick (tk_ticks t ! c)) (tk_workers t ! c) (f t)"
  shows "step_ok rcu_inv (rbind (tick_exec a (rc_ticker s)) (\<lambda>t. Inr (set_core c t (f t) s)))"
proof (cases "tick_exec a (rc_ticker s)")
  case (Inl e)
  then show ?thesis using tick_exec_ok [OF rcu_inv_coreD(1) [OF inv c] rcu_small_no_wrap [OF small], of a] by simp
next
  case (Inr t)
  then show ?thesis using rcu_inv_tick [OF inv Inr rcu_small_no_wrap [OF small] _ c ok [OF Inr]] core by simp
qed

lemma region_begin_ok:
  assumes inv: "rcu_inv s" and c: "c < length (rc_syncs s)" and small: "rcu_small s"
    and base: "sync_base (tk_last_tick_inclusive (rc_ticker s)) (ti_current_tick (tk_ticks (rc_ticker s) ! c)) (tk_workers (rc_ticker s) ! c) sy"
    and pc: "wk_pc (tk_workers (rc_ticker s) ! c) = G_None" and scratch: "\<not> clean \<Longrightarrow> pair_scratch px_group_size (sy_pair sy) = []"
    and depth: "sy_depth sy + 1 < 2 ^ 32"
  shows "step_ok rcu_inv (region_begin c clean sy s)"
proof -
  note C = rcu_inv_coreD [OF inv c]
  have gb: "guard_begin c (rc_ticker s) = tick_exec (Guard c) (rc_ticker s)" using C(3) pc by simp
  have p: "pair_ok px_group_size (sy_pair sy)" using base by (simp add: sync_base_def)
  have beg: "pair_iter_ok px_group_size (sy_pair sy) (px_begin (fst (snd (sy_pair sy))))"
    using p pair_iter_begin by (cases "sy_pair sy") auto
  show ?thesis unfolding region_begin_def gb
  proof (rule rcu_inv_result [OF inv c small])
    fix t assume run: "tick_exec (Guard c) (rc_ticker s) = Inr t"
    obtain ti w where e: "t = upd_core c ti w (rc_ticker s)" "ti_current_tick ti = ti_current_tick (tk_ticks (rc_ticker s) ! c)"
      "wk_pc w = (if wk_guards (tk_workers (rc_ticker s) ! c) = [] then G_Lock else G_None)"
      "length (wk_guards w) = (if wk_guards (tk_workers (rc_ticker s) ! c) = [] then 0 else Suc (length (wk_guards (tk_workers (rc_ticker s) ! c))))"
      by (rule guard_effect [OF C(1) run])
    show "sync_ok (tk_last_tick_inclusive t) (ti_current_tick (tk_ticks t ! c)) (tk_workers t ! c) (region_opened c t (sy\<lparr>sy_pc := R_Enter clean\<rparr>))"
      using e base C scratch beg depth by (cases "wk_guards (tk_workers (rc_ticker s) ! c)") (auto simp: sync_ok_def sync_base_def region_opened_def)
  qed simp
qed

lemma region_go_ok:
  assumes inv: "rcu_inv s" and c: "c < length (rc_syncs s)" and small: "rcu_small s" and pc: "sy_pc (rc_syncs s ! c) = R_Enter clean"
  shows "step_ok rcu_inv (region_go c now (rc_syncs s ! c) s)"
proof -
  note C = rcu_inv_coreD [OF inv c]
  let ?sy = "rc_syncs s ! c"
  have gb: "guard_go c now (rc_ticker s) = tick_exec (Go c now) (rc_ticker s)" using C(3) by simp
  have p: "pair_ok px_group_size (sy_pair ?sy)" using C(4) by (simp add: sync_ok_def sync_base_def)
  have beg: "pair_iter_ok px_group_size (sy_pair ?sy) (px_begin (fst (snd (sy_pair ?sy))))"
    using p pair_iter_begin by (cases "sy_pair ?sy") auto
  show ?thesis unfolding region_go_def gb
  proof (rule rcu_inv_result [OF inv c small])
    fix t assume run: "tick_exec (Go c now) (rc_ticker s) = Inr t"
    obtain ti w where e: "t = upd_core c ti w (rc_ticker s)" "ti_current_tick (tk_ticks (rc_ticker s) ! c) \<le> ti_current_tick ti"
      "wk_guards (tk_workers (rc_ticker s) ! c) = []" "length (wk_guards w) = (if wk_pc w = G_None then 1 else 0)"
      by (rule go_effect [OF C(1) run])
    have m: "to_rcu_ticks (Suc (ti_current_tick (tk_ticks (rc_ticker s) ! c))) \<le> to_rcu_ticks (Suc (ti_current_tick ti))"
      using e(2) by (intro to_rcu_ticks_mono) simp
    show "sync_ok (tk_last_tick_inclusive t) (ti_current_tick (tk_ticks t ! c)) (tk_workers t ! c) (region_opened c t ?sy)"
      using e C beg pc m by (auto simp: sync_ok_def sync_base_def region_opened_def split: if_splits intro: order_trans)
  qed simp
qed

lemma region_end_ok:
  assumes inv: "rcu_inv s" and c: "c < length (rc_syncs s)" and small: "rcu_small s"
    and base: "sync_base (tk_last_tick_inclusive (rc_ticker s)) (ti_current_tick (tk_ticks (rc_ticker s) ! c)) (tk_workers (rc_ticker s) ! c) sy"
    and pc: "wk_pc (tk_workers (rc_ticker s) ! c) = G_None" and scratch: "pair_scratch px_group_size (sy_pair sy) = []" and depth: "sy_depth sy \<noteq> 0"
  shows "step_ok rcu_inv (region_end c sy s)"
proof -
  note C = rcu_inv_coreD [OF inv c]
  have gb: "guard_end c (rc_ticker s) = tick_exec (Unguard c) (rc_ticker s)" using C(3) pc by simp
  have "step_ok rcu_inv (rbind (tick_exec (Unguard c) (rc_ticker s)) (\<lambda>t.
      Inr (set_core c t (sy\<lparr>sy_depth := sy_depth sy - 1, sy_pc := (if sy_depth sy - 1 \<noteq> 0 then R_User else R_Clean)\<rparr>) s)))"
  proof (rule rcu_inv_result [OF inv c small])
    fix t assume run: "tick_exec (Unguard c) (rc_ticker s) = Inr t"
    obtain ti w where e: "t = upd_core c ti w (rc_ticker s)" "ti_current_tick ti = ti_current_tick (tk_ticks (rc_ticker s) ! c)"
      "wk_pc w = G_None" "wk_guards w = tl (wk_guards (tk_workers (rc_ticker s) ! c))" by (rule unguard_effect [OF C(1) run])
    show "sync_ok (tk_last_tick_inclusive t) (ti_current_tick (tk_ticks t ! c)) (tk_workers t ! c)
       (sy\<lparr>sy_depth := sy_depth sy - 1, sy_pc := (if sy_depth sy - 1 \<noteq> 0 then R_User else R_Clean)\<rparr>)"
      using e base C scratch by (auto simp: sync_ok_def sync_base_def)
  qed simp
  moreover have "rassert (sy_depth sy \<noteq> 0) = Inr ()" using depth by simp
  ultimately show ?thesis unfolding region_end_def gb Let_def by (simp only: rbind_simps)
qed

lemma rcu_defer_ok:
  assumes inv: "rcu_inv s" and c: "c < length (rc_syncs s)" and small: "rcu_small s" and code: "in_code (rc_syncs s ! c)"
    and depth: "sy_depth (rc_syncs s ! c) \<noteq> 0"
  shows "\<exists>p. rcu_defer c e (rc_syncs s ! c) s = Inr (set_core c (rc_ticker s) ((rc_syncs s ! c)\<lparr>sy_pair := p\<rparr>) s) \<and>
    rcu_inv (set_core c (rc_ticker s) ((rc_syncs s ! c)\<lparr>sy_pair := p\<rparr>) s) \<and>
    pair_main px_group_size p = pair_main px_group_size (sy_pair (rc_syncs s ! c)) @
      [(e, to_rcu_ticks (ti_current_tick (tk_ticks (rc_ticker s) ! c) + 1))]"
proof -
  note C = rcu_inv_coreD [OF inv c]
  let ?sy = "rc_syncs s ! c" and ?ti = "tk_ticks (rc_ticker s) ! c" and ?w = "tk_workers (rc_ticker s) ! c"
  have sy: "pair_ok px_group_size (sy_pair ?sy)" "\<forall>e \<in> set (pair_main px_group_size (sy_pair ?sy)). snd e \<le> to_rcu_ticks (ti_current_tick ?ti + 1)"
    "sy_depth ?sy = length (wk_guards ?w)" "pc_ok (sy_pc ?sy) ?w (sy_pair ?sy)" using C(4) by (simp_all add: sync_ok_def sync_base_def)
  have d: "ti_depth ?ti \<noteq> 0" using inv_coreD(1) [OF C(1,2)] sy(3) depth by (auto simp: core_ok_def)
  have "ti_current_tick ?ti + 1 < 2 ^ 64" using inv_coreD(3) [OF C(1,2)] small by (simp add: rcu_small_def)
  then have inc: "u64_inc (ti_current_tick ?ti) = ti_current_tick ?ti + 1" by simp
  obtain p where p: "pair_enqueue px_group_size e (to_rcu_ticks (ti_current_tick ?ti + 1)) (sy_pair ?sy) = Inr p" "pair_ok px_group_size p"
    "pair_main px_group_size p = pair_main px_group_size (sy_pair ?sy) @ [(e, to_rcu_ticks (ti_current_tick ?ti + 1))]"
    "pair_scratch px_group_size p = pair_scratch px_group_size (sy_pair ?sy)"
    using rcuq.put [OF sy(1,2)] by blast
  have "pc_ok (sy_pc ?sy) ?w p"
  proof (cases "sy_pc ?sy")
    case (R_Run it)
    then have "pair_iter_ok px_group_size p it"
      using sy(4) by (intro pair_enqueue_iter [OF _ _ sy(2) p(1)]) (simp_all add: px_group_size_def)
    then show ?thesis using sy(4) R_Run by simp
  qed (use sy(4) p(4) code in \<open>auto simp: in_code_def\<close>)
  then have "sync_ok (tk_last_tick_inclusive (rc_ticker s)) (ti_current_tick ?ti) ?w (?sy\<lparr>sy_pair := p\<rparr>)"
    using C(4) p(2,3) by (auto simp: sync_ok_def sync_base_def)
  then have "rcu_inv (set_core c (rc_ticker s) (?sy\<lparr>sy_pair := p\<rparr>) s)" by (rule rcu_inv_local [OF inv c])
  moreover have "rcu_defer c e ?sy s = Inr (set_core c (rc_ticker s) (?sy\<lparr>sy_pair := p\<rparr>) s)"
    using C(2) d depth inc p(1) by (simp add: rcu_defer_def is_locally_guarded_def)
  ultimately show ?thesis using p(3) by blast
qed

lemma cleaning_tick:
  assumes "rcu_inv s" and "rcu_small s" and "c < length (rc_syncs s)"
  shows "cleaning_rcu_tick_exclusive s = to_rcu_ticks (tk_last_tick_inclusive (rc_ticker s) + 1)"
proof -
  note C = rcu_inv_coreD [OF assms(1,3)]
  have "tk_last_tick_inclusive (rc_ticker s) + 1 < 2 ^ 64"
    using inv_coreD(2,3) [OF C(1,2)] assms(2) by (simp add: rcu_small_def)
  then show ?thesis by (simp add: cleaning_rcu_tick_exclusive_def global_last_tick_exclusive_def global_last_tick_inclusive_def)
qed

lemma cleanup_begin_ok:
  assumes inv: "rcu_inv s" and c: "c < length (rc_syncs s)" and small: "rcu_small s" and pc: "sy_pc (rc_syncs s ! c) = R_Clean"
  shows "step_ok rcu_inv (cleanup_begin c (rc_syncs s ! c) s)"
proof -
  note C = rcu_inv_coreD [OF inv c]
  let ?sy = "rc_syncs s ! c" and ?ti = "tk_ticks (rc_ticker s) ! c" and ?w = "tk_workers (rc_ticker s) ! c"
  let ?ex = "to_rcu_ticks (tk_last_tick_inclusive (rc_ticker s) + 1)"
  note ex = cleaning_tick [OF inv small c]
  have sy: "sync_base (tk_last_tick_inclusive (rc_ticker s)) (ti_current_tick ?ti) ?w ?sy" "wk_pc ?w = G_None" "pair_scratch px_group_size (sy_pair ?sy) = []"
    "pair_ok px_group_size (sy_pair ?sy)" "sy_last_reaped ?sy = 0 \<or> sy_last_reaped ?sy < ?ex"
    using C(4) pc by (simp_all add: sync_ok_def sync_base_def)
  have empty: "px_empty (fst (snd (sy_pair ?sy)))" using pair_scratch_empty sy(3,4) by (cases "sy_pair ?sy") auto
  have stop: "rcu_inv (set_core c (rc_ticker s) (?sy\<lparr>sy_pc := R_User\<rparr>) s)"
    using sy by (intro rcu_inv_local [OF inv c]) (simp add: sync_ok_def sync_base_def)
  obtain p where p: "pair_accept px_group_size (?ex - 1) (sy_pair ?sy) = Inr p" "pair_ok px_group_size p"
    "pair_main px_group_size p = dropWhile (\<lambda>e. snd e \<le> ?ex - 1) (pair_main px_group_size (sy_pair ?sy))"
    using rcuq.accept [OF sy(4,3)] by blast
  have depth: "sy_depth ?sy + 1 < 2 ^ 32" using small c by (simp add: rcu_small_def)
  define sy' where "sy' = ?sy\<lparr>sy_last_reaped := (?ex - 1) mod 2 ^ 32, sy_pair := p\<rparr>"
  show ?thesis
  proof (cases "?ex = 0 \<or> sy_last_reaped ?sy = ?ex - 1")
    case True
    then show ?thesis using stop sy(5) empty by (auto simp: cleanup_begin_def ex Let_def)
  next
    case False
    have "(?ex - 1) mod 2 ^ 32 < ?ex" using False by (metis Suc_pred' less_Suc_eq_le mod_less_eq_dividend neq0_conv One_nat_def)
    then have base: "sync_base (tk_last_tick_inclusive (rc_ticker s)) (ti_current_tick ?ti) ?w sy'"
      using sy(1) p(2,3) by (auto simp: sync_base_def sy'_def dest: set_dropWhileD)
    have go: "step_ok rcu_inv (region_begin c True sy' s)"
      using depth by (intro region_begin_ok [OF inv c small base sy(2)]) (simp_all add: sy'_def)
    have halt: "rcu_inv (set_core c (rc_ticker s) (sy'\<lparr>sy_pc := R_User\<rparr>) s)" if "px_empty (fst (snd p))"
    proof -
      have "pair_scratch px_group_size p = []" using that pair_scratch_empty p(2) by (cases p) auto
      then show ?thesis using base sy(2) by (intro rcu_inv_local [OF inv c]) (simp add: sync_ok_def sync_base_def sy'_def)
    qed
    have "sy_last_reaped ?sy \<le> ?ex - 1" using sy(5) by linarith
    then have "cleanup_begin c ?sy s = (if px_empty (fst (snd p)) then Inr (set_core c (rc_ticker s) (sy'\<lparr>sy_pc := R_User\<rparr>) s) else region_begin c True sy' s)"
      using False empty p(1) unfolding cleanup_begin_def ex Let_def sy'_def by simp
    then show ?thesis using go halt by simp
  qed
qed

lemma cleanup_run_ok:
  assumes inv: "rcu_inv s" and c: "c < length (rc_syncs s)" and small: "rcu_small s" and pc: "sy_pc (rc_syncs s ! c) = R_Run it"
  shows "step_ok rcu_inv (cleanup_run c it (rc_syncs s ! c) s)"
proof -
  note C = rcu_inv_coreD [OF inv c]
  let ?sy = "rc_syncs s ! c" and ?ti = "tk_ticks (rc_ticker s) ! c" and ?w = "tk_workers (rc_ticker s) ! c"
  obtain m d q where p: "sy_pair ?sy = (m, d, q)" by (cases "sy_pair ?sy")
  have sy: "sync_base (tk_last_tick_inclusive (rc_ticker s)) (ti_current_tick ?ti) ?w ?sy" "wk_pc ?w = G_None" "pair_iter_ok px_group_size (m, d, q) it"
    "wk_guards ?w \<noteq> []" "sy_depth ?sy \<noteq> 0" "pair_ok px_group_size (sy_pair ?sy)"
    using C(4) pc p by (simp_all add: sync_ok_def sync_base_def)
  show ?thesis
  proof (cases "it = px_end")
    case True
    obtain p' where p': "pair_clear (sy_pair ?sy) = Inr p'" "pair_ok px_group_size p'" "pair_scratch px_group_size p' = []"
      "pair_main px_group_size p' = pair_main px_group_size (sy_pair ?sy)" using rcuq.clear [OF sy(6)] by blast
    have "step_ok rcu_inv (region_end c (?sy\<lparr>sy_pair := p'\<rparr>) s)"
      using sy p' by (intro region_end_ok [OF inv c small]) (simp_all add: sync_base_def)
    then show ?thesis using True p p'(1) by (simp add: cleanup_run_def)
  next
    case False
    obtain e it' where e: "iter_get m it = Inr e" "iter_next m it = Inr it'" "pair_iter_ok px_group_size (m, d, q) it'"
      using pair_iter_next [OF sy(3) False] by blast
    have "rcu_inv (set_core c (rc_ticker s) (?sy\<lparr>sy_log := sy_log ?sy @ [run_entry e], sy_pc := R_Run it'\<rparr>) s)"
      using sy e(3) p by (intro rcu_inv_local [OF inv c]) (simp add: sync_ok_def sync_base_def)
    then show ?thesis using False p e by (simp add: cleanup_run_def)
  qed
qed

lemma rcu_tick_ok:
  assumes inv: "rcu_inv s" and small: "rcu_small s"
  shows "step_ok rcu_inv (rcu_exec Rcu_Tick s)"
proof (cases "ticker_tick (rc_ticker s)")
  case (Inl e)
  have "ticker_inv (rc_ticker s)" using inv by (simp add: rcu_inv_def)
  from tick_exec_ok [OF this rcu_small_no_wrap [OF small], of Tick] Inl show ?thesis by simp
next
  case (Inr t)
  have run: "tick_exec Tick (rc_ticker s) = Inr t" and ti: "ticker_inv (rc_ticker s)" using Inr inv by (simp_all add: rcu_inv_def)
  have "ticker_inv t" using tick_exec_inv [OF ti rcu_small_no_wrap [OF small] run] .
  moreover have "length (tk_ticks t) = length (rc_syncs s)" using inv tick_exec_lengths [OF run] by (simp add: rcu_inv_def)
  moreover have "sync_ok (tk_last_tick_inclusive t) (ti_current_tick (tk_ticks t ! r)) (tk_workers t ! r) (rc_syncs s ! r)" if "r < length (rc_syncs s)" for r
    using rcu_inv_coreD [OF inv that] tick_exec_effects [OF ti run, of r] sync_ok_mono by auto
  ultimately show ?thesis using Inr by (simp add: rcu_inv_def)
qed

lemma entry_ok:
  "0 < sint fn \<Longrightarrow> entry_of_fn p fn = Inr (Rcu_Entry p (sint fn))" "sint (- sz) < 0 \<Longrightarrow> entry_of_size p sz = Inr (Rcu_Entry p (sint (- sz)))"
  by (simp_all add: entry_of_fn_def entry_of_size_def)

lemma on_core_ok: "(c < length (rc_syncs s) \<Longrightarrow> enabled (rc_syncs s ! c) \<Longrightarrow> step_ok P (f (rc_syncs s ! c))) \<Longrightarrow> step_ok P (on_core c s enabled f)"
  by (simp add: on_core_def)

lemma rcu_exec_ok:
  assumes inv: "rcu_inv s" and small: "rcu_small s" and legal: "rcu_legal a s"
  shows "step_ok rcu_inv (rcu_exec a s)"
proof (cases a)
  case Rcu_Tick
  then show ?thesis using rcu_tick_ok [OF inv small] by simp
next
  case (Enter c)
  show ?thesis unfolding Enter rcu_exec.simps
  proof (rule on_core_ok)
    assume c: "c < length (rc_syncs s)" and u: "sy_pc (rc_syncs s ! c) = R_User"
    show "step_ok rcu_inv (region_begin c False (rc_syncs s ! c) s)"
      using rcu_inv_coreD(4) [OF inv c] u small c by (intro region_begin_ok [OF inv c small]) (simp_all add: sync_ok_def rcu_small_def)
  qed
next
  case (Continue c now)
  show ?thesis unfolding Continue rcu_exec.simps
    using region_go_ok [OF inv _ small] cleanup_begin_ok [OF inv _ small] cleanup_run_ok [OF inv _ small]
    by (intro on_core_ok) (auto split: rcu_pc.split)
next
  case (Leave c)
  show ?thesis unfolding Leave rcu_exec.simps
  proof (rule on_core_ok)
    assume c: "c < length (rc_syncs s)" and u: "sy_pc (rc_syncs s ! c) = R_User \<and> sy_depth (rc_syncs s ! c) \<noteq> 0"
    show "step_ok rcu_inv (region_end c (rc_syncs s ! c) s)"
      using rcu_inv_coreD(4) [OF inv c] u by (intro region_end_ok [OF inv c small]) (simp_all add: sync_ok_def)
  qed
next
  case (Free c p fn)
  show ?thesis unfolding Free rcu_exec.simps
  proof (rule on_core_ok)
    assume c: "c < length (rc_syncs s)" and code: "in_code (rc_syncs s ! c)"
    have "sy_depth (rc_syncs s ! c) \<noteq> 0" using legal Free c by simp
    from rcu_defer_ok [OF inv c small code this] show "step_ok rcu_inv (free_with_fn c p fn (rc_syncs s ! c) s)"
      using legal Free by (auto simp: free_with_fn_def entry_ok step_ok_def split: sum.splits) (metis sum.inject(2) sum.distinct(1))+
  qed
next
  case (Free_Size c p sz)
  show ?thesis unfolding Free_Size rcu_exec.simps
  proof (rule on_core_ok)
    assume c: "c < length (rc_syncs s)" and code: "in_code (rc_syncs s ! c)"
    have "sy_depth (rc_syncs s ! c) \<noteq> 0" using legal Free_Size c by simp
    from rcu_defer_ok [OF inv c small code this] show "step_ok rcu_inv (dealloc_rcu c p sz (rc_syncs s ! c) s)"
      using legal Free_Size by (auto simp: dealloc_rcu_def entry_ok step_ok_def split: sum.splits) (metis sum.inject(2) sum.distinct(1))+
  qed
next
  case (Cleanup c)
  show ?thesis unfolding Cleanup rcu_exec.simps
  proof (rule on_core_ok)
    assume c: "c < length (rc_syncs s)" and u: "sy_pc (rc_syncs s ! c) = R_User"
    show "step_ok rcu_inv (Inr (set_core c (rc_ticker s) ((rc_syncs s ! c)\<lparr>sy_pc := R_Clean\<rparr>) s))"
      using rcu_inv_coreD(4) [OF inv c] u by (simp add: rcu_inv_local [OF inv c] sync_ok_def sync_base_def)
  qed
qed

lemma rcu_reach_inv: "rcu_reach n s \<Longrightarrow> rcu_inv s"
proof (induction rule: rcu_reach.induct)
  case start
  then show ?case by (rule rcu_new_inv)
next
  case (step s a s')
  then show ?case using rcu_exec_ok [OF step.IH step.hyps(2,3)] by simp
qed

lemma rcu_exec_length: "rcu_exec a s = Inr s' \<Longrightarrow> length (rc_syncs s') = length (rc_syncs s)"
  by (cases a) (auto simp: on_core_def set_core_def region_begin_def region_go_def region_end_def free_with_fn_def dealloc_rcu_def rcu_defer_def
      cleanup_begin_def cleanup_run_def result_simps Let_def split: if_splits rcu_pc.splits option.splits prod.splits)

lemma rcu_reach_length: "rcu_reach n s \<Longrightarrow> length (rc_syncs s) = n"
  by (induction rule: rcu_reach.induct) (auto simp: rcu_new_def dest: rcu_exec_length)

section \<open>What a step does to the deletions and the guards\<close>

definition pending :: "nat \<Rightarrow> rcu \<Rightarrow> (rcu_entry \<times> nat) list" where
  "pending c s = pair_main px_group_size (sy_pair (rc_syncs s ! c))"

definition region_guards :: "nat \<Rightarrow> rcu \<Rightarrow> guard list" where
  "region_guards r s = wk_guards (tk_workers (rc_ticker s) ! r)"

lemma set_core_simps [simp]:
  "rc_ticker (set_core c t sy s) = t" "length (rc_syncs (set_core c t sy s)) = length (rc_syncs s)"
  "c < length (rc_syncs s) \<Longrightarrow> rc_syncs (set_core c t sy s) ! r = (if r = c then sy else rc_syncs s ! r)"
  by (simp_all add: set_core_def)

lemma region_opened_pair [simp]: "sy_pair (region_opened c t sy) = sy_pair sy"
  by (simp add: region_opened_def split: rcu_pc.split)

definition only_core :: "nat \<Rightarrow> rcu \<Rightarrow> rcu \<Rightarrow> bool" where
  "only_core c s s' \<longleftrightarrow> length (rc_syncs s') = length (rc_syncs s) \<and> (\<forall>r. r \<noteq> c \<longrightarrow> rc_syncs s' ! r = rc_syncs s ! r)"

lemma only_set_core [simp]: "c < length (rc_syncs s) \<Longrightarrow> only_core c s (set_core c t sy s)"
  by (simp add: only_core_def)

lemma region_pairs:
  assumes "c < length (rc_syncs s)"
  shows "region_begin c clean sy s = Inr s' \<Longrightarrow> only_core c s s' \<and> sy_pair (rc_syncs s' ! c) = sy_pair sy \<and> guard_begin c (rc_ticker s) = Inr (rc_ticker s')"
    and "region_go c now sy s = Inr s' \<Longrightarrow> only_core c s s' \<and> sy_pair (rc_syncs s' ! c) = sy_pair sy \<and> guard_go c now (rc_ticker s) = Inr (rc_ticker s')"
    and "region_end c sy s = Inr s' \<Longrightarrow> only_core c s s' \<and> sy_pair (rc_syncs s' ! c) = sy_pair sy \<and> guard_end c (rc_ticker s) = Inr (rc_ticker s')"
  using assms by (auto simp: region_begin_def region_go_def region_end_def result_simps Let_def)

text \<open>A step of the thread of a core moves the ticker by at most one step of its own.\<close>

definition ticker_moves :: "ticker \<Rightarrow> ticker \<Rightarrow> bool" where
  "ticker_moves t t' \<longleftrightarrow> t' = t \<or> (\<exists>a. tick_exec a t = Inr t')"

lemma region_moves:
  assumes "rcu_inv s" and "c < length (rc_syncs s)" and "sy_pc (rc_syncs s ! c) \<noteq> R_Enter False \<and> sy_pc (rc_syncs s ! c) \<noteq> R_Enter True"
  shows "guard_begin c (rc_ticker s) = Inr t \<Longrightarrow> ticker_moves (rc_ticker s) t" and "guard_end c (rc_ticker s) = Inr t \<Longrightarrow> ticker_moves (rc_ticker s) t"
proof -
  note C = rcu_inv_coreD [OF assms(1,2)]
  have "wk_pc (tk_workers (rc_ticker s) ! c) = G_None"
    using C(4) assms(3) by (cases "sy_pc (rc_syncs s ! c)") (auto simp: sync_ok_def)
  then have "tick_exec (Guard c) (rc_ticker s) = guard_begin c (rc_ticker s)" "tick_exec (Unguard c) (rc_ticker s) = guard_end c (rc_ticker s)"
    using C(3) by simp_all
  then show "guard_begin c (rc_ticker s) = Inr t \<Longrightarrow> ticker_moves (rc_ticker s) t" "guard_end c (rc_ticker s) = Inr t \<Longrightarrow> ticker_moves (rc_ticker s) t"
    unfolding ticker_moves_def by metis+
qed

text \<open>
  The one way an element leaves the pending deletions is \<^verbatim>\<open>do_cleanup\<close>, and only when its tick is older than the
  cleaning tick.
\<close>

definition keeps_recent :: "nat \<Rightarrow> nat \<Rightarrow> rcu \<Rightarrow> rcu \<Rightarrow> bool" where
  "keeps_recent c ex s s' \<longleftrightarrow> only_core c s s' \<and> ticker_moves (rc_ticker s) (rc_ticker s') \<and>
     (\<forall>e. e \<in> set (pending c s) \<and> ex \<le> snd e \<longrightarrow> e \<in> set (pending c s'))"

lemma keeps_recent_same:
  "only_core c s s' \<Longrightarrow> sy_pair (rc_syncs s' ! c) = sy_pair (rc_syncs s ! c) \<Longrightarrow> ticker_moves (rc_ticker s) (rc_ticker s') \<Longrightarrow> keeps_recent c ex s s'"
  by (simp add: keeps_recent_def pending_def)

lemma ticker_stays [simp]: "ticker_moves t t"
  by (simp add: ticker_moves_def)

lemma cleanup_begin_keeps:
  assumes inv: "rcu_inv s" and c: "c < length (rc_syncs s)" and small: "rcu_small s" and pc: "sy_pc (rc_syncs s ! c) = R_Clean"
    and run: "cleanup_begin c (rc_syncs s ! c) s = Inr s'"
  shows "keeps_recent c (to_rcu_ticks (tk_last_tick_inclusive (rc_ticker s) + 1)) s s'"
proof -
  let ?ex = "to_rcu_ticks (tk_last_tick_inclusive (rc_ticker s) + 1)" and ?sy = "rc_syncs s ! c"
  note ex = cleaning_tick [OF inv small c]
  have sy: "pair_ok px_group_size (sy_pair ?sy)" "pair_scratch px_group_size (sy_pair ?sy) = []"
    using rcu_inv_coreD(4) [OF inv c] pc by (simp_all add: sync_ok_def sync_base_def)
  show ?thesis
  proof (cases "?ex = 0 \<or> sy_last_reaped ?sy = ?ex - 1")
    case True
    then have "s' = set_core c (rc_ticker s) (?sy\<lparr>sy_pc := R_User\<rparr>) s"
      using run unfolding cleanup_begin_def ex Let_def by (auto simp: result_simps split: if_splits)
    then show ?thesis using c by (intro keeps_recent_same) auto
  next
    case False
    then obtain p where p: "pair_accept px_group_size (?ex - 1) (sy_pair ?sy) = Inr p"
      and rest: "(if px_empty (fst (snd p)) then Inr (set_core c (rc_ticker s) (?sy\<lparr>sy_last_reaped := (?ex - 1) mod 2 ^ 32, sy_pair := p, sy_pc := R_User\<rparr>) s)
          else region_begin c True (?sy\<lparr>sy_last_reaped := (?ex - 1) mod 2 ^ 32, sy_pair := p\<rparr>) s) = Inr s'"
      using run unfolding cleanup_begin_def ex Let_def by (auto simp: result_simps split: if_splits)
    have "only_core c s s' \<and> sy_pair (rc_syncs s' ! c) = p \<and> ticker_moves (rc_ticker s) (rc_ticker s')"
    proof (cases "px_empty (fst (snd p))")
      case True
      then show ?thesis using rest c by auto
    next
      case False
      then have "region_begin c True (?sy\<lparr>sy_last_reaped := (?ex - 1) mod 2 ^ 32, sy_pair := p\<rparr>) s = Inr s'" using rest by simp
      from region_pairs(1) [OF c this] region_moves(1) [OF inv c] pc show ?thesis by auto
    qed
    moreover have "e \<in> set (pair_main px_group_size p)" if "e \<in> set (pending c s)" "?ex \<le> snd e" for e
    proof -
      obtain x t where e: "e = (x, t)" by (cases e)
      have "(x, t) \<in> set (pair_main px_group_size (sy_pair ?sy))" using that(1) e by (simp add: pending_def)
      moreover have "?ex - 1 < t" using that(2) e False by auto
      ultimately show ?thesis using rcuq.accept_keeps_later [OF sy p] e by blast
    qed
    ultimately show ?thesis by (simp add: keeps_recent_def pending_def)
  qed
qed

lemma cleanup_run_keeps:
  assumes inv: "rcu_inv s" and c: "c < length (rc_syncs s)" and pc: "sy_pc (rc_syncs s ! c) = R_Run it"
    and run: "cleanup_run c it (rc_syncs s ! c) s = Inr s'"
  shows "keeps_recent c ex s s'"
proof (cases "it = px_end")
  case True
  have ok: "pair_ok px_group_size (sy_pair (rc_syncs s ! c))" using rcu_inv_coreD(4) [OF inv c] by (simp add: sync_ok_def sync_base_def)
  obtain p where p: "pair_clear (sy_pair (rc_syncs s ! c)) = Inr p" "region_end c ((rc_syncs s ! c)\<lparr>sy_pair := p\<rparr>) s = Inr s'"
    using run True by (auto simp: cleanup_run_def result_simps split: prod.splits)
  from region_pairs(3) [OF c p(2)] show ?thesis
    using rcuq.clear_facts(3) [OF ok p(1)] region_moves(2) [OF inv c] pc by (auto simp: keeps_recent_def pending_def)
next
  case False
  then show ?thesis using run c by (auto simp: cleanup_run_def result_simps split: prod.splits intro!: keeps_recent_same)
qed

lemma defer_keeps:
  assumes "rcu_inv s" and "c < length (rc_syncs s)" and "rcu_small s" and "in_code (rc_syncs s ! c)" and "sy_depth (rc_syncs s ! c) \<noteq> 0"
    and "rcu_defer c e (rc_syncs s ! c) s = Inr s'"
  shows "keeps_recent c ex s s'"
proof -
  obtain p where p: "rcu_defer c e (rc_syncs s ! c) s = Inr (set_core c (rc_ticker s) ((rc_syncs s ! c)\<lparr>sy_pair := p\<rparr>) s)"
    "pair_main px_group_size p = pair_main px_group_size (sy_pair (rc_syncs s ! c)) @ [(e, to_rcu_ticks (ti_current_tick (tk_ticks (rc_ticker s) ! c) + 1))]"
    using rcu_defer_ok [OF assms(1-5), of e] by blast
  from p(1) assms(6) have "s' = set_core c (rc_ticker s) ((rc_syncs s ! c)\<lparr>sy_pair := p\<rparr>) s" by simp
  then show ?thesis using assms(2) p(2) by (auto simp: keeps_recent_def pending_def)
qed

lemma rcu_exec_keeps:
  assumes inv: "rcu_inv s" and small: "rcu_small s" and legal: "rcu_legal a s" and run: "rcu_exec a s = Inr s'" and a: "a \<noteq> Rcu_Tick"
  shows "\<exists>c < length (rc_syncs s). keeps_recent c (to_rcu_ticks (tk_last_tick_inclusive (rc_ticker s) + 1)) s s'"
proof (cases a)
  case (Enter c)
  then have c: "c < length (rc_syncs s)" "sy_pc (rc_syncs s ! c) = R_User" "region_begin c False (rc_syncs s ! c) s = Inr s'"
    using run by (auto simp: on_core_def split: if_splits)
  then show ?thesis using region_pairs(1) [OF c(1,3)] region_moves(1) [OF inv c(1)] by (auto intro!: exI [of _ c] keeps_recent_same)
next
  case (Continue c now)
  then have c: "c < length (rc_syncs s)" using run by (auto simp: on_core_def split: if_splits)
  show ?thesis
  proof (cases "sy_pc (rc_syncs s ! c)")
    case R_User
    then show ?thesis using run Continue by (simp add: on_core_def)
  next
    case (R_Enter clean)
    then have "region_go c now (rc_syncs s ! c) s = Inr s'" using run Continue c by (simp add: on_core_def)
    note g = region_pairs(2) [OF c this]
    have "tick_exec (Go c now) (rc_ticker s) = Inr (rc_ticker s')" using g rcu_inv_coreD(3) [OF inv c] by simp
    then have "ticker_moves (rc_ticker s) (rc_ticker s')" unfolding ticker_moves_def by blast
    then show ?thesis using g c keeps_recent_same by blast
  next
    case R_Clean
    then show ?thesis using run Continue c cleanup_begin_keeps [OF inv c small] by (auto simp: on_core_def)
  next
    case (R_Run it)
    then have "cleanup_run c it (rc_syncs s ! c) s = Inr s'" using run Continue c by (simp add: on_core_def)
    from cleanup_run_keeps [OF inv c R_Run this] c show ?thesis by blast
  qed
next
  case (Leave c)
  then have c: "c < length (rc_syncs s)" "sy_pc (rc_syncs s ! c) = R_User" "region_end c (rc_syncs s ! c) s = Inr s'"
    using run by (auto simp: on_core_def split: if_splits)
  then show ?thesis using region_pairs(3) [OF c(1,3)] region_moves(2) [OF inv c(1)] by (auto intro!: exI [of _ c] keeps_recent_same)
next
  case (Free c p fn)
  then show ?thesis using run legal defer_keeps [OF inv _ small] by (auto simp: on_core_def free_with_fn_def entry_ok split: if_splits)
next
  case (Free_Size c p sz)
  then show ?thesis using run legal defer_keeps [OF inv _ small] by (auto simp: on_core_def dealloc_rcu_def entry_ok split: if_splits)
next
  case (Cleanup c)
  then have c: "c < length (rc_syncs s)" "s' = set_core c (rc_ticker s) ((rc_syncs s ! c)\<lparr>sy_pc := R_Clean\<rparr>) s"
    using run by (auto simp: on_core_def split: if_splits)
  then show ?thesis by (intro exI [of _ c]) (auto intro: keeps_recent_same)
qed (use a in simp)

section \<open>The grace period\<close>

text \<open>Runs in which the thread of core \<open>r\<close> stays in the region it is in.\<close>

inductive guarded_run :: "nat \<Rightarrow> rcu \<Rightarrow> rcu \<Rightarrow> bool" for r where
  refl: "region_guards r s \<noteq> [] \<Longrightarrow> guarded_run r s s"
| step: "guarded_run r s s1 \<Longrightarrow> rcu_small s1 \<Longrightarrow> rcu_legal a s1 \<Longrightarrow> rcu_exec a s1 = Inr s2 \<Longrightarrow> region_guards r s2 \<noteq> [] \<Longrightarrow> guarded_run r s s2"

lemma guarded_tick:
  assumes inv: "rcu_inv s" and r: "r < length (rc_syncs s)" and g: "region_guards r s \<noteq> []"
  shows "tk_last_tick_inclusive (rc_ticker s) < ti_current_tick (tk_ticks (rc_ticker s) ! r)"
    and "ticker_moves (rc_ticker s) t \<Longrightarrow> ti_current_tick (tk_ticks t ! r) = ti_current_tick (tk_ticks (rc_ticker s) ! r)"
proof -
  note C = rcu_inv_coreD [OF inv r]
  show "tk_last_tick_inclusive (rc_ticker s) < ti_current_tick (tk_ticks (rc_ticker s) ! r)" using inv_coreD(2) [OF C(1,2)] .
  show "ticker_moves (rc_ticker s) t \<Longrightarrow> ti_current_tick (tk_ticks t ! r) = ti_current_tick (tk_ticks (rc_ticker s) ! r)"
    using tick_exec_effects(3) [OF C(1) _ C(2)] g by (auto simp: ticker_moves_def region_guards_def)
qed

lemma grace_step:
  assumes inv: "rcu_inv s" and small: "rcu_small s" and legal: "rcu_legal a s" and run: "rcu_exec a s = Inr s'"
    and r: "r < length (rc_syncs s)" and g: "region_guards r s \<noteq> []"
    and e: "(e, T) \<in> set (pending c s)" and T: "to_rcu_ticks (ti_current_tick (tk_ticks (rc_ticker s) ! r)) \<le> T"
  shows "(e, T) \<in> set (pending c s')" and "to_rcu_ticks (ti_current_tick (tk_ticks (rc_ticker s') ! r)) \<le> T" and "length (rc_syncs s') = length (rc_syncs s)"
proof -
  have ex: "to_rcu_ticks (tk_last_tick_inclusive (rc_ticker s) + 1) \<le> T"
  proof -
    have "tk_last_tick_inclusive (rc_ticker s) + 1 \<le> ti_current_tick (tk_ticks (rc_ticker s) ! r)" using guarded_tick(1) [OF inv r g] by simp
    from order_trans [OF to_rcu_ticks_mono [OF this] T] show ?thesis .
  qed
  have "(e, T) \<in> set (pending c s') \<and> ticker_moves (rc_ticker s) (rc_ticker s') \<and> length (rc_syncs s') = length (rc_syncs s)"
  proof (cases "a = Rcu_Tick")
    case True
    then obtain t where "tick_exec Tick (rc_ticker s) = Inr t" "s' = s\<lparr>rc_ticker := t\<rparr>" using run by (auto simp: result_simps)
    moreover from this have "ticker_moves (rc_ticker s) t" unfolding ticker_moves_def by blast
    ultimately show ?thesis using e by (simp add: pending_def)
  next
    case False
    from rcu_exec_keeps [OF inv small legal run False] obtain c' where k: "keeps_recent c' (to_rcu_ticks (tk_last_tick_inclusive (rc_ticker s) + 1)) s s'" by blast
    then have "(e, T) \<in> set (pending c s')" using e ex by (cases "c = c'") (auto simp: keeps_recent_def only_core_def pending_def)
    with k show ?thesis by (simp add: keeps_recent_def only_core_def)
  qed
  then show "(e, T) \<in> set (pending c s')" "to_rcu_ticks (ti_current_tick (tk_ticks (rc_ticker s') ! r)) \<le> T" "length (rc_syncs s') = length (rc_syncs s)"
    using T guarded_tick(2) [OF inv r g, of "rc_ticker s'"] by simp_all
qed

lemma guarded_run_keeps:
  assumes "guarded_run r s s'" and "rcu_inv s" and "r < length (rc_syncs s)" and "(e, T) \<in> set (pending c s)"
    and "to_rcu_ticks (ti_current_tick (tk_ticks (rc_ticker s) ! r)) \<le> T"
  shows "rcu_inv s' \<and> r < length (rc_syncs s') \<and> region_guards r s' \<noteq> [] \<and> (e, T) \<in> set (pending c s') \<and>
    to_rcu_ticks (ti_current_tick (tk_ticks (rc_ticker s') ! r)) \<le> T"
  using assms
proof (induction rule: guarded_run.induct)
  case (refl s)
  then show ?case by simp
next
  case (step s s1 a s2)
  then have h: "rcu_inv s1" "r < length (rc_syncs s1)" "region_guards r s1 \<noteq> []" "(e, T) \<in> set (pending c s1)"
    "to_rcu_ticks (ti_current_tick (tk_ticks (rc_ticker s1) ! r)) \<le> T" by auto
  have "rcu_inv s2" using rcu_exec_ok [OF h(1) step.hyps(2,3)] step.hyps(4) by simp
  with grace_step [OF h(1) step.hyps(2,3,4) h(2-5)] h(2) step.hyps(5) show ?case by simp
qed

text \<open>The deletion that a step hands over.\<close>

fun handed_over :: "rcu_action \<Rightarrow> (nat \<times> rcu_entry) option" where
  "handed_over (Free c p fn) = Some (c, Rcu_Entry p (sint fn))"
| "handed_over (Free_Size c p sz) = Some (c, Rcu_Entry p (sint (- sz)))"
| "handed_over _ = None"

lemma handed_over_defer:
  assumes "handed_over a = Some (c, e)" and "rcu_legal a s" and "rcu_exec a s = Inr s'"
  shows "c < length (rc_syncs s) \<and> in_code (rc_syncs s ! c) \<and> sy_depth (rc_syncs s ! c) \<noteq> 0 \<and> rcu_defer c e (rc_syncs s ! c) s = Inr s'"
  using assms by (cases a) (auto simp: on_core_def free_with_fn_def dealloc_rcu_def entry_ok split: if_splits)

text \<open>
  C9.  The grace period of deferred deletion.  When a thread hands over memory, and a thread of any core is in a
  region at that moment, then the deletion stays in the queue for as long as that thread stays in its region, however
  the ticker and all threads go on and clean up in between.  So no memory is deleted under a thread that may still
  have found it.
\<close>

theorem rcu_grace_period:
  assumes "rcu_reach n s" and "rcu_small s" and "rcu_legal a s" and "handed_over a = Some (c, e)" and "rcu_exec a s = Inr s1"
    and "r < n" and "guarded_run r s1 s2"
  shows "\<exists>T. (e, T) \<in> set (pending c s2)"
proof -
  have inv: "rcu_inv s" by (rule rcu_reach_inv [OF assms(1)])
  have n: "length (rc_syncs s) = n" using assms(1) by (rule rcu_reach_length)
  note d = handed_over_defer [OF assms(4,3,5)]
  then have c: "c < length (rc_syncs s)" by simp
  let ?T = "to_rcu_ticks (ti_current_tick (tk_ticks (rc_ticker s) ! c) + 1)"
  from rcu_defer_ok [OF inv c assms(2), of e] d obtain p where p: "s1 = set_core c (rc_ticker s) ((rc_syncs s ! c)\<lparr>sy_pair := p\<rparr>) s" "rcu_inv s1"
    "pair_main px_group_size p = pair_main px_group_size (sy_pair (rc_syncs s ! c)) @ [(e, ?T)]" by (metis sum.inject(2))
  have r: "r < length (rc_syncs s)" using assms(6) n by simp
  note C = rcu_inv_coreD [OF inv c] and R = rcu_inv_coreD [OF inv r]
  have "ti_current_tick (tk_ticks (rc_ticker s) ! r) \<le> ti_current_tick (tk_ticks (rc_ticker s) ! c) + 1"
    using inv_coreD(3) [OF R(1,2)] inv_coreD(4) [OF C(1,2)] by linarith
  then have T: "to_rcu_ticks (ti_current_tick (tk_ticks (rc_ticker s1) ! r)) \<le> ?T" using p(1) by (simp add: to_rcu_ticks_mono)
  have "(e, ?T) \<in> set (pending c s1)" using p c by (simp add: pending_def)
  with guarded_run_keeps [OF assms(7) p(2) _ this T] r p(1) show ?thesis by auto
qed
text \<open>Two cores: the thread of core 1 is in a region, and so is the one of core 0.\<close>

definition two_readers :: rcu where
  "two_readers = (let ti = \<lparr>ti_lock = 1, ti_current_tick = 1, ti_depth = 1, ti_start_us = 5\<rparr>;
       w = (\<lambda>c. \<lparr>wk_pc = G_None, wk_guards = [\<lparr>gd_core = c, gd_tick = 1, gd_depth = 1, gd_start_us = 5\<rparr>]\<rparr>)
     in \<lparr>rc_ticker = \<lparr>tk_ticks = [ti, ti], tk_current_tick = 1, tk_last_tick_inclusive = 0, tk_pc = T_Sleep, tk_workers = [w 0, w 1]\<rparr>,
         rc_syncs = [sync_new\<lparr>sy_depth := 1\<rparr>, sync_new\<lparr>sy_depth := 1\<rparr>]\<rparr>)"

lemma rcu_run_reach:
  "rcu_reach n s \<Longrightarrow> for_each (\<lambda>a s. rbind (rassert (rcu_small s \<and> rcu_legal a s)) (\<lambda>_. rcu_exec a s)) as s = Inr s' \<Longrightarrow> rcu_reach n s'"
proof (induction as arbitrary: s)
  case Nil
  then show ?case by simp
next
  case (Cons a as)
  then obtain s1 where s1: "rcu_small s" "rcu_legal a s" "rcu_exec a s = Inr s1"
    "for_each (\<lambda>a s. rbind (rassert (rcu_small s \<and> rcu_legal a s)) (\<lambda>_. rcu_exec a s)) as s1 = Inr s'" by (auto simp: result_simps)
  from Cons.IH [OF rcu_reach.step [OF Cons.prems(1) s1(1-3)] s1(4)] show ?case .
qed

lemma replicate_two: "replicate 2 x = [x, x]"
  by (simp add: numeral_2_eq_2)

lemma two_readers_reach: "rcu_reach 2 two_readers"
proof (rule rcu_run_reach [OF rcu_reach.start, of "[Enter 0, Continue 0 0, Continue 0 0, Continue 0 5, Enter 1, Continue 1 0, Continue 1 0, Continue 1 5]"])
  show "for_each (\<lambda>a s. rbind (rassert (rcu_small s \<and> rcu_legal a s)) (\<lambda>_. rcu_exec a s))
      [Enter 0, Continue 0 0, Continue 0 0, Continue 0 5, Enter 1, Continue 1 0, Continue 1 0, Continue 1 5] (rcu_new 2) = Inr two_readers"
    by (simp add: rcu_new_def two_readers_def ticker_new_def tickinfo_new_def spin_new_def sync_new_def rcu_small_def on_core_def region_begin_def
        region_go_def region_opened_def set_core_def ticker_defs upd_core_def u64_inc_def Let_def replicate_two)
qed

theorem rcu_grace_period_witness:
  "\<exists>s1 T. rcu_exec (Free 0 64 4096) two_readers = Inr s1 \<and> region_guards 1 s1 \<noteq> [] \<and> (Rcu_Entry 64 4096, T) \<in> set (pending 0 s1)"
proof -
  have small: "rcu_small two_readers" and legal: "rcu_legal (Free 0 64 4096) two_readers" and core: "(0 :: nat) < length (rc_syncs two_readers)"
    and code: "in_code (rc_syncs two_readers ! 0)" "sy_depth (rc_syncs two_readers ! 0) \<noteq> 0"
    by (simp_all add: two_readers_def rcu_small_def sync_new_def in_code_def Let_def)
  from rcu_defer_ok [OF rcu_reach_inv [OF two_readers_reach] core small code, of "Rcu_Entry 64 4096"] obtain p where
    p: "rcu_exec (Free 0 64 4096) two_readers = Inr (set_core 0 (rc_ticker two_readers) ((rc_syncs two_readers ! 0)\<lparr>sy_pair := p\<rparr>) two_readers)"
    using core code by (auto simp: on_core_def free_with_fn_def entry_ok)
  let ?s1 = "set_core 0 (rc_ticker two_readers) ((rc_syncs two_readers ! 0)\<lparr>sy_pair := p\<rparr>) two_readers"
  have g: "region_guards 1 ?s1 \<noteq> []" by (simp add: region_guards_def two_readers_def Let_def)
  have "\<exists>T. (Rcu_Entry 64 4096, T) \<in> set (pending 0 ?s1)"
    using rcu_grace_period [OF two_readers_reach small legal _ p _ guarded_run.refl [OF g], of 0 "Rcu_Entry 64 4096"] by simp
  with p g show ?thesis by blast
qed

text \<open>
  C37.  No \<^verbatim>\<open>INVARIANT\<close> of deferred deletion, of the queues or of the ticker below it fails in any run: the scratch queue is
  empty when \<^verbatim>\<open>do_cleanup\<close> starts, the cleaning tick never goes back, ticks go up in every queue, and the iterator over the
  deletions stays valid even when a deleter hands over more memory.  A step either succeeds or waits.
\<close>

theorem rcu_asserts_hold:
  assumes "rcu_reach n s" and "rcu_small s" and "rcu_legal a s" and "rcu_exec a s = Inl e"
  shows "e = Spins"
  using rcu_exec_ok [OF rcu_reach_inv [OF assms(1)] assms(2,3)] assms(4) by simp

theorem rcu_asserts_hold_witness:
  "\<exists>e. rcu_exec (Continue 1 0) two_readers = Inl e \<and> e = Spins"
proof -
  have small: "rcu_small two_readers" and legal: "rcu_legal (Continue 1 0) two_readers" and run: "rcu_exec (Continue 1 0) two_readers = Inl Spins"
    by (simp_all add: two_readers_def rcu_small_def sync_new_def on_core_def Let_def)
  from rcu_asserts_hold [OF two_readers_reach small legal run] run show ?thesis by blast
qed

end
