(* ===== verification/Silo_Circbuf.thy ===== *)
theory Silo_Circbuf
  imports Rolis_Prelude
begin

text \<open>
  The circular buffer through which log buffers travel between a core and its logger (\<^verbatim>\<open>circbuf.h\<close>).  Enqueuers and the
  one dequeuer are threads with a program counter; every atomic load, store and compare-and-swap is a step.  A null
  pointer is \<open>None\<close>, \<open>Spins\<close> stands for a thread that waits or has nothing to do, and a false \<^verbatim>\<open>INVARIANT\<close> is
  \<open>Assert_Fail\<close>.  The state also records what was stored and what was returned, in order.
\<close>

section \<open>The code\<close>

datatype 'a enq_pc = E_Idle | E_Load 'a | E_Check 'a nat | E_Cas 'a nat | E_Store 'a nat

datatype 'a deq_pc = D_Idle | D_Wait | D_Take | D_Incr 'a | D_Clear 'a nat

record 'a circbuf =
  cb_buf :: "'a option list"
  cb_head :: nat
  cb_tail :: nat
  cb_enq :: "'a enq_pc list"
  cb_deq :: "'a deq_pc"
  cb_stored :: "'a list"
  cb_returned :: "'a list"

definition circbuf_new :: "nat \<Rightarrow> nat \<Rightarrow> 'a circbuf" where
  "circbuf_new capacity n = \<lparr>cb_buf = replicate capacity None, cb_head = 0, cb_tail = 0, cb_enq = replicate n E_Idle, cb_deq = D_Idle,
     cb_stored = [], cb_returned = []\<rparr>"

definition cb_capacity :: "'a circbuf \<Rightarrow> nat" where "cb_capacity s = length (cb_buf s)"

definition postincr :: "nat \<Rightarrow> nat \<Rightarrow> nat" where "postincr capacity i = (i + 1) mod capacity"

definition cb_empty :: "'a circbuf \<Rightarrow> bool result" where
  "cb_empty s = (if cb_head s \<noteq> cb_tail s then Inr False else rbind (vec_at (cb_buf s) (cb_head s)) (\<lambda>b. Inr (b = None)))"

definition cb_peek :: "'a circbuf \<Rightarrow> 'a option result" where
  "cb_peek s = vec_at (cb_buf s) (cb_tail s)"

text \<open>\<^verbatim>\<open>peekall\<close>: the loop ends at an empty slot, at the limit, or after a full turn.\<close>

fun peek_loop :: "nat \<Rightarrow> 'a option list \<Rightarrow> nat \<Rightarrow> nat \<Rightarrow> nat \<Rightarrow> 'a list \<Rightarrow> 'a list result" where
  "peek_loop 0 buf t limit i ps = Inl Spins"
| "peek_loop (Suc k) buf t limit i ps = rbind (vec_at buf i) (\<lambda>b. case b of
     None \<Rightarrow> Inr ps
   | Some p \<Rightarrow> if \<not> length ps < limit then Inr ps else
       let i = postincr (length buf) i in if i = t then Inr (ps @ [p]) else peek_loop k buf t limit i (ps @ [p]))"

definition peekall :: "nat \<Rightarrow> 'a circbuf \<Rightarrow> 'a list result" where
  "peekall limit s = peek_loop (Suc (cb_capacity s)) (cb_buf s) (cb_tail s) limit (cb_tail s) []"

text \<open>One step of \<^verbatim>\<open>enq\<close> in the thread of an enqueuer.\<close>

definition enq_step :: "nat \<Rightarrow> 'a circbuf \<Rightarrow> 'a circbuf result" where
  "enq_step i s = rbind (vec_at (cb_enq s) i) (\<lambda>pc. case pc of
     E_Idle \<Rightarrow> Inl Spins
   | E_Load p \<Rightarrow> Inr (s\<lparr>cb_enq := (cb_enq s)[i := E_Check p (cb_head s)]\<rparr>)
   | E_Check p icur \<Rightarrow> rbind (rassert (icur < cb_capacity s)) (\<lambda>_. rbind (vec_at (cb_buf s) icur) (\<lambda>b.
       Inr (s\<lparr>cb_enq := (cb_enq s)[i := if b = None then E_Cas p icur else E_Load p]\<rparr>)))
   | E_Cas p icur \<Rightarrow>
       if cb_head s = icur then Inr (s\<lparr>cb_head := (icur + 1) mod cb_capacity s, cb_enq := (cb_enq s)[i := E_Store p icur]\<rparr>)
       else Inr (s\<lparr>cb_enq := (cb_enq s)[i := E_Load p]\<rparr>)
   | E_Store p icur \<Rightarrow> rbind (vec_at (cb_buf s) icur) (\<lambda>b. rbind (rassert (b = None)) (\<lambda>_.
       Inr (s\<lparr>cb_buf := (cb_buf s)[icur := Some p], cb_enq := (cb_enq s)[i := E_Idle], cb_stored := cb_stored s @ [p]\<rparr>))))"

text \<open>One step of \<^verbatim>\<open>deq\<close>.\<close>

definition deq_step :: "'a circbuf \<Rightarrow> 'a circbuf result" where
  "deq_step s = (case cb_deq s of
     D_Idle \<Rightarrow> Inl Spins
   | D_Wait \<Rightarrow> rbind (vec_at (cb_buf s) (cb_tail s)) (\<lambda>b. if b = None then Inl Spins else Inr (s\<lparr>cb_deq := D_Take\<rparr>))
   | D_Take \<Rightarrow> rbind (vec_at (cb_buf s) (cb_tail s)) (\<lambda>b. case b of None \<Rightarrow> Inl Assert_Fail | Some p \<Rightarrow> Inr (s\<lparr>cb_deq := D_Incr p\<rparr>))
   | D_Incr p \<Rightarrow> Inr (s\<lparr>cb_tail := postincr (cb_capacity s) (cb_tail s), cb_deq := D_Clear p (cb_tail s)\<rparr>)
   | D_Clear p t \<Rightarrow> Inr (s\<lparr>cb_buf := (cb_buf s)[t := None], cb_deq := D_Idle, cb_returned := cb_returned s @ [p]\<rparr>))"

datatype 'a circ_action = Enq nat 'a | Enq_Step nat | Deq | Deq_Step

fun circ_exec :: "'a circ_action \<Rightarrow> 'a circbuf \<Rightarrow> 'a circbuf result" where
  "circ_exec (Enq i p) s = (if i < length (cb_enq s) \<and> cb_enq s ! i = E_Idle then Inr (s\<lparr>cb_enq := (cb_enq s)[i := E_Load p]\<rparr>) else Inl Spins)"
| "circ_exec (Enq_Step i) s = (if i < length (cb_enq s) then enq_step i s else Inl Spins)"
| "circ_exec Deq s = (if cb_deq s = D_Idle then Inr (s\<lparr>cb_deq := D_Wait\<rparr>) else Inl Spins)"
| "circ_exec Deq_Step s = deq_step s"

inductive circ_reach :: "nat \<Rightarrow> nat \<Rightarrow> 'a circbuf \<Rightarrow> bool" for capacity n where
  start: "circ_reach capacity n (circbuf_new capacity n)"
| step: "circ_reach capacity n s \<Longrightarrow> circ_exec a s = Inr s' \<Longrightarrow> circ_reach capacity n s'"

section \<open>One enqueuer and one dequeuer\<close>

text \<open>
  The invariant: the slots from the number of returned items to the number of stored ones hold the stored items in
  order, and all others are empty.  \<open>claimed\<close> is the slot the enqueuer has taken but not yet filled, \<open>passed\<close> the one the
  dequeuer has moved behind but not yet emptied.
\<close>

fun claimed :: "'a enq_pc \<Rightarrow> nat" where
  "claimed (E_Store p icur) = 1"
| "claimed _ = 0"

fun passed :: "'a deq_pc \<Rightarrow> nat" where
  "passed (D_Clear p t) = 1"
| "passed _ = 0"

fun enq_ok :: "nat \<Rightarrow> nat \<Rightarrow> nat \<Rightarrow> 'a enq_pc \<Rightarrow> bool" where
  "enq_ok capacity nout nin (E_Check p icur) \<longleftrightarrow> icur = nin mod capacity"
| "enq_ok capacity nout nin (E_Cas p icur) \<longleftrightarrow> icur = nin mod capacity \<and> nin < nout + capacity"
| "enq_ok capacity nout nin (E_Store p icur) \<longleftrightarrow> icur = nin mod capacity \<and> nin < nout + capacity"
| "enq_ok capacity nout nin _ \<longleftrightarrow> True"

fun deq_ok :: "nat \<Rightarrow> nat \<Rightarrow> 'a list \<Rightarrow> 'a deq_pc \<Rightarrow> bool" where
  "deq_ok capacity nout stored D_Take \<longleftrightarrow> nout < length stored"
| "deq_ok capacity nout stored (D_Incr p) \<longleftrightarrow> nout < length stored \<and> p = stored ! nout"
| "deq_ok capacity nout stored (D_Clear p t) \<longleftrightarrow> nout < length stored \<and> p = stored ! nout \<and> t = nout mod capacity"
| "deq_ok capacity nout stored _ \<longleftrightarrow> True"

definition slots_ok :: "nat \<Rightarrow> 'a list \<Rightarrow> 'a option list \<Rightarrow> bool" where
  "slots_ok nout stored buf \<longleftrightarrow> nout \<le> length stored \<and> length stored \<le> nout + length buf \<and>
     (\<forall>k. nout \<le> k \<and> k < nout + length buf \<longrightarrow> buf ! (k mod length buf) = (if k < length stored then Some (stored ! k) else None))"

definition circ_inv :: "nat \<Rightarrow> 'a circbuf \<Rightarrow> bool" where
  "circ_inv capacity s \<longleftrightarrow> 0 < capacity \<and> length (cb_buf s) = capacity \<and> (\<exists>e. cb_enq s = [e] \<and>
     cb_head s = (length (cb_stored s) + claimed e) mod capacity \<and> enq_ok capacity (length (cb_returned s)) (length (cb_stored s)) e) \<and>
     cb_tail s = (length (cb_returned s) + passed (cb_deq s)) mod capacity \<and>
     deq_ok capacity (length (cb_returned s)) (cb_stored s) (cb_deq s) \<and>
     cb_returned s = take (length (cb_returned s)) (cb_stored s) \<and> slots_ok (length (cb_returned s)) (cb_stored s) (cb_buf s)"

lemma mod_window:
  fixes a b n :: nat
  assumes "a \<le> b" and "b < a + n" and "a mod n = b mod n"
  shows "a = b"
proof -
  have "n dvd b - a" using assms(1,3) by (metis mod_eq_dvd_iff_nat)
  then show ?thesis using assms(1,2) by (metis add_diff_cancel_left' dvd_imp_le le_add_diff_inverse less_add_same_cancel1 less_diff_conv2 linorder_not_less add.commute not_gr_zero)
qed

lemma slots_get:
  assumes "slots_ok nout stored buf" and "0 < length buf"
  shows "buf ! (nout mod length buf) = (if nout < length stored then Some (stored ! nout) else None)"
    and "buf ! (length stored mod length buf) = None \<longleftrightarrow> length stored < nout + length buf"
proof -
  show "buf ! (nout mod length buf) = (if nout < length stored then Some (stored ! nout) else None)"
    using assms by (simp add: slots_ok_def)
  show "buf ! (length stored mod length buf) = None \<longleftrightarrow> length stored < nout + length buf"
  proof (cases "length stored < nout + length buf")
    case True
    then show ?thesis using assms by (simp add: slots_ok_def)
  next
    case False
    then have "length stored = nout + length buf" using assms by (simp add: slots_ok_def)
    then have "length stored mod length buf = nout mod length buf" by simp
    then show ?thesis using assms False by (simp add: slots_ok_def)
  qed
qed

lemma slots_store:
  assumes "slots_ok nout stored buf" and "length stored < nout + length buf"
  shows "slots_ok nout (stored @ [p]) (buf[length stored mod length buf := Some p])"
  unfolding slots_ok_def
proof (intro conjI allI impI)
  fix k assume k: "nout \<le> k \<and> k < nout + length (buf[length stored mod length buf := Some p])"
  have pos: "0 < length buf" using assms by (cases buf) (auto simp: slots_ok_def)
  show "buf[length stored mod length buf := Some p] ! (k mod length (buf[length stored mod length buf := Some p])) =
      (if k < length (stored @ [p]) then Some ((stored @ [p]) ! k) else None)"
  proof (cases "k = length stored")
    case True
    then show ?thesis using pos by simp
  next
    case False
    have "k mod length buf \<noteq> length stored mod length buf"
    proof
      assume eq: "k mod length buf = length stored mod length buf"
      have "nout \<le> length stored" using assms(1) by (simp add: slots_ok_def)
      then show False using mod_window [of k "length stored" "length buf"] mod_window [of "length stored" k "length buf"] eq k assms(2) False
        by (cases "k \<le> length stored") auto
    qed
    then show ?thesis using assms k False by (auto simp: slots_ok_def nth_append)
  qed
qed (use assms in \<open>auto simp: slots_ok_def\<close>)

lemma slots_clear:
  assumes "slots_ok nout stored buf" and "nout < length stored"
  shows "slots_ok (Suc nout) stored (buf[nout mod length buf := None])"
  unfolding slots_ok_def
proof (intro conjI allI impI)
  fix k assume k: "Suc nout \<le> k \<and> k < Suc nout + length (buf[nout mod length buf := None])"
  have pos: "0 < length buf" using assms by (cases buf) (auto simp: slots_ok_def)
  show "buf[nout mod length buf := None] ! (k mod length (buf[nout mod length buf := None])) = (if k < length stored then Some (stored ! k) else None)"
  proof (cases "k = nout + length buf")
    case True
    then show ?thesis using pos assms(1) by (simp add: slots_ok_def)
  next
    case False
    then have "k mod length buf \<noteq> nout mod length buf" using mod_window [of nout k "length buf"] k by auto
    then show ?thesis using assms(1) k False by (auto simp: slots_ok_def)
  qed
qed (use assms in \<open>auto simp: slots_ok_def\<close>)

lemma circ_new_inv: "0 < capacity \<Longrightarrow> circ_inv capacity (circbuf_new capacity 1)"
  by (simp add: circ_inv_def circbuf_new_def slots_ok_def)

lemma enq_step_inv:
  assumes inv: "circ_inv capacity s"
  shows "step_ok (circ_inv capacity) (enq_step 0 s)"
proof -
  obtain e where e: "cb_enq s = [e]" "cb_head s = (length (cb_stored s) + claimed e) mod capacity"
    "enq_ok capacity (length (cb_returned s)) (length (cb_stored s)) e" using inv by (auto simp: circ_inv_def)
  have c: "0 < capacity" "length (cb_buf s) = capacity" and sl: "slots_ok (length (cb_returned s)) (cb_stored s) (cb_buf s)"
    using inv by (simp_all add: circ_inv_def)
  have slot: "length (cb_stored s) mod capacity < length (cb_buf s)" using c by simp
  have free: "cb_buf s ! (length (cb_stored s) mod capacity) = None \<longleftrightarrow> length (cb_stored s) < length (cb_returned s) + capacity"
    using slots_get(2) [OF sl] c by simp
  show ?thesis
  proof (cases e)
    case (E_Store p icur)
    then have w: "length (cb_stored s) < length (cb_returned s) + capacity" "icur = length (cb_stored s) mod capacity" using e by simp_all
    have "slots_ok (length (cb_returned s)) (cb_stored s @ [p]) ((cb_buf s)[icur := Some p])"
      using slots_store [OF sl, of p] w c by simp
    moreover have "deq_ok capacity (length (cb_returned s)) (cb_stored s @ [p]) (cb_deq s)"
      using inv by (cases "cb_deq s") (auto simp: circ_inv_def nth_append)
    moreover have "length (cb_returned s) \<le> length (cb_stored s)" using sl by (simp add: slots_ok_def)
    ultimately have "circ_inv capacity (s\<lparr>cb_buf := (cb_buf s)[icur := Some p], cb_enq := [E_Idle], cb_stored := cb_stored s @ [p]\<rparr>)"
      using inv e E_Store c by (auto simp: circ_inv_def)
    moreover have "enq_step 0 s = Inr (s\<lparr>cb_buf := (cb_buf s)[icur := Some p], cb_enq := [E_Idle], cb_stored := cb_stored s @ [p]\<rparr>)"
      using e E_Store free w slot by (simp add: enq_step_def)
    ultimately show ?thesis by simp
  next
    case (E_Cas p icur)
    then show ?thesis using inv e c by (auto simp: enq_step_def circ_inv_def cb_capacity_def mod_Suc_eq)
  next
    case (E_Check p icur)
    then show ?thesis using inv e c free slot by (auto simp: enq_step_def circ_inv_def cb_capacity_def)
  next
    case (E_Load p)
    then show ?thesis using inv e c by (auto simp: enq_step_def circ_inv_def)
  qed (use e in \<open>simp add: enq_step_def\<close>)
qed

lemma take_Suc_snoc: "n < length xs \<Longrightarrow> ys = take n xs \<Longrightarrow> ys @ [xs ! n] = take (Suc n) xs"
  by (simp add: take_Suc_conv_app_nth)

lemma deq_step_inv:
  assumes inv: "circ_inv capacity s"
  shows "step_ok (circ_inv capacity) (deq_step s)"
proof -
  have c: "0 < capacity" "length (cb_buf s) = capacity" and sl: "slots_ok (length (cb_returned s)) (cb_stored s) (cb_buf s)"
    and tail: "cb_tail s = (length (cb_returned s) + passed (cb_deq s)) mod capacity"
    and d: "deq_ok capacity (length (cb_returned s)) (cb_stored s) (cb_deq s)"
    and ret: "cb_returned s = take (length (cb_returned s)) (cb_stored s)"
    using inv by (simp_all add: circ_inv_def)
  have slot: "length (cb_returned s) mod capacity < length (cb_buf s)" using c by simp
  have get: "cb_buf s ! (length (cb_returned s) mod capacity) =
      (if length (cb_returned s) < length (cb_stored s) then Some (cb_stored s ! length (cb_returned s)) else None)"
    using slots_get(1) [OF sl] c by simp
  show ?thesis
  proof (cases "cb_deq s")
    case D_Wait
    then show ?thesis using inv tail slot get by (auto simp: deq_step_def circ_inv_def)
  next
    case D_Take
    then show ?thesis using inv tail slot get d by (auto simp: deq_step_def circ_inv_def)
  next
    case (D_Incr p)
    then show ?thesis using inv tail c by (auto simp: deq_step_def circ_inv_def postincr_def cb_capacity_def mod_Suc_eq)
  next
    case (D_Clear p t)
    then have w: "length (cb_returned s) < length (cb_stored s)" "p = cb_stored s ! length (cb_returned s)" "t = length (cb_returned s) mod capacity"
      using d by simp_all
    have "slots_ok (Suc (length (cb_returned s))) (cb_stored s) ((cb_buf s)[t := None])" using slots_clear [OF sl w(1)] w(3) c by simp
    moreover have "cb_returned s @ [p] = take (Suc (length (cb_returned s))) (cb_stored s)" using take_Suc_snoc [OF w(1) ret] w(2) by simp
    moreover have "enq_ok capacity (Suc (length (cb_returned s))) (length (cb_stored s)) e"
      if "enq_ok capacity (length (cb_returned s)) (length (cb_stored s)) e" for e using that by (cases e) auto
    ultimately show ?thesis using inv D_Clear by (auto simp: deq_step_def circ_inv_def)
  qed (simp add: deq_step_def)
qed

lemma circ_exec_inv:
  assumes inv: "circ_inv capacity s"
  shows "step_ok (circ_inv capacity) (circ_exec a s)"
proof (cases a)
  case (Enq i p)
  then show ?thesis using inv by (auto simp: circ_inv_def)
next
  case (Enq_Step i)
  then show ?thesis using enq_step_inv [OF inv] inv by (auto simp: circ_inv_def)
next
  case Deq
  then show ?thesis using inv by (auto simp: circ_inv_def)
next
  case Deq_Step
  then show ?thesis using deq_step_inv [OF inv] by simp
qed

lemma circ_reach_inv: "circ_reach capacity 1 s \<Longrightarrow> 0 < capacity \<Longrightarrow> circ_inv capacity s"
proof (induction rule: circ_reach.induct)
  case start
  then show ?case by (rule circ_new_inv)
next
  case (step s a s')
  then show ?case using circ_exec_inv [of capacity s a] by simp
qed

text \<open>\<^verbatim>\<open>peekall\<close> walks through the stored items that were not returned.\<close>

lemma peek_loop_ok:
  assumes sl: "slots_ok nout stored buf" and pos: "0 < length buf" and j: "nout + j \<le> length stored" "j < length buf" "j \<le> limit"
    and ps: "ps = take j (drop nout stored)" and k: "length buf - j < k"
  shows "peek_loop k buf (nout mod length buf) limit ((nout + j) mod length buf) ps = Inr (take limit (drop nout stored))"
  using j ps k
proof (induction k arbitrary: j ps)
  case (Suc k)
  have idx: "(nout + j) mod length buf < length buf" using pos by simp
  have at: "buf ! ((nout + j) mod length buf) = (if nout + j < length stored then Some (stored ! (nout + j)) else None)"
    using sl Suc.prems(2) by (simp add: slots_ok_def)
  have cap: "length stored \<le> nout + length buf" using sl by (simp add: slots_ok_def)
  have len: "length ps = j" using Suc.prems(1,4) by simp
  show ?case
  proof (cases "nout + j < length stored \<and> j < limit")
    case False
    then show ?thesis using at idx len Suc.prems by auto
  next
    case True
    have snoc: "ps @ [stored ! (nout + j)] = take (Suc j) (drop nout stored)" 
      using take_Suc_conv_app_nth [of j "drop nout stored"] True Suc.prems(4) by (simp add: less_diff_conv add.commute)
    have nxt: "postincr (length buf) ((nout + j) mod length buf) = (nout + Suc j) mod length buf" by (simp add: postincr_def mod_Suc_eq)
    show ?thesis
    proof (cases "Suc j = length buf")
      case full: True
      have "(nout + Suc j) mod length buf = nout mod length buf" using full by simp
      moreover have "length (drop nout stored) \<le> Suc j" using full cap by auto
      then have "take (Suc j) (drop nout stored) = take limit (drop nout stored)" using True by (simp only: take_all) (simp add: take_all)
      ultimately show ?thesis using at idx len True snoc nxt by (simp add: Let_def)
    next
      case False
      have "(nout + Suc j) mod length buf \<noteq> nout mod length buf" using mod_window [of nout "nout + Suc j" "length buf"] False Suc.prems(2) by auto
      then show ?thesis using at idx len True snoc nxt Suc.IH [of "Suc j" "ps @ [stored ! (nout + j)]"] False Suc.prems
        by (simp add: Let_def) linarith
    qed
  qed
qed simp

text \<open>
  C38.  With one enqueuer and one dequeuer the circular buffer is a bounded first-in first-out queue, however the two
  threads interleave: no \<^verbatim>\<open>INVARIANT\<close> fails, the items returned so far are the first ones stored, in order, at most
  \<open>capacity\<close> items are stored and not returned, and while no item is being removed \<^verbatim>\<open>peekall\<close> gives exactly the first of
  these, up to its limit.
\<close>

theorem circbuf_is_fifo:
  assumes "circ_reach capacity 1 s" and "0 < capacity"
  shows "(\<forall>a e. circ_exec a s = Inl e \<longrightarrow> e = Spins) \<and>
    (\<exists>rest. cb_stored s = cb_returned s @ rest \<and> length rest \<le> capacity \<and> (passed (cb_deq s) = 0 \<longrightarrow> peekall limit s = Inr (take limit rest)))"
proof -
  have inv: "circ_inv capacity s" by (rule circ_reach_inv [OF assms])
  have sl: "slots_ok (length (cb_returned s)) (cb_stored s) (cb_buf s)" and c: "length (cb_buf s) = capacity"
    and ret: "cb_returned s = take (length (cb_returned s)) (cb_stored s)" using inv by (simp_all add: circ_inv_def)
  let ?rest = "drop (length (cb_returned s)) (cb_stored s)"
  have all: "cb_stored s = cb_returned s @ ?rest" using ret by (metis append_take_drop_id)
  have "length (cb_stored s) \<le> length (cb_returned s) + capacity" using sl c by (simp add: slots_ok_def)
  then have len: "length ?rest \<le> capacity" by simp
  have peek: "peekall limit s = Inr (take limit ?rest)" if "passed (cb_deq s) = 0"
  proof -
    have "cb_tail s = length (cb_returned s) mod capacity" using inv that by (simp add: circ_inv_def)
    then show ?thesis using peek_loop_ok [OF sl, of 0 limit "[]" "Suc capacity"] sl c assms(2)
      by (simp add: peekall_def cb_capacity_def slots_ok_def)
  qed
  have spin: "e = Spins" if "circ_exec a s = Inl e" for a e using circ_exec_inv [OF inv, of a] that by simp
  show ?thesis using spin by (intro conjI allI impI exI [of _ ?rest] all len peek)
qed

definition run_circ :: "'a circ_action list \<Rightarrow> 'a circbuf \<Rightarrow> 'a circbuf result" where
  "run_circ as s = for_each circ_exec as s"

lemma run_circ_reach: "circ_reach capacity n s \<Longrightarrow> run_circ as s = Inr s' \<Longrightarrow> circ_reach capacity n s'"
  unfolding run_circ_def
proof (induction as arbitrary: s)
  case (Cons a as)
  then obtain s1 where "circ_exec a s = Inr s1" "for_each circ_exec as s1 = Inr s'" by (auto simp: result_simps)
  then show ?case using Cons.IH circ_reach.step [OF Cons.prems(1)] by blast
qed simp

lemmas circ_defs = run_circ_def circbuf_new_def enq_step_def deq_step_def cb_capacity_def postincr_def

theorem circbuf_is_fifo_witness:
  "\<exists>s. run_circ ([Enq 0 (7 :: nat)] @ replicate 4 (Enq_Step 0) @ [Enq 0 8] @ replicate 4 (Enq_Step 0) @ Deq # replicate 4 Deq_Step) (circbuf_new 2 1) = Inr s \<and>
    cb_returned s = [7] \<and> (\<exists>rest. cb_stored s = cb_returned s @ rest \<and> length rest \<le> 2 \<and> peekall 5 s = Inr (take 5 rest))"
proof -
  let ?as = "[Enq 0 (7 :: nat)] @ replicate 4 (Enq_Step 0) @ [Enq 0 8] @ replicate 4 (Enq_Step 0) @ Deq # replicate 4 Deq_Step"
  obtain s where s: "run_circ ?as (circbuf_new 2 1) = Inr s" "cb_returned s = [7]" "cb_deq s = D_Idle"
    by (simp add: circ_defs numeral_eq_Suc)
  from circbuf_is_fifo [OF run_circ_reach [OF circ_reach.start s(1)], of 5] s show ?thesis by auto
qed

section \<open>Several enqueuers\<close>

text \<open>
  C39.  The comment on the class promises safety for many concurrent enqueuers.  An enqueuer that is delayed between
  its look at the slot and its compare-and-swap does not notice that the head went around the buffer in between: the
  compare-and-swap succeeds on a slot that is full again, the \<^verbatim>\<open>INVARIANT\<close> behind it fails, and without it an item that
  nobody took is overwritten.
\<close>

theorem circbuf_enqueuers_collide:
  "\<exists>s. circ_reach 2 2 s \<and> cb_stored s = [11, 12 :: nat] \<and> cb_returned s = [] \<and> circ_exec (Enq_Step 0) s = Inl Assert_Fail"
proof -
  let ?as = "[Enq 0 10, Enq_Step 0, Enq_Step 0, Enq 1 11, Enq_Step 1, Enq_Step 1, Enq_Step 1, Enq_Step 1,
    Enq 1 12, Enq_Step 1, Enq_Step 1, Enq_Step 1, Enq_Step 1, Enq_Step 0] :: nat circ_action list"
  obtain s where s: "run_circ ?as (circbuf_new 2 2) = Inr s" "cb_stored s = [11, 12]" "cb_returned s = []" "circ_exec (Enq_Step 0) s = Inl Assert_Fail"
    by (simp add: circ_defs numeral_eq_Suc)
  from run_circ_reach [OF circ_reach.start s(1)] s(2-4) show ?thesis by blast
qed

end
