(* ===== verification/Spec2Isabelle.thy ===== *)
theory Spec2Isabelle
  imports Sto_Objects Log_Serialize Log_Replay Paxos_Server Masstree_Permuter Masstree_Nodeversion
    Masstree_Search Masstree_Key Masstree_Tree Masstree_Links Masstree_Stringbag Silo_Serializer Silo_Txn Silo_Map
    Silo_Rcu Silo_Circbuf
begin

text \<open>
  Rolis is a replicated in-memory transactional database.  Worker threads run transactions of the
  software transactional memory STO on the trees of Masstree; every committed transaction appends its
  writes to a log buffer of its thread; full buffers are replicated through Paxos; followers replay the
  entries into their own database, where the newer commit identifier is meant to win.  The repository also holds
  Silo, the engine STO replaced: multi-version tuples, optimistic transactions over Masstree and the
  containers they use.  This development models both engines, the log and its replay, the message
  handlers of a Paxos replica, and the nodes of Masstree with insertion and search, each by definitions that follow the
  C++ sources, and proves what the rest of the system relies on.

  \<^bold>\<open>Conventions.\<close>  \<^verbatim>\<open>Rolis_Prelude\<close> has the machine integers (\<^verbatim>\<open>uint64_t\<close> is a 64-bit word), the errors a
  piece of code may end in (a failed assertion, an access out of bounds, an exception, a wait for another
  thread), loops over lists and byte buffers.  An operation that may fail returns \<open>Inl\<close> of the error or
  \<open>Inr\<close> of its result and the new state.  Assertions and \<^verbatim>\<open>INVARIANT\<close> are active.  Event counters, printing,
  profiling and memory fences are left out everywhere.  Shared objects live in explicit heaps, addressed by
  numbers.

  \<^bold>\<open>The STO engine\<close> (\<^verbatim>\<open>src/benchmarks/sto\<close>).
  \<^item> \<^verbatim>\<open>Transaction_Tid\<close>: version words (\<^verbatim>\<open>Interface.hh\<close>).  The compare-and-swap loops are steps of an
    interleaving model; at most one thread holds a lock.  The counter of \<^verbatim>\<open>TCommutativeVersion\<close> is exact up to
    127 owners, in every sequence of locks, unlocks and version changes, and wraps at 128.
  \<^item> \<^verbatim>\<open>Trans_Item\<close>, \<^verbatim>\<open>Trans_Set\<close>: items, the transactional set with its hash table, and the proxies
    (\<^verbatim>\<open>TransItem.hh\<close>, \<^verbatim>\<open>Transaction.hh\<close>, \<^verbatim>\<open>Transaction.cc\<close>): the invariant between set and table under every operation, lookup equals
    linear search, and what happens when the 16-bit base of the table wraps.
  \<^item> \<^verbatim>\<open>Sto_Commit\<close>, \<^verbatim>\<open>Sto_Objects\<close>: \<^verbatim>\<open>try_commit\<close> with its lock, check and install phases over an interface of
    transactional objects (a locale), interpreted by \<^verbatim>\<open>TBox\<close> and \<^verbatim>\<open>TArray\<close>: a commit installs the write set under
    a fresh commit id with all validated reads current, an abort changes nothing and has a reason, nothing stays locked.

  \<^bold>\<open>The log.\<close>
  \<^item> \<^verbatim>\<open>Log_Format\<close>, \<^verbatim>\<open>Log_Serialize\<close>: the layout of an entry and \<^verbatim>\<open>serialize_util\<close>, which appends a transaction
    to the buffer byte by byte and submits a full buffer; it never checks the remaining room.
  \<^item> \<^verbatim>\<open>Stuffed_Str\<close>, \<^verbatim>\<open>Mass_Trans\<close>: the cells of the tables (\<^verbatim>\<open>stuffed_str.hh\<close>) and the put the replay makes
    (\<^verbatim>\<open>MassTrans.hh\<close>) with its transaction: compare, observe, resize, lock, validate, install.
  \<^item> \<^verbatim>\<open>Log_Replay\<close>: the parser of the follower and the loop around each put (\<^verbatim>\<open>ThreadPool.cc\<close>, \<^verbatim>\<open>ReplayDB.cc\<close>), for one
    thread: parsing inverts the encoding; as long as the values of a key fit into each other's cells, replay in any
    order shows the same values, those of the newest transactions; a newer value that needs a larger cell is lost.

  \<^bold>\<open>Paxos\<close> (\<^verbatim>\<open>src/third-party/paxos/src/deptran/paxos\<close>).  \<^verbatim>\<open>Paxos_Server\<close> has every message handler of a replica,
  each as one step: slots are executed in order, once; under the batch handlers a superseded ballot is rejected; a
  heartbeat can break this promise.

  \<^bold>\<open>Masstree\<close> (\<^verbatim>\<open>src/masstree\<close>).
  \<^item> \<^verbatim>\<open>Masstree_Permuter\<close>, \<^verbatim>\<open>Masstree_Nodeversion\<close>, \<^verbatim>\<open>Masstree_Search\<close> and \<^verbatim>\<open>Masstree_Key\<close>: the permutation word of
    a leaf, the version word of a node, the searches in a node and the keys with their layers.
  \<^item> \<^verbatim>\<open>Masstree_Leaf\<close>: the arrays of a leaf and the insertion of a key (\<^verbatim>\<open>masstree_insert.hh\<close>, \<^verbatim>\<open>masstree_split.hh\<close>)
    into a free slot, after a rearrangement of the slots, or with a split of the leaf.  It always ends, keeps
    the order of the entries and the lower bound of the leaf, and never separates keys with the same slice.
    What a leaf needs of its permuter is the locale \<open>slot_order\<close>.
  \<^item> \<^verbatim>\<open>Masstree_Internode\<close>, \<^verbatim>\<open>Masstree_Tree\<close>: inner nodes, the loop of \<^verbatim>\<open>make_split\<close> that enters a split node into
    its parents, and \<^verbatim>\<open>reach_leaf\<close>.  A tree refines a list of leaves with separators: the loop inserts into both
    lists, a search finds its position in the separators.  The search in a node is the locale \<open>upper_search\<close>.
  \<^item> \<^verbatim>\<open>Masstree_Links\<close>: the doubly linked list of leaves (\<^verbatim>\<open>btree_leaflink.hh\<close>).
  \<^item> \<^verbatim>\<open>Masstree_Stringbag\<close>: the string bags for key suffixes (\<^verbatim>\<open>stringbag.hh\<close>), behind the locale \<open>suffix_store\<close>: a
    bag of the size \<^verbatim>\<open>safe_size\<close> holds all its strings; one of the largest size the constructor allows wraps.

  \<^bold>\<open>The Silo engine\<close> (\<^verbatim>\<open>src\<close>).
  \<^item> \<^verbatim>\<open>Silo_Serializer\<close>: variable-length integers and the record serializers (\<^verbatim>\<open>varint.h\<close>,
    \<^verbatim>\<open>record/serializer.h\<close>), one contract, interpreted for every integer type.
  \<^item> \<^verbatim>\<open>Silo_Tid\<close>, \<^verbatim>\<open>Silo_Tuple\<close>: transaction identifiers, tuple headers and version chains (\<^verbatim>\<open>tuple.h\<close>):
    what the version check of a reader notices, reads give the version at an identifier, writes refine an update of the history of the
    record, snapshots survive writes.
  \<^item> \<^verbatim>\<open>Silo_Txn\<close>: transactions (\<^verbatim>\<open>txn.h\<close>, \<^verbatim>\<open>txn_impl.h\<close>, \<^verbatim>\<open>txn_proto2_impl.h\<close>, \<^verbatim>\<open>base_txn_btree.h\<close>): commit
    validates reads and scans, an aborted commit leaves no trace and takes its insertions out of the trees, identifiers grow.  A tree is a map with
    the version of the leaf of each key.
  \<^item> \<^verbatim>\<open>Silo_Vector\<close>, \<^verbatim>\<open>Silo_Map\<close>: the containers of the read, write and absent sets, over raw memory, refined to
    lists and partial functions through contracts of a vector, a range and a map; the clear of a map that
    has grown breaks the contract.
  \<^item> \<^verbatim>\<open>Silo_Ticker\<close>: the ticker thread and the guards of the other threads (\<^verbatim>\<open>ticker.h\<close>, \<^verbatim>\<open>spinlock.h\<close>), with the
    accesses to shared memory as steps (the end of a guard is one step): a guard pins its tick, no \<^verbatim>\<open>INVARIANT\<close> fails, and every round ends.
  \<^item> \<^verbatim>\<open>Silo_Pxqueue\<close>: the queues of deletions with their groups and free groups on a heap (\<^verbatim>\<open>pxqueue.h\<close>), refined to
    lists of elements with ticks; what their client relies on is the locale \<open>tick_queue\<close>.
  \<^item> \<^verbatim>\<open>Silo_Rcu\<close>: deferred deletion (\<^verbatim>\<open>rcu.h\<close>, \<^verbatim>\<open>rcu.cc\<close>) on top of both: regions, \<^verbatim>\<open>free_with_fn\<close>, \<^verbatim>\<open>do_cleanup\<close>, all
    threads interleaved.  No memory is deleted while a thread is in a region that was open when it was handed over.
  \<^item> \<^verbatim>\<open>Silo_Circbuf\<close>: the circular buffer between a core and its logger (\<^verbatim>\<open>circbuf.h\<close>): a bounded queue for one enqueuer
    and one dequeuer; two enqueuers can collide.

  \<^bold>\<open>Bounds and fuel.\<close>  Loops of the code are structural recursions over lists, or \<open>for_each\<close>.  Where a loop
  waits for another thread, the model gives \<open>Spins\<close> in the states in which it would wait.  \<open>walk\<close>, the loop
  over a range, takes fuel; one more than the number of elements is shown to be enough; so does
  the walk along a chain of buckets, where more rounds than buckets mean a cycle.  \<open>put_rounds\<close> is run
  with two rounds, which is what the code can need with the other threads stopped.  \<open>mid_loop\<close>, the search for
  the place to split a leaf, has two rounds more than the leaf has keys, and more than it needs when two slices
  differ; with equal slices only it never ends.  \<open>split_up\<close> and \<open>reach_leaf\<close> take one round for each level of
  the tree and one more.  The walks along the groups of a \<^verbatim>\<open>px_queue\<close> have one round more than groups were ever
  allocated, and the loop over its elements one more than these groups can hold; both are shown to be enough.  A round of
  the ticker is bounded by \<open>round_left\<close>.  The ticker's counters are 64-bit numbers; its properties are about runs in which
  they do not wrap.

  \<^bold>\<open>Not modelled.\<close>  The coordinator side of Paxos and the RPC library (coroutines and sockets); in
  Masstree the new layers below a leaf, removal, scans, the place of the string bags in a leaf (a leaf has a suffix for
  each slot instead) and the interleaving of several threads in the tree; the memory allocator below deferred deletion; range scans and the reaper of Silo, the benchmark drivers,
  tests, command-line tools and the clients in \<^verbatim>\<open>src/masstree\<close>.
\<close>

end
